(* ===== verification/Wallace_Prelude.thy ===== *)
theory Wallace_Prelude
  imports Main "HOL-Library.Word" "HOL-Library.State_Monad"
begin

text \<open>
  What the component theories share.

  \<^item> Machine words: the kernel's \<open>BIT\<close>, \<open>GENMASK\<close>, \<open>FIELD_GET\<close> and \<open>FIELD_PREP\<close>
    over \<open>'a word\<close>. A field is given by the two bit numbers of its \<open>GENMASK(h, l)\<close>.
  \<^item> The error numbers the sources return, as the integers of the kernel's ABI.
  \<^item> Calls out of the modelled code. Code that is not in the repository (the register bus,
    the block layer, RTKit, the device tree, libc) is an argument \<open>E\<close> of the definitions
    that use it: a function from the history of earlier calls and the present request to the
    response. A driver function is a \<open>State_Monad\<close> program over a \<open>world\<close>, which holds
    that history and the driver's own state, so every effect of a function and its order is
    visible in the history it leaves.
  \<^item> A weakest-precondition transformer \<open>wp\<close> and the trace predicate \<open>emits\<close> for such
    programs, with their rules in the collections \<open>wp_simps\<close> and \<open>emits_intros\<close>.
\<close>

unbundle bit_operations_syntax

type_synonym u8 = "8 word"
type_synonym u16 = "16 word"
type_synonym u32 = "32 word"
type_synonym u64 = "64 word"

named_theorems wp_simps \<open>how \<open>wp\<close> computes through a program\<close>
named_theorems wp_intros \<open>rules that introduce \<open>wp\<close> over an arbitrary environment\<close>
named_theorems emits_intros \<open>how \<open>emits\<close> is established for a program\<close>
named_theorems field_simps_bits \<open>bit facts about register fields\<close>

section \<open>Bits and register fields\<close>

type_synonym field = "nat \<times> nat"

definition BIT :: "nat \<Rightarrow> 'a::len word" where
  "BIT n = push_bit n 1"

definition GENMASK :: "field \<Rightarrow> 'a::len word" where
  "GENMASK f = push_bit (snd f) (mask (Suc (fst f) - snd f))"

definition FIELD_GET :: "field \<Rightarrow> 'a::len word \<Rightarrow> 'a word" where
  "FIELD_GET f v = drop_bit (snd f) (v AND GENMASK f)"

definition FIELD_PREP :: "field \<Rightarrow> 'a::len word \<Rightarrow> 'a word" where
  "FIELD_PREP f v = push_bit (snd f) v AND GENMASK f"

lemma bit_BIT [field_simps_bits]:
  "bit (BIT n :: 'a::len word) m \<longleftrightarrow> m = n \<and> n < LENGTH('a)"
  by (auto simp: BIT_def bit_simps)

lemma bit_GENMASK [field_simps_bits]:
  "bit (GENMASK (h, l) :: 'a::len word) m \<longleftrightarrow> l \<le> m \<and> m \<le> h \<and> m < LENGTH('a)"
  by (auto simp: GENMASK_def bit_simps)

lemma bit_FIELD_GET [field_simps_bits]:
  "bit (FIELD_GET (h, l) (v :: 'a::len word)) m \<longleftrightarrow> l + m \<le> h \<and> bit v (l + m)"
  by (auto simp: FIELD_GET_def bit_simps field_simps_bits dest: bit_imp_le_length)

lemma bit_FIELD_PREP [field_simps_bits]:
  "bit (FIELD_PREP (h, l) (v :: 'a::len word)) m
     \<longleftrightarrow> l \<le> m \<and> m \<le> h \<and> m < LENGTH('a) \<and> bit v (m - l)"
  by (auto simp: FIELD_PREP_def bit_simps field_simps_bits)

lemma FIELD_GET_PREP:
  "h < LENGTH('a) \<Longrightarrow> l \<le> h \<Longrightarrow>
   FIELD_GET (h, l) (FIELD_PREP (h, l) (v :: 'a::len word)) = take_bit (Suc h - l) v"
  by (rule bit_word_eqI) (auto simp: field_simps_bits bit_simps)

lemma FIELD_GET_PREP_disjoint:
  "h < l' \<or> h' < l \<Longrightarrow> FIELD_GET (h, l) (FIELD_PREP (h', l') (v :: 'a::len word)) = 0"
  by (rule bit_word_eqI) (auto simp: field_simps_bits)

lemma FIELD_GET_or:
  "FIELD_GET f (a OR b :: 'a::len word) = FIELD_GET f a OR FIELD_GET f b"
  by (cases f, rule bit_word_eqI) (auto simp: field_simps_bits bit_simps)

lemma FIELD_GET_bound:
  assumes "l \<le> h"
  shows "unat (FIELD_GET (h, l) (v :: 'a::len word)) < 2 ^ (Suc h - l)"
proof -
  have "FIELD_GET (h, l) v = take_bit (Suc h - l) (FIELD_GET (h, l) v)"
    by (rule bit_word_eqI) (use assms in \<open>auto simp: field_simps_bits bit_simps\<close>)
  then show ?thesis
    by (metis take_bit_nat_less_exp unsigned_take_bit_eq)
qed

lemma and_BIT_eq_0: "v AND BIT n = (0 :: 'a::len word) \<longleftrightarrow> \<not> bit v n"
proof
  assume "v AND BIT n = 0"
  then have "\<not> bit (v AND BIT n) n" by simp
  then show "\<not> bit v n" by (auto simp: bit_simps field_simps_bits dest: bit_imp_le_length)
next
  assume "\<not> bit v n"
  then show "v AND BIT n = 0" by (intro bit_word_eqI) (auto simp: bit_simps field_simps_bits)
qed

lemma unat_take_bit_id: "unat v < 2 ^ n \<Longrightarrow> take_bit n (v :: 'a::len word) = v"
  by (metis take_bit_nat_eq_self unsigned_take_bit_eq unsigned_word_eqI)

lemma unat_ucast_u64: "unat (ucast (v :: u32) :: u64) = unat v"
proof -
  have "unat v < 2 ^ 64" using unsigned_less [of v, where 'a = nat] by simp
  then show ?thesis by (simp add: unsigned_ucast_eq take_bit_nat_eq_self)
qed

section \<open>Error numbers\<close>

abbreviation (input) "ENOENT \<equiv> (2 :: int)"
abbreviation (input) "EINTR \<equiv> (4 :: int)"
abbreviation (input) "EIO \<equiv> (5 :: int)"
abbreviation (input) "ENXIO \<equiv> (6 :: int)"
abbreviation (input) "EAGAIN \<equiv> (11 :: int)"
abbreviation (input) "ENOMEM \<equiv> (12 :: int)"
abbreviation (input) "EBUSY \<equiv> (16 :: int)"
abbreviation (input) "ENODEV \<equiv> (19 :: int)"
abbreviation (input) "EINVAL \<equiv> (22 :: int)"
abbreviation (input) "ETIMEDOUT \<equiv> (110 :: int)"
abbreviation (input) "EINPROGRESS \<equiv> (115 :: int)"
abbreviation (input) "EPROBE_DEFER \<equiv> (517 :: int)"

section \<open>Programs over a call history\<close>

record ('q, 'r, 'd) world =
  hist :: "('q \<times> 'r) list"
  drv :: 'd

type_synonym ('q, 'r) env = "('q \<times> 'r) list \<Rightarrow> 'q \<Rightarrow> 'r"
type_synonym ('q, 'r, 'd, 'a) prog = "(('q, 'r, 'd) world, 'a) state"

abbreviation return :: "'a \<Rightarrow> ('s, 'a) state" where
  "return \<equiv> State_Monad.return"

definition call :: "('q, 'r) env \<Rightarrow> 'q \<Rightarrow> ('q, 'r, 'd, 'r) prog" where
  "call E q = State (\<lambda>w. (E (hist w) q, w\<lparr>hist := hist w @ [(q, E (hist w) q)]\<rparr>))"

definition getd :: "('q, 'r, 'd, 'd) prog" where
  "getd = State (\<lambda>w. (drv w, w))"

definition modd :: "('d \<Rightarrow> 'd) \<Rightarrow> ('q, 'r, 'd, unit) prog" where
  "modd f = State (\<lambda>w. ((), w\<lparr>drv := f (drv w)\<rparr>))"

definition exec :: "('q, 'r) env \<Rightarrow> 'q \<Rightarrow> ('q, 'r, 'd, unit) prog" where
  "exec E q = do { call E q; return () }"

definition whenM :: "bool \<Rightarrow> ('s, unit) state \<Rightarrow> ('s, unit) state" where
  "whenM b m = (if b then m else return ())"

text \<open>A loop over the elements of a list, as the sources' counting loops are.\<close>

fun for_each :: "'a list \<Rightarrow> ('a \<Rightarrow> ('s, unit) state) \<Rightarrow> ('s, unit) state" where
  "for_each [] f = return ()"
| "for_each (x # xs) f = do { f x; for_each xs f }"

lemma run_call [simp]:
  "run_state (call E q) w = (E (hist w) q, w\<lparr>hist := hist w @ [(q, E (hist w) q)]\<rparr>)"
  by (simp add: call_def)

lemma run_getd [simp]: "run_state getd w = (drv w, w)"
  by (simp add: getd_def)

lemma run_modd [simp]: "run_state (modd f) w = ((), w\<lparr>drv := f (drv w)\<rparr>)"
  by (simp add: modd_def)

lemma run_exec [simp]:
  "run_state (exec E q) w = ((), w\<lparr>hist := hist w @ [(q, E (hist w) q)]\<rparr>)"
  by (simp add: exec_def)

lemma run_whenM [simp]: "run_state (whenM b m) w = (if b then run_state m w else ((), w))"
  by (simp add: whenM_def)

lemma run_if [simp]:
  "run_state (if b then m else n) w = (if b then run_state m w else run_state n w)"
  by simp

definition reqs :: "('q \<times> 'r) list \<Rightarrow> 'q list" where
  "reqs h = map fst h"

lemma reqs_simps [simp]: "reqs [] = []" "reqs (x # h) = fst x # reqs h" "reqs (h @ k) = reqs h @ reqs k"
  by (simp_all add: reqs_def)

subsection \<open>Weakest preconditions\<close>

definition wp :: "('s, 'a) state \<Rightarrow> ('a \<Rightarrow> 's \<Rightarrow> bool) \<Rightarrow> 's \<Rightarrow> bool" where
  "wp m Q s = (case run_state m s of (a, s') \<Rightarrow> Q a s')"

lemma wpD: "wp m Q s \<Longrightarrow> run_state m s = (a, s') \<Longrightarrow> Q a s'"
  by (simp add: wp_def)

lemma wpI: "(\<And>a s'. run_state m s = (a, s') \<Longrightarrow> Q a s') \<Longrightarrow> wp m Q s"
  by (simp add: wp_def split: prod.splits)

lemma wp_mono: "wp m Q s \<Longrightarrow> (\<And>a s'. Q a s' \<Longrightarrow> R a s') \<Longrightarrow> wp m R s"
  by (simp add: wp_def split: prod.splits)

lemma wp_return [wp_simps]: "wp (return a) Q s = Q a s"
  by (simp add: wp_def)

lemma wp_bind [wp_simps]: "wp (State_Monad.bind m f) Q s = wp m (\<lambda>a. wp (f a) Q) s"
  by (simp add: wp_def split: prod.splits)

lemma wp_call [wp_simps]:
  "wp (call E q) Q w = Q (E (hist w) q) (w\<lparr>hist := hist w @ [(q, E (hist w) q)]\<rparr>)"
  by (simp add: wp_def)

lemma wp_getd [wp_simps]: "wp getd Q w = Q (drv w) w"
  by (simp add: wp_def)

lemma wp_modd [wp_simps]: "wp (modd f) Q w = Q () (w\<lparr>drv := f (drv w)\<rparr>)"
  by (simp add: wp_def)

lemma wp_if [wp_simps]: "wp (if b then m else n) Q s = (if b then wp m Q s else wp n Q s)"
  by simp

lemma wp_exec [wp_simps]:
  "wp (exec E q) Q w = Q () (w\<lparr>hist := hist w @ [(q, E (hist w) q)]\<rparr>)"
  by (simp add: wp_def)

lemma wp_whenM [wp_simps]: "wp (whenM b m) Q s = (if b then wp m Q s else Q () s)"
  by (simp add: wp_def)

lemma wp_case_prod [wp_simps]:
  "wp (case x of (a, b) \<Rightarrow> f a b) Q s = wp (f (fst x) (snd x)) Q s"
  by (simp add: case_prod_beta)

lemma wp_let [wp_simps]: "wp (Let v f) Q s = wp (f v) Q s"
  by simp

text \<open>
  The same as introduction rules, for goals over an arbitrary environment: the response of a
  call becomes a fresh variable, tied to the environment by \<open>answers\<close>, so that a later
  call's history does not repeat the earlier ones' responses.
\<close>

definition answers :: "('q, 'r) env \<Rightarrow> ('q \<times> 'r) list \<Rightarrow> 'q \<Rightarrow> 'r \<Rightarrow> bool" where
  "answers E h q r \<longleftrightarrow> E h q = r"

lemma wp_returnI [wp_intros]: "Q a s \<Longrightarrow> wp (return a) Q s"
  by (simp add: wp_simps)

lemma wp_bindI [wp_intros]: "wp m (\<lambda>a. wp (f a) Q) s \<Longrightarrow> wp (State_Monad.bind m f) Q s"
  by (simp add: wp_simps)

lemma wp_callI [wp_intros]:
  "(\<And>r. answers E (hist w) q r \<Longrightarrow> Q r (w\<lparr>hist := hist w @ [(q, r)]\<rparr>)) \<Longrightarrow> wp (call E q) Q w"
  by (simp add: wp_simps answers_def)

lemma wp_execI [wp_intros]:
  "(\<And>r. answers E (hist w) q r \<Longrightarrow> Q () (w\<lparr>hist := hist w @ [(q, r)]\<rparr>)) \<Longrightarrow> wp (exec E q) Q w"
  by (simp add: wp_simps answers_def)

lemma wp_getdI [wp_intros]: "Q (drv w) w \<Longrightarrow> wp getd Q w"
  by (simp add: wp_simps)

lemma wp_moddI [wp_intros]: "Q () (w\<lparr>drv := f (drv w)\<rparr>) \<Longrightarrow> wp (modd f) Q w"
  by (simp add: wp_simps)

lemma wp_ifI [wp_intros]:
  "(b \<Longrightarrow> wp m Q s) \<Longrightarrow> (\<not> b \<Longrightarrow> wp n Q s) \<Longrightarrow> wp (if b then m else n) Q s"
  by simp

lemma wp_whenI [wp_intros]: "(b \<Longrightarrow> wp m Q s) \<Longrightarrow> (\<not> b \<Longrightarrow> Q () s) \<Longrightarrow> wp (whenM b m) Q s"
  by (simp add: wp_simps)

lemma wp_case_prodI [wp_intros]:
  "(\<And>a b. x = (a, b) \<Longrightarrow> wp (f a b) Q s) \<Longrightarrow> wp (case x of (a, b) \<Rightarrow> f a b) Q s"
  by (cases x) simp

lemma wp_letI [wp_intros]: "wp (f v) Q s \<Longrightarrow> wp (Let v f) Q s"
  by simp

lemma wp_case_optionI [wp_intros]:
  "(x = None \<Longrightarrow> wp m Q s) \<Longrightarrow> (\<And>y. x = Some y \<Longrightarrow> wp (f y) Q s) \<Longrightarrow>
   wp (case x of None \<Rightarrow> m | Some y \<Rightarrow> f y) Q s"
  by (cases x) simp_all

lemma wp_case_sumI [wp_intros]:
  "(\<And>y. x = Inl y \<Longrightarrow> wp (f y) Q s) \<Longrightarrow> (\<And>y. x = Inr y \<Longrightarrow> wp (g y) Q s) \<Longrightarrow>
   wp (case x of Inl y \<Rightarrow> f y | Inr y \<Rightarrow> g y) Q s"
  by (cases x) simp_all

text \<open>A conditional call without a branch in the proof.\<close>

lemma wp_when_execI:
  "(\<And>r. answers E (hist w) q r \<Longrightarrow> Q () (w\<lparr>hist := hist w @ (if b then [(q, r)] else [])\<rparr>)) \<Longrightarrow>
   wp (whenM b (exec E q)) Q w"
  by (cases b; cases w) (simp_all add: wp_simps answers_def)

lemma wp_conj: "wp m Q s \<Longrightarrow> wp m R s \<Longrightarrow> wp m (\<lambda>a t. Q a t \<and> R a t) s"
  by (simp add: wp_def split: prod.splits)

text \<open>Using what is known of a called program.\<close>

lemma wp_use: "wp m R s \<Longrightarrow> (\<And>a t. R a t \<Longrightarrow> Q a t) \<Longrightarrow> wp m Q s"
  by (rule wp_mono)

lemma wp_for_each:
  assumes "I xs s"
    and step: "\<And>y ys t. y \<in> set xs \<Longrightarrow> I (y # ys) t \<Longrightarrow> wp (f y) (\<lambda>_. I ys) t"
    and fin: "\<And>t. I [] t \<Longrightarrow> Q () t"
  shows "wp (for_each xs f) Q s"
  using assms(1,2)
proof (induction xs arbitrary: s)
  case Nil
  then show ?case by (simp add: wp_simps fin)
next
  case (Cons x xs)
  then have "wp (f x) (\<lambda>_. I xs) s" by simp
  then show ?case
    unfolding for_each.simps wp_bind
    by (rule wp_mono) (use Cons in auto)
qed

subsection \<open>What a program may ask for\<close>

definition emits :: "('q \<Rightarrow> bool) \<Rightarrow> ('q, 'r, 'd, 'a) prog \<Rightarrow> bool" where
  "emits P m \<longleftrightarrow> (\<forall>w a w'. run_state m w = (a, w') \<longrightarrow>
     (\<exists>new. hist w' = hist w @ new \<and> list_all P (reqs new)))"

lemma emits_return [emits_intros]: "emits P (return a)"
  by (simp add: emits_def)

lemma emits_getd [emits_intros]: "emits P getd"
  by (simp add: emits_def)

lemma emits_modd [emits_intros]: "emits P (modd f)"
  by (auto simp: emits_def)

lemma emits_call [emits_intros]: "P q \<Longrightarrow> emits P (call E q)"
  by (auto simp: emits_def)

lemma emits_bind [emits_intros]:
  assumes "emits P m" and "\<And>a. emits P (f a)"
  shows "emits P (State_Monad.bind m f)"
  unfolding emits_def
proof (intro allI impI)
  fix w a w'
  assume run: "run_state (State_Monad.bind m f) w = (a, w')"
  obtain b v where m: "run_state m w = (b, v)" by fastforce
  with run have f: "run_state (f b) v = (a, w')" by simp
  from assms(1) m obtain n1 where n1: "hist v = hist w @ n1" "list_all P (reqs n1)"
    unfolding emits_def by blast
  from assms(2) f obtain n2 where n2: "hist w' = hist v @ n2" "list_all P (reqs n2)"
    unfolding emits_def by blast
  from n1 n2 have "hist w' = hist w @ (n1 @ n2)" "list_all P (reqs (n1 @ n2))"
    by simp_all
  then show "\<exists>new. hist w' = hist w @ new \<and> list_all P (reqs new)" by blast
qed

lemma emits_exec [emits_intros]: "P q \<Longrightarrow> emits P (exec E q)"
  by (auto simp: emits_def)

lemma emits_whenM [emits_intros]: "(b \<Longrightarrow> emits P m) \<Longrightarrow> emits P (whenM b m)"
  by (simp add: whenM_def emits_return)

lemma emits_if [emits_intros]:
  "(b \<Longrightarrow> emits P m) \<Longrightarrow> (\<not> b \<Longrightarrow> emits P n) \<Longrightarrow> emits P (if b then m else n)"
  by simp

lemma emits_let [emits_intros]: "(\<And>x. x = v \<Longrightarrow> emits P (f x)) \<Longrightarrow> emits P (Let v f)"
  by simp

lemma emits_case_option [emits_intros]:
  "(x = None \<Longrightarrow> emits P m) \<Longrightarrow> (\<And>y. x = Some y \<Longrightarrow> emits P (f y)) \<Longrightarrow>
   emits P (case x of None \<Rightarrow> m | Some y \<Rightarrow> f y)"
  by (cases x) simp_all

lemma emits_case_sum [emits_intros]:
  "(\<And>y. x = Inl y \<Longrightarrow> emits P (f y)) \<Longrightarrow> (\<And>y. x = Inr y \<Longrightarrow> emits P (g y)) \<Longrightarrow>
   emits P (case x of Inl y \<Rightarrow> f y | Inr y \<Rightarrow> g y)"
  by (cases x) simp_all

lemma emits_case_prod [emits_intros]:
  "(\<And>a b. x = (a, b) \<Longrightarrow> emits P (f a b)) \<Longrightarrow> emits P (case x of (a, b) \<Rightarrow> f a b)"
  by (cases x) simp

lemma emits_for_each [emits_intros]:
  "(\<And>x. x \<in> set xs \<Longrightarrow> emits P (f x)) \<Longrightarrow> emits P (for_each xs f)"
  by (induction xs) (auto intro!: emits_intros)

lemma emitsD:
  assumes "emits P m" and "run_state m w = (a, w')" and "hist w = []"
  shows "\<forall>q \<in> set (reqs (hist w')). P q"
  using assms unfolding emits_def by (force simp: list_all_iff)

lemma emits_wp:
  assumes "emits P m"
  shows "wp m (\<lambda>_ w'. \<exists>new. hist w' = hist w @ new \<and> list_all P (reqs new)) w"
  using assms by (auto simp: emits_def intro!: wpI)

lemma emits_wp_all:
  assumes "emits P m" and "list_all P (reqs (hist w))"
  shows "wp m (\<lambda>_ w'. list_all P (reqs (hist w'))) w"
  using assms by (intro wp_mono [OF emits_wp]) auto

lemma emits_weaken: "emits P m \<Longrightarrow> (\<And>q. P q \<Longrightarrow> Q q) \<Longrightarrow> emits Q m"
  unfolding emits_def by (meson list.pred_mono_strong)

subsection \<open>What a program keeps\<close>

text \<open>\<open>keeps f m\<close>: the view \<open>f\<close> of the driver's state is the same after \<open>m\<close>.\<close>

named_theorems keeps_intros \<open>how \<open>keeps\<close> is established for a program\<close>

definition keeps :: "('d \<Rightarrow> 'v) \<Rightarrow> ('q, 'r, 'd, 'a) prog \<Rightarrow> bool" where
  "keeps f m \<longleftrightarrow> (\<forall>w. wp m (\<lambda>_ w'. f (drv w') = f (drv w)) w)"

lemma keepsI: "(\<And>w. wp m (\<lambda>_ w'. f (drv w') = f (drv w)) w) \<Longrightarrow> keeps f m"
  by (simp add: keeps_def)

lemma keeps_wp: "keeps f m \<Longrightarrow> wp m (\<lambda>_ w'. f (drv w') = f (drv w)) w"
  by (simp add: keeps_def)

lemma keeps_return [keeps_intros]: "keeps f (return a)"
  by (simp add: keeps_def wp_simps)

lemma keeps_bind [keeps_intros]:
  fixes m :: "('q, 'r, 'd, 'a) prog"
  assumes "keeps f m" and "\<And>a. keeps f (k a)"
  shows "keeps f (State_Monad.bind m k)"
proof (rule keepsI, unfold wp_bind, rule wp_mono [OF keeps_wp [OF assms(1)]])
  fix w w' :: "('q, 'r, 'd) world" and a
  assume "f (drv w') = f (drv w)"
  then show "wp (k a) (\<lambda>_ v. f (drv v) = f (drv w)) w'" using keeps_wp [OF assms(2), of a w'] by simp
qed

lemma keeps_call [keeps_intros]: "keeps f (call E q)"
  by (simp add: keeps_def wp_simps)

lemma keeps_exec [keeps_intros]: "keeps f (exec E q)"
  by (simp add: keeps_def wp_simps)

lemma keeps_getd [keeps_intros]: "keeps f getd"
  by (simp add: keeps_def wp_simps)

lemma keeps_modd [keeps_intros]: "(\<And>s. f (g s) = f s) \<Longrightarrow> keeps f (modd g)"
  by (simp add: keeps_def wp_simps)

lemma keeps_whenM [keeps_intros]: "keeps f m \<Longrightarrow> keeps f (whenM b m)"
  by (simp add: keeps_def wp_simps)

lemma keeps_if [keeps_intros]: "keeps f m \<Longrightarrow> keeps f k \<Longrightarrow> keeps f (if b then m else k)"
  by simp

lemma keeps_let [keeps_intros]: "(\<And>x. keeps f (k x)) \<Longrightarrow> keeps f (Let v k)"
  by simp

lemma keeps_case_prod [keeps_intros]: "(\<And>a b. keeps f (k a b)) \<Longrightarrow> keeps f (case x of (a, b) \<Rightarrow> k a b)"
  by (cases x) simp

lemma keeps_case_option [keeps_intros]:
  "keeps f m \<Longrightarrow> (\<And>y. keeps f (k y)) \<Longrightarrow> keeps f (case x of None \<Rightarrow> m | Some y \<Rightarrow> k y)"
  by (cases x) simp_all

lemma keeps_for_each [keeps_intros]: "(\<And>x. keeps f (k x)) \<Longrightarrow> keeps f (for_each xs k)"
  by (induction xs) (auto intro!: keeps_intros)

text \<open>\<open>maintains I m\<close>: a state in \<open>I\<close> is still in it after \<open>m\<close>.\<close>

named_theorems maintains_intros \<open>how \<open>maintains\<close> is established for a program\<close>

definition maintains :: "('d \<Rightarrow> bool) \<Rightarrow> ('q, 'r, 'd, 'a) prog \<Rightarrow> bool" where
  "maintains I m \<longleftrightarrow> (\<forall>w. I (drv w) \<longrightarrow> wp m (\<lambda>_ w'. I (drv w')) w)"

lemma maintainsI: "(\<And>w. I (drv w) \<Longrightarrow> wp m (\<lambda>_ w'. I (drv w')) w) \<Longrightarrow> maintains I m"
  by (simp add: maintains_def)

lemma maintains_wp: "maintains I m \<Longrightarrow> I (drv w) \<Longrightarrow> wp m (\<lambda>_ w'. I (drv w')) w"
  by (simp add: maintains_def)

lemma maintains_run: "maintains I m \<Longrightarrow> I (drv w) \<Longrightarrow> I (drv (snd (run_state m w)))"
  by (simp add: maintains_def wp_def case_prod_beta)

lemma keeps_maintains: "keeps (\<lambda>s. s) m \<Longrightarrow> maintains I m"
  by (rule maintainsI, rule wp_mono [OF keeps_wp]) auto

lemma maintains_return [maintains_intros]: "maintains I (return a)"
  by (simp add: maintains_def wp_simps)

lemma maintains_bind [maintains_intros]:
  "maintains I m \<Longrightarrow> (\<And>a. maintains I (k a)) \<Longrightarrow> maintains I (State_Monad.bind m k)"
  by (rule maintainsI, unfold wp_bind, erule wp_mono [OF maintains_wp], assumption, rule maintains_wp)

lemma maintains_call [maintains_intros]: "maintains I (call E q)"
  by (simp add: maintains_def wp_simps)

lemma maintains_exec [maintains_intros]: "maintains I (exec E q)"
  by (simp add: maintains_def wp_simps)

lemma maintains_getd [maintains_intros]: "maintains I getd"
  by (simp add: maintains_def wp_simps)

lemma maintains_modd: "(\<And>s. I s \<Longrightarrow> I (g s)) \<Longrightarrow> maintains I (modd g)"
  by (simp add: maintains_def wp_simps)

lemma maintains_whenM [maintains_intros]: "maintains I m \<Longrightarrow> maintains I (whenM b m)"
  by (simp add: maintains_def wp_simps)

lemma maintains_if [maintains_intros]: "(b \<Longrightarrow> maintains I m) \<Longrightarrow> (\<not> b \<Longrightarrow> maintains I k) \<Longrightarrow> maintains I (if b then m else k)"
  by simp

lemma maintains_let [maintains_intros]: "(\<And>x. maintains I (k x)) \<Longrightarrow> maintains I (Let v k)"
  by simp

lemma maintains_case_prod [maintains_intros]: "(\<And>a b. maintains I (k a b)) \<Longrightarrow> maintains I (case x of (a, b) \<Rightarrow> k a b)"
  by (cases x) simp

lemma maintains_case_option [maintains_intros]:
  "maintains I m \<Longrightarrow> (\<And>y. maintains I (k y)) \<Longrightarrow> maintains I (case x of None \<Rightarrow> m | Some y \<Rightarrow> k y)"
  by (cases x) simp_all

lemma maintains_case_sum [maintains_intros]:
  "(\<And>a. maintains I (m a)) \<Longrightarrow> (\<And>b. maintains I (k b)) \<Longrightarrow> maintains I (case x of Inl a \<Rightarrow> m a | Inr b \<Rightarrow> k b)"
  by (cases x) simp_all

lemma maintains_case_list [maintains_intros]:
  "maintains I m \<Longrightarrow> (\<And>y ys. maintains I (k y ys)) \<Longrightarrow> maintains I (case x of [] \<Rightarrow> m | y # ys \<Rightarrow> k y ys)"
  by (cases x) simp_all

lemma maintains_for_each [maintains_intros]: "(\<And>x. maintains I (k x)) \<Longrightarrow> maintains I (for_each xs k)"
  by (induction xs) (auto intro!: maintains_intros)

subsection \<open>Long runs\<close>

text \<open>The rules of \<open>wp\<close> for long runs: the world after a step is a new variable, so that terms stay small.\<close>

named_theorems wp_steps \<open>rules that name the world after each step\<close>

lemma wp_exec_step [wp_steps]:
  "(\<And>r w'. hist w' = hist w @ [(q, r)] \<Longrightarrow> drv w' = drv w \<Longrightarrow> Q () w') \<Longrightarrow> wp (exec E q) Q w"
  by (simp add: wp_simps)

lemma wp_call_step [wp_steps]:
  "(\<And>r w'. hist w' = hist w @ [(q, r)] \<Longrightarrow> drv w' = drv w \<Longrightarrow> Q r w') \<Longrightarrow> wp (call E q) Q w"
  by (simp add: wp_simps)

lemma wp_modd_step [wp_steps]:
  "(\<And>w'. hist w' = hist w \<Longrightarrow> drv w' = f (drv w) \<Longrightarrow> Q () w') \<Longrightarrow> wp (modd f) Q w"
  by (simp add: wp_simps)

end
