(* ===== verification/Pmgr.thy ===== *)
theory Pmgr
  imports Wallace_Prelude
begin

text \<open>
  The PMGR power-state driver, \<open>local-source/drivers/pmdomain/apple/pmgr-pwrstate.c\<close>.

  One \<open>apple_pmgr_ps\<close> is one power domain: a 32-bit register of the PMGR block, reached
  through a regmap, and the flags the device tree gives it. The regmap, the generic power
  domain core, the reset-controller core and the device tree accessors are not in the
  repository: they answer the requests of \<open>pmgr_req\<close>. A response is a return code and a
  value (0 for the calls that have none). Debug messages are left out; error messages are
  requests, because one of them prints the wrong value.
\<close>

section \<open>Register layout\<close>

definition APPLE_PMGR_RESET :: u32 where "APPLE_PMGR_RESET = BIT 31"
definition APPLE_PMGR_AUTO_ENABLE :: u32 where "APPLE_PMGR_AUTO_ENABLE = BIT 28"
definition APPLE_PMGR_PS_MIN :: field where "APPLE_PMGR_PS_MIN = (19, 16)"
definition APPLE_PMGR_PS_RESET :: u32 where "APPLE_PMGR_PS_RESET = BIT 12"
definition APPLE_PMGR_DEV_DISABLE :: u32 where "APPLE_PMGR_DEV_DISABLE = BIT 10"
definition APPLE_PMGR_WAS_CLKGATED :: u32 where "APPLE_PMGR_WAS_CLKGATED = BIT 9"
definition APPLE_PMGR_WAS_PWRGATED :: u32 where "APPLE_PMGR_WAS_PWRGATED = BIT 8"
definition APPLE_PMGR_PS_ACTUAL :: field where "APPLE_PMGR_PS_ACTUAL = (7, 4)"
definition APPLE_PMGR_PS_TARGET :: field where "APPLE_PMGR_PS_TARGET = (3, 0)"

definition APPLE_PMGR_FLAGS :: u32 where
  "APPLE_PMGR_FLAGS = APPLE_PMGR_WAS_CLKGATED OR APPLE_PMGR_WAS_PWRGATED"

definition APPLE_PMGR_PS_ACTIVE :: u32 where "APPLE_PMGR_PS_ACTIVE = 0xf"
definition APPLE_PMGR_PS_CLKGATE :: u32 where "APPLE_PMGR_PS_CLKGATE = 0x4"
definition APPLE_PMGR_PS_PWRGATE :: u32 where "APPLE_PMGR_PS_PWRGATE = 0x0"

definition APPLE_PMGR_RESET_TIME :: nat where "APPLE_PMGR_RESET_TIME = 1"

lemmas pmgr_regs = APPLE_PMGR_RESET_def APPLE_PMGR_AUTO_ENABLE_def APPLE_PMGR_PS_MIN_def
  APPLE_PMGR_PS_RESET_def APPLE_PMGR_DEV_DISABLE_def APPLE_PMGR_WAS_CLKGATED_def
  APPLE_PMGR_WAS_PWRGATED_def APPLE_PMGR_PS_ACTUAL_def APPLE_PMGR_PS_TARGET_def
  APPLE_PMGR_FLAGS_def

lemmas pmgr_states = APPLE_PMGR_PS_ACTIVE_def APPLE_PMGR_PS_CLKGATE_def APPLE_PMGR_PS_PWRGATE_def

section \<open>Data\<close>

datatype genpd_flag = GENPD_FLAG_IRQ_SAFE | GENPD_FLAG_ALWAYS_ON | GENPD_FLAG_DEFER_OFF
  | GENPD_FLAG_ACTIVE_WAKEUP

record apple_pmgr_ps =
  genpd_name :: string
  genpd_flags :: "genpd_flag set"
  skip_auto_enable :: bool
  offset :: u32
  min_state :: u32
  force_disable :: bool
  force_reset :: bool
  externally_clocked :: bool

text \<open>The condition of each \<open>regmap_read_poll_timeout_atomic\<close> of the driver.\<close>

datatype poll_cond = ResetDisableIs u32 | ActualAtLeast u32 | ActualIs u32

fun poll_holds :: "poll_cond \<Rightarrow> u32 \<Rightarrow> bool" where
  "poll_holds (ResetDisableIs reg_pre) cur =
     (cur AND (APPLE_PMGR_DEV_DISABLE OR APPLE_PMGR_PS_RESET) =
      reg_pre AND (APPLE_PMGR_DEV_DISABLE OR APPLE_PMGR_PS_RESET))"
| "poll_holds (ActualAtLeast s) cur = (s \<le> FIELD_GET APPLE_PMGR_PS_ACTUAL cur)"
| "poll_holds (ActualIs s) cur = (FIELD_GET APPLE_PMGR_PS_ACTUAL cur = s)"

datatype pmgr_msg = PoweringOffWithReset | FailedResetDisable u32 | FailedReach u32 u32
  | AssertWhilePoweredDown | DeassertWhilePoweredDown | MissingLabel | MissingReg
  | AlwaysOnNotOn | GenpdInitFailed | AddProviderFailed | AddParentFailed int

datatype pmgr_req =
    RegmapRead u32
  | RegmapWrite u32 u32
  | RegmapUpdateBits u32 u32 u32
  | RegmapPoll u32 poll_cond
  | DevErr pmgr_msg
  | SpinLock | SpinUnlock
  | GenpdStatusIsOff
  | UsleepRange nat nat
  | SysconNodeToRegmap | DevmKzalloc
  | is_PmGenpdInit: PmGenpdInit bool | OfGenpdAddProviderSimple | OfGenpdAddSubdomain nat
  | OfNodePut nat | PmGenpdRemoveDevice | DevmResetControllerRegister
  | OfGenpdDelProvider | PmGenpdRemove

type_synonym pmgr_env = "(pmgr_req, int \<times> u32) env"
type_synonym 'a pmgr = "(pmgr_req, int \<times> u32, apple_pmgr_ps, 'a) prog"

section \<open>Power states\<close>

definition apple_pmgr_ps_set :: "pmgr_env \<Rightarrow> u32 \<Rightarrow> bool \<Rightarrow> int pmgr" where
  "apple_pmgr_ps_set E pstate auto_enable = do {
     ps \<leftarrow> getd;
     (ret, reg) \<leftarrow> call E (RegmapRead (offset ps));
     if ret < 0 then return ret
     else do {
       whenM (reg AND APPLE_PMGR_RESET \<noteq> 0 \<and> pstate \<noteq> APPLE_PMGR_PS_ACTIVE)
         (exec E (DevErr PoweringOffWithReset));
       whenM (pstate \<noteq> APPLE_PMGR_PS_ACTIVE \<and> (force_disable ps \<or> force_reset ps)) (do {
         let reg_pre = reg AND NOT (APPLE_PMGR_AUTO_ENABLE OR APPLE_PMGR_FLAGS);
         let reg_pre = (if force_disable ps then reg_pre OR APPLE_PMGR_DEV_DISABLE else reg_pre);
         let reg_pre = (if force_reset ps then reg_pre OR APPLE_PMGR_PS_RESET else reg_pre);
         exec E (RegmapWrite (offset ps) reg_pre);
         (ret, cur) \<leftarrow> call E (RegmapPoll (offset ps) (ResetDisableIs reg_pre));
         whenM (ret < 0) (exec E (DevErr (FailedResetDisable reg)))
       });
       let reg = reg AND NOT (APPLE_PMGR_DEV_DISABLE OR APPLE_PMGR_PS_RESET OR
                   APPLE_PMGR_AUTO_ENABLE OR APPLE_PMGR_FLAGS OR GENMASK APPLE_PMGR_PS_TARGET);
       let reg = reg OR FIELD_PREP APPLE_PMGR_PS_TARGET pstate;
       exec E (RegmapWrite (offset ps) reg);
       (ret, cur) \<leftarrow> (if externally_clocked ps \<and> pstate = APPLE_PMGR_PS_ACTIVE
         then call E (RegmapPoll (offset ps) (ActualAtLeast APPLE_PMGR_PS_CLKGATE))
         else call E (RegmapPoll (offset ps) (ActualIs pstate)));
       whenM (ret < 0) (exec E (DevErr (FailedReach pstate reg)));
       (if auto_enable \<and> skip_auto_enable ps then return ()
        else if auto_enable
        then exec E (RegmapWrite (offset ps) (reg OR APPLE_PMGR_AUTO_ENABLE))
        else return ());
       return ret
     }
   }"

text \<open>The register reads 0 in the C local when \<open>regmap_read\<close> fails.\<close>

definition apple_pmgr_ps_is_active :: "pmgr_env \<Rightarrow> bool pmgr" where
  "apple_pmgr_ps_is_active E = do {
     ps \<leftarrow> getd;
     (ret, v) \<leftarrow> call E (RegmapRead (offset ps));
     let reg = (if ret < 0 then 0 else v);
     return (FIELD_GET APPLE_PMGR_PS_ACTUAL reg = APPLE_PMGR_PS_ACTIVE \<or>
             (FIELD_GET APPLE_PMGR_PS_TARGET reg = APPLE_PMGR_PS_ACTIVE \<and>
              reg AND APPLE_PMGR_AUTO_ENABLE \<noteq> 0))
   }"

definition apple_pmgr_ps_power_on :: "pmgr_env \<Rightarrow> int pmgr" where
  "apple_pmgr_ps_power_on E = apple_pmgr_ps_set E APPLE_PMGR_PS_ACTIVE True"

definition apple_pmgr_ps_power_off :: "pmgr_env \<Rightarrow> int pmgr" where
  "apple_pmgr_ps_power_off E = apple_pmgr_ps_set E APPLE_PMGR_PS_PWRGATE False"

section \<open>Reset controller\<close>

definition apple_pmgr_reset_assert :: "pmgr_env \<Rightarrow> int pmgr" where
  "apple_pmgr_reset_assert E = do {
     ps \<leftarrow> getd;
     exec E SpinLock;
     (off, _) \<leftarrow> call E GenpdStatusIsOff;
     whenM (off \<noteq> 0) (exec E (DevErr AssertWhilePoweredDown));
     exec E (RegmapUpdateBits (offset ps) (APPLE_PMGR_FLAGS OR APPLE_PMGR_DEV_DISABLE)
               APPLE_PMGR_DEV_DISABLE);
     exec E (RegmapUpdateBits (offset ps) (APPLE_PMGR_FLAGS OR APPLE_PMGR_RESET)
               APPLE_PMGR_RESET);
     exec E SpinUnlock;
     return 0
   }"

definition apple_pmgr_reset_deassert :: "pmgr_env \<Rightarrow> int pmgr" where
  "apple_pmgr_reset_deassert E = do {
     ps \<leftarrow> getd;
     exec E SpinLock;
     exec E (RegmapUpdateBits (offset ps) (APPLE_PMGR_FLAGS OR APPLE_PMGR_RESET) 0);
     exec E (RegmapUpdateBits (offset ps) (APPLE_PMGR_FLAGS OR APPLE_PMGR_DEV_DISABLE) 0);
     (off, _) \<leftarrow> call E GenpdStatusIsOff;
     whenM (off \<noteq> 0) (exec E (DevErr DeassertWhilePoweredDown));
     exec E SpinUnlock;
     return 0
   }"

definition apple_pmgr_reset_reset :: "pmgr_env \<Rightarrow> int pmgr" where
  "apple_pmgr_reset_reset E = do {
     ret \<leftarrow> apple_pmgr_reset_assert E;
     if ret \<noteq> 0 then return ret
     else do {
       exec E (UsleepRange APPLE_PMGR_RESET_TIME (2 * APPLE_PMGR_RESET_TIME));
       apple_pmgr_reset_deassert E
     }
   }"

definition apple_pmgr_reset_status :: "pmgr_env \<Rightarrow> int pmgr" where
  "apple_pmgr_reset_status E = do {
     ps \<leftarrow> getd;
     (ret, v) \<leftarrow> call E (RegmapRead (offset ps));
     let reg = (if ret < 0 then 0 else v);
     return (if reg AND APPLE_PMGR_RESET \<noteq> 0 then 1 else 0)
   }"

definition apple_pmgr_reset_xlate :: "nat list \<Rightarrow> int" where
  "apple_pmgr_reset_xlate reset_spec = 0"

section \<open>Probe\<close>

text \<open>
  What the probe reads from the device tree. A property that may be missing or malformed is
  the error code of its accessor or its value.
\<close>

record pmgr_node =
  n_label :: "int + string"
  n_reg :: "int + u32"
  n_min_state :: "int + u32"
  n_skip_auto_enable :: bool
  n_force_disable :: bool
  n_force_reset :: bool
  n_externally_clocked :: bool
  n_parent_preserve_active :: bool
  n_always_on :: bool
  n_power_domains :: "nat list"

definition ps_zero :: apple_pmgr_ps where
  "ps_zero = \<lparr>genpd_name = '''', genpd_flags = {}, skip_auto_enable = False, offset = 0,
     min_state = 0, force_disable = False, force_reset = False, externally_clocked = False\<rparr>"

text \<open>The \<open>of_for_each_phandle\<close> loop; its result is the error that leaves the loop, if any.\<close>

fun add_parent_domains :: "pmgr_env \<Rightarrow> nat list \<Rightarrow> int option pmgr" where
  "add_parent_domains E [] = return None"
| "add_parent_domains E (p # parents) = do {
     (ret, _) \<leftarrow> call E (OfGenpdAddSubdomain p);
     if ret = - EPROBE_DEFER then do { exec E (OfNodePut p); return (Some ret) }
     else if ret < 0 then do {
       exec E (DevErr (AddParentFailed ret)); exec E (OfNodePut p); return (Some ret) }
     else add_parent_domains E parents
   }"

definition probe_err_remove :: "pmgr_env \<Rightarrow> int \<Rightarrow> int pmgr" where
  "probe_err_remove E ret = do {
     exec E OfGenpdDelProvider; exec E PmGenpdRemove; return ret }"

text \<open>The probe from \<open>pm_genpd_init\<close> on, once the domain's state is known.\<close>

definition probe_register :: "pmgr_env \<Rightarrow> pmgr_node \<Rightarrow> bool \<Rightarrow> int pmgr" where
  "probe_register E n active = do {
     (ret, _) \<leftarrow> call E (PmGenpdInit (\<not> active));
     if ret < 0 then do { exec E (DevErr GenpdInitFailed); return ret }
     else do {
       (ret, _) \<leftarrow> call E OfGenpdAddProviderSimple;
       if ret < 0 then do { exec E (DevErr AddProviderFailed); return ret }
       else do {
         r \<leftarrow> add_parent_domains E (n_power_domains n);
         case r of
           Some ret \<Rightarrow> probe_err_remove E ret
         | None \<Rightarrow> do {
             exec E PmGenpdRemoveDevice;
             (ret, _) \<leftarrow> call E DevmResetControllerRegister;
             if ret < 0 then probe_err_remove E ret else return 0
           }
       }
     }
   }"

text \<open>The flags and the state of the domain, from its register and its node.\<close>

definition probe_power_state :: "pmgr_env \<Rightarrow> pmgr_node \<Rightarrow> bool pmgr" where
  "probe_power_state E n = do {
     active \<leftarrow> apple_pmgr_ps_is_active E;
     whenM (active \<and> n_parent_preserve_active n)
       (modd (\<lambda>ps. ps\<lparr>genpd_flags := insert GENPD_FLAG_ALWAYS_ON (genpd_flags ps)\<rparr>));
     (if n_always_on n then do {
        modd (\<lambda>ps. ps\<lparr>genpd_flags := insert GENPD_FLAG_ALWAYS_ON (genpd_flags ps)\<rparr>);
        (if \<not> active then do {
           exec E (DevErr AlwaysOnNotOn);
           ret \<leftarrow> apple_pmgr_ps_power_on E;
           return (ret = 0)
         } else return active)
      } else do {
        whenM active (modd (\<lambda>ps. ps\<lparr>genpd_flags :=
          genpd_flags ps \<union> {GENPD_FLAG_DEFER_OFF, GENPD_FLAG_ACTIVE_WAKEUP}\<rparr>));
        return active
      })
   }"

definition apple_pmgr_ps_probe :: "pmgr_env \<Rightarrow> pmgr_node \<Rightarrow> int pmgr" where
  "apple_pmgr_ps_probe E n = do {
     (ret, _) \<leftarrow> call E SysconNodeToRegmap;
     if ret < 0 then return ret
     else do {
       (p, _) \<leftarrow> call E DevmKzalloc;
       if p = 0 then return (- ENOMEM)
       else do {
         modd (\<lambda>_. ps_zero\<lparr>skip_auto_enable := n_skip_auto_enable n\<rparr>);
         case n_label n of
           Inl err \<Rightarrow> do { exec E (DevErr MissingLabel); return err }
         | Inr name \<Rightarrow> (case n_reg n of
             Inl err \<Rightarrow> do { exec E (DevErr MissingReg); return err }
           | Inr off \<Rightarrow> do {
               modd (\<lambda>ps. ps\<lparr>offset := off, genpd_flags := {GENPD_FLAG_IRQ_SAFE},
                               genpd_name := name\<rparr>);
               (case n_min_state n of
                  Inl _ \<Rightarrow> return ()
                | Inr m \<Rightarrow> do {
                    modd (\<lambda>ps. ps\<lparr>min_state := m\<rparr>);
                    whenM (m \<le> APPLE_PMGR_PS_ACTIVE)
                      (exec E (RegmapUpdateBits off
                         (APPLE_PMGR_FLAGS OR GENMASK APPLE_PMGR_PS_MIN)
                         (FIELD_PREP APPLE_PMGR_PS_MIN m)))
                  });
               modd (\<lambda>ps. ps\<lparr>force_disable := n_force_disable n, force_reset := n_force_reset n,
                               externally_clocked := n_externally_clocked n\<rparr>);
               active \<leftarrow> probe_power_state E n;
               whenM (active \<and> \<not> n_skip_auto_enable n)
                 (exec E (RegmapUpdateBits off (APPLE_PMGR_FLAGS OR APPLE_PMGR_AUTO_ENABLE)
                            APPLE_PMGR_AUTO_ENABLE));
               probe_register E n active
             })
       }
     }
   }"

section \<open>The writes of a power-state change\<close>

text \<open>
  The register values a power-state change writes, as a function of the domain and of the
  value it first reads: the quiescing value of a forced power-off, the value with the new
  target, the same with automatic power management enabled.
\<close>

definition quiesced_reg :: "apple_pmgr_ps \<Rightarrow> u32 \<Rightarrow> u32" where
  "quiesced_reg ps reg = (reg AND NOT (APPLE_PMGR_AUTO_ENABLE OR APPLE_PMGR_FLAGS))
     OR (if force_disable ps then APPLE_PMGR_DEV_DISABLE else 0)
     OR (if force_reset ps then APPLE_PMGR_PS_RESET else 0)"

definition target_reg :: "u32 \<Rightarrow> u32 \<Rightarrow> u32" where
  "target_reg reg pstate =
     (reg AND NOT (APPLE_PMGR_DEV_DISABLE OR APPLE_PMGR_PS_RESET OR APPLE_PMGR_AUTO_ENABLE OR
        APPLE_PMGR_FLAGS OR GENMASK APPLE_PMGR_PS_TARGET)) OR FIELD_PREP APPLE_PMGR_PS_TARGET pstate"

definition final_cond :: "apple_pmgr_ps \<Rightarrow> u32 \<Rightarrow> poll_cond" where
  "final_cond ps pstate = (if externally_clocked ps \<and> pstate = APPLE_PMGR_PS_ACTIVE
     then ActualAtLeast APPLE_PMGR_PS_CLKGATE else ActualIs pstate)"

definition planned_ops :: "apple_pmgr_ps \<Rightarrow> u32 \<Rightarrow> u32 \<Rightarrow> bool \<Rightarrow> pmgr_req list" where
  "planned_ops ps reg pstate auto_enable =
     (if pstate \<noteq> APPLE_PMGR_PS_ACTIVE \<and> (force_disable ps \<or> force_reset ps)
      then [RegmapWrite (offset ps) (quiesced_reg ps reg),
            RegmapPoll (offset ps) (ResetDisableIs (quiesced_reg ps reg))] else [])
     @ [RegmapWrite (offset ps) (target_reg reg pstate), RegmapPoll (offset ps) (final_cond ps pstate)]
     @ (if auto_enable \<and> \<not> skip_auto_enable ps
        then [RegmapWrite (offset ps) (target_reg reg pstate OR APPLE_PMGR_AUTO_ENABLE)] else [])"

text \<open>The requests of a history that reach the register.\<close>

fun bus_req :: "pmgr_req \<Rightarrow> bool" where
  "bus_req (RegmapRead off) = True"
| "bus_req (RegmapWrite off v) = True"
| "bus_req (RegmapUpdateBits off m v) = True"
| "bus_req (RegmapPoll off c) = True"
| "bus_req _ = False"

definition bus_ops :: "(pmgr_req \<times> 'r) list \<Rightarrow> pmgr_req list" where
  "bus_ops h = filter bus_req (reqs h)"

lemma bus_ops_simps [simp]:
  "bus_ops [] = []" "bus_ops (h @ k) = bus_ops h @ bus_ops k"
  "bus_ops (e # h) = (if bus_req (fst e) then [fst e] else []) @ bus_ops h"
  by (simp_all add: bus_ops_def)

lemma write_in_bus_ops: "RegmapWrite off v \<in> set (reqs h) \<longleftrightarrow> RegmapWrite off v \<in> set (bus_ops h)"
  by (simp add: bus_ops_def)

lemma ps_set_wp:
  assumes "0 \<le> fst (E (hist w) (RegmapRead (offset (drv w))))"
  shows "wp (apple_pmgr_ps_set E pstate ae) (\<lambda>r w'. drv w' = drv w \<and>
     bus_ops (hist w') = bus_ops (hist w) @ RegmapRead (offset (drv w)) #
       planned_ops (drv w) (snd (E (hist w) (RegmapRead (offset (drv w))))) pstate ae \<and>
     (\<exists>h cur. answers E h (RegmapPoll (offset (drv w)) (final_cond (drv w) pstate)) (r, cur))) w"
  unfolding apple_pmgr_ps_set_def using assms
  by (intro wp_when_execI wp_intros)
    (auto simp: answers_def planned_ops_def quiesced_reg_def target_reg_def final_cond_def or.assoc)

lemma ps_set_error_wp:
  assumes "fst (E (hist w) (RegmapRead (offset (drv w)))) < 0"
  shows "wp (apple_pmgr_ps_set E pstate ae) (\<lambda>r w'. drv w' = drv w \<and>
     r = fst (E (hist w) (RegmapRead (offset (drv w)))) \<and>
     reqs (hist w') = reqs (hist w) @ [RegmapRead (offset (drv w))]) w"
  using assms by (simp add: apple_pmgr_ps_set_def wp_simps)

text \<open>The bits no power-state change may alter: everything but the fields it owns.\<close>

definition pmgr_kept_bits :: u32 where
  "pmgr_kept_bits = NOT (APPLE_PMGR_AUTO_ENABLE OR APPLE_PMGR_FLAGS OR APPLE_PMGR_DEV_DISABLE OR
     APPLE_PMGR_PS_RESET OR GENMASK APPLE_PMGR_PS_TARGET)"

lemma word_zero_by_bits: "(\<And>n. n < LENGTH('a) \<Longrightarrow> \<not> bit (v :: 'a::len word) n) \<Longrightarrow> v = 0"
  by (rule bit_word_eqI) simp

lemmas pmgr_bits = pmgr_kept_bits_def quiesced_reg_def target_reg_def pmgr_regs field_simps_bits bit_simps

lemma planned_write_flags:
  assumes "RegmapWrite off v \<in> set (planned_ops ps reg pstate ae)"
  shows "v AND APPLE_PMGR_FLAGS = 0"
  using assms by (intro word_zero_by_bits) (auto simp: planned_ops_def pmgr_bits split: if_splits)

lemma planned_write_auto:
  assumes "RegmapWrite off v \<in> set (planned_ops ps reg pstate ae)" and "v AND APPLE_PMGR_AUTO_ENABLE \<noteq> 0"
  shows "ae \<and> \<not> skip_auto_enable ps"
proof (rule ccontr)
  assume "\<not> ?thesis"
  with assms(1) have "v AND APPLE_PMGR_AUTO_ENABLE = 0"
    by (intro word_zero_by_bits) (auto simp: planned_ops_def pmgr_bits split: if_splits)
  with assms(2) show False by simp
qed

lemma planned_write_kept:
  assumes "RegmapWrite off v \<in> set (planned_ops ps reg pstate ae)"
  shows "v AND pmgr_kept_bits = reg AND pmgr_kept_bits"
  using assms by (intro bit_word_eqI) (auto simp: planned_ops_def pmgr_bits split: if_splits)

lemma planned_write_offset:
  "RegmapWrite off v \<in> set (planned_ops ps reg pstate ae) \<Longrightarrow> off = offset ps"
  by (auto simp: planned_ops_def split: if_splits)

lemma planned_no_update: "RegmapUpdateBits off m v \<notin> set (planned_ops ps reg pstate ae)"
  by (simp add: planned_ops_def)

lemmas planned_write = planned_write_flags planned_write_kept planned_write_offset

lemma target_reg_target:
  "FIELD_GET APPLE_PMGR_PS_TARGET (target_reg reg pstate) = take_bit 4 pstate"
  by (rule bit_word_eqI) (auto simp: pmgr_bits)

lemma target_reg_released:
  "target_reg reg pstate AND (APPLE_PMGR_DEV_DISABLE OR APPLE_PMGR_PS_RESET) = 0"
  by (rule word_zero_by_bits) (auto simp: pmgr_bits)

section \<open>Properties of a power-state change\<close>

text \<open>
  Every register write of a power-state change goes to the domain's own register, keeps
  every bit outside the fields it owns as it was read (the external RESET bit, the minimum
  and automatic states, the busy and actual-state bits), never writes a one to the sticky
  gating flags, and sets AUTO_ENABLE only when the caller asked for it and the domain is not
  marked \<open>apple,skip-auto-enable\<close>.
\<close>

theorem ps_set_writes_frame:
  assumes "run_state (apple_pmgr_ps_set E pstate ae) w = (r, w')" and "hist w = []"
    and "RegmapWrite off v \<in> set (reqs (hist w'))"
  shows "off = offset (drv w)
    \<and> v AND pmgr_kept_bits = snd (E [] (RegmapRead (offset (drv w)))) AND pmgr_kept_bits
    \<and> v AND APPLE_PMGR_FLAGS = 0
    \<and> (v AND APPLE_PMGR_AUTO_ENABLE \<noteq> 0 \<longrightarrow> ae \<and> \<not> skip_auto_enable (drv w))"
proof (cases "0 \<le> fst (E [] (RegmapRead (offset (drv w))))")
  case True
  with assms(1,2) have "bus_ops (hist w') = RegmapRead (offset (drv w)) #
      planned_ops (drv w) (snd (E [] (RegmapRead (offset (drv w))))) pstate ae"
    using wpD [OF ps_set_wp [of E w pstate ae]] by simp
  with assms(3) show ?thesis
    by (auto simp: write_in_bus_ops planned_write dest: planned_write_auto)
next
  case False
  with assms(1,2) have "reqs (hist w') = [RegmapRead (offset (drv w))]"
    using wpD [OF ps_set_error_wp [of E w pstate ae]] by simp
  with assms(3) show ?thesis by simp
qed

definition ps_demo :: apple_pmgr_ps where
  "ps_demo = ps_zero\<lparr>offset := 0x100, force_reset := True\<rparr>"

definition env_ok :: pmgr_env where
  "env_ok h q = (case q of
       RegmapPoll off c \<Rightarrow> (let v = (case c of ActualIs s \<Rightarrow> FIELD_PREP APPLE_PMGR_PS_ACTUAL s
                           | ResetDisableIs v \<Rightarrow> v | ActualAtLeast s \<Rightarrow> 0xff)
                       in (if poll_holds c v then 0 else - ETIMEDOUT, v))
     | RegmapRead off \<Rightarrow> (0, 0x100003ff)
     | _ \<Rightarrow> (1, 0))"

lemmas pmgr_eval = apple_pmgr_ps_set_def env_ok_def ps_demo_def ps_zero_def pmgr_regs pmgr_states
  BIT_def GENMASK_def FIELD_PREP_def FIELD_GET_def mask_eq_exp_minus_1

abbreviation demo_world :: "(pmgr_req, int \<times> u32, apple_pmgr_ps) world" where
  "demo_world \<equiv> \<lparr>hist = [], drv = ps_demo\<rparr>"

lemma demo_power_off_writes:
  "RegmapWrite 0x100 0x10ff \<in> set (reqs (hist (snd (run_state (apple_pmgr_ps_set env_ok 0 False) demo_world))))"
  by (simp add: pmgr_eval)

theorem ps_set_writes_frame_witness:
  "RegmapWrite 0x100 0x10ff \<in> set (reqs (hist (snd (run_state (apple_pmgr_ps_set env_ok 0 False) demo_world))))
   \<and> (0x10ff :: u32) AND APPLE_PMGR_FLAGS = 0"
  using ps_set_writes_frame [OF prod.collapse [symmetric] _ demo_power_off_writes] demo_power_off_writes
  by simp

text \<open>
  C12. When the first read succeeds, the register traffic of a power-state change is exactly:
  the read; for a forced power-off, the quiescing write and the wait for it; the write of the
  new target and the wait for it; the write that enables automatic power management when it is
  asked for and supported. The target write requests the state asked for, with DEV_DISABLE and
  PS_RESET released, and the result is the result of the last wait: a failure of the quiescing
  wait is not reported.
\<close>

theorem ps_set_sequence:
  assumes "run_state (apple_pmgr_ps_set E pstate ae) w = (r, w')" and "hist w = []"
    and "0 \<le> fst (E [] (RegmapRead (offset (drv w))))" and "pstate \<le> 0xf"
  shows "\<exists>reg. reg = snd (E [] (RegmapRead (offset (drv w))))
    \<and> bus_ops (hist w') = RegmapRead (offset (drv w)) # planned_ops (drv w) reg pstate ae
    \<and> FIELD_GET APPLE_PMGR_PS_TARGET (target_reg reg pstate) = pstate
    \<and> target_reg reg pstate AND (APPLE_PMGR_DEV_DISABLE OR APPLE_PMGR_PS_RESET) = 0
    \<and> (\<exists>h cur. E h (RegmapPoll (offset (drv w)) (final_cond (drv w) pstate)) = (r, cur))"
proof -
  have "unat pstate < 2 ^ 4" using assms(4) by unat_arith
  then have "take_bit 4 pstate = pstate" by (rule unat_take_bit_id)
  with wpD [OF ps_set_wp [of E w pstate ae]] assms show ?thesis
    by (auto simp: target_reg_target target_reg_released answers_def)
qed

theorem ps_set_sequence_witness:
  "bus_ops (hist (snd (run_state (apple_pmgr_ps_set env_ok 0 False) demo_world)))
     = RegmapRead 0x100 # planned_ops ps_demo 0x100003ff 0 False
   \<and> FIELD_GET APPLE_PMGR_PS_TARGET (target_reg 0x100003ff 0) = 0"
  using ps_set_sequence [OF prod.collapse [symmetric], of demo_world env_ok 0 False]
  by (simp add: env_ok_def ps_demo_def)

definition poll_documented :: "pmgr_env \<Rightarrow> bool" where
  "poll_documented E \<longleftrightarrow> (\<forall>h off c. fst (E h (RegmapPoll off c)) = 0 \<longrightarrow>
     poll_holds c (snd (E h (RegmapPoll off c))))"

text \<open>
  With a poll that returns 0 only when its condition held for the value it last read, a
  power-state change that returns 0 has seen the domain in the state asked for, or, for a domain
  marked externally clocked that is switched on, at least clock-gated; and the caller cannot be
  told of success when the register could not be read.
\<close>

theorem ps_set_success_reaches_state:
  assumes "poll_documented E" and "run_state (apple_pmgr_ps_set E pstate ae) w = (0, w')"
  shows "\<exists>h cur. E h (RegmapPoll (offset (drv w)) (final_cond (drv w) pstate)) = (0, cur) \<and>
     (FIELD_GET APPLE_PMGR_PS_ACTUAL cur = pstate \<or>
      externally_clocked (drv w) \<and> pstate = APPLE_PMGR_PS_ACTIVE \<and>
      APPLE_PMGR_PS_CLKGATE \<le> FIELD_GET APPLE_PMGR_PS_ACTUAL cur)"
proof (cases "0 \<le> fst (E (hist w) (RegmapRead (offset (drv w))))")
  case True
  from wpD [OF ps_set_wp [where E = E and w = w and pstate = pstate and ae = ae, OF True] assms(2)]
  obtain h cur where
    p: "E h (RegmapPoll (offset (drv w)) (final_cond (drv w) pstate)) = (0, cur)"
    by (auto simp: answers_def)
  with assms(1) have "poll_holds (final_cond (drv w) pstate) cur"
    unfolding poll_documented_def by (metis fst_conv snd_conv)
  with p show ?thesis by (auto simp: final_cond_def split: if_splits)
next
  case False
  with wpD [OF ps_set_error_wp [of E w pstate ae] assms(2)] show ?thesis by force
qed

lemma env_ok_poll_documented: "poll_documented env_ok"
  by (simp add: poll_documented_def env_ok_def Let_def)

lemma demo_power_on_returns:
  "run_state (apple_pmgr_ps_set env_ok APPLE_PMGR_PS_ACTIVE True) demo_world =
     (0, snd (run_state (apple_pmgr_ps_set env_ok APPLE_PMGR_PS_ACTIVE True) demo_world))"
  by (simp add: pmgr_eval Let_def)

theorem ps_set_success_reaches_state_witness:
  "\<exists>h cur. env_ok h (RegmapPoll 0x100 (ActualIs 0xf)) = (0, cur) \<and>
     FIELD_GET APPLE_PMGR_PS_ACTUAL cur = 0xf"
  using ps_set_success_reaches_state [OF env_ok_poll_documented demo_power_on_returns]
  by (simp add: final_cond_def ps_demo_def ps_zero_def APPLE_PMGR_PS_ACTIVE_def)

section \<open>Properties of the reset controller\<close>

text \<open>A register that keeps what is written to it: the value after a history.\<close>

fun reg_step :: "u32 \<Rightarrow> pmgr_req \<Rightarrow> u32 \<Rightarrow> u32" where
  "reg_step off (RegmapWrite o' v) x = (if o' = off then v else x)"
| "reg_step off (RegmapUpdateBits o' m v) x = (if o' = off then (x AND NOT m) OR (v AND m) else x)"
| "reg_step off _ x = x"

definition reg_value :: "u32 \<Rightarrow> u32 \<Rightarrow> (pmgr_req \<times> 'r) list \<Rightarrow> u32" where
  "reg_value off init h = fold (reg_step off) (reqs h) init"

lemma reg_value_simps [simp]:
  "reg_value off init [] = init"
  "reg_value off init (h @ k) = reg_value off (reg_value off init h) k"
  "reg_value off init (e # k) = reg_value off (reg_step off (fst e) init) k"
  by (simp_all add: reg_value_def)

definition plain_register :: "pmgr_env \<Rightarrow> u32 \<Rightarrow> u32 \<Rightarrow> bool" where
  "plain_register E off init \<longleftrightarrow> (\<forall>h. E h (RegmapRead off) = (0, reg_value off init h))"

definition asserted_reg :: "u32 \<Rightarrow> u32" where
  "asserted_reg v = (v AND NOT APPLE_PMGR_FLAGS) OR APPLE_PMGR_DEV_DISABLE OR APPLE_PMGR_RESET"

definition deasserted_reg :: "u32 \<Rightarrow> u32" where
  "deasserted_reg v = v AND NOT (APPLE_PMGR_FLAGS OR APPLE_PMGR_DEV_DISABLE OR APPLE_PMGR_RESET)"

definition assert_ops :: "u32 \<Rightarrow> pmgr_req list" where
  "assert_ops off =
     [RegmapUpdateBits off (APPLE_PMGR_FLAGS OR APPLE_PMGR_DEV_DISABLE) APPLE_PMGR_DEV_DISABLE,
      RegmapUpdateBits off (APPLE_PMGR_FLAGS OR APPLE_PMGR_RESET) APPLE_PMGR_RESET]"

definition deassert_ops :: "u32 \<Rightarrow> pmgr_req list" where
  "deassert_ops off =
     [RegmapUpdateBits off (APPLE_PMGR_FLAGS OR APPLE_PMGR_RESET) 0,
      RegmapUpdateBits off (APPLE_PMGR_FLAGS OR APPLE_PMGR_DEV_DISABLE) 0]"

lemma asserted_steps:
  "reg_step off (assert_ops off ! 1) (reg_step off (assert_ops off ! 0) v) = asserted_reg v"
  by (rule bit_word_eqI) (auto simp: assert_ops_def asserted_reg_def pmgr_bits)

lemma deasserted_steps:
  "reg_step off (deassert_ops off ! 1) (reg_step off (deassert_ops off ! 0) v) = deasserted_reg v"
  by (rule bit_word_eqI) (auto simp: deassert_ops_def deasserted_reg_def pmgr_bits)

text \<open>What one call adds to the history between the lock and the unlock.\<close>

fun locked_section :: "pmgr_req list \<Rightarrow> bool" where
  "locked_section qs = (qs \<noteq> [] \<and> hd qs = SpinLock \<and> last qs = SpinUnlock \<and>
     SpinLock \<notin> set (tl qs) \<and> SpinUnlock \<notin> set (butlast qs))"

lemma reset_assert_wp:
  "wp (apple_pmgr_reset_assert E) (\<lambda>r w'. r = 0 \<and> drv w' = drv w \<and>
     (\<exists>new. hist w' = hist w @ new \<and> locked_section (reqs new) \<and>
        bus_ops new = assert_ops (offset (drv w)) \<and>
        (\<forall>v. reg_value (offset (drv w)) v new = asserted_reg v))) w"
  unfolding apple_pmgr_reset_assert_def
  by (intro wp_when_execI wp_intros)
    (auto simp: assert_ops_def asserted_steps [unfolded assert_ops_def, simplified])

lemma reset_deassert_wp:
  "wp (apple_pmgr_reset_deassert E) (\<lambda>r w'. r = 0 \<and> drv w' = drv w \<and>
     (\<exists>new. hist w' = hist w @ new \<and> locked_section (reqs new) \<and>
        bus_ops new = deassert_ops (offset (drv w)) \<and>
        (\<forall>v. reg_value (offset (drv w)) v new = deasserted_reg v))) w"
  unfolding apple_pmgr_reset_deassert_def
  by (intro wp_when_execI wp_intros)
    (auto simp: deassert_ops_def deasserted_steps [unfolded deassert_ops_def, simplified])

lemma reset_status_wp:
  assumes "plain_register E (offset (drv w)) init"
  shows "fst (run_state (apple_pmgr_reset_status E) w) =
    (if reg_value (offset (drv w)) init (hist w) AND APPLE_PMGR_RESET \<noteq> 0 then 1 else 0)"
  using assms by (simp add: apple_pmgr_reset_status_def plain_register_def)

lemma asserted_status: "asserted_reg v AND APPLE_PMGR_RESET \<noteq> 0"
proof -
  have "bit (asserted_reg v AND APPLE_PMGR_RESET) 31"
    by (simp add: asserted_reg_def pmgr_bits)
  then show ?thesis by (metis bit_0_eq bot_apply bot_bool_def)
qed

lemma deasserted_status: "deasserted_reg v AND APPLE_PMGR_RESET = 0"
  by (rule word_zero_by_bits) (auto simp: deasserted_reg_def pmgr_bits)

lemma deasserted_asserted: "deasserted_reg (asserted_reg v) = deasserted_reg v"
  by (rule bit_word_eqI) (auto simp: deasserted_reg_def asserted_reg_def pmgr_bits)

text \<open>
  On a register that keeps what is written to it, asserting and deasserting the reset do
  what \<open>reset_control\<close> promises: after assert the status is 1, with the device disabled first;
  after deassert it is 0 and the device is enabled again, in the opposite order; each does its two
  updates inside one critical section of the domain's lock and always returns 0; and a full reset
  pulse changes no bit but the sticky flags, DEV_DISABLE and RESET.
\<close>

theorem reset_assert_deassert:
  assumes "plain_register E (offset (drv w)) init"
    and "run_state (apple_pmgr_reset_assert E) w = (r1, w1)"
    and "run_state (apple_pmgr_reset_deassert E) w1 = (r2, w2)"
  shows "r1 = 0 \<and> fst (run_state (apple_pmgr_reset_status E) w1) = 1
    \<and> r2 = 0 \<and> fst (run_state (apple_pmgr_reset_status E) w2) = 0
    \<and> reg_value (offset (drv w)) init (hist w2) = deasserted_reg (reg_value (offset (drv w)) init (hist w))
    \<and> (\<exists>n1 n2. hist w2 = hist w @ n1 @ n2 \<and> locked_section (reqs n1) \<and> locked_section (reqs n2)
         \<and> bus_ops n1 = assert_ops (offset (drv w)) \<and> bus_ops n2 = deassert_ops (offset (drv w)))"
proof -
  from wpD [OF reset_assert_wp assms(2)] obtain n1 where
    1: "r1 = 0" "drv w1 = drv w" "hist w1 = hist w @ n1" "locked_section (reqs n1)"
      "bus_ops n1 = assert_ops (offset (drv w))"
      "\<And>v. reg_value (offset (drv w)) v n1 = asserted_reg v" by blast
  from wpD [OF reset_deassert_wp assms(3)] 1(2) obtain n2 where
    2: "r2 = 0" "drv w2 = drv w" "hist w2 = hist w1 @ n2" "locked_section (reqs n2)"
      "bus_ops n2 = deassert_ops (offset (drv w))"
      "\<And>v. reg_value (offset (drv w)) v n2 = deasserted_reg v" by auto
  have "fst (run_state (apple_pmgr_reset_status E) w1) = 1"
    using reset_status_wp [of E w1 init] assms(1) 1 by (simp add: asserted_status)
  moreover have "fst (run_state (apple_pmgr_reset_status E) w2) = 0"
    using reset_status_wp [of E w2 init] assms(1) 1 2 by (simp add: deasserted_status)
  ultimately show ?thesis
    using 1 2 by (auto simp: deasserted_asserted simp del: locked_section.simps)
qed

definition env_plain :: pmgr_env where
  "env_plain h q = (case q of RegmapRead off \<Rightarrow> (0, reg_value off 0x300 h) | _ \<Rightarrow> (0, 0))"

lemma env_plain_plain: "plain_register env_plain off 0x300"
  by (simp add: plain_register_def env_plain_def)

theorem reset_assert_deassert_witness:
  "let w1 = snd (run_state (apple_pmgr_reset_assert env_plain) demo_world);
       w2 = snd (run_state (apple_pmgr_reset_deassert env_plain) w1)
   in fst (run_state (apple_pmgr_reset_status env_plain) w1) = 1
      \<and> fst (run_state (apple_pmgr_reset_status env_plain) w2) = 0"
  using reset_assert_deassert [OF env_plain_plain prod.collapse [symmetric] prod.collapse [symmetric], of demo_world]
  by (simp only: Let_def)

text \<open>
  A reset pulse is the assert, a sleep of one to two microseconds and the deassert, in this
  order and with nothing else on the bus; it returns 0 and leaves the register, when it keeps what
  is written to it, with RESET, DEV_DISABLE and the sticky flags clear and every other bit unchanged.
\<close>

theorem reset_pulse:
  "wp (apple_pmgr_reset_reset E) (\<lambda>r w'. r = 0 \<and> drv w' = drv w \<and>
     (\<exists>n1 s n2. hist w' = hist w @ n1 @ [(UsleepRange 1 2, s)] @ n2 \<and>
        bus_ops n1 = assert_ops (offset (drv w)) \<and> bus_ops n2 = deassert_ops (offset (drv w)) \<and>
        (\<forall>v. reg_value (offset (drv w)) v (n1 @ [(UsleepRange 1 2, s)] @ n2) = deasserted_reg v))) w"
proof -
  have tail: "wp (apple_pmgr_reset_deassert E)
      (\<lambda>r w'. r = 0 \<and> drv w' = drv w \<and> (\<exists>n1 s n2. hist w' = hist w @ n1 @ [(UsleepRange 1 2, s)] @ n2 \<and>
        bus_ops n1 = assert_ops (offset (drv w)) \<and> bus_ops n2 = deassert_ops (offset (drv w)) \<and>
        (\<forall>v. reg_value (offset (drv w)) v (n1 @ [(UsleepRange 1 2, s)] @ n2) = deasserted_reg v))) w1"
    if w1: "drv w1 = drv w" "hist w1 = hist w @ n1 @ [(UsleepRange 1 2, s)]"
      "bus_ops n1 = assert_ops (offset (drv w))"
      "\<forall>v. reg_value (offset (drv w)) v n1 = asserted_reg v" for w1 n1 s
  proof (rule wp_mono [OF reset_deassert_wp])
    fix r :: int and t
    assume "r = 0 \<and> drv t = drv w1 \<and> (\<exists>new. hist t = hist w1 @ new \<and> locked_section (reqs new) \<and>
        bus_ops new = deassert_ops (offset (drv w1)) \<and>
        (\<forall>v. reg_value (offset (drv w1)) v new = deasserted_reg v))"
    then obtain n2 where t: "r = 0" "drv t = drv w" "hist t = hist w1 @ n2"
        "bus_ops n2 = deassert_ops (offset (drv w))"
        "\<forall>v. reg_value (offset (drv w)) v n2 = deasserted_reg v"
      using w1(1) by auto
    show "r = 0 \<and> drv t = drv w \<and> (\<exists>n1 s n2. hist t = hist w @ n1 @ [(UsleepRange 1 2, s)] @ n2 \<and>
        bus_ops n1 = assert_ops (offset (drv w)) \<and> bus_ops n2 = deassert_ops (offset (drv w)) \<and>
        (\<forall>v. reg_value (offset (drv w)) v (n1 @ [(UsleepRange 1 2, s)] @ n2) = deasserted_reg v))"
      by (intro conjI exI [of _ n1] exI [of _ s] exI [of _ n2])
        (use w1 t in \<open>simp_all add: deasserted_asserted\<close>)
  qed
  show ?thesis
    unfolding apple_pmgr_reset_reset_def
    by (rule wp_bindI, rule wp_mono [OF reset_assert_wp], elim conjE exE, rule wp_ifI, simp,
        intro wp_bindI wp_execI, rule tail) (auto simp: APPLE_PMGR_RESET_TIME_def)
qed

section \<open>Properties of the probe\<close>

text \<open>Whether a request could turn automatic power management on.\<close>

fun enables_auto :: "pmgr_req \<Rightarrow> bool" where
  "enables_auto (RegmapWrite off v) = (v AND APPLE_PMGR_AUTO_ENABLE \<noteq> 0)"
| "enables_auto (RegmapUpdateBits off m v) = (m AND v AND APPLE_PMGR_AUTO_ENABLE \<noteq> 0)"
| "enables_auto _ = False"

definition no_auto :: "(pmgr_req, 'r, apple_pmgr_ps) world \<Rightarrow> bool" where
  "no_auto w \<longleftrightarrow> skip_auto_enable (drv w) \<and> (\<forall>q \<in> set (reqs (hist w)). \<not> enables_auto q)"

lemma enables_auto_bus: "enables_auto q \<Longrightarrow> bus_req q"
  by (cases q) simp_all

lemma no_auto_bus: "no_auto w \<longleftrightarrow> skip_auto_enable (drv w) \<and> (\<forall>q \<in> set (bus_ops (hist w)). \<not> enables_auto q)"
  by (auto simp: no_auto_def bus_ops_def dest: enables_auto_bus)

lemma ps_set_no_auto:
  assumes "no_auto w"
  shows "wp (apple_pmgr_ps_set E pstate ae) (\<lambda>_. no_auto) w"
proof (cases "0 \<le> fst (E (hist w) (RegmapRead (offset (drv w))))")
  case True
  have "\<not> enables_auto q" if "q \<in> set (planned_ops (drv w) reg pstate ae)" for q reg
    by (cases q; use that assms in \<open>auto simp: no_auto_def planned_no_update dest: planned_write_auto\<close>)
  with assms show ?thesis
    by (intro wp_mono [OF ps_set_wp [where E = E and w = w, OF True]]) (auto simp: no_auto_bus)
next
  case False
  with assms show ?thesis
    by (intro wp_mono [OF ps_set_error_wp]) (auto simp: no_auto_def)
qed

lemma no_auto_log [simp]:
  "no_auto (w\<lparr>hist := h\<rparr>) \<longleftrightarrow> skip_auto_enable (drv w) \<and> (\<forall>q \<in> set (reqs h). \<not> enables_auto q)"
  "skip_auto_enable (f (drv w)) \<Longrightarrow> no_auto w \<Longrightarrow> no_auto (w\<lparr>drv := f (drv w)\<rparr>)"
  by (simp_all add: no_auto_def)

lemma probe_power_state_no_auto:
  "no_auto w \<Longrightarrow> wp (probe_power_state E n) (\<lambda>_. no_auto) w"
  unfolding probe_power_state_def apple_pmgr_ps_is_active_def apple_pmgr_ps_power_on_def bind_assoc
  by (intro wp_intros wp_mono [OF ps_set_no_auto]) (auto simp: no_auto_def)

lemma add_parent_domains_no_auto:
  "no_auto w \<Longrightarrow> wp (add_parent_domains E ps) (\<lambda>_. no_auto) w"
proof (induction ps arbitrary: w)
  case Nil
  then show ?case by (simp add: wp_simps)
next
  case (Cons p ps)
  then show ?case
    unfolding add_parent_domains.simps
    by (intro wp_intros) (auto simp: no_auto_def)
qed

lemma probe_register_no_auto:
  "no_auto w \<Longrightarrow> wp (probe_register E n active) (\<lambda>_. no_auto) w"
  unfolding probe_register_def probe_err_remove_def
  by (intro wp_intros wp_mono [OF add_parent_domains_no_auto]) (auto simp: no_auto_def)

lemma min_state_no_auto: "(FIELD_PREP APPLE_PMGR_PS_MIN m) AND APPLE_PMGR_AUTO_ENABLE = (0 :: u32)"
  by (rule word_zero_by_bits) (auto simp: pmgr_bits)

text \<open>
  A domain marked \<open>apple,skip-auto-enable\<close> never has automatic power management turned on by
  its probe: no write and no update of the probe, the power-on of an always-on domain included,
  sets AUTO_ENABLE, whatever the register holds and however the other calls answer.
\<close>

theorem probe_skip_auto_enable:
  assumes "n_skip_auto_enable n" and "hist w = []"
    and "run_state (apple_pmgr_ps_probe E n) w = (r, w')"
  shows "list_all (\<lambda>q. \<not> enables_auto q) (reqs (hist w'))"
proof -
  have "wp (apple_pmgr_ps_probe E n) (\<lambda>_ w'. \<forall>q \<in> set (reqs (hist w')). \<not> enables_auto q) w"
    unfolding apple_pmgr_ps_probe_def using assms(1,2)
    by (intro wp_intros wp_mono [OF probe_power_state_no_auto] wp_mono [OF probe_register_no_auto])
      (auto simp: no_auto_def min_state_no_auto)
  with assms(3) show ?thesis by (auto dest: wpD simp: list_all_iff)
qed

definition node_demo :: pmgr_node where
  "node_demo = \<lparr>n_label = Inr ''ans'', n_reg = Inr 0x100, n_min_state = Inr 4, n_skip_auto_enable = True,
     n_force_disable = False, n_force_reset = True, n_externally_clocked = False,
     n_parent_preserve_active = False, n_always_on = True, n_power_domains = [7]\<rparr>"

theorem probe_skip_auto_enable_witness:
  "list_all (\<lambda>q. \<not> enables_auto q)
     (reqs (hist (snd (run_state (apple_pmgr_ps_probe env_ok node_demo) demo_world))))"
  by (rule probe_skip_auto_enable [OF _ _ prod.collapse [symmetric]]) (simp_all add: node_demo_def)

text \<open>Whether the power domain was made known to the core, and to the device tree.\<close>

definition genpd_added :: "(pmgr_req \<times> int \<times> u32) list \<Rightarrow> bool" where
  "genpd_added h = list_ex (\<lambda>e. is_PmGenpdInit (fst e) \<and> 0 \<le> fst (snd e)) h"

definition provider_added :: "(pmgr_req \<times> int \<times> u32) list \<Rightarrow> bool" where
  "provider_added h = list_ex (\<lambda>e. fst e = OfGenpdAddProviderSimple \<and> 0 \<le> fst (snd e)) h"

fun plain_step :: "pmgr_req \<Rightarrow> bool" where
  "plain_step (PmGenpdInit off) = False"
| "plain_step OfGenpdAddProviderSimple = False"
| "plain_step OfGenpdDelProvider = False"
| "plain_step PmGenpdRemove = False"
| "plain_step _ = True"

lemma plain_events:
  assumes "list_all plain_step (reqs new)"
  shows "genpd_added (h @ new) = genpd_added h" "provider_added (h @ new) = provider_added h"
    "OfGenpdDelProvider \<notin> set (reqs new)" "PmGenpdRemove \<notin> set (reqs new)"
  using assms
  by (induction new) (auto simp: genpd_added_def provider_added_def is_PmGenpdInit_def)

lemma ps_set_plain: "emits plain_step (apple_pmgr_ps_set E p ae)"
  unfolding apple_pmgr_ps_set_def by (intro emits_intros) auto

lemma probe_power_state_plain: "emits plain_step (probe_power_state E n)"
  unfolding probe_power_state_def apple_pmgr_ps_is_active_def apple_pmgr_ps_power_on_def
  by (intro emits_intros ps_set_plain) auto

lemma add_parent_domains_plain:
  "emits plain_step (add_parent_domains E ps)"
  "run_state (add_parent_domains E ps) w = (Some ret, w') \<Longrightarrow> ret < 0"
proof (induction ps arbitrary: w)
  case Nil
  { case 1 then show ?case by (simp add: emits_intros) }
  { case 2 then show ?case by simp }
next
  case (Cons p ps)
  { case 1 show ?case unfolding add_parent_domains.simps
      by (intro emits_intros Cons.IH(1)) auto }
  { case 2 with Cons.IH(2) show ?case
      by (auto simp: case_prod_beta split: if_splits) }
qed

lemma add_parent_domains_wp:
  "wp (add_parent_domains E ps) (\<lambda>r w'. (\<exists>new. hist w' = hist w @ new \<and> list_all plain_step (reqs new))
     \<and> (\<forall>ret. r = Some ret \<longrightarrow> ret < 0)) w"
  by (intro wp_conj emits_wp add_parent_domains_plain(1) wpI)
    (auto dest: add_parent_domains_plain(2))

definition cleaned_up :: "int \<Rightarrow> (pmgr_req, int \<times> u32, apple_pmgr_ps) world \<Rightarrow> bool" where
  "cleaned_up r w \<longleftrightarrow>
     (OfGenpdDelProvider \<in> set (reqs (hist w)) \<longleftrightarrow> provider_added (hist w) \<and> r < 0) \<and>
     (PmGenpdRemove \<in> set (reqs (hist w)) \<longleftrightarrow> provider_added (hist w) \<and> r < 0) \<and>
     (\<not> r < 0 \<longrightarrow> r = 0 \<and> genpd_added (hist w) \<and> provider_added (hist w))"

lemma plain_no_events:
  assumes "list_all plain_step (reqs h)"
  shows "\<not> genpd_added h" "\<not> provider_added h"
  using assms by (induction h) (auto simp: genpd_added_def provider_added_def is_PmGenpdInit_def)

lemma added_simps [simp]:
  "genpd_added (h @ k) \<longleftrightarrow> genpd_added h \<or> genpd_added k"
  "provider_added (h @ k) \<longleftrightarrow> provider_added h \<or> provider_added k"
  "genpd_added (e # k) \<longleftrightarrow> is_PmGenpdInit (fst e) \<and> 0 \<le> fst (snd e) \<or> genpd_added k"
  "provider_added (e # k) \<longleftrightarrow> fst e = OfGenpdAddProviderSimple \<and> 0 \<le> fst (snd e) \<or> provider_added k"
  "\<not> genpd_added []" "\<not> provider_added []"
  by (simp_all add: genpd_added_def provider_added_def)

lemma probe_register_cleaned:
  assumes "list_all plain_step (reqs (hist w))"
  shows "wp (probe_register E n active) cleaned_up w"
  unfolding probe_register_def probe_err_remove_def
  using plain_no_events [OF assms] plain_events(3,4) [OF assms]
  by (intro wp_intros wp_mono [OF add_parent_domains_wp])
    (auto simp: cleaned_up_def plain_events(3,4) plain_no_events)

definition node_errors_negative :: "pmgr_node \<Rightarrow> bool" where
  "node_errors_negative n \<longleftrightarrow> (\<forall>e. n_label n = Inl e \<longrightarrow> e < 0) \<and> (\<forall>e. n_reg n = Inl e \<longrightarrow> e < 0)"

lemma cleaned_up_early: "r < 0 \<Longrightarrow> list_all plain_step (reqs (hist w)) \<Longrightarrow> cleaned_up r w"
  using plain_no_events [of "hist w"] plain_events(3,4) [of "hist w"] by (auto simp: cleaned_up_def)

text \<open>
  The probe's clean-up. It deletes the device-tree provider and removes the power domain
  exactly when the provider had been added and the probe fails, and a probe that does not fail
  returns 0 with both in place. In particular, when the power domain was registered and adding the
  provider then fails, the probe returns the error without removing the power domain.
\<close>

theorem probe_cleanup:
  assumes "node_errors_negative n" and "hist w = []"
    and "run_state (apple_pmgr_ps_probe E n) w = (r, w')"
  shows "cleaned_up r w'"
proof -
  have "wp (apple_pmgr_ps_probe E n) cleaned_up w"
    unfolding apple_pmgr_ps_probe_def using assms(1,2)
    by (intro wp_intros wp_mono [OF emits_wp_all [OF probe_power_state_plain]]
          wp_mono [OF probe_register_cleaned])
      (auto simp: node_errors_negative_def intro!: cleaned_up_early)
  with assms(3) show ?thesis by (rule wpD [rotated])
qed

theorem probe_cleanup_witness:
  "cleaned_up (fst (run_state (apple_pmgr_ps_probe env_ok node_demo) demo_world))
     (snd (run_state (apple_pmgr_ps_probe env_ok node_demo) demo_world))"
  by (rule probe_cleanup [OF _ _ prod.collapse [symmetric]])
    (simp_all add: node_demo_def node_errors_negative_def)

end
