(* ===== verification/Sart.thy ===== *)
theory Sart
  imports Wallace_Prelude
begin

text \<open>
  The SART address filter driver, \<open>sources/asahi--drivers__soc__apple__sart.c\<close>.

  A SART has 16 entries. The register block is a store of 32-bit registers that keeps what is
  written to it; the three hardware versions lay the entries out differently and are reached
  through a table of operations, as in the C. \<open>unsigned long\<close> bit maps are 64-bit words. The
  contract every version keeps is the locale \<open>sart_layout\<close>, interpreted for each of the three
  tables; what the driver promises its clients is proved once in it.
\<close>

section \<open>Registers and operations\<close>

type_synonym regs = "nat \<Rightarrow> u32"

definition APPLE_SART_MAX_ENTRIES :: nat where "APPLE_SART_MAX_ENTRIES = 16"

definition APPLE_SART0_CONFIG :: "nat \<Rightarrow> nat" where "APPLE_SART0_CONFIG idx = 0x00 + 4 * idx"
definition APPLE_SART0_CONFIG_FLAGS :: field where "APPLE_SART0_CONFIG_FLAGS = (28, 24)"
definition APPLE_SART0_CONFIG_SIZE :: field where "APPLE_SART0_CONFIG_SIZE = (18, 0)"
definition APPLE_SART0_PADDR :: "nat \<Rightarrow> nat" where "APPLE_SART0_PADDR idx = 0x40 + 4 * idx"
definition APPLE_SART2_CONFIG :: "nat \<Rightarrow> nat" where "APPLE_SART2_CONFIG idx = 0x00 + 4 * idx"
definition APPLE_SART2_CONFIG_FLAGS :: field where "APPLE_SART2_CONFIG_FLAGS = (31, 24)"
definition APPLE_SART2_CONFIG_SIZE :: field where "APPLE_SART2_CONFIG_SIZE = (23, 0)"
definition APPLE_SART2_PADDR :: "nat \<Rightarrow> nat" where "APPLE_SART2_PADDR idx = 0x40 + 4 * idx"
definition APPLE_SART3_CONFIG :: "nat \<Rightarrow> nat" where "APPLE_SART3_CONFIG idx = 0x00 + 4 * idx"
definition APPLE_SART3_PADDR :: "nat \<Rightarrow> nat" where "APPLE_SART3_PADDR idx = 0x40 + 4 * idx"
definition APPLE_SART3_SIZE :: "nat \<Rightarrow> nat" where "APPLE_SART3_SIZE idx = 0x80 + 4 * idx"

lemmas sart_regs = APPLE_SART0_CONFIG_def APPLE_SART0_PADDR_def APPLE_SART2_CONFIG_def
  APPLE_SART2_PADDR_def APPLE_SART3_CONFIG_def APPLE_SART3_PADDR_def APPLE_SART3_SIZE_def

text \<open>An entry: the flags, the physical address and the size of the region in bytes.\<close>

type_synonym entry = "u8 \<times> u64 \<times> u64"

record apple_sart_ops =
  get_entry :: "regs \<Rightarrow> nat \<Rightarrow> entry"
  set_entry :: "regs \<Rightarrow> nat \<Rightarrow> u8 \<Rightarrow> u64 \<Rightarrow> u64 \<Rightarrow> regs"
  flags_allow :: u8
  size_shift :: nat
  paddr_shift :: nat
  size_max :: u64

record apple_sart =
  sart_mmio :: regs
  protected_entries :: u64
  used_entries :: u64

definition sart0_get_entry :: "regs \<Rightarrow> nat \<Rightarrow> entry" where
  "sart0_get_entry r index =
     (let cfg = r (APPLE_SART0_CONFIG index);
          paddr = (ucast (r (APPLE_SART0_PADDR index)) :: u64);
          sz = (ucast (FIELD_GET APPLE_SART0_CONFIG_SIZE cfg) :: u64)
      in (ucast (FIELD_GET APPLE_SART0_CONFIG_FLAGS cfg), push_bit 12 paddr, push_bit 12 sz))"

definition sart0_set_entry :: "regs \<Rightarrow> nat \<Rightarrow> u8 \<Rightarrow> u64 \<Rightarrow> u64 \<Rightarrow> regs" where
  "sart0_set_entry r index flags paddr_shifted size_shifted =
     (let cfg = FIELD_PREP APPLE_SART0_CONFIG_FLAGS (ucast flags)
                OR FIELD_PREP APPLE_SART0_CONFIG_SIZE (ucast size_shifted)
      in (r(APPLE_SART0_PADDR index := ucast paddr_shifted))(APPLE_SART0_CONFIG index := cfg))"

definition sart_ops_v0 :: apple_sart_ops where
  "sart_ops_v0 = \<lparr>get_entry = sart0_get_entry, set_entry = sart0_set_entry, flags_allow = 0xf,
     size_shift = 12, paddr_shift = 12, size_max = GENMASK (18, 0)\<rparr>"

definition sart2_get_entry :: "regs \<Rightarrow> nat \<Rightarrow> entry" where
  "sart2_get_entry r index =
     (let cfg = r (APPLE_SART2_CONFIG index);
          paddr = (ucast (r (APPLE_SART2_PADDR index)) :: u64);
          sz = (ucast (FIELD_GET APPLE_SART2_CONFIG_SIZE cfg) :: u64)
      in (ucast (FIELD_GET APPLE_SART2_CONFIG_FLAGS cfg), push_bit 12 paddr, push_bit 12 sz))"

definition sart2_set_entry :: "regs \<Rightarrow> nat \<Rightarrow> u8 \<Rightarrow> u64 \<Rightarrow> u64 \<Rightarrow> regs" where
  "sart2_set_entry r index flags paddr_shifted size_shifted =
     (let cfg = FIELD_PREP APPLE_SART2_CONFIG_FLAGS (ucast flags)
                OR FIELD_PREP APPLE_SART2_CONFIG_SIZE (ucast size_shifted)
      in (r(APPLE_SART2_PADDR index := ucast paddr_shifted))(APPLE_SART2_CONFIG index := cfg))"

definition sart_ops_v2 :: apple_sart_ops where
  "sart_ops_v2 = \<lparr>get_entry = sart2_get_entry, set_entry = sart2_set_entry, flags_allow = 0xff,
     size_shift = 12, paddr_shift = 12, size_max = GENMASK (23, 0)\<rparr>"

definition sart3_get_entry :: "regs \<Rightarrow> nat \<Rightarrow> entry" where
  "sart3_get_entry r index =
     (let paddr = (ucast (r (APPLE_SART3_PADDR index)) :: u64);
          sz = (ucast (r (APPLE_SART3_SIZE index)) :: u64)
      in (ucast (r (APPLE_SART3_CONFIG index)), push_bit 12 paddr, push_bit 12 sz))"

definition sart3_set_entry :: "regs \<Rightarrow> nat \<Rightarrow> u8 \<Rightarrow> u64 \<Rightarrow> u64 \<Rightarrow> regs" where
  "sart3_set_entry r index flags paddr_shifted size_shifted =
     ((r(APPLE_SART3_PADDR index := ucast paddr_shifted))
        (APPLE_SART3_SIZE index := ucast size_shifted))(APPLE_SART3_CONFIG index := ucast flags)"

definition sart_ops_v3 :: apple_sart_ops where
  "sart_ops_v3 = \<lparr>get_entry = sart3_get_entry, set_entry = sart3_set_entry, flags_allow = 0xff,
     size_shift = 12, paddr_shift = 12, size_max = GENMASK (29, 0)\<rparr>"

text \<open>The match table: which operations a compatible string selects.\<close>

definition apple_sart_of_match :: "string \<Rightarrow> apple_sart_ops option" where
  "apple_sart_of_match compatible =
     (if compatible = ''apple,t6000-sart'' then Some sart_ops_v3
      else if compatible = ''apple,t8103-sart'' then Some sart_ops_v2
      else if compatible = ''apple,t8015-sart'' then Some sart_ops_v0
      else None)"

section \<open>The driver\<close>

text \<open>
  Probe: the allocation may fail, and mapping the registers gives them or an error. Every entry
  the boot loader left with non-zero flags becomes protected.
\<close>

fun protect_entries :: "apple_sart_ops \<Rightarrow> nat list \<Rightarrow> apple_sart \<Rightarrow> apple_sart" where
  "protect_entries ops [] s = s"
| "protect_entries ops (i # is) s =
     (if fst (get_entry ops (sart_mmio s) i) = 0 then protect_entries ops is s
      else protect_entries ops is (s\<lparr>protected_entries := set_bit i (protected_entries s)\<rparr>))"

definition apple_sart_probe :: "apple_sart_ops \<Rightarrow> bool \<Rightarrow> int + regs \<Rightarrow> int + apple_sart" where
  "apple_sart_probe ops alloc_ok ioremap =
     (if \<not> alloc_ok then Inl (- ENOMEM)
      else case ioremap of
        Inl err \<Rightarrow> Inl err
      | Inr r \<Rightarrow> Inr (protect_entries ops [0..<APPLE_SART_MAX_ENTRIES]
                   \<lparr>sart_mmio = r, protected_entries = 0, used_entries = 0\<rparr>))"

text \<open>The shifts are applied as the C applies them: the address by \<open>size_shift\<close>, the size by
  \<open>paddr_shift\<close>.\<close>

definition sart_set_entry :: "apple_sart_ops \<Rightarrow> apple_sart \<Rightarrow> nat \<Rightarrow> u8 \<Rightarrow> u64 \<Rightarrow> u64 \<Rightarrow> int \<times> apple_sart" where
  "sart_set_entry ops s index flags paddr sz =
     (if sz AND mask (size_shift ops) \<noteq> 0 then (- EINVAL, s)
      else if paddr AND mask (paddr_shift ops) \<noteq> 0 then (- EINVAL, s)
      else
        let paddr = drop_bit (size_shift ops) paddr; sz = drop_bit (paddr_shift ops) sz
        in if size_max ops < sz then (- EINVAL, s)
           else (0, s\<lparr>sart_mmio := set_entry ops (sart_mmio s) index flags paddr sz\<rparr>))"

fun add_allowed_region_from :: "apple_sart_ops \<Rightarrow> nat list \<Rightarrow> apple_sart \<Rightarrow> u64 \<Rightarrow> u64 \<Rightarrow> int \<times> apple_sart" where
  "add_allowed_region_from ops [] s paddr sz = (- EBUSY, s)"
| "add_allowed_region_from ops (i # is) s paddr sz =
     (if bit (protected_entries s) i then add_allowed_region_from ops is s paddr sz
      else if bit (used_entries s) i then add_allowed_region_from ops is s paddr sz
      else
        let s1 = s\<lparr>used_entries := set_bit i (used_entries s)\<rparr>;
            (ret, s2) = sart_set_entry ops s1 i (flags_allow ops) paddr sz
        in if ret \<noteq> 0 then (ret, s2\<lparr>used_entries := unset_bit i (used_entries s2)\<rparr>)
           else (0, s2))"

definition apple_sart_add_allowed_region :: "apple_sart_ops \<Rightarrow> apple_sart \<Rightarrow> u64 \<Rightarrow> u64 \<Rightarrow> int \<times> apple_sart" where
  "apple_sart_add_allowed_region ops s paddr sz =
     add_allowed_region_from ops [0..<APPLE_SART_MAX_ENTRIES] s paddr sz"

fun remove_allowed_region_from :: "apple_sart_ops \<Rightarrow> nat list \<Rightarrow> apple_sart \<Rightarrow> u64 \<Rightarrow> u64 \<Rightarrow> int \<times> apple_sart" where
  "remove_allowed_region_from ops [] s paddr sz = (- EINVAL, s)"
| "remove_allowed_region_from ops (i # is) s paddr sz =
     (if bit (protected_entries s) i then remove_allowed_region_from ops is s paddr sz
      else
        let (eflags, epaddr, esize) = get_entry ops (sart_mmio s) i
        in if epaddr \<noteq> paddr \<or> esize \<noteq> sz then remove_allowed_region_from ops is s paddr sz
           else (0, s\<lparr>sart_mmio := set_entry ops (sart_mmio s) i 0 0 0,
                       used_entries := unset_bit i (used_entries s)\<rparr>))"

definition apple_sart_remove_allowed_region :: "apple_sart_ops \<Rightarrow> apple_sart \<Rightarrow> u64 \<Rightarrow> u64 \<Rightarrow> int \<times> apple_sart" where
  "apple_sart_remove_allowed_region ops s paddr sz =
     remove_allowed_region_from ops [0..<APPLE_SART_MAX_ENTRIES] s paddr sz"

fun shutdown_entries :: "apple_sart_ops \<Rightarrow> nat list \<Rightarrow> apple_sart \<Rightarrow> apple_sart" where
  "shutdown_entries ops [] s = s"
| "shutdown_entries ops (i # is) s =
     (if bit (protected_entries s) i then shutdown_entries ops is s
      else shutdown_entries ops is (s\<lparr>sart_mmio := set_entry ops (sart_mmio s) i 0 0 0\<rparr>))"

definition apple_sart_shutdown :: "apple_sart_ops \<Rightarrow> apple_sart \<Rightarrow> apple_sart" where
  "apple_sart_shutdown ops s = shutdown_entries ops [0..<APPLE_SART_MAX_ENTRIES] s"

text \<open>The lookup by phandle. The response of a call is a pointer, 0 for NULL.\<close>

datatype sart_req = OfParsePhandle | OfFindDeviceByNode int | OfNodePut int
  | DevGetDrvdata int | PutDevice int | DeviceLinkAdd int

definition devm_apple_sart_get :: "(sart_req, int) env \<Rightarrow> (sart_req, int, unit, int) prog" where
  "devm_apple_sart_get E = do {
     sart_node \<leftarrow> call E OfParsePhandle;
     if sart_node = 0 then return (- ENODEV)
     else do {
       sart_pdev \<leftarrow> call E (OfFindDeviceByNode sart_node);
       exec E (OfNodePut sart_node);
       if sart_pdev = 0 then return (- ENODEV)
       else do {
         sart \<leftarrow> call E (DevGetDrvdata sart_pdev);
         if sart = 0 then do {
           exec E (PutDevice sart_pdev);
           return (- EPROBE_DEFER)
         } else do {
           exec E (DeviceLinkAdd sart_pdev);
           exec E (PutDevice sart_pdev);
           return sart
         }
       }
     }
   }"

section \<open>What the driver promises\<close>

definition is_protected :: "apple_sart \<Rightarrow> nat \<Rightarrow> bool" where
  "is_protected s i = bit (protected_entries s) i"

definition is_used :: "apple_sart \<Rightarrow> nat \<Rightarrow> bool" where
  "is_used s i = bit (used_entries s) i"

definition entry_of :: "apple_sart_ops \<Rightarrow> apple_sart \<Rightarrow> nat \<Rightarrow> entry" where
  "entry_of ops s i = get_entry ops (sart_mmio s) i"

text \<open>The regions the driver has granted: the abstract state, a map from entries to regions.\<close>

definition granted :: "apple_sart_ops \<Rightarrow> apple_sart \<Rightarrow> nat \<rightharpoonup> u64 \<times> u64" where
  "granted ops s i = (if i < APPLE_SART_MAX_ENTRIES \<and> \<not> is_protected s i \<and> is_used s i
     then Some (snd (entry_of ops s i)) else None)"

text \<open>
  The driver's bookkeeping agrees with the hardware: an entry it may use is in use exactly when
  its flags allow DMA, and an entry it does not use holds no region unless it was never used, in
  which case no later entry is used either. The second half makes the lookup by address in the
  removal find the entry that is in use.
\<close>

definition sart_inv :: "apple_sart_ops \<Rightarrow> apple_sart \<Rightarrow> bool" where
  "sart_inv ops s \<longleftrightarrow> (\<forall>i < APPLE_SART_MAX_ENTRIES. \<not> is_protected s i \<longrightarrow>
     (is_used s i \<longleftrightarrow> fst (entry_of ops s i) \<noteq> 0) \<and>
     (is_used s i \<or> snd (entry_of ops s i) = (0, 0) \<or>
      (\<forall>j. i < j \<and> j < APPLE_SART_MAX_ENTRIES \<and> \<not> is_protected s j \<longrightarrow> \<not> is_used s j)))"

definition free_entry :: "apple_sart \<Rightarrow> nat option" where
  "free_entry s = find (\<lambda>i. \<not> is_protected s i \<and> \<not> is_used s i) [0..<APPLE_SART_MAX_ENTRIES]"

definition region_ok :: "apple_sart_ops \<Rightarrow> u64 \<Rightarrow> u64 \<Rightarrow> bool" where
  "region_ok ops paddr sz \<longleftrightarrow> sz AND mask (size_shift ops) = 0 \<and> paddr AND mask (paddr_shift ops) = 0
     \<and> drop_bit (paddr_shift ops) sz \<le> size_max ops"

text \<open>The clients' calls, and the state a sequence of them leads to.\<close>

datatype sart_call = AddRegion u64 u64 | RemoveRegion u64 u64

fun sart_act :: "apple_sart_ops \<Rightarrow> sart_call \<Rightarrow> apple_sart \<Rightarrow> apple_sart" where
  "sart_act ops (AddRegion paddr sz) s = snd (apple_sart_add_allowed_region ops s paddr sz)"
| "sart_act ops (RemoveRegion paddr sz) s = snd (apple_sart_remove_allowed_region ops s paddr sz)"

text \<open>The 32-bit page number registers hold addresses below 2^44.\<close>

fun small_op :: "sart_call \<Rightarrow> bool" where
  "small_op (AddRegion paddr sz) \<longleftrightarrow> unat paddr < 2 ^ 44"
| "small_op (RemoveRegion paddr sz) \<longleftrightarrow> True"

definition clear_entry :: "apple_sart_ops \<Rightarrow> apple_sart \<Rightarrow> nat \<Rightarrow> apple_sart" where
  "clear_entry ops s i = s\<lparr>sart_mmio := set_entry ops (sart_mmio s) i 0 0 0,
     used_entries := unset_bit i (used_entries s)\<rparr>"

lemma find_upt_Some:
  "find P [0..<n] = Some i \<longleftrightarrow> i < n \<and> P i \<and> (\<forall>j<i. \<not> P j)"
  by (auto simp: find_Some_iff)

lemma find_upt_None: "find P [0..<n] = None \<longleftrightarrow> (\<forall>i<n. \<not> P i)"
  by (simp add: find_None_iff)

lemma unset_set_bit: "\<not> bit (u :: 'a::len word) i \<Longrightarrow> unset_bit i (set_bit i u) = u"
  by (rule bit_word_eqI) (auto simp: bit_simps)

lemma add_from_find:
  "add_allowed_region_from ops is s paddr sz =
     (case find (\<lambda>i. \<not> is_protected s i \<and> \<not> is_used s i) is of
        None \<Rightarrow> (- EBUSY, s)
      | Some i \<Rightarrow> if region_ok ops paddr sz
          then (0, s\<lparr>used_entries := set_bit i (used_entries s),
                     sart_mmio := set_entry ops (sart_mmio s) i (flags_allow ops)
                       (drop_bit (size_shift ops) paddr) (drop_bit (paddr_shift ops) sz)\<rparr>)
          else (- EINVAL, s))"
  by (induction "is")
    (auto simp: is_protected_def is_used_def region_ok_def sart_set_entry_def Let_def unset_set_bit not_le)

lemma remove_from_find:
  "remove_allowed_region_from ops is s paddr sz =
     (case find (\<lambda>i. \<not> is_protected s i \<and> snd (entry_of ops s i) = (paddr, sz)) is of
        None \<Rightarrow> (- EINVAL, s)
      | Some i \<Rightarrow> (0, s\<lparr>sart_mmio := set_entry ops (sart_mmio s) i 0 0 0,
                       used_entries := unset_bit i (used_entries s)\<rparr>))"
  by (induction "is") (auto simp: is_protected_def entry_of_def case_prod_beta)

lemma add_cases:
  "apple_sart_add_allowed_region ops s paddr sz =
     (case free_entry s of
        None \<Rightarrow> (- EBUSY, s)
      | Some i \<Rightarrow> if region_ok ops paddr sz
          then (0, s\<lparr>used_entries := set_bit i (used_entries s),
                     sart_mmio := set_entry ops (sart_mmio s) i (flags_allow ops)
                       (drop_bit (size_shift ops) paddr) (drop_bit (paddr_shift ops) sz)\<rparr>)
          else (- EINVAL, s))"
  unfolding apple_sart_add_allowed_region_def free_entry_def by (rule add_from_find)

lemma remove_cases:
  assumes "apple_sart_remove_allowed_region ops s paddr sz = (ret, s')"
  obtains (1) "ret = - EINVAL" "s' = s"
      "\<And>i. i < APPLE_SART_MAX_ENTRIES \<Longrightarrow> is_protected s i \<or> snd (entry_of ops s i) \<noteq> (paddr, sz)"
    | (2) i where "i < APPLE_SART_MAX_ENTRIES" "\<not> is_protected s i" "snd (entry_of ops s i) = (paddr, sz)"
      "\<And>j. j < i \<Longrightarrow> is_protected s j \<or> snd (entry_of ops s j) \<noteq> (paddr, sz)"
      "ret = 0" "s' = clear_entry ops s i"
proof (cases "find (\<lambda>i. \<not> is_protected s i \<and> snd (entry_of ops s i) = (paddr, sz))
    [0..<APPLE_SART_MAX_ENTRIES]")
  case None
  then have "ret = - EINVAL \<and> s' = s"
    using assms by (simp add: apple_sart_remove_allowed_region_def remove_from_find)
  then show ?thesis using None by (intro 1) (simp_all add: find_upt_None)
next
  case (Some i)
  then have "ret = 0 \<and> s' = clear_entry ops s i"
    using assms by (simp add: apple_sart_remove_allowed_region_def remove_from_find clear_entry_def)
  then show ?thesis using Some by (intro 2 [of i]) (simp_all add: find_upt_Some)
qed

lemma protect_entries_eq:
  "sart_mmio (protect_entries ops is s) = sart_mmio s"
  "used_entries (protect_entries ops is s) = used_entries s"
  "set is \<subseteq> {0..<64} \<Longrightarrow> bit (protected_entries (protect_entries ops is s)) j \<longleftrightarrow>
     bit (protected_entries s) j \<or> j \<in> set is \<and> fst (get_entry ops (sart_mmio s) j) \<noteq> 0"
  by (induction "is" arbitrary: s) (auto simp: bit_simps)

lemma shutdown_entries_bits:
  "protected_entries (shutdown_entries ops is s) = protected_entries s"
  "used_entries (shutdown_entries ops is s) = used_entries s"
  by (induction "is" arbitrary: s) auto

lemma push_drop_aligned:
  assumes "v AND mask n = 0"
  shows "push_bit n (drop_bit n v) = (v :: 'a::len word)"
proof (rule bit_word_eqI)
  fix k assume "k < LENGTH('a)"
  moreover have "\<not> bit (v AND mask n) k" using assms by simp
  ultimately show "bit (push_bit n (drop_bit n v)) k = bit v k"
    by (auto simp: bit_simps)
qed

text \<open>The contract of a hardware version: reading an entry back, and the other entries kept.\<close>

locale sart_layout =
  fixes ops :: apple_sart_ops
  assumes shifts: "size_shift ops = 12" "paddr_shift ops = 12"
    and allow: "flags_allow ops \<noteq> 0"
    and get_set_same: "i < APPLE_SART_MAX_ENTRIES \<Longrightarrow> f = 0 \<or> f = flags_allow ops \<Longrightarrow>
      unat p < 2 ^ 32 \<Longrightarrow> sz \<le> size_max ops \<Longrightarrow>
      get_entry ops (set_entry ops r i f p sz) i = (f, push_bit 12 p, push_bit 12 sz)"
    and get_set_other: "i < APPLE_SART_MAX_ENTRIES \<Longrightarrow> j < APPLE_SART_MAX_ENTRIES \<Longrightarrow> i \<noteq> j \<Longrightarrow>
      get_entry ops (set_entry ops r i f p sz) j = get_entry ops r j"
begin

lemma cleared_entry:
  "i < APPLE_SART_MAX_ENTRIES \<Longrightarrow> get_entry ops (set_entry ops r i 0 0 0) i = (0, 0, 0)"
  using get_set_same [of i 0 0 0 r] by simp

lemma written_entry:
  assumes "i < APPLE_SART_MAX_ENTRIES" "region_ok ops paddr sz" "unat paddr < 2 ^ 44"
  shows "get_entry ops (set_entry ops r i (flags_allow ops) (drop_bit 12 paddr) (drop_bit 12 sz)) i
    = (flags_allow ops, paddr, sz)"
proof -
  have "unat (drop_bit 12 paddr) < 2 ^ 32"
    using assms(3) by (subst unat_drop_bit_eq) (simp add: drop_bit_eq_div div_less_iff_less_mult)
  then show ?thesis
    using assms by (subst get_set_same) (auto simp: region_ok_def shifts push_drop_aligned)
qed

lemma probe_inv:
  assumes "apple_sart_probe ops ok io = Inr s"
  shows "sart_inv ops s \<and> granted ops s = Map.empty"
  using assms
  by (auto simp: apple_sart_probe_def sart_inv_def granted_def is_used_def is_protected_def entry_of_def
      protect_entries_eq APPLE_SART_MAX_ENTRIES_def fun_eq_iff split: if_splits sum.splits)

lemma add_ok:
  assumes "sart_inv ops s" "free_entry s = Some i" "region_ok ops paddr sz" "unat paddr < 2 ^ 44"
  shows "\<exists>s'. apple_sart_add_allowed_region ops s paddr sz = (0, s')
    \<and> granted ops s' = (granted ops s)(i \<mapsto> (paddr, sz)) \<and> sart_inv ops s'
    \<and> protected_entries s' = protected_entries s
    \<and> (\<forall>j < APPLE_SART_MAX_ENTRIES. j \<noteq> i \<longrightarrow> entry_of ops s' j = entry_of ops s j)"
proof -
  let ?s' = "s\<lparr>used_entries := set_bit i (used_entries s),
    sart_mmio := set_entry ops (sart_mmio s) i (flags_allow ops) (drop_bit 12 paddr) (drop_bit 12 sz)\<rparr>"
  from assms(2) have i: "i < APPLE_SART_MAX_ENTRIES" "\<not> is_protected s i" "\<not> is_used s i"
    and low: "\<And>j. j < i \<Longrightarrow> is_protected s j \<or> is_used s j"
    by (auto simp: free_entry_def find_upt_Some)
  have i64: "i < 64" using i by (simp add: APPLE_SART_MAX_ENTRIES_def)
  have run: "apple_sart_add_allowed_region ops s paddr sz = (0, ?s')"
    using assms(2,3) by (simp add: apple_sart_add_allowed_region_def add_from_find free_entry_def shifts)
  have other: "entry_of ops ?s' j = entry_of ops s j" if "j < APPLE_SART_MAX_ENTRIES" "j \<noteq> i" for j
    using that i get_set_other [of i j] by (simp add: entry_of_def)
  have self: "entry_of ops ?s' i = (flags_allow ops, paddr, sz)"
    using written_entry [OF i(1) assms(3,4)] by (simp add: entry_of_def)
  have used: "is_used ?s' j \<longleftrightarrow> is_used s j \<or> j = i" for j
    using i64 by (auto simp: is_used_def bit_simps)
  have prot: "is_protected ?s' j = is_protected s j" for j by (simp add: is_protected_def)
  have "sart_inv ops ?s'"
    unfolding sart_inv_def
  proof (intro allI impI)
    fix j assume j: "j < APPLE_SART_MAX_ENTRIES" "\<not> is_protected ?s' j"
    show "(is_used ?s' j \<longleftrightarrow> fst (entry_of ops ?s' j) \<noteq> 0) \<and>
     (is_used ?s' j \<or> snd (entry_of ops ?s' j) = (0, 0) \<or>
      (\<forall>k. j < k \<and> k < APPLE_SART_MAX_ENTRIES \<and> \<not> is_protected ?s' k \<longrightarrow> \<not> is_used ?s' k))"
    proof (cases "j = i")
      case True
      then show ?thesis by (simp add: self used allow)
    next
      case False
      have J: "(is_used s j \<longleftrightarrow> fst (entry_of ops s j) \<noteq> 0) \<and> (is_used s j \<or> snd (entry_of ops s j) = (0, 0) \<or>
          (\<forall>k. j < k \<and> k < APPLE_SART_MAX_ENTRIES \<and> \<not> is_protected s k \<longrightarrow> \<not> is_used s k))"
        using assms(1) j unfolding sart_inv_def prot by blast
      with False low [of j] j show ?thesis
        by (simp only: other [OF j(1) False] used prot) (metis linorder_neqE_nat)
    qed
  qed
  moreover have "granted ops ?s' = (granted ops s)(i \<mapsto> (paddr, sz))"
    by (rule ext) (use i in \<open>auto simp: granted_def used prot other self\<close>)
  ultimately show ?thesis using run other by simp
qed

lemma clear_entry_keeps:
  assumes "i < APPLE_SART_MAX_ENTRIES"
  shows "entry_of ops (clear_entry ops s i) i = (0, 0, 0)"
    and "j < APPLE_SART_MAX_ENTRIES \<Longrightarrow> j \<noteq> i \<Longrightarrow> entry_of ops (clear_entry ops s i) j = entry_of ops s j"
    and "is_used (clear_entry ops s i) j \<longleftrightarrow> is_used s j \<and> j \<noteq> i"
    and "is_protected (clear_entry ops s i) j = is_protected s j"
    and "protected_entries (clear_entry ops s i) = protected_entries s"
  using cleared_entry [OF assms] get_set_other [OF assms]
  by (auto simp: clear_entry_def entry_of_def is_used_def is_protected_def bit_unset_bit_iff)

lemma clear_entry_granted:
  assumes "i < APPLE_SART_MAX_ENTRIES"
  shows "granted ops (clear_entry ops s i) = (granted ops s)(i := None)"
  by (rule ext) (auto simp: granted_def clear_entry_keeps [OF assms])

lemma clear_entry_inv:
  assumes "sart_inv ops s" "i < APPLE_SART_MAX_ENTRIES"
  shows "sart_inv ops (clear_entry ops s i)"
  unfolding sart_inv_def
proof (intro allI impI)
  fix j assume j: "j < APPLE_SART_MAX_ENTRIES" "\<not> is_protected (clear_entry ops s i) j"
  show "(is_used (clear_entry ops s i) j \<longleftrightarrow> fst (entry_of ops (clear_entry ops s i) j) \<noteq> 0) \<and>
     (is_used (clear_entry ops s i) j \<or> snd (entry_of ops (clear_entry ops s i) j) = (0, 0) \<or>
      (\<forall>k. j < k \<and> k < APPLE_SART_MAX_ENTRIES \<and> \<not> is_protected (clear_entry ops s i) k \<longrightarrow>
         \<not> is_used (clear_entry ops s i) k))"
  proof (cases "j = i")
    case True
    then show ?thesis by (simp add: clear_entry_keeps [OF assms(2)])
  next
    case False
    with assms(1) j show ?thesis unfolding sart_inv_def by (auto simp: clear_entry_keeps [OF assms(2)])
  qed
qed

lemma remove_inv:
  assumes "sart_inv ops s" "apple_sart_remove_allowed_region ops s paddr sz = (ret, s')"
  shows "sart_inv ops s' \<and> protected_entries s' = protected_entries s
    \<and> (\<forall>i < APPLE_SART_MAX_ENTRIES. is_protected s i \<longrightarrow> entry_of ops s' i = entry_of ops s i)"
  using assms(2)
proof (cases rule: remove_cases)
  case 1
  then show ?thesis using assms(1) by simp
next
  case (2 i)
  then show ?thesis
    using clear_entry_inv [OF assms(1) 2(1)] clear_entry_keeps(2,5) [OF 2(1)] by metis
qed

lemma remove_found:
  assumes "sart_inv ops s" "granted ops s k = Some (paddr, sz)" "(paddr, sz) \<noteq> (0, 0)"
  shows "\<exists>i s'. apple_sart_remove_allowed_region ops s paddr sz = (0, s')
    \<and> granted ops s i = Some (paddr, sz) \<and> granted ops s' = (granted ops s)(i := None)
    \<and> sart_inv ops s' \<and> fst (entry_of ops s' i) = 0"
proof -
  obtain ret s' where run: "apple_sart_remove_allowed_region ops s paddr sz = (ret, s')"
    by (cases "apple_sart_remove_allowed_region ops s paddr sz")
  from assms(2) have k: "k < APPLE_SART_MAX_ENTRIES" "\<not> is_protected s k" "is_used s k"
      "snd (entry_of ops s k) = (paddr, sz)"
    by (auto simp: granted_def split: if_splits)
  from run show ?thesis
  proof (cases rule: remove_cases)
    case 1
    with k show ?thesis by blast
  next
    case (2 i)
    have "k = i \<or> i < k" using 2(4) [of k] k by (meson linorder_neqE_nat)
    with assms(1,3) 2 k have "is_used s i" unfolding sart_inv_def by metis
    with 2 have "granted ops s i = Some (paddr, sz)" by (simp add: granted_def)
    with run 2 assms(1) show ?thesis
      by (auto simp: clear_entry_granted clear_entry_inv clear_entry_keeps)
  qed
qed

lemma remove_absent:
  assumes "sart_inv ops s" "\<forall>k. granted ops s k \<noteq> Some (paddr, sz)"
    and "apple_sart_remove_allowed_region ops s paddr sz = (ret, s')"
  shows "granted ops s' = granted ops s"
  using assms(3)
proof (cases rule: remove_cases)
  case 1
  then show ?thesis by simp
next
  case (2 i)
  then have "granted ops s i = None"
    using assms(2) [rule_format, of i] by (auto simp: granted_def)
  then show ?thesis using 2 by (simp add: clear_entry_granted fun_upd_idem)
qed

lemma add_inv:
  assumes "sart_inv ops s" "unat paddr < 2 ^ 44"
    and "apple_sart_add_allowed_region ops s paddr sz = (ret, s')"
  shows "sart_inv ops s' \<and> protected_entries s' = protected_entries s
    \<and> (\<forall>i < APPLE_SART_MAX_ENTRIES. is_protected s i \<longrightarrow> entry_of ops s' i = entry_of ops s i)"
proof (cases "free_entry s")
  case None
  then show ?thesis using assms by (simp add: add_cases)
next
  case (Some i)
  then have "\<not> is_protected s i" by (simp add: free_entry_def find_upt_Some)
  with Some add_ok [OF assms(1) Some _ assms(2)] assms show ?thesis
    by (cases "region_ok ops paddr sz") (auto simp: add_cases)
qed

lemma run_keeps:
  assumes "sart_inv ops s" "list_all small_op acts"
  shows "sart_inv ops (fold (sart_act ops) acts s)
    \<and> protected_entries (fold (sart_act ops) acts s) = protected_entries s
    \<and> (\<forall>i < APPLE_SART_MAX_ENTRIES. is_protected s i \<longrightarrow>
         entry_of ops (fold (sart_act ops) acts s) i = entry_of ops s i)"
  using assms
proof (induction acts arbitrary: s)
  case Nil
  then show ?case by simp
next
  case (Cons a acts)
  have step: "sart_inv ops (sart_act ops a s) \<and> protected_entries (sart_act ops a s) = protected_entries s
    \<and> (\<forall>i < APPLE_SART_MAX_ENTRIES. is_protected s i \<longrightarrow> entry_of ops (sart_act ops a s) i = entry_of ops s i)"
  proof (cases a)
    case (AddRegion p z)
    then show ?thesis
      using Cons.prems add_inv [of s p z] by (cases "apple_sart_add_allowed_region ops s p z") auto
  next
    case (RemoveRegion p z)
    then show ?thesis
      using Cons.prems remove_inv [of s p z] by (cases "apple_sart_remove_allowed_region ops s p z") auto
  qed
  with Cons.IH [of "sart_act ops a s"] Cons.prems(2) show ?case by (simp add: is_protected_def)
qed

lemma shutdown_entry:
  "set is \<subseteq> {0..<APPLE_SART_MAX_ENTRIES} \<Longrightarrow> j < APPLE_SART_MAX_ENTRIES \<Longrightarrow>
   entry_of ops (shutdown_entries ops is s) j =
     (if j \<in> set is \<and> \<not> is_protected s j then (0, 0, 0) else entry_of ops s j)"
proof (induction "is" arbitrary: s)
  case Nil
  then show ?case by simp
next
  case (Cons i "is")
  then show ?case
    by (cases "i = j") (auto simp: is_protected_def entry_of_def cleared_entry get_set_other)
qed

end

section \<open>The three hardware versions\<close>

lemma GENMASK_bound:
  assumes "(v :: 'a::len word) \<le> GENMASK (h, 0)"
  shows "unat v < 2 ^ Suc h"
proof -
  have "unat (mask (Suc h) :: 'a word) \<le> mask (Suc h)"
    by (subst of_nat_mask_eq [symmetric], simp only: unsigned_of_nat) (simp add: mask_eq_exp_minus_1 diff_le_mono)
  moreover have "unat v \<le> unat (mask (Suc h) :: 'a word)"
    using assms by (simp add: GENMASK_def word_le_nat_alt)
  moreover have "(mask (Suc h) :: nat) < 2 ^ Suc h" by (rule mask_nat_less_exp)
  ultimately show ?thesis by linarith
qed

text \<open>A size field wide enough for \<open>size_max\<close> and a flags field above it are read back whole.\<close>

lemma config_fields:
  fixes f :: u8 and sz :: u64
  assumes "h < l'" "l' + w = Suc h'" "h' < 32" "w \<le> 8" "unat f < 2 ^ w" "sz \<le> GENMASK (h, 0)"
  defines "cfg \<equiv> FIELD_PREP (h', l') (ucast f) OR (FIELD_PREP (h, 0) (ucast sz) :: u32)"
  shows "ucast (FIELD_GET (h', l') cfg) = f" and "ucast (FIELD_GET (h, 0) cfg) = sz"
proof -
  have f: "take_bit w f = f" using assms(5) by (rule unat_take_bit_id)
  have "unat sz < 2 ^ Suc h" using assms(6) by (rule GENMASK_bound)
  then have sz: "take_bit (Suc h) sz = sz" by (rule unat_take_bit_id)
  have fb: "bit f k \<Longrightarrow> k < w" for k by (metis f bit_take_bit_iff)
  have szb: "bit sz k \<Longrightarrow> k \<le> h" for k by (metis sz bit_take_bit_iff less_Suc_eq_le)
  show "ucast (FIELD_GET (h', l') cfg) = f"
    using assms(1-4) by (intro bit_word_eqI) (auto simp: cfg_def bit_simps field_simps_bits dest: fb)
  show "ucast (FIELD_GET (h, 0) cfg) = sz"
    using assms(1-4) by (intro bit_word_eqI) (auto simp: cfg_def bit_simps field_simps_bits dest: szb)
qed

lemma page_number_id:
  assumes "unat (p :: u64) < 2 ^ 32"
  shows "ucast (ucast p :: u32) = p"
proof (rule bit_word_eqI)
  have b: "bit p k \<Longrightarrow> k < 32" for k by (metis unat_take_bit_id [OF assms] bit_take_bit_iff)
  fix k assume "k < LENGTH(64)"
  with b [of k] show "bit (ucast (ucast p :: u32) :: u64) k = bit p k" by (auto simp: bit_simps)
qed

interpretation v0: sart_layout sart_ops_v0
proof unfold_locales
  fix i and f :: u8 and p sz :: u64 and r
  assume *: "f = 0 \<or> f = flags_allow sart_ops_v0" "unat p < 2 ^ 32" "sz \<le> size_max sart_ops_v0"
  then show "get_entry sart_ops_v0 (set_entry sart_ops_v0 r i f p sz) i = (f, push_bit 12 p, push_bit 12 sz)"
    using config_fields [of 18 24 5 28 f sz]
    by (auto simp: sart_ops_v0_def sart0_get_entry_def sart0_set_entry_def sart_regs page_number_id
        APPLE_SART0_CONFIG_FLAGS_def APPLE_SART0_CONFIG_SIZE_def Let_def)
qed (auto simp: sart_ops_v0_def sart0_get_entry_def sart0_set_entry_def sart_regs
  APPLE_SART_MAX_ENTRIES_def Let_def)

interpretation v2: sart_layout sart_ops_v2
proof unfold_locales
  fix i and f :: u8 and p sz :: u64 and r
  assume *: "f = 0 \<or> f = flags_allow sart_ops_v2" "unat p < 2 ^ 32" "sz \<le> size_max sart_ops_v2"
  then show "get_entry sart_ops_v2 (set_entry sart_ops_v2 r i f p sz) i = (f, push_bit 12 p, push_bit 12 sz)"
    using config_fields [of 23 24 8 31 f sz]
    by (auto simp: sart_ops_v2_def sart2_get_entry_def sart2_set_entry_def sart_regs page_number_id
        APPLE_SART2_CONFIG_FLAGS_def APPLE_SART2_CONFIG_SIZE_def Let_def)
qed (auto simp: sart_ops_v2_def sart2_get_entry_def sart2_set_entry_def sart_regs
  APPLE_SART_MAX_ENTRIES_def Let_def)

lemma sart3_size_id: "sz \<le> GENMASK (29, 0) \<Longrightarrow> ucast (ucast (sz :: u64) :: u32) = sz"
  by (rule page_number_id, drule GENMASK_bound) simp

interpretation v3: sart_layout sart_ops_v3
proof unfold_locales
  fix i and f :: u8 and p sz :: u64 and r
  assume *: "f = 0 \<or> f = flags_allow sart_ops_v3" "unat p < 2 ^ 32" "sz \<le> size_max sart_ops_v3"
  moreover have "ucast (ucast f :: u32) = f" by (rule bit_word_eqI) (auto simp: bit_simps)
  ultimately show "get_entry sart_ops_v3 (set_entry sart_ops_v3 r i f p sz) i = (f, push_bit 12 p, push_bit 12 sz)"
    by (simp add: sart_ops_v3_def sart3_get_entry_def sart3_set_entry_def sart_regs page_number_id sart3_size_id)
qed (auto simp: sart_ops_v3_def sart3_get_entry_def sart3_set_entry_def sart_regs APPLE_SART_MAX_ENTRIES_def)

lemma of_match_layout: "apple_sart_of_match compatible = Some ops \<Longrightarrow> sart_layout ops"
  by (auto simp: apple_sart_of_match_def v0.sart_layout_axioms v2.sart_layout_axioms v3.sart_layout_axioms
      split: if_splits)

section \<open>The properties of the driver\<close>

text \<open>Registers a boot loader may leave: entry 1 allows 2 MiB at 0x8_0000_0000.\<close>

definition boot_regs :: regs where
  "boot_regs = (\<lambda>_. 0)(0x04 := 0xff000200, 0x44 := 0x800000)"

definition boot_sart :: apple_sart where
  "boot_sart = \<lparr>sart_mmio = boot_regs, protected_entries = 2, used_entries = 0\<rparr>"

lemma boot_probe: "apple_sart_probe sart_ops_v2 True (Inr boot_regs) = Inr boot_sart"
proof -
  have "protected_entries (protect_entries sart_ops_v2 [0..<APPLE_SART_MAX_ENTRIES]
      \<lparr>sart_mmio = boot_regs, protected_entries = 0, used_entries = 0\<rparr>) = 2"
    by code_simp
  then show ?thesis
    by (auto simp: apple_sart_probe_def boot_sart_def protect_entries_eq intro: apple_sart.equality)
qed

lemma match_v2: "apple_sart_of_match ''apple,t8103-sart'' = Some sart_ops_v2"
  by (simp add: apple_sart_of_match_def)

lemmas boot_inv = v2.probe_inv [OF boot_probe]

text \<open>
  After a successful probe the driver's state agrees with the hardware, nothing is granted yet,
  the registers are untouched, and the protected entries are exactly those the boot loader left
  with non-zero flags.
\<close>

theorem sart_probe_protects:
  assumes "apple_sart_of_match compatible = Some ops" "apple_sart_probe ops alloc_ok io = Inr s"
  shows "sart_inv ops s \<and> granted ops s = Map.empty \<and> io = Inr (sart_mmio s)
    \<and> (\<forall>i < APPLE_SART_MAX_ENTRIES. is_protected s i \<longleftrightarrow> fst (entry_of ops s i) \<noteq> 0)"
proof -
  note layout = of_match_layout [OF assms(1)]
  have "io = Inr (sart_mmio s)
    \<and> (\<forall>i < APPLE_SART_MAX_ENTRIES. is_protected s i \<longleftrightarrow> fst (entry_of ops s i) \<noteq> 0)"
    using assms(2)
    by (auto simp: apple_sart_probe_def is_protected_def entry_of_def protect_entries_eq
        APPLE_SART_MAX_ENTRIES_def split: if_splits sum.splits)
  with sart_layout.probe_inv [OF layout assms(2)] show ?thesis by blast
qed

theorem sart_probe_protects_witness:
  "sart_inv sart_ops_v2 boot_sart \<and> is_protected boot_sart 1 \<and> \<not> is_protected boot_sart 0"
  using sart_probe_protects [OF match_v2 boot_probe]
  by (simp add: boot_sart_def is_protected_def)



text \<open>
  Round trip: removing a region that was just added, and was not granted before, succeeds and
  gives back exactly the grants there were before.
\<close>

theorem sart_add_remove:
  assumes "apple_sart_of_match compatible = Some ops" "sart_inv ops s" "unat paddr < 2 ^ 44"
    and "(paddr, sz) \<noteq> (0, 0)" "(paddr, sz) \<notin> ran (granted ops s)"
    and "apple_sart_add_allowed_region ops s paddr sz = (0, s1)"
  shows "\<exists>s2. apple_sart_remove_allowed_region ops s1 paddr sz = (0, s2)
    \<and> granted ops s2 = granted ops s \<and> sart_inv ops s2"
proof -
  note layout = of_match_layout [OF assms(1)]
  obtain i where i: "free_entry s = Some i" "region_ok ops paddr sz"
    using assms(6) by (auto simp: add_cases split: option.splits if_splits)
  then have free: "granted ops s i = None" by (auto simp: free_entry_def find_upt_Some granted_def)
  from sart_layout.add_ok [OF layout assms(2) i assms(3)] assms(6)
  have s1: "granted ops s1 = (granted ops s)(i \<mapsto> (paddr, sz))" "sart_inv ops s1" by auto
  from sart_layout.remove_found [OF layout s1(2) _ assms(4), of i] s1(1)
  obtain k s2 where k: "apple_sart_remove_allowed_region ops s1 paddr sz = (0, s2)"
      "granted ops s1 k = Some (paddr, sz)" "granted ops s2 = (granted ops s1)(k := None)" "sart_inv ops s2"
    by auto
  have "k = i" using k(2) s1(1) assms(5) by (auto simp: ran_def split: if_splits)
  with k s1(1) free show ?thesis by (auto simp: fun_upd_idem)
qed

theorem sart_add_remove_witness:
  "\<exists>s2. apple_sart_remove_allowed_region sart_ops_v2
     (snd (apple_sart_add_allowed_region sart_ops_v2 boot_sart 0x810000000 0x4000)) 0x810000000 0x4000 = (0, s2)
   \<and> granted sart_ops_v2 s2 = Map.empty"
proof -
  have "fst (apple_sart_add_allowed_region sart_ops_v2 boot_sart 0x810000000 0x4000) = 0" by code_simp
  then have "apple_sart_add_allowed_region sart_ops_v2 boot_sart 0x810000000 0x4000 =
      (0, snd (apple_sart_add_allowed_region sart_ops_v2 boot_sart 0x810000000 0x4000))"
    by (metis prod.collapse)
  from sart_add_remove [OF match_v2 _ _ _ _ this] boot_inv show ?thesis by auto
qed

text \<open>
  Whatever sequence of additions and removals follows a probe, the invariant holds and every
  entry the boot loader had set up still reads as the boot loader left it.
\<close>

theorem sart_calls_keep_protected:
  assumes "apple_sart_of_match compatible = Some ops" "apple_sart_probe ops True (Inr r) = Inr s"
    and "list_all small_op acts"
  shows "sart_inv ops (fold (sart_act ops) acts s)
    \<and> (\<forall>i < APPLE_SART_MAX_ENTRIES. fst (get_entry ops r i) \<noteq> 0 \<longrightarrow>
         entry_of ops (fold (sart_act ops) acts s) i = get_entry ops r i)"
proof -
  note layout = of_match_layout [OF assms(1)]
  have inv: "sart_inv ops s" using sart_layout.probe_inv [OF layout assms(2)] by simp
  have "sart_mmio s = r" "\<forall>i < APPLE_SART_MAX_ENTRIES. fst (get_entry ops r i) \<noteq> 0 \<longrightarrow> is_protected s i"
    using assms(2) by (auto simp: apple_sart_probe_def is_protected_def protect_entries_eq APPLE_SART_MAX_ENTRIES_def)
  with sart_layout.run_keeps [OF layout inv assms(3)] show ?thesis by (simp add: entry_of_def)
qed

theorem sart_calls_keep_protected_witness:
  "entry_of sart_ops_v2 (fold (sart_act sart_ops_v2)
     [RemoveRegion 0x800000000 0x200000, AddRegion 0x810000000 0x4000] boot_sart) 1
   = (0xff, 0x800000000, 0x200000)"
proof -
  have e: "get_entry sart_ops_v2 boot_regs 1 = (0xff, 0x800000000, 0x200000)" by code_simp
  show ?thesis
    using sart_calls_keep_protected [OF match_v2 boot_probe,
        of "[RemoveRegion 0x800000000 0x200000, AddRegion 0x810000000 0x4000]"] e
    by (simp add: APPLE_SART_MAX_ENTRIES_def)
qed

text \<open>
  Shutdown clears every entry the driver may use and leaves the boot loader's entries alone.
\<close>

theorem sart_shutdown_clears:
  assumes "apple_sart_of_match compatible = Some ops" "i < APPLE_SART_MAX_ENTRIES"
  shows "entry_of ops (apple_sart_shutdown ops s) i =
    (if is_protected s i then entry_of ops s i else (0, 0, 0))"
  using sart_layout.shutdown_entry [OF of_match_layout [OF assms(1)] _ assms(2), of "[0..<APPLE_SART_MAX_ENTRIES]" s]
    assms(2)
  by (simp add: apple_sart_shutdown_def atLeast0LessThan)

theorem sart_shutdown_clears_witness:
  "entry_of sart_ops_v2 (apple_sart_shutdown sart_ops_v2 boot_sart) 1 = (0xff, 0x800000000, 0x200000)"
proof -
  have e: "entry_of sart_ops_v2 boot_sart 1 = (0xff, 0x800000000, 0x200000)" by code_simp
  show ?thesis
    using sart_shutdown_clears [OF match_v2, of 1 boot_sart] e
    by (simp add: APPLE_SART_MAX_ENTRIES_def boot_sart_def is_protected_def)
qed

text \<open>The references the lookup takes and gives back, in order.\<close>

definition node_gets :: "(sart_req \<times> int) list \<Rightarrow> int list" where
  "node_gets h = [r. (q, r) \<leftarrow> h, q = OfParsePhandle \<and> r \<noteq> 0]"

definition node_puts :: "(sart_req \<times> int) list \<Rightarrow> int list" where
  "node_puts h = concat (map (\<lambda>(q, r). case q of OfNodePut n \<Rightarrow> [n] | _ \<Rightarrow> []) h)"

definition dev_gets :: "(sart_req \<times> int) list \<Rightarrow> int list" where
  "dev_gets h = concat (map (\<lambda>(q, r). case q of OfFindDeviceByNode n \<Rightarrow> if r \<noteq> 0 then [r] else [] | _ \<Rightarrow> []) h)"

definition dev_puts :: "(sart_req \<times> int) list \<Rightarrow> int list" where
  "dev_puts h = concat (map (\<lambda>(q, r). case q of PutDevice d \<Rightarrow> [d] | _ \<Rightarrow> []) h)"

lemmas sart_refs = node_gets_def node_puts_def dev_gets_def dev_puts_def

text \<open>
  The lookup gives back every reference it takes, on every path; it answers \<open>-ENODEV\<close> with no
  device, \<open>-EPROBE_DEFER\<close> while the SART has no driver data yet, and otherwise the driver data, after
  a device link was added.
\<close>

theorem sart_get_releases:
  "wp (devm_apple_sart_get E) (\<lambda>ret w'. \<exists>new. hist w' = hist w @ new \<and> drv w' = drv w
     \<and> node_puts new = node_gets new \<and> dev_puts new = dev_gets new
     \<and> (case dev_gets new of
          [] \<Rightarrow> ret = - ENODEV
        | d # _ \<Rightarrow> (DevGetDrvdata d, if ret = - EPROBE_DEFER \<and> DeviceLinkAdd d \<notin> set (reqs new) then 0 else ret) \<in> set new
            \<and> (ret = - EPROBE_DEFER \<or> DeviceLinkAdd d \<in> set (reqs new)))) w"
  unfolding devm_apple_sart_get_def
  by (intro wp_intros) (auto simp: sart_refs)

end
