(* ===== verification/Aic.thy ===== *)
theory Aic
  imports Wallace_Prelude
begin

text \<open>
  The Apple interrupt controller driver,
  \<open>local-source/drivers/irqchip/irq-apple-aic.c\<close>: the encoding of hardware interrupt numbers, the
  register layout that initialisation computes, the IRQ, FIQ and IPI chips, the translation of
  firmware specifiers, and initialisation with its error paths.

  Registers, system registers and the interrupt core are reached by requests; a response is a
  return code and a value. What the kernel's headers fix and the sources do not contain (the
  device tree binding's PMU numbers, the PMU and timer control bits, the trigger types, the MPIDR
  layout, the exception level) is the parameter \<open>K\<close>. Driver state is the chip, the two static
  branches and each CPU's FIQ mask word. The contract of a chip's mask and unmask operations is
  the locale \<open>irq_lines\<close>; it is interpreted for the AIC's lines, where a line's mask is what the
  register writes so far have made it, and for the FIQ lines of a CPU.
\<close>

section \<open>Registers and encodings\<close>

definition AIC_INFO :: u32 where "AIC_INFO = 0x0004"
definition AIC_INFO_NR_IRQ :: field where "AIC_INFO_NR_IRQ = (15, 0)"
definition AIC_WHOAMI :: u32 where "AIC_WHOAMI = 0x2000"
definition AIC_EVENT :: u32 where "AIC_EVENT = 0x2004"
definition AIC_EVENT_DIE :: field where "AIC_EVENT_DIE = (31, 24)"
definition AIC_EVENT_TYPE :: field where "AIC_EVENT_TYPE = (23, 16)"
definition AIC_EVENT_NUM :: field where "AIC_EVENT_NUM = (15, 0)"
abbreviation (input) "AIC_EVENT_TYPE_FIQ \<equiv> 0"
abbreviation (input) "AIC_EVENT_TYPE_IRQ \<equiv> 1"
abbreviation (input) "AIC_EVENT_TYPE_IPI \<equiv> 4"
definition AIC_IPI_SEND :: u32 where "AIC_IPI_SEND = 0x2008"
definition AIC_IPI_ACK :: u32 where "AIC_IPI_ACK = 0x200c"
definition AIC_IPI_MASK_SET :: u32 where "AIC_IPI_MASK_SET = 0x2024"
definition AIC_IPI_MASK_CLR :: u32 where "AIC_IPI_MASK_CLR = 0x2028"
definition AIC_IPI_OTHER :: u32 where "AIC_IPI_OTHER = BIT 0"
definition AIC_IPI_SELF :: u32 where "AIC_IPI_SELF = BIT 31"
definition AIC_TARGET_CPU :: u32 where "AIC_TARGET_CPU = 0x3000"
definition AIC_MAX_IRQ :: u32 where "AIC_MAX_IRQ = 0x400"
definition AIC2_INFO1 :: u32 where "AIC2_INFO1 = 0x0004"
definition AIC2_INFO1_NR_IRQ :: field where "AIC2_INFO1_NR_IRQ = (15, 0)"
definition AIC2_INFO1_LAST_DIE :: field where "AIC2_INFO1_LAST_DIE = (27, 24)"
definition AIC2_INFO3 :: u32 where "AIC2_INFO3 = 0x000c"
definition AIC2_INFO3_MAX_IRQ :: field where "AIC2_INFO3_MAX_IRQ = (15, 0)"
definition AIC2_INFO3_MAX_DIE :: field where "AIC2_INFO3_MAX_DIE = (27, 24)"
definition AIC2_CONFIG :: u32 where "AIC2_CONFIG = 0x0014"
definition AIC2_CONFIG_ENABLE :: u32 where "AIC2_CONFIG_ENABLE = BIT 0"
definition AIC2_IRQ_CFG :: u32 where "AIC2_IRQ_CFG = 0x2000"
definition AIC3_IRQ_CFG :: u32 where "AIC3_IRQ_CFG = 0x10000"

definition MASK_REG :: "u32 \<Rightarrow> u32" where "MASK_REG x = 4 * drop_bit 5 x"
definition MASK_BIT :: "u32 \<Rightarrow> u32" where "MASK_BIT x = BIT (unat (x AND GENMASK (4, 0)))"

definition IPI_RR_CPU :: field where "IPI_RR_CPU = (7, 0)"
definition IPI_RR_CLUSTER :: field where "IPI_RR_CLUSTER = (23, 16)"
definition IPI_SR_PENDING :: u64 where "IPI_SR_PENDING = BIT 0"
definition VM_TMR_FIQ_ENABLE_V :: u64 where "VM_TMR_FIQ_ENABLE_V = BIT 0"
definition VM_TMR_FIQ_ENABLE_P :: u64 where "VM_TMR_FIQ_ENABLE_P = BIT 1"
definition UPMCR0_IMODE :: field where "UPMCR0_IMODE = (18, 16)"
abbreviation (input) "UPMCR0_IMODE_OFF \<equiv> 0"
abbreviation (input) "UPMCR0_IMODE_FIQ \<equiv> 4"
definition UPMSR_IACT :: u64 where "UPMSR_IACT = BIT 0"

definition AIC_IRQ_HWIRQ :: "u32 \<Rightarrow> u32 \<Rightarrow> u64" where
  "AIC_IRQ_HWIRQ die irq = FIELD_PREP AIC_EVENT_DIE (ucast die)
     OR FIELD_PREP AIC_EVENT_TYPE AIC_EVENT_TYPE_IRQ OR FIELD_PREP AIC_EVENT_NUM (ucast irq)"
definition AIC_FIQ_HWIRQ :: "u32 \<Rightarrow> u64" where
  "AIC_FIQ_HWIRQ x = FIELD_PREP AIC_EVENT_TYPE AIC_EVENT_TYPE_FIQ OR FIELD_PREP AIC_EVENT_NUM (ucast x)"
definition AIC_HWIRQ_IRQ :: "u64 \<Rightarrow> u64" where "AIC_HWIRQ_IRQ x = FIELD_GET AIC_EVENT_NUM x"
definition AIC_HWIRQ_DIE :: "u64 \<Rightarrow> u64" where "AIC_HWIRQ_DIE x = FIELD_GET AIC_EVENT_DIE x"
abbreviation (input) "AIC_NR_SWIPI \<equiv> (32 :: nat)"

text \<open>The binding's values the file's header comment gives.\<close>

definition AIC_IRQ :: u32 where "AIC_IRQ = 0"
definition AIC_FIQ :: u32 where "AIC_FIQ = 1"
definition AIC_TMR_EL0_PHYS :: u32 where "AIC_TMR_EL0_PHYS = 0"
definition AIC_TMR_EL0_VIRT :: u32 where "AIC_TMR_EL0_VIRT = 1"
definition AIC_TMR_EL02_PHYS :: u32 where "AIC_TMR_EL02_PHYS = 2"
definition AIC_TMR_EL02_VIRT :: u32 where "AIC_TMR_EL02_VIRT = 3"

text \<open>What the kernel's headers and the machine fix.\<close>

record aic_hdr =
  AIC_CPU_PMU_E :: u32
  AIC_CPU_PMU_P :: u32
  PMCR0_IMODE :: field
  PMCR0_IMODE_OFF :: u64
  PMCR0_IMODE_FIQ :: u64
  PMCR0_IACT :: u64
  ICH_HCR_EL2_En :: u64
  ARCH_TIMER_CTRL_ENABLE :: u64
  ARCH_TIMER_CTRL_IT_MASK :: u64
  ARCH_TIMER_CTRL_IT_STAT :: u64
  IRQ_TYPE_LEVEL_HIGH :: u32
  IRQ_TYPE_EDGE_RISING :: u32
  IRQ_TYPE_SENSE_MASK :: u32
  MPIDR_AFFINITY_LEVEL :: "u64 \<Rightarrow> nat \<Rightarrow> u64"
  is_kernel_in_hyp_mode :: bool

definition AIC_VGIC_MI :: "aic_hdr \<Rightarrow> u32" where "AIC_VGIC_MI K = AIC_CPU_PMU_P K + 1"
definition AIC_NR_FIQ :: "aic_hdr \<Rightarrow> u32" where "AIC_NR_FIQ K = AIC_CPU_PMU_P K + 2"

section \<open>State and requests\<close>

record aic_info =
  version :: nat
  event_off :: u32
  target_cpu :: u32
  irq_cfg :: u32
  sw_set :: u32
  sw_clr :: u32
  mask_set :: u32
  mask_clr :: u32
  die_stride :: u32
  fast_ipi :: bool
  local_fast_ipi :: bool

definition info_zero :: aic_info where
  "info_zero = \<lparr>version = 0, event_off = 0, target_cpu = 0, irq_cfg = 0, sw_set = 0, sw_clr = 0,
     mask_set = 0, mask_clr = 0, die_stride = 0, fast_ipi = False, local_fast_ipi = False\<rparr>"

definition aic1_info :: aic_info where
  "aic1_info = info_zero\<lparr>version := 1, event_off := AIC_EVENT, target_cpu := AIC_TARGET_CPU\<rparr>"
definition aic1_fipi_info :: aic_info where
  "aic1_fipi_info = info_zero\<lparr>version := 1, event_off := AIC_EVENT, target_cpu := AIC_TARGET_CPU,
     fast_ipi := True\<rparr>"
definition aic1_local_fipi_info :: aic_info where
  "aic1_local_fipi_info = info_zero\<lparr>version := 1, event_off := AIC_EVENT,
     target_cpu := AIC_TARGET_CPU, fast_ipi := True, local_fast_ipi := True\<rparr>"
definition aic2_info :: aic_info where
  "aic2_info = info_zero\<lparr>version := 2, irq_cfg := AIC2_IRQ_CFG, fast_ipi := True, local_fast_ipi := True\<rparr>"
definition aic3_info :: aic_info where
  "aic3_info = info_zero\<lparr>version := 3, irq_cfg := AIC3_IRQ_CFG, fast_ipi := True, local_fast_ipi := True\<rparr>"

definition aic_info_match :: "string \<Rightarrow> aic_info option" where
  "aic_info_match compatible =
     (if compatible = ''apple,t8103-aic'' then Some aic1_local_fipi_info
      else if compatible = ''apple,t8015-aic'' then Some aic1_fipi_info
      else if compatible = ''apple,aic'' then Some aic1_info
      else if compatible = ''apple,aic2'' then Some aic2_info
      else if compatible = ''apple,t8122-aic3'' then Some aic3_info
      else None)"

text \<open>The counts are C \<open>int\<close>s that hold register fields of at most 16 bits; they are compared as
  unsigned. \<open>fiq_aff\<close> is the array of allocated CPU masks.\<close>

record aic_irq_chip =
  base :: u64
  event :: u64
  hw_domain :: u64
  fiq_aff :: "nat \<rightharpoonup> nat set"
  nr_irq :: u32
  max_irq :: u32
  nr_die :: u32
  max_die :: u32
  info :: aic_info

definition irqc_zero :: aic_irq_chip where
  "irqc_zero = \<lparr>base = 0, event = 0, hw_domain = 0, fiq_aff = Map.empty, nr_irq = 0, max_irq = 0,
     nr_die = 0, max_die = 0, info = info_zero\<rparr>"

text \<open>The file's globals: the chip and the pointer to it, the static branches, and the per-CPU word
  with the running CPU.\<close>

record aic_state =
  aic_irqc :: aic_irq_chip
  aic_irqc_ptr :: u64
  use_fast_ipi :: bool
  use_local_fast_ipi :: bool
  aic_fiq_unmasked :: "nat \<Rightarrow> u32"
  this_cpu :: nat

datatype sysreg = IPI_RR_LOCAL | IPI_RR_GLOBAL | IPI_SR | VM_TMR_FIQ_ENA | UPMCR0 | UPMSR | PMCR0
  | CNTP_CTL_EL0 | CNTV_CTL_EL0 | CNTP_CTL_EL02 | CNTV_CTL_EL02 | ICH_HCR | ICH_MISR

datatype chip = aic_chip | aic2_chip | fiq_chip
datatype flow = handle_fasteoi_irq | handle_percpu_devid_irq

datatype aic_req =
    ReadlRelaxed u64 | WritelRelaxed u32 u64 | Readl u64
  | ReadSysreg sysreg | WriteSysreg u64 sysreg | SysregClearSet sysreg u64 u64 | Isb
  | GenericHandleDomainIrq u64 u64 | IpiMuxProcess | PrErr
  | CpumaskFirst | CpumaskAnyAnd | UpdateEffectiveAffinity u64 nat
  | SetPercpuDevid u32 | DomainSetInfo u32 u64 chip flow | SetSingleTarget u32
  | SetHandlerNull u32 | ResetIrqData u32
  | CpuLogicalMap nat | ReadCpuidMpidr | SmpProcessorId | Warn
  | IpiMuxCreate nat | SetSmpIpiRange u64 nat
  | ReadFiqIndex nat | CountCpus nat | KzallocAff | ReadCpuPhandle nat nat | FindNodeByPhandle u64
  | CpuNodeToId u64 | OfNodePut u64
  | OfIomap nat | Iounmap u64 | KzallocChip | Kfree u64
  | DomainCreateTree | UpdateBusToken u64 | DomainRemove u64
  | GetAffinitiesNode | SetHandleIrq | SetHandleFiq
  | CpuhpSetupState | CreateFwspecMapping u32 u32 u32 | VgicSetKvmInfo u64

type_synonym aic_env = "(aic_req, int \<times> u64) env"
type_synonym 'a aic = "(aic_req, int \<times> u64, aic_state, 'a) prog"

definition aic_ic_read :: "aic_env \<Rightarrow> aic_irq_chip \<Rightarrow> u32 \<Rightarrow> u32 aic" where
  "aic_ic_read E ic reg = do { r \<leftarrow> call E (ReadlRelaxed (base ic + ucast reg)); return (ucast (snd r)) }"

definition aic_ic_write :: "aic_env \<Rightarrow> aic_irq_chip \<Rightarrow> u32 \<Rightarrow> u32 \<Rightarrow> unit aic" where
  "aic_ic_write E ic reg val = exec E (WritelRelaxed val (base ic + ucast reg))"

definition read_sysreg :: "aic_env \<Rightarrow> sysreg \<Rightarrow> u64 aic" where
  "read_sysreg E reg = do { r \<leftarrow> call E (ReadSysreg reg); return (snd r) }"

record irq_data =
  hwirq :: u64
  irqd_irq_masked :: bool

section \<open>The IRQ chip\<close>

definition aic_irq_mask :: "aic_env \<Rightarrow> irq_data \<Rightarrow> unit aic" where
  "aic_irq_mask E d = do {
     s \<leftarrow> getd;
     let ic = aic_irqc s;
     let off = (ucast (AIC_HWIRQ_DIE (hwirq d) * ucast (die_stride (info ic))) :: u32);
     let irq = (ucast (AIC_HWIRQ_IRQ (hwirq d)) :: u32);
     aic_ic_write E ic (mask_set (info ic) + off + MASK_REG irq) (MASK_BIT irq)
   }"

definition aic_irq_unmask :: "aic_env \<Rightarrow> irq_data \<Rightarrow> unit aic" where
  "aic_irq_unmask E d = do {
     s \<leftarrow> getd;
     let ic = aic_irqc s;
     let off = (ucast (AIC_HWIRQ_DIE (hwirq d) * ucast (die_stride (info ic))) :: u32);
     let irq = (ucast (AIC_HWIRQ_IRQ (hwirq d)) :: u32);
     aic_ic_write E ic (mask_clr (info ic) + off + MASK_REG irq) (MASK_BIT irq)
   }"

definition aic_irq_eoi :: "aic_env \<Rightarrow> irq_data \<Rightarrow> unit aic" where
  "aic_irq_eoi E d = whenM (\<not> irqd_irq_masked d) (aic_irq_unmask E d)"

definition aic_handle_ipi :: "aic_env \<Rightarrow> unit aic" where
  "aic_handle_ipi E = do {
     s \<leftarrow> getd;
     (if use_fast_ipi s then do {
        exec E (WriteSysreg IPI_SR_PENDING IPI_SR);
        exec E Isb
      } else aic_ic_write E (aic_irqc s) AIC_IPI_ACK AIC_IPI_OTHER);
     exec E IpiMuxProcess;
     s \<leftarrow> getd;
     whenM (\<not> use_fast_ipi s) (aic_ic_write E (aic_irqc s) AIC_IPI_MASK_CLR AIC_IPI_OTHER)
   }"

text \<open>The body and the loop of the IRQ handler. The loop reads events until one is 0; \<open>None\<close> is a
  loop still running when the fuel is spent.\<close>

definition aic_handle_event :: "aic_env \<Rightarrow> u32 \<Rightarrow> unit aic" where
  "aic_handle_event E ev = do {
     s \<leftarrow> getd;
     let type = FIELD_GET AIC_EVENT_TYPE ev;
     let irq = FIELD_GET AIC_EVENT_NUM ev;
     if type = AIC_EVENT_TYPE_IRQ then exec E (GenericHandleDomainIrq (hw_domain (aic_irqc s)) (ucast ev))
     else if type = AIC_EVENT_TYPE_IPI \<and> irq = 1 then aic_handle_ipi E
     else whenM (ev \<noteq> 0) (exec E PrErr)
   }"

fun aic_handle_irq_loop :: "aic_env \<Rightarrow> nat \<Rightarrow> unit option aic" where
  "aic_handle_irq_loop E 0 = return None"
| "aic_handle_irq_loop E (Suc fuel) = do {
     s \<leftarrow> getd;
     r \<leftarrow> call E (Readl (event (aic_irqc s) + ucast (event_off (info (aic_irqc s)))));
     let ev = (ucast (snd r) :: u32);
     aic_handle_event E ev;
     if ev = 0 then return (Some ()) else aic_handle_irq_loop E fuel
   }"

definition aic_handle_vgic :: "aic_hdr \<Rightarrow> aic_env \<Rightarrow> unit aic" where
  "aic_handle_vgic K E =
     whenM (is_kernel_in_hyp_mode K) (do {
       hcr \<leftarrow> read_sysreg E ICH_HCR;
       whenM (hcr AND ICH_HCR_EL2_En K \<noteq> 0) (do {
         misr \<leftarrow> read_sysreg E ICH_MISR;
         whenM (misr \<noteq> 0) (do {
           s \<leftarrow> getd;
           exec E (GenericHandleDomainIrq (hw_domain (aic_irqc s)) (AIC_FIQ_HWIRQ (AIC_VGIC_MI K)));
           hcr \<leftarrow> read_sysreg E ICH_HCR;
           whenM (hcr AND ICH_HCR_EL2_En K \<noteq> 0) (do {
             misr \<leftarrow> read_sysreg E ICH_MISR;
             whenM (misr \<noteq> 0) (do {
               exec E PrErr;
               exec E (SysregClearSet ICH_HCR (ICH_HCR_EL2_En K) 0)
             })
           })
         })
       })
     })"

definition aic_handle_irq :: "aic_hdr \<Rightarrow> aic_env \<Rightarrow> nat \<Rightarrow> unit option aic" where
  "aic_handle_irq K E fuel = do {
     r \<leftarrow> aic_handle_irq_loop E fuel;
     case r of None \<Rightarrow> return None
     | Some _ \<Rightarrow> do { aic_handle_vgic K E; return (Some ()) }
   }"

text \<open>\<open>None\<close> is the \<open>BUG_ON\<close>.\<close>

definition aic_irq_set_affinity :: "aic_env \<Rightarrow> irq_data \<Rightarrow> bool \<Rightarrow> int option aic" where
  "aic_irq_set_affinity E d force = do {
     s \<leftarrow> getd;
     let ic = aic_irqc s;
     if target_cpu (info ic) = 0 then return None
     else do {
       r \<leftarrow> call E (if force then CpumaskFirst else CpumaskAnyAnd);
       let cpu = unat (snd r);
       aic_ic_write E ic (target_cpu (info ic) + ucast (AIC_HWIRQ_IRQ (hwirq d) * 4)) (ucast (BIT cpu :: u64));
       exec E (UpdateEffectiveAffinity (hwirq d) cpu);
       return (Some 0)
     }
   }"

definition aic_irq_set_type :: "aic_hdr \<Rightarrow> u32 \<Rightarrow> int" where
  "aic_irq_set_type K type =
     (if type = IRQ_TYPE_LEVEL_HIGH K \<or> type = IRQ_TYPE_EDGE_RISING K then 0 else - EINVAL)"

section \<open>The FIQ chip\<close>

definition aic_fiq_get_idx :: "irq_data \<Rightarrow> u64" where
  "aic_fiq_get_idx d = AIC_HWIRQ_IRQ (hwirq d)"

definition aic_fiq_set_mask :: "aic_env \<Rightarrow> irq_data \<Rightarrow> unit aic" where
  "aic_fiq_set_mask E d =
     (if aic_fiq_get_idx d = ucast AIC_TMR_EL02_PHYS then do {
        exec E (SysregClearSet VM_TMR_FIQ_ENA VM_TMR_FIQ_ENABLE_P 0);
        exec E Isb
      } else if aic_fiq_get_idx d = ucast AIC_TMR_EL02_VIRT then do {
        exec E (SysregClearSet VM_TMR_FIQ_ENA VM_TMR_FIQ_ENABLE_V 0);
        exec E Isb
      } else return ())"

definition aic_fiq_clear_mask :: "aic_env \<Rightarrow> irq_data \<Rightarrow> unit aic" where
  "aic_fiq_clear_mask E d =
     (if aic_fiq_get_idx d = ucast AIC_TMR_EL02_PHYS then do {
        exec E (SysregClearSet VM_TMR_FIQ_ENA 0 VM_TMR_FIQ_ENABLE_P);
        exec E Isb
      } else if aic_fiq_get_idx d = ucast AIC_TMR_EL02_VIRT then do {
        exec E (SysregClearSet VM_TMR_FIQ_ENA 0 VM_TMR_FIQ_ENABLE_V);
        exec E Isb
      } else return ())"

text \<open>\<open>BIT\<close> is an \<open>unsigned long\<close>; the per-CPU word keeps its low 32 bits.\<close>

definition aic_fiq_mask :: "aic_env \<Rightarrow> irq_data \<Rightarrow> unit aic" where
  "aic_fiq_mask E d = do {
     aic_fiq_set_mask E d;
     modd (\<lambda>s. s\<lparr>aic_fiq_unmasked := (aic_fiq_unmasked s)(this_cpu s :=
       aic_fiq_unmasked s (this_cpu s) AND ucast (NOT (BIT (unat (aic_fiq_get_idx d)) :: u64)))\<rparr>)
   }"

definition aic_fiq_unmask :: "aic_env \<Rightarrow> irq_data \<Rightarrow> unit aic" where
  "aic_fiq_unmask E d = do {
     aic_fiq_clear_mask E d;
     modd (\<lambda>s. s\<lparr>aic_fiq_unmasked := (aic_fiq_unmasked s)(this_cpu s :=
       aic_fiq_unmasked s (this_cpu s) OR ucast (BIT (unat (aic_fiq_get_idx d)) :: u64))\<rparr>)
   }"

definition aic_fiq_eoi :: "aic_env \<Rightarrow> irq_data \<Rightarrow> unit aic" where
  "aic_fiq_eoi E d = do {
     s \<leftarrow> getd;
     whenM (ucast (aic_fiq_unmasked s (this_cpu s)) AND (BIT (unat (aic_fiq_get_idx d)) :: u64) \<noteq> 0)
       (aic_fiq_clear_mask E d)
   }"

definition TIMER_FIRING :: "aic_hdr \<Rightarrow> u64 \<Rightarrow> bool" where
  "TIMER_FIRING K x \<longleftrightarrow>
     x AND (ARCH_TIMER_CTRL_ENABLE K OR ARCH_TIMER_CTRL_IT_MASK K OR ARCH_TIMER_CTRL_IT_STAT K)
     = (ARCH_TIMER_CTRL_ENABLE K OR ARCH_TIMER_CTRL_IT_STAT K)"

definition handle_fiq_domain :: "aic_env \<Rightarrow> u32 \<Rightarrow> unit aic" where
  "handle_fiq_domain E x = do {
     s \<leftarrow> getd;
     exec E (GenericHandleDomainIrq (hw_domain (aic_irqc s)) (AIC_FIQ_HWIRQ x))
   }"

definition aic_handle_fiq :: "aic_hdr \<Rightarrow> aic_env \<Rightarrow> unit aic" where
  "aic_handle_fiq K E = do {
     s \<leftarrow> getd;
     whenM (use_fast_ipi s) (do {
       sr \<leftarrow> read_sysreg E IPI_SR;
       whenM (sr AND IPI_SR_PENDING \<noteq> 0) (aic_handle_ipi E)
     });
     ctl \<leftarrow> read_sysreg E CNTP_CTL_EL0;
     whenM (TIMER_FIRING K ctl) (handle_fiq_domain E AIC_TMR_EL0_PHYS);
     ctl \<leftarrow> read_sysreg E CNTV_CTL_EL0;
     whenM (TIMER_FIRING K ctl) (handle_fiq_domain E AIC_TMR_EL0_VIRT);
     whenM (is_kernel_in_hyp_mode K) (do {
       enabled \<leftarrow> read_sysreg E VM_TMR_FIQ_ENA;
       whenM (enabled AND VM_TMR_FIQ_ENABLE_P \<noteq> 0) (do {
         ctl \<leftarrow> read_sysreg E CNTP_CTL_EL02;
         whenM (TIMER_FIRING K ctl) (handle_fiq_domain E AIC_TMR_EL02_PHYS)
       });
       whenM (enabled AND VM_TMR_FIQ_ENABLE_V \<noteq> 0) (do {
         ctl \<leftarrow> read_sysreg E CNTV_CTL_EL02;
         whenM (TIMER_FIRING K ctl) (handle_fiq_domain E AIC_TMR_EL02_VIRT)
       })
     });
     pmcr0 \<leftarrow> read_sysreg E PMCR0;
     whenM (pmcr0 AND (GENMASK (PMCR0_IMODE K) OR PMCR0_IACT K)
            = (FIELD_PREP (PMCR0_IMODE K) (PMCR0_IMODE_FIQ K) OR PMCR0_IACT K))
       (handle_fiq_domain E (AIC_CPU_PMU_P K));
     s \<leftarrow> getd;
     whenM (use_fast_ipi s) (do {
       upmcr0 \<leftarrow> read_sysreg E UPMCR0;
       whenM (FIELD_GET UPMCR0_IMODE upmcr0 = UPMCR0_IMODE_FIQ) (do {
         upmsr \<leftarrow> read_sysreg E UPMSR;
         whenM (upmsr AND UPMSR_IACT \<noteq> 0) (do {
           exec E PrErr;
           exec E (SysregClearSet UPMCR0 (GENMASK UPMCR0_IMODE) (FIELD_PREP UPMCR0_IMODE UPMCR0_IMODE_OFF))
         })
       })
     })
   }"

definition aic_fiq_set_type :: "aic_hdr \<Rightarrow> u32 \<Rightarrow> int" where
  "aic_fiq_set_type K type = (if type = IRQ_TYPE_LEVEL_HIGH K then 0 else - EINVAL)"

section \<open>The IRQ domain\<close>

definition aic_irq_domain_map :: "aic_env \<Rightarrow> u32 \<Rightarrow> u64 \<Rightarrow> int aic" where
  "aic_irq_domain_map E irq hw = do {
     s \<leftarrow> getd;
     let type = (ucast (FIELD_GET AIC_EVENT_TYPE hw) :: u32);
     let chip = (if version (info (aic_irqc s)) = 2 \<or> version (info (aic_irqc s)) = 3 then aic2_chip else aic_chip);
     (if type = AIC_EVENT_TYPE_IRQ then do {
        exec E (DomainSetInfo irq hw chip handle_fasteoi_irq);
        exec E (SetSingleTarget irq)
      } else do {
        exec E (SetPercpuDevid irq);
        exec E (DomainSetInfo irq hw fiq_chip handle_percpu_devid_irq)
      });
     return 0
   }"

text \<open>A firmware specifier: whether its node is an OF node, the number of cells and the cells.\<close>

record irq_fwspec =
  is_of_node :: bool
  param_count :: nat
  param :: "nat \<Rightarrow> u32"

text \<open>The affinity of an interrupt: \<open>None\<close> stands for no affinity, \<open>Some None\<close> for the possible CPUs.
  An index beyond the array of masks is the outer \<open>None\<close>.\<close>

definition aic_irq_get_fwspec_info :: "aic_hdr \<Rightarrow> aic_irq_chip \<Rightarrow> irq_fwspec \<Rightarrow> nat set option option option" where
  "aic_irq_get_fwspec_info K ic fwspec =
     (if param fwspec 0 \<noteq> AIC_FIQ then Some None
      else
        let intid = (if param_count fwspec = 3 then param fwspec 1 else param fwspec 2)
        in if AIC_NR_FIQ K \<le> intid then None
           else Some (Some (fiq_aff ic (unat intid))))"

definition translate_fiq :: "aic_hdr \<Rightarrow> u32 \<Rightarrow> int + u64" where
  "translate_fiq K nr =
     (if is_kernel_in_hyp_mode K then Inr (AIC_FIQ_HWIRQ nr)
      else if nr = AIC_TMR_EL02_PHYS then Inr (AIC_FIQ_HWIRQ AIC_TMR_EL0_PHYS)
      else if nr = AIC_TMR_EL02_VIRT then Inr (AIC_FIQ_HWIRQ AIC_TMR_EL0_VIRT)
      else if nr = AIC_TMR_EL0_PHYS \<or> nr = AIC_TMR_EL0_VIRT then Inl (- ENOENT)
      else Inr (AIC_FIQ_HWIRQ nr))"

definition aic_irq_domain_translate :: "aic_hdr \<Rightarrow> aic_irq_chip \<Rightarrow> irq_fwspec \<Rightarrow> int + u64 \<times> u32" where
  "aic_irq_domain_translate K ic fwspec =
     (if param_count fwspec < 3 \<or> 4 < param_count fwspec \<or> \<not> is_of_node fwspec then Inl (- EINVAL)
      else
        let (die, args) = (if param_count fwspec = 4 then (param fwspec 1, \<lambda>i. param fwspec (2 + i))
                           else (0, \<lambda>i. param fwspec (1 + i)));
            type = args 1 AND IRQ_TYPE_SENSE_MASK K
        in if param fwspec 0 = AIC_IRQ then
             if nr_die ic \<le> die then Inl (- EINVAL)
             else if nr_irq ic \<le> args 0 then Inl (- EINVAL)
             else Inr (AIC_IRQ_HWIRQ die (args 0), type)
           else if param fwspec 0 = AIC_FIQ then
             if die \<noteq> 0 then Inl (- EINVAL)
             else if AIC_NR_FIQ K \<le> args 0 then Inl (- EINVAL)
             else case translate_fiq K (args 0) of
                 Inl err \<Rightarrow> Inl err
               | Inr hw \<Rightarrow>
                   Inr (if hw = ucast (AIC_CPU_PMU_E K) then ucast (AIC_CPU_PMU_P K) else hw, type)
           else Inl (- EINVAL))"

fun domain_map_from :: "aic_env \<Rightarrow> nat list \<Rightarrow> u32 \<Rightarrow> u64 \<Rightarrow> int aic" where
  "domain_map_from E [] virq hw = return 0"
| "domain_map_from E (i # is) virq hw = do {
     ret \<leftarrow> aic_irq_domain_map E (virq + of_nat i) (hw + of_nat i);
     if ret \<noteq> 0 then return ret else domain_map_from E is virq hw
   }"

definition aic_irq_domain_alloc :: "aic_hdr \<Rightarrow> aic_env \<Rightarrow> u32 \<Rightarrow> nat \<Rightarrow> irq_fwspec \<Rightarrow> int aic" where
  "aic_irq_domain_alloc K E virq nr_irqs fwspec = do {
     s \<leftarrow> getd;
     case aic_irq_domain_translate K (aic_irqc s) fwspec of
       Inl ret \<Rightarrow> return ret
     | Inr (hw, type) \<Rightarrow> domain_map_from E [0..<nr_irqs] virq hw
   }"

definition aic_irq_domain_free :: "aic_env \<Rightarrow> u32 \<Rightarrow> nat \<Rightarrow> unit aic" where
  "aic_irq_domain_free E virq nr_irqs = for_each [0..<nr_irqs] (\<lambda>i. do {
     exec E (SetHandlerNull (virq + of_nat i));
     exec E (ResetIrqData (virq + of_nat i))
   })"

section \<open>IPIs and CPU start\<close>

definition aic_ipi_send_fast :: "aic_hdr \<Rightarrow> aic_env \<Rightarrow> nat \<Rightarrow> unit aic" where
  "aic_ipi_send_fast K E cpu = do {
     r \<leftarrow> call E (CpuLogicalMap cpu);
     let mpidr = snd r;
     r \<leftarrow> call E ReadCpuidMpidr;
     let my_mpidr = snd r;
     let cluster = MPIDR_AFFINITY_LEVEL K mpidr 1;
     let idx = MPIDR_AFFINITY_LEVEL K mpidr 0;
     s \<leftarrow> getd;
     (if use_local_fast_ipi s \<and> MPIDR_AFFINITY_LEVEL K my_mpidr 1 = cluster
      then exec E (WriteSysreg (FIELD_PREP IPI_RR_CPU idx) IPI_RR_LOCAL)
      else exec E (WriteSysreg (FIELD_PREP IPI_RR_CPU idx OR FIELD_PREP IPI_RR_CLUSTER cluster) IPI_RR_GLOBAL));
     exec E Isb
   }"

definition aic_ipi_send_single :: "aic_hdr \<Rightarrow> aic_env \<Rightarrow> nat \<Rightarrow> unit aic" where
  "aic_ipi_send_single K E cpu = do {
     s \<leftarrow> getd;
     if use_fast_ipi s then aic_ipi_send_fast K E cpu
     else aic_ic_write E (aic_irqc s) AIC_IPI_SEND (ucast (BIT cpu :: u64))
   }"

definition aic_init_smp :: "aic_env \<Rightarrow> int aic" where
  "aic_init_smp E = do {
     r \<leftarrow> call E (IpiMuxCreate AIC_NR_SWIPI);
     if fst r \<le> 0 then do { exec E Warn; return (- ENODEV) }
     else do {
       exec E (SetSmpIpiRange (of_int (fst r)) AIC_NR_SWIPI);
       return 0
     }
   }"

definition aic_init_cpu :: "aic_hdr \<Rightarrow> aic_env \<Rightarrow> int aic" where
  "aic_init_cpu K E = do {
     s \<leftarrow> getd;
     whenM (use_fast_ipi s) (exec E (WriteSysreg IPI_SR_PENDING IPI_SR));
     exec E (SysregClearSet CNTP_CTL_EL0 0 (ARCH_TIMER_CTRL_IT_MASK K));
     exec E (SysregClearSet CNTV_CTL_EL0 0 (ARCH_TIMER_CTRL_IT_MASK K));
     exec E (SysregClearSet PMCR0 (GENMASK (PMCR0_IMODE K) OR PMCR0_IACT K)
       (FIELD_PREP (PMCR0_IMODE K) (PMCR0_IMODE_OFF K)));
     whenM (use_fast_ipi s)
       (exec E (SysregClearSet UPMCR0 (GENMASK UPMCR0_IMODE) (FIELD_PREP UPMCR0_IMODE UPMCR0_IMODE_OFF)));
     exec E Isb;
     whenM (version (info (aic_irqc s)) = 1) (do {
       who \<leftarrow> aic_ic_read E (aic_irqc s) AIC_WHOAMI;
       r \<leftarrow> call E SmpProcessorId;
       whenM (who \<noteq> ucast (snd r)) (exec E Warn);
       aic_ic_write E (aic_irqc s) AIC_IPI_ACK (AIC_IPI_SELF OR AIC_IPI_OTHER);
       (if use_fast_ipi s then aic_ic_write E (aic_irqc s) AIC_IPI_MASK_SET (AIC_IPI_SELF OR AIC_IPI_OTHER)
        else do {
          aic_ic_write E (aic_irqc s) AIC_IPI_MASK_SET AIC_IPI_SELF;
          aic_ic_write E (aic_irqc s) AIC_IPI_MASK_CLR AIC_IPI_OTHER
        })
     });
     modd (\<lambda>s. s\<lparr>aic_fiq_unmasked := (aic_fiq_unmasked s)(this_cpu s := 0)\<rparr>);
     return 0
   }"

section \<open>Initialisation\<close>

definition set_irqc :: "(aic_irq_chip \<Rightarrow> aic_irq_chip) \<Rightarrow> unit aic" where
  "set_irqc f = modd (\<lambda>s. s\<lparr>aic_irqc := f (aic_irqc s)\<rparr>)"

definition affinity_cpu :: "aic_env \<Rightarrow> nat \<Rightarrow> nat \<Rightarrow> nat \<Rightarrow> unit aic" where
  "affinity_cpu E aff fiq i = do {
     ph \<leftarrow> call E (ReadCpuPhandle aff i);
     if fst ph \<noteq> 0 then return ()
     else do {
       node \<leftarrow> call E (FindNodeByPhandle (snd ph));
       if snd node = 0 then exec E Warn
       else do {
         cpu \<leftarrow> call E (CpuNodeToId (snd node));
         exec E (OfNodePut (snd node));
         if fst cpu < 0 then exec E Warn
         else set_irqc (\<lambda>ic. ic\<lparr>fiq_aff := (fiq_aff ic)(fiq :=
           map_option (insert (nat (fst cpu))) (fiq_aff ic fiq))\<rparr>)
       }
     }
   }"

definition build_fiq_affinity :: "aic_hdr \<Rightarrow> aic_env \<Rightarrow> nat \<Rightarrow> unit aic" where
  "build_fiq_affinity K E aff = do {
     idx \<leftarrow> call E (ReadFiqIndex aff);
     if fst idx \<noteq> 0 then return ()
     else do {
       let fiq = (ucast (snd idx) :: u32);
       if AIC_NR_FIQ K \<le> fiq then exec E Warn
       else do {
         s \<leftarrow> getd;
         if fiq_aff (aic_irqc s) (unat fiq) \<noteq> None then return ()
         else do {
           n \<leftarrow> call E (CountCpus aff);
           if fst n < 0 then exec E Warn
           else do {
             p \<leftarrow> call E KzallocAff;
             if snd p = 0 then return ()
             else do {
               set_irqc (\<lambda>ic. ic\<lparr>fiq_aff := (fiq_aff ic)(unat fiq \<mapsto> {})\<rparr>);
               for_each [0..<nat (fst n)] (affinity_cpu E aff (unat fiq))
             }
           }
         }
       }
     }
   }"

text \<open>The error exit, from the label \<open>err_unmap\<close>.\<close>

definition aic_err_unmap :: "aic_env \<Rightarrow> int aic" where
  "aic_err_unmap E = do {
     s \<leftarrow> getd;
     whenM (event (aic_irqc s) \<noteq> 0 \<and> event (aic_irqc s) \<noteq> base (aic_irqc s))
       (exec E (Iounmap (event (aic_irqc s))));
     exec E (Iounmap (base (aic_irqc s)));
     exec E (Kfree (aic_irqc_ptr s));
     return (- ENODEV)
   }"

text \<open>The counts and the offset at which the software registers start, by version: \<open>None\<close> when the
  event registers cannot be mapped.\<close>

definition aic_read_info :: "aic_env \<Rightarrow> (u32 \<times> u32) option aic" where
  "aic_read_info E = do {
     s \<leftarrow> getd;
     let ic = aic_irqc s;
     if version (info ic) = 1 then do {
       nfo \<leftarrow> aic_ic_read E ic AIC_INFO;
       set_irqc (\<lambda>ic. ic\<lparr>nr_irq := FIELD_GET AIC_INFO_NR_IRQ nfo, max_irq := AIC_MAX_IRQ,
         nr_die := 1, max_die := 1, event := base ic\<rparr>);
       return (Some (target_cpu (info ic), target_cpu (info ic) + 4 * AIC_MAX_IRQ))
     } else do {
       info1 \<leftarrow> aic_ic_read E ic AIC2_INFO1;
       info3 \<leftarrow> aic_ic_read E ic AIC2_INFO3;
       let mx = FIELD_GET AIC2_INFO3_MAX_IRQ info3;
       set_irqc (\<lambda>ic. ic\<lparr>nr_irq := FIELD_GET AIC2_INFO1_NR_IRQ info1, max_irq := mx,
         nr_die := FIELD_GET AIC2_INFO1_LAST_DIE info1 + 1, max_die := FIELD_GET AIC2_INFO3_MAX_DIE info3\<rparr>);
       ev \<leftarrow> call E (OfIomap 1);
       set_irqc (\<lambda>ic. ic\<lparr>event := snd ev\<rparr>);
       if snd ev = 0 then do { exec E Warn; return None }
       else return (Some (irq_cfg (info ic), irq_cfg (info ic) + 4 * mx))
     }
   }"

definition aic_layout :: "u32 \<Rightarrow> u32 \<Rightarrow> u32 \<Rightarrow> aic_info \<Rightarrow> aic_info" where
  "aic_layout start_off off mx nfo =
     (let bank = 4 * drop_bit 5 mx;
          nfo = nfo\<lparr>sw_set := off\<rparr>; off = off + bank;
          nfo = nfo\<lparr>sw_clr := off\<rparr>; off = off + bank;
          nfo = nfo\<lparr>mask_set := off\<rparr>; off = off + bank;
          nfo = nfo\<lparr>mask_clr := off\<rparr>; off = off + bank;
          off = off + bank
      in nfo\<lparr>die_stride := off - start_off\<rparr>)"

definition BITS_TO_U32 :: "u32 \<Rightarrow> nat" where "BITS_TO_U32 n = (unat n + 31) div 32"

fun aic_init_dies :: "aic_env \<Rightarrow> aic_irq_chip \<Rightarrow> nat \<Rightarrow> u32 \<Rightarrow> unit aic" where
  "aic_init_dies E ic 0 off = return ()"
| "aic_init_dies E ic (Suc n) off = do {
     for_each [0..<BITS_TO_U32 (nr_irq ic)] (\<lambda>i. aic_ic_write E ic (mask_set (info ic) + off + of_nat i * 4) (- 1));
     for_each [0..<BITS_TO_U32 (nr_irq ic)] (\<lambda>i. aic_ic_write E ic (sw_clr (info ic) + off + of_nat i * 4) (- 1));
     whenM (target_cpu (info ic) \<noteq> 0)
       (for_each [0..<unat (nr_irq ic)] (\<lambda>i. aic_ic_write E ic (target_cpu (info ic) + off + of_nat i * 4) 1));
     aic_init_dies E ic n (off + die_stride (info ic))
   }"

fun build_affinities :: "aic_hdr \<Rightarrow> aic_env \<Rightarrow> nat list \<Rightarrow> unit aic" where
  "build_affinities K E [] = return ()"
| "build_affinities K E (c # cs) = do { build_fiq_affinity K E c; build_affinities K E cs }"

definition aic_init_enable :: "aic_hdr \<Rightarrow> aic_env \<Rightarrow> aic_irq_chip \<Rightarrow> int aic" where
  "aic_init_enable K E ic = do {
     whenM (version (info ic) = 2 \<or> version (info ic) = 3) (do {
       config \<leftarrow> aic_ic_read E ic AIC2_CONFIG;
       aic_ic_write E ic AIC2_CONFIG (config OR AIC2_CONFIG_ENABLE)
     });
     exec E CpuhpSetupState;
     mi \<leftarrow> (if is_kernel_in_hyp_mode K then do {
         r \<leftarrow> call E (CreateFwspecMapping AIC_FIQ (AIC_VGIC_MI K) (IRQ_TYPE_LEVEL_HIGH K));
         whenM (snd r = 0) (exec E Warn);
         return (snd r)
       } else return 0);
     exec E (VgicSetKvmInfo mi);
     return 0
   }"

text \<open>From the affinities to the end. \<open>children\<close> are the child nodes of the node of
  affinities.\<close>

definition aic_init_finish :: "aic_hdr \<Rightarrow> aic_env \<Rightarrow> nat list \<Rightarrow> int aic" where
  "aic_init_finish K E children = do {
     affs \<leftarrow> call E GetAffinitiesNode;
     whenM (snd affs \<noteq> 0) (build_affinities K E children);
     exec E (OfNodePut (snd affs));
     exec E SetHandleIrq;
     exec E SetHandleFiq;
     s \<leftarrow> getd;
     let ic = aic_irqc s;
     aic_init_dies E ic (unat (nr_die ic)) 0;
     aic_init_enable K E ic
   }"

text \<open>From the register layout to the end.\<close>

definition aic_init_domain :: "aic_hdr \<Rightarrow> aic_env \<Rightarrow> nat list \<Rightarrow> u32 \<Rightarrow> u32 \<Rightarrow> int aic" where
  "aic_init_domain K E children start_off off = do {
     set_irqc (\<lambda>ic. ic\<lparr>info := aic_layout start_off off (max_irq ic) (info ic)\<rparr>);
     modd (\<lambda>s. s\<lparr>use_fast_ipi := use_fast_ipi s \<and> fast_ipi (info (aic_irqc s)),
                 use_local_fast_ipi := use_local_fast_ipi s \<and> local_fast_ipi (info (aic_irqc s))\<rparr>);
     d \<leftarrow> call E DomainCreateTree;
     set_irqc (\<lambda>ic. ic\<lparr>hw_domain := snd d\<rparr>);
     if snd d = 0 then do { exec E Warn; aic_err_unmap E }
     else do {
       exec E (UpdateBusToken (snd d));
       ret \<leftarrow> aic_init_smp E;
       if ret \<noteq> 0 then do {
         exec E (DomainRemove (snd d));
         aic_err_unmap E
       } else aic_init_finish K E children
     }
   }"

definition aic_of_ic_init :: "aic_hdr \<Rightarrow> aic_env \<Rightarrow> string \<Rightarrow> nat list \<Rightarrow> int aic" where
  "aic_of_ic_init K E compatible children = do {
     regs \<leftarrow> call E (OfIomap 0);
     if snd regs = 0 then do { exec E Warn; return (- EIO) }
     else do {
       p \<leftarrow> call E KzallocChip;
       if snd p = 0 then do {
         exec E (Iounmap (snd regs));
         return (- ENOMEM)
       } else case aic_info_match compatible of
         None \<Rightarrow> do {
           exec E (Iounmap (snd regs));
           exec E (Kfree (snd p));
           return (- ENODEV)
         }
       | Some nfo \<Rightarrow> do {
           modd (\<lambda>s. s\<lparr>aic_irqc := irqc_zero\<lparr>base := snd regs, info := nfo\<rparr>, aic_irqc_ptr := snd p\<rparr>);
           offs \<leftarrow> aic_read_info E;
           case offs of
             None \<Rightarrow> aic_err_unmap E
           | Some (start_off, off) \<Rightarrow> aic_init_domain K E children start_off off
         }
     }
   }"

section \<open>Interrupt numbers\<close>

lemma unat_FIELD16: "unat (v :: u32) < 2 ^ n \<Longrightarrow> take_bit n (ucast v :: u64) = ucast v"
  by (rule unat_take_bit_id) (simp add: unat_ucast_u64)

lemma hwirq_fields:
  assumes "unat die < 2 ^ 8" "unat irq < 2 ^ 16"
  shows "AIC_HWIRQ_DIE (AIC_IRQ_HWIRQ die irq) = ucast die"
    and "AIC_HWIRQ_IRQ (AIC_IRQ_HWIRQ die irq) = ucast irq"
    and "FIELD_GET AIC_EVENT_TYPE (AIC_IRQ_HWIRQ die irq) = AIC_EVENT_TYPE_IRQ"
  using unat_FIELD16 [OF assms(1)] unat_FIELD16 [OF assms(2)]
  by (simp_all add: AIC_HWIRQ_DIE_def AIC_HWIRQ_IRQ_def AIC_IRQ_HWIRQ_def FIELD_GET_or AIC_EVENT_DIE_def
      AIC_EVENT_TYPE_def AIC_EVENT_NUM_def FIELD_GET_PREP FIELD_GET_PREP_disjoint)

lemma fiq_fields:
  assumes "unat x < 2 ^ 16"
  shows "AIC_FIQ_HWIRQ x = ucast x" and "AIC_HWIRQ_IRQ (AIC_FIQ_HWIRQ x) = ucast x"
    and "AIC_HWIRQ_DIE (AIC_FIQ_HWIRQ x) = 0" and "FIELD_GET AIC_EVENT_TYPE (AIC_FIQ_HWIRQ x) = AIC_EVENT_TYPE_FIQ"
proof -
  have "FIELD_PREP (15, 0) (ucast x :: u64) = take_bit 16 (ucast x)"
    by (rule bit_word_eqI) (auto simp: field_simps_bits bit_simps)
  then show "AIC_FIQ_HWIRQ x = ucast x"
    using unat_FIELD16 [OF assms] by (simp add: AIC_FIQ_HWIRQ_def AIC_EVENT_NUM_def FIELD_PREP_def [of AIC_EVENT_TYPE])
qed (use unat_FIELD16 [OF assms] in \<open>simp_all add: AIC_HWIRQ_DIE_def AIC_HWIRQ_IRQ_def AIC_FIQ_HWIRQ_def FIELD_GET_or
    AIC_EVENT_DIE_def AIC_EVENT_TYPE_def AIC_EVENT_NUM_def FIELD_GET_PREP FIELD_GET_PREP_disjoint\<close>)

section \<open>Masking lines\<close>

text \<open>What a chip promises of its mask and unmask operations: each decides its own line and no other.\<close>

locale irq_lines =
  fixes valid :: "'s \<Rightarrow> 'l \<Rightarrow> bool"
    and mask_op :: "'l \<Rightarrow> 's \<Rightarrow> 's"
    and unmask_op :: "'l \<Rightarrow> 's \<Rightarrow> 's"
    and masked :: "'s \<Rightarrow> 'l \<Rightarrow> bool"
  assumes valid_mask: "valid (mask_op l s) k = valid s k"
    and valid_unmask: "valid (unmask_op l s) k = valid s k"
    and masked_mask: "valid s l \<Longrightarrow> valid s k \<Longrightarrow> masked (mask_op l s) k \<longleftrightarrow> k = l \<or> masked s k"
    and masked_unmask: "valid s l \<Longrightarrow> valid s k \<Longrightarrow> masked (unmask_op l s) k \<longleftrightarrow> k \<noteq> l \<and> masked s k"
begin

definition act :: "'l \<times> bool \<Rightarrow> 's \<Rightarrow> 's" where
  "act a s = (if snd a then mask_op (fst a) s else unmask_op (fst a) s)"

lemma act_simps [simp]: "act (l, True) s = mask_op l s" "act (l, False) s = unmask_op l s"
  by (simp_all add: act_def)

lemma valid_acts: "valid (fold act as s) k = valid s k"
  by (induction as arbitrary: s) (simp_all add: act_def valid_mask valid_unmask)

lemma last_wins:
  assumes "\<forall>a \<in> set as. valid s (fst a)" "valid s k"
  shows "masked (fold act as s) k = (case map_of (rev as) k of None \<Rightarrow> masked s k | Some b \<Rightarrow> b)"
  using assms
proof (induction as rule: rev_induct)
  case Nil
  then show ?case by simp
next
  case (snoc a as)
  then have "valid (fold act as s) (fst a)" "valid (fold act as s) k"
    by (simp_all add: valid_acts)
  with snoc show ?case
    by (cases a; cases "snd a") (auto simp: masked_mask masked_unmask split: option.splits)
qed

end

text \<open>A line is a die and a number on it; its mask is what the writes to the mask registers so far
  have left there. \<open>m0\<close> is the state of the hardware before.\<close>

type_synonym line = "nat \<times> nat"

definition line_hwirq :: "line \<Rightarrow> u64" where
  "line_hwirq l = AIC_IRQ_HWIRQ (of_nat (fst l)) (of_nat (snd l))"

definition line_off :: "u32 \<Rightarrow> aic_irq_chip \<Rightarrow> line \<Rightarrow> nat" where
  "line_off reg ic l = unat reg + fst l * unat (die_stride (info ic)) + 4 * (snd l div 32)"

definition line_write :: "aic_irq_chip \<Rightarrow> line \<Rightarrow> aic_req \<Rightarrow> bool \<Rightarrow> bool" where
  "line_write ic l q old =
     (case q of WritelRelaxed v a \<Rightarrow>
        if \<not> bit v (snd l mod 32) then old
        else if a = base ic + of_nat (line_off (mask_set (info ic)) ic l) then True
        else if a = base ic + of_nat (line_off (mask_clr (info ic)) ic l) then False
        else old
      | _ \<Rightarrow> old)"

definition line_masked :: "aic_irq_chip \<Rightarrow> (line \<Rightarrow> bool) \<Rightarrow> (aic_req \<times> 'r) list \<Rightarrow> line \<Rightarrow> bool" where
  "line_masked ic m0 h l = fold (line_write ic l) (reqs h) (m0 l)"

text \<open>The layout: banks of one bit per line, repeated for each die, within 32-bit offsets.\<close>

definition layout_ok :: "aic_irq_chip \<Rightarrow> bool" where
  "layout_ok ic \<longleftrightarrow> 32 dvd unat (max_irq ic) \<and> nr_irq ic \<le> max_irq ic \<and> unat (max_irq ic) < 2 ^ 16
     \<and> unat (nr_die ic) \<le> 16
     \<and> unat (mask_clr (info ic)) = unat (mask_set (info ic)) + 4 * (unat (max_irq ic) div 32)
     \<and> unat (die_stride (info ic)) = 4 * unat (max_irq ic) + 20 * (unat (max_irq ic) div 32)
     \<and> unat (mask_set (info ic)) \<le> 2 ^ 20"

definition valid_line :: "aic_irq_chip \<Rightarrow> line \<Rightarrow> bool" where
  "valid_line ic l \<longleftrightarrow> layout_ok ic \<and> fst l < unat (nr_die ic) \<and> snd l < unat (nr_irq ic)"

lemma ucast_of_nat_down: "ucast (of_nat n :: u64) = (of_nat n :: u32)"
  by (rule bit_word_eqI) (auto simp: bit_simps)

lemma ucast_of_nat_up: "n < 2 ^ 32 \<Longrightarrow> ucast (of_nat n :: u32) = (of_nat n :: u64)"
  by (simp add: unsigned_of_nat take_bit_nat_eq_self)

lemma of_nat_inj64: "n < 2 ^ 32 \<Longrightarrow> m < 2 ^ 32 \<Longrightarrow> (of_nat n :: u64) = of_nat m \<longleftrightarrow> n = m"
  by (simp add: word_of_nat_eq_iff take_bit_nat_eq_self)

lemma div_mod_unique:
  assumes "d * T + x = d' * T + x'" "x < T" "x' < (T :: nat)"
  shows "d = d' \<and> x = x'"
proof -
  have "(d * T + x) div T = d" "(d' * T + x') div T = d'" using assms(2,3) by simp_all
  then show ?thesis using assms(1) by auto
qed

lemma bank_unique:
  assumes "d * T + 4 * (j * B + k) = d' * T + 4 * (j' * B + k')"
    and "k < B" "k' < B" "j \<le> 1" "j' \<le> 1" "20 * B \<le> (T :: nat)"
  shows "d = d' \<and> j = j' \<and> k = k'"
proof -
  have "j * B + k < 2 * B" "j' * B + k' < 2 * B" using assms(2-5) by (cases j; cases j'; simp)+
  then have small: "4 * (j * B + k) < T" and small': "4 * (j' * B + k') < T"
    using assms(2,3,6) by simp_all
  from div_mod_unique [OF assms(1) small small'] have "d = d'" "j * B + k = j' * B + k'" by simp_all
  with div_mod_unique [of j B k j' k'] assms(2,3) show ?thesis by simp
qed

lemma line_off_unique:
  assumes "valid_line ic l" "valid_line ic l'"
  shows "line_off (mask_set (info ic)) ic l = line_off (mask_set (info ic)) ic l' \<longleftrightarrow>
      fst l = fst l' \<and> snd l div 32 = snd l' div 32"
    and "line_off (mask_clr (info ic)) ic l = line_off (mask_clr (info ic)) ic l' \<longleftrightarrow>
      fst l = fst l' \<and> snd l div 32 = snd l' div 32"
    and "line_off (mask_set (info ic)) ic l \<noteq> line_off (mask_clr (info ic)) ic l'"
proof -
  let ?B = "unat (max_irq ic) div 32" and ?T = "unat (die_stride (info ic))"
  have k: "snd l div 32 < ?B" "snd l' div 32 < ?B"
    using assms by (auto simp: valid_line_def layout_ok_def word_le_nat_alt)
  have T: "20 * ?B \<le> ?T" using assms by (simp add: valid_line_def layout_ok_def)
  note u = bank_unique [of "fst l" ?T _ ?B "snd l div 32" "fst l'" _ "snd l' div 32", OF _ k _ _ T]
  have c: "unat (mask_clr (info ic)) = unat (mask_set (info ic)) + 4 * ?B"
    using assms by (simp add: valid_line_def layout_ok_def)
  show "line_off (mask_set (info ic)) ic l = line_off (mask_set (info ic)) ic l' \<longleftrightarrow>
      fst l = fst l' \<and> snd l div 32 = snd l' div 32"
    using u [of 0 0] by (auto simp: line_off_def)
  show "line_off (mask_clr (info ic)) ic l = line_off (mask_clr (info ic)) ic l' \<longleftrightarrow>
      fst l = fst l' \<and> snd l div 32 = snd l' div 32"
    using u [of 0 0] by (auto simp: line_off_def)
  show "line_off (mask_set (info ic)) ic l \<noteq> line_off (mask_clr (info ic)) ic l'"
    using u [of 0 1] by (auto simp: line_off_def c)
qed

lemma line_off_small:
  assumes "valid_line ic l"
  shows "line_off (mask_set (info ic)) ic l < 2 ^ 32" "line_off (mask_clr (info ic)) ic l < 2 ^ 32"
proof -
  let ?B = "unat (max_irq ic) div 32" and ?T = "unat (die_stride (info ic))"
  have "?B \<le> 2048" "?T \<le> 303104" "unat (mask_set (info ic)) \<le> 1048576" "fst l < 16"
      "unat (mask_clr (info ic)) = unat (mask_set (info ic)) + 4 * ?B" "snd l div 32 \<le> ?B"
    using assms by (auto simp: valid_line_def layout_ok_def word_le_nat_alt)
  moreover from this have "fst l * ?T \<le> 16 * 303104" by (intro mult_le_mono) simp_all
  ultimately show "line_off (mask_set (info ic)) ic l < 2 ^ 32" "line_off (mask_clr (info ic)) ic l < 2 ^ 32"
    by (simp_all add: line_off_def)
qed

lemma unat_mod32: "unat (x AND GENMASK (4, 0)) = unat (x :: u32) mod 32"
proof -
  have "x AND GENMASK (4, 0) = take_bit 5 x" by (simp only: GENMASK_def take_bit_eq_mask) simp
  moreover have "unat (take_bit 5 x) = take_bit 5 (unat x)" by (rule unsigned_take_bit_eq)
  ultimately show ?thesis by (simp add: take_bit_eq_mod)
qed

lemma line_register:
  assumes "valid_line ic l" "reg = mask_set (info ic) \<or> reg = mask_clr (info ic)"
  shows "base ic + ucast (reg + ucast (AIC_HWIRQ_DIE (line_hwirq l) * ucast (die_stride (info ic)))
       + MASK_REG (ucast (AIC_HWIRQ_IRQ (line_hwirq l)))) = base ic + of_nat (line_off reg ic l)"
    and "MASK_BIT (ucast (AIC_HWIRQ_IRQ (line_hwirq l))) = BIT (snd l mod 32)"
proof -
  have d: "fst l < 16" "snd l < 2 ^ 16"
    using assms(1) by (auto simp: valid_line_def layout_ok_def word_le_nat_alt)
  then have "unat (of_nat (fst l) :: u32) = fst l" "unat (of_nat (snd l) :: u32) = snd l"
    by (simp_all add: unsigned_of_nat take_bit_nat_eq_self)
  with d have f: "AIC_HWIRQ_DIE (line_hwirq l) = of_nat (fst l)" "AIC_HWIRQ_IRQ (line_hwirq l) = of_nat (snd l)"
    unfolding line_hwirq_def by (subst hwirq_fields; simp add: ucast_of_nat_up)+
  have "unat (drop_bit 5 (of_nat (snd l) :: u32)) = snd l div 32"
    using d by (subst unat_drop_bit_eq) (simp add: drop_bit_eq_div unsigned_of_nat take_bit_nat_eq_self)
  moreover have "snd l div 32 < 2 ^ 32" using d by simp
  ultimately have "drop_bit 5 (of_nat (snd l) :: u32) = of_nat (snd l div 32)"
    by (simp add: word_unat_eq_iff unsigned_of_nat take_bit_nat_eq_self)
  moreover have "(ucast (of_nat (fst l) * ucast (die_stride (info ic)) :: u64) :: u32) =
      of_nat (fst l * unat (die_stride (info ic)))"
    using ucast_of_nat_down [of "fst l * unat (die_stride (info ic))"] by simp
  moreover have "reg = of_nat (unat reg)" by simp
  ultimately have "reg + ucast (AIC_HWIRQ_DIE (line_hwirq l) * ucast (die_stride (info ic)))
      + MASK_REG (ucast (AIC_HWIRQ_IRQ (line_hwirq l))) = of_nat (line_off reg ic l)"
    by (simp add: f MASK_REG_def ucast_of_nat_down line_off_def)
  then show "base ic + ucast (reg + ucast (AIC_HWIRQ_DIE (line_hwirq l) * ucast (die_stride (info ic)))
       + MASK_REG (ucast (AIC_HWIRQ_IRQ (line_hwirq l)))) = base ic + of_nat (line_off reg ic l)"
    using line_off_small [OF assms(1)] assms(2) by (auto simp: ucast_of_nat_up)
  show "MASK_BIT (ucast (AIC_HWIRQ_IRQ (line_hwirq l))) = BIT (snd l mod 32)"
    using d by (simp add: f MASK_BIT_def unat_mod32 ucast_of_nat_down unsigned_of_nat take_bit_nat_eq_self)
qed



text \<open>The mask and unmask operations on a line.\<close>

definition line_data :: "line \<Rightarrow> irq_data" where
  "line_data l = \<lparr>hwirq = line_hwirq l, irqd_irq_masked = False\<rparr>"

definition mask_line :: "aic_env \<Rightarrow> line \<Rightarrow> (aic_req, int \<times> u64, aic_state) world \<Rightarrow> (aic_req, int \<times> u64, aic_state) world" where
  "mask_line E l w = snd (run_state (aic_irq_mask E (line_data l)) w)"

definition unmask_line :: "aic_env \<Rightarrow> line \<Rightarrow> (aic_req, int \<times> u64, aic_state) world \<Rightarrow> (aic_req, int \<times> u64, aic_state) world" where
  "unmask_line E l w = snd (run_state (aic_irq_unmask E (line_data l)) w)"

lemma mask_line_run:
  assumes "valid_line (aic_irqc (drv w)) l"
  shows "reqs (hist (mask_line E l w)) = reqs (hist w) @ [WritelRelaxed (BIT (snd l mod 32))
     (base (aic_irqc (drv w)) + of_nat (line_off (mask_set (info (aic_irqc (drv w)))) (aic_irqc (drv w)) l))]"
  using line_register [OF assms, of "mask_set (info (aic_irqc (drv w)))"]
  by (simp add: mask_line_def aic_irq_mask_def aic_ic_write_def line_data_def Let_def)

lemma unmask_line_run:
  assumes "valid_line (aic_irqc (drv w)) l"
  shows "reqs (hist (unmask_line E l w)) = reqs (hist w) @ [WritelRelaxed (BIT (snd l mod 32))
     (base (aic_irqc (drv w)) + of_nat (line_off (mask_clr (info (aic_irqc (drv w)))) (aic_irqc (drv w)) l))]"
  using line_register [OF assms, of "mask_clr (info (aic_irqc (drv w)))"]
  by (simp add: unmask_line_def aic_irq_unmask_def aic_ic_write_def line_data_def Let_def)

lemma mask_line_drv: "drv (mask_line E l w) = drv w" "drv (unmask_line E l w) = drv w"
  by (simp_all add: mask_line_def unmask_line_def aic_irq_mask_def aic_irq_unmask_def aic_ic_write_def Let_def)

lemma line_eq_iff: "(k :: line) = l \<longleftrightarrow> fst k = fst l \<and> snd k div 32 = snd l div 32 \<and> snd k mod 32 = snd l mod 32"
  by (metis div_mult_mod_eq prod_eq_iff)

lemma base_off_iff:
  assumes "n < 2 ^ 32" "m < 2 ^ 32"
  shows "base ic + (of_nat n :: u64) = base ic + of_nat m \<longleftrightarrow> n = m"
  using of_nat_inj64 [OF assms] by simp

lemma line_write_mask:
  assumes "valid_line ic l" "valid_line ic k"
  shows "line_write ic k (WritelRelaxed (BIT (snd l mod 32)) (base ic + of_nat (line_off (mask_set (info ic)) ic l))) old
      \<longleftrightarrow> k = l \<or> old"
    and "line_write ic k (WritelRelaxed (BIT (snd l mod 32)) (base ic + of_nat (line_off (mask_clr (info ic)) ic l))) old
      \<longleftrightarrow> k \<noteq> l \<and> old"
proof -
  have b: "bit (BIT (snd l mod 32) :: u32) (snd k mod 32) \<longleftrightarrow> snd k mod 32 = snd l mod 32"
    by (auto simp: bit_BIT)
  note u = line_off_unique [OF assms] line_off_unique [OF assms(2,1)]
  note s = line_off_small [OF assms(1)] line_off_small [OF assms(2)]
  note e = base_off_iff [OF s(1) s(3)] base_off_iff [OF s(1) s(4)] base_off_iff [OF s(2) s(3)] base_off_iff [OF s(2) s(4)]
  show "line_write ic k (WritelRelaxed (BIT (snd l mod 32)) (base ic + of_nat (line_off (mask_set (info ic)) ic l))) old
      \<longleftrightarrow> k = l \<or> old"
    unfolding line_write_def aic_req.case b e line_eq_iff [of k l] using u by auto
  show "line_write ic k (WritelRelaxed (BIT (snd l mod 32)) (base ic + of_nat (line_off (mask_clr (info ic)) ic l))) old
      \<longleftrightarrow> k \<noteq> l \<and> old"
    unfolding line_write_def aic_req.case b e line_eq_iff [of k l] using u by auto
qed

interpretation aic_lines: irq_lines "\<lambda>w. valid_line (aic_irqc (drv w))" "mask_line E" "unmask_line E"
    "\<lambda>w. line_masked (aic_irqc (drv w)) m0 (hist w)" for E m0
proof unfold_locales
  fix l k :: line and w :: "(aic_req, int \<times> u64, aic_state) world"
  assume v: "valid_line (aic_irqc (drv w)) l" "valid_line (aic_irqc (drv w)) k"
  show "line_masked (aic_irqc (drv (mask_line E l w))) m0 (hist (mask_line E l w)) k \<longleftrightarrow>
      k = l \<or> line_masked (aic_irqc (drv w)) m0 (hist w) k"
    by (simp add: mask_line_drv line_masked_def mask_line_run [OF v(1)] line_write_mask [OF v])
  show "line_masked (aic_irqc (drv (unmask_line E l w))) m0 (hist (unmask_line E l w)) k \<longleftrightarrow>
      k \<noteq> l \<and> line_masked (aic_irqc (drv w)) m0 (hist w) k"
    by (simp add: mask_line_drv line_masked_def unmask_line_run [OF v(1)] line_write_mask [OF v])
qed (simp_all add: mask_line_drv)

section \<open>FIQ lines\<close>

text \<open>A FIQ line of the running CPU is masked when its bit is clear in the CPU's word.\<close>

definition fiq_data :: "nat \<Rightarrow> irq_data" where
  "fiq_data n = \<lparr>hwirq = AIC_FIQ_HWIRQ (of_nat n), irqd_irq_masked = False\<rparr>"

definition mask_fiq :: "aic_env \<Rightarrow> nat \<Rightarrow> (aic_req, int \<times> u64, aic_state) world \<Rightarrow> (aic_req, int \<times> u64, aic_state) world" where
  "mask_fiq E n w = snd (run_state (aic_fiq_mask E (fiq_data n)) w)"

definition unmask_fiq :: "aic_env \<Rightarrow> nat \<Rightarrow> (aic_req, int \<times> u64, aic_state) world \<Rightarrow> (aic_req, int \<times> u64, aic_state) world" where
  "unmask_fiq E n w = snd (run_state (aic_fiq_unmask E (fiq_data n)) w)"

definition fiq_masked :: "aic_state \<Rightarrow> nat \<Rightarrow> bool" where
  "fiq_masked s n \<longleftrightarrow> \<not> bit (aic_fiq_unmasked s (this_cpu s)) n"

lemma fiq_data_idx: "n < 32 \<Longrightarrow> unat (aic_fiq_get_idx (fiq_data n)) = n"
  by (simp add: aic_fiq_get_idx_def fiq_data_def fiq_fields(2) unat_ucast_u64 unsigned_of_nat take_bit_nat_eq_self)

lemma fiq_mask_drv:
  "drv (snd (run_state (aic_fiq_set_mask E d) w)) = drv w"
  "drv (snd (run_state (aic_fiq_clear_mask E d) w)) = drv w"
  by (simp_all add: aic_fiq_set_mask_def aic_fiq_clear_mask_def)

lemma mask_fiq_drv:
  "n < 32 \<Longrightarrow> drv (mask_fiq E n w) = (drv w)\<lparr>aic_fiq_unmasked := (aic_fiq_unmasked (drv w))(this_cpu (drv w) :=
     aic_fiq_unmasked (drv w) (this_cpu (drv w)) AND ucast (NOT (BIT n :: u64)))\<rparr>"
  "n < 32 \<Longrightarrow> drv (unmask_fiq E n w) = (drv w)\<lparr>aic_fiq_unmasked := (aic_fiq_unmasked (drv w))(this_cpu (drv w) :=
     aic_fiq_unmasked (drv w) (this_cpu (drv w)) OR ucast (BIT n :: u64))\<rparr>"
  by (simp_all add: mask_fiq_def unmask_fiq_def aic_fiq_mask_def aic_fiq_unmask_def case_prod_beta fiq_mask_drv fiq_data_idx)

interpretation fiq_lines: irq_lines "\<lambda>w n. n < 32" "mask_fiq E" "unmask_fiq E" "\<lambda>w. fiq_masked (drv w)" for E
proof unfold_locales
  fix n m :: nat and w :: "(aic_req, int \<times> u64, aic_state) world"
  assume v: "n < 32" "m < 32"
  show "fiq_masked (drv (mask_fiq E n w)) m \<longleftrightarrow> m = n \<or> fiq_masked (drv w) m"
    using v by (auto simp: fiq_masked_def mask_fiq_drv bit_simps field_simps_bits)
  show "fiq_masked (drv (unmask_fiq E n w)) m \<longleftrightarrow> m \<noteq> n \<and> fiq_masked (drv w) m"
    using v by (auto simp: fiq_masked_def mask_fiq_drv bit_simps field_simps_bits)
qed simp_all

section \<open>Draining events\<close>

text \<open>What the hardware delivers: the \<open>n\<close>th read of the event register gives the \<open>n\<close>th pending event,
  and 0 once none is left.\<close>

definition event_reads :: "u64 \<Rightarrow> (aic_req \<times> 'r) list \<Rightarrow> nat" where
  "event_reads a h = length (filter (\<lambda>q. q = Readl a) (reqs h))"

definition delivers :: "aic_env \<Rightarrow> u64 \<Rightarrow> u32 list \<Rightarrow> bool" where
  "delivers E a evs \<longleftrightarrow> (\<forall>h. snd (E h (Readl a)) =
     (if event_reads a h < length evs then ucast (evs ! event_reads a h) else 0))"

fun is_dispatch :: "aic_req \<Rightarrow> bool" where
  "is_dispatch (GenericHandleDomainIrq _ _) = True"
| "is_dispatch IpiMuxProcess = True"
| "is_dispatch PrErr = True"
| "is_dispatch _ = False"

text \<open>The one handler an event goes to.\<close>

definition dispatch :: "u64 \<Rightarrow> u32 \<Rightarrow> aic_req" where
  "dispatch domain ev =
     (if FIELD_GET AIC_EVENT_TYPE ev = AIC_EVENT_TYPE_IRQ then GenericHandleDomainIrq domain (ucast ev)
      else if FIELD_GET AIC_EVENT_TYPE ev = AIC_EVENT_TYPE_IPI \<and> FIELD_GET AIC_EVENT_NUM ev = 1 then IpiMuxProcess
      else PrErr)"

lemma FIELD_GET_0 [simp]: "FIELD_GET f 0 = 0"
  by (simp add: FIELD_GET_def)

lemma ucast_down_up: "ucast (ucast (v :: u32) :: u64) = v"
  by (rule bit_word_eqI) (auto simp: bit_simps)

lemma filter_Readl: "q \<notin> set qs \<Longrightarrow> filter (\<lambda>x. x = q) qs = []"
  by (auto simp: filter_empty_conv)

lemma handle_event_run:
  "wp (aic_handle_event E ev) (\<lambda>_ w'. drv w' = drv w \<and> (\<exists>new. hist w' = hist w @ new
     \<and> filter is_dispatch (reqs new) = (if ev = 0 then [] else [dispatch (hw_domain (aic_irqc (drv w))) ev])
     \<and> Readl a \<notin> set (reqs new))) w"
  unfolding aic_handle_event_def aic_handle_ipi_def aic_ic_write_def
  by (intro wp_intros) (auto simp: dispatch_def)

lemma handle_irq_loop_drains:
  assumes "delivers E (event (aic_irqc (drv w)) + ucast (event_off (info (aic_irqc (drv w))))) evs" "0 \<notin> set evs"
    and "n = event_reads (event (aic_irqc (drv w)) + ucast (event_off (info (aic_irqc (drv w))))) (hist w)"
    and "n \<le> length evs" "length evs - n < fuel"
  shows "\<exists>w' new. run_state (aic_handle_irq_loop E fuel) w = (Some (), w') \<and> drv w' = drv w
    \<and> hist w' = hist w @ new
    \<and> filter is_dispatch (reqs new) = map (dispatch (hw_domain (aic_irqc (drv w)))) (drop n evs)"
  using assms
proof (induction fuel arbitrary: n w)
  case 0
  then show ?case by simp
next
  case (Suc fuel)
  let ?a = "event (aic_irqc (drv w)) + ucast (event_off (info (aic_irqc (drv w))))"
  define r where "r = E (hist w) (Readl ?a)"
  define ev where "ev = (ucast (snd r) :: u32)"
  let ?w = "w\<lparr>hist := hist w @ [(Readl ?a, r)]\<rparr>"
  obtain v new where v: "run_state (aic_handle_event E ev) ?w = ((), v)" "drv v = drv w"
      "hist v = hist w @ (Readl ?a, r) # new" "Readl ?a \<notin> set (reqs new)"
      "filter is_dispatch (reqs new) = (if ev = 0 then [] else [dispatch (hw_domain (aic_irqc (drv w))) ev])"
    using handle_event_run [of E ev ?w ?a] by (auto simp: wp_def split: prod.splits)
  have snd: "snd r = (if n < length evs then ucast (evs ! n) else 0)"
    using Suc.prems(1,3) by (simp add: delivers_def r_def)
  show ?case
  proof (cases "n < length evs")
    case True
    then have ev: "ev = evs ! n" using snd by (simp add: ev_def ucast_down_up)
    with True Suc.prems(2) have nz: "ev \<noteq> 0" by (metis nth_mem)
    have m: "Suc n = event_reads ?a (hist v)"
      unfolding event_reads_def Suc.prems(3) v(3) using filter_Readl [OF v(4)] by simp
    have "length evs - Suc n < fuel" "Suc n \<le> length evs" using Suc.prems(5) True by simp_all
    from Suc.IH [of v "Suc n", unfolded v(2), OF Suc.prems(1,2) m this(2,1)] obtain w' more where
        "run_state (aic_handle_irq_loop E fuel) v = (Some (), w')" "drv w' = drv w" "hist w' = hist v @ more"
        "filter is_dispatch (reqs more) = map (dispatch (hw_domain (aic_irqc (drv w)))) (drop (Suc n) evs)"
      by blast
    with v nz ev True show ?thesis
      by (intro exI [of _ w'] exI [of _ "(Readl ?a, r) # new @ more"])
        (simp add: r_def [symmetric] ev_def [symmetric] Cons_nth_drop_Suc [symmetric])
  next
    case False
    then have "ev = 0" using snd by (simp add: ev_def)
    with v False show ?thesis
      by (intro exI [of _ v] exI [of _ "(Readl ?a, r) # new"])
        (simp add: r_def [symmetric] ev_def [symmetric])
  qed
qed

lemma handle_vgic_run:
  "wp (aic_handle_vgic K E) (\<lambda>_ w'. drv w' = drv w \<and> (\<exists>new. hist w' = hist w @ new
     \<and> set (filter is_dispatch (reqs new)) \<subseteq>
         {GenericHandleDomainIrq (hw_domain (aic_irqc (drv w))) (AIC_FIQ_HWIRQ (AIC_VGIC_MI K)), PrErr}
     \<and> (\<not> is_kernel_in_hyp_mode K \<longrightarrow> new = []))) w"
  unfolding aic_handle_vgic_def read_sysreg_def
  by (intro wp_intros) auto



section \<open>What initialisation leaves\<close>

definition die_writes :: "aic_irq_chip \<Rightarrow> u32 \<Rightarrow> aic_req list" where
  "die_writes ic off =
     map (\<lambda>i. WritelRelaxed (- 1) (base ic + ucast (mask_set (info ic) + off + of_nat i * 4))) [0..<BITS_TO_U32 (nr_irq ic)]
     @ map (\<lambda>i. WritelRelaxed (- 1) (base ic + ucast (sw_clr (info ic) + off + of_nat i * 4))) [0..<BITS_TO_U32 (nr_irq ic)]
     @ (if target_cpu (info ic) \<noteq> 0
        then map (\<lambda>i. WritelRelaxed 1 (base ic + ucast (target_cpu (info ic) + off + of_nat i * 4))) [0..<unat (nr_irq ic)]
        else [])"

lemma for_each_writes:
  "wp (for_each xs (\<lambda>i. aic_ic_write E ic (f i) v)) (\<lambda>_ w'. drv w' = drv w
     \<and> reqs (hist w') = reqs (hist w) @ map (\<lambda>i. WritelRelaxed v (base ic + ucast (f i))) xs) w"
proof (induction xs arbitrary: w)
  case Nil
  then show ?case by (simp add: wp_simps)
next
  case (Cons x xs)
  show ?case
    unfolding for_each.simps aic_ic_write_def [of E ic "f x" v]
    by (intro wp_intros wp_mono [OF Cons.IH]) simp
qed

lemma die_offsets: "map (\<lambda>d. off + of_nat d * (T :: u32)) [0..<Suc n] = off # map (\<lambda>d. (off + T) + of_nat d * T) [0..<n]"
proof -
  have "map (\<lambda>d. off + of_nat d * T) (map Suc [0..<n]) = map (\<lambda>d. (off + T) + of_nat d * T) [0..<n]"
    by (simp add: algebra_simps)
  then show ?thesis by (simp add: upt_conv_Cons map_Suc_upt del: upt_Suc)
qed

lemma init_dies_writes:
  "wp (aic_init_dies E ic n off) (\<lambda>_ w'. drv w' = drv w
     \<and> reqs (hist w') = reqs (hist w) @ concat (map (die_writes ic) (map (\<lambda>d. off + of_nat d * die_stride (info ic)) [0..<n]))) w"
proof (induction n arbitrary: off w)
  case 0
  then show ?case by (simp add: wp_simps)
next
  case (Suc n)
  show ?case
    unfolding aic_init_dies.simps die_offsets
    by (intro wp_intros wp_mono [OF for_each_writes] wp_mono [OF Suc.IH]) (simp_all add: die_writes_def)
qed

text \<open>Between the start of the chip and the masking, only the affinities change.\<close>

definition but_affinity :: "aic_state \<Rightarrow> aic_state \<Rightarrow> bool" where
  "but_affinity s s' \<longleftrightarrow> (\<exists>f. s' = s\<lparr>aic_irqc := (aic_irqc s)\<lparr>fiq_aff := f\<rparr>\<rparr>)"

lemma but_affinity_refl: "but_affinity s s"
  unfolding but_affinity_def by (rule exI [of _ "fiq_aff (aic_irqc s)"]) simp

lemma but_affinity_trans: "but_affinity s t \<Longrightarrow> but_affinity t u \<Longrightarrow> but_affinity s u"
  by (auto simp: but_affinity_def)

lemma but_affinity_set:
  "but_affinity s (s\<lparr>aic_irqc := (aic_irqc s)\<lparr>fiq_aff := f\<rparr>\<rparr>)"
  by (auto simp: but_affinity_def)

lemma affinity_cpu_frame: "wp (affinity_cpu E aff fiq i) (\<lambda>_ w'. but_affinity (drv w) (drv w')) w"
  unfolding affinity_cpu_def set_irqc_def
  by (intro wp_intros) (auto simp: but_affinity_refl but_affinity_set)

lemma affinity_cpus_frame:
  "wp (for_each is (affinity_cpu E aff fiq)) (\<lambda>_ w'. but_affinity (drv w) (drv w')) w"
  by (rule wp_for_each [where I = "\<lambda>_ w'. but_affinity (drv w) (drv w')"])
    (auto intro: but_affinity_refl but_affinity_trans wp_mono [OF affinity_cpu_frame])

lemma build_fiq_affinity_frame: "wp (build_fiq_affinity K E aff) (\<lambda>_ w'. but_affinity (drv w) (drv w')) w"
  unfolding build_fiq_affinity_def set_irqc_def
  by (intro wp_intros wp_mono [OF affinity_cpus_frame])
    (auto simp: but_affinity_refl intro: but_affinity_trans [OF but_affinity_set])

lemma build_affinities_frame: "wp (build_affinities K E cs) (\<lambda>_ w'. but_affinity (drv w) (drv w')) w"
proof (induction cs arbitrary: w)
  case Nil
  then show ?case by (simp add: wp_simps but_affinity_refl)
next
  case (Cons c cs)
  show ?case
    unfolding build_affinities.simps
    by (intro wp_intros wp_mono [OF build_fiq_affinity_frame] wp_mono [OF Cons.IH]) (auto intro: but_affinity_trans)
qed

text \<open>The requests after the masking: none of them is a register write except the enabling of an
  AIC of version 2 or 3.\<close>

definition late_req :: "aic_irq_chip \<Rightarrow> aic_req \<Rightarrow> bool" where
  "late_req ic q \<longleftrightarrow> (case q of WritelRelaxed v a \<Rightarrow> a = base ic + ucast AIC2_CONFIG \<and> 1 < version (info ic) | _ \<Rightarrow> True)"

lemma init_enable_writes:
  "wp (aic_init_enable K E ic) (\<lambda>ret w'. ret = 0 \<and> drv w' = drv w \<and>
     (\<exists>post. reqs (hist w') = reqs (hist w) @ post \<and> list_all (late_req ic) post)) w"
  unfolding aic_init_enable_def aic_ic_read_def aic_ic_write_def
  by (intro wp_intros) (auto simp: late_req_def)

definition init_writes :: "aic_irq_chip \<Rightarrow> aic_req list" where
  "init_writes ic = concat (map (die_writes ic)
     (map (\<lambda>d. of_nat d * die_stride (info ic)) [0..<unat (nr_die ic)]))"

definition init_trace :: "aic_irq_chip \<Rightarrow> aic_req list \<Rightarrow> bool" where
  "init_trace ic qs \<longleftrightarrow> (\<exists>pre post. qs = pre @ init_writes ic @ post \<and> list_all (late_req ic) post)"

lemma init_trace_base: "list_all (late_req ic) post \<Longrightarrow> init_trace ic (init_writes ic @ post)"
  unfolding init_trace_def by (metis append_Nil)

lemma init_trace_append: "init_trace ic qs \<Longrightarrow> init_trace ic (ps @ qs)"
  unfolding init_trace_def by (metis append.assoc)

lemma init_trace_Cons: "init_trace ic qs \<Longrightarrow> init_trace ic (q # qs)"
  using init_trace_append [of ic qs "[q]"] by simp

lemma init_all_dies:
  "wp (aic_init_dies E ic (unat (nr_die ic)) 0) (\<lambda>_ w'. drv w' = drv w
     \<and> reqs (hist w') = reqs (hist w) @ init_writes ic) w"
  by (rule wp_mono [OF init_dies_writes]) (simp add: init_writes_def)

lemma init_finish_writes:
  "wp (aic_init_finish K E children) (\<lambda>ret w'. ret = 0 \<and> but_affinity (drv w) (drv w')
     \<and> init_trace (aic_irqc (drv w')) (reqs (hist w'))) w"
  unfolding aic_init_finish_def
  by (intro wp_intros wp_mono [OF build_affinities_frame] wp_mono [OF init_all_dies] wp_mono [OF init_enable_writes],
      auto simp: but_affinity_refl)
    (rule init_trace_append, (rule init_trace_Cons)+, erule init_trace_base)+

text \<open>What the layout computes, in numbers. \<open>S\<close> is where the registers of the first die start.\<close>

definition layout_at :: "nat \<Rightarrow> aic_irq_chip \<Rightarrow> bool" where
  "layout_at S ic \<longleftrightarrow> 0x2000 \<le> S \<and> S \<le> 0x10000 \<and> unat (max_irq ic) < 2 ^ 16 \<and> unat (nr_die ic) \<le> 16
     \<and> unat (sw_clr (info ic)) = S + 4 * unat (max_irq ic) + 4 * (unat (max_irq ic) div 32)
     \<and> unat (mask_set (info ic)) = S + 4 * unat (max_irq ic) + 8 * (unat (max_irq ic) div 32)
     \<and> unat (mask_clr (info ic)) = S + 4 * unat (max_irq ic) + 12 * (unat (max_irq ic) div 32)
     \<and> unat (die_stride (info ic)) = 4 * unat (max_irq ic) + 20 * (unat (max_irq ic) div 32)
     \<and> (target_cpu (info ic) = 0 \<or> unat (target_cpu (info ic)) = S)"

lemma of_nat_unat32: "of_nat (unat (v :: u32)) = v"
  by simp

lemma aic_layout_at:
  assumes "unat (max_irq ic) < 2 ^ 16" "unat (nr_die ic) \<le> 16" "0x2000 \<le> unat start" "unat start \<le> 0x10000"
    and "target_cpu (info ic) = 0 \<or> target_cpu (info ic) = start"
  shows "layout_at (unat start) (ic\<lparr>info := aic_layout start (start + 4 * max_irq ic) (max_irq ic) (info ic)\<rparr>)"
proof -
  let ?m = "unat (max_irq ic)" and ?s = "unat start"
  have m: "max_irq ic = of_nat ?m" and s: "start = of_nat ?s" by simp_all
  have "unat (drop_bit 5 (max_irq ic)) = ?m div 32" by (subst unat_drop_bit_eq) (simp add: drop_bit_eq_div)
  then have b: "drop_bit 5 (max_irq ic) = of_nat (?m div 32)" by (metis of_nat_unat32)
  have u: "unat (of_nat n :: u32) = n" if "n < 2 ^ 32" for n
    using that by (simp add: unsigned_of_nat take_bit_nat_eq_self)
  have *: "unat (start + 4 * max_irq ic + of_nat k * (4 * drop_bit 5 (max_irq ic))) = ?s + 4 * ?m + 4 * k * (?m div 32)"
    if "k \<le> 5" for k
  proof -
    have "start + 4 * max_irq ic + of_nat k * (4 * drop_bit 5 (max_irq ic)) =
        of_nat (?s + 4 * ?m + 4 * k * (?m div 32))"
      by (subst b) (simp add: mult_ac)
    moreover have "4 * k * (?m div 32) \<le> 20 * 2048"
      using that assms(1) by (intro mult_le_mono) auto
    ultimately show ?thesis using assms by (simp only:) (subst u, simp_all)
  qed
  have stride: "4 * max_irq ic + 5 * (4 * drop_bit 5 (max_irq ic)) = of_nat (4 * ?m + 20 * (?m div 32))"
    by (subst b) simp
  have "unat (4 * max_irq ic + 5 * (4 * drop_bit 5 (max_irq ic))) = 4 * ?m + 20 * (?m div 32)"
    using assms(1) by (simp only: stride) (subst u, simp_all)
  moreover have "start + 4 * max_irq ic + 5 * (4 * drop_bit 5 (max_irq ic)) - start
      = 4 * max_irq ic + 5 * (4 * drop_bit 5 (max_irq ic))" by simp
  ultimately show ?thesis
    using assms * [of 1] * [of 2] * [of 3]
    by (auto simp: layout_at_def aic_layout_def Let_def add.assoc algebra_simps)
qed

lemma layout_at_ok:
  "layout_at S ic \<Longrightarrow> 32 dvd unat (max_irq ic) \<Longrightarrow> nr_irq ic \<le> max_irq ic \<Longrightarrow> layout_ok ic"
  by (auto simp: layout_at_def layout_ok_def)

lemma off_word:
  assumes "unat reg + d * unat T + 4 * i < 2 ^ 32"
  shows "ucast (reg + of_nat d * T + of_nat i * 4 :: u32) = (of_nat (unat reg + d * unat T + 4 * i) :: u64)"
proof -
  have "reg + of_nat d * T + of_nat i * 4 = of_nat (unat reg + d * unat T + 4 * i)" by (simp add: mult_ac)
  then show ?thesis by (simp only: ucast_of_nat_up [OF assms])
qed

text \<open>A request that leaves a masked line masked: any but a write to the line's unmask register.\<close>

definition spares :: "aic_irq_chip \<Rightarrow> line \<Rightarrow> aic_req \<Rightarrow> bool" where
  "spares ic l q \<longleftrightarrow> (case q of WritelRelaxed v a \<Rightarrow>
     a \<noteq> base ic + of_nat (line_off (mask_clr (info ic)) ic l) | _ \<Rightarrow> True)"

lemma spares_keeps: "list_all (spares ic l) qs \<Longrightarrow> fold (line_write ic l) qs True"
  by (induction qs) (auto simp: spares_def line_write_def split: aic_req.splits)

lemma masks_if_written:
  assumes "list_all (spares ic l) qs"
    and "WritelRelaxed (- 1) (base ic + of_nat (line_off (mask_set (info ic)) ic l)) \<in> set qs"
  shows "fold (line_write ic l) qs old"
proof -
  obtain as bs where qs: "qs = as @ WritelRelaxed (- 1) (base ic + of_nat (line_off (mask_set (info ic)) ic l)) # bs"
    using assms(2) by (meson split_list)
  have "bit (- 1 :: u32) (snd l mod 32)" by (simp add: bit_simps)
  with assms(1) show ?thesis unfolding qs by (simp add: spares_keeps line_write_def)
qed

lemma die_register:
  assumes "layout_at S ic" "valid_line ic l" "d < unat (nr_die ic)" "x < unat (die_stride (info ic))"
    and "unat reg + 4 * i = S + x" "x \<noteq> 4 * unat (max_irq ic) + 12 * (unat (max_irq ic) div 32) + 4 * (snd l div 32)"
  shows "spares ic l (WritelRelaxed v (base ic + ucast (reg + of_nat d * die_stride (info ic) + of_nat i * 4)))"
proof -
  let ?T = "unat (die_stride (info ic))" and ?m = "unat (max_irq ic)"
  have T: "?T \<le> 303104" "S \<le> 0x10000" "d < 16"
    using assms(1,3) by (auto simp: layout_at_def)
  have "d * ?T \<le> 15 * 303104" using T by (intro mult_le_mono) auto
  with assms(4,5) T have small: "unat reg + d * ?T + 4 * i < 2 ^ 32" by simp
  have k: "snd l div 32 < ?m div 32"
    using assms(2) by (auto simp: valid_line_def layout_ok_def word_le_nat_alt)
  have c: "line_off (mask_clr (info ic)) ic l = S + (fst l * ?T + (4 * ?m + 12 * (?m div 32) + 4 * (snd l div 32)))"
    using assms(1) by (simp add: line_off_def layout_at_def)
  have "4 * ?m + 12 * (?m div 32) + 4 * (snd l div 32) < ?T"
    using assms(1) k by (simp add: layout_at_def)
  with div_mod_unique [of d ?T x "fst l" _] assms(4,6)
  have "d * ?T + x \<noteq> fst l * ?T + (4 * ?m + 12 * (?m div 32) + 4 * (snd l div 32))" by blast
  then have "unat reg + d * ?T + 4 * i \<noteq> line_off (mask_clr (info ic)) ic l"
    unfolding c using assms(5) by linarith
  then show ?thesis
    unfolding spares_def aic_req.case off_word [OF small] base_off_iff [OF small line_off_small(2) [OF assms(2)]] .
qed

lemma die_writes_spare:
  assumes "layout_at S ic" "valid_line ic l" "d < unat (nr_die ic)"
  shows "list_all (spares ic l) (die_writes ic (of_nat d * die_stride (info ic)))"
proof -
  let ?m = "unat (max_irq ic)"
  note r = die_register [OF assms]
  have n: "unat (nr_irq ic) \<le> ?m" "32 dvd ?m" using assms(2) by (auto simp: valid_line_def layout_ok_def word_le_nat_alt)
  then have b: "BITS_TO_U32 (nr_irq ic) \<le> ?m div 32" by (auto simp: BITS_TO_U32_def)
  have T: "unat (die_stride (info ic)) = 4 * ?m + 20 * (?m div 32)" using assms(1) by (simp add: layout_at_def)
  have "spares ic l (WritelRelaxed (- 1) (base ic + ucast (mask_set (info ic) + of_nat d * die_stride (info ic) + of_nat i * 4)))"
    if "i < BITS_TO_U32 (nr_irq ic)" for i
    using that b assms(1) by (intro r [of "4 * ?m + 8 * (?m div 32) + 4 * i"]) (auto simp: T layout_at_def)
  moreover have "spares ic l (WritelRelaxed (- 1) (base ic + ucast (sw_clr (info ic) + of_nat d * die_stride (info ic) + of_nat i * 4)))"
    if "i < BITS_TO_U32 (nr_irq ic)" for i
    using that b assms(1) by (intro r [of "4 * ?m + 4 * (?m div 32) + 4 * i"]) (auto simp: T layout_at_def)
  moreover have "spares ic l (WritelRelaxed 1 (base ic + ucast (target_cpu (info ic) + of_nat d * die_stride (info ic) + of_nat i * 4)))"
    if "i < unat (nr_irq ic)" "target_cpu (info ic) \<noteq> 0" for i
    using that n assms(1) by (intro r [of "4 * i"]) (auto simp: T layout_at_def)
  ultimately show ?thesis by (auto simp: die_writes_def list_all_iff)
qed

lemma late_req_spares:
  assumes "layout_at S ic" "valid_line ic l" "late_req ic q"
  shows "spares ic l q"
proof (cases q)
  case (WritelRelaxed v a)
  have "line_off (mask_clr (info ic)) ic l \<noteq> 20"
    using assms(1) by (simp add: line_off_def layout_at_def)
  moreover have "(ucast AIC2_CONFIG :: u64) = of_nat 20" by (simp add: AIC2_CONFIG_def)
  ultimately show ?thesis
    using assms(3) WritelRelaxed of_nat_inj64 [OF _ line_off_small(2) [OF assms(2)], of 20]
    by (auto simp: spares_def late_req_def)
qed (simp_all add: spares_def)

lemma init_trace_masks:
  assumes "layout_at S ic" "valid_line ic l" "init_trace ic (reqs h)"
  shows "line_masked ic m0 h l"
proof -
  let ?T = "unat (die_stride (info ic))"
  obtain pre post where h: "reqs h = pre @ init_writes ic @ post" "list_all (late_req ic) post"
    using assms(3) by (auto simp: init_trace_def)
  have l: "fst l < unat (nr_die ic)" "snd l < unat (nr_irq ic)" using assms(2) by (auto simp: valid_line_def)
  have "list_all (spares ic l) (init_writes ic @ post)"
    using h(2) die_writes_spare [OF assms(1,2)] late_req_spares [OF assms(1,2)]
    by (auto simp: init_writes_def list_all_iff)
  moreover have "WritelRelaxed (- 1) (base ic + of_nat (line_off (mask_set (info ic)) ic l)) \<in> set (init_writes ic @ post)"
  proof -
    have "snd l div 32 < BITS_TO_U32 (nr_irq ic)" using l by (auto simp: BITS_TO_U32_def)
    moreover have "(of_nat (line_off (mask_set (info ic)) ic l) :: u64) =
        ucast (mask_set (info ic) + of_nat (fst l) * die_stride (info ic) + of_nat (snd l div 32) * 4)"
      using off_word [of "mask_set (info ic)" "fst l" "die_stride (info ic)" "snd l div 32"] line_off_small(1) [OF assms(2)]
      by (simp add: line_off_def)
    ultimately have "WritelRelaxed (- 1) (base ic + of_nat (line_off (mask_set (info ic)) ic l))
        \<in> set (die_writes ic (of_nat (fst l) * die_stride (info ic)))"
      by (auto simp: die_writes_def)
    with l show ?thesis by (auto simp: init_writes_def)
  qed
  ultimately show ?thesis
    using masks_if_written [of ic l "init_writes ic @ post"] by (simp add: line_masked_def h(1))
qed

lemma match_infos:
  "aic_info_match c = Some nfo \<Longrightarrow> version nfo \<in> {1, 2, 3} \<and>
     (if version nfo = 1 then target_cpu nfo = AIC_TARGET_CPU
      else target_cpu nfo = 0 \<and> irq_cfg nfo \<in> {AIC2_IRQ_CFG, AIC3_IRQ_CFG})"
  by (auto simp: aic_info_match_def aic1_info_def aic1_fipi_info_def aic1_local_fipi_info_def aic2_info_def aic3_info_def
      info_zero_def split: if_splits)

lemma FIELD_GET_small: "unat (FIELD_GET (15, 0) (v :: u32)) < 65536"
  using FIELD_GET_bound [of 0 15 v] by simp

lemma last_die_small: "unat (FIELD_GET (27, 24) (v :: u32) + 1) \<le> 16"
proof -
  have "unat (FIELD_GET (27, 24) v) < 16" using FIELD_GET_bound [of 24 27 v] by simp
  then show ?thesis by (simp add: unat_word_ariths)
qed

lemma read_info_layout:
  assumes "aic_info_match c = Some (info (aic_irqc (drv w)))"
  shows "wp (aic_read_info E) (\<lambda>offs w'. info (aic_irqc (drv w')) = info (aic_irqc (drv w)) \<and>
    (case offs of None \<Rightarrow> True | Some (start, off) \<Rightarrow>
      unat (max_irq (aic_irqc (drv w'))) < 2 ^ 16 \<and> unat (nr_die (aic_irqc (drv w'))) \<le> 16
      \<and> off = start + 4 * max_irq (aic_irqc (drv w')) \<and> 0x2000 \<le> unat start \<and> unat start \<le> 0x10000
      \<and> (target_cpu (info (aic_irqc (drv w'))) = 0 \<or> target_cpu (info (aic_irqc (drv w'))) = start))) w"
  unfolding aic_read_info_def aic_ic_read_def set_irqc_def
  using match_infos [OF assms]
  by (intro wp_intros)
    (auto simp: AIC_TARGET_CPU_def AIC2_IRQ_CFG_def AIC3_IRQ_CFG_def AIC_MAX_IRQ_def AIC2_INFO3_MAX_IRQ_def
      AIC2_INFO1_LAST_DIE_def FIELD_GET_small last_die_small)

definition ready :: "aic_state \<Rightarrow> bool" where
  "ready s \<longleftrightarrow> (\<exists>S. layout_at S (aic_irqc s))"

lemma layout_at_frame [simp]:
  "layout_at S (ic\<lparr>fiq_aff := f\<rparr>) = layout_at S ic" "layout_at S (ic\<lparr>hw_domain := d\<rparr>) = layout_at S ic"
  by (simp_all add: layout_at_def)

lemma ready_but_affinity: "but_affinity s t \<Longrightarrow> ready s \<Longrightarrow> ready t"
  by (auto simp: but_affinity_def ready_def)

lemma ready_layout:
  assumes "unat (max_irq ic) < 2 ^ 16" "unat (nr_die ic) \<le> 16" "0x2000 \<le> unat start" "unat start \<le> 0x10000"
    and "target_cpu (info ic) = 0 \<or> target_cpu (info ic) = start" "off = start + 4 * max_irq ic"
    and "aic_irqc s = ic\<lparr>info := aic_layout start off (max_irq ic) (info ic), hw_domain := d\<rparr>"
  shows "ready s"
proof -
  have "aic_irqc s = (ic\<lparr>info := aic_layout start (start + 4 * max_irq ic) (max_irq ic) (info ic)\<rparr>)\<lparr>hw_domain := d\<rparr>"
    using assms(6,7) by simp
  then show ?thesis unfolding ready_def using aic_layout_at [OF assms(1-5)] layout_at_frame(2) by metis
qed

lemma init_smp_frame: "wp (aic_init_smp E) (\<lambda>_ w'. drv w' = drv w) w"
  unfolding aic_init_smp_def by (intro wp_intros) simp_all

lemma err_unmap_fails: "wp (aic_err_unmap E) (\<lambda>ret _. ret = - ENODEV) w"
  unfolding aic_err_unmap_def by (intro wp_intros) simp_all

lemma init_domain_ready:
  assumes "unat (max_irq (aic_irqc (drv w))) < 2 ^ 16" "unat (nr_die (aic_irqc (drv w))) \<le> 16"
    "0x2000 \<le> unat start" "unat start \<le> 0x10000"
    "target_cpu (info (aic_irqc (drv w))) = 0 \<or> target_cpu (info (aic_irqc (drv w))) = start"
    "off = start + 4 * max_irq (aic_irqc (drv w))"
  shows "wp (aic_init_domain K E children start off) (\<lambda>ret w'. ret = 0 \<longrightarrow>
     ready (drv w') \<and> init_trace (aic_irqc (drv w')) (reqs (hist w'))) w"
  unfolding aic_init_domain_def set_irqc_def
  by (intro wp_intros wp_mono [OF init_smp_frame] wp_mono [OF init_finish_writes] wp_mono [OF err_unmap_fails])
    (auto intro: ready_but_affinity [OF _ ready_layout [OF assms]])

lemma init_ready:
  "wp (aic_of_ic_init K E c children) (\<lambda>ret w'. ret = 0 \<longrightarrow>
     ready (drv w') \<and> init_trace (aic_irqc (drv w')) (reqs (hist w'))) w"
  unfolding aic_of_ic_init_def
  by (intro wp_intros wp_mono [OF read_info_layout] wp_mono [OF err_unmap_fails] init_domain_ready) auto

text \<open>What initialisation took and gave back.\<close>

definition mapped :: "(aic_req \<times> int \<times> u64) list \<Rightarrow> u64 list" where
  "mapped h = concat (map (\<lambda>(q, r). case q of OfIomap _ \<Rightarrow> if snd r = 0 then [] else [snd r] | _ \<Rightarrow> []) h)"
definition unmapped :: "(aic_req \<times> int \<times> u64) list \<Rightarrow> u64 list" where
  "unmapped h = concat (map (\<lambda>(q, r). case q of Iounmap a \<Rightarrow> [a] | _ \<Rightarrow> []) h)"
definition allocated :: "(aic_req \<times> int \<times> u64) list \<Rightarrow> u64 list" where
  "allocated h = concat (map (\<lambda>(q, r). case q of KzallocChip \<Rightarrow> if snd r = 0 then [] else [snd r] | _ \<Rightarrow> []) h)"
definition freed :: "(aic_req \<times> int \<times> u64) list \<Rightarrow> u64 list" where
  "freed h = concat (map (\<lambda>(q, r). case q of Kfree a \<Rightarrow> [a] | _ \<Rightarrow> []) h)"
definition domains_made :: "(aic_req \<times> int \<times> u64) list \<Rightarrow> u64 list" where
  "domains_made h = concat (map (\<lambda>(q, r). case q of DomainCreateTree \<Rightarrow> if snd r = 0 then [] else [snd r] | _ \<Rightarrow> []) h)"
definition domains_removed :: "(aic_req \<times> int \<times> u64) list \<Rightarrow> u64 list" where
  "domains_removed h = concat (map (\<lambda>(q, r). case q of DomainRemove a \<Rightarrow> [a] | _ \<Rightarrow> []) h)"

lemmas aic_resources = mapped_def unmapped_def allocated_def freed_def domains_made_def domains_removed_def

lemma aic_resources_append [simp]:
  "mapped (h @ k) = mapped h @ mapped k" "unmapped (h @ k) = unmapped h @ unmapped k"
  "allocated (h @ k) = allocated h @ allocated k" "freed (h @ k) = freed h @ freed k"
  "domains_made (h @ k) = domains_made h @ domains_made k"
  "domains_removed (h @ k) = domains_removed h @ domains_removed k"
  by (simp_all add: aic_resources)

definition released :: "(aic_req \<times> int \<times> u64) list \<Rightarrow> bool" where
  "released h \<longleftrightarrow> (distinct (mapped h) \<longrightarrow> unmapped h = rev (mapped h)) \<and> freed h = allocated h
     \<and> domains_removed h = domains_made h"

lemma aic_resources_simps [simp]:
  "mapped [] = []" "unmapped [] = []" "allocated [] = []" "freed [] = []" "domains_made [] = []" "domains_removed [] = []"
  "mapped ((q, r) # h) = (case q of OfIomap _ \<Rightarrow> if snd r = 0 then [] else [snd r] | _ \<Rightarrow> []) @ mapped h"
  "unmapped ((q, r) # h) = (case q of Iounmap a \<Rightarrow> [a] | _ \<Rightarrow> []) @ unmapped h"
  "allocated ((q, r) # h) = (case q of KzallocChip \<Rightarrow> if snd r = 0 then [] else [snd r] | _ \<Rightarrow> []) @ allocated h"
  "freed ((q, r) # h) = (case q of Kfree a \<Rightarrow> [a] | _ \<Rightarrow> []) @ freed h"
  "domains_made ((q, r) # h) = (case q of DomainCreateTree \<Rightarrow> if snd r = 0 then [] else [snd r] | _ \<Rightarrow> []) @ domains_made h"
  "domains_removed ((q, r) # h) = (case q of DomainRemove a \<Rightarrow> [a] | _ \<Rightarrow> []) @ domains_removed h"
  by (simp_all add: aic_resources)

text \<open>The resources held once the chip is allocated: its memory, the mappings of its registers and, if
  it has its own, of its event registers.\<close>

definition held :: "aic_state \<Rightarrow> (aic_req \<times> int \<times> u64) list \<Rightarrow> bool" where
  "held s h \<longleftrightarrow> unmapped h = [] \<and> freed h = [] \<and> allocated h = [aic_irqc_ptr s]
     \<and> (mapped h = [base (aic_irqc s)] \<and> event (aic_irqc s) \<in> {0, base (aic_irqc s)}
        \<or> mapped h = [base (aic_irqc s), event (aic_irqc s)] \<and> event (aic_irqc s) \<noteq> 0)"

definition domains_left :: "(aic_req \<times> int \<times> u64) list \<Rightarrow> u64 list \<times> u64 list" where
  "domains_left h = (domains_made h, domains_removed h)"

lemma read_info_held:
  assumes "held (drv w) (hist w)" "event (aic_irqc (drv w)) = 0"
  shows "wp (aic_read_info E) (\<lambda>offs w'. held (drv w') (hist w') \<and> domains_left (hist w') = domains_left (hist w)) w"
  unfolding aic_read_info_def aic_ic_read_def set_irqc_def
  using assms by (intro wp_intros) (auto simp: held_def domains_left_def)

lemma init_smp_held:
  assumes "held (drv w) (hist w)"
  shows "wp (aic_init_smp E) (\<lambda>_ w'. held (drv w') (hist w') \<and> domains_left (hist w') = domains_left (hist w)) w"
  unfolding aic_init_smp_def
  using assms by (intro wp_intros) (simp_all add: held_def domains_left_def)

lemma err_unmap_releases:
  assumes "held (drv w) (hist w)" "domains_removed (hist w) = domains_made (hist w)"
  shows "wp (aic_err_unmap E) (\<lambda>ret w'. ret = - ENODEV \<and> released (hist w')) w"
proof -
  let ?ic = "aic_irqc (drv w)"
  have *: "released (hist w @ (if event ?ic \<noteq> 0 \<and> event ?ic \<noteq> base ?ic
      then [(Iounmap (event ?ic), r)] else []) @ [(Iounmap (base ?ic), r'), (Kfree (aic_irqc_ptr (drv w)), r'')])" for r r' r''
    using assms unfolding released_def held_def by auto
  show ?thesis
    unfolding aic_err_unmap_def
    by (intro wp_when_execI wp_intros) (use * in \<open>simp split del: if_split\<close>)
qed

lemma init_domain_released:
  assumes "held (drv w) (hist w)" "domains_left (hist w) = ([], [])"
  shows "wp (aic_init_domain K E children start off) (\<lambda>ret w'. ret \<noteq> 0 \<longrightarrow> ret = - ENODEV \<and> released (hist w')) w"
  unfolding aic_init_domain_def set_irqc_def
  using assms
  by (intro wp_intros wp_mono [OF err_unmap_releases] wp_mono [OF init_smp_held] wp_mono [OF init_finish_writes])
    (simp_all add: held_def domains_left_def)

lemma init_released:
  assumes "hist w = []"
  shows "wp (aic_of_ic_init K E c children) (\<lambda>ret w'. ret \<noteq> 0 \<longrightarrow>
     ret \<in> {- EIO, - ENOMEM, - ENODEV} \<and> released (hist w')) w"
  unfolding aic_of_ic_init_def
  using assms
  by (intro wp_intros wp_mono [OF read_info_held] wp_mono [OF err_unmap_releases] wp_mono [OF init_domain_released])
    (simp_all add: held_def domains_left_def irqc_zero_def released_def)

section \<open>The properties of the driver\<close>

text \<open>A sequence of mask (\<open>True\<close>) and unmask operations.\<close>

definition line_acts where
  "line_acts E acts w = fold (\<lambda>a. if snd a then mask_line E (fst a) else unmask_line E (fst a)) acts w"

definition fiq_acts where
  "fiq_acts E acts w = fold (\<lambda>a. if snd a then mask_fiq E (fst a) else unmask_fiq E (fst a)) acts w"

text \<open>A machine for the witnesses: an AIC of version 2 with 64 lines of at most 96 on one die, whose event
  register delivers an interrupt and an IPI.\<close>

definition K0 :: aic_hdr where
  "K0 = \<lparr>AIC_CPU_PMU_E = 4, AIC_CPU_PMU_P = 5, PMCR0_IMODE = (10, 8), PMCR0_IMODE_OFF = 0,
     PMCR0_IMODE_FIQ = 4, PMCR0_IACT = BIT 11, ICH_HCR_EL2_En = 1, ARCH_TIMER_CTRL_ENABLE = 1,
     ARCH_TIMER_CTRL_IT_MASK = 2, ARCH_TIMER_CTRL_IT_STAT = 4, IRQ_TYPE_LEVEL_HIGH = 4,
     IRQ_TYPE_EDGE_RISING = 1, IRQ_TYPE_SENSE_MASK = 15,
     MPIDR_AFFINITY_LEVEL = (\<lambda>m l. drop_bit (8 * l) m AND 255), is_kernel_in_hyp_mode = False\<rparr>"

definition E0 :: aic_env where
  "E0 h q = (case q of
       OfIomap n \<Rightarrow> (0, if n = 0 then 0x100000 else 0x200000)
     | KzallocChip \<Rightarrow> (0, 8) | DomainCreateTree \<Rightarrow> (0, 16) | IpiMuxCreate _ \<Rightarrow> (1, 0)
     | ReadlRelaxed a \<Rightarrow> (0, if a = 0x100004 then 64 else if a = 0x10000c then 96 else 0)
     | Readl a \<Rightarrow> (0, if event_reads a h < 2 then ucast ([0x10005, 0x40001] ! event_reads a h :: u32) else 0)
     | _ \<Rightarrow> (0, 0))"

definition E1 :: aic_env where
  "E1 h q = (case q of IpiMuxCreate _ \<Rightarrow> (- 12, 0) | _ \<Rightarrow> E0 h q)"

definition s0 :: aic_state where
  "s0 = \<lparr>aic_irqc = irqc_zero, aic_irqc_ptr = 0, use_fast_ipi = True, use_local_fast_ipi = True,
     aic_fiq_unmasked = (\<lambda>_. 0), this_cpu = 0\<rparr>"

definition w0 :: "(aic_req, int \<times> u64, aic_state) world" where
  "w0 = \<lparr>hist = [], drv = s0\<rparr>"

definition w1 :: "(aic_req, int \<times> u64, aic_state) world" where
  "w1 = snd (run_state (aic_of_ic_init K0 E0 ''apple,aic2'' []) w0)"

lemma aic2_match: "aic_info_match ''apple,aic2'' = Some aic2_info"
  by (simp add: aic_info_match_def)

lemmas aic_run = aic_of_ic_init_def aic2_match aic_read_info_def aic_ic_read_def set_irqc_def aic_init_domain_def
  aic_init_smp_def w0_def s0_def irqc_zero_def aic2_info_def info_zero_def AIC2_INFO1_def AIC2_INFO3_def

lemma E0_simps:
  "E0 h (OfIomap n) = (0, if n = 0 then 0x100000 else 0x200000)" "E0 h KzallocChip = (0, 8)"
  "E0 h DomainCreateTree = (0, 16)" "E0 h (IpiMuxCreate m) = (1, 0)" "E0 h (UpdateBusToken d) = (0, 0)"
  "E0 h (ReadlRelaxed a) = (0, if a = 0x100004 then 64 else if a = 0x10000c then 96 else 0)"
  "E0 h (SetSmpIpiRange d n) = (0, 0)"
  by (simp_all add: E0_def)

lemma w1_wp:
  "wp (aic_of_ic_init K0 E0 ''apple,aic2'' []) (\<lambda>ret w'. ret = 0 \<and> nr_irq (aic_irqc (drv w')) = 64
     \<and> max_irq (aic_irqc (drv w')) = 96 \<and> nr_die (aic_irqc (drv w')) = 1) w0"
proof -
  have f: "FIELD_GET AIC2_INFO1_NR_IRQ (64 :: u32) = 64" "FIELD_GET AIC2_INFO3_MAX_IRQ (96 :: u32) = 96"
      "FIELD_GET AIC2_INFO1_LAST_DIE (64 :: u32) = 0" by code_simp+
  show ?thesis
    by (simp add: aic_run wp_simps E0_simps f)
      (rule wp_mono [OF init_finish_writes], auto simp: but_affinity_def)
qed

lemma w1_run: "run_state (aic_of_ic_init K0 E0 ''apple,aic2'' []) w0 = (0, w1)"
  and w1_chip: "nr_irq (aic_irqc (drv w1)) = 64" "max_irq (aic_irqc (drv w1)) = 96" "nr_die (aic_irqc (drv w1)) = 1"
  using w1_wp by (simp_all add: wp_def w1_def case_prod_beta prod_eq_iff)



text \<open>
  Initialisation that fails gives back what it took: the registers are unmapped in the reverse
  order, each mapping once, the chip is freed and the domain removed. The error is one of three.
\<close>

theorem aic_init_failure_releases:
  assumes "hist w = []" "run_state (aic_of_ic_init K E c children) w = (ret, w')" "ret \<noteq> 0"
    and "distinct (mapped (hist w'))"
  shows "ret \<in> {- EIO, - ENOMEM, - ENODEV} \<and> unmapped (hist w') = rev (mapped (hist w'))
    \<and> freed (hist w') = allocated (hist w') \<and> domains_removed (hist w') = domains_made (hist w')"
  using wpD [OF init_released [OF assms(1)] assms(2)] assms(3,4) by (simp add: released_def)

theorem aic_init_failure_releases_witness:
  "unmapped (hist (snd (run_state (aic_of_ic_init K0 E1 ''apple,aic2'' []) w0))) = [0x200000, 0x100000]"
proof -
  let ?r = "run_state (aic_of_ic_init K0 E1 ''apple,aic2'' []) w0"
  have "wp (aic_of_ic_init K0 E1 ''apple,aic2'' []) (\<lambda>ret w'. ret = - ENODEV
      \<and> mapped (hist w') = [0x100000, 0x200000]) w0"
    by (simp add: aic_run wp_simps aic_err_unmap_def E1_def E0_simps)
  then have "fst ?r = - ENODEV" "mapped (hist (snd ?r)) = [0x100000, 0x200000]"
    by (simp_all add: wp_def case_prod_beta)
  with aic_init_failure_releases [of w0 K0 E1 "''apple,aic2''" "[]" "fst ?r" "snd ?r"]
  show ?thesis by (simp add: w0_def)
qed

text \<open>
  On a set of valid lines, mask and unmask act like a map: after any sequence of them a line is
  masked exactly when the last of them on that line was a mask, or there was none and it was
  masked before. No operation touches another line.
\<close>

theorem aic_last_mask_wins:
  assumes "\<forall>a \<in> set acts. valid_line (aic_irqc (drv w)) (fst a)" "valid_line (aic_irqc (drv w)) l"
  shows "line_masked (aic_irqc (drv (line_acts E acts w))) m0 (hist (line_acts E acts w)) l =
    (case map_of (rev acts) l of None \<Rightarrow> line_masked (aic_irqc (drv w)) m0 (hist w) l | Some b \<Rightarrow> b)"
proof -
  have "aic_lines.act E = (\<lambda>a. if snd a then mask_line E (fst a) else unmask_line E (fst a))"
    by (simp add: fun_eq_iff aic_lines.act_def)
  with aic_lines.last_wins [OF assms(1,2), of E m0] show ?thesis by (simp add: line_acts_def)
qed

theorem aic_last_mask_wins_witness:
  "\<not> line_masked (aic_irqc (drv (unmask_line E0 (0, 40) (mask_line E0 (0, 8) w1)))) (\<lambda>_. True)
     (hist (unmask_line E0 (0, 40) (mask_line E0 (0, 8) w1))) (0, 40)"
proof -
  have v: "valid_line (aic_irqc (drv w1)) (0, n)" if "n < 64" for n
  proof -
    obtain S where "layout_at S (aic_irqc (drv w1))"
      using wpD [OF init_ready w1_run] by (auto simp: ready_def)
    from layout_at_ok [OF this] that show ?thesis by (simp add: valid_line_def w1_chip)
  qed
  show ?thesis
    using aic_last_mask_wins [of "[((0, 8), True), ((0, 40), False)]" w1 "(0, 40)" E0 "\<lambda>_. True"] v by (simp add: line_acts_def)
qed

text \<open>
  The end of a FIQ re-enables its source exactly when the FIQ is unmasked on this CPU, which the
  last mask or unmask of that FIQ decides; a masked guest timer stays disabled.
\<close>

theorem aic_fiq_eoi_respects_mask:
  assumes "\<forall>a \<in> set acts. fst a < 32" "n < 32"
  shows "reqs (hist (snd (run_state (aic_fiq_eoi E (fiq_data n)) (fiq_acts E acts w)))) = reqs (hist (fiq_acts E acts w)) @
    (if (case map_of (rev acts) n of None \<Rightarrow> fiq_masked (drv w) n | Some b \<Rightarrow> b) then []
     else if n = 2 then [SysregClearSet VM_TMR_FIQ_ENA 0 VM_TMR_FIQ_ENABLE_P, Isb]
     else if n = 3 then [SysregClearSet VM_TMR_FIQ_ENA 0 VM_TMR_FIQ_ENABLE_V, Isb] else [])"
proof -
  define w' where "w' = fiq_acts E acts w"
  have "fiq_lines.act E = (\<lambda>a. if snd a then mask_fiq E (fst a) else unmask_fiq E (fst a))"
    by (simp add: fun_eq_iff fiq_lines.act_def)
  with fiq_lines.last_wins [OF assms(1,2), of E w]
  have m: "fiq_masked (drv w') n = (case map_of (rev acts) n of None \<Rightarrow> fiq_masked (drv w) n | Some b \<Rightarrow> b)"
    by (simp add: w'_def fiq_acts_def)
  have idx: "aic_fiq_get_idx (fiq_data n) = k \<longleftrightarrow> n = unat k" for k
    using fiq_data_idx [OF assms(2)] by (auto simp: word_unat_eq_iff)
  have "ucast (aic_fiq_unmasked (drv w') (this_cpu (drv w'))) AND (BIT (unat (aic_fiq_get_idx (fiq_data n))) :: u64) \<noteq> 0
      \<longleftrightarrow> \<not> fiq_masked (drv w') n"
    using assms(2) by (auto simp: fiq_data_idx fiq_masked_def and_BIT_eq_0 bit_simps)
  then show ?thesis
    unfolding m [symmetric] w'_def [symmetric]
    by (simp add: aic_fiq_eoi_def aic_fiq_clear_mask_def idx AIC_TMR_EL02_PHYS_def AIC_TMR_EL02_VIRT_def)
qed

theorem aic_fiq_eoi_respects_mask_witness:
  "reqs (hist (snd (run_state (aic_fiq_eoi E0 (fiq_data 3)) (unmask_fiq E0 3 w0))))
     = reqs (hist (unmask_fiq E0 3 w0)) @ [SysregClearSet VM_TMR_FIQ_ENA 0 VM_TMR_FIQ_ENABLE_V, Isb]"
  using aic_fiq_eoi_respects_mask [of "[(3, False)]" 3 E0 w0] by (simp add: fiq_acts_def)

text \<open>
  The IRQ handler drains the controller and returns: if the event register delivers the events
  \<open>evs\<close> and then 0, every fuel above their number is enough, and the handler passes each event, in
  order and once, to its handler: the IRQ domain, the IPI multiplexer, or the error message. What
  follows is at most the vGIC maintenance interrupt, and nothing when the kernel runs at EL1.
\<close>

theorem aic_handle_irq_drains:
  assumes "delivers E (event (aic_irqc (drv w)) + ucast (event_off (info (aic_irqc (drv w))))) evs" "0 \<notin> set evs"
    and "event_reads (event (aic_irqc (drv w)) + ucast (event_off (info (aic_irqc (drv w))))) (hist w) = 0"
    and "length evs < fuel"
  shows "\<exists>w' new vgic. run_state (aic_handle_irq K E fuel) w = (Some (), w') \<and> drv w' = drv w \<and> hist w' = hist w @ new
    \<and> filter is_dispatch (reqs new) = map (dispatch (hw_domain (aic_irqc (drv w)))) evs @ vgic
    \<and> set vgic \<subseteq> {GenericHandleDomainIrq (hw_domain (aic_irqc (drv w))) (AIC_FIQ_HWIRQ (AIC_VGIC_MI K)), PrErr}
    \<and> (is_kernel_in_hyp_mode K \<or> vgic = [])"
proof -
  obtain v n1 where v: "run_state (aic_handle_irq_loop E fuel) w = (Some (), v)" "drv v = drv w" "hist v = hist w @ n1"
      "filter is_dispatch (reqs n1) = map (dispatch (hw_domain (aic_irqc (drv w)))) evs"
    using handle_irq_loop_drains [OF assms(1,2) assms(3) [symmetric], where fuel = fuel] assms(4) by auto
  obtain w' n2 where "run_state (aic_handle_vgic K E) v = ((), w')" "drv w' = drv v" "hist w' = hist v @ n2"
      "set (filter is_dispatch (reqs n2)) \<subseteq>
         {GenericHandleDomainIrq (hw_domain (aic_irqc (drv v))) (AIC_FIQ_HWIRQ (AIC_VGIC_MI K)), PrErr}"
      "\<not> is_kernel_in_hyp_mode K \<longrightarrow> n2 = []"
    using handle_vgic_run [of K E v] by (auto simp: wp_def split: prod.splits)
  with v show ?thesis
    by (intro exI [of _ w'] exI [of _ "n1 @ n2"] exI [of _ "filter is_dispatch (reqs n2)"])
      (auto simp: aic_handle_irq_def)
qed

theorem aic_handle_irq_drains_witness:
  "\<exists>w'. run_state (aic_handle_irq K0 E0 3) w0 = (Some (), w')
     \<and> filter is_dispatch (reqs (hist w')) = [GenericHandleDomainIrq 0 0x10005, IpiMuxProcess]"
proof -
  have d: "delivers E0 a [0x10005, 0x40001]" for a
    by (simp add: delivers_def E0_def)
  have m: "map (dispatch 0) [0x10005, 0x40001] = [GenericHandleDomainIrq 0 0x10005, IpiMuxProcess]" by code_simp
  have "hist w0 = []" "hw_domain (aic_irqc (drv w0)) = 0" "\<not> is_kernel_in_hyp_mode K0"
    by (simp_all add: w0_def s0_def irqc_zero_def K0_def)
  with aic_handle_irq_drains [OF d, of w0 3 K0] m show ?thesis by (auto simp: event_reads_def)
qed

lemma fiq_translated:
  assumes "nr < AIC_NR_FIQ K" "translate_fiq K nr = Inr hw0"
    and "4 \<le> unat (AIC_CPU_PMU_E K)" "unat (AIC_CPU_PMU_E K) < unat (AIC_CPU_PMU_P K)" "unat (AIC_CPU_PMU_P K) < 2 ^ 15"
  defines "hw \<equiv> (if hw0 = ucast (AIC_CPU_PMU_E K) then ucast (AIC_CPU_PMU_P K) else hw0)"
  shows "FIELD_GET AIC_EVENT_TYPE hw = AIC_EVENT_TYPE_FIQ \<and> AIC_HWIRQ_IRQ hw < ucast (AIC_NR_FIQ K)
    \<and> AIC_HWIRQ_IRQ hw \<noteq> ucast (AIC_CPU_PMU_E K)
    \<and> (is_kernel_in_hyp_mode K \<or> AIC_HWIRQ_IRQ hw \<notin> {ucast AIC_TMR_EL02_PHYS, ucast AIC_TMR_EL02_VIRT})"
proof -
  have n: "unat (AIC_NR_FIQ K) = unat (AIC_CPU_PMU_P K) + 2"
    using assms(5) by (simp add: AIC_NR_FIQ_def unat_word_ariths)
  have "\<exists>x. hw0 = AIC_FIQ_HWIRQ x \<and> (x = nr \<and> (is_kernel_in_hyp_mode K \<or> nr \<noteq> 2 \<and> nr \<noteq> 3) \<or> x = 0 \<or> x = 1)"
    using assms(2)
    by (auto simp: translate_fiq_def AIC_TMR_EL0_PHYS_def AIC_TMR_EL0_VIRT_def AIC_TMR_EL02_PHYS_def AIC_TMR_EL02_VIRT_def
        split: if_splits)
  then obtain x where x0: "hw0 = AIC_FIQ_HWIRQ x"
      "x = nr \<and> (is_kernel_in_hyp_mode K \<or> nr \<noteq> 2 \<and> nr \<noteq> 3) \<or> x = 0 \<or> x = 1" by blast
  have x: "hw0 = AIC_FIQ_HWIRQ x" "unat x < unat (AIC_NR_FIQ K)" "is_kernel_in_hyp_mode K \<or> unat x \<notin> {2, 3}"
    using x0 assms(1,3-5) n by (auto simp: word_less_nat_alt word_unat_eq_iff)
  then have x16: "unat x < 2 ^ 16" using n assms(5) by simp
  have p16: "unat (AIC_CPU_PMU_P K) < 2 ^ 16" using assms(5) by simp
  define y where "y = (if x = AIC_CPU_PMU_E K then AIC_CPU_PMU_P K else x)"
  have eq: "ucast x = (ucast (AIC_CPU_PMU_E K) :: u64) \<longleftrightarrow> x = AIC_CPU_PMU_E K"
    by (metis unat_ucast_u64 word_unat_eq_iff)
  have hw: "hw = AIC_FIQ_HWIRQ y"
    using x(1) x16 p16 by (simp add: hw_def y_def fiq_fields(1) eq)
  have y: "unat y < 2 ^ 16" "unat y < unat (AIC_NR_FIQ K)" "y \<noteq> AIC_CPU_PMU_E K"
      "is_kernel_in_hyp_mode K \<or> unat y \<notin> {2, 3}"
    using x x16 p16 n assms(3,4) by (auto simp: y_def word_unat_eq_iff)
  have yeq: "ucast y = (ucast z :: u64) \<longleftrightarrow> unat y = unat z" for z :: u32
    using word_unat_eq_iff [of "ucast y :: u64" "ucast z"] by (simp add: unat_ucast_u64)
  show ?thesis
    unfolding hw fiq_fields(2-4) [OF y(1)]
    using y by (simp add: yeq word_less_nat_alt unat_ucast_u64 word_unat_eq_iff AIC_TMR_EL02_PHYS_def AIC_TMR_EL02_VIRT_def)
qed

text \<open>
  A firmware specifier that is accepted has three or four cells and denotes an existing interrupt:
  an IRQ decodes to the die and number of its cells, both below the controller's counts; a FIQ
  decodes to an index below the number of FIQs, never to the efficiency cores' PMU, which is
  merged with the other, and at EL1 never to the guest timers, which are remapped.
\<close>

theorem aic_translate_sound:
  assumes "aic_irq_domain_translate K ic fw = Inr (hw, type)"
    and "unat (nr_irq ic) \<le> 2 ^ 16" "unat (nr_die ic) \<le> 16"
    and "4 \<le> unat (AIC_CPU_PMU_E K)" "unat (AIC_CPU_PMU_E K) < unat (AIC_CPU_PMU_P K)" "unat (AIC_CPU_PMU_P K) < 2 ^ 15"
  shows "is_of_node fw \<and> param_count fw \<in> {3, 4} \<and>
    (let c = (if param_count fw = 4 then 2 else 1); die = (if param_count fw = 4 then param fw 1 else 0) in
     (if param fw 0 = AIC_IRQ then
        FIELD_GET AIC_EVENT_TYPE hw = AIC_EVENT_TYPE_IRQ \<and> die < nr_die ic \<and> param fw c < nr_irq ic
        \<and> AIC_HWIRQ_DIE hw = ucast die \<and> AIC_HWIRQ_IRQ hw = ucast (param fw c)
      else
        param fw 0 = AIC_FIQ \<and> die = 0 \<and> FIELD_GET AIC_EVENT_TYPE hw = AIC_EVENT_TYPE_FIQ
        \<and> AIC_HWIRQ_IRQ hw < ucast (AIC_NR_FIQ K) \<and> AIC_HWIRQ_IRQ hw \<noteq> ucast (AIC_CPU_PMU_E K)
        \<and> (is_kernel_in_hyp_mode K \<or> AIC_HWIRQ_IRQ hw \<notin> {ucast AIC_TMR_EL02_PHYS, ucast AIC_TMR_EL02_VIRT})))"
proof -
  define c where "c = (if param_count fw = 4 then 2 else 1 :: nat)"
  define die where "die = (if param_count fw = 4 then param fw 1 else 0)"
  define nr where "nr = param fw c"
  have args: "(if param_count fw = 4 then (param fw 1, \<lambda>i. param fw (2 + i)) else (0, \<lambda>i. param fw (1 + i)))
      = (die, \<lambda>i. param fw (c + i))"
    by (simp add: c_def die_def)
  note t = assms(1) [unfolded aic_irq_domain_translate_def args Let_def prod.case]
  have cells: "is_of_node fw \<and> param_count fw \<in> {3, 4}"
    using t by (auto split: if_splits)
  show ?thesis
  proof (cases "param fw 0 = AIC_IRQ")
    case True
    then have hw: "die < nr_die ic" "nr < nr_irq ic" "hw = AIC_IRQ_HWIRQ die nr"
      using t by (auto simp: nr_def split: if_splits)
    then have "unat die < 2 ^ 8" "unat nr < 2 ^ 16" using assms(2,3) by (simp_all add: word_less_nat_alt)
    from hwirq_fields [OF this] hw True cells show ?thesis
      by (simp add: Let_def nr_def c_def die_def)
  next
    case False
    then obtain hw0 where f: "param fw 0 = AIC_FIQ" "die = 0" "nr < AIC_NR_FIQ K" "translate_fiq K nr = Inr hw0"
        "hw = (if hw0 = ucast (AIC_CPU_PMU_E K) then ucast (AIC_CPU_PMU_P K) else hw0)"
      using t by (auto simp: nr_def split: if_splits sum.splits)
    from fiq_translated [OF f(3,4) assms(4-6)] f False cells show ?thesis
      by (simp add: Let_def nr_def c_def die_def)
  qed
qed

theorem aic_translate_sound_witness:
  "AIC_HWIRQ_DIE (AIC_IRQ_HWIRQ 0 7) = 0 \<and> AIC_HWIRQ_IRQ (AIC_IRQ_HWIRQ 0 7) = 7"
proof -
  have "aic_irq_domain_translate K0 (irqc_zero\<lparr>nr_irq := 64, nr_die := 1\<rparr>)
      \<lparr>is_of_node = True, param_count = 3, param = (\<lambda>i. [0, 7, 4] ! i)\<rparr> = Inr (AIC_IRQ_HWIRQ 0 7, 4)"
    by (simp add: aic_irq_domain_translate_def AIC_IRQ_def K0_def irqc_zero_def)
  from aic_translate_sound [OF this] show ?thesis
    by (simp add: Let_def AIC_IRQ_def K0_def irqc_zero_def)
qed

end
