(* ===== verification/Nvme_Prp.thy ===== *)
theory Nvme_Prp
  imports Wallace_Prelude
begin

text \<open>
  The data mapping of the ANS NVMe driver, \<open>local-source/drivers/nvme/host/apple.c\<close> from
  \<open>apple_nvme_iod_alloc_size\<close> to \<open>apple_nvme_unmap_rq\<close>: the PRP lists a request's scatter list is
  turned into, how they are freed, and the error exits.

  PRP lists are pages of 64-bit entries in a store indexed by the pointer the DMA pool returned;
  the pools, the mapping of the scatter list and the mempool are requests, a response is a
  pointer or count and a DMA address. \<open>sh\<close> is the parameter \<open>NVME_CTRL_PAGE_SHIFT\<close>. A request carries
  its payload length, its first bio vector and the scatter list that mapping it yields.
  Dereferencing the end of the scatter list is the status \<open>NULL_DEREF\<close>.

  Proved: the lists the driver builds, walked as the controller walks them, are exactly the
  pages of the payload, in order; what is allocated is freed once, in its own pool, at its own
  DMA address.
\<close>

section \<open>State and requests\<close>

datatype blk_status = BLK_STS_OK | BLK_STS_RESOURCE | BLK_STS_IOERR | NULL_DEREF

datatype pool = prp_small_pool | prp_page_pool

record request =
  rq_nr_phys_segments :: nat
  rq_payload_bytes :: int
  bv_offset :: nat
  bv_len :: nat
  rq_sgl :: "(u64 \<times> int) list"

record apple_nvme_iod =
  npages :: int
  nents :: nat
  first_dma :: u64
  dma_len :: nat
  sg :: nat
  iod_list :: "nat \<Rightarrow> nat"
  prp_mem :: "nat \<Rightarrow> nat \<Rightarrow> u64"
  prp1 :: u64
  prp2 :: u64

datatype prp_req =
    DmaPoolAlloc pool | DmaPoolFree pool nat u64
  | DmaMapBvec nat nat | DmaUnmapPage u64 nat
  | MempoolAlloc | MempoolFree nat | SgInitTable nat | BlkRqMapSg
  | DmaMapSg nat | DmaUnmapSg nat | WarnBadSgl nat | WarnNoEnts

type_synonym prp_env = "(prp_req, nat \<times> u64) env"
type_synonym 'a prp = "(prp_req, nat \<times> u64, apple_nvme_iod, 'a) prog"

definition NVME_CTRL_PAGE_SIZE :: "nat \<Rightarrow> nat" where "NVME_CTRL_PAGE_SIZE sh = 2 ^ sh"

abbreviation (input) psz :: "nat \<Rightarrow> int" where "psz sh \<equiv> int (NVME_CTRL_PAGE_SIZE sh)"

lemma psz_pos [simp]: "0 < NVME_CTRL_PAGE_SIZE sh"
  by (simp add: NVME_CTRL_PAGE_SIZE_def)

definition entries_per_page :: "nat \<Rightarrow> nat" where "entries_per_page sh = NVME_CTRL_PAGE_SIZE sh div 8"

definition DIV_ROUND_UP :: "int \<Rightarrow> int \<Rightarrow> int" where "DIV_ROUND_UP n d = (n + d - 1) div d"

section \<open>Freeing\<close>

text \<open>The kernel's page size and the size of a scatter list entry are the parameters \<open>PAGE_SIZE\<close> and
  \<open>sizeof_sg\<close>; a pointer has 8 bytes.\<close>

definition NVME_MAX_KB_SZ :: int where "NVME_MAX_KB_SZ = 4096"
definition NVME_MAX_SEGS :: int where "NVME_MAX_SEGS = 127"

definition iod_alloc_npages :: "nat \<Rightarrow> int \<Rightarrow> int" where
  "iod_alloc_npages sh PAGE_SIZE =
     (let nprps = DIV_ROUND_UP (NVME_MAX_KB_SZ + psz sh) (psz sh)
      in DIV_ROUND_UP (8 * nprps) (PAGE_SIZE - 8))"

definition apple_nvme_iod_alloc_size :: "nat \<Rightarrow> int \<Rightarrow> int \<Rightarrow> int" where
  "apple_nvme_iod_alloc_size sh PAGE_SIZE sizeof_sg =
     8 * iod_alloc_npages sh PAGE_SIZE + sizeof_sg * NVME_MAX_SEGS"

fun free_prps_from :: "nat \<Rightarrow> prp_env \<Rightarrow> nat list \<Rightarrow> u64 \<Rightarrow> unit prp" where
  "free_prps_from sh E [] dma_addr = return ()"
| "free_prps_from sh E (i # is) dma_addr = do {
     iod \<leftarrow> getd;
     let prp_list = iod_list iod i;
     let next_dma_addr = prp_mem iod prp_list (entries_per_page sh - 1);
     exec E (DmaPoolFree prp_page_pool prp_list dma_addr);
     free_prps_from sh E is next_dma_addr
   }"

definition apple_nvme_free_prps :: "nat \<Rightarrow> prp_env \<Rightarrow> unit prp" where
  "apple_nvme_free_prps sh E = do {
     iod \<leftarrow> getd;
     free_prps_from sh E [0..<nat (npages iod)] (first_dma iod)
   }"

definition apple_nvme_unmap_data :: "nat \<Rightarrow> prp_env \<Rightarrow> unit prp" where
  "apple_nvme_unmap_data sh E = do {
     iod \<leftarrow> getd;
     if dma_len iod \<noteq> 0 then exec E (DmaUnmapPage (first_dma iod) (dma_len iod))
     else do {
       whenM (nents iod = 0) (exec E WarnNoEnts);
       exec E (DmaUnmapSg (nents iod));
       (if npages iod = 0 then exec E (DmaPoolFree prp_small_pool (iod_list iod 0) (first_dma iod))
        else apple_nvme_free_prps sh E);
       exec E (MempoolFree (sg iod))
     }
   }"

section \<open>Building the PRP lists\<close>

text \<open>A store into a PRP list, and the chaining to a new list when the current one is full.\<close>

definition put_prp :: "nat \<Rightarrow> nat \<Rightarrow> u64 \<Rightarrow> apple_nvme_iod \<Rightarrow> apple_nvme_iod" where
  "put_prp p i v iod = iod\<lparr>prp_mem := (prp_mem iod)(p := (prp_mem iod p)(i := v))\<rparr>"

definition prp_next_list :: "nat \<Rightarrow> prp_env \<Rightarrow> pool \<Rightarrow> nat \<Rightarrow> nat \<Rightarrow> (nat \<times> nat) option prp" where
  "prp_next_list sh E pool prp_list i =
     (if i = entries_per_page sh then do {
        (p, prp_dma) \<leftarrow> call E (DmaPoolAlloc pool);
        if p = 0 then return None
        else do {
          modd (\<lambda>iod. iod\<lparr>iod_list := (iod_list iod)(nat (npages iod) := p), npages := npages iod + 1\<rparr>);
          modd (\<lambda>iod. put_prp p 0 (prp_mem iod prp_list (i - 1)) iod);
          modd (put_prp prp_list (i - 1) prp_dma);
          return (Some (p, 1))
        }
      } else return (Some (prp_list, i)))"

text \<open>The loop. \<open>sgs\<close> are the entries after the current one; \<open>addr\<close>, \<open>len\<close> and \<open>left\<close> are the variables
  \<open>dma_addr\<close>, \<open>dma_len\<close> and \<open>length\<close> of the C.\<close>

function setup_prps_loop :: "nat \<Rightarrow> prp_env \<Rightarrow> pool \<Rightarrow> (u64 \<times> int) list \<Rightarrow> u64 \<Rightarrow> int \<Rightarrow> int \<Rightarrow> nat \<Rightarrow> nat \<Rightarrow> blk_status prp" where
  "setup_prps_loop sh E pool sgs addr len left prp_list i = do {
     r \<leftarrow> prp_next_list sh E pool prp_list i;
     case r of
       None \<Rightarrow> do { apple_nvme_free_prps sh E; return BLK_STS_RESOURCE }
     | Some (p, i) \<Rightarrow> do {
         modd (put_prp p i addr);
         if left - psz sh \<le> 0 then return BLK_STS_OK
         else if len - psz sh > 0 then
           setup_prps_loop sh E pool sgs (addr + of_nat (NVME_CTRL_PAGE_SIZE sh)) (len - psz sh) (left - psz sh) p (i + 1)
         else if len - psz sh < 0 then do {
           iod \<leftarrow> getd;
           exec E (WarnBadSgl (nents iod));
           return BLK_STS_IOERR
         } else case sgs of
           [] \<Rightarrow> return NULL_DEREF
         | (a, l) # sgs' \<Rightarrow> setup_prps_loop sh E pool sgs' a l (left - psz sh) p (i + 1)
       }
   }"
  by pat_completeness auto

termination
  by (relation "measure (\<lambda>(sh, E, pool, sgs, addr, len, left, p, i). nat left)")
    (auto simp: not_le intro: less_trans [of 0 "psz _"])

definition setup_prps_lists :: "nat \<Rightarrow> prp_env \<Rightarrow> (u64 \<times> int) list \<Rightarrow> u64 \<Rightarrow> int \<Rightarrow> int \<Rightarrow> blk_status prp" where
  "setup_prps_lists sh E sgs addr len left = do {
     let nprps = DIV_ROUND_UP left (psz sh);
     let pool = (if nprps \<le> 256 div 8 then prp_small_pool else prp_page_pool);
     modd (\<lambda>iod. iod\<lparr>npages := (if nprps \<le> 256 div 8 then 0 else 1)\<rparr>);
     (prp_list, prp_dma) \<leftarrow> call E (DmaPoolAlloc pool);
     if prp_list = 0 then do {
       modd (\<lambda>iod. iod\<lparr>first_dma := addr, npages := - 1\<rparr>);
       return BLK_STS_RESOURCE
     } else do {
       modd (\<lambda>iod. iod\<lparr>iod_list := (iod_list iod)(0 := prp_list), first_dma := prp_dma\<rparr>);
       setup_prps_loop sh E pool sgs addr len left prp_list 0
     }
   }"

text \<open>The label \<open>done\<close>.\<close>

definition setup_prps_done :: "u64 \<Rightarrow> blk_status prp" where
  "setup_prps_done addr0 = do {
     modd (\<lambda>iod. iod\<lparr>prp1 := addr0, prp2 := first_dma iod\<rparr>);
     return BLK_STS_OK
   }"

definition apple_nvme_setup_prps :: "nat \<Rightarrow> prp_env \<Rightarrow> request \<Rightarrow> blk_status prp" where
  "apple_nvme_setup_prps sh E req =
     (case rq_sgl req of
        [] \<Rightarrow> return NULL_DEREF
      | (addr0, len0) # sgs \<Rightarrow>
          let first = psz sh - int (unat (addr0 AND mask sh));
              left = rq_payload_bytes req - first
          in if left \<le> 0 then do {
               modd (\<lambda>iod. iod\<lparr>first_dma := 0\<rparr>);
               setup_prps_done addr0
             } else
               let len = len0 - first;
                   next = (if len \<noteq> 0 then Some (addr0 + of_int first, len, sgs)
                           else case sgs of [] \<Rightarrow> None | (a, l) # sgs' \<Rightarrow> Some (a, l, sgs'))
               in case next of
                 None \<Rightarrow> return NULL_DEREF
               | Some (addr, len, sgs) \<Rightarrow>
                   if left \<le> psz sh then do {
                     modd (\<lambda>iod. iod\<lparr>first_dma := addr\<rparr>);
                     setup_prps_done addr0
                   } else do {
                     sts \<leftarrow> setup_prps_lists sh E sgs addr len left;
                     if sts = BLK_STS_OK then setup_prps_done addr0 else return sts
                   })"

definition apple_nvme_setup_prp_simple :: "nat \<Rightarrow> prp_env \<Rightarrow> request \<Rightarrow> blk_status prp" where
  "apple_nvme_setup_prp_simple sh E req = do {
     let offset = bv_offset req mod NVME_CTRL_PAGE_SIZE sh;
     let first_prp_len = NVME_CTRL_PAGE_SIZE sh - offset;
     (err, dma) \<leftarrow> call E (DmaMapBvec (bv_offset req) (bv_len req));
     modd (\<lambda>iod. iod\<lparr>first_dma := dma\<rparr>);
     if err \<noteq> 0 then return BLK_STS_RESOURCE
     else do {
       modd (\<lambda>iod. iod\<lparr>dma_len := bv_len req, prp1 := dma\<rparr>);
       whenM (bv_len req > first_prp_len) (modd (\<lambda>iod. iod\<lparr>prp2 := dma + of_nat first_prp_len\<rparr>));
       return BLK_STS_OK
     }
   }"

definition apple_nvme_map_data :: "nat \<Rightarrow> prp_env \<Rightarrow> request \<Rightarrow> blk_status prp" where
  "apple_nvme_map_data sh E req =
     (if rq_nr_phys_segments req = 1 \<and> bv_offset req + bv_len req \<le> NVME_CTRL_PAGE_SIZE sh * 2
      then apple_nvme_setup_prp_simple sh E req
      else do {
        modd (\<lambda>iod. iod\<lparr>dma_len := 0\<rparr>);
        (p, _) \<leftarrow> call E MempoolAlloc;
        modd (\<lambda>iod. iod\<lparr>sg := p\<rparr>);
        if p = 0 then return BLK_STS_RESOURCE
        else do {
          exec E (SgInitTable (rq_nr_phys_segments req));
          (n, _) \<leftarrow> call E BlkRqMapSg;
          modd (\<lambda>iod. iod\<lparr>nents := n\<rparr>);
          if n = 0 then do { exec E (MempoolFree p); return BLK_STS_RESOURCE }
          else do {
            (nr_mapped, _) \<leftarrow> call E (DmaMapSg n);
            if nr_mapped = 0 then do { exec E (MempoolFree p); return BLK_STS_RESOURCE }
            else do {
              ret \<leftarrow> apple_nvme_setup_prps sh E req;
              if ret \<noteq> BLK_STS_OK then do {
                exec E (DmaUnmapSg n);
                exec E (MempoolFree p);
                return ret
              } else return BLK_STS_OK
            }
          }
        }
      })"

definition apple_nvme_unmap_rq :: "nat \<Rightarrow> prp_env \<Rightarrow> request \<Rightarrow> unit prp" where
  "apple_nvme_unmap_rq sh E req = whenM (rq_nr_phys_segments req \<noteq> 0) (apple_nvme_unmap_data sh E)"

section \<open>The controller's view\<close>

text \<open>How the controller walks a PRP list of \<open>n\<close> pages at the DMA address \<open>d\<close>, from entry \<open>i\<close>: the last entry
  of a list page is the address of the next list page when more than one page is left. \<open>rd\<close> reads an
  entry by DMA address.\<close>

function prp_walk :: "nat \<Rightarrow> (u64 \<Rightarrow> nat \<Rightarrow> u64) \<Rightarrow> nat \<Rightarrow> u64 \<Rightarrow> nat \<Rightarrow> u64 list" where
  "prp_walk epp rd n d i =
     (if n = 0 then []
      else if Suc i = epp \<and> 0 < i \<and> 1 < n then prp_walk epp rd n (rd d i) 0
      else rd d i # prp_walk epp rd (n - 1) d (Suc i))"
  by pat_completeness auto

termination
  by (relation "measure (\<lambda>(epp, rd, n, d, i). 2 * n + (if 0 < i then 1 else 0))") auto

declare prp_walk.simps [simp del]
declare setup_prps_loop.simps [simp del]

text \<open>The pages of a run of \<open>l\<close> bytes at \<open>a\<close>, and of a list of runs.\<close>

definition run_pages :: "nat \<Rightarrow> u64 \<times> int \<Rightarrow> u64 list" where
  "run_pages sh r = map (\<lambda>k. fst r + of_nat (k * NVME_CTRL_PAGE_SIZE sh)) [0..<nat (DIV_ROUND_UP (snd r) (psz sh))]"

definition pages :: "nat \<Rightarrow> (u64 \<times> int) list \<Rightarrow> u64 list" where
  "pages sh rs = concat (map (run_pages sh) rs)"

text \<open>The runs of a scatter list after the first page.\<close>

definition tail_runs :: "nat \<Rightarrow> (u64 \<times> int) list \<Rightarrow> (u64 \<times> int) list" where
  "tail_runs sh sgl = (case sgl of [] \<Rightarrow> []
     | (a, l) # sgs \<Rightarrow>
         let first = psz sh - int (unat (a AND mask sh))
         in if l = first then sgs else (a + of_int first, l - first) # sgs)"

text \<open>Runs as the block layer makes them under the controller's virtual boundary: none is empty, and
  every run but the last ends at a page end.\<close>

fun whole_runs :: "nat \<Rightarrow> (u64 \<times> int) list \<Rightarrow> bool" where
  "whole_runs sh [] = True"
| "whole_runs sh [(a, l)] = (0 < l)"
| "whole_runs sh ((a, l) # r # rs) = (0 < l \<and> l mod psz sh = 0 \<and> whole_runs sh (r # rs))"

definition good_sgl :: "nat \<Rightarrow> request \<Rightarrow> bool" where
  "good_sgl sh req \<longleftrightarrow> sum_list (map snd (rq_sgl req)) = rq_payload_bytes req
     \<and> (case rq_sgl req of [] \<Rightarrow> False
        | (a, l) # sgs \<Rightarrow>
            let first = psz sh - int (unat (a AND mask sh))
            in 0 < l \<and> (l \<le> first \<and> sgs = [] \<or> first \<le> l \<and> whole_runs sh (tail_runs sh (rq_sgl req))))"

text \<open>The pages the controller transfers for a command with the given PRP fields and length.\<close>

definition prp_transfer :: "nat \<Rightarrow> (u64 \<Rightarrow> nat \<Rightarrow> u64) \<Rightarrow> u64 \<Rightarrow> u64 \<Rightarrow> int \<Rightarrow> u64 list" where
  "prp_transfer sh rd p1 p2 len =
     (let n = nat (DIV_ROUND_UP (int (unat (p1 AND mask sh)) + len) (psz sh))
      in if n \<le> 1 then [p1] else if n = 2 then [p1, p2]
         else p1 # prp_walk (entries_per_page sh) rd (n - 1) p2 0)"

text \<open>What the pools owe: the outstanding allocations, and that a new one is not among them.\<close>

fun live_step :: "prp_req \<times> nat \<times> u64 \<Rightarrow> (nat \<times> u64) set \<Rightarrow> (nat \<times> u64) set" where
  "live_step (DmaPoolAlloc pool, p, d) S = (if p = 0 then S else insert (p, d) S)"
| "live_step (DmaPoolFree pool p d, _) S = S - {(p, d)}"
| "live_step _ S = S"

definition live :: "(prp_req \<times> nat \<times> u64) list \<Rightarrow> (nat \<times> u64) set" where
  "live h = fold live_step h {}"

definition pool_ok :: "prp_env \<Rightarrow> bool" where
  "pool_ok E \<longleftrightarrow> (\<forall>h pool p d. E h (DmaPoolAlloc pool) = (p, d) \<and> p \<noteq> 0 \<longrightarrow>
     p \<notin> fst ` live h \<and> d \<notin> snd ` live h)"

definition pool_allocs :: "(prp_req \<times> nat \<times> u64) list \<Rightarrow> (pool \<times> nat \<times> u64) list" where
  "pool_allocs h = concat (map (\<lambda>(q, r). case q of DmaPoolAlloc pool \<Rightarrow> if fst r = 0 then [] else [(pool, r)] | _ \<Rightarrow> []) h)"

definition pool_frees :: "(prp_req \<times> nat \<times> u64) list \<Rightarrow> (pool \<times> nat \<times> u64) list" where
  "pool_frees h = concat (map (\<lambda>(q, r). case q of DmaPoolFree pool p d \<Rightarrow> [(pool, p, d)] | _ \<Rightarrow> []) h)"

section \<open>Chains of PRP lists\<close>

text \<open>A chain, the newest list first: its pointers and DMA addresses, the number of entries in the newest
  list, and the pages it holds.\<close>

fun chain :: "nat \<Rightarrow> (nat \<Rightarrow> nat \<Rightarrow> u64) \<Rightarrow> (nat \<times> u64) list \<Rightarrow> nat \<Rightarrow> u64 list \<Rightarrow> bool" where
  "chain epp mem [] i D = False"
| "chain epp mem [(p, d)] i D = (D = map (mem p) [0..<i])"
| "chain epp mem ((p, d) # (p', d') # r) i D = (\<exists>D'. D = D' @ map (mem p) [0..<i]
     \<and> mem p' (epp - 1) = d \<and> chain epp mem ((p', d') # r) (epp - 1) D')"

lemma chain_frame:
  assumes "chain epp mem ((p, d) # r) i D" "\<And>j. j < i \<Longrightarrow> mem' p j = mem p j"
    and "\<And>q j. q \<in> fst ` set r \<Longrightarrow> j < epp \<Longrightarrow> mem' q j = mem q j" "0 < epp"
  shows "chain epp mem' ((p, d) # r) i D"
  using assms(1-3)
proof (induction r arbitrary: p d i D)
  case Nil
  then show ?case by (auto intro!: map_cong)
next
  case (Cons b r)
  obtain p' d' where b: "b = (p', d')" by (cases b)
  with Cons.prems obtain D' where D': "D = D' @ map (mem p) [0..<i]" "mem p' (epp - 1) = d"
      "chain epp mem ((p', d') # r) (epp - 1) D'" by auto
  have "chain epp mem' ((p', d') # r) (epp - 1) D'"
    using D'(3) by (rule Cons.IH) (use Cons.prems b in auto)
  moreover have "map (mem p) [0..<i] = map (mem' p) [0..<i]" using Cons.prems(2) by (auto intro!: map_cong)
  moreover have "mem' p' (epp - 1) = d" using D'(2) Cons.prems(3) [of p' "epp - 1"] b assms(4) by simp
  ultimately show ?case using b D'(1) by auto
qed

lemma chain_put:
  assumes "chain epp mem ((p, d) # r) i D" "p \<notin> fst ` set r" "0 < epp"
  shows "chain epp (mem(p := (mem p)(i := v))) ((p, d) # r) (Suc i) (D @ [v])"
proof -
  have *: "chain epp (mem(p := (mem p)(i := v))) ((p, d) # r) i D"
    using assms(1) by (rule chain_frame) (use assms in auto)
  show ?thesis
  proof (cases r)
    case Nil
    with * show ?thesis by simp
  next
    case (Cons b r')
    with * show ?thesis by (cases b) auto
  qed
qed

lemma chain_next:
  assumes "chain epp mem ((p, d) # r) epp D" "p \<notin> fst ` set r" "p' \<noteq> p" "p' \<notin> fst ` set r" "0 < epp"
  defines "mem1 \<equiv> mem(p' := (mem p')(0 := mem p (epp - 1)))"
  shows "chain epp (mem1(p := (mem1 p)(epp - 1 := d'))) ((p', d') # (p, d) # r) 1 D"
proof -
  let ?m = "mem1(p := (mem1 p)(epp - 1 := d'))"
  have epp: "[0..<epp] = [0..<epp - 1] @ [epp - 1]"
    using assms(5) by (cases epp) simp_all
  obtain D0 where D0: "D = D0 @ [mem p (epp - 1)]" "chain epp mem ((p, d) # r) (epp - 1) D0"
  proof (cases r)
    case Nil
    with assms(1) that [of "map (mem p) [0..<epp - 1]"] show ?thesis by (simp add: epp)
  next
    case (Cons b r')
    obtain q e where b: "b = (q, e)" by (cases b)
    with assms(1) Cons obtain D' where "D = D' @ map (mem p) [0..<epp]" "mem q (epp - 1) = d"
        "chain epp mem ((q, e) # r') (epp - 1) D'" by auto
    with that [of "D' @ map (mem p) [0..<epp - 1]"] show ?thesis by (auto simp: Cons b epp)
  qed
  have "chain epp ?m ((p, d) # r) (epp - 1) D0"
    using D0(2) by (rule chain_frame) (use assms in \<open>auto simp: mem1_def\<close>)
  then show ?thesis using assms(3) D0(1) by (auto simp: mem1_def)
qed

lemma walk_data:
  "i + n \<le> epp \<Longrightarrow> prp_walk epp rd n d i = map (rd d) [i..<i + n]"
proof (induction n arbitrary: i)
  case 0
  then show ?case by (subst prp_walk.simps) simp
next
  case (Suc n)
  have "map (rd d) [i..<i + Suc n] = rd d i # map (rd d) [Suc i..<Suc i + n]"
    by (simp add: upt_conv_Cons del: upt_Suc)
  with Suc show ?case by (subst prp_walk.simps) auto
qed

lemma walk_link:
  assumes "2 \<le> epp" "2 \<le> n" "i < epp"
  shows "prp_walk epp rd (epp - 1 - i + n) d i = map (rd d) [i..<epp - 1] @ prp_walk epp rd n (rd d (epp - 1)) 0"
  using assms(3)
proof (induction "epp - 1 - i" arbitrary: i)
  case 0
  then have "i = epp - 1" by simp
  with assms show ?case by (subst prp_walk.simps) simp
next
  case (Suc k)
  then have "k = epp - 1 - Suc i" "Suc i < epp" by simp_all
  with Suc.hyps(1) [of "Suc i"] Suc.hyps(2)
  have IH: "prp_walk epp rd (k + n) d (Suc i) = map (rd d) [Suc i..<epp - 1] @ prp_walk epp rd n (rd d (epp - 1)) 0"
    by simp
  have "epp - 1 - i + n = Suc (k + n)" "Suc i \<noteq> epp" "i < epp - 1" using Suc by simp_all
  then show ?case using assms(2) IH by (subst prp_walk.simps) (simp add: upt_conv_Cons)
qed

lemma chain_walk:
  assumes "chain epp mem ((p, d) # r) i (D0 @ map (mem p) [0..<i])" "2 \<le> epp" "2 \<le> n \<or> r = []"
    and "\<And>q e. (q, e) \<in> set r \<Longrightarrow> rd e = mem q"
  shows "prp_walk epp rd (length D0 + n) (snd (last ((p, d) # r))) 0 = D0 @ prp_walk epp rd n d 0"
  using assms(1,3,4)
proof (induction r arbitrary: p d i D0 n)
  case Nil
  then show ?case by simp
next
  case (Cons b r)
  obtain q e where b: "b = (q, e)" by (cases b)
  from Cons.prems b have D0: "mem q (epp - 1) = d" "chain epp mem ((q, e) # r) (epp - 1) D0" by auto
  obtain D1 where D1: "D0 = D1 @ map (mem q) [0..<epp - 1]"
    using D0(2) by (cases r) auto
  have rd: "rd e = mem q" using Cons.prems(3) b by simp
  have "prp_walk epp rd (length D1 + (epp - 1 + n)) (snd (last ((q, e) # r))) 0 = D1 @ prp_walk epp rd (epp - 1 + n) e 0"
    using Cons.IH [of q e "epp - 1" D1 "epp - 1 + n"] D0(2) D1 Cons.prems(2,3) assms(2) b by auto
  moreover have "prp_walk epp rd (epp - 1 + n) e 0 = map (mem q) [0..<epp - 1] @ prp_walk epp rd n d 0"
    using walk_link [of epp n 0 rd e] assms(2) Cons.prems(2) rd D0(1) by simp
  ultimately show ?case using D1 b by (simp add: add.assoc)
qed

lemma chain_pages:
  assumes "chain epp mem cs i D" "2 \<le> epp" "i \<le> epp" "2 \<le> i \<or> tl cs = []"
    and "\<And>q e. (q, e) \<in> set cs \<Longrightarrow> rd e = mem q"
  shows "prp_walk epp rd (length D) (snd (last cs)) 0 = D"
proof -
  obtain p d r where cs: "cs = (p, d) # r" using assms(1) by (cases cs) auto
  obtain D0 where D0: "D = D0 @ map (mem p) [0..<i]"
    using assms(1) cs by (cases r) auto
  have "prp_walk epp rd (length D0 + i) (snd (last cs)) 0 = D0 @ prp_walk epp rd i d 0"
    using chain_walk [of epp mem p d r i D0 i rd] assms cs D0 by auto
  moreover have "prp_walk epp rd i d 0 = map (mem p) [0..<i]"
    using walk_data [of 0 i epp rd d] assms(3) assms(5) [of p d] cs by simp
  ultimately show ?thesis using D0 by simp
qed

lemma round_up_step: "0 < l \<Longrightarrow> nat (DIV_ROUND_UP l (psz sh)) = Suc (nat (DIV_ROUND_UP (l - psz sh) (psz sh)))"
proof -
  assume "0 < l"
  have "(l + psz sh - 1) div psz sh = (l - 1) div psz sh + 1"
    using psz_pos [of sh] by (metis add.commute add_diff_eq div_add_self1 diff_add_eq int_ops(3) of_nat_0_less_iff less_irrefl)
  moreover have "0 \<le> (l - 1) div psz sh" using \<open>0 < l\<close> by (intro div_int_pos_iff [THEN iffD2]) simp
  ultimately show ?thesis by (simp add: DIV_ROUND_UP_def nat_add_distrib)
qed

lemma round_up_none: "l \<le> 0 \<Longrightarrow> nat (DIV_ROUND_UP l (psz sh)) = 0"
proof -
  assume "l \<le> 0"
  then have "(l + psz sh - 1) div psz sh \<le> (psz sh - 1) div psz sh" by (intro zdiv_mono1) simp_all
  also have "\<dots> = 0" by (simp add: div_pos_pos_trivial)
  finally show ?thesis by (simp add: DIV_ROUND_UP_def)
qed

lemma run_pages_step: "0 < l \<Longrightarrow> run_pages sh (a, l) = a # run_pages sh (a + of_nat (NVME_CTRL_PAGE_SIZE sh), l - psz sh)"
  by (simp add: run_pages_def round_up_step upt_conv_Cons map_Suc_upt [symmetric] algebra_simps del: upt_Suc)

lemma run_pages_none: "l \<le> 0 \<Longrightarrow> run_pages sh (a, l) = []"
  by (simp add: run_pages_def round_up_none)

lemma whole_runs_pos: "whole_runs sh ((a, l) # sgs) \<Longrightarrow> 0 < l"
  by (cases sgs) auto

lemma whole_runs_sum: "whole_runs sh rs \<Longrightarrow> 0 \<le> sum_list (map snd rs)"
  by (induction sh rs rule: whole_runs.induct) auto

lemma whole_runs_sum_pos: "whole_runs sh rs \<Longrightarrow> rs \<noteq> [] \<Longrightarrow> 0 < sum_list (map snd rs)"
  by (induction sh rs rule: whole_runs.induct) auto

lemma whole_runs_advance:
  "whole_runs sh ((a, l) # sgs) \<Longrightarrow> psz sh < l \<Longrightarrow> whole_runs sh ((a', l - psz sh) # sgs)"
  by (cases sgs) auto

lemma whole_runs_tail: "whole_runs sh (r # sgs) \<Longrightarrow> whole_runs sh sgs"
  by (cases r; cases sgs) auto

lemma whole_runs_short: "whole_runs sh ((a, l) # sgs) \<Longrightarrow> l < psz sh \<Longrightarrow> sgs = []"
  by (cases sgs) (auto dest: zdvd_imp_le)

text \<open>The loop's invariant: the lists so far are a chain of outstanding allocations that the iod's array,
  count and first address describe; \<open>h0\<close> is the history before the first of them was allocated.\<close>

definition building where
  "building sh pool h0 w cs i D \<longleftrightarrow> chain (entries_per_page sh) (prp_mem (drv w)) cs i D
     \<and> distinct (map fst cs) \<and> distinct (map snd cs) \<and> set cs \<subseteq> live (hist w)
     \<and> i \<le> entries_per_page sh \<and> first_dma (drv w) = snd (last cs)
     \<and> (\<forall>j < length cs. iod_list (drv w) j = fst (rev cs ! j))
     \<and> (if pool = prp_page_pool then npages (drv w) = int (length cs) else npages (drv w) = 0 \<and> length cs = 1)
     \<and> pool_allocs (hist w) = pool_allocs h0 @ map (Pair pool) (rev cs) \<and> pool_frees (hist w) = pool_frees h0"

lemma live_append [simp]: "live (h @ [e]) = live_step e (live h)"
  by (simp add: live_def)

lemma pool_log_append [simp]:
  "pool_allocs (h @ k) = pool_allocs h @ pool_allocs k" "pool_frees (h @ k) = pool_frees h @ pool_frees k"
  by (simp_all add: pool_allocs_def pool_frees_def)

lemma pool_log_simps [simp]:
  "pool_allocs [] = []" "pool_frees [] = []"
  "pool_allocs ((q, r) # h) = (case q of DmaPoolAlloc pool \<Rightarrow> if fst r = 0 then [] else [(pool, r)] | _ \<Rightarrow> []) @ pool_allocs h"
  "pool_frees ((q, r) # h) = (case q of DmaPoolFree pool p d \<Rightarrow> [(pool, p, d)] | _ \<Rightarrow> []) @ pool_frees h"
  by (simp_all add: pool_allocs_def pool_frees_def)

lemma put_prp_simps [simp]:
  "prp_mem (put_prp p i v iod) = (prp_mem iod)(p := (prp_mem iod p)(i := v))"
  "npages (put_prp p i v iod) = npages iod" "first_dma (put_prp p i v iod) = first_dma iod"
  "iod_list (put_prp p i v iod) = iod_list iod" "dma_len (put_prp p i v iod) = dma_len iod"
  "nents (put_prp p i v iod) = nents iod" "sg (put_prp p i v iod) = sg iod"
  by (simp_all add: put_prp_def)

lemma building_put:
  assumes "building sh pool h0 w ((p, d) # r) i D" "i < entries_per_page sh"
  shows "building sh pool h0 (w\<lparr>drv := put_prp p i v (drv w)\<rparr>) ((p, d) # r) (Suc i) (D @ [v])"
  using assms chain_put [of "entries_per_page sh" "prp_mem (drv w)" p d r i D v]
  by (auto simp: building_def)

lemma building_next:
  assumes "building sh pool h0 w ((p, d) # r) (entries_per_page sh) D" "pool = prp_page_pool" "0 < entries_per_page sh"
    and "p' \<noteq> 0" "p' \<notin> fst ` live (hist w)" "d' \<notin> snd ` live (hist w)"
    and "hist w' = hist w @ [(DmaPoolAlloc pool, (p', d'))]"
    and "drv w' = put_prp p (entries_per_page sh - 1) d' (put_prp p' 0 (prp_mem (drv w) p (entries_per_page sh - 1))
        ((drv w)\<lparr>iod_list := (iod_list (drv w))(nat (npages (drv w)) := p'), npages := npages (drv w) + 1\<rparr>))"
  shows "building sh pool h0 w' ((p', d') # (p, d) # r) (Suc 0) D"
proof -
  have live: "set ((p, d) # r) \<subseteq> live (hist w)" using assms(1) by (simp add: building_def)
  then have "fst ` set ((p, d) # r) \<subseteq> fst ` live (hist w)" "snd ` set ((p, d) # r) \<subseteq> snd ` live (hist w)" by blast+
  then have p': "p' \<noteq> p" "p' \<notin> fst ` set r" "d' \<notin> snd ` set ((p, d) # r)" using assms(5,6) by auto
  have "chain (entries_per_page sh) (prp_mem (drv w')) ((p', d') # (p, d) # r) 1 D"
    using chain_next [of "entries_per_page sh" "prp_mem (drv w)" p d r D p' d'] assms(1,3) p'
    by (simp add: building_def assms(8))
  moreover have "iod_list (drv w') j = fst (rev ((p', d') # (p, d) # r) ! j)" if "j < length ((p', d') # (p, d) # r)" for j
    using assms(1,2) that by (auto simp: building_def assms(8) nth_append less_Suc_eq)
  ultimately show ?thesis
    using assms(1-4) p' live by (auto simp: building_def assms(7,8))
qed

lemma next_list_builds:
  assumes "building sh pool h0 w ((p, d) # r) i D" "pool_ok E" "2 \<le> entries_per_page sh"
    and "pool = prp_page_pool \<or> i < entries_per_page sh" "2 \<le> i \<or> r = []"
  shows "wp (prp_next_list sh E pool p i) (\<lambda>res w'. case res of
      None \<Rightarrow> pool = prp_page_pool \<and> building sh pool h0 w' ((p, d) # r) i D
    | Some (p1, i1) \<Rightarrow> \<exists>d1 r1. building sh pool h0 w' ((p1, d1) # r1) i1 D \<and> i1 < entries_per_page sh
        \<and> (1 \<le> i1 \<or> r1 = []) \<and> (pool = prp_page_pool \<or> i1 = i)) w"
proof (cases "i = entries_per_page sh")
  case False
  with assms(1,5) show ?thesis by (auto simp: prp_next_list_def wp_simps building_def)
next
  case True
  have pool: "pool = prp_page_pool" using True assms(4) by simp
  obtain p1 d1 where e: "E (hist w) (DmaPoolAlloc pool) = (p1, d1)" by (cases "E (hist w) (DmaPoolAlloc pool)")
  show ?thesis
  proof (cases "p1 = 0")
    case z: True
    have "building sh pool h0 (w\<lparr>hist := hist w @ [(DmaPoolAlloc pool, 0, d1)]\<rparr>) ((p, d) # r) i D"
      using assms(1) pool by (simp add: building_def)
    then show ?thesis using pool True z e by (simp add: prp_next_list_def wp_simps)
  next
    case nz: False
    then have f: "p1 \<notin> fst ` live (hist w)" "d1 \<notin> snd ` live (hist w)"
      using assms(2) e unfolding pool_ok_def by blast+
    have b: "building sh prp_page_pool h0 w ((p, d) # r) (entries_per_page sh) D" using assms(1) True pool by simp
    have epp: "0 < entries_per_page sh" using assms(3) by simp
    show ?thesis
      using pool True nz e assms(3)
      by (simp add: prp_next_list_def wp_simps)
        (intro exI [of _ d1] exI [of _ "(p, d) # r"], rule building_next [OF b refl epp nz f], simp_all)
  qed
qed

lemma free_prps_from_frees:
  assumes "\<And>j. j < length is \<Longrightarrow> iod_list (drv w) (is ! j) = fst (ps ! j)" "length ps = length is"
    and "\<And>j. Suc j < length is \<Longrightarrow> prp_mem (drv w) (fst (ps ! j)) (entries_per_page sh - 1) = snd (ps ! Suc j)"
    and "ps \<noteq> [] \<Longrightarrow> dma_addr = snd (hd ps)"
  shows "wp (free_prps_from sh E is dma_addr) (\<lambda>_ w'. drv w' = drv w
    \<and> pool_frees (hist w') = pool_frees (hist w) @ map (Pair prp_page_pool) ps
    \<and> pool_allocs (hist w') = pool_allocs (hist w)) w"
  using assms
proof (induction "is" arbitrary: w ps dma_addr)
  case Nil
  then show ?case by (simp add: wp_simps)
next
  case (Cons i "is")
  then obtain p d ps' where ps: "ps = (p, d) # ps'" by (cases ps) auto
  have i: "iod_list (drv w) i = p" "dma_addr = d" using Cons.prems(1) [of 0] Cons.prems(4) ps by simp_all
  have nxt: "ps' \<noteq> [] \<Longrightarrow> prp_mem (drv w) p (entries_per_page sh - 1) = snd (hd ps')"
    using Cons.prems(2) Cons.prems(3) [of 0] ps by (cases ps'; cases "is") auto
  show ?case
    unfolding free_prps_from.simps
  proof (intro wp_intros)
    fix r assume "answers E (hist w) (DmaPoolFree prp_page_pool (iod_list (drv w) i) dma_addr) r"
    let ?w = "w\<lparr>hist := hist w @ [(DmaPoolFree prp_page_pool (iod_list (drv w) i) dma_addr, r)]\<rparr>"
    show "wp (free_prps_from sh E is (prp_mem (drv w) (iod_list (drv w) i) (entries_per_page sh - 1)))
        (\<lambda>_ w'. drv w' = drv w
          \<and> pool_frees (hist w') = pool_frees (hist w) @ map (Pair prp_page_pool) ps
          \<and> pool_allocs (hist w') = pool_allocs (hist w)) ?w"
    proof (rule wp_mono [OF Cons.IH [of ?w ps']])
      fix j assume "j < length is"
      then show "iod_list (drv ?w) (is ! j) = fst (ps' ! j)" using Cons.prems(1) [of "Suc j"] ps by simp
    next
      fix j assume "Suc j < length is"
      then show "prp_mem (drv ?w) (fst (ps' ! j)) (entries_per_page sh - 1) = snd (ps' ! Suc j)"
        using Cons.prems(3) [of "Suc j"] ps by simp
    qed (use Cons.prems(2) ps i nxt in auto)
  qed
qed

lemma chain_links:
  assumes "chain epp mem cs i D" "Suc j < length cs"
  shows "mem (fst (rev cs ! j)) (epp - 1) = snd (rev cs ! Suc j)"
  using assms
proof (induction epp mem cs i D arbitrary: j rule: chain.induct)
  case (3 epp mem p d p' d' r i D)
  from "3.prems"(1) obtain D' where D': "mem p' (epp - 1) = d" "chain epp mem ((p', d') # r) (epp - 1) D'" by auto
  show ?case
  proof (cases "Suc j < length ((p', d') # r)")
    case True
    with "3.IH" [OF D'(2) True] show ?thesis by (auto simp: nth_append less_Suc_eq)
  next
    case False
    with "3.prems"(2) have "j = length r" by simp
    with D'(1) show ?thesis by (simp add: nth_append)
  qed
qed auto

lemma building_freed:
  assumes "building sh prp_page_pool h0 w cs i D"
  shows "wp (apple_nvme_free_prps sh E) (\<lambda>_ w'. drv w' = drv w
    \<and> pool_frees (hist w') = pool_frees h0 @ map (Pair prp_page_pool) (rev cs)
    \<and> pool_allocs (hist w') = pool_allocs h0 @ map (Pair prp_page_pool) (rev cs)) w"
proof -
  have b: "npages (drv w) = int (length cs)" "first_dma (drv w) = snd (last cs)" "cs \<noteq> []"
      "\<forall>j < length cs. iod_list (drv w) j = fst (rev cs ! j)" "chain (entries_per_page sh) (prp_mem (drv w)) cs i D"
      "pool_allocs (hist w) = pool_allocs h0 @ map (Pair prp_page_pool) (rev cs)" "pool_frees (hist w) = pool_frees h0"
    using assms by (auto simp: building_def)
  show ?thesis
    unfolding apple_nvme_free_prps_def
    by (intro wp_intros wp_mono [OF free_prps_from_frees [where ps = "rev cs"]])
      (use b chain_links [OF b(5)] in \<open>auto simp: hd_rev\<close>)
qed

lemma one_page:
  assumes "whole_runs sh ((a, l) # sgs)" "l + sum_list (map snd sgs) \<le> psz sh"
  shows "pages sh ((a, l) # sgs) = [a]"
proof -
  have l: "0 < l" by (rule whole_runs_pos [OF assms(1)])
  have "sgs = []"
  proof (rule ccontr)
    assume "sgs \<noteq> []"
    then have "0 < sum_list (map snd sgs)" by (rule whole_runs_sum_pos [OF whole_runs_tail [OF assms(1)]])
    with whole_runs_short [OF assms(1)] assms(2) \<open>sgs \<noteq> []\<close> show False by force
  qed
  with assms(2) l show ?thesis by (simp add: pages_def run_pages_step run_pages_none)
qed

text \<open>The outcome of the loop: the chain holds the pages, or the allocation failed and all is freed again.\<close>

definition built where
  "built sh pool h0 sts w D \<longleftrightarrow> (case sts of
       BLK_STS_OK \<Rightarrow> \<exists>cs i. building sh pool h0 w cs i D \<and> (2 \<le> i \<or> tl cs = [])
     | BLK_STS_RESOURCE \<Rightarrow> \<exists>new. pool_allocs (hist w) = pool_allocs h0 @ new \<and> pool_frees (hist w) = pool_frees h0 @ new
     | _ \<Rightarrow> False)"

lemma loop_builds:
  assumes "building sh pool h0 w ((p, d) # r) i D" "pool_ok E" "2 \<le> entries_per_page sh" "2 \<le> i \<or> r = []"
    and "whole_runs sh ((addr, len) # sgs)" "left = len + sum_list (map snd sgs)"
    and "pool = prp_page_pool \<or> i + nat (DIV_ROUND_UP left (psz sh)) \<le> entries_per_page sh"
  shows "wp (setup_prps_loop sh E pool sgs addr len left p i) (\<lambda>sts w'.
    built sh pool h0 sts w' (D @ pages sh ((addr, len) # sgs))) w"
  using assms
proof (induction "nat left" arbitrary: w p d r i D sgs addr len left rule: less_induct)
  case less
  let ?P = "psz sh"
  note b = less.prems(1) and runs = less.prems(5) and left = less.prems(6)
  have len: "0 < len" and rest: "0 \<le> sum_list (map snd sgs)"
    using whole_runs_pos [OF runs] whole_runs_sum [OF whole_runs_tail [OF runs]] by simp_all
  have room: "pool = prp_page_pool \<or> i < entries_per_page sh"
    using less.prems(7) round_up_step [of left sh] len rest left by auto
  show ?case
    unfolding setup_prps_loop.simps [of sh E pool sgs addr len left p i] wp_bind
  proof (rule wp_mono [OF next_list_builds [OF b less.prems(2,3) room less.prems(4)]], goal_cases)
    case (1 res v)
    show ?case
    proof (cases res)
      case None
      with 1 have v: "pool = prp_page_pool" "building sh prp_page_pool h0 v ((p, d) # r) i D" by auto
      show ?thesis
        unfolding None option.case
        by (intro wp_intros wp_mono [OF building_freed [OF v(2)]]) (auto simp: built_def v(1))
    next
      case (Some pi)
      obtain p1 i1 where pi: "pi = (p1, i1)" by (cases pi)
      with 1 Some obtain d1 r1 where v: "building sh pool h0 v ((p1, d1) # r1) i1 D" "i1 < entries_per_page sh"
          "1 \<le> i1 \<or> r1 = []" "pool = prp_page_pool \<or> i1 = i" by auto
      let ?v = "v\<lparr>drv := put_prp p1 i1 addr (drv v)\<rparr>"
      have v': "building sh pool h0 ?v ((p1, d1) # r1) (Suc i1) (D @ [addr])" by (rule building_put [OF v(1,2)])
      have i1: "2 \<le> Suc i1 \<or> r1 = []" using v(3) by auto
      have more: "pool = prp_page_pool \<or> Suc i1 + nat (DIV_ROUND_UP (left - ?P) ?P) \<le> entries_per_page sh"
        using less.prems(7) v(4) round_up_step [of left sh] len rest left by auto
      have dec: "nat (left - ?P) < nat left" using len rest left psz_pos [of sh] by linarith
      have IH: "wp (setup_prps_loop sh E pool sgs' a l (left - ?P) p1 (Suc i1)) (\<lambda>sts w'.
          built sh pool h0 sts w' ((D @ [addr]) @ pages sh ((a, l) # sgs'))) ?v"
        if "whole_runs sh ((a, l) # sgs')" "left - ?P = l + sum_list (map snd sgs')" for a l sgs'
        by (rule less.hyps [OF dec v' less.prems(2,3) i1 that more])
      have ends: "pages sh ((addr, len) # sgs) = [addr]" if "left \<le> ?P"
        using that one_page [OF runs] left by simp
      show ?thesis
        unfolding Some pi option.case prod.case
      proof (intro wp_intros, goal_cases)
        case 1
        then have "pages sh ((addr, len) # sgs) = [addr]" using ends by simp
        with v' i1 show ?case
          by (simp add: built_def) (intro exI [of _ "(p1, d1) # r1"] exI [of _ "Suc i1"], auto)
      next
        case 2
        with IH [of "addr + of_nat (NVME_CTRL_PAGE_SIZE sh)" "len - ?P" sgs] runs left len
        show ?case by (simp add: whole_runs_advance pages_def run_pages_step)
      next
        case (3 rr)
        then have "sgs = []" using whole_runs_short [OF runs] by simp
        with 3 left show ?case by simp
      next
        case 4
        then have l: "len = ?P" by simp
        with 4 left obtain a l' sgs' where sgs: "sgs = (a, l') # sgs'" by (cases sgs) auto
        with IH [of a l' sgs'] whole_runs_tail [OF runs] left l len
        show ?case by (simp add: pages_def run_pages_step run_pages_none)
      qed
    qed
  qed
qed



lemma round_up_add: "nat (DIV_ROUND_UP (k * psz sh + l) (psz sh)) = nat (k + DIV_ROUND_UP l (psz sh))"
proof -
  have "(k * psz sh + l + psz sh - 1) div psz sh = k + (l + psz sh - 1) div psz sh"
    using div_mult_self1 [of "psz sh" "l + psz sh - 1" k] by (simp add: algebra_simps)
  then show ?thesis by (simp add: DIV_ROUND_UP_def)
qed

lemma round_up_nonneg: "0 < l \<Longrightarrow> 0 \<le> DIV_ROUND_UP l (psz sh)"
  using psz_pos [of sh] by (auto simp: DIV_ROUND_UP_def pos_imp_zdiv_nonneg_iff)

lemma length_pages:
  "whole_runs sh rs \<Longrightarrow> length (pages sh rs) = nat (DIV_ROUND_UP (sum_list (map snd rs)) (psz sh))"
proof (induction sh rs rule: whole_runs.induct)
  case (1 sh)
  then show ?case by (simp add: pages_def round_up_none)
next
  case (2 sh a l)
  then show ?case by (simp add: pages_def run_pages_def)
next
  case (3 sh a l r rs)
  then obtain k where k: "l = k * psz sh" by (metis mult.commute mod_0_imp_dvd dvdE whole_runs.simps(3))
  have pos: "0 < sum_list (map snd (r # rs))" using 3 by (intro whole_runs_sum_pos) auto
  have "0 < k" using 3 k psz_pos [of sh] by (simp add: zero_less_mult_iff)
  have "nat (DIV_ROUND_UP l (psz sh)) = nat k"
    using round_up_add [of k sh 0] round_up_none [of 0 sh] k by (simp add: DIV_ROUND_UP_def)
  with 3 k round_up_add [of k sh "sum_list (map snd (r # rs))"] round_up_nonneg [OF pos, of sh] \<open>0 < k\<close>
  show ?case by (simp add: pages_def run_pages_def nat_add_distrib)
qed

lemma offset_bound: "int (unat (a AND mask sh)) < psz sh"
proof -
  have "a AND mask sh = take_bit sh a" by (simp add: take_bit_eq_mask)
  moreover have "unat (take_bit sh a) = take_bit sh (unat a)" by (rule unsigned_take_bit_eq)
  ultimately show ?thesis by (simp add: NVME_CTRL_PAGE_SIZE_def take_bit_nat_less_exp)
qed

lemma epp_large: "8 \<le> sh \<Longrightarrow> 32 \<le> entries_per_page sh"
proof -
  assume "8 \<le> sh"
  then have "(2 :: nat) ^ 8 \<le> 2 ^ sh" by (rule power_increasing) simp
  then show ?thesis by (simp add: entries_per_page_def NVME_CTRL_PAGE_SIZE_def)
qed

lemma lists_built:
  assumes "pool_ok E" "8 \<le> sh" "whole_runs sh ((addr, len) # sgs)" "left = len + sum_list (map snd sgs)"
    and "npages (drv w) = - 1"
  shows "wp (setup_prps_lists sh E sgs addr len left) (\<lambda>sts w'. \<exists>pool.
    built sh pool (hist w) sts w' (pages sh ((addr, len) # sgs))) w"
proof -
  let ?n = "DIV_ROUND_UP left (psz sh)"
  define pool where "pool = (if ?n \<le> 256 div 8 then prp_small_pool else prp_page_pool)"
  obtain p d where e: "E (hist w) (DmaPoolAlloc pool) = (p, d)" by (cases "E (hist w) (DmaPoolAlloc pool)")
  show ?thesis
  proof (cases "p = 0")
    case True
    then show ?thesis
      using e by (simp add: setup_prps_lists_def wp_simps pool_def built_def)
  next
    case False
    then have fresh: "p \<notin> fst ` live (hist w)" "d \<notin> snd ` live (hist w)" using assms(1) e unfolding pool_ok_def by blast+
    let ?w = "w\<lparr>hist := hist w @ [(DmaPoolAlloc pool, p, d)],
        drv := (drv w)\<lparr>npages := (if ?n \<le> 256 div 8 then 0 else 1), iod_list := (iod_list (drv w))(0 := p), first_dma := d\<rparr>\<rparr>"
    have b: "building sh pool (hist w) ?w [(p, d)] 0 []"
      using False by (auto simp: building_def pool_def)
    have room: "pool = prp_page_pool \<or> 0 + nat ?n \<le> entries_per_page sh"
      using epp_large [OF assms(2)] by (auto simp: pool_def)
    have "2 \<le> entries_per_page sh" using epp_large [OF assms(2)] by simp
    from loop_builds [OF b assms(1) this _ assms(3,4) room]
    have "wp (setup_prps_loop sh E pool sgs addr len left p 0) (\<lambda>sts w'. built sh pool (hist w) sts w' (pages sh ((addr, len) # sgs))) ?w"
      by simp
    then have "wp (setup_prps_loop sh E pool sgs addr len left p 0) (\<lambda>sts w'. \<exists>pool. built sh pool (hist w) sts w' (pages sh ((addr, len) # sgs))) ?w"
      by (rule wp_mono) blast
    then show ?thesis
      using False e by (cases "?n \<le> 32") (simp_all add: setup_prps_lists_def wp_simps pool_def)
  qed
qed

text \<open>The cases of the set-up: a transfer within one page, within two, and with lists.\<close>

lemma first_positive: "0 < psz sh - int (unat (a AND mask sh))"
  using offset_bound [of a sh] by simp

lemma good_sgl_cases:
  assumes "good_sgl sh req"
  obtains a l sgs where "rq_sgl req = (a, l) # sgs" "0 < l" "l + sum_list (map snd sgs) = rq_payload_bytes req"
    "l \<le> psz sh - int (unat (a AND mask sh)) \<and> sgs = [] \<or>
     psz sh - int (unat (a AND mask sh)) \<le> l \<and> whole_runs sh (tail_runs sh ((a, l) # sgs)) \<and> tail_runs sh ((a, l) # sgs) \<noteq> []"
  using assms
  by (cases "rq_sgl req") (auto simp: good_sgl_def Let_def tail_runs_def split: if_splits)

lemma tail_sum:
  assumes "psz sh - int (unat (a AND mask sh)) \<le> l"
  shows "sum_list (map snd (tail_runs sh ((a, l) # sgs))) = l + sum_list (map snd sgs) - (psz sh - int (unat (a AND mask sh)))"
  by (simp add: tail_runs_def Let_def)

definition set_up where
  "set_up sh h0 a0 tail sts w \<longleftrightarrow> (case sts of
      BLK_STS_OK \<Rightarrow> prp1 (drv w) = a0 \<and> prp2 (drv w) = first_dma (drv w)
        \<and> (tail = [] \<and> npages (drv w) = - 1 \<and> pool_allocs (hist w) = pool_allocs h0 \<and> pool_frees (hist w) = pool_frees h0
           \<or> (\<exists>a. pages sh tail = [a] \<and> first_dma (drv w) = a \<and> npages (drv w) = - 1
               \<and> pool_allocs (hist w) = pool_allocs h0 \<and> pool_frees (hist w) = pool_frees h0)
           \<or> psz sh < sum_list (map snd tail) \<and> (\<exists>pool cs i. building sh pool h0 w cs i (pages sh tail) \<and> (2 \<le> i \<or> tl cs = [])))
    | BLK_STS_RESOURCE \<Rightarrow> \<exists>new. pool_allocs (hist w) = pool_allocs h0 @ new \<and> pool_frees (hist w) = pool_frees h0 @ new
    | _ \<Rightarrow> False)"

lemma building_done:
  "building sh pool h0 w cs i D \<Longrightarrow> building sh pool h0 (w\<lparr>drv := (drv w)\<lparr>prp1 := a, prp2 := b\<rparr>\<rparr>) cs i D"
  by (simp add: building_def)

lemma built_done:
  assumes "built sh pool h0 sts w (pages sh tail)" "psz sh < sum_list (map snd tail)"
  shows "wp (if sts = BLK_STS_OK then setup_prps_done a else return sts) (set_up sh h0 a tail) w"
proof (cases sts)
  case BLK_STS_OK
  with assms(1) obtain cs i where b: "building sh pool h0 w cs i (pages sh tail)" "2 \<le> i \<or> tl cs = []"
    by (auto simp: built_def)
  have "building sh pool h0 (w\<lparr>drv := (drv w)\<lparr>prp1 := a, prp2 := first_dma (drv w)\<rparr>\<rparr>) cs i (pages sh tail)"
    by (rule building_done [OF b(1)])
  with assms(2) b(2) BLK_STS_OK show ?thesis
    by (simp add: setup_prps_done_def wp_simps set_up_def) blast
qed (use assms in \<open>auto simp: built_def set_up_def wp_simps\<close>)

lemma setup_prps_sets_up:
  assumes "good_sgl sh req" "pool_ok E" "8 \<le> sh" "npages (drv w) = - 1"
  shows "wp (apple_nvme_setup_prps sh E req) (\<lambda>sts w'.
    set_up sh (hist w) (fst (hd (rq_sgl req)))
      (if rq_payload_bytes req \<le> psz sh - int (unat (fst (hd (rq_sgl req)) AND mask sh)) then [] else tail_runs sh (rq_sgl req)) sts w') w"
proof -
  obtain a l sgs where s: "rq_sgl req = (a, l) # sgs" "0 < l" "l + sum_list (map snd sgs) = rq_payload_bytes req"
    "l \<le> psz sh - int (unat (a AND mask sh)) \<and> sgs = [] \<or>
     psz sh - int (unat (a AND mask sh)) \<le> l \<and> whole_runs sh (tail_runs sh ((a, l) # sgs)) \<and> tail_runs sh ((a, l) # sgs) \<noteq> []"
    using good_sgl_cases [OF assms(1)] by blast
  define first where "first = psz sh - int (unat (a AND mask sh))"
  define left where "left = rq_payload_bytes req - first"
  show ?thesis
  proof (cases "left \<le> 0")
    case True
    then show ?thesis
      using s(1) assms(4)
      by (simp add: apple_nvme_setup_prps_def setup_prps_done_def wp_simps set_up_def left_def first_def)
  next
    case False
    then have big: "\<not> (l \<le> first \<and> sgs = [])" using s(3) by (auto simp: left_def)
    then have f: "first \<le> l" "whole_runs sh (tail_runs sh ((a, l) # sgs))" "tail_runs sh ((a, l) # sgs) \<noteq> []"
      using s(4) by (auto simp: first_def)
    obtain addr len sgs' where t: "tail_runs sh ((a, l) # sgs) = (addr, len) # sgs'" using f(3) by (metis list.exhaust surj_pair)
    have nxt: "(if l - first \<noteq> 0 then Some (a + of_int first, l - first, sgs)
        else case sgs of [] \<Rightarrow> None | (a, l) # sgs' \<Rightarrow> Some (a, l, sgs')) = Some (addr, len, sgs')"
      using t by (auto simp: tail_runs_def Let_def first_def split: if_splits list.splits)
    have left: "left = len + sum_list (map snd sgs')"
      using tail_sum [of sh a l sgs] f(1) t s(3) by (simp add: left_def first_def)
    have tl: "(if rq_payload_bytes req \<le> psz sh - int (unat (fst (hd (rq_sgl req)) AND mask sh)) then [] else tail_runs sh (rq_sgl req))
        = (addr, len) # sgs'" and hd: "fst (hd (rq_sgl req)) = a"
      using False t s(1) by (auto simp: left_def first_def)
    note run = apple_nvme_setup_prps_def s(1) list.case prod.case Let_def first_def [symmetric] left_def [symmetric] nxt option.case
    show ?thesis
    proof (cases "left \<le> psz sh")
      case True
      with one_page [of sh addr len sgs'] f(2) t left False assms(4) show ?thesis
        unfolding tl unfolding hd unfolding run by (simp add: setup_prps_done_def wp_simps set_up_def)
    next
      case big: False
      have "wp (setup_prps_lists sh E sgs' addr len left) (\<lambda>sts w'. \<exists>pool. built sh pool (hist w) sts w' (pages sh ((addr, len) # sgs'))) w"
        using lists_built [OF assms(2,3) _ left assms(4)] f(2) t by simp
      then show ?thesis
        unfolding tl unfolding hd unfolding run using False big
        by (simp only: wp_bind if_False if_True)
          (erule wp_mono, elim exE, rule built_done, simp_all add: left)
    qed
  qed
qed

lemma fits_no_tail:
  assumes "l \<le> psz sh - int (unat (a AND mask sh))"
  shows "pages sh (tail_runs sh [(a, l)]) = []"
  using assms by (simp add: tail_runs_def Let_def pages_def run_pages_none)

lemma transfer_count:
  "nat (DIV_ROUND_UP (int (unat (a AND mask sh)) + len) (psz sh))
    = nat (1 + DIV_ROUND_UP (len - (psz sh - int (unat (a AND mask sh)))) (psz sh))"
  using round_up_add [of 1 sh "len - (psz sh - int (unat (a AND mask sh)))"] by (simp add: algebra_simps)

text \<open>
  C4. A request's PRP entries describe its payload: for a scatter list as the block layer makes them,
  setting up the PRPs succeeds or reports a lack of resources, and after success the controller,
  walking the entries and the chained lists with the reader \<open>rd\<close> of the allocated list pages,
  transfers exactly the pages of the scatter list, in order.
\<close>

theorem prps_cover_payload:
  assumes "good_sgl sh req" "pool_ok E" "8 \<le> sh" "npages (drv w) = - 1"
    and "run_state (apple_nvme_setup_prps sh E req) w = (sts, w')"
    and "\<forall>p d. (p, d) \<in> live (hist w') \<longrightarrow> rd d = prp_mem (drv w') p"
  shows "sts \<in> {BLK_STS_OK, BLK_STS_RESOURCE} \<and> (sts = BLK_STS_OK \<longrightarrow>
    prp_transfer sh rd (prp1 (drv w')) (prp2 (drv w')) (rq_payload_bytes req)
      = fst (hd (rq_sgl req)) # pages sh (tail_runs sh (rq_sgl req)))"
proof -
  obtain a l sgs where s: "rq_sgl req = (a, l) # sgs" "0 < l" "l + sum_list (map snd sgs) = rq_payload_bytes req"
    "l \<le> psz sh - int (unat (a AND mask sh)) \<and> sgs = [] \<or>
     psz sh - int (unat (a AND mask sh)) \<le> l \<and> whole_runs sh (tail_runs sh ((a, l) # sgs)) \<and> tail_runs sh ((a, l) # sgs) \<noteq> []"
    using good_sgl_cases [OF assms(1)] by blast
  define first where "first = psz sh - int (unat (a AND mask sh))"
  define tail where "tail = (if rq_payload_bytes req \<le> first then [] else tail_runs sh (rq_sgl req))"
  have up: "set_up sh (hist w) a tail sts w'"
    using wpD [OF setup_prps_sets_up [OF assms(1-4)] assms(5)] s(1) by (simp add: tail_def first_def)
  have fits: "l \<le> first \<and> sgs = []" if "rq_payload_bytes req \<le> first"
    using that s(3,4) whole_runs_sum_pos [of sh "tail_runs sh ((a, l) # sgs)"] tail_sum [of sh a l sgs] by (auto simp: first_def)
  have tail_pages: "pages sh (tail_runs sh (rq_sgl req)) = pages sh tail"
  proof (cases "rq_payload_bytes req \<le> first")
    case True
    with fits have "l \<le> first \<and> sgs = []" by blast
    then show ?thesis using True s(1) fits_no_tail [of l sh a] by (simp add: tail_def first_def pages_def)
  qed (simp add: tail_def)
  have count: "nat (DIV_ROUND_UP (int (unat (a AND mask sh)) + rq_payload_bytes req) (psz sh)) = Suc (length (pages sh tail))"
  proof (cases "rq_payload_bytes req \<le> first")
    case True
    have "0 < rq_payload_bytes req" using fits [OF True] s(2,3) by simp
    then have "0 < int (unat (a AND mask sh)) + rq_payload_bytes req"
      by (rule add_nonneg_pos [OF of_nat_0_le_iff])
    then have "nat (DIV_ROUND_UP (int (unat (a AND mask sh)) + rq_payload_bytes req) (psz sh)) = Suc 0"
      using True round_up_none [of "int (unat (a AND mask sh)) + rq_payload_bytes req - psz sh" sh]
      by (simp add: round_up_step first_def)
    then show ?thesis using True by (simp add: tail_def pages_def)
  next
    case False
    then have t: "whole_runs sh tail" "sum_list (map snd tail) = rq_payload_bytes req - first"
      using s tail_sum [of sh a l sgs] by (auto simp: tail_def first_def)
    have "0 < rq_payload_bytes req - first" using False by simp
    with length_pages [OF t(1)] t(2) transfer_count [of a sh "rq_payload_bytes req"] round_up_nonneg [of "rq_payload_bytes req - first" sh]
    show ?thesis by (simp add: first_def nat_add_distrib)
  qed
  show ?thesis
  proof (cases sts)
    case BLK_STS_OK
    from up BLK_STS_OK consider "tail = []" | x where "pages sh tail = [x]" "prp2 (drv w') = x"
      | pool cs i where "building sh pool (hist w) w' cs i (pages sh tail)" "2 \<le> i \<or> tl cs = []" "psz sh < sum_list (map snd tail)"
      by (auto simp: set_up_def)
    then have "prp_transfer sh rd a (prp2 (drv w')) (rq_payload_bytes req) = a # pages sh tail"
    proof cases
      case 1
      then show ?thesis unfolding prp_transfer_def count Let_def by (simp add: pages_def)
    next
      case 2
      then show ?thesis unfolding prp_transfer_def count Let_def by simp
    next
      case 3
      have big: "1 < length (pages sh tail)"
      proof -
        have "whole_runs sh tail"
          by (cases "rq_payload_bytes req \<le> first") (use s in \<open>auto simp: tail_def first_def\<close>)
        from length_pages [OF this] 3(3) round_up_step [of "sum_list (map snd tail)" sh]
          round_up_step [of "sum_list (map snd tail) - psz sh" sh] psz_pos [of sh]
        show ?thesis by simp
      qed
      have "prp_walk (entries_per_page sh) rd (length (pages sh tail)) (snd (last cs)) 0 = pages sh tail"
        using 3(1,2) assms(6) epp_large [OF assms(3)]
        by (intro chain_pages [where i = i and mem = "prp_mem (drv w')" and cs = cs]) (auto simp: building_def)
      moreover have "prp2 (drv w') = snd (last cs)" using up BLK_STS_OK 3(1) by (auto simp: set_up_def building_def)
      ultimately show ?thesis unfolding prp_transfer_def count Let_def using big by simp
    qed
    moreover have "prp1 (drv w') = a" using up BLK_STS_OK by (simp add: set_up_def)
    ultimately show ?thesis using BLK_STS_OK s(1) tail_pages by simp
  qed (use up in \<open>simp_all add: set_up_def\<close>)
qed

text \<open>The other resources of a mapping, as the requests that give them back: the memory of the scatter
  list, its DMA mapping, and the mapping of a single page.\<close>

fun map_undo :: "prp_req \<times> nat \<times> u64 \<Rightarrow> prp_req list" where
  "map_undo (MempoolAlloc, p, _) = (if p = 0 then [] else [MempoolFree p])"
| "map_undo (DmaMapSg n, m, _) = (if m = 0 then [] else [DmaUnmapSg n])"
| "map_undo (DmaMapBvec off len, err, d) = (if err = 0 then [DmaUnmapPage d len] else [])"
| "map_undo _ = []"

fun is_undo :: "prp_req \<Rightarrow> bool" where
  "is_undo (MempoolFree _) = True"
| "is_undo (DmaUnmapSg _) = True"
| "is_undo (DmaUnmapPage _ _) = True"
| "is_undo _ = False"

definition maps_made :: "(prp_req \<times> nat \<times> u64) list \<Rightarrow> prp_req list" where
  "maps_made h = concat (map map_undo h)"

definition maps_undone :: "(prp_req \<times> nat \<times> u64) list \<Rightarrow> prp_req list" where
  "maps_undone h = filter is_undo (reqs h)"

lemma maps_simps [simp]:
  "maps_made [] = []" "maps_made (e # h) = map_undo e @ maps_made h" "maps_made (h @ k) = maps_made h @ maps_made k"
  "maps_undone [] = []" "maps_undone (h @ k) = maps_undone h @ maps_undone k"
  "maps_undone (e # h) = (if is_undo (fst e) then [fst e] else []) @ maps_undone h"
  by (simp_all add: maps_made_def maps_undone_def)

text \<open>Since \<open>h0\<close>, every PRP list allocated was freed, in order, in its pool and at its DMA address, and every
  mapping made was undone, in the reverse order.\<close>

definition settled :: "(prp_req \<times> nat \<times> u64) list \<Rightarrow> (prp_req \<times> nat \<times> u64) list \<Rightarrow> bool" where
  "settled h0 h \<longleftrightarrow> (\<exists>new. pool_allocs h = pool_allocs h0 @ new \<and> pool_frees h = pool_frees h0 @ new)
     \<and> (\<exists>new. maps_made h = maps_made h0 @ new \<and> maps_undone h = maps_undone h0 @ rev new)"

text \<open>What the PRP lists do not touch.\<close>

definition prp_frame where
  "prp_frame w w' \<longleftrightarrow> maps_made (hist w') = maps_made (hist w) \<and> maps_undone (hist w') = maps_undone (hist w)
     \<and> nents (drv w') = nents (drv w) \<and> sg (drv w') = sg (drv w) \<and> dma_len (drv w') = dma_len (drv w)"

lemma free_prps_frame: "wp (free_prps_from sh E is d) (\<lambda>_ w'. prp_frame w w') w"
proof (induction "is" arbitrary: w d)
  case Nil
  then show ?case by (simp add: wp_simps prp_frame_def)
next
  case (Cons i "is")
  show ?case
    unfolding free_prps_from.simps by (intro wp_intros wp_mono [OF Cons.IH]) (simp add: prp_frame_def)
qed

lemma next_list_frame: "wp (prp_next_list sh E pool p i) (\<lambda>_ w'. prp_frame w w') w"
  unfolding prp_next_list_def by (intro wp_intros) (simp_all add: prp_frame_def)

lemma prp_frame_trans: "prp_frame u v \<Longrightarrow> prp_frame v w \<Longrightarrow> prp_frame u w"
  by (simp add: prp_frame_def)

lemma loop_frame: "wp (setup_prps_loop sh E pool sgs addr len left p i) (\<lambda>_ w'. prp_frame w w') w"
proof (induction "nat left" arbitrary: w p i sgs addr len left rule: less_induct)
  case less
  have IH: "prp_frame w v \<Longrightarrow> psz sh < left \<Longrightarrow>
      wp (setup_prps_loop sh E pool sgs' a l (left - psz sh) p' i') (\<lambda>_ w'. prp_frame w w') v" for v sgs' a l p' i'
    by (rule wp_mono [OF less.hyps]) (use psz_pos [of sh] in \<open>auto intro: prp_frame_trans\<close>)
  show ?case
    unfolding setup_prps_loop.simps [of sh E pool sgs addr len left p i] apple_nvme_free_prps_def
    by (intro wp_intros wp_mono [OF next_list_frame] wp_mono [OF free_prps_frame])
      (auto simp: prp_frame_def wp_simps split: list.split intro!: IH)
qed

lemma setup_prps_frame: "wp (apple_nvme_setup_prps sh E req) (\<lambda>_ w'. prp_frame w w') w"
  unfolding apple_nvme_setup_prps_def setup_prps_lists_def setup_prps_done_def
  by (cases "rq_sgl req"; cases "hd (rq_sgl req)"; cases "tl (rq_sgl req)")
    (auto simp: Let_def split: prod.split intro!: wp_intros wp_mono [OF loop_frame], auto simp: prp_frame_def)

lemma building_unmapped:
  assumes "building sh pool h0 w cs i D" "nents (drv w) \<noteq> 0" "dma_len (drv w) = 0"
  shows "wp (apple_nvme_unmap_data sh E) (\<lambda>_ w'.
    (\<exists>new. pool_allocs (hist w') = pool_allocs h0 @ new \<and> pool_frees (hist w') = pool_frees h0 @ new)
    \<and> maps_made (hist w') = maps_made (hist w)
    \<and> maps_undone (hist w') = maps_undone (hist w) @ [DmaUnmapSg (nents (drv w)), MempoolFree (sg (drv w))]) w"
proof (cases pool)
  case prp_page_pool
  have step: "building sh prp_page_pool h0 (w\<lparr>hist := hist w @ [(DmaUnmapSg n, r)]\<rparr>) cs i D" for n r
    using assms(1) prp_page_pool by (simp add: building_def)
  have n: "npages (drv w) \<noteq> 0" using assms(1) prp_page_pool by (auto simp: building_def)
  have free: "wp (apple_nvme_free_prps sh E) (\<lambda>_ w'. (drv w' = drv w
    \<and> pool_frees (hist w') = pool_frees h0 @ map (Pair prp_page_pool) (rev cs)
    \<and> pool_allocs (hist w') = pool_allocs h0 @ map (Pair prp_page_pool) (rev cs))
    \<and> prp_frame (w\<lparr>hist := hist w @ [(DmaUnmapSg n, r)]\<rparr>) w') (w\<lparr>hist := hist w @ [(DmaUnmapSg n, r)]\<rparr>)" for n r
    by (rule wp_conj [OF building_freed [OF step, simplified]])
      (unfold apple_nvme_free_prps_def, intro wp_intros free_prps_frame)
  show ?thesis
    unfolding apple_nvme_unmap_data_def using assms(2,3) n
    by (intro wp_intros wp_mono [OF free]) (auto simp: prp_frame_def)
next
  case prp_small_pool
  then obtain p d where cs: "cs = [(p, d)]" "npages (drv w) = 0" "iod_list (drv w) 0 = p" "first_dma (drv w) = d"
      "pool_allocs (hist w) = pool_allocs h0 @ [(prp_small_pool, p, d)]" "pool_frees (hist w) = pool_frees h0"
    using assms(1) by (cases cs) (auto simp: building_def)
  then show ?thesis
    unfolding apple_nvme_unmap_data_def using assms(2,3) by (intro wp_intros) auto
qed

lemma set_up_unmapped:
  assumes "set_up sh h0 a tail BLK_STS_OK w" "nents (drv w) \<noteq> 0" "dma_len (drv w) = 0"
  shows "wp (apple_nvme_unmap_data sh E) (\<lambda>_ w'.
    (\<exists>new. pool_allocs (hist w') = pool_allocs h0 @ new \<and> pool_frees (hist w') = pool_frees h0 @ new)
    \<and> maps_made (hist w') = maps_made (hist w)
    \<and> maps_undone (hist w') = maps_undone (hist w) @ [DmaUnmapSg (nents (drv w)), MempoolFree (sg (drv w))]) w"
proof -
  from assms(1) consider "npages (drv w) = - 1" "pool_allocs (hist w) = pool_allocs h0" "pool_frees (hist w) = pool_frees h0"
    | pool cs i D where "building sh pool h0 w cs i D"
    by (auto simp: set_up_def)
  then show ?thesis
  proof cases
    case 1
    then show ?thesis
      unfolding apple_nvme_unmap_data_def apple_nvme_free_prps_def using assms(2,3) by (intro wp_intros) (auto simp: wp_simps)
  next
    case 2
    from building_unmapped [OF this assms(2,3)] show ?thesis .
  qed
qed

text \<open>The state between mapping and unmapping, and the outcome of mapping.\<close>

definition mapped_ok where
  "mapped_ok sh h0 w \<longleftrightarrow>
     dma_len (drv w) \<noteq> 0 \<and> pool_allocs (hist w) = pool_allocs h0 \<and> pool_frees (hist w) = pool_frees h0
       \<and> maps_made (hist w) = maps_made h0 @ [DmaUnmapPage (first_dma (drv w)) (dma_len (drv w))] \<and> maps_undone (hist w) = maps_undone h0
   \<or> dma_len (drv w) = 0 \<and> nents (drv w) \<noteq> 0 \<and> (\<exists>a tail. set_up sh h0 a tail BLK_STS_OK w)
       \<and> maps_made (hist w) = maps_made h0 @ [MempoolFree (sg (drv w)), DmaUnmapSg (nents (drv w))] \<and> maps_undone (hist w) = maps_undone h0"

lemma set_up_cong:
  assumes "pool_allocs k = pool_allocs h0" "pool_frees k = pool_frees h0"
  shows "set_up sh k a tail sts w = set_up sh h0 a tail sts w"
  unfolding set_up_def building_def assms ..

lemma setup_prps_outcome:
  assumes "good_sgl sh req" "pool_ok E" "8 \<le> sh" "npages (drv v) = - 1"
    and "pool_allocs (hist v) = pool_allocs h0" "pool_frees (hist v) = pool_frees h0"
  shows "wp (apple_nvme_setup_prps sh E req) (\<lambda>sts w'. prp_frame v w' \<and>
    (sts = BLK_STS_OK \<and> (\<exists>a tail. set_up sh h0 a tail BLK_STS_OK w') \<or> sts = BLK_STS_RESOURCE
       \<and> (\<exists>new. pool_allocs (hist w') = pool_allocs h0 @ new \<and> pool_frees (hist w') = pool_frees h0 @ new))) v"
proof (rule wp_conj [OF setup_prps_frame], rule wp_mono [OF setup_prps_sets_up [OF assms(1-4)]], goal_cases)
  case (1 sts w')
  then have up: "set_up sh h0 (fst (hd (rq_sgl req)))
      (if rq_payload_bytes req \<le> psz sh - int (unat (fst (hd (rq_sgl req)) AND mask sh)) then [] else tail_runs sh (rq_sgl req)) sts w'"
    by (simp only: set_up_cong [OF assms(5,6)])
  show ?case
  proof (cases sts)
    case BLK_STS_OK
    with up show ?thesis by blast
  qed (use up in \<open>simp_all add: set_up_def\<close>)
qed

lemma map_data_outcome:
  assumes "good_sgl sh req" "pool_ok E" "8 \<le> sh" "npages (drv w) = - 1" "0 < bv_len req"
  shows "wp (apple_nvme_map_data sh E req) (\<lambda>sts w'.
    if sts = BLK_STS_OK then mapped_ok sh (hist w) w' else sts = BLK_STS_RESOURCE \<and> settled (hist w) (hist w')) w"
  unfolding apple_nvme_map_data_def apple_nvme_setup_prp_simple_def
  using assms(4,5)
  by (intro wp_intros wp_mono [OF setup_prps_outcome [OF assms(1-3), where ?h0.0 = "hist w"]])
    (auto simp: mapped_ok_def settled_def prp_frame_def)


section \<open>Witnesses\<close>

text \<open>A request of three pages of 256 bytes, and a machine whose pools hold one list.\<close>

definition prp_E :: prp_env where
  "prp_E h q = (case q of
       DmaPoolAlloc _ \<Rightarrow> if live h = {} then (1, 0x100000) else (0, 0)
     | DmaMapBvec _ _ \<Rightarrow> (0, 0x1000)
     | MempoolAlloc \<Rightarrow> (5, 0)
     | BlkRqMapSg \<Rightarrow> (1, 0)
     | DmaMapSg n \<Rightarrow> (n, 0)
     | _ \<Rightarrow> (0, 0))"

definition prp_rq :: request where
  "prp_rq = \<lparr>rq_nr_phys_segments = 1, rq_payload_bytes = 768, bv_offset = 0, bv_len = 768, rq_sgl = [(0x1000, 768)]\<rparr>"

definition prp_w :: "(prp_req, nat \<times> u64, apple_nvme_iod) world" where
  "prp_w = \<lparr>hist = [], drv = \<lparr>npages = - 1, nents = 0, first_dma = 0, dma_len = 0, sg = 0, iod_list = (\<lambda>_. 0),
     prp_mem = (\<lambda>_ _. 0), prp1 = 0, prp2 = 0\<rparr>\<rparr>"

lemma prp_E_ok: "pool_ok prp_E"
  by (simp add: pool_ok_def prp_E_def)

lemma prp_rq_good: "good_sgl 8 prp_rq"
  by code_simp

lemma prp_w_npages: "npages (drv prp_w) = - 1"
  by (simp add: prp_w_def)

theorem prps_cover_payload_witness:
  "\<exists>rd w'. run_state (apple_nvme_setup_prps 8 prp_E prp_rq) prp_w = (BLK_STS_OK, w')
     \<and> prp_transfer 8 rd (prp1 (drv w')) (prp2 (drv w')) 768 = [0x1000, 0x1100, 0x1200]"
proof -
  let ?r = "run_state (apple_nvme_setup_prps 8 prp_E prp_rq) prp_w"
  have ok: "fst ?r = BLK_STS_OK" and live: "live (hist (snd ?r)) = {(1, 0x100000)}" by code_simp+
  have p: "fst (hd (rq_sgl prp_rq)) # pages 8 (tail_runs 8 (rq_sgl prp_rq)) = [0x1000, 0x1100, 0x1200]" by code_simp
  have "rq_payload_bytes prp_rq = 768" by (simp add: prp_rq_def)
  with prps_cover_payload [OF prp_rq_good prp_E_ok _ prp_w_npages, of "fst ?r" "snd ?r" "\<lambda>_. prp_mem (drv (snd ?r)) 1"]
    ok live p show ?thesis by (intro exI [of _ "\<lambda>_. prp_mem (drv (snd ?r)) 1"] exI [of _ "snd ?r"]) (simp add: prod_eq_iff)
qed


end
