(* ===== verification/Nvme_Core.thy ===== *)
theory Nvme_Core
  imports Nvme_Prp
begin

text \<open>
  The part of the NVMe core, \<open>drivers/nvme/host/core.c\<close>, that the ANS driver runs on: the
  controller state machine, reset scheduling, the waits for the controller status register,
  enabling and disabling the controller, freezing and quiescing the queues.

  \<open>struct nvme_ctrl\<close> is a record that the driver's record extends, as the C embeds it. The register
  access functions \<open>ctrl->ops\<close> are a record of programs; their contract is the locale \<open>nvme_reg_ops\<close>,
  which the driver's theory interprets on its own register functions. The constants and macros of
  \<open>nvme.h\<close> and \<open>linux/nvme.h\<close>, which the repository does not have, are the parameter \<open>K\<close>.

  The wait loop \<open>nvme_wait_ready\<close> reads the clock, so the model gives it fuel and \<open>None\<close> is a wait that
  has not ended; \<open>nvme_wait_ready_ends\<close> shows that it ends as soon as the fuel exceeds the number of
  sleeps that outlast the timeout. Log output is not modelled.
\<close>

section \<open>State, requests and constants\<close>

datatype nvme_ctrl_state = NVME_CTRL_NEW | NVME_CTRL_LIVE | NVME_CTRL_RESETTING
  | NVME_CTRL_CONNECTING | NVME_CTRL_DELETING | NVME_CTRL_DELETING_NOIO | NVME_CTRL_DEAD

text \<open>A register is a mapped region and an offset into it.\<close>

datatype mmio = mmio_coproc | mmio_nvme | mmio_nvmmu
type_synonym reg = "mmio \<times> nat"

text \<open>The commands the driver submits synchronously, with the fields it sets.\<close>

datatype sync_cmd =
    create_cq (cc_prp1: u64) (cc_cqid: u16) (cc_qsize: u16) (cc_flags: u16) (cc_irq_vector: u16)
  | create_sq (cs_prp1: u64) (cs_sqid: u16) (cs_qsize: u16) (cs_flags: u16) (cs_cqid: u16)
  | delete_cq u16 | delete_sq u16 | flush_cmd u32

datatype nvme_work = reset_work | scan_work | delete_work | remove_work

text \<open>The requests, by the part of the code that makes them: the core, the I/O path, the controller
  reset, and the device's resources.\<close>

datatype core_req =
    CtrlLock | CtrlUnlock | WakeUpStateWq | QueueWork nvme_work | FlushWork nvme_work
  | ScheduleFailfast int | CancelFailfast | KickRequeueLists
  | Jiffies | UsleepRange | FatalSignalPending | Msleep
  | FreezeStart nat | FreezeWait nat | FreezeWaitTimeout nat int | Unfreeze nat | MarkDiskDead nat
  | SrcuLock | SrcuUnlock
  | QuiesceTagset | WaitQuiesceDone bool | UnquiesceTagset | QuiesceAdminQ | UnquiesceAdminQ
  | CancelTagset bool | WaitCompleted bool | HostPathError nat | ClearNvmeRequest nat

datatype io_req =
    SpinLock | SpinUnlock
  | FindRq bool u16 | TryCompleteReq nat u16 u64 | ReqStatus nat | AddToBatch nat bool
  | SetReqStatus nat u16 | OrReqFlags nat | CompleteRequest nat | NvmeCompleteRq nat
  | CompleteBatchReq nat | EndRequestBatch
  | CheckReady nat | SetupCmd nat nat | StartRequest nat | CleanupCmd nat
  | DwPending | ModDelayedWork u64 | WarnFlushNs
  | RequestStarted nat | RequestCompleted nat

datatype ans_req =
    RtkitIsCrashed | RtkitIsRunning | RtkitShutdown | RtkitReinit | RtkitBoot | RtkitWake
  | ResetAssert | ResetDeassert | ReadlPollTimeout reg u32 | DmaMaxMappingSize | DmaSetMaxSegSize u32
  | SubmitSync bool sync_cmd | NsId nat | InitCtrlFinish | UpdateNrHwQueues | StartCtrl | StopCtrl
  | GetCtrl | PutCtrl | RemoveNamespaces | UninitCtrl | DeviceReleaseDriver | FlushDelayedWork
  | DmaAllocCoherent nat | DmaFreeCoherent nat u64 | SartAdd u64 nat | SartRemove u64 nat

datatype dev_req =
    PutDevice | GetDevice | DevmKzalloc | OfMatchData | CountPowerDomains | DevmKcalloc
  | DomainAttach nat | DomainDetach nat | LinkAdd nat | LinkDel nat | DmaSetMask | PlatformGetIrq
  | IoremapByname string | SartGet | ResetGet | InitWorks | DmamAlloc nat | PoolCreate nat
  | MempoolCreate int | MempoolDestroyAction | AllocTagSet bool | FreeTagSetAction bool | RequestIrq
  | RtkitInit | InitCtrl | AddCtrl | AllocAdminQueue | InitFlushWork | AsyncSchedule

datatype nvme_req =
    Readl reg | Writel reg u32 | Readq reg | Writeq reg u64 | Prp nat prp_req
  | Core core_req | Io io_req | Ans ans_req | Dev dev_req

type_synonym nvme_resp = "int \<times> u64"
type_synonym nvme_env = "(nvme_req, nvme_resp) env"
type_synonym ('d, 'a) nvme = "(nvme_req, nvme_resp, 'd, 'a) prog"

record nvme_consts =
  NVME_REG_CAP :: nat
  NVME_REG_CC :: nat
  NVME_REG_CSTS :: nat
  NVME_REG_CRTO :: nat
  NVME_REG_AQA :: nat
  NVME_REG_ASQ :: nat
  NVME_REG_ACQ :: nat
  NVME_REG_DBS :: nat
  NVME_CC_ENABLE :: u32
  NVME_CC_SHN_MASK :: u32
  NVME_CC_SHN_NORMAL :: u32
  NVME_CC_SHN_NONE :: u32
  NVME_CC_CSS_CSI :: u32
  NVME_CC_CSS_NVM :: u32
  NVME_CC_CRIME :: u32
  NVME_CC_AMS_RR :: u32
  NVME_CC_IOSQES :: u32
  NVME_CC_IOCQES :: u32
  NVME_CC_MPS_SHIFT :: nat
  NVME_CSTS_RDY :: u32
  NVME_CSTS_CFS :: u32
  NVME_CSTS_SHST_MASK :: u32
  NVME_CSTS_SHST_CMPLT :: u32
  NVME_CAP_TIMEOUT :: "u64 \<Rightarrow> u32"
  NVME_CAP_MPSMIN :: "u64 \<Rightarrow> nat"
  NVME_CAP_CSS :: "u64 \<Rightarrow> u32"
  NVME_CAP_CSS_CSI :: u32
  NVME_CAP_CRMS_CRWMS :: u64
  NVME_CRTO_CRWMT :: "u32 \<Rightarrow> u32"
  NVME_CTRL_PAGE_SHIFT :: nat
  HZ :: u32

text \<open>\<open>flags\<close> is the set of bit names, one boolean per bit the modelled code uses; \<open>opts\<close> is the
  \<open>fast_io_fail_tmo\<close> of the fabrics options where there are options.\<close>

record nvme_ctrl =
  ctrl_state :: nvme_ctrl_state
  nr_reset :: int
  failfast_expired :: bool
  stopped :: bool
  admin_q_stopped :: bool
  frozen :: bool
  opts :: "int option"
  ctrl_config :: u32
  cap :: u64
  shutdown_timeout :: u32
  delay_before_chk_rdy :: bool
  has_tagset :: bool
  has_admin_tagset :: bool
  namespaces :: "nat list"
  io_timeout :: int
  max_hw_sectors :: u32
  max_segments :: u32
  sqsize :: u16
  queue_count :: nat
  has_admin_q :: bool

record 'd nvme_ctrl_ops =
  reg_read32 :: "nat \<Rightarrow> ('d, int \<times> u32) nvme"
  reg_write32 :: "nat \<Rightarrow> u32 \<Rightarrow> ('d, int) nvme"
  reg_read64 :: "nat \<Rightarrow> ('d, int \<times> u64) nvme"

type_synonym ('c, 'a) ctrl_prog = "('c nvme_ctrl_scheme, 'a) nvme"

section \<open>The controller state machine\<close>

definition nvme_stop_failfast_work :: "nvme_env \<Rightarrow> ('c, unit) ctrl_prog" where
  "nvme_stop_failfast_work E = do {
     c \<leftarrow> getd;
     whenM (opts c \<noteq> None) (do {
       exec E (Core CancelFailfast);
       modd (\<lambda>c. c\<lparr>failfast_expired := False\<rparr>)
     })
   }"

definition nvme_start_failfast_work :: "nvme_env \<Rightarrow> ('c, unit) ctrl_prog" where
  "nvme_start_failfast_work E = do {
     c \<leftarrow> getd;
     case opts c of
       None \<Rightarrow> return ()
     | Some tmo \<Rightarrow> whenM (tmo \<noteq> - 1) (exec E (Core (ScheduleFailfast tmo)))
   }"

text \<open>The nested switch of \<open>nvme_change_ctrl_state\<close>.\<close>

definition ctrl_state_change :: "nvme_ctrl_state \<Rightarrow> nvme_ctrl_state \<Rightarrow> bool" where
  "ctrl_state_change old_state new_state =
     (case new_state of
        NVME_CTRL_LIVE \<Rightarrow> old_state = NVME_CTRL_CONNECTING
      | NVME_CTRL_RESETTING \<Rightarrow> old_state = NVME_CTRL_NEW \<or> old_state = NVME_CTRL_LIVE
      | NVME_CTRL_CONNECTING \<Rightarrow> old_state = NVME_CTRL_NEW \<or> old_state = NVME_CTRL_RESETTING
      | NVME_CTRL_DELETING \<Rightarrow> old_state = NVME_CTRL_LIVE \<or> old_state = NVME_CTRL_RESETTING
          \<or> old_state = NVME_CTRL_CONNECTING
      | NVME_CTRL_DELETING_NOIO \<Rightarrow> old_state = NVME_CTRL_DELETING \<or> old_state = NVME_CTRL_DEAD
      | NVME_CTRL_DEAD \<Rightarrow> old_state = NVME_CTRL_DELETING
      | NVME_CTRL_NEW \<Rightarrow> False)"

definition nvme_change_ctrl_state :: "nvme_env \<Rightarrow> nvme_ctrl_state \<Rightarrow> ('c, bool) ctrl_prog" where
  "nvme_change_ctrl_state E new_state = do {
     exec E (Core CtrlLock);
     c \<leftarrow> getd;
     let old_state = ctrl_state c;
     let changed = ctrl_state_change old_state new_state;
     whenM (changed \<and> new_state = NVME_CTRL_RESETTING) (modd (\<lambda>c. c\<lparr>nr_reset := nr_reset c + 1\<rparr>));
     whenM changed (do {
       modd (\<lambda>c. c\<lparr>ctrl_state := new_state\<rparr>);
       exec E (Core WakeUpStateWq)
     });
     exec E (Core CtrlUnlock);
     if \<not> changed then return False
     else do {
       (if new_state = NVME_CTRL_LIVE then do {
          whenM (old_state = NVME_CTRL_CONNECTING) (nvme_stop_failfast_work E);
          exec E (Core KickRequeueLists)
        } else whenM (new_state = NVME_CTRL_CONNECTING \<and> old_state = NVME_CTRL_RESETTING)
          (nvme_start_failfast_work E));
       return True
     }
   }"

definition nvme_queue_scan :: "nvme_env \<Rightarrow> ('c, unit) ctrl_prog" where
  "nvme_queue_scan E = do {
     c \<leftarrow> getd;
     whenM (ctrl_state c = NVME_CTRL_LIVE \<and> has_tagset c) (exec E (Core (QueueWork scan_work)))
   }"

definition nvme_try_sched_reset :: "nvme_env \<Rightarrow> ('c, int) ctrl_prog" where
  "nvme_try_sched_reset E = do {
     c \<leftarrow> getd;
     if ctrl_state c \<noteq> NVME_CTRL_RESETTING then return (- EBUSY)
     else do {
       (queued, _) \<leftarrow> call E (Core (QueueWork reset_work));
       if queued = 0 then return (- EBUSY) else return 0
     }
   }"

definition nvme_failfast_work :: "nvme_env \<Rightarrow> ('c, unit) ctrl_prog" where
  "nvme_failfast_work E = do {
     c \<leftarrow> getd;
     whenM (ctrl_state c = NVME_CTRL_CONNECTING) (do {
       modd (\<lambda>c. c\<lparr>failfast_expired := True\<rparr>);
       exec E (Core KickRequeueLists)
     })
   }"

definition nvme_reset_ctrl :: "nvme_env \<Rightarrow> ('c, int) ctrl_prog" where
  "nvme_reset_ctrl E = do {
     ok \<leftarrow> nvme_change_ctrl_state E NVME_CTRL_RESETTING;
     if \<not> ok then return (- EBUSY)
     else do {
       (queued, _) \<leftarrow> call E (Core (QueueWork reset_work));
       if queued = 0 then return (- EBUSY) else return 0
     }
   }"

definition nvme_delete_ctrl :: "nvme_env \<Rightarrow> ('c, int) ctrl_prog" where
  "nvme_delete_ctrl E = do {
     ok \<leftarrow> nvme_change_ctrl_state E NVME_CTRL_DELETING;
     if \<not> ok then return (- EBUSY)
     else do {
       (queued, _) \<leftarrow> call E (Core (QueueWork delete_work));
       if queued = 0 then return (- EBUSY) else return 0
     }
   }"

text \<open>A command that finds the controller not ready. The \<open>blk_noretry_request\<close> and multipath marks of
  the request are arguments, as is its \<open>RQF_DONTPREP\<close>.\<close>

definition nvme_fail_nonready_command :: "nvme_env \<Rightarrow> nat \<Rightarrow> bool \<Rightarrow> bool \<Rightarrow> ('c, blk_status) ctrl_prog" where
  "nvme_fail_nonready_command E rq noretry_or_mpath dontprep = do {
     c \<leftarrow> getd;
     let state = ctrl_state c;
     if state \<noteq> NVME_CTRL_DELETING_NOIO \<and> state \<noteq> NVME_CTRL_DELETING \<and> state \<noteq> NVME_CTRL_DEAD
        \<and> \<not> failfast_expired c \<and> \<not> noretry_or_mpath
     then return BLK_STS_RESOURCE
     else do {
       whenM (\<not> dontprep) (exec E (Core (ClearNvmeRequest rq)));
       exec E (Core (HostPathError rq));
       return BLK_STS_OK
     }
   }"

section \<open>Enabling and disabling the controller\<close>

definition time_after :: "u64 \<Rightarrow> u64 \<Rightarrow> bool" where
  "time_after a b \<longleftrightarrow> sint (b - a) < 0"

fun wait_ready_loop :: "nat \<Rightarrow> nvme_env \<Rightarrow> ('x) nvme_consts_scheme \<Rightarrow> 'd nvme_ctrl_ops \<Rightarrow> u32 \<Rightarrow> u32 \<Rightarrow> u64 \<Rightarrow> ('d, int option) nvme" where
  "wait_ready_loop 0 E K ops msk val timeout_jiffies = return None"
| "wait_ready_loop (Suc n) E K ops msk val timeout_jiffies = do {
     (ret, csts) \<leftarrow> reg_read32 ops (NVME_REG_CSTS K);
     if ret \<noteq> 0 then return (Some ret)
     else if csts = - 1 then return (Some (- ENODEV))
     else if csts AND msk = val then return (Some ret)
     else do {
       exec E (Core UsleepRange);
       (sig, _) \<leftarrow> call E (Core FatalSignalPending);
       if sig \<noteq> 0 then return (Some (- EINTR))
       else do {
         (_, now) \<leftarrow> call E (Core Jiffies);
         if time_after now timeout_jiffies then return (Some (- ENODEV))
         else wait_ready_loop n E K ops msk val timeout_jiffies
       }
     }
   }"

definition nvme_wait_ready :: "nat \<Rightarrow> nvme_env \<Rightarrow> ('x) nvme_consts_scheme \<Rightarrow> 'd nvme_ctrl_ops \<Rightarrow> u32 \<Rightarrow> u32 \<Rightarrow> u32 \<Rightarrow> ('d, int option) nvme" where
  "nvme_wait_ready n E K ops msk val timeout = do {
     (_, now) \<leftarrow> call E (Core Jiffies);
     wait_ready_loop n E K ops msk val (now + ucast (timeout * HZ K))
   }"

definition nvme_disable_ctrl :: "nat \<Rightarrow> nvme_env \<Rightarrow> ('x) nvme_consts_scheme \<Rightarrow> ('c nvme_ctrl_scheme) nvme_ctrl_ops \<Rightarrow> bool \<Rightarrow> ('c, int option) ctrl_prog" where
  "nvme_disable_ctrl n E K ops shutdown = do {
     modd (\<lambda>c. c\<lparr>ctrl_config := ctrl_config c AND NOT (NVME_CC_SHN_MASK K)\<rparr>);
     (if shutdown then modd (\<lambda>c. c\<lparr>ctrl_config := ctrl_config c OR NVME_CC_SHN_NORMAL K\<rparr>)
      else modd (\<lambda>c. c\<lparr>ctrl_config := ctrl_config c AND NOT (NVME_CC_ENABLE K)\<rparr>));
     c \<leftarrow> getd;
     ret \<leftarrow> reg_write32 ops (NVME_REG_CC K) (ctrl_config c);
     if ret \<noteq> 0 then return (Some ret)
     else if shutdown then
       nvme_wait_ready n E K ops (NVME_CSTS_SHST_MASK K) (NVME_CSTS_SHST_CMPLT K) (shutdown_timeout c)
     else do {
       whenM (delay_before_chk_rdy c) (exec E (Core Msleep));
       nvme_wait_ready n E K ops (NVME_CSTS_RDY K) 0 ((NVME_CAP_TIMEOUT K (cap c) + 1) div 2)
     }
   }"

text \<open>The configuration word \<open>nvme_enable_ctrl\<close> builds before it sets the enable bit.\<close>

definition enable_config :: "('x) nvme_consts_scheme \<Rightarrow> u64 \<Rightarrow> u32" where
  "enable_config K capv =
     (let cc = (if NVME_CAP_CSS K capv AND NVME_CAP_CSS_CSI K \<noteq> 0 then NVME_CC_CSS_CSI K else NVME_CC_CSS_NVM K);
          cc = cc AND NOT (NVME_CC_CRIME K);
          cc = cc OR push_bit (NVME_CC_MPS_SHIFT K) (of_nat (NVME_CTRL_PAGE_SHIFT K - 12));
          cc = cc OR NVME_CC_AMS_RR K OR NVME_CC_SHN_NONE K
      in cc OR NVME_CC_IOSQES K OR NVME_CC_IOCQES K)"

definition enable_timeout :: "('x) nvme_consts_scheme \<Rightarrow> ('c nvme_ctrl_scheme) nvme_ctrl_ops \<Rightarrow> u64 \<Rightarrow> ('c, int + u32) ctrl_prog" where
  "enable_timeout K ops capv =
     (let timeout = NVME_CAP_TIMEOUT K capv
      in if capv AND NVME_CAP_CRMS_CRWMS K \<noteq> 0 then do {
           (ret, crto) \<leftarrow> reg_read32 ops (NVME_REG_CRTO K);
           if ret \<noteq> 0 then return (Inl ret)
           else return (Inr (if NVME_CRTO_CRWMT K crto < timeout then timeout else NVME_CRTO_CRWMT K crto))
         } else return (Inr timeout))"

definition nvme_enable_ctrl :: "nat \<Rightarrow> nvme_env \<Rightarrow> ('x) nvme_consts_scheme \<Rightarrow> ('c nvme_ctrl_scheme) nvme_ctrl_ops \<Rightarrow> ('c, int option) ctrl_prog" where
  "nvme_enable_ctrl n E K ops = do {
     (ret, v) \<leftarrow> reg_read64 ops (NVME_REG_CAP K);
     modd (\<lambda>c. c\<lparr>cap := v\<rparr>);
     if ret \<noteq> 0 then return (Some ret)
     else if NVME_CTRL_PAGE_SHIFT K < NVME_CAP_MPSMIN K v + 12 then return (Some (- ENODEV))
     else do {
       modd (\<lambda>c. c\<lparr>ctrl_config := enable_config K v\<rparr>);
       ret \<leftarrow> reg_write32 ops (NVME_REG_CC K) (enable_config K v);
       if ret \<noteq> 0 then return (Some ret)
       else do {
         (ret, v') \<leftarrow> reg_read64 ops (NVME_REG_CAP K);
         modd (\<lambda>c. c\<lparr>cap := v'\<rparr>);
         if ret \<noteq> 0 then return (Some ret)
         else do {
           t \<leftarrow> enable_timeout K ops v';
           case t of
             Inl ret \<Rightarrow> return (Some ret)
           | Inr timeout \<Rightarrow> do {
               modd (\<lambda>c. c\<lparr>ctrl_config := ctrl_config c OR NVME_CC_ENABLE K\<rparr>);
               c \<leftarrow> getd;
               ret \<leftarrow> reg_write32 ops (NVME_REG_CC K) (ctrl_config c);
               if ret \<noteq> 0 then return (Some ret)
               else nvme_wait_ready n E K ops (NVME_CSTS_RDY K) (NVME_CSTS_RDY K) ((timeout + 1) div 2)
             }
         }
       }
     }
   }"

section \<open>Freezing, quiescing and cancelling\<close>

definition nvme_mark_namespaces_dead :: "nvme_env \<Rightarrow> ('c, unit) ctrl_prog" where
  "nvme_mark_namespaces_dead E = do {
     c \<leftarrow> getd;
     exec E (Core SrcuLock);
     for_each (namespaces c) (\<lambda>ns. exec E (Core (MarkDiskDead ns)));
     exec E (Core SrcuUnlock)
   }"

definition nvme_unfreeze :: "nvme_env \<Rightarrow> ('c, unit) ctrl_prog" where
  "nvme_unfreeze E = do {
     c \<leftarrow> getd;
     exec E (Core SrcuLock);
     for_each (namespaces c) (\<lambda>ns. exec E (Core (Unfreeze ns)));
     exec E (Core SrcuUnlock);
     modd (\<lambda>c. c\<lparr>frozen := False\<rparr>)
   }"

fun wait_freeze_timeout_loop :: "nvme_env \<Rightarrow> nat list \<Rightarrow> int \<Rightarrow> ('d, int) nvme" where
  "wait_freeze_timeout_loop E [] timeout = return timeout"
| "wait_freeze_timeout_loop E (ns # nss) timeout = do {
     (left, _) \<leftarrow> call E (Core (FreezeWaitTimeout ns timeout));
     if left \<le> 0 then return left else wait_freeze_timeout_loop E nss left
   }"

definition nvme_wait_freeze_timeout :: "nvme_env \<Rightarrow> ('c, int) ctrl_prog" where
  "nvme_wait_freeze_timeout E = do {
     c \<leftarrow> getd;
     exec E (Core SrcuLock);
     left \<leftarrow> wait_freeze_timeout_loop E (namespaces c) (io_timeout c);
     exec E (Core SrcuUnlock);
     return left
   }"

definition nvme_wait_freeze :: "nvme_env \<Rightarrow> ('c, unit) ctrl_prog" where
  "nvme_wait_freeze E = do {
     c \<leftarrow> getd;
     exec E (Core SrcuLock);
     for_each (namespaces c) (\<lambda>ns. exec E (Core (FreezeWait ns)));
     exec E (Core SrcuUnlock)
   }"

definition nvme_start_freeze :: "nvme_env \<Rightarrow> ('c, unit) ctrl_prog" where
  "nvme_start_freeze E = do {
     modd (\<lambda>c. c\<lparr>frozen := True\<rparr>);
     c \<leftarrow> getd;
     exec E (Core SrcuLock);
     for_each (namespaces c) (\<lambda>ns. exec E (Core (FreezeStart ns)));
     exec E (Core SrcuUnlock)
   }"

definition nvme_quiesce_io_queues :: "nvme_env \<Rightarrow> ('c, unit) ctrl_prog" where
  "nvme_quiesce_io_queues E = do {
     c \<leftarrow> getd;
     whenM (has_tagset c) (do {
       modd (\<lambda>c. c\<lparr>stopped := True\<rparr>);
       (if \<not> stopped c then exec E (Core QuiesceTagset) else exec E (Core (WaitQuiesceDone False)))
     })
   }"

definition nvme_unquiesce_io_queues :: "nvme_env \<Rightarrow> ('c, unit) ctrl_prog" where
  "nvme_unquiesce_io_queues E = do {
     c \<leftarrow> getd;
     whenM (has_tagset c) (do {
       modd (\<lambda>c. c\<lparr>stopped := False\<rparr>);
       whenM (stopped c) (exec E (Core UnquiesceTagset))
     })
   }"

definition nvme_quiesce_admin_queue :: "nvme_env \<Rightarrow> ('c, unit) ctrl_prog" where
  "nvme_quiesce_admin_queue E = do {
     c \<leftarrow> getd;
     modd (\<lambda>c. c\<lparr>admin_q_stopped := True\<rparr>);
     (if \<not> admin_q_stopped c then exec E (Core QuiesceAdminQ) else exec E (Core (WaitQuiesceDone True)))
   }"

definition nvme_unquiesce_admin_queue :: "nvme_env \<Rightarrow> ('c, unit) ctrl_prog" where
  "nvme_unquiesce_admin_queue E = do {
     c \<leftarrow> getd;
     modd (\<lambda>c. c\<lparr>admin_q_stopped := False\<rparr>);
     whenM (admin_q_stopped c) (exec E (Core UnquiesceAdminQ))
   }"

definition nvme_cancel_tagset :: "nvme_env \<Rightarrow> ('c, unit) ctrl_prog" where
  "nvme_cancel_tagset E = do {
     c \<leftarrow> getd;
     whenM (has_tagset c) (do { exec E (Core (CancelTagset False)); exec E (Core (WaitCompleted False)) })
   }"

definition nvme_cancel_admin_tagset :: "nvme_env \<Rightarrow> ('c, unit) ctrl_prog" where
  "nvme_cancel_admin_tagset E = do {
     c \<leftarrow> getd;
     whenM (has_admin_tagset c) (do { exec E (Core (CancelTagset True)); exec E (Core (WaitCompleted True)) })
   }"

section \<open>The state machine's laws\<close>

text \<open>The effect of a change that is allowed.\<close>

definition enter_state :: "nvme_ctrl_state \<Rightarrow> 'c nvme_ctrl_scheme \<Rightarrow> 'c nvme_ctrl_scheme" where
  "enter_state s c = c\<lparr>ctrl_state := s,
     nr_reset := nr_reset c + (if s = NVME_CTRL_RESETTING then 1 else 0),
     failfast_expired := (failfast_expired c \<and> (s = NVME_CTRL_LIVE \<longrightarrow> opts c = None))\<rparr>"

lemma enter_state_sel [simp]:
  "ctrl_state (enter_state s c) = s"
  "opts (enter_state s c) = opts c"
  "nr_reset (enter_state s c) = nr_reset c + (if s = NVME_CTRL_RESETTING then 1 else 0)"
  "failfast_expired (enter_state s c) = (failfast_expired c \<and> (s = NVME_CTRL_LIVE \<longrightarrow> opts c = None))"
  by (simp_all add: enter_state_def)

lemma wp_change_ctrl_state_drv:
  "wp (nvme_change_ctrl_state E s) (\<lambda>b w'. b = ctrl_state_change (ctrl_state (drv w)) s
     \<and> drv w' = (if b then enter_state s (drv w) else drv w)) w"
  unfolding nvme_change_ctrl_state_def nvme_stop_failfast_work_def nvme_start_failfast_work_def
  by (intro wp_intros; cases "drv w")
    (auto simp: enter_state_def ctrl_state_change_def split: nvme_ctrl_state.splits)

definition is_core :: "nvme_req \<Rightarrow> bool" where
  "is_core q = (case q of Core r \<Rightarrow> \<not> (case r of QueueWork k \<Rightarrow> True | _ \<Rightarrow> False) | _ \<Rightarrow> False)"

lemma emits_change_ctrl_state [emits_intros]: "emits is_core (nvme_change_ctrl_state E s)"
  unfolding nvme_change_ctrl_state_def nvme_stop_failfast_work_def nvme_start_failfast_work_def
  by (intro emits_intros) (simp_all add: is_core_def)

lemma wp_nvme_change_ctrl_state:
  assumes "\<And>w'. \<lbrakk> drv w' = (if ctrl_state_change (ctrl_state (drv w)) s then enter_state s (drv w) else drv w);
      \<exists>new. hist w' = hist w @ new \<and> list_all is_core (reqs new) \<rbrakk>
      \<Longrightarrow> Q (ctrl_state_change (ctrl_state (drv w)) s) w'"
  shows "wp (nvme_change_ctrl_state E s) Q w"
  by (rule wp_mono [OF wp_conj [OF wp_change_ctrl_state_drv emits_wp [OF emits_change_ctrl_state]]])
    (auto intro: assms)

text \<open>The operations of the core that may touch the state, in any order; the fail-fast work only runs where
  there are options, since only then it is scheduled.\<close>

inductive ctrl_step :: "nvme_env \<Rightarrow> (nvme_req, nvme_resp, 'c nvme_ctrl_scheme) world \<Rightarrow> (nvme_req, nvme_resp, 'c nvme_ctrl_scheme) world \<Rightarrow> bool"
  for E :: nvme_env where
  change: "run_state (nvme_change_ctrl_state E s) w = (b, w') \<Longrightarrow> ctrl_step E w w'"
| reset: "run_state (nvme_reset_ctrl E) w = (r, w') \<Longrightarrow> ctrl_step E w w'"
| delete: "run_state (nvme_delete_ctrl E) w = (r, w') \<Longrightarrow> ctrl_step E w w'"
| sched: "run_state (nvme_try_sched_reset E) w = (r, w') \<Longrightarrow> ctrl_step E w w'"
| scan: "run_state (nvme_queue_scan E) w = ((), w') \<Longrightarrow> ctrl_step E w w'"
| failfast: "opts (drv w) \<noteq> None \<Longrightarrow> run_state (nvme_failfast_work E) w = ((), w') \<Longrightarrow> ctrl_step E w w'"

lemma wp_nvme_reset_ctrl:
  "wp (nvme_reset_ctrl E) (\<lambda>r w'. drv w' =
     (if ctrl_state_change (ctrl_state (drv w)) NVME_CTRL_RESETTING then enter_state NVME_CTRL_RESETTING (drv w) else drv w)) w"
  unfolding nvme_reset_ctrl_def
  by (intro wp_bindI wp_nvme_change_ctrl_state) (auto intro!: wp_intros)

lemma wp_nvme_delete_ctrl:
  "wp (nvme_delete_ctrl E) (\<lambda>r w'. drv w' =
     (if ctrl_state_change (ctrl_state (drv w)) NVME_CTRL_DELETING then enter_state NVME_CTRL_DELETING (drv w) else drv w)) w"
  unfolding nvme_delete_ctrl_def
  by (intro wp_bindI wp_nvme_change_ctrl_state) (auto intro!: wp_intros)

text \<open>Every step leaves the controller as it is, enters a state the table allows, or marks fail-fast
  expired while connecting.\<close>

lemma ctrl_step_cases:
  assumes "ctrl_step E w w'"
  obtains (same) "drv w' = drv w"
  | (enter) s where "ctrl_state_change (ctrl_state (drv w)) s" "drv w' = enter_state s (drv w)"
  | (expire) "ctrl_state (drv w) = NVME_CTRL_CONNECTING" "opts (drv w) \<noteq> None"
      "drv w' = (drv w)\<lparr>failfast_expired := True\<rparr>"
  using assms
proof cases
  case (change s b)
  then show thesis using wpD [OF wp_change_ctrl_state_drv change] that by (auto split: if_splits)
next
  case (reset r)
  then show thesis using wpD [OF wp_nvme_reset_ctrl reset] that by (auto split: if_splits)
next
  case (delete r)
  then show thesis using wpD [OF wp_nvme_delete_ctrl delete] that by (auto split: if_splits)
next
  case (sched r)
  have "wp (nvme_try_sched_reset E) (\<lambda>_ w'. drv w' = drv w) w"
    unfolding nvme_try_sched_reset_def by (intro wp_intros) auto
  from wpD [OF this sched] show thesis by (rule that(1))
next
  case scan
  have "wp (nvme_queue_scan E) (\<lambda>_ w'. drv w' = drv w) w"
    unfolding nvme_queue_scan_def by (intro wp_intros) auto
  from wpD [OF this scan] show thesis by (rule that(1))
next
  case failfast
  have "wp (nvme_failfast_work E) (\<lambda>_ w'. drv w' = (if ctrl_state (drv w) = NVME_CTRL_CONNECTING
      then (drv w)\<lparr>failfast_expired := True\<rparr> else drv w)) w"
    unfolding nvme_failfast_work_def by (intro wp_intros) auto
  from wpD [OF this failfast(2)] failfast(1) that show thesis by (auto split: if_splits)
qed

definition deleting :: "nvme_ctrl_state \<Rightarrow> bool" where
  "deleting s \<longleftrightarrow> s = NVME_CTRL_DELETING \<or> s = NVME_CTRL_DELETING_NOIO \<or> s = NVME_CTRL_DEAD"

lemma deleting_stable: "ctrl_state_change s s' \<Longrightarrow> deleting s \<Longrightarrow> deleting s'"
  by (cases s; cases s') (simp_all add: ctrl_state_change_def deleting_def)


text \<open>What a run of core operations keeps: the options never change, and the expired mark of the
  fail-fast timer is only set while the controller connects or is deleted.\<close>

definition failfast_inv :: "'c nvme_ctrl_scheme \<Rightarrow> bool" where
  "failfast_inv c \<longleftrightarrow> opts c \<noteq> None \<and>
     (failfast_expired c \<longrightarrow> ctrl_state c = NVME_CTRL_CONNECTING \<or> deleting (ctrl_state c))"

lemma ctrl_step_failfast_inv: "ctrl_step E w w' \<Longrightarrow> failfast_inv (drv w) \<Longrightarrow> failfast_inv (drv w')"
  by (erule ctrl_step_cases)
    (auto simp: failfast_inv_def deleting_def ctrl_state_change_def split: nvme_ctrl_state.splits)

lemma ctrl_step_deleting:
  "ctrl_step E w w' \<Longrightarrow> deleting (ctrl_state (drv w)) \<Longrightarrow>
   deleting (ctrl_state (drv w')) \<and> nr_reset (drv w') = nr_reset (drv w)"
  by (erule ctrl_step_cases) (auto simp: deleting_def ctrl_state_change_def split: nvme_ctrl_state.splits)

lemma ctrl_steps_failfast_inv: "(ctrl_step E)\<^sup>*\<^sup>* w w' \<Longrightarrow> failfast_inv (drv w) \<Longrightarrow> failfast_inv (drv w')"
  by (induction rule: rtranclp_induct) (auto intro: ctrl_step_failfast_inv)

lemma ctrl_steps_deleting:
  "(ctrl_step E)\<^sup>*\<^sup>* w w' \<Longrightarrow> deleting (ctrl_state (drv w)) \<Longrightarrow>
   deleting (ctrl_state (drv w')) \<and> nr_reset (drv w') = nr_reset (drv w)"
  by (induction rule: rtranclp_induct) (auto dest: ctrl_step_deleting)

text \<open>A reset that is refused.\<close>

lemma wp_reset_refused:
  assumes "\<not> ctrl_state_change (ctrl_state (drv w)) NVME_CTRL_RESETTING"
  shows "wp (nvme_reset_ctrl E) (\<lambda>r w'. r = - EBUSY \<and> drv w' = drv w
     \<and> (\<exists>new. hist w' = hist w @ new \<and> list_all is_core (reqs new))) w"
  unfolding nvme_reset_ctrl_def
  by (intro wp_bindI wp_nvme_change_ctrl_state) (use assms in \<open>simp add: wp_simps\<close>)

section \<open>What the core relies on of the register functions\<close>

text \<open>The contract of \<open>ctrl->ops\<close>: a register function makes one access to its register of the
  region \<open>base\<close> and succeeds.\<close>

locale nvme_reg_ops =
  fixes E :: nvme_env
    and ops :: "'d nvme_ctrl_ops"
    and base :: mmio
  assumes read32: "reg_read32 ops off = do { r \<leftarrow> call E (Readl (base, off)); return (0, ucast (snd r)) }"
    and write32: "reg_write32 ops off v = do { exec E (Writel (base, off) v); return 0 }"
    and read64: "reg_read64 ops off = do { r \<leftarrow> call E (Readq (base, off)); return (0, snd r) }"

text \<open>The number of sleeps in a history, and that \<open>n\<close> sleeps after \<open>h\<close> outlast \<open>d\<close> ticks of the clock.\<close>

definition sleeps :: "(nvme_req \<times> nvme_resp) list \<Rightarrow> nat" where
  "sleeps h = length (filter (\<lambda>q. q = Core UsleepRange) (reqs h))"

lemma sleeps_simps [simp]:
  "sleeps [] = 0" "sleeps (x # h) = (if fst x = Core UsleepRange then Suc (sleeps h) else sleeps h)"
  "sleeps (h @ k) = sleeps h + sleeps k"
  by (simp_all add: sleeps_def)

definition sleeps_outlast :: "nvme_env \<Rightarrow> (nvme_req \<times> nvme_resp) list \<Rightarrow> nat \<Rightarrow> u64 \<Rightarrow> bool" where
  "sleeps_outlast E h n d \<longleftrightarrow> (\<forall>new. sleeps new = n \<longrightarrow>
     time_after (snd (E (h @ new) (Core Jiffies))) (snd (E h (Core Jiffies)) + d))"

definition no_write :: "nvme_req \<Rightarrow> bool" where
  "no_write q = (case q of Writel r v \<Rightarrow> False | Writeq r v \<Rightarrow> False | _ \<Rightarrow> True)"

text \<open>The register writes among some requests, and the last request with its response.\<close>

definition bus_writes :: "nvme_req list \<Rightarrow> nvme_req list" where
  "bus_writes qs = filter (\<lambda>q. \<not> no_write q) qs"

lemma bus_writes_simps [simp]:
  "bus_writes [] = []" "bus_writes (q # qs) = (if no_write q then bus_writes qs else q # bus_writes qs)"
  "bus_writes (qs @ qs') = bus_writes qs @ bus_writes qs'"
  by (simp_all add: bus_writes_def)

lemma bus_writes_none: "list_all no_write qs \<Longrightarrow> bus_writes qs = []"
  by (induction qs) auto

definition last_read :: "(nvme_req \<times> nvme_resp) list \<Rightarrow> reg \<Rightarrow> u32 \<Rightarrow> bool" where
  "last_read h r v \<longleftrightarrow> h \<noteq> [] \<and> fst (last h) = Readl r \<and> ucast (snd (snd (last h))) = v"

context nvme_reg_ops
begin

lemma wp_read32 [wp_intros]:
  "(\<And>r. answers E (hist w) (Readl (base, off)) r \<Longrightarrow> Q (0, ucast (snd r)) (w\<lparr>hist := hist w @ [(Readl (base, off), r)]\<rparr>)) \<Longrightarrow>
   wp (reg_read32 ops off) Q w"
  unfolding read32 by (intro wp_intros) simp

lemma wp_read64 [wp_intros]:
  "(\<And>r. answers E (hist w) (Readq (base, off)) r \<Longrightarrow> Q (0, snd r) (w\<lparr>hist := hist w @ [(Readq (base, off), r)]\<rparr>)) \<Longrightarrow>
   wp (reg_read64 ops off) Q w"
  unfolding read64 by (intro wp_intros) simp

lemma wp_write32 [wp_intros]:
  "(\<And>r. answers E (hist w) (Writel (base, off) v) r \<Longrightarrow> Q 0 (w\<lparr>hist := hist w @ [(Writel (base, off) v, r)]\<rparr>)) \<Longrightarrow>
   wp (reg_write32 ops off v) Q w"
  unfolding write32 by (intro wp_intros) simp

lemma wait_loop_result:
  "wp (wait_ready_loop n E K ops msk val t) (\<lambda>r w'. drv w' = drv w
     \<and> (\<exists>new. hist w' = hist w @ new \<and> list_all no_write (reqs new)
         \<and> (r = Some 0 \<longrightarrow> (\<exists>v. last_read new (base, NVME_REG_CSTS K) v \<and> v AND msk = val)))) w"
proof (induction n arbitrary: w)
  case 0
  show ?case by (simp add: wp_simps)
next
  case (Suc n)
  show ?case
    unfolding wait_ready_loop.simps
    apply (intro wp_intros)
    apply (auto simp: no_write_def last_read_def)[4]
    apply (auto simp: no_write_def last_read_def)[1]
    apply (rule wp_mono [OF Suc])
    apply (auto simp: no_write_def last_read_def)
    done
qed

lemma wait_loop_ends:
  assumes "hist w = h @ new" and "n \<le> sleeps new + m" and "sleeps new < n"
    and out: "\<And>new. sleeps new = n \<Longrightarrow> time_after (snd (E (h @ new) (Core Jiffies))) t"
  shows "wp (wait_ready_loop m E K ops msk val t) (\<lambda>r _. r \<noteq> None) w"
  using assms(1-3)
proof (induction m arbitrary: w new)
  case 0
  then show ?case by simp
next
  case (Suc m)
  show ?case
    unfolding wait_ready_loop.simps
    apply (intro wp_intros)
         apply simp_all[5]
    subgoal for r ret csts a sig b c now x
      using out [of "new @ [(Readl (base, NVME_REG_CSTS K), r), (Core UsleepRange, a), (Core FatalSignalPending, sig)]"]
        Suc.prems
      by (intro Suc.IH [where new = "new @ [(Readl (base, NVME_REG_CSTS K), r), (Core UsleepRange, a),
            (Core FatalSignalPending, sig), (Core Jiffies, now)]"])
        (auto simp: answers_def intro!: Suc_lessI)
    done
qed

lemma wait_ready_ends:
  assumes "sleeps_outlast E (hist w) n (ucast (timeout * HZ K))" and "0 < n"
  shows "wp (nvme_wait_ready n E K ops msk val timeout) (\<lambda>r _. r \<noteq> None) w"
  unfolding nvme_wait_ready_def
  apply (intro wp_intros)
  subgoal for r x now
    by (rule wait_loop_ends [where h = "hist w" and new = "[(Core Jiffies, r)]" and n = n])
      (use assms in \<open>auto simp: sleeps_outlast_def answers_def\<close>)
  done

lemma wait_ready_result:
  "wp (nvme_wait_ready n E K ops msk val timeout) (\<lambda>r w'. drv w' = drv w
     \<and> (\<exists>new. hist w' = hist w @ new \<and> list_all no_write (reqs new)
         \<and> (r = Some 0 \<longrightarrow> (\<exists>v. last_read new (base, NVME_REG_CSTS K) v \<and> v AND msk = val)))) w"
  unfolding nvme_wait_ready_def
  by (intro wp_intros wp_mono [OF wait_loop_result]) (auto simp: no_write_def last_read_def)

end

text \<open>The configuration word \<open>nvme_disable_ctrl\<close> writes.\<close>

definition disable_config :: "('x) nvme_consts_scheme \<Rightarrow> bool \<Rightarrow> u32 \<Rightarrow> u32" where
  "disable_config K shutdown cc =
     (if shutdown then cc AND NOT (NVME_CC_SHN_MASK K) OR NVME_CC_SHN_NORMAL K
      else (cc AND NOT (NVME_CC_SHN_MASK K)) AND NOT (NVME_CC_ENABLE K))"

text \<open>What enabling the controller leaves: the capabilities are read first; a controller whose minimum page
  size is too large is refused before anything is written; otherwise the configuration is written
  without and then with the enable bit, and success means the status register was last seen ready.\<close>

definition enables :: "('x) nvme_consts_scheme \<Rightarrow> mmio \<Rightarrow> int option \<Rightarrow> (nvme_req \<times> nvme_resp) list \<Rightarrow> 'c nvme_ctrl_scheme \<Rightarrow> 'c nvme_ctrl_scheme \<Rightarrow> bool" where
  "enables K base r new c c' \<longleftrightarrow>
     (let v = snd (snd (hd new)); cc = enable_config K v
      in new \<noteq> [] \<and> fst (hd new) = Readq (base, NVME_REG_CAP K)
       \<and> (if NVME_CTRL_PAGE_SHIFT K < NVME_CAP_MPSMIN K v + 12
          then r = Some (- ENODEV) \<and> bus_writes (reqs new) = [] \<and> c' = c\<lparr>cap := v\<rparr>
          else bus_writes (reqs new) = [Writel (base, NVME_REG_CC K) cc,
                 Writel (base, NVME_REG_CC K) (cc OR NVME_CC_ENABLE K)]
            \<and> (\<exists>u. c' = c\<lparr>cap := u, ctrl_config := cc OR NVME_CC_ENABLE K\<rparr>)
            \<and> (r = Some 0 \<longrightarrow> (\<exists>s. last_read new (base, NVME_REG_CSTS K) s \<and> s AND NVME_CSTS_RDY K = NVME_CSTS_RDY K))))"

locale nvme_ctrl_reg_ops = nvme_reg_ops E ops base
  for E :: nvme_env and ops :: "('c nvme_ctrl_scheme) nvme_ctrl_ops" and base :: mmio
begin

lemma disable_ctrl_result:
  "wp (nvme_disable_ctrl n E K ops shutdown) (\<lambda>r w'.
     drv w' = (drv w)\<lparr>ctrl_config := disable_config K shutdown (ctrl_config (drv w))\<rparr>
     \<and> (\<exists>new. hist w' = hist w @ new
         \<and> bus_writes (reqs new) = [Writel (base, NVME_REG_CC K) (disable_config K shutdown (ctrl_config (drv w)))]
         \<and> (r = Some 0 \<longrightarrow> (\<exists>v. last_read new (base, NVME_REG_CSTS K) v
              \<and> v AND (if shutdown then NVME_CSTS_SHST_MASK K else NVME_CSTS_RDY K)
                  = (if shutdown then NVME_CSTS_SHST_CMPLT K else 0))))) w"
  unfolding nvme_disable_ctrl_def
  by (intro wp_intros wp_mono [OF wait_ready_result])
    (auto simp: disable_config_def no_write_def bus_writes_none last_read_def)

lemma enable_timeout_result:
  "wp (enable_timeout K ops capv) (\<lambda>t w'. drv w' = drv w \<and> (\<exists>u. t = Inr u)
     \<and> (\<exists>new. hist w' = hist w @ new \<and> list_all no_write (reqs new))) w"
  unfolding enable_timeout_def
  by (intro wp_intros) (auto simp: no_write_def)

lemma enable_ctrl_result:
  "wp (nvme_enable_ctrl n E K ops) (\<lambda>r w'. \<exists>new. hist w' = hist w @ new \<and> enables K base r new (drv w) (drv w')) w"
  unfolding nvme_enable_ctrl_def
  by (intro wp_intros wp_mono [OF enable_timeout_result] wp_mono [OF wait_ready_result])
    ((auto simp: enables_def no_write_def bus_writes_none last_read_def)[1]; auto simp: Let_def)+

end

section \<open>Properties\<close>

text \<open>C22. Deletion is final. From a controller that is being deleted or is dead, no sequence of core
  operations leads to any other state and no reset is counted, and a reset request is then refused with
  \<open>-EBUSY\<close> without queueing the reset work or touching the controller.\<close>

theorem ctrl_deleting_final:
  assumes "(ctrl_step E)\<^sup>*\<^sup>* w w'" and "deleting (ctrl_state (drv w))"
    and "run_state (nvme_reset_ctrl E) w' = (r, w'')"
  shows "deleting (ctrl_state (drv w')) \<and> nr_reset (drv w') = nr_reset (drv w) \<and> r = - 16
     \<and> drv w'' = drv w' \<and> (\<exists>new. hist w'' = hist w' @ new \<and> list_all is_core (reqs new))"
proof -
  from ctrl_steps_deleting [OF assms(1,2)] have d: "deleting (ctrl_state (drv w'))"
    and n: "nr_reset (drv w') = nr_reset (drv w)" by auto
  from d have "\<not> ctrl_state_change (ctrl_state (drv w')) NVME_CTRL_RESETTING"
    by (auto simp: deleting_def ctrl_state_change_def)
  from wpD [OF wp_reset_refused [OF this] assms(3)] d n show ?thesis by simp
qed

text \<open>A retryable command that meets a controller which is not ready is never failed while the
  controller is new, live or resetting: whatever core operations led there from a fresh controller, it is
  handed back for requeueing and nothing else happens. Once the controller is being deleted the same
  command is failed over the host path error, exactly once.\<close>

theorem nonready_requeued_or_failed:
  assumes "(ctrl_step E)\<^sup>*\<^sup>* w w'" and "opts (drv w) \<noteq> None" and "\<not> failfast_expired (drv w)"
    and "run_state (nvme_fail_nonready_command E rq False dontprep) w' = (sts, w'')"
  shows "(ctrl_state (drv w') = NVME_CTRL_NEW \<or> ctrl_state (drv w') = NVME_CTRL_LIVE
       \<or> ctrl_state (drv w') = NVME_CTRL_RESETTING \<longrightarrow> sts = BLK_STS_RESOURCE \<and> w'' = w')
     \<and> (deleting (ctrl_state (drv w')) \<longrightarrow> sts = BLK_STS_OK \<and> drv w'' = drv w'
         \<and> reqs (hist w'') = reqs (hist w') @ (if dontprep then [] else [Core (ClearNvmeRequest rq)]) @ [Core (HostPathError rq)])"
proof -
  have "failfast_inv (drv w)" using assms(2,3) by (simp add: failfast_inv_def)
  with assms(1) have "failfast_inv (drv w')" by (rule ctrl_steps_failfast_inv)
  then have "wp (nvme_fail_nonready_command E rq False dontprep) (\<lambda>sts w''.
      (ctrl_state (drv w') = NVME_CTRL_NEW \<or> ctrl_state (drv w') = NVME_CTRL_LIVE
       \<or> ctrl_state (drv w') = NVME_CTRL_RESETTING \<longrightarrow> sts = BLK_STS_RESOURCE \<and> w'' = w')
     \<and> (deleting (ctrl_state (drv w')) \<longrightarrow> sts = BLK_STS_OK \<and> drv w'' = drv w'
         \<and> reqs (hist w'') = reqs (hist w') @ (if dontprep then [] else [Core (ClearNvmeRequest rq)]) @ [Core (HostPathError rq)])) w'"
    unfolding nvme_fail_nonready_command_def
    by (auto simp: wp_simps failfast_inv_def deleting_def)
  from wpD [OF this assms(4)] show ?thesis .
qed

section \<open>Witnesses\<close>

definition ctrl0 :: nvme_ctrl where
  "ctrl0 = \<lparr>ctrl_state = NVME_CTRL_NEW, nr_reset = 0, failfast_expired = False, stopped = False,
     admin_q_stopped = False, frozen = False, opts = Some 5, ctrl_config = 0, cap = 0,
     shutdown_timeout = 5, delay_before_chk_rdy = False, has_tagset = True, has_admin_tagset = True,
     namespaces = [1], io_timeout = 30, max_hw_sectors = 0, max_segments = 0, sqsize = 0,
     queue_count = 0, has_admin_q = True\<rparr>"

definition yes_E :: nvme_env where "yes_E h q = (1, 0)"

definition ctrl_w :: "nvme_ctrl_state \<Rightarrow> (nvme_req, nvme_resp, nvme_ctrl) world" where
  "ctrl_w s = \<lparr>hist = [], drv = ctrl0\<lparr>ctrl_state := s\<rparr>\<rparr>"

theorem ctrl_deleting_final_witness:
  "\<exists>w'. run_state (nvme_change_ctrl_state yes_E NVME_CTRL_DEAD) (ctrl_w NVME_CTRL_DELETING) = (True, w')
     \<and> ctrl_state (drv w') = NVME_CTRL_DEAD \<and> fst (run_state (nvme_reset_ctrl yes_E) w') = - 16"
proof -
  let ?w = "ctrl_w NVME_CTRL_DELETING"
  let ?r = "run_state (nvme_change_ctrl_state yes_E NVME_CTRL_DEAD) ?w"
  have r: "fst ?r = True" "ctrl_state (drv (snd ?r)) = NVME_CTRL_DEAD" by code_simp+
  have "ctrl_step yes_E ?w (snd ?r)" by (rule ctrl_step.change [of _ NVME_CTRL_DEAD _ "fst ?r"]) simp
  then have s: "(ctrl_step yes_E)\<^sup>*\<^sup>* ?w (snd ?r)" by (rule r_into_rtranclp)
  have d: "deleting (ctrl_state (drv ?w))" by (simp add: ctrl_w_def deleting_def)
  have "fst (run_state (nvme_reset_ctrl yes_E) (snd ?r)) = - 16"
    using ctrl_deleting_final [OF s d prod.collapse [symmetric]] by simp
  with r show ?thesis by (intro exI [of _ "snd ?r"]) (simp add: prod_eq_iff)
qed

theorem nonready_requeued_or_failed_witness:
  "run_state (nvme_fail_nonready_command yes_E 7 False False) (ctrl_w NVME_CTRL_LIVE) = (BLK_STS_RESOURCE, ctrl_w NVME_CTRL_LIVE)"
proof -
  have o: "opts (drv (ctrl_w NVME_CTRL_LIVE)) \<noteq> None" "\<not> failfast_expired (drv (ctrl_w NVME_CTRL_LIVE))"
    "ctrl_state (drv (ctrl_w NVME_CTRL_LIVE)) = NVME_CTRL_LIVE"
    by (simp_all add: ctrl_w_def ctrl0_def)
  from nonready_requeued_or_failed [OF rtranclp.rtrancl_refl o(1,2) prod.collapse [symmetric]] o(3)
  show ?thesis by (simp add: prod_eq_iff)
qed

end
