(* ===== verification/Nvme_Cmd.thy ===== *)
theory Nvme_Cmd
  imports Wallace_Prelude
begin

text \<open>
  Requests in the NVMe core, \<open>sources/asahi--drivers__nvme__host__core.c\<close>: building the command of a request, deciding what becomes of it when it completes, and cleaning
  up after it.

  The constants and inline functions of kernel headers are parameters (\<open>cmd_hdr\<close>), as is what the block layer tells of a request (\<open>rq_ctx\<close>); flag words are records of booleans. The fields of
  \<open>nvme_command\<close> are those that this code sets; the layouts of the union that it sets have fields of their own. On the machine, little endian is the identity. The state is that of
  one request and of the controller's \<open>comp_seen\<close>; the controller's spare page for discards is shared with other requests, so its lock is a request to the environment.

  Proved: a completed request is ended, retried or failed over exactly once, with the status of its command, and a request that goes on failing is ended after a bounded number of retries; the memory of a discard
  is released exactly once on every path; a discard lists the blocks of its parts; reads and writes name the blocks of the request; atomic writes are refused
  exactly when they cross a boundary or are too large.
\<close>

section \<open>Data\<close>

datatype nvme_sc =
    NVME_SC_SUCCESS | NVME_SC_CAP_EXCEEDED | NVME_SC_LBA_RANGE | NVME_SC_CMD_INTERRUPTED | NVME_SC_NS_NOT_READY | NVME_SC_BAD_ATTRIBUTES | NVME_SC_INVALID_OPCODE | NVME_SC_INVALID_FIELD
  | NVME_SC_INVALID_NS | NVME_SC_WRITE_FAULT | NVME_SC_READ_ERROR | NVME_SC_UNWRITTEN_BLOCK | NVME_SC_ACCESS_DENIED | NVME_SC_READ_ONLY | NVME_SC_COMPARE_FAILED | NVME_SC_GUARD_CHECK
  | NVME_SC_APPTAG_CHECK | NVME_SC_REFTAG_CHECK | NVME_SC_INVALID_PI | NVME_SC_RESERVATION_CONFLICT | NVME_SC_HOST_PATH_ERROR | NVME_SC_ZONE_TOO_MANY_ACTIVE | NVME_SC_ZONE_TOO_MANY_OPEN
  | NVME_SC_AUTH_REQUIRED | NVME_SC_HOST_ABORTED_CMD

datatype blk_status_t =
    BLK_STS_OK | BLK_STS_NOSPC | BLK_STS_TARGET | BLK_STS_NOTSUPP | BLK_STS_MEDIUM | BLK_STS_PROTECTION | BLK_STS_RESV_CONFLICT | BLK_STS_TRANSPORT | BLK_STS_ZONE_ACTIVE_RESOURCE
  | BLK_STS_ZONE_OPEN_RESOURCE | BLK_STS_IOERR | BLK_STS_RESOURCE | BLK_STS_INVAL

datatype req_op =
    REQ_OP_DRV_IN | REQ_OP_DRV_OUT | REQ_OP_FLUSH | REQ_OP_ZONE_RESET_ALL | REQ_OP_ZONE_RESET | REQ_OP_ZONE_OPEN | REQ_OP_ZONE_CLOSE | REQ_OP_ZONE_FINISH | REQ_OP_WRITE_ZEROES | REQ_OP_DISCARD
  | REQ_OP_READ | REQ_OP_WRITE | REQ_OP_ZONE_APPEND | REQ_OP_OTHER

datatype zone_action = NVME_ZONE_RESET | NVME_ZONE_OPEN | NVME_ZONE_CLOSE | NVME_ZONE_FINISH

datatype nvme_disposition = COMPLETE | RETRY | FAILOVER | AUTHENTICATE

record cmd_flags =
  REQ_FUA :: bool
  REQ_FAILFAST_DEV :: bool
  REQ_FAILFAST_TRANSPORT :: bool
  REQ_FAILFAST_DRIVER :: bool
  REQ_RAHEAD :: bool
  REQ_ATOMIC :: bool
  REQ_NOUNMAP :: bool
  REQ_NVME_MPATH :: bool
  REQ_POLLED :: bool

record nvme_command =
  c_opcode :: u8
  c_flags :: u8
  command_id :: u16
  nsid :: u32
  cdw2 :: u32
  cdw3 :: u32
  metadata :: u64
  slba :: u64
  nlb :: u16
  control :: u16
  dsmgmt :: u32
  reftag :: u32
  lbat :: u16
  lbatm :: u16
  dsm_nr :: u32
  dsm_attributes :: u32

definition zero_cmd :: nvme_command where
  "zero_cmd = \<lparr>c_opcode = 0, c_flags = 0, command_id = 0, nsid = 0, cdw2 = 0, cdw3 = 0, metadata = 0, slba = 0, nlb = 0, control = 0, dsmgmt = 0, reftag = 0, lbat = 0, lbatm = 0,
     dsm_nr = 0, dsm_attributes = 0\<rparr>"

record nvme_dsm_range =
  r_cattr :: u32
  r_nlb :: u32
  r_slba :: u64

record ns_head =
  ns_id :: u32
  lba_shift :: nat
  ms :: u16
  pi_type :: u8
  guard_type :: u8
  ns_has_pi :: bool
  ns_deac :: bool
  nr_plids :: u16
  plids :: "u16 list"

record cmd_hdr =
  sc :: "nvme_sc \<Rightarrow> u16"
  NVME_SCT_SC_MASK :: u16
  NVME_STATUS_CRD :: u16
  NVME_STATUS_DNR :: u16
  nvme_cmd_flush :: u8
  nvme_cmd_write :: u8
  nvme_cmd_read :: u8
  nvme_cmd_write_zeroes :: u8
  nvme_cmd_dsm :: u8
  nvme_cmd_zone_append :: u8
  NVME_DSMGMT_AD :: u32
  NVME_DSM_MAX_RANGES :: nat
  NVME_RW_FUA :: u16
  NVME_RW_LR :: u16
  NVME_RW_DSM_FREQ_PREFETCH :: u32
  NVME_RW_DTYPE_DPLCMT :: u16
  NVME_RW_PRINFO_PRACT :: u16
  NVME_RW_PRINFO_PRCHK_GUARD :: u16
  NVME_RW_PRINFO_PRCHK_REF :: u16
  NVME_RW_PRINFO_PRCHK_APP :: u16
  NVME_RW_APPEND_PIREMAP :: u16
  NVME_WZ_DEAC :: u16
  NVME_NS_DPS_PI_TYPE1 :: u8
  NVME_NS_DPS_PI_TYPE2 :: u8
  NVME_NVM_NS_16B_GUARD :: u8
  NVME_NVM_NS_64B_GUARD :: u8
  NVME_REQ_CANCELLED :: u8
  NVME_CMD_SGL_ALL :: u8
  nvme_sect_to_lba :: "ns_head \<Rightarrow> u64 \<Rightarrow> u64"
  nvme_lba_to_sect :: "ns_head \<Rightarrow> u64 \<Rightarrow> u64"
  nvme_is_path_error :: "u16 \<Rightarrow> bool"
  blk_noretry :: "cmd_flags \<Rightarrow> bool"
  CONFIG_BLK_DEV_ZONED :: bool
  CONFIG_NVME_HOST_AUTH :: bool
  nvme_max_retries :: u8

text \<open>What the block layer says of a request, and what its queue and controller are.\<close>

record rq_ctx =
  op :: req_op
  passthrough :: bool
  pos :: u64
  bytes :: u32
  sectors :: u32
  segments :: u16
  max_discard_segments :: u16
  bios :: "(u64 \<times> u32) list"
  write_stream :: u16
  integrity_rq :: bool
  check_guard :: bool
  check_reftag :: bool
  check_apptag :: bool
  app_tag :: u16
  t10_ref :: u32
  ext_ref :: u64
  atomic_unit_max :: u32
  atomic_boundary :: u32
  cid :: u16
  deadline :: u64
  rq_timeout :: u32
  poll_hctx :: bool
  queuedata :: "ns_head option"
  passthru_err_log :: bool
  quirk_deallocate_zeroes :: bool
  crdt :: "u16 list"
  kas :: u16
  ka_last_check_time :: u64

datatype range_mem = Allocated | DiscardPage

record nvme_rq =
  rq_cmd_flags :: cmd_flags
  dontprep :: bool
  quiet_rq :: bool
  special :: "(range_mem \<times> (nat \<rightharpoonup> nvme_dsm_range)) option"
  rq_sector :: u64
  nr_status :: u16
  nr_retries :: u8
  nr_flags :: u8
  nr_result :: u64
  nr_cmd :: nvme_command
  comp_seen :: bool

datatype nc_req =
    KzallocRange nat | KfreeRange | DiscardPageTryLock | DiscardPageUnlock | WarnOnce | LogError | LogErrPassthru | NsErrorsInc | CtrlErrorsInc | NsRetriesInc | TraceBioComplete | MpathEndRequest
  | EndRequest blk_status_t | RequeueRequest | DelayKick u64 | FailoverReq | QueueAuthWork | QueueDying | SetRequestComplete | CompleteRequest | InFlight | ZoneMgmtSend zone_action

datatype nc_resp = NDone | NBool bool | NCmd blk_status_t nvme_command

type_synonym nc_env = "(nc_req, nc_resp) env"
type_synonym nc_world = "(nc_req, nc_resp, nvme_rq) world"
type_synonym 'a nc_prog = "(nc_req, nc_resp, nvme_rq, 'a) prog"

section \<open>Completion\<close>

definition nvme_error_status :: "cmd_hdr \<Rightarrow> u16 \<Rightarrow> blk_status_t" where
  "nvme_error_status H status =
     (let s = status AND NVME_SCT_SC_MASK H;
          is = (\<lambda>cs. list_ex (\<lambda>c. s = sc H c) cs)
      in if is [NVME_SC_SUCCESS] then BLK_STS_OK
         else if is [NVME_SC_CAP_EXCEEDED] then BLK_STS_NOSPC
         else if is [NVME_SC_LBA_RANGE, NVME_SC_CMD_INTERRUPTED, NVME_SC_NS_NOT_READY] then BLK_STS_TARGET
         else if is [NVME_SC_BAD_ATTRIBUTES, NVME_SC_INVALID_OPCODE, NVME_SC_INVALID_FIELD, NVME_SC_INVALID_NS] then BLK_STS_NOTSUPP
         else if is [NVME_SC_WRITE_FAULT, NVME_SC_READ_ERROR, NVME_SC_UNWRITTEN_BLOCK, NVME_SC_ACCESS_DENIED, NVME_SC_READ_ONLY, NVME_SC_COMPARE_FAILED] then BLK_STS_MEDIUM
         else if is [NVME_SC_GUARD_CHECK, NVME_SC_APPTAG_CHECK, NVME_SC_REFTAG_CHECK, NVME_SC_INVALID_PI] then BLK_STS_PROTECTION
         else if is [NVME_SC_RESERVATION_CONFLICT] then BLK_STS_RESV_CONFLICT
         else if is [NVME_SC_HOST_PATH_ERROR] then BLK_STS_TRANSPORT
         else if is [NVME_SC_ZONE_TOO_MANY_ACTIVE] then BLK_STS_ZONE_ACTIVE_RESOURCE
         else if is [NVME_SC_ZONE_TOO_MANY_OPEN] then BLK_STS_ZONE_OPEN_RESOURCE
         else BLK_STS_IOERR)"

definition retry_delay :: "cmd_hdr \<Rightarrow> rq_ctx \<Rightarrow> u16 \<Rightarrow> u64" where
  "retry_delay H C status = (let crd = drop_bit 11 (status AND NVME_STATUS_CRD H) in if crd \<noteq> 0 then ucast (crdt C ! (unat crd - 1)) * 100 else 0)"

definition nvme_retry_req :: "nc_env \<Rightarrow> cmd_hdr \<Rightarrow> rq_ctx \<Rightarrow> unit nc_prog" where
  "nvme_retry_req E H C = do {
     r \<leftarrow> getd;
     let delay = retry_delay H C (nr_status r);
     modd (\<lambda>r. r\<lparr>nr_retries := nr_retries r + 1\<rparr>);
     whenM (queuedata C \<noteq> None) (exec E NsRetriesInc);
     exec E RequeueRequest;
     exec E (DelayKick delay)
   }"

fun nbool :: "nc_resp \<Rightarrow> bool" where
  "nbool (NBool b) = b"
| "nbool r = False"

definition nvme_decide_disposition :: "nc_env \<Rightarrow> cmd_hdr \<Rightarrow> nvme_disposition nc_prog" where
  "nvme_decide_disposition E H = do {
     r \<leftarrow> getd;
     if nr_status r = 0 then return COMPLETE
     else if blk_noretry H (rq_cmd_flags r) \<or> nr_status r AND NVME_STATUS_DNR H \<noteq> 0 \<or> nvme_max_retries H \<le> nr_retries r then return COMPLETE
     else if nr_status r AND NVME_SCT_SC_MASK H = sc H NVME_SC_AUTH_REQUIRED then return AUTHENTICATE
     else if REQ_NVME_MPATH (rq_cmd_flags r) then
       (if nvme_is_path_error H (nr_status r) then return FAILOVER
        else do { d \<leftarrow> call E QueueDying; return (if nbool d then FAILOVER else RETRY) })
     else do { d \<leftarrow> call E QueueDying; return (if nbool d then COMPLETE else RETRY) }
   }"

definition nvme_end_req_zoned :: "cmd_hdr \<Rightarrow> rq_ctx \<Rightarrow> unit nc_prog" where
  "nvme_end_req_zoned H C =
     (case queuedata C of
        None \<Rightarrow> return ()
      | Some head \<Rightarrow> whenM (CONFIG_BLK_DEV_ZONED H \<and> op C = REQ_OP_ZONE_APPEND) (modd (\<lambda>r. r\<lparr>rq_sector := nvme_lba_to_sect H head (nr_result r)\<rparr>)))"

definition nvme_end_req_inner :: "nc_env \<Rightarrow> cmd_hdr \<Rightarrow> rq_ctx \<Rightarrow> unit nc_prog" where
  "nvme_end_req_inner E H C = do {
     r \<leftarrow> getd;
     whenM (nr_status r \<noteq> 0 \<and> \<not> quiet_rq r) (do {
       exec E (if passthrough C then LogErrPassthru else LogError);
       exec E (if queuedata C \<noteq> None then NsErrorsInc else CtrlErrorsInc)
     });
     nvme_end_req_zoned H C;
     exec E TraceBioComplete;
     whenM (REQ_NVME_MPATH (rq_cmd_flags r)) (exec E MpathEndRequest)
   }"

definition nvme_end_req :: "nc_env \<Rightarrow> cmd_hdr \<Rightarrow> rq_ctx \<Rightarrow> unit nc_prog" where
  "nvme_end_req E H C = do {
     r \<leftarrow> getd;
     let status = nvme_error_status H (nr_status r);
     nvme_end_req_inner E H C;
     exec E (EndRequest status)
   }"

definition nvme_cleanup_cmd :: "nc_env \<Rightarrow> unit nc_prog" where
  "nvme_cleanup_cmd E = do {
     r \<leftarrow> getd;
     case special r of
       None \<Rightarrow> return ()
     | Some (mem, ranges) \<Rightarrow> do {
         exec E (if mem = DiscardPage then DiscardPageUnlock else KfreeRange);
         modd (\<lambda>r. r\<lparr>special := None\<rparr>)
       }
   }"

definition dispose :: "nc_env \<Rightarrow> cmd_hdr \<Rightarrow> rq_ctx \<Rightarrow> nvme_disposition \<Rightarrow> unit nc_prog" where
  "dispose E H C d =
     (case d of
        COMPLETE \<Rightarrow> nvme_end_req E H C
      | RETRY \<Rightarrow> nvme_retry_req E H C
      | FAILOVER \<Rightarrow> exec E FailoverReq
      | AUTHENTICATE \<Rightarrow>
          if CONFIG_NVME_HOST_AUTH H then do { exec E QueueAuthWork; nvme_retry_req E H C }
          else nvme_end_req E H C)"

definition nvme_complete_rq :: "nc_env \<Rightarrow> cmd_hdr \<Rightarrow> rq_ctx \<Rightarrow> unit nc_prog" where
  "nvme_complete_rq E H C = do {
     nvme_cleanup_cmd E;
     whenM (kas C \<noteq> 0 \<and> ka_last_check_time C \<le> deadline C - ucast (rq_timeout C)) (modd (\<lambda>r. r\<lparr>comp_seen := True\<rparr>));
     d \<leftarrow> nvme_decide_disposition E H;
     dispose E H C d
   }"

definition nvme_complete_batch_req :: "nc_env \<Rightarrow> cmd_hdr \<Rightarrow> rq_ctx \<Rightarrow> unit nc_prog" where
  "nvme_complete_batch_req E H C = do { nvme_cleanup_cmd E; nvme_end_req_inner E H C }"

definition nvme_host_path_error :: "nc_env \<Rightarrow> cmd_hdr \<Rightarrow> rq_ctx \<Rightarrow> blk_status_t nc_prog" where
  "nvme_host_path_error E H C = do {
     modd (\<lambda>r. r\<lparr>nr_status := sc H NVME_SC_HOST_PATH_ERROR\<rparr>);
     exec E SetRequestComplete;
     nvme_complete_rq E H C;
     return BLK_STS_OK
   }"

definition nvme_cancel_request :: "nc_env \<Rightarrow> cmd_hdr \<Rightarrow> bool nc_prog" where
  "nvme_cancel_request E H = do {
     s \<leftarrow> call E InFlight;
     if \<not> nbool s then return True
     else do {
       modd (\<lambda>r. r\<lparr>nr_status := sc H NVME_SC_HOST_ABORTED_CMD, nr_flags := nr_flags r OR NVME_REQ_CANCELLED H\<rparr>);
       exec E CompleteRequest;
       return True
     }
   }"

section \<open>Building a command\<close>

definition nvme_clear_nvme_request :: "unit nc_prog" where
  "nvme_clear_nvme_request = modd (\<lambda>r. r\<lparr>nr_status := 0, nr_retries := 0, nr_flags := 0, dontprep := True\<rparr>)"

definition nvme_init_request :: "cmd_hdr \<Rightarrow> rq_ctx \<Rightarrow> nvme_command \<Rightarrow> unit nc_prog" where
  "nvme_init_request H C cmd = do {
     whenM (\<not> passthru_err_log C) (modd (\<lambda>r. r\<lparr>quiet_rq := True\<rparr>));
     let cmd = cmd\<lparr>c_flags := c_flags cmd AND NOT (NVME_CMD_SGL_ALL H)\<rparr>;
     modd (\<lambda>r. r\<lparr>rq_cmd_flags := (rq_cmd_flags r)\<lparr>REQ_FAILFAST_DRIVER := True\<rparr>\<rparr>);
     whenM (poll_hctx C) (modd (\<lambda>r. r\<lparr>rq_cmd_flags := (rq_cmd_flags r)\<lparr>REQ_POLLED := True\<rparr>\<rparr>));
     nvme_clear_nvme_request;
     modd (\<lambda>r. r\<lparr>nr_cmd := cmd\<rparr>)
   }"

definition nvme_setup_flush :: "cmd_hdr \<Rightarrow> ns_head \<Rightarrow> unit nc_prog" where
  "nvme_setup_flush H head = modd (\<lambda>r. r\<lparr>nr_cmd := zero_cmd\<lparr>c_opcode := nvme_cmd_flush H, nsid := ns_id head\<rparr>\<rparr>)"

text \<open>The ranges of a discard: what is written into the array, by index, and the number of parts counted in 16 bits.\<close>

fun bio_ranges :: "cmd_hdr \<Rightarrow> ns_head \<Rightarrow> u16 \<Rightarrow> (u64 \<times> u32) list \<Rightarrow> u16 \<Rightarrow> (nat \<rightharpoonup> nvme_dsm_range) \<Rightarrow> u16 \<times> (nat \<rightharpoonup> nvme_dsm_range)" where
  "bio_ranges H head segs [] n rs = (n, rs)"
| "bio_ranges H head segs ((sector, sz) # bs) n rs =
     bio_ranges H head segs bs (n + 1)
       (if n < segs then rs(unat n \<mapsto> \<lparr>r_cattr = 0, r_nlb = drop_bit (lba_shift head) sz, r_slba = nvme_sect_to_lba H head sector\<rparr>) else rs)"

definition discard_ranges :: "cmd_hdr \<Rightarrow> rq_ctx \<Rightarrow> ns_head \<Rightarrow> u16 \<times> (nat \<rightharpoonup> nvme_dsm_range)" where
  "discard_ranges H C head =
     (if max_discard_segments C = 1
      then (1, [0 \<mapsto> \<lparr>r_cattr = 0, r_nlb = drop_bit (lba_shift head - 9) (sectors C), r_slba = nvme_sect_to_lba H head (pos C)\<rparr>])
      else bio_ranges H head (segments C) (bios C) 0 Map.empty)"

definition fill_discard :: "nc_env \<Rightarrow> cmd_hdr \<Rightarrow> rq_ctx \<Rightarrow> ns_head \<Rightarrow> range_mem \<Rightarrow> blk_status_t nc_prog" where
  "fill_discard E H C head mem =
     (case discard_ranges H C head of (n, rs) \<Rightarrow>
        if n \<noteq> segments C then do {
          exec E WarnOnce;
          exec E (if mem = DiscardPage then DiscardPageUnlock else KfreeRange);
          return BLK_STS_IOERR
        }
        else do {
          modd (\<lambda>r. r\<lparr>nr_cmd := zero_cmd\<lparr>c_opcode := nvme_cmd_dsm H, nsid := ns_id head, dsm_nr := ucast (segments C) - 1, dsm_attributes := NVME_DSMGMT_AD H\<rparr>,
            special := Some (mem, rs)\<rparr>);
          return BLK_STS_OK
        })"

definition nvme_setup_discard :: "nc_env \<Rightarrow> cmd_hdr \<Rightarrow> rq_ctx \<Rightarrow> ns_head \<Rightarrow> blk_status_t nc_prog" where
  "nvme_setup_discard E H C head = do {
     a \<leftarrow> call E (KzallocRange (16 * NVME_DSM_MAX_RANGES H));
     if nbool a then fill_discard E H C head Allocated
     else do {
       b \<leftarrow> call E DiscardPageTryLock;
       if nbool b then return BLK_STS_RESOURCE
       else fill_discard E H C head DiscardPage
     }
   }"

definition nvme_set_app_tag :: "rq_ctx \<Rightarrow> nvme_command \<Rightarrow> nvme_command" where
  "nvme_set_app_tag C cmnd = cmnd\<lparr>lbat := app_tag C, lbatm := 0xffff\<rparr>"

definition nvme_set_ref_tag :: "cmd_hdr \<Rightarrow> rq_ctx \<Rightarrow> ns_head \<Rightarrow> nvme_command \<Rightarrow> nvme_command" where
  "nvme_set_ref_tag H C head cmnd =
     (if pi_type head \<noteq> NVME_NS_DPS_PI_TYPE1 H \<and> pi_type head \<noteq> NVME_NS_DPS_PI_TYPE2 H then cmnd
      else if guard_type head = NVME_NVM_NS_16B_GUARD H then cmnd\<lparr>reftag := t10_ref C\<rparr>
      else if guard_type head = NVME_NVM_NS_64B_GUARD H then cmnd\<lparr>reftag := ucast (ext_ref C), cdw3 := ucast (drop_bit 32 (ext_ref C))\<rparr>
      else cmnd)"

text \<open>The last block of the request, counted from its first, as the 16 bits of the command hold it.\<close>

definition last_block :: "rq_ctx \<Rightarrow> ns_head \<Rightarrow> u16" where
  "last_block C head = ucast (drop_bit (lba_shift head) (bytes C) - 1)"

definition write_zeroes_cmd :: "cmd_hdr \<Rightarrow> rq_ctx \<Rightarrow> ns_head \<Rightarrow> cmd_flags \<Rightarrow> nvme_command" where
  "write_zeroes_cmd H C head f =
     (let cmnd = zero_cmd\<lparr>c_opcode := nvme_cmd_write_zeroes H, nsid := ns_id head, slba := nvme_sect_to_lba H head (pos C), nlb := last_block C head\<rparr>;
          cmnd = (if \<not> REQ_NOUNMAP f \<and> ns_deac head then cmnd\<lparr>control := control cmnd OR NVME_WZ_DEAC H\<rparr> else cmnd)
      in if ns_has_pi head then nvme_set_ref_tag H C head (cmnd\<lparr>control := control cmnd OR NVME_RW_PRINFO_PRACT H\<rparr>) else cmnd)"

definition nvme_setup_write_zeroes :: "nc_env \<Rightarrow> cmd_hdr \<Rightarrow> rq_ctx \<Rightarrow> ns_head \<Rightarrow> blk_status_t nc_prog" where
  "nvme_setup_write_zeroes E H C head = do {
     modd (\<lambda>r. r\<lparr>nr_cmd := zero_cmd\<rparr>);
     if quirk_deallocate_zeroes C then nvme_setup_discard E H C head
     else do {
       modd (\<lambda>r. r\<lparr>nr_cmd := write_zeroes_cmd H C head (rq_cmd_flags r)\<rparr>);
       return BLK_STS_OK
     }
   }"

definition nvme_valid_atomic_write :: "rq_ctx \<Rightarrow> bool" where
  "nvme_valid_atomic_write C =
     (if atomic_unit_max C < bytes C then False
      else if atomic_boundary C \<noteq> 0 then
        (let imask = NOT (ucast (atomic_boundary C - 1) :: u64);
             start = push_bit 9 (pos C);
             end = start + ucast (bytes C) - 1
         in if atomic_boundary C < bytes C then False else start AND imask = end AND imask)
      else True)"

text \<open>The placement hint of a write: the error, or what it adds to \<open>dsmgmt\<close> and \<open>control\<close>.\<close>

definition placement :: "cmd_hdr \<Rightarrow> rq_ctx \<Rightarrow> ns_head \<Rightarrow> u8 \<Rightarrow> (u32 \<times> u16) option" where
  "placement H C head opc =
     (if opc = nvme_cmd_write H \<and> nr_plids head \<noteq> 0 then
        if nr_plids head < write_stream C then None
        else if write_stream C \<noteq> 0 then Some (push_bit 16 (ucast (plids head ! (unat (write_stream C) - 1))), NVME_RW_DTYPE_DPLCMT H)
        else Some (0, 0)
      else Some (0, 0))"

definition rw_cmd :: "cmd_hdr \<Rightarrow> rq_ctx \<Rightarrow> ns_head \<Rightarrow> u8 \<Rightarrow> nvme_command \<Rightarrow> nvme_command" where
  "rw_cmd H C head opc cmnd = cmnd\<lparr>c_opcode := opc, c_flags := 0, nsid := ns_id head, cdw2 := 0, cdw3 := 0, metadata := 0, slba := nvme_sect_to_lba H head (pos C), nlb := last_block C head,
     reftag := 0, lbat := 0, lbatm := 0\<rparr>"

text \<open>The protection information of a namespace with metadata: the command and the control bits.\<close>

definition rw_pi :: "cmd_hdr \<Rightarrow> rq_ctx \<Rightarrow> ns_head \<Rightarrow> u8 \<Rightarrow> nvme_command \<times> u16 \<Rightarrow> nvme_command \<times> u16" where
  "rw_pi H C head opc x =
     (let (cmnd, ctl) = x;
          (cmnd, ctl) = (if \<not> integrity_rq C then (nvme_set_ref_tag H C head cmnd, ctl OR NVME_RW_PRINFO_PRACT H) else (cmnd, ctl));
          ctl = (if check_guard C then ctl OR NVME_RW_PRINFO_PRCHK_GUARD H else ctl);
          (cmnd, ctl) = (if check_reftag C
             then (nvme_set_ref_tag H C head cmnd, (ctl OR NVME_RW_PRINFO_PRCHK_REF H) OR (if opc = nvme_cmd_zone_append H then NVME_RW_APPEND_PIREMAP H else 0))
             else (cmnd, ctl))
      in if check_apptag C then (nvme_set_app_tag C cmnd, ctl OR NVME_RW_PRINFO_PRCHK_APP H) else (cmnd, ctl))"

definition rw_control :: "cmd_hdr \<Rightarrow> cmd_flags \<Rightarrow> u16" where
  "rw_control H f = (if REQ_FUA f then NVME_RW_FUA H else 0) OR (if REQ_FAILFAST_DEV f \<or> REQ_RAHEAD f then NVME_RW_LR H else 0)"

definition nvme_setup_rw :: "nc_env \<Rightarrow> cmd_hdr \<Rightarrow> rq_ctx \<Rightarrow> ns_head \<Rightarrow> u8 \<Rightarrow> blk_status_t nc_prog" where
  "nvme_setup_rw E H C head opc = do {
     r \<leftarrow> getd;
     let f = rq_cmd_flags r;
     case placement H C head opc of
       None \<Rightarrow> do { exec E WarnOnce; return BLK_STS_INVAL }
     | Some (hint, dtype) \<Rightarrow>
         if REQ_ATOMIC f \<and> \<not> nvme_valid_atomic_write C then return BLK_STS_INVAL
         else do {
           modd (\<lambda>r. r\<lparr>nr_cmd := rw_cmd H C head opc (nr_cmd r)\<rparr>);
           if ms head \<noteq> 0 \<and> \<not> integrity_rq C \<and> \<not> ns_has_pi head then do { exec E WarnOnce; return BLK_STS_NOTSUPP }
           else do {
             let ctl = rw_control H f OR dtype;
             let dsm = (if REQ_RAHEAD f then NVME_RW_DSM_FREQ_PREFETCH H else 0) OR hint;
             modd (\<lambda>r. case (if ms head \<noteq> 0 then rw_pi H C head opc (nr_cmd r, ctl) else (nr_cmd r, ctl)) of (cmnd, ctl) \<Rightarrow> r\<lparr>nr_cmd := cmnd\<lparr>control := ctl, dsmgmt := dsm\<rparr>\<rparr>);
             return BLK_STS_OK
           }
         }
   }"

definition zone_mgmt_send :: "nc_env \<Rightarrow> zone_action \<Rightarrow> blk_status_t nc_prog" where
  "zone_mgmt_send E a = do {
     x \<leftarrow> call E (ZoneMgmtSend a);
     case x of
       NCmd s cmnd \<Rightarrow> do { modd (\<lambda>r. r\<lparr>nr_cmd := cmnd\<rparr>); return s }
     | _ \<Rightarrow> return BLK_STS_OK
   }"

text \<open>The switch over the operation; \<open>None\<close> is the operation that is not known.\<close>

definition setup_op :: "nc_env \<Rightarrow> cmd_hdr \<Rightarrow> rq_ctx \<Rightarrow> ns_head \<Rightarrow> (blk_status_t option) nc_prog" where
  "setup_op E H C head =
     (let some = (\<lambda>m. do { s \<leftarrow> m; return (Some s) })
      in case op C of
           REQ_OP_DRV_IN \<Rightarrow> return (Some BLK_STS_OK)
         | REQ_OP_DRV_OUT \<Rightarrow> return (Some BLK_STS_OK)
         | REQ_OP_FLUSH \<Rightarrow> do { nvme_setup_flush H head; return (Some BLK_STS_OK) }
         | REQ_OP_ZONE_RESET_ALL \<Rightarrow> some (zone_mgmt_send E NVME_ZONE_RESET)
         | REQ_OP_ZONE_RESET \<Rightarrow> some (zone_mgmt_send E NVME_ZONE_RESET)
         | REQ_OP_ZONE_OPEN \<Rightarrow> some (zone_mgmt_send E NVME_ZONE_OPEN)
         | REQ_OP_ZONE_CLOSE \<Rightarrow> some (zone_mgmt_send E NVME_ZONE_CLOSE)
         | REQ_OP_ZONE_FINISH \<Rightarrow> some (zone_mgmt_send E NVME_ZONE_FINISH)
         | REQ_OP_WRITE_ZEROES \<Rightarrow> some (nvme_setup_write_zeroes E H C head)
         | REQ_OP_DISCARD \<Rightarrow> some (nvme_setup_discard E H C head)
         | REQ_OP_READ \<Rightarrow> some (nvme_setup_rw E H C head (nvme_cmd_read H))
         | REQ_OP_WRITE \<Rightarrow> some (nvme_setup_rw E H C head (nvme_cmd_write H))
         | REQ_OP_ZONE_APPEND \<Rightarrow> some (nvme_setup_rw E H C head (nvme_cmd_zone_append H))
         | REQ_OP_OTHER \<Rightarrow> return None)"

definition nvme_setup_cmd :: "nc_env \<Rightarrow> cmd_hdr \<Rightarrow> rq_ctx \<Rightarrow> ns_head \<Rightarrow> blk_status_t nc_prog" where
  "nvme_setup_cmd E H C head = do {
     r \<leftarrow> getd;
     whenM (\<not> dontprep r) nvme_clear_nvme_request;
     ret \<leftarrow> setup_op E H C head;
     case ret of
       None \<Rightarrow> do { exec E WarnOnce; return BLK_STS_IOERR }
     | Some s \<Rightarrow> do { modd (\<lambda>r. r\<lparr>nr_cmd := (nr_cmd r)\<lparr>command_id := cid C\<rparr>\<rparr>); return s }
   }"

section \<open>What becomes of a request\<close>

definition final :: "nc_req \<Rightarrow> bool" where
  "final q \<longleftrightarrow> (\<exists>s. q = EndRequest s) \<or> q = RequeueRequest \<or> q = FailoverReq"

lemma final_simps [simp]:
  "final (EndRequest s)" "final RequeueRequest" "final FailoverReq" "\<not> final (DelayKick d)" "\<not> final QueueAuthWork" "\<not> final QueueDying" "\<not> final NsRetriesInc" "\<not> final NsErrorsInc"
  "\<not> final CtrlErrorsInc" "\<not> final LogError" "\<not> final LogErrPassthru" "\<not> final TraceBioComplete" "\<not> final MpathEndRequest" "\<not> final KfreeRange" "\<not> final DiscardPageUnlock"
  by (simp_all add: final_def)

definition retryable :: "cmd_hdr \<Rightarrow> nvme_rq \<Rightarrow> bool" where
  "retryable H r \<longleftrightarrow> nr_status r \<noteq> 0 \<and> \<not> blk_noretry H (rq_cmd_flags r) \<and> nr_status r AND NVME_STATUS_DNR H = 0 \<and> nr_retries r < nvme_max_retries H"

text \<open>The request that decides, given whether the queue was found dying.\<close>

fun fate_ok :: "cmd_hdr \<Rightarrow> nvme_rq \<Rightarrow> nvme_rq \<Rightarrow> bool \<Rightarrow> nc_req \<Rightarrow> bool" where
  "fate_ok H r r' dying (EndRequest s) \<longleftrightarrow> s = nvme_error_status H (nr_status r) \<and> nr_retries r' = nr_retries r
     \<and> (\<not> retryable H r \<or> dying \<or> nr_status r AND NVME_SCT_SC_MASK H = sc H NVME_SC_AUTH_REQUIRED \<and> \<not> CONFIG_NVME_HOST_AUTH H)"
| "fate_ok H r r' dying RequeueRequest \<longleftrightarrow> retryable H r \<and> \<not> dying \<and> nr_retries r' = nr_retries r + 1"
| "fate_ok H r r' dying FailoverReq \<longleftrightarrow> retryable H r \<and> REQ_NVME_MPATH (rq_cmd_flags r) \<and> (nvme_is_path_error H (nr_status r) \<or> dying) \<and> nr_retries r' = nr_retries r"
| "fate_ok H r r' dying q \<longleftrightarrow> False"

fun says_dying :: "nc_req \<times> nc_resp \<Rightarrow> bool" where
  "says_dying (QueueDying, x) = nbool x"
| "says_dying x = False"

definition settled :: "cmd_hdr \<Rightarrow> nvme_rq \<Rightarrow> (nc_req \<times> nc_resp) list \<Rightarrow> nc_world \<Rightarrow> bool" where
  "settled H r h w' \<longleftrightarrow> (\<exists>k q. hist w' = h @ k \<and> filter final (reqs k) = [q] \<and> fate_ok H r (drv w') (list_ex says_dying k) q)"

definition same_rq :: "nvme_rq \<Rightarrow> nvme_rq \<Rightarrow> bool" where
  "same_rq r r' \<longleftrightarrow> nr_status r' = nr_status r \<and> nr_retries r' = nr_retries r \<and> rq_cmd_flags r' = rq_cmd_flags r \<and> dontprep r' = dontprep r"

definition undecided :: "nvme_rq \<Rightarrow> bool \<Rightarrow> (nc_req \<times> nc_resp) list \<Rightarrow> nc_world \<Rightarrow> bool" where
  "undecided r dying h w \<longleftrightarrow> same_rq r (drv w) \<and> special (drv w) = None \<and> (\<exists>k. hist w = h @ k \<and> filter final (reqs k) = [] \<and> list_ex says_dying k = dying)"

definition closed :: "cmd_hdr \<Rightarrow> nvme_rq \<Rightarrow> (nc_req \<times> nc_resp) list \<Rightarrow> nc_world \<Rightarrow> bool" where
  "closed H r h w \<longleftrightarrow> settled H r h w \<and> special (drv w) = None \<and> dontprep (drv w) = dontprep r"

lemma undecided_exec:
  assumes "undecided r d h w" and "\<not> final q" and "\<And>x. \<not> says_dying (q, x)"
  shows "wp (exec E q) (\<lambda>_. undecided r d h) w"
  using assms by (auto simp: wp_simps undecided_def)

lemma end_inner_undecided:
  assumes u: "undecided r d h w"
  shows "wp (nvme_end_req_inner E H C) (\<lambda>_. undecided r d h) w"
proof -
  have z: "wp (nvme_end_req_zoned H C) (\<lambda>_. undecided r d h) v" if "undecided r d h v" for v
    using that unfolding nvme_end_req_zoned_def by (cases "queuedata C") (auto simp: wp_simps undecided_def same_rq_def)
  have l: "wp (do { exec E (if p then LogErrPassthru else LogError); exec E (if n then NsErrorsInc else CtrlErrorsInc) }) (\<lambda>_. undecided r d h) w" for p n
    by (rule wp_bindI, rule wp_mono [OF undecided_exec [OF u]], simp, simp, rule undecided_exec) auto
  have e: "wp (do { exec E TraceBioComplete; whenM b (exec E MpathEndRequest) }) (\<lambda>_. undecided r d h) v" if "undecided r d h v" for b v
    by (rule wp_bindI, rule wp_mono [OF undecided_exec [OF that]], simp, simp, rule wp_whenI, rule undecided_exec) auto
  show ?thesis
    unfolding nvme_end_req_inner_def
    by (rule wp_bindI, rule wp_getdI, rule wp_bindI, rule wp_mono [of _ "\<lambda>_. undecided r d h"], rule wp_whenI, rule l, rule u, rule wp_bindI, rule wp_mono [OF z], assumption, erule e)
qed

lemma end_req_closes:
  assumes u: "undecided r d h w" and e: "\<not> retryable H r \<or> d \<or> nr_status r AND NVME_SCT_SC_MASK H = sc H NVME_SC_AUTH_REQUIRED \<and> \<not> CONFIG_NVME_HOST_AUTH H"
  shows "wp (nvme_end_req E H C) (\<lambda>_. closed H r h) w"
proof -
  have s: "nr_status (drv w) = nr_status r" using u by (simp add: undecided_def same_rq_def)
  show ?thesis
    unfolding nvme_end_req_def wp_bind wp_getd wp_let
  proof (rule wp_mono [OF end_inner_undecided [OF u]], unfold wp_exec s)
    fix v :: nc_world
    let ?q = "EndRequest (nvme_error_status H (nr_status r))"
    assume "undecided r d h v"
    then obtain k where k: "hist v = h @ k" "filter final (reqs k) = []" "list_ex says_dying k = d" and v: "same_rq r (drv v)" "special (drv v) = None" by (auto simp: undecided_def)
    have "fate_ok H r (drv v) (list_ex says_dying (k @ [(?q, E (hist v) ?q)])) ?q" using e v(1) k(3) by (simp add: same_rq_def)
    then have "settled H r h (v\<lparr>hist := hist v @ [(?q, E (hist v) ?q)]\<rparr>)"
      unfolding settled_def by (intro exI [of _ "k @ [(?q, E (hist v) ?q)]"] exI [of _ ?q]) (simp add: k)
    then show "closed H r h (v\<lparr>hist := hist v @ [(?q, E (hist v) ?q)]\<rparr>)" using v by (simp add: closed_def same_rq_def)
  qed
qed

lemma retry_closes:
  assumes "undecided r False h w" and "retryable H r"
  shows "wp (nvme_retry_req E H C) (\<lambda>_. closed H r h) w"
  using assms unfolding nvme_retry_req_def by (auto simp: wp_simps undecided_def closed_def settled_def same_rq_def split: if_splits)

lemma cleanup_undecided: "wp (nvme_cleanup_cmd E) (\<lambda>_. undecided (drv w) False (hist w)) w"
  unfolding nvme_cleanup_cmd_def by (auto simp: wp_simps undecided_def same_rq_def split: option.splits)

text \<open>What a decision says of the request and of the queue.\<close>

definition decided :: "cmd_hdr \<Rightarrow> nvme_rq \<Rightarrow> (nc_req \<times> nc_resp) list \<Rightarrow> nvme_disposition \<Rightarrow> nc_world \<Rightarrow> bool" where
  "decided H r h d w =
     (case d of
        COMPLETE \<Rightarrow> (\<exists>dy. undecided r dy h w \<and> (\<not> retryable H r \<or> dy))
      | RETRY \<Rightarrow> undecided r False h w \<and> retryable H r
      | FAILOVER \<Rightarrow> (\<exists>dy. undecided r dy h w \<and> retryable H r \<and> REQ_NVME_MPATH (rq_cmd_flags r) \<and> (nvme_is_path_error H (nr_status r) \<or> dy))
      | AUTHENTICATE \<Rightarrow> undecided r False h w \<and> retryable H r \<and> nr_status r AND NVME_SCT_SC_MASK H = sc H NVME_SC_AUTH_REQUIRED)"

lemma undecided_dying:
  assumes "undecided r False h w"
  shows "undecided r (nbool x) h (w\<lparr>hist := hist w @ [(QueueDying, x)]\<rparr>)"
  using assms by (auto simp: undecided_def)

lemma decide_decides:
  assumes u: "undecided r False h w"
  shows "wp (nvme_decide_disposition E H) (decided H r h) w"
proof -
  have s: "nr_status (drv w) = nr_status r" "nr_retries (drv w) = nr_retries r" "rq_cmd_flags (drv w) = rq_cmd_flags r" using u by (auto simp: undecided_def same_rq_def)
  let ?x = "E (hist w) QueueDying" and ?w = "w\<lparr>hist := hist w @ [(QueueDying, E (hist w) QueueDying)]\<rparr>"
  note d = undecided_dying [OF u, of ?x]
  have c: "decided H r h COMPLETE w" if "\<not> retryable H r" using u that by (auto simp: decided_def)
  have dy: "decided H r h (if nbool ?x then FAILOVER else RETRY) ?w" if "retryable H r" "REQ_NVME_MPATH (rq_cmd_flags r)" using d that by (auto simp: decided_def)
  have lv: "decided H r h (if nbool ?x then COMPLETE else RETRY) ?w" if "retryable H r" using d that by (auto simp: decided_def)
  have f: "decided H r h FAILOVER w" if "retryable H r" "REQ_NVME_MPATH (rq_cmd_flags r)" "nvme_is_path_error H (nr_status r)" using u that by (auto simp: decided_def)
  have au: "decided H r h AUTHENTICATE w" if "retryable H r" "nr_status r AND NVME_SCT_SC_MASK H = sc H NVME_SC_AUTH_REQUIRED" using u that by (simp add: decided_def)
  have ok: "retryable H r \<longleftrightarrow> nr_status r \<noteq> 0 \<and> \<not> (blk_noretry H (rq_cmd_flags r) \<or> nr_status r AND NVME_STATUS_DNR H \<noteq> 0 \<or> nvme_max_retries H \<le> nr_retries r)"
    by (auto simp: retryable_def)
  have dw: "wp (do { d \<leftarrow> call E QueueDying; return (if nbool d then FAILOVER else RETRY) }) (decided H r h) w" if "retryable H r" "REQ_NVME_MPATH (rq_cmd_flags r)"
    unfolding wp_bind wp_call wp_return by (rule dy [OF that])
  have lw: "wp (do { d \<leftarrow> call E QueueDying; return (if nbool d then COMPLETE else RETRY) }) (decided H r h) w" if "retryable H r"
    unfolding wp_bind wp_call wp_return by (rule lv [OF that])
  show ?thesis
    unfolding nvme_decide_disposition_def wp_bind [of getd] wp_getd s
    by (intro wp_ifI wp_returnI) (rule c f au dw lw; use ok in blast)+
qed

lemma dispose_closes: "decided H r h d w \<Longrightarrow> wp (dispose E H C d) (\<lambda>_. closed H r h) w"
proof (cases d)
  case COMPLETE
  then show "decided H r h d w \<Longrightarrow> ?thesis" by (auto simp: decided_def dispose_def intro: end_req_closes)
next
  case RETRY
  then show "decided H r h d w \<Longrightarrow> ?thesis" by (simp add: decided_def dispose_def retry_closes)
next
  case FAILOVER
  then show "decided H r h d w \<Longrightarrow> ?thesis" by (auto simp: wp_simps decided_def dispose_def undecided_def closed_def settled_def same_rq_def)
next
  case AUTHENTICATE
  then show "decided H r h d w \<Longrightarrow> ?thesis"
    by (simp add: wp_simps decided_def dispose_def end_req_closes) (intro conjI impI retry_closes, auto simp: undecided_def intro: end_req_closes)
qed

lemma complete_closes: "wp (nvme_complete_rq E H C) (\<lambda>_. closed H (drv w) (hist w)) w"
proof -
  have u: "undecided r d h (v\<lparr>drv := drv v\<lparr>comp_seen := True\<rparr>\<rparr>)" if "undecided r d h v" for r d h and v :: nc_world
    using that by (auto simp: undecided_def same_rq_def)
  show ?thesis
    unfolding nvme_complete_rq_def
    by (rule wp_bindI, rule wp_mono [OF cleanup_undecided], rule wp_bindI, rule wp_whenI, rule wp_moddI)
       (rule wp_bindI, rule wp_mono [OF decide_decides], (erule u | assumption), erule dispose_closes)+
qed


section \<open>Retries\<close>

text \<open>What setting up a command leaves alone.\<close>

abbreviation rq_view :: "nvme_rq \<Rightarrow> u8 \<times> bool \<times> cmd_flags" where
  "rq_view r \<equiv> (nr_retries r, dontprep r, rq_cmd_flags r)"

lemma keeps_resp: "(\<And>s c. keeps f (m s c)) \<Longrightarrow> keeps f k \<Longrightarrow> keeps f (case x of NCmd s c \<Rightarrow> m s c | _ \<Rightarrow> k)"
  by (cases x) simp_all

lemma keeps_setup_op: "keeps rq_view (setup_op E H C head)"
proof -
  have f: "keeps rq_view (fill_discard E H C head m)" for m
    unfolding fill_discard_def by (intro keeps_intros) simp
  have d: "keeps rq_view (nvme_setup_discard E H C head)"
    unfolding nvme_setup_discard_def by (intro keeps_intros f)
  have z: "keeps rq_view (nvme_setup_write_zeroes E H C head)"
    unfolding nvme_setup_write_zeroes_def by (intro keeps_intros d) simp_all
  have r: "keeps rq_view (nvme_setup_rw E H C head opc)" for opc
    unfolding nvme_setup_rw_def by (intro keeps_intros) (simp_all split: prod.splits)
  have g: "keeps rq_view (zone_mgmt_send E a)" for a
    unfolding zone_mgmt_send_def by (intro keeps_intros keeps_resp) simp
  have l: "keeps rq_view (nvme_setup_flush H head)"
    unfolding nvme_setup_flush_def by (intro keeps_intros) simp
  have s: "keeps rq_view (do { s \<leftarrow> m; return (Some s) })" if "keeps rq_view m" for m :: "blk_status_t nc_prog"
    by (intro keeps_intros that)
  show ?thesis
    unfolding setup_op_def Let_def
    by (cases "op C") (simp_all only: req_op.case, (intro keeps_intros s d z r g l)+)
qed

lemma setup_cmd_view:
  "wp (nvme_setup_cmd E H C head) (\<lambda>_ w'. dontprep (drv w') \<and> rq_cmd_flags (drv w') = rq_cmd_flags (drv w) \<and> nr_retries (drv w') = (if dontprep (drv w) then nr_retries (drv w) else 0)) w"
proof -
  have t: "wp (do { ret \<leftarrow> setup_op E H C head; case ret of None \<Rightarrow> do { exec E WarnOnce; return BLK_STS_IOERR }
      | Some s \<Rightarrow> do { modd (\<lambda>r. r\<lparr>nr_cmd := (nr_cmd r)\<lparr>command_id := cid C\<rparr>\<rparr>); return s } }) (\<lambda>_ w'. rq_view (drv w') = rq_view (drv v)) v" for v
    by (rule keeps_wp, intro keeps_intros keeps_setup_op) simp
  show ?thesis
    unfolding nvme_setup_cmd_def nvme_clear_nvme_request_def
    by (rule wp_bindI, rule wp_getdI, rule wp_bindI, rule wp_whenI, rule wp_moddI, rule wp_mono [OF t], simp, rule wp_mono [OF t]) simp
qed

text \<open>A request that is set up, fails with some status and is requeued, again and again.\<close>

inductive rounds :: "nc_env \<Rightarrow> cmd_hdr \<Rightarrow> rq_ctx \<Rightarrow> ns_head \<Rightarrow> nat \<Rightarrow> nc_world \<Rightarrow> nc_world \<Rightarrow> bool" for E H C head where
  rounds_none: "rounds E H C head 0 w w"
| rounds_retry: "rounds E H C head n w v \<Longrightarrow> run_state (nvme_setup_cmd E H C head) v = (BLK_STS_OK, v1) \<Longrightarrow>
    run_state (nvme_complete_rq E H C) (v1\<lparr>drv := (drv v1)\<lparr>nr_status := s, nr_result := x\<rparr>\<rparr>) = ((), w') \<Longrightarrow>
    hist w' = hist v1 @ k \<Longrightarrow> RequeueRequest \<in> set (reqs k) \<Longrightarrow> rounds E H C head (Suc n) w w'"

lemma requeued_retry:
  assumes "run_state (nvme_complete_rq E H C) w = ((), w')" and "hist w' = hist w @ k" and "RequeueRequest \<in> set (reqs k)"
  shows "unat (nr_retries (drv w')) = unat (nr_retries (drv w)) + 1 \<and> unat (nr_retries (drv w')) \<le> unat (nvme_max_retries H) \<and> dontprep (drv w') = dontprep (drv w)"
proof -
  from wpD [OF complete_closes assms(1)] assms(2) obtain q where q: "filter final (reqs k) = [q]" "fate_ok H (drv w) (drv w') (list_ex says_dying k) q"
    and p: "dontprep (drv w') = dontprep (drv w)" by (auto simp: closed_def settled_def)
  have "RequeueRequest \<in> set (filter final (reqs k))" using assms(3) by simp
  then have "q = RequeueRequest" unfolding q(1) by simp
  with q(2) have r: "nr_retries (drv w) < nvme_max_retries H" "nr_retries (drv w') = nr_retries (drv w) + 1" by (auto simp: retryable_def)
  have l: "unat (nr_retries (drv w)) < unat (nvme_max_retries H)" using r(1) by (simp add: word_less_nat_alt)
  moreover have "unat (nvme_max_retries H) < 256" using unsigned_less [of "nvme_max_retries H", where 'a = nat] by simp
  ultimately have "unat (nr_retries (drv w')) = unat (nr_retries (drv w)) + 1" unfolding r(2) by (simp add: unat_word_ariths)
  with l p show ?thesis by simp
qed

lemma rounds_count:
  assumes "rounds E H C head n w w'"
  shows "n = 0 \<or> dontprep (drv w') \<and> n \<le> unat (nr_retries (drv w')) \<and> unat (nr_retries (drv w')) \<le> unat (nvme_max_retries H)"
  using assms
proof (induction)
  case (rounds_none w)
  show ?case by simp
next
  case (rounds_retry n w v v1 s x w' k)
  note c = requeued_retry [OF rounds_retry.hyps(3), simplified, OF rounds_retry.hyps(4,5)]
  note v1 = wpD [OF setup_cmd_view rounds_retry.hyps(2)]
  show ?case using c v1 rounds_retry.IH by (auto split: if_splits)
qed

text \<open>C30. Retries end. However often a request is set up, completes with whatever status and is requeued, it is requeued at most \<open>nvme_max_retries\<close> times, and the count of its retries does not wrap around: after that, its completion
  ends it or hands it to another path.\<close>

theorem retries_bounded:
  assumes "rounds E H C head n w w'"
  shows "n \<le> unat (nvme_max_retries H)"
  using rounds_count [OF assms] by linarith

section \<open>The memory of a discard\<close>

definition ndelta :: "range_mem \<Rightarrow> nc_req \<times> nc_resp \<Rightarrow> int" where
  "ndelta m y =
     (case fst y of
        KzallocRange n \<Rightarrow> if m = Allocated \<and> nbool (snd y) then 1 else 0
      | KfreeRange \<Rightarrow> if m = Allocated then - 1 else 0
      | DiscardPageTryLock \<Rightarrow> if m = DiscardPage \<and> \<not> nbool (snd y) then 1 else 0
      | DiscardPageUnlock \<Rightarrow> if m = DiscardPage then - 1 else 0
      | _ \<Rightarrow> 0)"

definition nheld :: "(nc_req \<times> nc_resp) list \<Rightarrow> range_mem \<Rightarrow> int" where
  "nheld h m = sum_list (map (ndelta m) h)"

lemma nheld_simps [simp]: "nheld [] m = 0" "nheld (y # h) m = ndelta m y + nheld h m" "nheld (h @ k) m = nheld h m + nheld k m"
  by (simp_all add: nheld_def)

text \<open>What is held beside \<open>B\<close> is what the request has.\<close>

definition accounted :: "(range_mem \<Rightarrow> int) \<Rightarrow> nc_world \<Rightarrow> bool" where
  "accounted B w \<longleftrightarrow> (\<forall>m. nheld (hist w) m = B m + (case special (drv w) of Some (m', _) \<Rightarrow> if m' = m then 1 else 0 | None \<Rightarrow> 0))"

definition plain :: "nc_req \<Rightarrow> bool" where
  "plain q \<longleftrightarrow> q \<notin> {KfreeRange, DiscardPageTryLock, DiscardPageUnlock} \<and> (\<forall>n. q \<noteq> KzallocRange n)"

lemma plain_delta: "plain q \<Longrightarrow> ndelta m (q, x) = 0"
  by (cases q) (simp_all add: plain_def ndelta_def)

lemma plain_held: "list_all plain (reqs k) \<Longrightarrow> nheld k m = 0"
proof (induction k)
  case (Cons y k)
  then show ?case using plain_delta [of "fst y" m "snd y"] by simp
qed simp

lemma plain_accounted:
  assumes "emits plain p" and "keeps special p" and "accounted B w"
  shows "wp p (\<lambda>_ w'. accounted B w' \<and> special (drv w') = special (drv w)) w"
proof (rule wp_mono [OF wp_conj [OF emits_wp [OF assms(1)] keeps_wp [OF assms(2)]]])
  fix w' :: nc_world
  assume *: "(\<exists>k. hist w' = hist w @ k \<and> list_all plain (reqs k)) \<and> special (drv w') = special (drv w)"
  then obtain k where k: "hist w' = hist w @ k" "list_all plain (reqs k)" by blast
  show "accounted B w' \<and> special (drv w') = special (drv w)" using assms(3) * plain_held [OF k(2)] k(1) by (simp add: accounted_def)
qed

lemma cleanup_accounted: "accounted B w \<Longrightarrow> wp (nvme_cleanup_cmd E) (\<lambda>_ w'. accounted B w' \<and> special (drv w') = None) w"
  unfolding nvme_cleanup_cmd_def by (auto simp: wp_simps accounted_def ndelta_def split: option.splits) (metis range_mem.exhaust)+

lemma complete_accounted:
  assumes "accounted B w"
  shows "wp (nvme_complete_rq E H C) (\<lambda>_ w'. accounted B w' \<and> special (drv w') = None) w"
proof -
  let ?rest = "do { whenM (kas C \<noteq> 0 \<and> ka_last_check_time C \<le> deadline C - ucast (rq_timeout C)) (modd (\<lambda>r. r\<lparr>comp_seen := True\<rparr>)); d \<leftarrow> nvme_decide_disposition E H; dispose E H C d }"
  have p: "plain QueueDying" "plain (EndRequest s)" "plain RequeueRequest" "plain (DelayKick d)" "plain FailoverReq" "plain QueueAuthWork" "plain NsRetriesInc" "plain TraceBioComplete"
    "plain MpathEndRequest" "plain (if b then LogErrPassthru else LogError)" "plain (if b then NsErrorsInc else CtrlErrorsInc)" for s d b by (simp_all add: plain_def)
  have e: "emits plain (nvme_end_req E H C)" "keeps special (nvme_end_req E H C)"
    unfolding nvme_end_req_def nvme_end_req_inner_def nvme_end_req_zoned_def by (intro emits_intros p, intro keeps_intros) simp
  have r: "emits plain (nvme_retry_req E H C)" "keeps special (nvme_retry_req E H C)"
    unfolding nvme_retry_req_def by (intro emits_intros p, intro keeps_intros) simp
  have d: "emits plain (dispose E H C x)" "keeps special (dispose E H C x)" for x
    unfolding dispose_def by (cases x; simp only: nvme_disposition.case; intro emits_intros e r p) (cases x; simp only: nvme_disposition.case; intro keeps_intros e r)
  have n: "emits plain (nvme_decide_disposition E H)" "keeps special (nvme_decide_disposition E H)"
    unfolding nvme_decide_disposition_def by (intro emits_intros p, intro keeps_intros)
  have "emits plain ?rest" by (intro emits_intros n d)
  moreover have "keeps special ?rest" by (intro keeps_intros n d) simp
  ultimately have t: "wp ?rest (\<lambda>_ w'. accounted B w' \<and> special (drv w') = special (drv v)) v" if "accounted B v" for v by (rule plain_accounted [OF _ _ that])
  show ?thesis
    unfolding nvme_complete_rq_def
    by (rule wp_bindI, rule wp_mono [OF cleanup_accounted [OF assms]], rule wp_mono [OF t]) auto
qed

text \<open>Setting up: after an error nothing is held.\<close>

definition charged :: "(range_mem \<Rightarrow> int) \<Rightarrow> blk_status_t \<Rightarrow> nc_world \<Rightarrow> bool" where
  "charged B s w \<longleftrightarrow> accounted B w \<and> (s \<noteq> BLK_STS_OK \<longrightarrow> special (drv w) = None)"

lemma fill_charged:
  assumes "\<And>m'. nheld (hist w) m' = B m' + (if m = m' then 1 else 0)" and "special (drv w) = None"
  shows "wp (fill_discard E H C head m) (charged B) w"
  using assms unfolding fill_discard_def by (cases m) (auto simp: wp_simps charged_def accounted_def ndelta_def)

lemma discard_charged:
  assumes "accounted B w" and "special (drv w) = None"
  shows "wp (nvme_setup_discard E H C head) (charged B) w"
proof -
  have b: "nheld (hist w) m = B m" for m using assms by (simp add: accounted_def)
  let ?a = "KzallocRange (16 * NVME_DSM_MAX_RANGES H)"
  show ?thesis
    unfolding nvme_setup_discard_def wp_bind wp_call wp_if
    by (auto simp: wp_return charged_def accounted_def b ndelta_def assms(2) intro!: fill_charged)
qed

lemma setup_op_charged:
  assumes a: "accounted B w" and s: "special (drv w) = None"
  shows "wp (setup_op E H C head) (\<lambda>r. charged B (case r of None \<Rightarrow> BLK_STS_IOERR | Some s \<Rightarrow> s)) w"
proof -
  have p: "plain WarnOnce" "plain (ZoneMgmtSend x)" for x by (simp_all add: plain_def)
  have pl: "wp m (charged B) v" if "emits plain m" "keeps special m" "accounted B v" "special (drv v) = None" for m :: "blk_status_t nc_prog" and v
    by (rule wp_mono [OF plain_accounted [OF that(1-3)]]) (simp add: charged_def that(4))
  have r: "wp (nvme_setup_rw E H C head opc) (charged B) w" for opc
    by (rule pl [OF _ _ a s]; unfold nvme_setup_rw_def; (intro emits_intros p | (intro keeps_intros; simp split: prod.splits)))
  have z: "wp (zone_mgmt_send E x) (charged B) w" for x
    by (rule pl [OF _ _ a s]; unfold zone_mgmt_send_def; (rule emits_bind, rule emits_call, rule p, simp add: emits_return emits_bind emits_modd split: nc_resp.splits | (intro keeps_intros keeps_resp; simp)))
  have d: "wp (nvme_setup_discard E H C head) (charged B) v" if "accounted B v" "special (drv v) = None" for v by (rule discard_charged [OF that])
  have y: "wp (nvme_setup_write_zeroes E H C head) (charged B) w"
    unfolding nvme_setup_write_zeroes_def by (rule wp_bindI, rule wp_moddI, rule wp_ifI, rule d) (use a s in \<open>simp_all add: accounted_def wp_simps charged_def\<close>)
  have o: "wp (do { s \<leftarrow> m; return (Some s) }) (\<lambda>r. charged B (case r of None \<Rightarrow> BLK_STS_IOERR | Some s \<Rightarrow> s)) w" if "wp m (charged B) w" for m
    unfolding wp_bind wp_return option.case by (rule that)
  have n: "charged B BLK_STS_OK w" "charged B BLK_STS_IOERR w" using a s by (simp_all add: charged_def)
  show ?thesis
    unfolding setup_op_def Let_def
  proof (cases "op C"; (simp only: req_op.case, intro o r z y d [OF a s])?)
  qed (use n a s in \<open>simp_all add: wp_simps nvme_setup_flush_def charged_def accounted_def\<close>)
qed

lemma setup_cmd_charged:
  assumes "accounted B w" and "special (drv w) = None"
  shows "wp (nvme_setup_cmd E H C head) (charged B) w"
proof -
  have t: "wp (do { ret \<leftarrow> setup_op E H C head; case ret of None \<Rightarrow> do { exec E WarnOnce; return BLK_STS_IOERR }
      | Some s \<Rightarrow> do { modd (\<lambda>r. r\<lparr>nr_cmd := (nr_cmd r)\<lparr>command_id := cid C\<rparr>\<rparr>); return s } }) (charged B) v" if "accounted B v" "special (drv v) = None" for v
    by (rule wp_bindI, rule wp_mono [OF setup_op_charged [OF that]]) (auto simp: wp_simps charged_def accounted_def ndelta_def split: option.splits)
  show ?thesis
    unfolding nvme_setup_cmd_def nvme_clear_nvme_request_def
    by (rule wp_bindI, rule wp_getdI, rule wp_bindI, rule wp_whenI, rule wp_moddI, rule t) (use assms t in \<open>simp_all add: accounted_def\<close>)
qed

text \<open>C31. The memory of a discard is released once. A request without payload is set up, whatever its operation: if that fails, no memory and no lock is left held; if it succeeds, then the completion that follows, with whatever status
  the device reports and whether it ends, retries or fails over, leaves the allocation and the lock of the controller's page held as before.\<close>

theorem payload_released_once:
  assumes "special (drv w) = None" and "run_state (nvme_setup_cmd E H C head) w = (s, w1)" and "run_state (nvme_complete_rq E H C) (w1\<lparr>drv := (drv w1)\<lparr>nr_status := st, nr_result := x\<rparr>\<rparr>) = ((), w2)"
  shows "(s \<noteq> BLK_STS_OK \<longrightarrow> nheld (hist w1) = nheld (hist w) \<and> special (drv w1) = None) \<and> nheld (hist w2) = nheld (hist w) \<and> special (drv w2) = None"
proof -
  have a: "accounted (nheld (hist w)) w" using assms(1) by (simp add: accounted_def)
  note c = wpD [OF setup_cmd_charged [OF a assms(1)] assms(2)]
  then have "accounted (nheld (hist w)) (w1\<lparr>drv := (drv w1)\<lparr>nr_status := st, nr_result := x\<rparr>\<rparr>)" by (simp add: charged_def accounted_def)
  from wpD [OF complete_accounted [OF this] assms(3)] c show ?thesis by (auto simp: charged_def accounted_def fun_eq_iff)
qed

section \<open>What a discard lists\<close>

lemma bio_ranges_map:
  assumes "length rest + unat n < 2 ^ 16" and "bio_ranges H head segs rest n rs = (n', rs')" and "unat n + length rest \<le> unat segs"
  shows "unat n' = unat n + length rest \<and> (\<forall>i. rs' i = (if unat n \<le> i \<and> i < unat n + length rest
     then Some \<lparr>r_cattr = 0, r_nlb = drop_bit (lba_shift head) (snd (rest ! (i - unat n))), r_slba = nvme_sect_to_lba H head (fst (rest ! (i - unat n)))\<rparr> else rs i))"
  using assms
proof (induction rest arbitrary: n rs)
  case Nil
  then show ?case by auto
next
  case (Cons b rest)
  obtain x y where b: "b = (x, y)" by (cases b)
  have n1: "unat (n + 1) = unat n + 1" using Cons.prems(1) by (simp add: unat_word_ariths)
  have l: "n < segs" using Cons.prems(3) by (simp add: word_less_nat_alt)
  let ?rs = "rs(unat n \<mapsto> \<lparr>r_cattr = 0, r_nlb = drop_bit (lba_shift head) y, r_slba = nvme_sect_to_lba H head x\<rparr>)"
  have e: "bio_ranges H head segs rest (n + 1) ?rs = (n', rs')" using Cons.prems(2) l b by simp
  have p: "length rest + unat (n + 1) < 2 ^ 16" "unat (n + 1) + length rest \<le> unat segs" using Cons.prems(1,3) n1 by simp_all
  from Cons.IH [OF p(1) e p(2)] show ?case unfolding n1 b by (auto simp: nth_Cons')
qed

lemma bio_ranges_count: "fst (bio_ranges H head segs rest n rs) = n + of_nat (length rest)"
  by (induction rest arbitrary: n rs) (auto simp: algebra_simps)

lemma discard_ranges_map:
  assumes "max_discard_segments C \<noteq> 1" and "length (bios C) < 2 ^ 16" and "discard_ranges H C head = (segments C, rs)"
  shows "length (bios C) = unat (segments C) \<and> (\<forall>i. rs i = (if i < length (bios C)
     then Some \<lparr>r_cattr = 0, r_nlb = drop_bit (lba_shift head) (snd (bios C ! i)), r_slba = nvme_sect_to_lba H head (fst (bios C ! i))\<rparr> else None))"
proof -
  have b: "bio_ranges H head (segments C) (bios C) 0 Map.empty = (segments C, rs)" using assms(1,3) by (simp add: discard_ranges_def)
  have "segments C = of_nat (length (bios C))" using bio_ranges_count [of H head "segments C" "bios C" 0 Map.empty] b by simp
  then have l: "unat (segments C) = length (bios C)" using assms(2) by (simp add: unsigned_of_nat take_bit_nat_eq_self)
  show ?thesis using bio_ranges_map [OF _ b] assms(2) l by simp
qed

text \<open>A discard lists its parts. When setting up a discard with more than one range succeeds, the number of parts is the number announced in the command, and the array that the device will read has, at each index below
  it, the first block and the number of blocks of that part; nothing is written at or beyond it, so never outside the array when the queue's limit on ranges is respected.\<close>

theorem discard_lists_parts:
  assumes "max_discard_segments C \<noteq> 1" and "length (bios C) < 2 ^ 16" and "bios C \<noteq> []" and "run_state (nvme_setup_discard E H C head) w = (BLK_STS_OK, w')"
  shows "\<exists>m rs. special (drv w') = Some (m, rs) \<and> unat (dsm_nr (nr_cmd (drv w'))) + 1 = length (bios C) \<and> nsid (nr_cmd (drv w')) = ns_id head
    \<and> (\<forall>i. rs i = (if i < length (bios C)
         then Some \<lparr>r_cattr = 0, r_nlb = drop_bit (lba_shift head) (snd (bios C ! i)), r_slba = nvme_sect_to_lba H head (fst (bios C ! i))\<rparr> else None))"
proof -
  obtain n rs where d: "discard_ranges H C head = (n, rs)" by (cases "discard_ranges H C head")
  have f: "wp (fill_discard E H C head m) (\<lambda>s w'. s = BLK_STS_OK \<longrightarrow> n = segments C \<and> special (drv w') = Some (m, rs) \<and> dsm_nr (nr_cmd (drv w')) = ucast (segments C) - 1
      \<and> nsid (nr_cmd (drv w')) = ns_id head) v" for m v
    by (simp add: fill_discard_def d wp_simps zero_cmd_def)
  have "wp (nvme_setup_discard E H C head) (\<lambda>s w'. s = BLK_STS_OK \<longrightarrow> n = segments C \<and> (\<exists>m. special (drv w') = Some (m, rs)) \<and> dsm_nr (nr_cmd (drv w')) = ucast (segments C) - 1
      \<and> nsid (nr_cmd (drv w')) = ns_id head) w"
    unfolding nvme_setup_discard_def
    by (rule wp_bindI, rule wp_callI, rule wp_ifI, rule wp_mono [OF f], blast, rule wp_bindI, rule wp_callI, rule wp_ifI, rule wp_returnI, simp, rule wp_mono [OF f]) blast
  from wpD [OF this assms(4)] obtain m where n: "n = segments C" and m: "special (drv w') = Some (m, rs)" "dsm_nr (nr_cmd (drv w')) = ucast (segments C) - 1"
    "nsid (nr_cmd (drv w')) = ns_id head" by auto
  note r = discard_ranges_map [OF assms(1,2) d [unfolded n]]
  have "unat (ucast (segments C) - 1 :: u32) + 1 = length (bios C)"
  proof -
    have u: "unat (ucast (segments C) :: u32) = unat (segments C)" using unsigned_less [of "segments C", where 'a = nat] by (simp add: unsigned_ucast_eq take_bit_nat_eq_self)
    have "0 < unat (segments C)" using r assms(3) by (metis length_greater_0_conv)
    then have "(1 :: u32) \<le> ucast (segments C)" using u by (simp add: word_le_nat_alt)
    then show ?thesis using u r \<open>0 < unat (segments C)\<close> by (simp add: unat_sub)
  qed
  with m r show ?thesis by auto
qed

section \<open>What a read or write names\<close>

lemma unat_drop_bit_div: "unat (drop_bit k (x :: 'a::len word)) = unat x div 2 ^ k"
  using unsigned_less [of x, where 'a = nat] by (simp add: unsigned_drop_bit_eq take_bit_nat_eq_self flip: drop_bit_eq_div)

lemma last_block_exact:
  assumes "2 ^ lba_shift head dvd unat (bytes C)" and "bytes C \<noteq> 0" and "unat (bytes C) div 2 ^ lba_shift head \<le> 65536"
  shows "(unat (last_block C head) + 1) * 2 ^ lba_shift head = unat (bytes C)"
proof -
  let ?n = "unat (bytes C) div 2 ^ lba_shift head"
  have n: "?n * 2 ^ lba_shift head = unat (bytes C)" using assms(1) by simp
  have p: "0 < ?n" using n assms(2) by (metis gr0I mult_0 unat_eq_zero)
  have u: "unat (drop_bit (lba_shift head) (bytes C)) = ?n" by (rule unat_drop_bit_div)
  then have "(1 :: u32) \<le> drop_bit (lba_shift head) (bytes C)" using p by (simp add: word_le_nat_alt)
  then have "unat (drop_bit (lba_shift head) (bytes C) - 1) = ?n - 1" using u by (simp add: unat_sub)
  then have "unat (last_block C head) = take_bit 16 (?n - 1)" by (simp add: last_block_def unsigned_ucast_eq)
  also have "\<dots> = ?n - 1" using assms(3) p by (intro take_bit_nat_eq_self) simp
  finally show ?thesis using n p by simp
qed

lemma setup_rw_cmd:
  "wp (nvme_setup_rw E H C head opc) (\<lambda>s w'. s = BLK_STS_OK \<longrightarrow> c_opcode (nr_cmd (drv w')) = opc \<and> nsid (nr_cmd (drv w')) = ns_id head
     \<and> slba (nr_cmd (drv w')) = nvme_sect_to_lba H head (pos C) \<and> nlb (nr_cmd (drv w')) = last_block C head) w"
proof -
  have t: "nlb (nvme_set_ref_tag H C head c) = nlb c \<and> slba (nvme_set_ref_tag H C head c) = slba c \<and> nsid (nvme_set_ref_tag H C head c) = nsid c \<and> c_opcode (nvme_set_ref_tag H C head c) = c_opcode c" for c
    by (simp add: nvme_set_ref_tag_def)
  have a: "nlb (nvme_set_app_tag C c) = nlb c \<and> slba (nvme_set_app_tag C c) = slba c \<and> nsid (nvme_set_app_tag C c) = nsid c \<and> c_opcode (nvme_set_app_tag C c) = c_opcode c" for c
    by (simp add: nvme_set_app_tag_def)
  have p: "nlb (fst (rw_pi H C head opc (c, ctl))) = nlb c \<and> slba (fst (rw_pi H C head opc (c, ctl))) = slba c \<and> nsid (fst (rw_pi H C head opc (c, ctl))) = nsid c
      \<and> c_opcode (fst (rw_pi H C head opc (c, ctl))) = c_opcode c" for c ctl
    unfolding rw_pi_def by (simp add: t a Let_def)
  show ?thesis
    unfolding nvme_setup_rw_def
    by (simp add: wp_simps case_prod_beta p rw_cmd_def Let_def split: option.splits)
qed

text \<open>C32. Reads and writes name the blocks of the request. On a namespace with blocks of at least 512 bytes and for a request of whole blocks within the limit of the command, a read, write or append that is set up successfully carries its operation and
  its namespace, starts at the byte of the request's first sector, and covers exactly its bytes: the 16-bit count of blocks does not overflow.\<close>

theorem rw_names_blocks:
  assumes "\<And>s. nvme_sect_to_lba H head s = drop_bit (lba_shift head - 9) s" and "9 \<le> lba_shift head"
    and "2 ^ (lba_shift head - 9) dvd unat (pos C)" and "2 ^ lba_shift head dvd unat (bytes C)" and "bytes C \<noteq> 0" and "unat (bytes C) div 2 ^ lba_shift head \<le> 65536"
    and "run_state (nvme_setup_rw E H C head opc) w = (BLK_STS_OK, w')"
  shows "c_opcode (nr_cmd (drv w')) = opc \<and> nsid (nr_cmd (drv w')) = ns_id head \<and> unat (slba (nr_cmd (drv w'))) * 2 ^ lba_shift head = unat (pos C) * 512
    \<and> (unat (nlb (nr_cmd (drv w'))) + 1) * 2 ^ lba_shift head = unat (bytes C)"
proof -
  have e: "(2 :: nat) ^ lba_shift head = 2 ^ (lba_shift head - 9) * 512" using assms(2) power_add [of "2 :: nat" "lba_shift head - 9" 9] by simp
  have "unat (drop_bit (lba_shift head - 9) (pos C)) * 2 ^ (lba_shift head - 9) = unat (pos C)"
    using assms(3) unfolding unat_drop_bit_div by simp
  then have "unat (drop_bit (lba_shift head - 9) (pos C)) * 2 ^ lba_shift head = unat (pos C) * 512" unfolding e by (metis mult.assoc)
  then show ?thesis using wpD [OF setup_rw_cmd assms(7)] last_block_exact [OF assms(4-6)] assms(1) by simp
qed

section \<open>Atomic writes\<close>

lemma mask_eq_div:
  fixes a b :: u64
  assumes "k < 64"
  shows "a AND NOT (mask k) = b AND NOT (mask k) \<longleftrightarrow> unat a div 2 ^ k = unat b div 2 ^ k"
proof -
  have m: "x AND NOT (mask k) = push_bit k (drop_bit k x)" for x :: u64 by (rule bit_word_eqI) (auto simp: bit_simps)
  have "push_bit k (drop_bit k a) = push_bit k (drop_bit k b) \<longleftrightarrow> drop_bit k a = drop_bit k b"
  proof
    assume "push_bit k (drop_bit k a) = push_bit k (drop_bit k b)"
    then have "drop_bit k (push_bit k (drop_bit k a)) = drop_bit k (push_bit k (drop_bit k b))" by simp
    moreover have "drop_bit k (push_bit k (drop_bit k x)) = drop_bit k x" for x :: u64 by (rule bit_word_eqI) (auto simp: bit_simps dest: bit_imp_le_length)
    ultimately show "drop_bit k a = drop_bit k b" by simp
  qed simp
  then show ?thesis unfolding m by (metis unat_drop_bit_div word_unat_eq_iff)
qed

text \<open>C33. Atomic writes are exactly those the device can do atomically. For a boundary that is a power of two, and a request that is not empty and does not run past the end of the address space, the check accepts the request exactly when it is no larger than
  the unit and its first and last byte lie between the same two boundaries.\<close>

theorem atomic_write_exact:
  assumes "atomic_boundary C = 0 \<or> atomic_boundary C = 2 ^ k \<and> k < 32" and "bytes C \<noteq> 0" and "unat (pos C) * 512 + unat (bytes C) \<le> 2 ^ 64"
  shows "nvme_valid_atomic_write C \<longleftrightarrow> unat (bytes C) \<le> unat (atomic_unit_max C)
    \<and> (atomic_boundary C \<noteq> 0 \<longrightarrow> unat (pos C) * 512 div unat (atomic_boundary C) = (unat (pos C) * 512 + unat (bytes C) - 1) div unat (atomic_boundary C))"
proof (cases "atomic_boundary C = 0")
  case True
  then show ?thesis by (simp add: nvme_valid_atomic_write_def word_less_nat_alt not_less)
next
  case False
  let ?s = "push_bit 9 (pos C)" and ?n = "unat (bytes C)"
  let ?e = "?s + ucast (bytes C) - 1"
  from False assms(1) have b: "atomic_boundary C = 2 ^ k" and k: "k < 32" by auto
  have "(2 :: nat) ^ k < 2 ^ 32" using k by (rule power_strict_increasing) simp
  with k have "unat (of_nat (2 ^ k) :: u32) = 2 ^ k" by (simp add: unsigned_of_nat take_bit_nat_eq_self del: of_nat_power)
  then have ub: "unat (atomic_boundary C) = 2 ^ k" unfolding b by simp
  have n: "0 < ?n" using assms(2) by (simp add: unat_gt_0)
  have us: "unat ?s = unat (pos C) * 512"
    using assms(3) n by (simp add: push_bit_eq_mult unat_word_ariths)
  have un: "unat (ucast (bytes C) :: u64) = ?n" by (rule unat_ucast_u64)
  have ue: "unat ?e = unat (pos C) * 512 + ?n - 1"
  proof -
    have g: "unat (of_nat N :: u64) = N" if "N < 2 ^ 64" for N using that by (simp add: unsigned_of_nat take_bit_nat_eq_self)
    have e: "?e = of_nat (unat (pos C) * 512 + ?n - 1)" using n by (simp add: of_nat_diff flip: us un)
    show ?thesis unfolding e by (rule g) (use assms(3) n in linarith)
  qed
  have mk: "(ucast (atomic_boundary C - 1) :: u64) = mask k" unfolding b
    by (rule bit_word_eqI) (use k in \<open>auto simp: bit_simps mask_eq_exp_minus_1 [symmetric]\<close>)
  have same: "?s AND NOT (mask k) = ?e AND NOT (mask k) \<longleftrightarrow> unat (pos C) * 512 div 2 ^ k = (unat (pos C) * 512 + ?n - 1) div 2 ^ k"
    using mask_eq_div [of k ?s ?e] k unfolding us ue by simp
  have big: "?n \<le> 2 ^ k" if "unat (pos C) * 512 div 2 ^ k = (unat (pos C) * 512 + ?n - 1) div 2 ^ k"
  proof (rule ccontr)
    assume "\<not> ?n \<le> 2 ^ k"
    then have "unat (pos C) * 512 + 2 ^ k \<le> unat (pos C) * 512 + ?n - 1" by linarith
    then have "(unat (pos C) * 512 + 2 ^ k) div 2 ^ k \<le> (unat (pos C) * 512 + ?n - 1) div 2 ^ k" by (rule div_le_mono)
    moreover have "(unat (pos C) * 512 + 2 ^ k) div 2 ^ k = unat (pos C) * 512 div 2 ^ k + 1" by (rule div_add_self2) simp
    ultimately show False using that by linarith
  qed
  have "nvme_valid_atomic_write C \<longleftrightarrow> \<not> atomic_unit_max C < bytes C \<and> \<not> atomic_boundary C < bytes C \<and> ?s AND NOT (mask k) = ?e AND NOT (mask k)"
    unfolding nvme_valid_atomic_write_def Let_def mk using False by simp
  also have "\<dots> \<longleftrightarrow> ?n \<le> unat (atomic_unit_max C) \<and> ?n \<le> 2 ^ k \<and> unat (pos C) * 512 div 2 ^ k = (unat (pos C) * 512 + ?n - 1) div 2 ^ k"
    unfolding same by (simp add: word_less_nat_alt ub not_less)
  finally show ?thesis using False big unfolding ub by blast
qed

section \<open>A request to try it on\<close>

fun nc_sc :: "nvme_sc \<Rightarrow> u16" where
  "nc_sc NVME_SC_SUCCESS = 0"
| "nc_sc NVME_SC_LBA_RANGE = 0x80"
| "nc_sc NVME_SC_NS_NOT_READY = 0x82"
| "nc_sc NVME_SC_READ_ERROR = 0x281"
| "nc_sc NVME_SC_HOST_PATH_ERROR = 0x370"
| "nc_sc NVME_SC_AUTH_REQUIRED = 0x191"
| "nc_sc x = 0x7ff"

definition nc_H :: cmd_hdr where
  "nc_H = \<lparr>sc = nc_sc, NVME_SCT_SC_MASK = 0x7ff, NVME_STATUS_CRD = 0x1800, NVME_STATUS_DNR = 0x4000, nvme_cmd_flush = 0, nvme_cmd_write = 1, nvme_cmd_read = 2, nvme_cmd_write_zeroes = 8, nvme_cmd_dsm = 9,
     nvme_cmd_zone_append = 0x7d, NVME_DSMGMT_AD = 4, NVME_DSM_MAX_RANGES = 256, NVME_RW_FUA = 0x4000, NVME_RW_LR = 0x8000, NVME_RW_DSM_FREQ_PREFETCH = 8, NVME_RW_DTYPE_DPLCMT = 0x20,
     NVME_RW_PRINFO_PRACT = 0x2000, NVME_RW_PRINFO_PRCHK_GUARD = 0x1000, NVME_RW_PRINFO_PRCHK_REF = 0x400, NVME_RW_PRINFO_PRCHK_APP = 0x800, NVME_RW_APPEND_PIREMAP = 0x200, NVME_WZ_DEAC = 0x200,
     NVME_NS_DPS_PI_TYPE1 = 1, NVME_NS_DPS_PI_TYPE2 = 2, NVME_NVM_NS_16B_GUARD = 0, NVME_NVM_NS_64B_GUARD = 2, NVME_REQ_CANCELLED = 1, NVME_CMD_SGL_ALL = 0xc0,
     nvme_sect_to_lba = (\<lambda>head s. drop_bit (lba_shift head - 9) s), nvme_lba_to_sect = (\<lambda>head s. push_bit (lba_shift head - 9) s), nvme_is_path_error = (\<lambda>s. s AND 0x700 = 0x300),
     blk_noretry = (\<lambda>f. REQ_FAILFAST_DEV f \<or> REQ_FAILFAST_TRANSPORT f \<or> REQ_FAILFAST_DRIVER f), CONFIG_BLK_DEV_ZONED = False, CONFIG_NVME_HOST_AUTH = False, nvme_max_retries = 5\<rparr>"

definition nc_head :: ns_head where
  "nc_head = \<lparr>ns_id = 1, lba_shift = 12, ms = 0, pi_type = 0, guard_type = 0, ns_has_pi = False, ns_deac = False, nr_plids = 0, plids = []\<rparr>"

text \<open>Two pages at sector 64, as a read, a discard of two parts, or an atomic write.\<close>

definition nc_C :: "req_op \<Rightarrow> rq_ctx" where
  "nc_C x = \<lparr>op = x, passthrough = False, pos = 64, bytes = 8192, sectors = 16, segments = 2, max_discard_segments = 256, bios = [(64, 4096), (72, 4096)], write_stream = 0, integrity_rq = False,
     check_guard = False, check_reftag = False, check_apptag = False, app_tag = 0, t10_ref = 0, ext_ref = 0, atomic_unit_max = 16384, atomic_boundary = 16384, cid = 7, deadline = 0,
     rq_timeout = 0, poll_hctx = False, queuedata = Some nc_head, passthru_err_log = True, quirk_deallocate_zeroes = False, crdt = [1, 2, 3], kas = 0, ka_last_check_time = 0\<rparr>"

fun nc_E :: nc_env where
  "nc_E h (KzallocRange n) = NBool True"
| "nc_E h q = NDone"

definition nc_w :: nc_world where
  "nc_w = \<lparr>hist = [], drv = \<lparr>rq_cmd_flags = \<lparr>REQ_FUA = False, REQ_FAILFAST_DEV = False, REQ_FAILFAST_TRANSPORT = False, REQ_FAILFAST_DRIVER = False, REQ_RAHEAD = False, REQ_ATOMIC = True,
     REQ_NOUNMAP = False, REQ_NVME_MPATH = False, REQ_POLLED = False\<rparr>, dontprep = False, quiet_rq = False, special = None, rq_sector = 64, nr_status = 0x82, nr_retries = 0, nr_flags = 0, nr_result = 0,
     nr_cmd = zero_cmd, comp_seen = False\<rparr>\<rparr>"

abbreviation after_run :: "'a nc_prog \<Rightarrow> nc_world \<Rightarrow> nc_world" where
  "after_run m w \<equiv> snd (run_state m w)"

text \<open>A read that finds the namespace not ready is tried again.\<close>

lemma nc_requeued: "reqs (hist (after_run (nvme_complete_rq nc_E nc_H (nc_C REQ_OP_READ)) nc_w)) = [QueueDying, NsRetriesInc, RequeueRequest, DelayKick 0]"
  by code_simp


definition nc_w1 :: nc_world where
  "nc_w1 = after_run (nvme_setup_cmd nc_E nc_H (nc_C REQ_OP_READ) nc_head) nc_w"

definition nc_w2 :: nc_world where
  "nc_w2 = after_run (nvme_complete_rq nc_E nc_H (nc_C REQ_OP_READ)) (nc_w1\<lparr>drv := (drv nc_w1)\<lparr>nr_status := 0x82, nr_result := 0\<rparr>\<rparr>)"

theorem retries_bounded_witness: "rounds nc_E nc_H (nc_C REQ_OP_READ) nc_head 1 nc_w nc_w2 \<and> 1 \<le> unat (nvme_max_retries nc_H)"
proof -
  have s: "fst (run_state (nvme_setup_cmd nc_E nc_H (nc_C REQ_OP_READ) nc_head) nc_w) = BLK_STS_OK" by code_simp
  have h: "hist nc_w2 = hist nc_w1 @ drop (length (hist nc_w1)) (hist nc_w2)" by code_simp
  have q: "RequeueRequest \<in> set (reqs (drop (length (hist nc_w1)) (hist nc_w2)))" by code_simp
  have r: "rounds nc_E nc_H (nc_C REQ_OP_READ) nc_head (Suc 0) nc_w nc_w2"
    by (rule rounds_retry [OF rounds_none _ _ h q]) (use s in \<open>auto simp: nc_w1_def nc_w2_def prod_eq_iff\<close>)
  from retries_bounded [OF r] r show ?thesis by simp
qed

theorem payload_released_once_witness:
  "nheld (hist (after_run (nvme_complete_rq nc_E nc_H (nc_C REQ_OP_DISCARD)) ((after_run (nvme_setup_cmd nc_E nc_H (nc_C REQ_OP_DISCARD) nc_head) nc_w)
     \<lparr>drv := (drv (after_run (nvme_setup_cmd nc_E nc_H (nc_C REQ_OP_DISCARD) nc_head) nc_w))\<lparr>nr_status := 0, nr_result := 0\<rparr>\<rparr>))) Allocated = 0"
proof -
  let ?w1 = "after_run (nvme_setup_cmd nc_E nc_H (nc_C REQ_OP_DISCARD) nc_head) nc_w"
  let ?w2 = "after_run (nvme_complete_rq nc_E nc_H (nc_C REQ_OP_DISCARD)) (?w1\<lparr>drv := (drv ?w1)\<lparr>nr_status := 0, nr_result := 0\<rparr>\<rparr>)"
  have n: "special (drv nc_w) = None" by (simp add: nc_w_def)
  have "run_state (nvme_complete_rq nc_E nc_H (nc_C REQ_OP_DISCARD)) (?w1\<lparr>drv := (drv ?w1)\<lparr>nr_status := 0, nr_result := 0\<rparr>\<rparr>) = ((), ?w2)" by (simp add: prod_eq_iff)
  from payload_released_once [OF n prod.collapse [symmetric] this] show ?thesis by (simp add: nc_w_def)
qed

theorem discard_lists_parts_witness:
  "\<exists>m rs. special (drv (after_run (nvme_setup_discard nc_E nc_H (nc_C REQ_OP_DISCARD) nc_head) nc_w)) = Some (m, rs)
     \<and> rs 0 = Some \<lparr>r_cattr = 0, r_nlb = 1, r_slba = 8\<rparr> \<and> rs 1 = Some \<lparr>r_cattr = 0, r_nlb = 1, r_slba = 9\<rparr> \<and> rs 2 = None"
proof -
  have "fst (run_state (nvme_setup_discard nc_E nc_H (nc_C REQ_OP_DISCARD) nc_head) nc_w) = BLK_STS_OK" by code_simp
  then have r: "run_state (nvme_setup_discard nc_E nc_H (nc_C REQ_OP_DISCARD) nc_head) nc_w = (BLK_STS_OK, after_run (nvme_setup_discard nc_E nc_H (nc_C REQ_OP_DISCARD) nc_head) nc_w)"
    by (simp add: prod_eq_iff)
  have h: "max_discard_segments (nc_C REQ_OP_DISCARD) \<noteq> 1" "length (bios (nc_C REQ_OP_DISCARD)) < 2 ^ 16" "bios (nc_C REQ_OP_DISCARD) \<noteq> []" by (simp_all add: nc_C_def)
  have b: "bios (nc_C REQ_OP_DISCARD) = [(64, 4096), (72, 4096)]" by (simp add: nc_C_def)
  have s: "lba_shift nc_head = 12" "nvme_sect_to_lba nc_H nc_head 64 = 8" "nvme_sect_to_lba nc_H nc_head 72 = 9" by (simp_all add: nc_head_def nc_H_def drop_bit_eq_div)
  have d: "drop_bit 12 (4096 :: u32) = 1" by (simp add: drop_bit_eq_div)
  from discard_lists_parts [OF h r] show ?thesis unfolding b s by (auto simp: d s)
qed

theorem rw_names_blocks_witness:
  "slba (nr_cmd (drv (after_run (nvme_setup_rw nc_E nc_H (nc_C REQ_OP_READ) nc_head 2) nc_w))) = 8
   \<and> unat (nlb (nr_cmd (drv (after_run (nvme_setup_rw nc_E nc_H (nc_C REQ_OP_READ) nc_head 2) nc_w)))) = 1"
proof -
  let ?w = "after_run (nvme_setup_rw nc_E nc_H (nc_C REQ_OP_READ) nc_head 2) nc_w"
  have "fst (run_state (nvme_setup_rw nc_E nc_H (nc_C REQ_OP_READ) nc_head 2) nc_w) = BLK_STS_OK" by code_simp
  then have r: "run_state (nvme_setup_rw nc_E nc_H (nc_C REQ_OP_READ) nc_head 2) nc_w = (BLK_STS_OK, ?w)" by (simp add: prod_eq_iff)
  have l: "lba_shift nc_head = 12" "pos (nc_C REQ_OP_READ) = 64" "bytes (nc_C REQ_OP_READ) = 8192" by (simp_all add: nc_head_def nc_C_def)
  have "unat (slba (nr_cmd (drv ?w))) * 4096 = 64 * 512 \<and> (unat (nlb (nr_cmd (drv ?w))) + 1) * 4096 = 8192"
    using rw_names_blocks [where H = nc_H and head = nc_head and C = "nc_C REQ_OP_READ", OF _ _ _ _ _ _ r] by (simp add: l nc_H_def)
  then show ?thesis by (simp add: word_unat_eq_iff)
qed

theorem atomic_write_exact_witness: "nvme_valid_atomic_write (nc_C REQ_OP_WRITE) \<and> \<not> nvme_valid_atomic_write ((nc_C REQ_OP_WRITE)\<lparr>pos := 24\<rparr>)"
proof -
  have b: "atomic_boundary (nc_C REQ_OP_WRITE) = 2 ^ 14" by (simp add: nc_C_def)
  note a = atomic_write_exact [where k = 14]
  show ?thesis
    using a [of "nc_C REQ_OP_WRITE"] a [of "(nc_C REQ_OP_WRITE)\<lparr>pos := 24\<rparr>"] by (simp add: nc_C_def)
qed

end
