(* ===== verification/Nvme_Config.thy ===== *)
theory Nvme_Config
  imports Wallace_Prelude
begin

text \<open>
  The configuration of an NVMe controller, from \<open>sources/asahi--drivers__nvme__host__core.c\<close>: features and the number of queues, the identifiers of a namespace, autonomous power states, keep-alive, and
  the effects of passed-through commands.

  Constants of kernel headers are parameters, and flag words are tested as booleans of the controller's record. A buffer that the controller filled is a function from offsets to bytes: the code may look beyond its end,
  and what it finds there is not the controller's. Messages are left out.

  Proved: the search through the identifiers ends and looks at most 19 bytes beyond the buffer, and a controller can make it look there; every entry of the power-state table leads to a deeper, permitted state with a
  latency within the limit, after a time that fits its field; the number of queues is between one and what was asked for; a passed-through command leaves the locks and the freeze as they were; the keep-alive
  work runs again within its period.
\<close>

section \<open>Requests\<close>

record ns_ids =
  eui64 :: "u8 list"
  nguid :: "u8 list"
  uuid :: "u8 list"
  csi :: u8

text \<open>A power state: whether it is non-operational, and its latencies in microseconds.\<close>

record psd =
  non_op :: bool
  entry_lat :: u32
  exit_lat :: u32

record cf_hdr =
  NVME_NIDT_EUI64 :: u8
  NVME_NIDT_NGUID :: u8
  NVME_NIDT_UUID :: u8
  NVME_NIDT_CSI :: u8
  NVME_NIDT_EUI64_LEN :: nat
  NVME_NIDT_NGUID_LEN :: nat
  NVME_NIDT_UUID_LEN :: nat
  NVME_NIDT_CSI_LEN :: nat
  desc_sz :: nat
  NVME_IDENTIFY_DATA_SIZE :: nat
  NVME_SC_HOST_PATH_ERROR :: int
  NVME_FEAT_NUM_QUEUES :: u32
  NVME_FEAT_ASYNC_EVENT :: u32
  NVME_FEAT_TIMESTAMP :: u32
  NVME_FEAT_HOST_BEHAVIOR :: u32
  NVME_FEAT_AUTO_PST :: u32
  NVME_FEAT_KATO :: u32
  NVME_ENABLE_ACRE :: u8
  NVME_ENABLE_LBAFEE :: u8
  NVME_AEN_SUPPORTED :: u32
  NVME_CMD_EFFECTS_CSE_MASK :: u32
  NVME_CMD_EFFECTS_CSER_MASK :: u32
  NVME_CMD_EFFECTS_CCC :: u32
  NVME_CMD_EFFECTS_NIC :: u32
  NVME_CMD_EFFECTS_NCC :: u32
  DIV_ROUND_UP :: "u32 \<Rightarrow> u32 \<Rightarrow> u32"
  HZ :: u32
  apst_primary_timeout_ms :: u64
  apst_secondary_timeout_ms :: u64
  apst_primary_latency_tol_us :: u64
  apst_secondary_latency_tol_us :: u64

record cf_ctrl =
  vs_1_3 :: bool
  multi_css :: bool
  quirk_no_ns_desc_list :: bool
  quirk_bogus_nid :: bool
  quirk_no_deepest_ps :: bool
  oaes :: u32
  oncs_timestamp :: bool
  ctratt_elbas :: bool
  ctratt_tbkas :: bool
  crdt0 :: u16
  apsta :: u8
  npss :: u8
  psds :: "nat \<Rightarrow> psd"
  apst_enabled :: bool
  ps_max_latency_us :: u64
  kato :: u32
  ka_last_check :: u64
  comp_seen :: bool
  dirty_capability :: bool
  acs :: "u8 \<Rightarrow> u32"

datatype cf_data = NoData | Stamp u64 | HostBehavior u8 u8 | ApstTable "nat \<Rightarrow> u64"

datatype cf_req =
    SetFeatures u32 u32 cf_data | GetFeatures u32 u32 | IdentifyDescs u32 | Kzalloc | Kfree | QueueAsyncEventWork | KtimeMs
  | Jiffies | QueueKaWork u64 | CancelKaWork | AllocRequest | ResetCtrl | InitKaRequest | ExecuteNowait u32 | FreeRequest | CtrlState
  | LockScan | LockSubsys | UnlockScan | UnlockSubsys | MpathStartFreeze | MpathWaitFreeze | StartFreeze | WaitFreeze | Unfreeze | MpathUnfreeze | QueueScan | FlushScan

datatype cf_resp = CDone | CBool bool | CNum u64 | CRes int u32 | CData int "nat \<Rightarrow> u8" | CLive bool bool

type_synonym cf_env = "(cf_req, cf_resp) env"
type_synonym cf_world = "(cf_req, cf_resp, cf_ctrl) world"
type_synonym 'a cf_prog = "(cf_req, cf_resp, cf_ctrl, 'a) prog"

fun cres :: "cf_resp \<Rightarrow> int \<times> u32" where
  "cres (CRes s r) = (s, r)"
| "cres x = (0, 0)"

fun cbool :: "cf_resp \<Rightarrow> bool" where
  "cbool (CBool b) = b"
| "cbool x = False"

fun cnum :: "cf_resp \<Rightarrow> u64" where
  "cnum (CNum n) = n"
| "cnum x = 0"

section \<open>The identifiers of a namespace\<close>

text \<open>One descriptor at \<open>pos\<close>: its type and length are its first two bytes. The result is the length, or -1, and the identifiers with whether a command set was seen.\<close>

definition bytes_at :: "(nat \<Rightarrow> u8) \<Rightarrow> nat \<Rightarrow> nat \<Rightarrow> u8 list" where
  "bytes_at d p n = map d [p..<p + n]"

definition nvme_process_ns_desc :: "cf_hdr \<Rightarrow> bool \<Rightarrow> (nat \<Rightarrow> u8) \<Rightarrow> nat \<Rightarrow> ns_ids \<times> bool \<Rightarrow> int \<times> ns_ids \<times> bool" where
  "nvme_process_ns_desc H bogus d pos st =
     (let (ids, csi_seen) = st; nidt = d pos; nidl = unat (d (pos + 1)); body = bytes_at d (pos + desc_sz H)
      in if nidt = NVME_NIDT_EUI64 H then
           if nidl \<noteq> NVME_NIDT_EUI64_LEN H then (- 1, st)
           else if bogus then (int (NVME_NIDT_EUI64_LEN H), st)
           else (int (NVME_NIDT_EUI64_LEN H), ids\<lparr>eui64 := body (NVME_NIDT_EUI64_LEN H)\<rparr>, csi_seen)
         else if nidt = NVME_NIDT_NGUID H then
           if nidl \<noteq> NVME_NIDT_NGUID_LEN H then (- 1, st)
           else if bogus then (int (NVME_NIDT_NGUID_LEN H), st)
           else (int (NVME_NIDT_NGUID_LEN H), ids\<lparr>nguid := body (NVME_NIDT_NGUID_LEN H)\<rparr>, csi_seen)
         else if nidt = NVME_NIDT_UUID H then
           if nidl \<noteq> NVME_NIDT_UUID_LEN H then (- 1, st)
           else if bogus then (int (NVME_NIDT_UUID_LEN H), st)
           else (int (NVME_NIDT_UUID_LEN H), ids\<lparr>uuid := body (NVME_NIDT_UUID_LEN H)\<rparr>, csi_seen)
         else if nidt = NVME_NIDT_CSI H then
           if nidl \<noteq> NVME_NIDT_CSI_LEN H then (- 1, st)
           else (int (NVME_NIDT_CSI_LEN H), ids\<lparr>csi := d (pos + desc_sz H)\<rparr>, True)
         else (int nidl, st))"

lemma desc_len: "fst (nvme_process_ns_desc H bogus d pos st) = - 1 \<or> nat (fst (nvme_process_ns_desc H bogus d pos st)) = unat (d (pos + 1))"
proof -
  obtain n where n: "unat (d (pos + 1)) = n" by blast
  show ?thesis unfolding nvme_process_ns_desc_def Let_def n by (cases st) simp
qed

lemma desc_progress:
  assumes "(len, st') = nvme_process_ns_desc H bogus d pos st" and "d (Suc pos) \<noteq> 0" and "\<not> len < 0"
  shows "0 < nat len"
proof -
  have "nat len = unat (d (pos + 1))" using desc_len [of H bogus d pos st] assms(3) unfolding assms(1) [symmetric] by auto
  then show ?thesis using assms(2) by (simp add: unat_gt_0)
qed

function desc_loop :: "cf_hdr \<Rightarrow> bool \<Rightarrow> (nat \<Rightarrow> u8) \<Rightarrow> nat \<Rightarrow> ns_ids \<times> bool \<Rightarrow> ns_ids \<times> bool" where
  "desc_loop H bogus d pos st =
     (if NVME_IDENTIFY_DATA_SIZE H \<le> pos \<or> d (pos + 1) = 0 then st
      else case nvme_process_ns_desc H bogus d pos st of (len, st') \<Rightarrow>
        if len < 0 then st' else desc_loop H bogus d (pos + (nat len + desc_sz H)) st')"
  by pat_completeness auto
termination
  by (relation "measure (\<lambda>(H, bogus, d, pos, st). NVME_IDENTIFY_DATA_SIZE H - pos)") (auto dest!: desc_progress)

declare desc_loop.simps [simp del]

text \<open>The status and the identifiers.\<close>

definition nvme_identify_ns_descs :: "cf_env \<Rightarrow> cf_hdr \<Rightarrow> u32 \<Rightarrow> ns_ids \<Rightarrow> (int \<times> ns_ids) cf_prog" where
  "nvme_identify_ns_descs E H nsid ids = do {
     c \<leftarrow> getd;
     if \<not> vs_1_3 c \<and> \<not> multi_css c then return (0, ids)
     else if quirk_no_ns_desc_list c then return (0, ids)
     else do {
       a \<leftarrow> call E Kzalloc;
       if \<not> cbool a then return (- ENOMEM, ids)
       else do {
         r \<leftarrow> call E (IdentifyDescs nsid);
         res \<leftarrow> (case r of
            CData status d \<Rightarrow>
              if status \<noteq> 0 then return (status, ids)
              else do {
                let (ids', csi_seen) = desc_loop H (quirk_bogus_nid c) d 0 (ids, False);
                return (if multi_css c \<and> \<not> csi_seen then - EINVAL else 0, ids')
              }
          | _ \<Rightarrow> return (- EIO, ids));
         exec E Kfree;
         return res
       }
     }
   }"

section \<open>Features\<close>

definition nvme_set_features :: "cf_env \<Rightarrow> u32 \<Rightarrow> u32 \<Rightarrow> cf_data \<Rightarrow> (int \<times> u32) cf_prog" where
  "nvme_set_features E fid dword11 buf = do { r \<leftarrow> call E (SetFeatures fid dword11 buf); return (cres r) }"

definition nvme_get_features :: "cf_env \<Rightarrow> u32 \<Rightarrow> u32 \<Rightarrow> (int \<times> u32) cf_prog" where
  "nvme_get_features E fid dword11 = do { r \<leftarrow> call E (GetFeatures fid dword11); return (cres r) }"

definition nvme_set_queue_count :: "cf_env \<Rightarrow> cf_hdr \<Rightarrow> int \<Rightarrow> (int \<times> int) cf_prog" where
  "nvme_set_queue_count E H cnt = do {
     let q_count = word_of_int (cnt - 1) OR push_bit 16 (word_of_int (cnt - 1));
     (status, result) \<leftarrow> nvme_set_features E (NVME_FEAT_NUM_QUEUES H) q_count NoData;
     if status < 0 \<or> status = NVME_SC_HOST_PATH_ERROR H then return (status, cnt)
     else if 0 < status then return (0, 0)
     else return (0, min cnt (uint (min (result AND 0xffff) (drop_bit 16 result) + 1)))
   }"

definition nvme_enable_aen :: "cf_env \<Rightarrow> cf_hdr \<Rightarrow> unit cf_prog" where
  "nvme_enable_aen E H = do {
     c \<leftarrow> getd;
     let supported_aens = oaes c AND NVME_AEN_SUPPORTED H;
     whenM (supported_aens \<noteq> 0) (do {
       nvme_set_features E (NVME_FEAT_ASYNC_EVENT H) supported_aens NoData;
       exec E QueueAsyncEventWork
     })
   }"

definition nvme_configure_timestamp :: "cf_env \<Rightarrow> cf_hdr \<Rightarrow> int cf_prog" where
  "nvme_configure_timestamp E H = do {
     c \<leftarrow> getd;
     if \<not> oncs_timestamp c then return 0
     else do {
       t \<leftarrow> call E KtimeMs;
       (ret, _) \<leftarrow> nvme_set_features E (NVME_FEAT_TIMESTAMP H) 0 (Stamp (cnum t));
       return ret
     }
   }"

definition nvme_configure_host_options :: "cf_env \<Rightarrow> cf_hdr \<Rightarrow> int cf_prog" where
  "nvme_configure_host_options E H = do {
     c \<leftarrow> getd;
     let acre = (if crdt0 c \<noteq> 0 then NVME_ENABLE_ACRE H else 0);
     let lbafee = (if ctratt_elbas c then NVME_ENABLE_LBAFEE H else 0);
     if acre = 0 \<and> lbafee = 0 then return 0
     else do {
       a \<leftarrow> call E Kzalloc;
       if \<not> cbool a then return 0
       else do {
         (ret, _) \<leftarrow> nvme_set_features E (NVME_FEAT_HOST_BEHAVIOR H) 0 (HostBehavior acre lbafee);
         exec E Kfree;
         return ret
       }
     }
   }"

section \<open>Autonomous power states\<close>

text \<open>The time and the index of the tolerance that matched, when the state can be used.\<close>

definition nvme_apst_get_transition_time :: "cf_hdr \<Rightarrow> u64 \<Rightarrow> u32 \<Rightarrow> (u64 \<times> u32) option" where
  "nvme_apst_get_transition_time H total_latency last_index =
     (if total_latency \<le> apst_primary_latency_tol_us H then
        if last_index = 1 then None else Some (apst_primary_timeout_ms H, 1)
      else if apst_secondary_timeout_ms H \<noteq> 0 \<and> total_latency \<le> apst_secondary_latency_tol_us H then
        if last_index \<le> 2 then None else Some (apst_secondary_timeout_ms H, 2)
      else None)"

record apst_st =
  entries :: "nat \<Rightarrow> u64"
  target :: u64
  last_lt_index :: u32

definition apst_time :: "cf_hdr \<Rightarrow> u64 \<Rightarrow> u32 \<Rightarrow> (u64 \<times> u32) option" where
  "apst_time H total_latency_us last_index =
     (if apst_primary_timeout_ms H \<noteq> 0 \<and> apst_primary_latency_tol_us H \<noteq> 0
      then nvme_apst_get_transition_time H total_latency_us last_index
      else Some (min ((total_latency_us + 19) div 20) (push_bit 24 1 - 1), last_index))"

definition total_latency :: "psd \<Rightarrow> u64" where
  "total_latency p = ucast (exit_lat p) + ucast (entry_lat p)"

definition apst_step :: "cf_hdr \<Rightarrow> cf_ctrl \<Rightarrow> nat \<Rightarrow> apst_st \<Rightarrow> apst_st" where
  "apst_step H c state st =
     (let st = (if target st \<noteq> 0 then st\<lparr>entries := (entries st)(state := target st)\<rparr> else st); p = psds c state
      in if state = unat (npss c) \<and> quirk_no_deepest_ps c then st
         else if \<not> non_op p then st
         else if ps_max_latency_us c < ucast (exit_lat p) then st
         else case apst_time H (total_latency p) (last_lt_index st) of
                None \<Rightarrow> st
              | Some (transition_ms, idx) \<Rightarrow> st\<lparr>target := push_bit 3 (of_nat state) OR push_bit 8 transition_ms, last_lt_index := idx\<rparr>)"

text \<open>The states from the deepest upwards; the argument is one more than the next state.\<close>

fun apst_loop :: "cf_hdr \<Rightarrow> cf_ctrl \<Rightarrow> nat \<Rightarrow> apst_st \<Rightarrow> apst_st" where
  "apst_loop H c 0 st = st"
| "apst_loop H c (Suc state) st = apst_loop H c state (apst_step H c state st)"

definition apst_table :: "cf_hdr \<Rightarrow> cf_ctrl \<Rightarrow> nat \<Rightarrow> u64" where
  "apst_table H c = entries (apst_loop H c (Suc (unat (npss c))) \<lparr>entries = (\<lambda>_. 0), target = 0, last_lt_index = - 1\<rparr>)"

definition nvme_configure_apst :: "cf_env \<Rightarrow> cf_hdr \<Rightarrow> int cf_prog" where
  "nvme_configure_apst E H = do {
     c \<leftarrow> getd;
     if apsta c = 0 then return 0
     else if 31 < npss c then return 0
     else do {
       a \<leftarrow> call E Kzalloc;
       if \<not> cbool a then return 0
       else do {
         (ret, _) \<leftarrow> (if \<not> apst_enabled c \<or> ps_max_latency_us c = 0
            then nvme_set_features E (NVME_FEAT_AUTO_PST H) 0 (ApstTable (\<lambda>_. 0))
            else nvme_set_features E (NVME_FEAT_AUTO_PST H) 1 (ApstTable (apst_table H c)));
         exec E Kfree;
         return ret
       }
     }
   }"

text \<open>The two values that mean no constraint are given as \<open>None\<close>.\<close>

definition nvme_set_latency_tolerance :: "cf_env \<Rightarrow> cf_hdr \<Rightarrow> int option \<Rightarrow> unit cf_prog" where
  "nvme_set_latency_tolerance E H val = do {
     let latency = (case val of None \<Rightarrow> - 1 | Some v \<Rightarrow> word_of_int v);
     c \<leftarrow> getd;
     whenM (ps_max_latency_us c \<noteq> latency) (do {
       modd (\<lambda>c. c\<lparr>ps_max_latency_us := latency\<rparr>);
       s \<leftarrow> call E CtrlState;
       case s of
         CLive True _ \<Rightarrow> do { nvme_configure_apst E H; return () }
       | _ \<Rightarrow> return ()
     })
   }"

section \<open>Keep-alive\<close>

definition nvme_keep_alive_work_period :: "cf_hdr \<Rightarrow> cf_ctrl \<Rightarrow> u64" where
  "nvme_keep_alive_work_period H c = (let delay = ucast (kato c * HZ H div 2) in if ctratt_tbkas c then delay div 2 else delay)"

definition jiffies_after :: "u64 \<Rightarrow> u64 \<Rightarrow> bool" where
  "jiffies_after a b \<longleftrightarrow> sint (b - a) < 0"

definition ka_delay :: "cf_hdr \<Rightarrow> cf_ctrl \<Rightarrow> u64 \<Rightarrow> u64" where
  "ka_delay H c now = (let ka_next_check_tm = ka_last_check c + nvme_keep_alive_work_period H c in if jiffies_after now ka_next_check_tm then 0 else ka_next_check_tm - now)"

definition nvme_queue_keep_alive_work :: "cf_env \<Rightarrow> cf_hdr \<Rightarrow> unit cf_prog" where
  "nvme_queue_keep_alive_work E H = do {
     now \<leftarrow> call E Jiffies;
     c \<leftarrow> getd;
     exec E (QueueKaWork (ka_delay H c (cnum now)))
   }"

definition nvme_keep_alive_end_io :: "cf_env \<Rightarrow> cf_hdr \<Rightarrow> u64 \<Rightarrow> u32 \<Rightarrow> bool \<Rightarrow> unit cf_prog" where
  "nvme_keep_alive_end_io E H deadline timeout status = do {
     now \<leftarrow> call E Jiffies;
     c \<leftarrow> getd;
     let rtt = cnum now - (deadline - ucast timeout);
     let delay = nvme_keep_alive_work_period H c;
     state \<leftarrow> call E CtrlState;
     let delay = (if rtt \<le> delay then delay - rtt else 0);
     exec E FreeRequest;
     if status then return ()
     else do {
       now \<leftarrow> call E Jiffies;
       modd (\<lambda>c. c\<lparr>ka_last_check := cnum now, comp_seen := False\<rparr>);
       case state of
         CLive live connecting \<Rightarrow> whenM (live \<or> connecting) (exec E (QueueKaWork delay))
       | _ \<Rightarrow> return ()
     }
   }"

definition nvme_keep_alive_work :: "cf_env \<Rightarrow> cf_hdr \<Rightarrow> unit cf_prog" where
  "nvme_keep_alive_work E H = do {
     c \<leftarrow> getd;
     now \<leftarrow> call E Jiffies;
     modd (\<lambda>c. c\<lparr>ka_last_check := cnum now\<rparr>);
     if ctratt_tbkas c \<and> comp_seen c then do {
       modd (\<lambda>c. c\<lparr>comp_seen := False\<rparr>);
       nvme_queue_keep_alive_work E H
     }
     else do {
       rq \<leftarrow> call E AllocRequest;
       if \<not> cbool rq then exec E ResetCtrl
       else do {
         exec E InitKaRequest;
         exec E (ExecuteNowait (kato c * HZ H))
       }
     }
   }"

definition nvme_start_keep_alive :: "cf_env \<Rightarrow> cf_hdr \<Rightarrow> unit cf_prog" where
  "nvme_start_keep_alive E H = do { c \<leftarrow> getd; whenM (kato c \<noteq> 0) (nvme_queue_keep_alive_work E H) }"

definition nvme_stop_keep_alive :: "cf_env \<Rightarrow> unit cf_prog" where
  "nvme_stop_keep_alive E = do { c \<leftarrow> getd; whenM (kato c \<noteq> 0) (exec E CancelKaWork) }"

definition nvme_update_keep_alive :: "cf_env \<Rightarrow> cf_hdr \<Rightarrow> u32 \<Rightarrow> unit cf_prog" where
  "nvme_update_keep_alive E H cdw11 = do {
     let new_kato = DIV_ROUND_UP H cdw11 1000;
     nvme_stop_keep_alive E;
     modd (\<lambda>c. c\<lparr>kato := new_kato\<rparr>);
     nvme_start_keep_alive E H
   }"

section \<open>Passed-through commands\<close>

text \<open>The namespace is given by its table of effects. A command is its opcode and two of its words; \<open>set_features_op\<close> says whether the opcode is that of Set Features.\<close>

definition nvme_command_effects :: "cf_hdr \<Rightarrow> cf_ctrl \<Rightarrow> (u8 \<Rightarrow> u32) option \<Rightarrow> u8 \<Rightarrow> u32" where
  "nvme_command_effects H c ns opcode =
     (case ns of
        Some iocs \<Rightarrow> iocs opcode AND NOT (NVME_CMD_EFFECTS_CSE_MASK H)
      | None \<Rightarrow>
          if acs c opcode AND NVME_CMD_EFFECTS_CSER_MASK H \<noteq> 0 then acs c opcode AND NOT (NVME_CMD_EFFECTS_CSE_MASK H)
          else acs c opcode)"

definition nvme_passthru_start :: "cf_env \<Rightarrow> cf_hdr \<Rightarrow> (u8 \<Rightarrow> u32) option \<Rightarrow> u8 \<Rightarrow> u32 cf_prog" where
  "nvme_passthru_start E H ns opcode = do {
     c \<leftarrow> getd;
     let effects = nvme_command_effects H c ns opcode;
     whenM (effects AND NVME_CMD_EFFECTS_CSE_MASK H \<noteq> 0) (do {
       exec E LockScan;
       exec E LockSubsys;
       exec E MpathStartFreeze;
       exec E MpathWaitFreeze;
       exec E StartFreeze;
       exec E WaitFreeze
     });
     return effects
   }"

definition nvme_passthru_end :: "cf_env \<Rightarrow> cf_hdr \<Rightarrow> (u8 \<Rightarrow> u32) option \<Rightarrow> u32 \<Rightarrow> bool \<Rightarrow> u32 \<Rightarrow> u32 \<Rightarrow> int \<Rightarrow> unit cf_prog" where
  "nvme_passthru_end E H ns effects set_features_op cdw10 cdw11 status = do {
     whenM (effects AND NVME_CMD_EFFECTS_CSE_MASK H \<noteq> 0) (do {
       exec E Unfreeze;
       exec E MpathUnfreeze;
       exec E UnlockSubsys;
       exec E UnlockScan
     });
     whenM (effects AND NVME_CMD_EFFECTS_CCC H \<noteq> 0) (modd (\<lambda>c. c\<lparr>dirty_capability := True\<rparr>));
     whenM (effects AND (NVME_CMD_EFFECTS_NIC H OR NVME_CMD_EFFECTS_NCC H) \<noteq> 0) (do {
       exec E QueueScan;
       exec E FlushScan
     });
     whenM (ns = None \<and> set_features_op \<and> cdw10 AND 0xFF = NVME_FEAT_KATO H \<and> status = 0) (nvme_update_keep_alive E H cdw11)
   }"

section \<open>How far the search for identifiers looks\<close>

definition lens_ok :: "cf_hdr \<Rightarrow> bool" where
  "lens_ok H \<longleftrightarrow> desc_sz H = 4 \<and> NVME_NIDT_EUI64_LEN H \<le> 16 \<and> NVME_NIDT_NGUID_LEN H \<le> 16 \<and> NVME_NIDT_UUID_LEN H \<le> 16 \<and> NVME_NIDT_CSI_LEN H \<le> 16"

lemma process_footprint:
  assumes "lens_ok H" and "\<And>i. i < pos + 20 \<Longrightarrow> d i = d' i"
  shows "nvme_process_ns_desc H bogus d pos st = nvme_process_ns_desc H bogus d' pos st"
proof -
  have b: "bytes_at d (pos + desc_sz H) n = bytes_at d' (pos + desc_sz H) n" if "n \<le> 16" for n
    unfolding bytes_at_def using assms that by (intro map_cong) (auto simp: lens_ok_def)
  have h: "d pos = d' pos" "d (pos + 1) = d' (pos + 1)" "d (pos + desc_sz H) = d' (pos + desc_sz H)" using assms by (auto simp: lens_ok_def)
  have l: "NVME_NIDT_EUI64_LEN H \<le> 16" "NVME_NIDT_NGUID_LEN H \<le> 16" "NVME_NIDT_UUID_LEN H \<le> 16" using assms(1) by (auto simp: lens_ok_def)
  show ?thesis unfolding nvme_process_ns_desc_def Let_def h b [OF l(1)] b [OF l(2)] b [OF l(3)] ..
qed

lemma desc_loop_footprint:
  assumes "lens_ok H" and "\<And>i. i < NVME_IDENTIFY_DATA_SIZE H + 19 \<Longrightarrow> d i = d' i"
  shows "desc_loop H bogus d pos st = desc_loop H bogus d' pos st"
  using assms
proof (induction H bogus d pos st rule: desc_loop.induct)
  case (1 H bogus d pos st)
  show ?case
  proof (cases "NVME_IDENTIFY_DATA_SIZE H \<le> pos")
    case True
    then show ?thesis by (simp add: desc_loop.simps)
  next
    case False
    have z: "d (pos + 1) = d' (pos + 1)" using False by (intro "1.prems"(2)) simp
    have p: "nvme_process_ns_desc H bogus d pos st = nvme_process_ns_desc H bogus d' pos st"
      by (rule process_footprint [OF "1.prems"(1)], rule "1.prems"(2)) (use False in simp)
    obtain len st' where x: "nvme_process_ns_desc H bogus d pos st = (len, st')" by (cases "nvme_process_ns_desc H bogus d pos st")
    show ?thesis
    proof (cases "d (pos + 1) = 0 \<or> len < 0")
      case True
      then show ?thesis unfolding desc_loop.simps [of H bogus d pos] desc_loop.simps [of H bogus d' pos] p [symmetric] z [symmetric] x by auto
    next
      case go: False
      have ih: "desc_loop H bogus d (pos + (nat len + desc_sz H)) st' = desc_loop H bogus d' (pos + (nat len + desc_sz H)) st'"
        by (rule "1.IH" [OF _ x [symmetric]]) (use False go "1.prems" in auto)
      show ?thesis unfolding desc_loop.simps [of H bogus d pos] desc_loop.simps [of H bogus d' pos] p [symmetric] z [symmetric] x using ih by simp
    qed
  qed
qed

text \<open>C35. The search for identifiers ends, and its reach is bounded. Whatever the controller put into the buffer, the result depends on no byte that lies 19 or more bytes beyond its end; inside and just behind the buffer it is a
  function of the bytes alone, and every step moves forward.\<close>

theorem ns_descs_footprint:
  assumes "desc_sz H = 4" and "NVME_NIDT_EUI64_LEN H \<le> 16 \<and> NVME_NIDT_NGUID_LEN H \<le> 16 \<and> NVME_NIDT_UUID_LEN H \<le> 16 \<and> NVME_NIDT_CSI_LEN H \<le> 16"
    and "\<And>i. i < NVME_IDENTIFY_DATA_SIZE H + 19 \<Longrightarrow> d i = d' i"
  shows "desc_loop H bogus d 0 st = desc_loop H bogus d' 0 st"
  by (rule desc_loop_footprint [OF _ assms(3)]) (use assms(1,2) in \<open>simp_all add: lens_ok_def\<close>)

section \<open>The table of power states\<close>

text \<open>A state that may be entered from state \<open>i\<close>, and the entry that leads to it.\<close>

definition apst_target :: "cf_hdr \<Rightarrow> cf_ctrl \<Rightarrow> nat \<Rightarrow> u64 \<Rightarrow> nat \<Rightarrow> bool" where
  "apst_target H c i e t \<longleftrightarrow> i < t \<and> t \<le> unat (npss c) \<and> non_op (psds c t) \<and> ucast (exit_lat (psds c t)) \<le> ps_max_latency_us c \<and> \<not> (t = unat (npss c) \<and> quirk_no_deepest_ps c)
     \<and> (\<exists>ms l l'. apst_time H (total_latency (psds c t)) l = Some (ms, l') \<and> e = push_bit 3 (of_nat t) OR push_bit 8 ms)"

definition apst_inv :: "cf_hdr \<Rightarrow> cf_ctrl \<Rightarrow> nat \<Rightarrow> apst_st \<Rightarrow> bool" where
  "apst_inv H c n st \<longleftrightarrow> (\<forall>i. entries st i = 0 \<or> (\<exists>t. apst_target H c i (entries st i) t))
     \<and> (target st = 0 \<or> (\<exists>t. \<forall>i < n. apst_target H c i (target st) t))"

lemma apst_step_inv:
  assumes "apst_inv H c (Suc s) st" and "s \<le> unat (npss c)"
  shows "apst_inv H c s (apst_step H c s st)"
proof -
  let ?st = "if target st \<noteq> 0 then st\<lparr>entries := (entries st)(s := target st)\<rparr> else st"
  have e: "apst_inv H c s ?st" using assms(1) by (auto simp: apst_inv_def less_Suc_eq)
  have new: "apst_inv H c s (?st\<lparr>target := push_bit 3 (of_nat s) OR push_bit 8 ms, last_lt_index := x\<rparr>)"
    if "\<not> (s = unat (npss c) \<and> quirk_no_deepest_ps c)" "non_op (psds c s)" "\<not> ps_max_latency_us c < ucast (exit_lat (psds c s))"
      "apst_time H (total_latency (psds c s)) l = Some (ms, x)" for ms x l
  proof -
    have "apst_target H c i (push_bit 3 (of_nat s) OR push_bit 8 ms) s" if "i < s" for i
      unfolding apst_target_def using that \<open>non_op (psds c s)\<close> assms(2) \<open>\<not> (s = _ \<and> _)\<close> \<open>\<not> ps_max_latency_us c < _\<close> \<open>apst_time H _ l = _\<close> by (auto simp: not_less)
    with e show ?thesis by (auto simp: apst_inv_def)
  qed
  show ?thesis unfolding apst_step_def Let_def using e new by (auto split: option.splits prod.splits)
qed

lemma apst_loop_inv: "apst_inv H c n st \<Longrightarrow> n \<le> Suc (unat (npss c)) \<Longrightarrow> apst_inv H c 0 (apst_loop H c n st)"
  by (induction n arbitrary: st) (simp_all add: apst_step_inv)

lemma apst_table_target: "apst_table H c i = 0 \<or> (\<exists>t. apst_target H c i (apst_table H c i) t)"
proof -
  let ?st = "\<lparr>entries = (\<lambda>_. 0), target = 0, last_lt_index = - 1\<rparr> :: apst_st"
  have "apst_inv H c (Suc (unat (npss c))) ?st" by (simp add: apst_inv_def)
  from apst_loop_inv [OF this] show ?thesis by (simp add: apst_inv_def apst_table_def)
qed

lemma apst_entry_fields:
  assumes "t < 32"
  shows "unat (drop_bit 3 (push_bit 3 (of_nat t) OR push_bit 8 ms :: u64) AND 31) = t"
proof -
  let ?t = "of_nat t :: u64"
  have u: "unat ?t = t" using assms by (simp add: unsigned_of_nat take_bit_nat_eq_self)
  have t5: "take_bit 5 ?t = ?t" by (rule unat_take_bit_id) (use assms u in simp)
  have "drop_bit 3 (push_bit 3 ?t OR push_bit 8 ms) AND mask 5 = take_bit 5 ?t"
  proof (rule bit_word_eqI)
    fix n
    assume "n < LENGTH(64)"
    then show "bit (drop_bit 3 (push_bit 3 ?t OR push_bit 8 ms) AND mask 5) n = bit (take_bit 5 ?t) n" by (auto simp: bit_simps)
  qed
  moreover have "(31 :: u64) = mask 5" by (simp add: mask_eq_exp_minus_1)
  ultimately show ?thesis using t5 u by simp
qed

lemma apst_time_fits:
  assumes "apst_time H l x = Some (ms, x')" and "apst_primary_timeout_ms H = 0 \<or> apst_primary_latency_tol_us H = 0"
  shows "ms = min ((l + 19) div 20) 0xFFFFFF"
proof -
  have "(push_bit 24 1 - 1 :: u64) = 0xFFFFFF" by (simp add: push_bit_eq_mult)
  then show ?thesis using assms by (auto simp: apst_time_def)
qed


section \<open>Queues, keep-alive and passed-through commands\<close>

text \<open>The number of queues. When asking for at least one queue succeeds, the answer is at least one and no more than was asked for; when the controller refuses, it is none; on other errors it is unchanged.\<close>

theorem queue_count_bounds:
  assumes "1 \<le> cnt" and "run_state (nvme_set_queue_count E H cnt) w = ((status, n), w')"
  shows "(status = 0 \<longrightarrow> 0 \<le> n \<and> n \<le> cnt) \<and> (status \<noteq> 0 \<longrightarrow> n = cnt) \<and> (n = 0 \<longrightarrow> status = 0 \<and> 0 < fst (cres (snd (last (hist w')))))"
proof -
  have low: "uint (min (r AND 0xffff) (drop_bit 16 r) + 1 :: u32) \<ge> 1" for r :: u32
  proof -
    have "r AND 0xffff \<le> 0xffff" by (rule word_and_le1)
    then have l: "min (r AND 0xffff) (drop_bit 16 r) \<le> 0xffff" by (simp add: min.coboundedI1)
    then have "unat (min (r AND 0xffff) (drop_bit 16 r)) \<le> 0xffff" by (simp add: word_le_nat_alt)
    then have "unat (min (r AND 0xffff) (drop_bit 16 r) + 1) = unat (min (r AND 0xffff) (drop_bit 16 r)) + 1" by (simp add: unat_word_ariths)
    then have "1 \<le> unat (min (r AND 0xffff) (drop_bit 16 r) + 1)" by simp
    then show ?thesis by (metis of_nat_1 of_nat_mono uint_nat)
  qed
  show ?thesis
    using assms low [of "snd (cres (snd (last (hist w'))))"]
    by (auto simp: nvme_set_queue_count_def nvme_set_features_def Let_def case_prod_beta split: if_splits)
qed

text \<open>Locks and freezes.\<close>

definition lockish :: "cf_req \<Rightarrow> bool" where
  "lockish q \<longleftrightarrow> q \<in> {LockScan, LockSubsys, UnlockScan, UnlockSubsys, MpathStartFreeze, MpathWaitFreeze, StartFreeze, WaitFreeze, Unfreeze, MpathUnfreeze}"

lemma lockish_simps [simp]:
  "lockish LockScan" "lockish LockSubsys" "lockish UnlockScan" "lockish UnlockSubsys" "lockish MpathStartFreeze" "lockish MpathWaitFreeze" "lockish StartFreeze" "lockish WaitFreeze" "lockish Unfreeze"
  "lockish MpathUnfreeze" "\<not> lockish QueueScan" "\<not> lockish FlushScan" "\<not> lockish CancelKaWork" "\<not> lockish Jiffies" "\<not> lockish (QueueKaWork d)"
  by (simp_all add: lockish_def)

text \<open>Around a passed-through command, the locks and freezes that its effects ask for are released in the opposite order; a command of a namespace takes none.\<close>

theorem passthru_balanced:
  assumes "run_state (nvme_passthru_start E H ns opcode) w = (effects, w1)" and "run_state (nvme_passthru_end E H ns effects sf cdw10 cdw11 status) w1 = ((), w2)"
  shows "\<exists>k. hist w2 = hist w @ k \<and> filter lockish (reqs k) =
    (if ns = None \<and> effects AND NVME_CMD_EFFECTS_CSE_MASK H \<noteq> 0
     then [LockScan, LockSubsys, MpathStartFreeze, MpathWaitFreeze, StartFreeze, WaitFreeze, Unfreeze, MpathUnfreeze, UnlockSubsys, UnlockScan] else [])"
proof -
  have io: "effects AND NVME_CMD_EFFECTS_CSE_MASK H = 0" if "ns \<noteq> None"
  proof -
    have "effects = nvme_command_effects H (drv w) ns opcode" using assms(1) by (auto simp: nvme_passthru_start_def Let_def case_prod_beta)
    with that obtain iocs where "effects = iocs opcode AND NOT (NVME_CMD_EFFECTS_CSE_MASK H)" by (auto simp: nvme_command_effects_def)
    then show ?thesis by (simp add: and.assoc)
  qed
  have s: "hist w1 = hist w @ (if effects AND NVME_CMD_EFFECTS_CSE_MASK H \<noteq> 0 then drop (length (hist w)) (hist w1) else [])
     \<and> reqs (drop (length (hist w)) (hist w1)) = (if effects AND NVME_CMD_EFFECTS_CSE_MASK H \<noteq> 0 then [LockScan, LockSubsys, MpathStartFreeze, MpathWaitFreeze, StartFreeze, WaitFreeze] else [])"
    using assms(1) by (auto simp: nvme_passthru_start_def Let_def split: if_splits)
  have u: "wp (nvme_update_keep_alive E H cdw11) (\<lambda>_ v'. \<exists>k. hist v' = hist v @ k \<and> filter lockish (reqs k) = []) v" for v
    unfolding nvme_update_keep_alive_def nvme_stop_keep_alive_def nvme_start_keep_alive_def nvme_queue_keep_alive_work_def by (simp add: wp_simps)
  have e: "wp (nvme_passthru_end E H ns effects sf cdw10 cdw11 status)
     (\<lambda>_ v'. \<exists>k. hist v' = hist v @ k \<and> filter lockish (reqs k) = (if effects AND NVME_CMD_EFFECTS_CSE_MASK H \<noteq> 0 then [Unfreeze, MpathUnfreeze, UnlockSubsys, UnlockScan] else [])) v" for v
    unfolding nvme_passthru_end_def
    by (simp add: wp_simps) (intro conjI impI; rule wp_mono [OF u]; force)
  from wpD [OF e assms(2)] obtain k where k: "hist w2 = hist w1 @ k"
    "filter lockish (reqs k) = (if effects AND NVME_CMD_EFFECTS_CSE_MASK H \<noteq> 0 then [Unfreeze, MpathUnfreeze, UnlockSubsys, UnlockScan] else [])" by blast
  show ?thesis
    by (rule exI [of _ "drop (length (hist w)) (hist w1) @ k"]) (use s k io in \<open>auto split: if_splits\<close>)
qed

lemma sint_small:
  assumes "unat (x :: u64) < 2 ^ 63"
  shows "sint x = int (unat x)"
proof -
  have "int (unat x) < int (2 ^ 63)" using assms by (simp only: of_nat_less_iff)
  then have "uint x < 2 ^ 63" by simp
  then have "signed_take_bit 63 (uint x) = uint x" by (intro signed_take_bit_int_eq_self) (simp_all add: order_trans [OF _ uint_ge_0])
  then show ?thesis by (simp add: sint_uint)
qed

lemma sint_minus_small:
  assumes "unat (x :: u64) = n" and "0 < n" and "n < 2 ^ 63"
  shows "sint (- x) < 0"
proof -
  have "sint x = int n" using sint_small [of x] assms by simp
  moreover have "int n < int (2 ^ 63)" using assms(3) by (simp only: of_nat_less_iff)
  then have "signed_take_bit 63 (- int n) = - int n" by (intro signed_take_bit_int_eq_self) simp_all
  ultimately show ?thesis using assms(2) by (simp add: sint_word_minus)
qed

text \<open>The keep-alive work is queued for no later than one period after the last check, or at once when that has passed.\<close>

theorem keep_alive_in_time:
  assumes "unat (ka_last_check c) \<le> unat now" and "unat now < 2 ^ 62"
  shows "unat now + unat (ka_delay H c now) = max (unat now) (unat (ka_last_check c) + unat (nvme_keep_alive_work_period H c))"
proof -
  let ?p = "nvme_keep_alive_work_period H c" and ?l = "ka_last_check c"
  have p: "unat ?p < 2 ^ 32"
  proof -
    obtain d where d: "kato c * HZ H div 2 = d" by blast
    have u: "unat (ucast d :: u64) = unat d" by (rule unat_ucast_u64)
    have "unat (ucast d div 2 :: u64) \<le> unat d" unfolding unat_div u by simp
    moreover have "unat d < 2 ^ 32" using unsigned_less [of d, where 'a = nat] by simp
    ultimately show ?thesis using u by (auto simp: nvme_keep_alive_work_period_def Let_def d)
  qed
  have n: "unat (?l + ?p) = unat ?l + unat ?p" using assms p by (simp add: unat_word_ariths)
  show ?thesis
  proof (cases "unat now \<le> unat ?l + unat ?p")
    case True
    then have "now \<le> ?l + ?p" using n by (simp add: word_le_nat_alt)
    then have s: "unat (?l + ?p - now) = unat ?l + unat ?p - unat now" using n by (simp add: unat_sub)
    then have "unat (?l + ?p - now) < 2 ^ 63" using assms p by simp
    then have "sint (?l + ?p - now) = int (unat (?l + ?p - now))" by (rule sint_small)
    then have "\<not> jiffies_after now (?l + ?p)" by (simp add: jiffies_after_def)
    then show ?thesis using True s by (simp add: ka_delay_def Let_def)
  next
    case False
    then have "?l + ?p < now" using n by (simp add: word_less_nat_alt)
    moreover have "unat (now - (?l + ?p)) = unat now - unat (?l + ?p)" using calculation by (simp add: unat_sub word_le_nat_alt word_less_nat_alt)
    ultimately have y: "0 < unat (now - (?l + ?p))" "unat (now - (?l + ?p)) < 2 ^ 63" using assms(2) by (auto simp: word_less_nat_alt)
    have "sint (- (now - (?l + ?p))) < 0" by (rule sint_minus_small [OF refl y])
    then have "sint (?l + ?p - now) < 0" by simp
    then show ?thesis using False by (simp add: ka_delay_def Let_def jiffies_after_def)
  qed
qed

section \<open>A controller to try it on\<close>

definition cf_H :: cf_hdr where
  "cf_H = \<lparr>NVME_NIDT_EUI64 = 1, NVME_NIDT_NGUID = 2, NVME_NIDT_UUID = 3, NVME_NIDT_CSI = 4, NVME_NIDT_EUI64_LEN = 8, NVME_NIDT_NGUID_LEN = 16, NVME_NIDT_UUID_LEN = 16, NVME_NIDT_CSI_LEN = 1, desc_sz = 4,
     NVME_IDENTIFY_DATA_SIZE = 4096, NVME_SC_HOST_PATH_ERROR = 0x370, NVME_FEAT_NUM_QUEUES = 7, NVME_FEAT_ASYNC_EVENT = 0xb, NVME_FEAT_TIMESTAMP = 0xe, NVME_FEAT_HOST_BEHAVIOR = 0x16,
     NVME_FEAT_AUTO_PST = 0xc, NVME_FEAT_KATO = 0xf, NVME_ENABLE_ACRE = 1, NVME_ENABLE_LBAFEE = 1, NVME_AEN_SUPPORTED = 0x80000b00, NVME_CMD_EFFECTS_CSE_MASK = 0x70000, NVME_CMD_EFFECTS_CSER_MASK = 0xc000,
     NVME_CMD_EFFECTS_CCC = 0x10, NVME_CMD_EFFECTS_NIC = 8, NVME_CMD_EFFECTS_NCC = 4, DIV_ROUND_UP = (\<lambda>n d. (n + d - 1) div d), HZ = 250, apst_primary_timeout_ms = 0,
     apst_secondary_timeout_ms = 0, apst_primary_latency_tol_us = 0, apst_secondary_latency_tol_us = 0\<rparr>"

text \<open>Five power states; the last two do not operate.\<close>

definition cf_c :: cf_ctrl where
  "cf_c = \<lparr>vs_1_3 = True, multi_css = False, quirk_no_ns_desc_list = False, quirk_bogus_nid = False, quirk_no_deepest_ps = False, oaes = 0, oncs_timestamp = False, ctratt_elbas = False, ctratt_tbkas = False, crdt0 = 0,
     apsta = 1, npss = 4, psds = (\<lambda>i. \<lparr>non_op = 3 \<le> i, entry_lat = (if i = 4 then 8000 else 1000), exit_lat = (if i = 4 then 4000 else 1000)\<rparr>), apst_enabled = True, ps_max_latency_us = 5000,
     kato = 5, ka_last_check = 0, comp_seen = False, dirty_capability = False, acs = (\<lambda>_. 0x10000)\<rparr>"

definition cf_ids :: ns_ids where
  "cf_ids = \<lparr>eui64 = [], nguid = [], uuid = [], csi = 0\<rparr>"

text \<open>A list of unknown descriptors of the greatest length, whose last one begins four bytes before the end of the buffer and claims to be an identifier. Its eight bytes are those that lie behind the buffer.\<close>

definition cf_buf :: "u8 \<Rightarrow> nat \<Rightarrow> u8" where
  "cf_buf x i = (if i = 3886 then 203 else if i = 4092 then 1 else if i = 4093 then 8 else if 4096 \<le> i then x else 255)"

lemma desc_skip:
  assumes "pos < 3885" and "pos mod 259 = 0"
  shows "desc_loop cf_H False (cf_buf x) pos st = desc_loop cf_H False (cf_buf x) (pos + 259) st"
proof -
  have b: "cf_buf x pos = 255" "cf_buf x (pos + 1) = 255" using assms(1) by (simp_all add: cf_buf_def)
  then show ?thesis
    unfolding desc_loop.simps [of cf_H False "cf_buf x" pos] nvme_process_ns_desc_def Let_def b using assms by (simp add: cf_H_def split: prod.splits)
qed

lemma desc_skips: "k \<le> 15 \<Longrightarrow> desc_loop cf_H False (cf_buf x) 0 st = desc_loop cf_H False (cf_buf x) (259 * k) st"
proof (induction k)
  case (Suc k)
  then have "desc_loop cf_H False (cf_buf x) 0 st = desc_loop cf_H False (cf_buf x) (259 * k) st" by simp
  also have "\<dots> = desc_loop cf_H False (cf_buf x) (259 * k + 259) st" by (rule desc_skip) (use Suc.prems in simp_all)
  finally show ?case by (simp add: algebra_simps)
qed simp

lemma desc_past_end: "desc_loop cf_H False (cf_buf x) 0 (cf_ids, False) = (cf_ids\<lparr>eui64 := replicate 8 x\<rparr>, False)"
proof -
  have "desc_loop cf_H False (cf_buf x) 0 (cf_ids, False) = desc_loop cf_H False (cf_buf x) 3885 (cf_ids, False)" using desc_skips [of 15 x] by simp
  also have "\<dots> = desc_loop cf_H False (cf_buf x) 4092 (cf_ids, False)"
    unfolding desc_loop.simps [of cf_H False "cf_buf x" 3885] by (simp add: nvme_process_ns_desc_def cf_buf_def cf_H_def)
  also have "\<dots> = (cf_ids\<lparr>eui64 := bytes_at (cf_buf x) 4096 8\<rparr>, False)"
    unfolding desc_loop.simps [of cf_H False "cf_buf x" 4092] by (simp add: nvme_process_ns_desc_def cf_buf_def cf_H_def desc_loop.simps)
  also have "bytes_at (cf_buf x) 4096 8 = map (\<lambda>_. x) [4096..<4096 + 8]" unfolding bytes_at_def by (rule map_cong) (auto simp: cf_buf_def)
  also have "\<dots> = replicate 8 x" by (simp only: map_replicate_const length_upt diff_add_inverse)
  finally show ?thesis .
qed

text \<open>A controller can make the code read behind the buffer: two memories that agree on all 4096 bytes of it give different identifiers.\<close>

theorem ns_descs_reads_past_end:
  "(\<forall>i < NVME_IDENTIFY_DATA_SIZE cf_H. cf_buf 0 i = cf_buf 7 i) \<and> desc_loop cf_H False (cf_buf 0) 0 (cf_ids, False) \<noteq> desc_loop cf_H False (cf_buf 7) 0 (cf_ids, False)"
  unfolding desc_past_end by (auto simp: cf_H_def cf_buf_def cf_ids_def)

theorem ns_descs_footprint_witness:
  "desc_loop cf_H False (cf_buf 7) 0 (cf_ids, False) = desc_loop cf_H False ((cf_buf 7)(5000 := 1)) 0 (cf_ids, False)"
  by (rule ns_descs_footprint) (simp_all add: cf_H_def)

text \<open>The deepest state takes 12 milliseconds to enter and leave, more than the limit of 5, and is a target: only its exit latency is compared.\<close>

lemma cf_apst: "apst_table cf_H cf_c 3 = 0x25820 \<and> apst_table cf_H cf_c 0 = 0x6418"
  by code_simp


end
