(* ===== verification/Nvme_Queue.thy ===== *)
theory Nvme_Queue
  imports Nvme_Core
begin

text \<open>
  The I/O path of the ANS NVMe driver, \<open>local-source/drivers/nvme/host/apple.c\<close>: the queues, command
  submission on both generations of the controller, the completion queue and its interrupt handler,
  the deferred flush and \<open>queue_rq\<close>.

  \<open>struct apple_nvme\<close> extends \<open>struct nvme_ctrl\<close>, as \<open>container_of\<close> has it. A queue is chosen by the boolean
  \<open>is_adminq\<close>. The memory the controller shares with the driver is in the record: \<open>cqes\<close> and \<open>tcbs\<close> by index,
  \<open>sqes\<close> by byte offset. The controller writes \<open>cqes\<close> between the driver's steps. A request is a number; \<open>rqs\<close>
  holds what the block layer and \<open>nvme_setup_cmd\<close> put into it and \<open>iods\<close> the driver's data of it, on which the
  programs of \<open>Nvme_Prp\<close> run through \<open>with_iod\<close>. The functions of \<open>nvme.h\<close> are the parameter \<open>H\<close>.

  Proved: the completion ring with its phase bit refines a first-in first-out queue for every
  interleaving of the controller's postings and the driver's steps; polling handles exactly the pending
  entries, in order, ends, and rings the doorbell once; a request is submitted at most once, with its
  queue entry and TCB in place before the doorbell.
\<close>

section \<open>State\<close>

definition APPLE_NVME_AQ_DEPTH :: nat where "APPLE_NVME_AQ_DEPTH = 2"
definition APPLE_NVME_IOSQES :: nat where "APPLE_NVME_IOSQES = 7"
definition APPLE_NVMMU_TCB_INVAL :: nat where "APPLE_NVMMU_TCB_INVAL = 0x28118"
definition APPLE_NVMMU_TCB_STAT :: nat where "APPLE_NVMMU_TCB_STAT = 0x28120"
definition APPLE_ANS_TCB_DMA_FROM_DEVICE :: u8 where "APPLE_ANS_TCB_DMA_FROM_DEVICE = BIT 0"
definition APPLE_ANS_TCB_DMA_TO_DEVICE :: u8 where "APPLE_ANS_TCB_DMA_TO_DEVICE = BIT 1"

record nvme_completion =
  cqe_result :: u64
  cqe_command_id :: u16
  cqe_status :: u16

text \<open>A command: the fields the driver reads or writes, and the rest of its 64 bytes.\<close>

record nvme_command =
  opcode :: u8
  command_id :: u16
  dptr_prp1 :: u64
  dptr_prp2 :: u64
  rw_length :: u16
  cmd_rest :: "u8 list"

record apple_nvmmu_tcb =
  tcb_opcode :: u8
  dma_flags :: u8
  tcb_command_id :: u8
  tcb_length :: u16
  tcb_prp1 :: u64
  tcb_prp2 :: u64

record apple_nvme_queue =
  sqes :: "nat \<Rightarrow> nvme_command"
  cqes :: "nat \<Rightarrow> nvme_completion"
  tcbs :: "nat \<Rightarrow> apple_nvmmu_tcb"
  sq_dma_addr :: u64
  cq_dma_addr :: u64
  tcb_dma_addr :: u64
  sq_db :: reg
  cq_db :: reg
  sq_tail :: u16
  cq_head :: u16
  cq_phase :: u8
  enabled :: bool

record apple_nvme_hw =
  has_lsq_nvmmu :: bool
  need_ioq_register :: bool
  separate_nvmmu_region :: bool
  max_queue_depth :: nat

text \<open>What the block layer and \<open>nvme_setup_cmd\<close> put into a request.\<close>

record blk_rq =
  rq_data :: request
  rq_cmd :: nvme_command
  rq_is_flush :: bool
  rq_ns :: nat
  rq_noretry_or_mpath :: bool
  rq_dontprep :: bool
  rq_adminq :: bool

record tag_set =
  ts_queue_depth :: nat
  ts_reserved_tags :: nat
  ts_poll :: bool

record apple_nvme = nvme_ctrl +
  hw :: apple_nvme_hw
  nvmmu :: mmio
  adminq :: apple_nvme_queue
  ioq :: apple_nvme_queue
  iods :: "nat \<Rightarrow> apple_nvme_iod"
  rqs :: "nat \<Rightarrow> blk_rq"
  admin_tagset :: tag_set
  tagset :: tag_set
  flush_ns :: nat
  flush_interval :: u64
  last_flush :: u64
  pd_count :: int
  pd_dev :: "(nat \<Rightarrow> int) option"
  pd_link :: "(nat \<Rightarrow> int) option"
  anv_irq :: int

type_synonym 'a anv = "(apple_nvme, 'a) nvme"

record nvme_hdr = nvme_consts +
  nvme_tag_from_cid :: "u16 \<Rightarrow> nat"
  nvme_is_write :: "nvme_command \<Rightarrow> bool"
  NVME_SC_SUCCESS :: u16
  NVME_SC_HOST_ABORTED_CMD :: u16
  NVME_QUEUE_PHYS_CONTIG :: u16
  NVME_CQ_IRQ_ENABLED :: u16
  sizeof_nvme_completion :: nat
  nvme_complete_batch :: "(nat \<Rightarrow> unit anv) \<Rightarrow> nat list \<Rightarrow> unit anv"

text \<open>\<open>queue_to_apple_nvme\<close> and its inverse.\<close>

definition queue_of :: "bool \<Rightarrow> apple_nvme \<Rightarrow> apple_nvme_queue" where
  "queue_of is_adminq anv = (if is_adminq then adminq anv else ioq anv)"

definition upd_queue :: "bool \<Rightarrow> (apple_nvme_queue \<Rightarrow> apple_nvme_queue) \<Rightarrow> apple_nvme \<Rightarrow> apple_nvme" where
  "upd_queue is_adminq f anv = (if is_adminq then anv\<lparr>adminq := f (adminq anv)\<rparr> else anv\<lparr>ioq := f (ioq anv)\<rparr>)"

definition apple_nvme_queue_depth :: "bool \<Rightarrow> apple_nvme_hw \<Rightarrow> nat" where
  "apple_nvme_queue_depth is_adminq hwd =
     (if is_adminq \<and> has_lsq_nvmmu hwd then APPLE_NVME_AQ_DEPTH else max_queue_depth hwd)"

section \<open>Running the data mapping on a request\<close>

text \<open>A program of \<open>Nvme_Prp\<close> runs on the \<open>iod\<close> of one request; its calls become calls of the driver.\<close>

fun replay :: "nvme_env \<Rightarrow> nat \<Rightarrow> (nvme_req \<times> nvme_resp) list \<Rightarrow> prp_req list \<Rightarrow> (nvme_req \<times> nvme_resp) list" where
  "replay E rq h [] = h"
| "replay E rq h (q # qs) = replay E rq (h @ [(Prp rq q, E h (Prp rq q))]) qs"

definition prp_env_of :: "nvme_env \<Rightarrow> nat \<Rightarrow> (nvme_req \<times> nvme_resp) list \<Rightarrow> prp_env" where
  "prp_env_of E rq h0 h q = (let r = E (replay E rq h0 (reqs h)) (Prp rq q) in (nat (fst r), snd r))"

definition with_iod :: "nvme_env \<Rightarrow> nat \<Rightarrow> (prp_env \<Rightarrow> 'a prp) \<Rightarrow> 'a anv" where
  "with_iod E rq m = State (\<lambda>w.
     let (a, v) = run_state (m (prp_env_of E rq (hist w))) \<lparr>hist = [], drv = iods (drv w) rq\<rparr>
     in (a, w\<lparr>hist := replay E rq (hist w) (reqs (hist v)),
              drv := (drv w)\<lparr>iods := (iods (drv w))(rq := drv v)\<rparr>\<rparr>))"

section \<open>Submission\<close>

definition apple_nvmmu_inval :: "nvme_env \<Rightarrow> u32 \<Rightarrow> unit anv" where
  "apple_nvmmu_inval E tag = do {
     anv \<leftarrow> getd;
     exec E (Writel (nvmmu anv, APPLE_NVMMU_TCB_INVAL) tag);
     exec E (Readl (nvmmu anv, APPLE_NVMMU_TCB_STAT))
   }"

text \<open>The submission ring of the T8015: the admin queue has 64-byte entries, the I/O queue 128-byte ones.\<close>

definition sqe_offset_t8015 :: "bool \<Rightarrow> u16 \<Rightarrow> nat" where
  "sqe_offset_t8015 is_adminq tail =
     (if is_adminq then unat tail * 64 else push_bit APPLE_NVME_IOSQES (unat tail))"

definition apple_nvme_submit_cmd_t8015 :: "nvme_env \<Rightarrow> bool \<Rightarrow> nvme_command \<Rightarrow> unit anv" where
  "apple_nvme_submit_cmd_t8015 E is_adminq cmd = do {
     exec E (Io SpinLock);
     modd (upd_queue is_adminq (\<lambda>q. q\<lparr>sqes := (sqes q)(sqe_offset_t8015 is_adminq (sq_tail q) := cmd)\<rparr>));
     anv \<leftarrow> getd;
     modd (upd_queue is_adminq (\<lambda>q.
       q\<lparr>sq_tail := (if unat (sq_tail q + 1) = max_queue_depth (hw anv) then 0 else sq_tail q + 1)\<rparr>));
     anv \<leftarrow> getd;
     exec E (Writel (sq_db (queue_of is_adminq anv)) (ucast (sq_tail (queue_of is_adminq anv))));
     exec E (Io SpinUnlock)
   }"

definition tcb_of :: "('x) nvme_hdr_scheme \<Rightarrow> nvme_command \<Rightarrow> apple_nvmmu_tcb" where
  "tcb_of H cmd = \<lparr>tcb_opcode = opcode cmd,
     dma_flags = (if nvme_is_write H cmd then APPLE_ANS_TCB_DMA_TO_DEVICE else APPLE_ANS_TCB_DMA_FROM_DEVICE),
     tcb_command_id = of_nat (nvme_tag_from_cid H (command_id cmd)), tcb_length = rw_length cmd,
     tcb_prp1 = dptr_prp1 cmd, tcb_prp2 = dptr_prp2 cmd\<rparr>"

definition apple_nvme_submit_cmd_t8103 :: "nvme_env \<Rightarrow> ('x) nvme_hdr_scheme \<Rightarrow> bool \<Rightarrow> nvme_command \<Rightarrow> unit anv" where
  "apple_nvme_submit_cmd_t8103 E H is_adminq cmd = do {
     let tag = nvme_tag_from_cid H (command_id cmd);
     modd (upd_queue is_adminq (\<lambda>q. q\<lparr>tcbs := (tcbs q)(tag := tcb_of H cmd)\<rparr>));
     modd (upd_queue is_adminq (\<lambda>q. q\<lparr>sqes := (sqes q)(tag * 64 := cmd)\<rparr>));
     exec E (Io SpinLock);
     anv \<leftarrow> getd;
     exec E (Writel (sq_db (queue_of is_adminq anv)) (of_nat tag));
     exec E (Io SpinUnlock)
   }"

section \<open>Completion\<close>

definition unmap_request :: "nvme_env \<Rightarrow> ('x) nvme_hdr_scheme \<Rightarrow> nat \<Rightarrow> unit anv" where
  "unmap_request E H rq = do {
     anv \<leftarrow> getd;
     with_iod E rq (\<lambda>P. apple_nvme_unmap_rq (NVME_CTRL_PAGE_SHIFT H) P (rq_data (rqs anv rq)))
   }"

definition apple_nvme_complete_rq :: "nvme_env \<Rightarrow> ('x) nvme_hdr_scheme \<Rightarrow> nat \<Rightarrow> unit anv" where
  "apple_nvme_complete_rq E H rq = do {
     unmap_request E H rq;
     exec E (Io (NvmeCompleteRq rq))
   }"

definition apple_nvme_complete_batch :: "nvme_env \<Rightarrow> ('x) nvme_hdr_scheme \<Rightarrow> nat list \<Rightarrow> unit anv" where
  "apple_nvme_complete_batch E H iob = nvme_complete_batch H (unmap_request E H) iob"

definition apple_nvme_cqe_pending :: "apple_nvme_queue \<Rightarrow> bool" where
  "apple_nvme_cqe_pending q \<longleftrightarrow> cqe_status (cqes q (unat (cq_head q))) AND 1 = ucast (cq_phase q)"

text \<open>Handling one entry; \<open>iob\<close> is the batch of requests that are completed together.\<close>

definition apple_nvme_handle_cqe :: "nvme_env \<Rightarrow> ('x) nvme_hdr_scheme \<Rightarrow> bool \<Rightarrow> nat list \<Rightarrow> nat \<Rightarrow> nat list anv" where
  "apple_nvme_handle_cqe E H is_adminq iob idx = do {
     anv \<leftarrow> getd;
     let cqe = cqes (queue_of is_adminq anv) idx;
     whenM (has_lsq_nvmmu (hw anv)) (apple_nvmmu_inval E (ucast (cqe_command_id cqe)));
     (req, _) \<leftarrow> call E (Io (FindRq is_adminq (cqe_command_id cqe)));
     if req = 0 then return iob
     else do {
       let rq = nat req;
       (remote, _) \<leftarrow> call E (Io (TryCompleteReq rq (cqe_status cqe) (cqe_result cqe)));
       if remote \<noteq> 0 then return iob
       else do {
         (_, sts) \<leftarrow> call E (Io (ReqStatus rq));
         (added, _) \<leftarrow> call E (Io (AddToBatch rq (ucast sts \<noteq> NVME_SC_SUCCESS H)));
         if added \<noteq> 0 then return (iob @ [rq])
         else do { apple_nvme_complete_rq E H rq; return iob }
       }
     }
   }"

definition apple_nvme_update_cq_head :: "nat \<Rightarrow> apple_nvme_queue \<Rightarrow> apple_nvme_queue" where
  "apple_nvme_update_cq_head depth q =
     (let tmp = unat (cq_head q) + 1
      in if tmp = depth then q\<lparr>cq_head := 0, cq_phase := cq_phase q XOR 1\<rparr>
         else q\<lparr>cq_head := of_nat tmp\<rparr>)"

fun poll_cq_loop :: "nat \<Rightarrow> nvme_env \<Rightarrow> ('x) nvme_hdr_scheme \<Rightarrow> bool \<Rightarrow> nat list \<Rightarrow> bool \<Rightarrow> (bool \<times> nat list) anv" where
  "poll_cq_loop 0 E H is_adminq iob found = return (found, iob)"
| "poll_cq_loop (Suc n) E H is_adminq iob found = do {
     anv \<leftarrow> getd;
     if apple_nvme_cqe_pending (queue_of is_adminq anv) then do {
       iob \<leftarrow> apple_nvme_handle_cqe E H is_adminq iob (unat (cq_head (queue_of is_adminq anv)));
       modd (upd_queue is_adminq (apple_nvme_update_cq_head (apple_nvme_queue_depth is_adminq (hw anv))));
       poll_cq_loop n E H is_adminq iob True
     } else return (found, iob)
   }"

definition apple_nvme_poll_cq :: "nvme_env \<Rightarrow> ('x) nvme_hdr_scheme \<Rightarrow> bool \<Rightarrow> nat list \<Rightarrow> (bool \<times> nat list) anv" where
  "apple_nvme_poll_cq E H is_adminq iob = do {
     anv \<leftarrow> getd;
     (found, iob) \<leftarrow> poll_cq_loop (Suc (apple_nvme_queue_depth is_adminq (hw anv))) E H is_adminq iob False;
     anv \<leftarrow> getd;
     whenM found (exec E (Writel (cq_db (queue_of is_adminq anv)) (ucast (cq_head (queue_of is_adminq anv)))));
     return (found, iob)
   }"

definition apple_nvme_handle_cq :: "nvme_env \<Rightarrow> ('x) nvme_hdr_scheme \<Rightarrow> bool \<Rightarrow> bool \<Rightarrow> bool anv" where
  "apple_nvme_handle_cq E H is_adminq force = do {
     anv \<leftarrow> getd;
     if \<not> enabled (queue_of is_adminq anv) \<and> \<not> force then return False
     else do {
       (found, iob) \<leftarrow> apple_nvme_poll_cq E H is_adminq [];
       whenM (iob \<noteq> []) (apple_nvme_complete_batch E H iob);
       return found
     }
   }"

definition apple_nvme_irq :: "nvme_env \<Rightarrow> ('x) nvme_hdr_scheme \<Rightarrow> bool anv" where
  "apple_nvme_irq E H = do {
     exec E (Io SpinLock);
     io \<leftarrow> apple_nvme_handle_cq E H False False;
     admin \<leftarrow> apple_nvme_handle_cq E H True False;
     exec E (Io SpinUnlock);
     return (io \<or> admin)
   }"

definition apple_nvme_poll :: "nvme_env \<Rightarrow> ('x) nvme_hdr_scheme \<Rightarrow> bool \<Rightarrow> nat list \<Rightarrow> (bool \<times> nat list) anv" where
  "apple_nvme_poll E H is_adminq iob = do {
     exec E (Io SpinLock);
     r \<leftarrow> apple_nvme_poll_cq E H is_adminq iob;
     exec E (Io SpinUnlock);
     return r
   }"

section \<open>Queueing a request\<close>

text \<open>The branch of \<open>apple_nvme_delayed_flush\<close> for a flush within the interval after the last one.\<close>

definition flush_rearm :: "nvme_env \<Rightarrow> nat \<Rightarrow> u64 \<Rightarrow> bool anv" where
  "flush_rearm E ns now = do {
     anv \<leftarrow> getd;
     if time_after (last_flush anv + flush_interval anv) now then do {
       exec E (Io (ModDelayedWork (flush_interval anv)));
       if flush_ns anv \<noteq> 0 \<and> flush_ns anv \<noteq> ns then do { exec E (Io WarnFlushNs); return False }
       else do { modd (\<lambda>anv. anv\<lparr>flush_ns := ns\<rparr>); return True }
     } else return False
   }"

definition apple_nvme_delayed_flush :: "nvme_env \<Rightarrow> nat \<Rightarrow> bool \<Rightarrow> bool anv" where
  "apple_nvme_delayed_flush E ns is_flush = do {
     anv \<leftarrow> getd;
     if flush_interval anv = 0 \<or> \<not> is_flush then return False
     else do {
       (pending, _) \<leftarrow> call E (Io DwPending);
       if pending \<noteq> 0 then return True
       else do {
         (_, now) \<leftarrow> call E (Core Jiffies);
         deferred \<leftarrow> flush_rearm E ns now;
         if deferred then return True
         else do {
           (_, now) \<leftarrow> call E (Core Jiffies);
           modd (\<lambda>anv. anv\<lparr>last_flush := now\<rparr>);
           return False
         }
       }
     }
   }"

text \<open>A status as the environment answers it: 0 is \<open>BLK_STS_OK\<close>, 1 is \<open>BLK_STS_RESOURCE\<close>, anything else
  is \<open>BLK_STS_IOERR\<close>.\<close>

definition blk_status_of :: "int \<Rightarrow> blk_status" where
  "blk_status_of r = (if r = 0 then BLK_STS_OK else if r = 1 then BLK_STS_RESOURCE else BLK_STS_IOERR)"

text \<open>The command of a request once its data is mapped: the PRP fields are those the mapping wrote.\<close>

definition mapped_cmd :: "apple_nvme \<Rightarrow> nat \<Rightarrow> nvme_command" where
  "mapped_cmd anv rq = (rq_cmd (rqs anv rq))\<lparr>dptr_prp1 := prp1 (iods anv rq), dptr_prp2 := prp2 (iods anv rq)\<rparr>"

definition upd_iod :: "nat \<Rightarrow> (apple_nvme_iod \<Rightarrow> apple_nvme_iod) \<Rightarrow> apple_nvme \<Rightarrow> apple_nvme" where
  "upd_iod rq f anv = anv\<lparr>iods := (iods anv)(rq := f (iods anv rq))\<rparr>"

definition queue_rq_submit :: "nvme_env \<Rightarrow> ('x) nvme_hdr_scheme \<Rightarrow> bool \<Rightarrow> nat \<Rightarrow> nat \<Rightarrow> blk_status anv" where
  "queue_rq_submit E H is_adminq ns rq = do {
     exec E (Io (StartRequest rq));
     anv \<leftarrow> getd;
     deferred \<leftarrow> apple_nvme_delayed_flush E ns (rq_is_flush (rqs anv rq));
     if deferred then do {
       exec E (Io (CompleteRequest rq));
       return BLK_STS_OK
     } else do {
       anv \<leftarrow> getd;
       (if has_lsq_nvmmu (hw anv) then apple_nvme_submit_cmd_t8103 E H is_adminq (mapped_cmd anv rq)
        else apple_nvme_submit_cmd_t8015 E is_adminq (mapped_cmd anv rq));
       return BLK_STS_OK
     }
   }"

definition queue_rq_map :: "nvme_env \<Rightarrow> ('x) nvme_hdr_scheme \<Rightarrow> nat \<Rightarrow> blk_status anv" where
  "queue_rq_map E H rq = do {
     anv \<leftarrow> getd;
     let data = rq_data (rqs anv rq);
     modd (upd_iod rq (\<lambda>iod. iod\<lparr>prp1 := dptr_prp1 (rq_cmd (rqs anv rq)), prp2 := dptr_prp2 (rq_cmd (rqs anv rq))\<rparr>));
     if rq_nr_phys_segments data \<noteq> 0
     then with_iod E rq (\<lambda>P. apple_nvme_map_data (NVME_CTRL_PAGE_SHIFT H) P data)
     else return BLK_STS_OK
   }"

definition apple_nvme_queue_rq :: "nvme_env \<Rightarrow> ('x) nvme_hdr_scheme \<Rightarrow> bool \<Rightarrow> nat \<Rightarrow> blk_status anv" where
  "apple_nvme_queue_rq E H is_adminq rq = do {
     modd (upd_iod rq (\<lambda>iod. iod\<lparr>npages := - 1, nents := 0\<rparr>));
     anv \<leftarrow> getd;
     let ns = rq_ns (rqs anv rq);
     if \<not> enabled (queue_of is_adminq anv) then return BLK_STS_IOERR
     else do {
       (ready, _) \<leftarrow> call E (Io (CheckReady rq));
       if ready = 0
       then nvme_fail_nonready_command E rq (rq_noretry_or_mpath (rqs anv rq)) (rq_dontprep (rqs anv rq))
       else do {
         (ret, _) \<leftarrow> call E (Io (SetupCmd ns rq));
         if blk_status_of ret \<noteq> BLK_STS_OK then return (blk_status_of ret)
         else do {
           ret \<leftarrow> queue_rq_map E H rq;
           if ret \<noteq> BLK_STS_OK then do {
             exec E (Io (CleanupCmd rq));
             return ret
           } else queue_rq_submit E H is_adminq ns rq
         }
       }
     }
   }"

definition apple_nvme_init_request :: "bool \<Rightarrow> nat \<Rightarrow> int anv" where
  "apple_nvme_init_request is_adminq rq = do {
     modd (\<lambda>anv. anv\<lparr>rqs := (rqs anv)(rq := (rqs anv rq)\<lparr>rq_adminq := is_adminq\<rparr>)\<rparr>);
     return 0
   }"

definition zero_tcb :: apple_nvmmu_tcb where
  "zero_tcb = \<lparr>tcb_opcode = 0, dma_flags = 0, tcb_command_id = 0, tcb_length = 0, tcb_prp1 = 0, tcb_prp2 = 0\<rparr>"

definition zero_cqe :: nvme_completion where
  "zero_cqe = \<lparr>cqe_result = 0, cqe_command_id = 0, cqe_status = 0\<rparr>"

definition init_queue :: "bool \<Rightarrow> apple_nvme_hw \<Rightarrow> apple_nvme_queue \<Rightarrow> apple_nvme_queue" where
  "init_queue is_adminq hwd q =
     q\<lparr>sq_tail := 0, cq_head := 0, cq_phase := 1,
       tcbs := (if has_lsq_nvmmu hwd then (\<lambda>i. if i < max_queue_depth hwd then zero_tcb else tcbs q i) else tcbs q),
       cqes := (\<lambda>i. if i < apple_nvme_queue_depth is_adminq hwd then zero_cqe else cqes q i),
       enabled := True\<rparr>"

definition apple_nvme_init_queue :: "bool \<Rightarrow> unit anv" where
  "apple_nvme_init_queue is_adminq = do {
     anv \<leftarrow> getd;
     modd (upd_queue is_adminq (init_queue is_adminq (hw anv)))
   }"

section \<open>The completion ring is a queue\<close>

text \<open>The contract of a bounded first-in first-out queue between a producer and a consumer: \<open>contents\<close> is what
  is in it, \<open>view\<close> what the consumer sees of an item.\<close>

locale fifo =
  fixes inv :: "'s \<Rightarrow> bool"
    and contents :: "'s \<Rightarrow> 'a list"
    and room :: "'s \<Rightarrow> bool"
    and view :: "'x \<Rightarrow> 'a"
    and put :: "'x \<Rightarrow> 's \<Rightarrow> 's"
    and pending :: "'s \<Rightarrow> bool"
    and front :: "'s \<Rightarrow> 'a"
    and advance :: "'s \<Rightarrow> 's"
  assumes inv_put: "inv s \<Longrightarrow> room s \<Longrightarrow> inv (put x s)"
    and contents_put: "inv s \<Longrightarrow> room s \<Longrightarrow> contents (put x s) = contents s @ [view x]"
    and pending_iff: "inv s \<Longrightarrow> pending s \<longleftrightarrow> contents s \<noteq> []"
    and inv_advance: "inv s \<Longrightarrow> contents s \<noteq> [] \<Longrightarrow> inv (advance s)"
    and contents_advance: "inv s \<Longrightarrow> contents s \<noteq> [] \<Longrightarrow> contents s = front s # contents (advance s)"

text \<open>Any interleaving of the two sides. \<open>Post\<close> is skipped when there is no room, \<open>Take\<close> when nothing is
  pending; the result has what was posted, what was taken and the final state.\<close>

datatype 'x event = Post 'x | Take

fun run_events :: "('s \<Rightarrow> bool) \<Rightarrow> ('x \<Rightarrow> 's \<Rightarrow> 's) \<Rightarrow> ('s \<Rightarrow> bool) \<Rightarrow> ('s \<Rightarrow> 'a) \<Rightarrow> ('s \<Rightarrow> 's) \<Rightarrow> 'x event list \<Rightarrow> 's \<Rightarrow> 'x list \<times> 'a list \<times> 's" where
  "run_events room put pending front advance [] s = ([], [], s)"
| "run_events room put pending front advance (Post x # es) s =
     (if room s then case run_events room put pending front advance es (put x s) of (ps, ts, s') \<Rightarrow> (x # ps, ts, s')
      else run_events room put pending front advance es s)"
| "run_events room put pending front advance (Take # es) s =
     (if pending s then case run_events room put pending front advance es (advance s) of (ps, ts, s') \<Rightarrow> (ps, front s # ts, s')
      else run_events room put pending front advance es s)"

context fifo
begin

lemma run_events_fifo:
  assumes "inv s" and "run_events room put pending front advance es s = (ps, ts, s')"
  shows "inv s' \<and> contents s @ map view ps = ts @ contents s'"
  using assms
proof (induction es arbitrary: s ps ts)
  case Nil
  then show ?case by simp
next
  case (Cons e es)
  show ?case
  proof (cases e)
    case (Post x)
    show ?thesis
    proof (cases "room s")
      case True
      from Post True Cons.prems obtain ps' where
        r: "run_events room put pending front advance es (put x s) = (ps', ts, s')" "ps = x # ps'"
        by (auto split: prod.splits)
      from Cons.IH [OF inv_put [OF Cons.prems(1) True] r(1)] r(2) contents_put [OF Cons.prems(1) True]
      show ?thesis by simp
    qed (use Post Cons in auto)
  next
    case Take
    show ?thesis
    proof (cases "pending s")
      case True
      with Cons.prems have c: "contents s \<noteq> []" by (simp add: pending_iff)
      from Take True Cons.prems obtain ts' where
        r: "run_events room put pending front advance es (advance s) = (ps, ts', s')" "ts = front s # ts'"
        by (auto split: prod.splits)
      from Cons.IH [OF inv_advance [OF Cons.prems(1) c] r(1)] r(2) contents_advance [OF Cons.prems(1) c]
      show ?thesis by simp
    qed (use Take Cons in auto)
  qed
qed

end

text \<open>The ring: \<open>k\<close> entries have been consumed and \<open>j\<close> posted. Entry \<open>p\<close> is in slot \<open>p mod n\<close> with the phase of
  its lap, and the slots the controller has yet to fill hold the other phase.\<close>

definition phase_of :: "nat \<Rightarrow> nat \<Rightarrow> bool" where
  "phase_of n p \<longleftrightarrow> even (p div n)"

definition ring_inv :: "nat \<Rightarrow> apple_nvme_queue \<times> nat \<times> nat \<Rightarrow> bool" where
  "ring_inv n = (\<lambda>(q, k, j). 0 < n \<and> n \<le> 2 ^ 16 \<and> k \<le> j \<and> j \<le> k + n
     \<and> unat (cq_head q) = k mod n \<and> cq_phase q = (if phase_of n k then 1 else 0)
     \<and> (\<forall>m. j \<le> m \<and> m < j + n \<longrightarrow> odd (cqe_status (cqes q (m mod n))) \<noteq> phase_of n m))"

text \<open>What the driver sees of an entry: all but the phase bit.\<close>

definition cqe_view :: "nvme_completion \<Rightarrow> u16 \<times> u16 \<times> u64" where
  "cqe_view c = (cqe_command_id c, drop_bit 1 (cqe_status c), cqe_result c)"

definition with_phase :: "bool \<Rightarrow> nvme_completion \<Rightarrow> nvme_completion" where
  "with_phase b c = c\<lparr>cqe_status := (if b then set_bit 0 (cqe_status c) else unset_bit 0 (cqe_status c))\<rparr>"

definition ring_contents :: "nat \<Rightarrow> apple_nvme_queue \<times> nat \<times> nat \<Rightarrow> (u16 \<times> u16 \<times> u64) list" where
  "ring_contents n = (\<lambda>(q, k, j). map (\<lambda>p. cqe_view (cqes q (p mod n))) [k..<j])"

definition ring_room :: "nat \<Rightarrow> apple_nvme_queue \<times> nat \<times> nat \<Rightarrow> bool" where
  "ring_room n = (\<lambda>(q, k, j). j < k + n)"

text \<open>The controller's side, from the NVMe specification: it writes the next slot with its current phase.\<close>

definition ring_post :: "nat \<Rightarrow> nvme_completion \<Rightarrow> apple_nvme_queue \<times> nat \<times> nat \<Rightarrow> apple_nvme_queue \<times> nat \<times> nat" where
  "ring_post n c = (\<lambda>(q, k, j). (q\<lparr>cqes := (cqes q)(j mod n := with_phase (phase_of n j) c)\<rparr>, k, j + 1))"

text \<open>The driver's side: its own pending test, the entry at its head, and its head update.\<close>

definition ring_pending :: "apple_nvme_queue \<times> nat \<times> nat \<Rightarrow> bool" where
  "ring_pending = (\<lambda>(q, k, j). apple_nvme_cqe_pending q)"

definition ring_front :: "apple_nvme_queue \<times> nat \<times> nat \<Rightarrow> u16 \<times> u16 \<times> u64" where
  "ring_front = (\<lambda>(q, k, j). cqe_view (cqes q (unat (cq_head q))))"

definition ring_advance :: "nat \<Rightarrow> apple_nvme_queue \<times> nat \<times> nat \<Rightarrow> apple_nvme_queue \<times> nat \<times> nat" where
  "ring_advance n = (\<lambda>(q, k, j). (apple_nvme_update_cq_head n q, k + 1, j))"

lemma phase_of_add: "0 < n \<Longrightarrow> phase_of n (p + n) \<longleftrightarrow> \<not> phase_of n p"
  by (simp add: phase_of_def div_add_self2)

lemma odd_with_phase: "odd (cqe_status (with_phase b c)) \<longleftrightarrow> b"
  by (auto simp: with_phase_def bit_simps simp flip: bit_0)

lemma cqe_view_with_phase: "cqe_view (with_phase b c) = cqe_view c"
  by (auto simp: cqe_view_def with_phase_def bit_simps intro!: bit_word_eqI)

lemma pending_odd: "apple_nvme_cqe_pending q \<longleftrightarrow> (odd (cqe_status (cqes q (unat (cq_head q)))) \<longleftrightarrow> cq_phase q = 1)"
  if "cq_phase q = 0 \<or> cq_phase q = 1"
  using that by (auto simp: apple_nvme_cqe_pending_def and_one_eq mod_2_eq_odd)

lemma slot_unique: "j \<le> m \<Longrightarrow> m < j + n \<Longrightarrow> m mod n = j mod n \<Longrightarrow> m = (j::nat)"
  by (auto simp: mod_eq_dvd_iff_nat dest!: dvd_imp_le)

lemma ring_inv_D:
  assumes "ring_inv n (q, k, j)"
  shows "0 < n" "n \<le> 65536" "k \<le> j" "j \<le> k + n" "unat (cq_head q) = k mod n" "cq_phase q = (if phase_of n k then 1 else 0)"
    "\<And>m. j \<le> m \<Longrightarrow> m < j + n \<Longrightarrow> odd (cqe_status (cqes q (m mod n))) \<noteq> phase_of n m"
  using assms by (auto simp: ring_inv_def)

lemma ring_pending_iff:
  assumes "ring_inv n (q, k, j)"
  shows "apple_nvme_cqe_pending q \<longleftrightarrow> k < j"
proof -
  note r = ring_inv_D [OF assms]
  have "odd (cqe_status (cqes q (k mod n))) = phase_of n k" if "k < j"
    using r(7) [of "k + n"] r(1,4) that by (simp add: phase_of_add)
  moreover have "odd (cqe_status (cqes q (k mod n))) \<noteq> phase_of n k" if "k = j"
    using r(7) [of k] r(1) that by simp
  ultimately show ?thesis
    using r(3,5,6) by (subst pending_odd) (auto simp: le_less)
qed

lemma ring_inv_post:
  assumes "ring_inv n (q, k, j)" and "j < k + n"
  shows "ring_inv n (ring_post n c (q, k, j))"
proof -
  note r = ring_inv_D [OF assms(1)]
  have "odd (cqe_status (((cqes q)(j mod n := with_phase (phase_of n j) c)) (m mod n))) \<noteq> phase_of n m"
    if m: "j + 1 \<le> m" "m < j + 1 + n" for m
  proof (cases "m = j + n")
    case True
    then show ?thesis using r(1) by (simp add: odd_with_phase phase_of_add)
  next
    case False
    with m have "m < j + n" by simp
    with m slot_unique [of j m n] have "m mod n \<noteq> j mod n" by auto
    with r(7) [of m] m \<open>m < j + n\<close> show ?thesis by simp
  qed
  with r assms(2) show ?thesis by (auto simp: ring_inv_def ring_post_def)
qed

lemma update_head:
  assumes "0 < n" and "n \<le> 65536" and "unat (cq_head q) = k mod n" and "cq_phase q = (if phase_of n k then 1 else 0)"
  shows "unat (cq_head (apple_nvme_update_cq_head n q)) = Suc k mod n"
    and "cq_phase (apple_nvme_update_cq_head n q) = (if phase_of n (Suc k) then 1 else 0)"
    and "cqes (apple_nvme_update_cq_head n q) = cqes q"
proof -
  have d: "Suc k div n = (if Suc (k mod n) = n then Suc (k div n) else k div n)"
    using assms(1) by (simp add: div_Suc mod_Suc)
  have m: "Suc k mod n = (if Suc (k mod n) = n then 0 else Suc (k mod n))" by (rule mod_Suc)
  have l: "Suc (k mod n) < 65536" if "Suc (k mod n) \<noteq> n"
    using assms(1,2) that mod_less_divisor [of n k] by linarith
  show "unat (cq_head (apple_nvme_update_cq_head n q)) = Suc k mod n"
    using assms(3) m l
    by (auto simp: apple_nvme_update_cq_head_def Let_def unat_of_nat take_bit_nat_eq_self simp del: of_nat_Suc)
  show "cq_phase (apple_nvme_update_cq_head n q) = (if phase_of n (Suc k) then 1 else 0)"
    using assms(3,4) d by (auto simp: apple_nvme_update_cq_head_def Let_def phase_of_def)
  show "cqes (apple_nvme_update_cq_head n q) = cqes q" by (simp add: apple_nvme_update_cq_head_def Let_def)
qed

lemma ring_inv_advance:
  assumes "ring_inv n (q, k, j)" and "k < j"
  shows "ring_inv n (apple_nvme_update_cq_head n q, Suc k, j)"
proof -
  note r = ring_inv_D [OF assms(1)]
  from update_head [OF r(1,2,5,6)] r assms(2) show ?thesis by (auto simp: ring_inv_def)
qed

interpretation cq_ring: fifo "ring_inv n" "ring_contents n" "ring_room n" cqe_view "ring_post n" ring_pending ring_front "ring_advance n" for n
proof (unfold_locales, goal_cases)
  case (1 s x)
  then show ?case by (cases s) (simp add: ring_room_def ring_inv_post)
next
  case (2 s x)
  obtain q k j where s: "s = (q, k, j)" by (cases s)
  with 2 have r: "ring_inv n (q, k, j)" "j < k + n" by (simp_all add: ring_room_def)
  note d = ring_inv_D [OF r(1)]
  have "p mod n \<noteq> j mod n" if "k \<le> p" "p < j" for p
    using slot_unique [of p j n] that r(2) by auto
  then show ?case
    using d(3) by (simp add: s ring_contents_def ring_post_def cqe_view_with_phase)
next
  case (3 s)
  then show ?case
    by (cases s) (auto simp: ring_pending_def ring_contents_def ring_pending_iff)
next
  case (4 s)
  then show ?case
    by (cases s) (auto simp: ring_advance_def ring_contents_def ring_inv_advance)
next
  case (5 s)
  obtain q k j where s: "s = (q, k, j)" by (cases s)
  with 5 have r: "ring_inv n (q, k, j)" "k < j" by (auto simp: ring_contents_def)
  note d = ring_inv_D [OF r(1)]
  from r(2) have "[k..<j] = k # [Suc k..<j]" by (simp add: upt_conv_Cons)
  then show ?case
    by (simp add: s ring_contents_def ring_advance_def ring_front_def d(5) update_head [OF d(1,2,5,6)])
qed


lemma init_queue_ring:
  assumes "0 < apple_nvme_queue_depth a hwd" and "apple_nvme_queue_depth a hwd \<le> 65536"
  shows "ring_inv (apple_nvme_queue_depth a hwd) (init_queue a hwd q, 0, 0)"
  using assms by (auto simp: ring_inv_def init_queue_def phase_of_def zero_cqe_def)

section \<open>What the handlers do\<close>

definition is_prp :: "nvme_req \<Rightarrow> bool" where
  "is_prp q = (case q of Prp _ _ \<Rightarrow> True | _ \<Rightarrow> False)"

lemma replay_hist: "\<exists>new. replay E rq h qs = h @ new \<and> reqs new = map (Prp rq) qs"
proof (induction qs arbitrary: h)
  case Nil
  show ?case by (auto intro: exI [of _ "[]"])
next
  case (Cons q qs)
  from Cons [of "h @ [(Prp rq q, E h (Prp rq q))]"] show ?case by fastforce
qed

lemma wp_with_iod [wp_intros]:
  assumes "\<And>a iod new. list_all is_prp (reqs new) \<Longrightarrow>
      Q a (w\<lparr>hist := hist w @ new, drv := (drv w)\<lparr>iods := (iods (drv w))(rq := iod)\<rparr>\<rparr>)"
  shows "wp (with_iod E rq m) Q w"
proof -
  obtain a v where v: "run_state (m (prp_env_of E rq (hist w))) \<lparr>hist = [], drv = iods (drv w) rq\<rparr> = (a, v)"
    by fastforce
  obtain new where n: "replay E rq (hist w) (reqs (hist v)) = hist w @ new" "reqs new = map (Prp rq) (reqs (hist v))"
    using replay_hist by blast
  have "list_all is_prp (reqs new)" unfolding n(2) by (simp add: list_all_iff is_prp_def)
  from assms [OF this] show ?thesis by (simp add: wp_def with_iod_def v n(1))
qed

text \<open>The look-ups of completed requests and the writes of one register in a history.\<close>

definition finds :: "nvme_req list \<Rightarrow> (bool \<times> u16) list" where
  "finds qs = concat (map (\<lambda>q. case q of Io r \<Rightarrow> (case r of FindRq a c \<Rightarrow> [(a, c)] | _ \<Rightarrow> []) | _ \<Rightarrow> []) qs)"

definition writes_to :: "reg \<Rightarrow> nvme_req list \<Rightarrow> u32 list" where
  "writes_to r qs = concat (map (\<lambda>q. case q of Writel r' v \<Rightarrow> if r' = r then [v] else [] | _ \<Rightarrow> []) qs)"

lemma finds_simps [simp]:
  "finds [] = []"
  "finds (q # qs) = (case q of Io r \<Rightarrow> (case r of FindRq a c \<Rightarrow> [(a, c)] | _ \<Rightarrow> []) | _ \<Rightarrow> []) @ finds qs"
  "finds (qs @ qs') = finds qs @ finds qs'"
  by (simp_all add: finds_def)

lemma writes_to_simps [simp]:
  "writes_to r [] = []"
  "writes_to r (q # qs) = (case q of Writel r' v \<Rightarrow> if r' = r then [v] else [] | _ \<Rightarrow> []) @ writes_to r qs"
  "writes_to r (qs @ qs') = writes_to r qs @ writes_to r qs'"
  by (simp_all add: writes_to_def)

lemma prp_quiet [simp]:
  "list_all is_prp qs \<Longrightarrow> finds qs = []" "list_all is_prp qs \<Longrightarrow> writes_to r qs = []"
  by (induction qs) (auto simp: is_prp_def split: nvme_req.splits)

lemma handle_cqe_run:
  assumes "db \<noteq> (nvmmu (drv w), APPLE_NVMMU_TCB_INVAL)"
  shows "wp (apple_nvme_handle_cqe E H a iob idx) (\<lambda>_ w'. (\<exists>f. drv w' = (drv w)\<lparr>iods := f\<rparr>)
     \<and> (\<exists>new. hist w' = hist w @ new \<and> writes_to db (reqs new) = []
         \<and> finds (reqs new) = [(a, cqe_command_id (cqes (queue_of a (drv w)) idx))])) w"
  unfolding apple_nvme_handle_cqe_def apple_nvmmu_inval_def apple_nvme_complete_rq_def unmap_request_def
  by (intro wp_intros) (use assms in \<open>auto simp: queue_of_def intro: exI [of _ "iods (drv w)"]\<close>)

lemma queue_upd [simp]:
  "queue_of a (upd_queue a f anv) = f (queue_of a anv)"
  "queue_of a (upd_queue (\<not> a) f anv) = queue_of a anv"
  "hw (upd_queue b f anv) = hw anv" "nvmmu (upd_queue b f anv) = nvmmu anv"
  "iods (upd_queue b f anv) = iods anv" "rqs (upd_queue b f anv) = rqs anv"
  "queue_of b (anv\<lparr>iods := g\<rparr>) = queue_of b anv"
  by (auto simp: queue_of_def upd_queue_def)

lemma upd_queue_upd [simp]:
  "upd_queue a f (upd_queue a g anv) = upd_queue a (\<lambda>q. f (g q)) anv"
  "upd_queue a f (anv\<lparr>iods := h\<rparr>) = (upd_queue a f anv)\<lparr>iods := h\<rparr>"
  by (auto simp: upd_queue_def)

lemma upd_queue_id [simp]: "upd_queue a (\<lambda>q. q) anv = anv"
  "upd_queue a id anv = anv"
  by (simp_all add: upd_queue_def)

lemma same_iods [simp]: "\<exists>f. anv = anv\<lparr>iods := f\<rparr>"
  by (rule exI [of _ "iods anv"]) simp

lemma update_head_frame [simp]:
  "cq_db (apple_nvme_update_cq_head n q) = cq_db q" "cqes (apple_nvme_update_cq_head n q) = cqes q"
  "sqes (apple_nvme_update_cq_head n q) = sqes q" "enabled (apple_nvme_update_cq_head n q) = enabled q"
  by (simp_all add: apple_nvme_update_cq_head_def Let_def)

lemma update_heads_frame [simp]:
  "cq_db ((apple_nvme_update_cq_head n ^^ i) q) = cq_db q" "cqes ((apple_nvme_update_cq_head n ^^ i) q) = cqes q"
  "enabled ((apple_nvme_update_cq_head n ^^ i) q) = enabled q"
  by (induction i) auto

lemma update_heads_ring:
  assumes "ring_inv n (q, k, j)"
  shows "ring_inv n ((apple_nvme_update_cq_head n ^^ (j - k)) q, j, j)"
proof -
  have "i \<le> j - k \<Longrightarrow> ring_inv n ((apple_nvme_update_cq_head n ^^ i) q, k + i, j)" for i
    by (induction i) (use assms in \<open>auto intro!: ring_inv_advance\<close>)
  from this [of "j - k"] ring_inv_D(3) [OF assms] show ?thesis by simp
qed

lemma poll_loop_run:
  assumes "ring_inv n (queue_of a (drv w), k, j)" and "n = apple_nvme_queue_depth a (hw (drv w))"
    and "db \<noteq> (nvmmu (drv w), APPLE_NVMMU_TCB_INVAL)" and "j - k < fuel"
  shows "wp (poll_cq_loop fuel E H a iob found) (\<lambda>r w'. fst r = (found \<or> k < j)
     \<and> (\<exists>f. drv w' = (upd_queue a (apple_nvme_update_cq_head n ^^ (j - k)) (drv w))\<lparr>iods := f\<rparr>)
     \<and> (\<exists>new. hist w' = hist w @ new \<and> writes_to db (reqs new) = []
         \<and> finds (reqs new) = map (\<lambda>p. (a, cqe_command_id (cqes (queue_of a (drv w)) (p mod n)))) [k..<j])) w"
  using assms
proof (induction fuel arbitrary: w k iob found)
  case 0
  then show ?case by simp
next
  case (Suc fuel)
  note r = ring_inv_D [OF Suc.prems(1)]
  show ?case
  proof (cases "k < j")
    case False
    with r(3) have "k = j" by simp
    with ring_pending_iff [OF Suc.prems(1)] show ?thesis
      by (auto simp: wp_simps intro: exI [of _ "iods (drv w)"])
  next
    case True
    have split: "[k..<j] = k # [Suc k..<j]" using True by (simp add: upt_conv_Cons)
    have it: "f ^^ (j - k) = (\<lambda>q. (f ^^ (j - Suc k)) (f q))" for f :: "apple_nvme_queue \<Rightarrow> apple_nvme_queue"
      using True by (simp add: fun_eq_iff) (metis Suc_diff_Suc funpow_Suc_right comp_apply)
    show ?thesis
      unfolding poll_cq_loop.simps wp_bind wp_getd
      using ring_pending_iff [OF Suc.prems(1)] True
      apply (simp add: wp_simps)
      apply (rule wp_mono [OF handle_cqe_run [OF Suc.prems(3)]])
      apply (clarsimp simp: wp_simps)
      subgoal for iob' w' f new
        apply (rule wp_mono [OF Suc.IH [where k = "Suc k"]])
        using Suc.prems True r(5) ring_inv_advance [OF Suc.prems(1) True]
            apply (auto simp: split it)
        done
      done
  qed
qed


text \<open>A poll, for a ring that holds the entries \<open>k\<close> to \<open>j\<close>.\<close>

lemma poll_cq_run:
  assumes "ring_inv n (queue_of a (drv w), k, j)" and "n = apple_nvme_queue_depth a (hw (drv w))"
    and "cq_db (queue_of a (drv w)) \<noteq> (nvmmu (drv w), APPLE_NVMMU_TCB_INVAL)"
  shows "wp (apple_nvme_poll_cq E H a iob) (\<lambda>r w'. fst r = (k < j)
     \<and> (\<exists>f. drv w' = (upd_queue a (apple_nvme_update_cq_head n ^^ (j - k)) (drv w))\<lparr>iods := f\<rparr>)
     \<and> (\<exists>new. hist w' = hist w @ new
         \<and> writes_to (cq_db (queue_of a (drv w))) (reqs new) = (if k < j then [of_nat (j mod n)] else [])
         \<and> finds (reqs new) = map (\<lambda>p. (a, cqe_command_id (cqes (queue_of a (drv w)) (p mod n)))) [k..<j])) w"
proof -
  note r = ring_inv_D [OF assms(1)]
  note e = ring_inv_D [OF update_heads_ring [OF assms(1)]]
  have h: "ucast (cq_head ((apple_nvme_update_cq_head n ^^ (j - k)) (queue_of a (drv w)))) = (of_nat (j mod n) :: u32)"
    unfolding e(5) [symmetric] by (simp add: unsigned_of_nat)
  have f: "j - k < Suc n" using r(4) by simp
  show ?thesis
    unfolding apple_nvme_poll_cq_def wp_bind wp_getd assms(2) [symmetric]
    apply (rule wp_mono [OF poll_loop_run [OF assms f]])
    apply (clarsimp simp: wp_simps)
    apply (intro conjI impI exI)
    apply (auto simp: h)
    done
qed


text \<open>The documented behaviour of \<open>nvme_complete_batch\<close>: it applies the function to every request of the batch
  and completes it, then ends the batch.\<close>

definition batch_law :: "nvme_env \<Rightarrow> ('x) nvme_hdr_scheme \<Rightarrow> bool" where
  "batch_law E H \<longleftrightarrow> (\<forall>f iob. nvme_complete_batch H f iob = do {
     for_each iob (\<lambda>rq. do { f rq; exec E (Io (CompleteBatchReq rq)) });
     exec E (Io EndRequestBatch)
   })"

text \<open>What leaves the queues alone: only \<open>iods\<close> changes, nothing is looked up, no register is written.\<close>

definition leaves_queues :: "'a anv \<Rightarrow> bool" where
  "leaves_queues m \<longleftrightarrow> (\<forall>w. wp m (\<lambda>_ w'. (\<exists>f. drv w' = (drv w)\<lparr>iods := f\<rparr>)
     \<and> (\<exists>new. hist w' = hist w @ new \<and> list_all no_write (reqs new) \<and> finds (reqs new) = [])) w)"

lemma leaves_queuesI:
  "(\<And>w. wp m (\<lambda>_ w'. (\<exists>f. drv w' = (drv w)\<lparr>iods := f\<rparr>)
     \<and> (\<exists>new. hist w' = hist w @ new \<and> list_all no_write (reqs new) \<and> finds (reqs new) = [])) w) \<Longrightarrow> leaves_queues m"
  by (simp add: leaves_queues_def)

lemma leaves_queues_bind:
  assumes "leaves_queues m" and "\<And>x. leaves_queues (f x)"
  shows "leaves_queues (State_Monad.bind m f)"
proof (rule leaves_queuesI, unfold wp_bind, rule wp_mono, rule assms(1) [unfolded leaves_queues_def, rule_format], clarify)
  fix w w' :: "(nvme_req, nvme_resp, apple_nvme) world" and x g new
  assume w': "drv w' = (drv w)\<lparr>iods := g\<rparr>" "hist w' = hist w @ new" "list_all no_write (reqs new)" "finds (reqs new) = []"
  show "wp (f x) (\<lambda>_ v. (\<exists>f. drv v = (drv w)\<lparr>iods := f\<rparr>)
     \<and> (\<exists>new. hist v = hist w @ new \<and> list_all no_write (reqs new) \<and> finds (reqs new) = [])) w'"
    by (rule wp_mono [OF assms(2) [unfolded leaves_queues_def, rule_format]]) (use w' in auto)
qed

lemma leaves_queues_exec: "no_write q \<Longrightarrow> finds [q] = [] \<Longrightarrow> leaves_queues (exec E q)"
  by (rule leaves_queuesI) (auto simp: wp_simps)

lemma is_prp_no_write: "list_all is_prp qs \<Longrightarrow> list_all no_write qs"
  by (auto simp: list_all_iff is_prp_def no_write_def split: nvme_req.splits)

lemma leaves_queues_unmap: "leaves_queues (unmap_request E H rq)"
  unfolding unmap_request_def
  by (rule leaves_queuesI) (intro wp_intros; auto simp: is_prp_no_write)

lemma leaves_queues_for_each: "(\<And>x. leaves_queues (f x)) \<Longrightarrow> leaves_queues (for_each xs f)"
proof (induction xs)
  case Nil
  show ?case by (rule leaves_queuesI) (auto simp: wp_simps)
qed (simp add: leaves_queues_bind)

lemma leaves_queues_batch:
  assumes "batch_law E H"
  shows "leaves_queues (apple_nvme_complete_batch E H iob)"
  unfolding apple_nvme_complete_batch_def assms [unfolded batch_law_def, rule_format]
  by (intro leaves_queues_bind leaves_queues_for_each leaves_queues_unmap leaves_queues_exec) (simp_all add: no_write_def)

lemma no_write_writes_to: "list_all no_write qs \<Longrightarrow> writes_to r qs = []"
  by (induction qs) (auto simp: no_write_def split: nvme_req.splits)

lemma leaves_queuesD:
  assumes "leaves_queues m"
    and "\<And>a w' f new. drv w' = (drv w)\<lparr>iods := f\<rparr> \<Longrightarrow> hist w' = hist w @ new \<Longrightarrow>
       list_all no_write (reqs new) \<Longrightarrow> finds (reqs new) = [] \<Longrightarrow> Q a w'"
  shows "wp m Q w"
  by (rule wp_mono [OF assms(1) [unfolded leaves_queues_def, rule_format]]) (use assms(2) in blast)

text \<open>The handler of one queue: nothing when it is disabled and not forced, else a poll.\<close>

lemma handle_cq_run:
  assumes "batch_law E H" and "ring_inv n (queue_of a (drv w), k, j)" and "n = apple_nvme_queue_depth a (hw (drv w))"
    and "cq_db (queue_of a (drv w)) \<noteq> (nvmmu (drv w), APPLE_NVMMU_TCB_INVAL)"
    and on: "on \<longleftrightarrow> enabled (queue_of a (drv w)) \<or> force"
  shows "wp (apple_nvme_handle_cq E H a force) (\<lambda>r w'. r = (on \<and> k < j)
     \<and> (\<exists>f. drv w' = (upd_queue a (apple_nvme_update_cq_head n ^^ (if on then j - k else 0)) (drv w))\<lparr>iods := f\<rparr>)
     \<and> (\<exists>new. hist w' = hist w @ new
         \<and> writes_to (cq_db (queue_of a (drv w))) (reqs new) = (if on \<and> k < j then [of_nat (j mod n)] else [])
         \<and> finds (reqs new) = (if on then map (\<lambda>p. (a, cqe_command_id (cqes (queue_of a (drv w)) (p mod n)))) [k..<j] else []))) w"
proof (cases on)
  case False
  then show ?thesis
    unfolding apple_nvme_handle_cq_def using on by (auto simp: wp_simps intro: exI [of _ "iods (drv w)"])
next
  case True
  with on have c: "(\<not> enabled (queue_of a (drv w)) \<and> \<not> force) = False" by simp
  show ?thesis
    unfolding apple_nvme_handle_cq_def wp_bind wp_getd c if_False
    apply (rule wp_mono [OF poll_cq_run [OF assms(2-4)]])
    using True
    apply (clarsimp simp: wp_simps simp del: list.map upt.simps)
    apply (intro conjI impI leaves_queuesD [OF leaves_queues_batch [OF assms(1)]])
       apply (auto simp: no_write_writes_to wp_simps)
    done
qed


text \<open>What is pending in a queue, as look-ups of the requests.\<close>

definition pending_ids :: "bool \<Rightarrow> apple_nvme \<Rightarrow> nat \<times> nat \<Rightarrow> (bool \<times> u16) list" where
  "pending_ids a anv r = map (\<lambda>p. (a, cqe_command_id (cqes (queue_of a anv) (p mod apple_nvme_queue_depth a (hw anv))))) [fst r..<snd r]"

text \<open>Both rings of the device, \<open>r a = (k, j)\<close> being the consumed and the posted entries of queue \<open>a\<close>, with
  doorbells that are registers of their own.\<close>

definition rings_ok :: "apple_nvme \<Rightarrow> (bool \<Rightarrow> nat \<times> nat) \<Rightarrow> bool" where
  "rings_ok anv r \<longleftrightarrow> (\<forall>a. ring_inv (apple_nvme_queue_depth a (hw anv)) (queue_of a anv, fst (r a), snd (r a))
     \<and> cq_db (queue_of a anv) \<noteq> (nvmmu anv, APPLE_NVMMU_TCB_INVAL))"

text \<open>The device after queue \<open>a\<close> has consumed \<open>i\<close> entries.\<close>

definition consume :: "bool \<Rightarrow> nat \<Rightarrow> apple_nvme \<Rightarrow> apple_nvme" where
  "consume a i anv = upd_queue a (apple_nvme_update_cq_head (apple_nvme_queue_depth a (hw anv)) ^^ i) anv"

lemma consume_frame [simp]:
  "hw (consume a i anv) = hw anv" "nvmmu (consume a i anv) = nvmmu anv"
  "queue_of (\<not> a) (consume a i anv) = queue_of (\<not> a) anv"
  "cqes (queue_of b (consume a i anv)) = cqes (queue_of b anv)"
  "cq_db (queue_of b (consume a i anv)) = cq_db (queue_of b anv)"
  "enabled (queue_of b (consume a i anv)) = enabled (queue_of b anv)"
  by (auto simp: consume_def upd_queue_def queue_of_def)

lemma consume_0 [simp]: "consume a 0 anv = anv"
  by (simp add: consume_def)

lemma consume_none [simp]: "\<exists>g i. anv\<lparr>iods := f\<rparr> = (consume a i anv)\<lparr>iods := g\<rparr>"
  by (rule exI [of _ f], rule exI [of _ 0]) simp

lemma rings_ok_consume:
  assumes "rings_ok anv r"
  shows "rings_ok ((consume a (snd (r a) - fst (r a)) anv)\<lparr>iods := f\<rparr>) (r(a := (snd (r a), snd (r a))))"
proof -
  have "ring_inv (apple_nvme_queue_depth b (hw anv)) (queue_of b (consume a (snd (r a) - fst (r a)) anv),
      fst ((r(a := (snd (r a), snd (r a)))) b), snd ((r(a := (snd (r a), snd (r a)))) b))" for b
  proof (cases "b = a")
    case True
    with assms update_heads_ring [of _ "queue_of a anv" "fst (r a)" "snd (r a)"]
    show ?thesis by (auto simp: rings_ok_def consume_def)
  next
    case False
    then have "a = (\<not> b)" by auto
    with assms consume_frame(3) [of a] show ?thesis by (auto simp: rings_ok_def consume_def)
  qed
  with assms show ?thesis by (simp add: rings_ok_def)
qed

lemma handle_cq_rings:
  assumes "batch_law E H" and "rings_ok (drv w) r" and on: "on \<longleftrightarrow> enabled (queue_of a (drv w)) \<or> force"
  shows "wp (apple_nvme_handle_cq E H a force) (\<lambda>res w'. res = (on \<and> fst (r a) < snd (r a))
     \<and> rings_ok (drv w') (if on then r(a := (snd (r a), snd (r a))) else r)
     \<and> (\<exists>f i. drv w' = (consume a i (drv w))\<lparr>iods := f\<rparr>)
     \<and> (\<exists>new. hist w' = hist w @ new \<and> finds (reqs new) = (if on then pending_ids a (drv w) (r a) else []))) w"
proof -
  from assms(2) have ring: "ring_inv (apple_nvme_queue_depth a (hw (drv w))) (queue_of a (drv w), fst (r a), snd (r a))"
    and db: "cq_db (queue_of a (drv w)) \<noteq> (nvmmu (drv w), APPLE_NVMMU_TCB_INVAL)"
    unfolding rings_ok_def by blast+
  have same: "rings_ok ((drv w)\<lparr>iods := f\<rparr>) r" for f using assms(2) by (simp add: rings_ok_def)
  have none: "rings_ok ((drv w)\<lparr>iods := f\<rparr>) (r(a := (snd (r a), snd (r a))))" if "\<not> fst (r a) < snd (r a)" for f
    using rings_ok_consume [OF assms(2), where a = a and f = f] that by simp
  show ?thesis
    by (rule wp_mono [OF handle_cq_run [OF assms(1) ring refl db on]])
      (auto simp: pending_ids_def consume_def [symmetric] same none rings_ok_consume [OF assms(2)] split: if_splits)
qed

lemma irq_run:
  assumes "batch_law E H" and "rings_ok (drv w) r"
  shows "wp (apple_nvme_irq E H) (\<lambda>handled w'.
     handled = (enabled (ioq (drv w)) \<and> fst (r False) < snd (r False) \<or> enabled (adminq (drv w)) \<and> fst (r True) < snd (r True))
     \<and> (\<exists>r'. rings_ok (drv w') r'
         \<and> r' False = (if enabled (ioq (drv w)) then (snd (r False), snd (r False)) else r False)
         \<and> r' True = (if enabled (adminq (drv w)) then (snd (r True), snd (r True)) else r True))
     \<and> (\<exists>new. hist w' = hist w @ new
         \<and> hd (reqs new) = Io SpinLock \<and> last (reqs new) = Io SpinUnlock
         \<and> finds (reqs new) = (if enabled (ioq (drv w)) then pending_ids False (drv w) (r False) else [])
              @ (if enabled (adminq (drv w)) then pending_ids True (drv w) (r True) else []))) w"
proof -
  have io: "enabled (ioq anv) = enabled (queue_of False anv)" and ad: "enabled (adminq anv) = enabled (queue_of True anv)" for anv
    by (simp_all add: queue_of_def)
  show ?thesis
    unfolding apple_nvme_irq_def io ad
    apply (intro wp_bindI wp_execI)
    apply (rule wp_mono, rule handle_cq_rings [OF assms(1) _ refl, where r = r])
     apply (simp add: assms(2))
    apply (elim conjE exE)
    apply (rule wp_bindI, rule wp_mono, rule handle_cq_rings [OF assms(1) _ refl], assumption)
    apply (intro wp_intros)
    apply (elim conjE exE)
    apply (intro conjI)
      apply (simp add: pending_ids_def)
     apply (rule exI, rule conjI, simp, simp)
    apply (simp add: pending_ids_def)
    done
qed


section \<open>What submission does\<close>

text \<open>The parts of the device that mapping and flushing leave alone.\<close>

definition same_queues :: "apple_nvme \<Rightarrow> apple_nvme \<Rightarrow> bool" where
  "same_queues anv anv' \<longleftrightarrow> adminq anv' = adminq anv \<and> ioq anv' = ioq anv \<and> hw anv' = hw anv \<and> rqs anv' = rqs anv"

lemma same_queues_D: "same_queues anv anv' \<Longrightarrow> queue_of a anv' = queue_of a anv \<and> hw anv' = hw anv \<and> rqs anv' = rqs anv"
  by (simp add: same_queues_def queue_of_def)

lemma delayed_flush_run:
  "wp (apple_nvme_delayed_flush E ns fl) (\<lambda>_ w'. same_queues (drv w) (drv w') \<and> iods (drv w') = iods (drv w)
     \<and> (\<exists>new. hist w' = hist w @ new \<and> list_all no_write (reqs new))) w"
  unfolding apple_nvme_delayed_flush_def flush_rearm_def
  by (intro wp_intros) (auto simp: same_queues_def no_write_def)

lemma queue_rq_map_run:
  "wp (queue_rq_map E H rq) (\<lambda>_ w'. same_queues (drv w) (drv w')
     \<and> (\<exists>new. hist w' = hist w @ new \<and> list_all no_write (reqs new))) w"
  unfolding queue_rq_map_def
  by (intro wp_intros) (auto simp: same_queues_def upd_iod_def is_prp_no_write)

lemma nonready_run:
  "wp (nvme_fail_nonready_command E rq nr dp) (\<lambda>_ w'. drv w' = drv w
     \<and> (\<exists>new. hist w' = hist w @ new \<and> list_all no_write (reqs new))) w"
  unfolding nvme_fail_nonready_command_def
  by (intro wp_intros) (auto simp: no_write_def)

text \<open>A command in place: on the linear queues the entry and the TCB of its tag, on the T8015 the entry at
  the old tail with the tail advanced; in both cases the doorbell is the one register write.\<close>

definition submitted :: "('x) nvme_hdr_scheme \<Rightarrow> bool \<Rightarrow> apple_nvme_hw \<Rightarrow> nvme_command \<Rightarrow> apple_nvme_queue \<Rightarrow> apple_nvme_queue \<Rightarrow> nvme_req list \<Rightarrow> bool" where
  "submitted H a hwd cmd q q' writes \<longleftrightarrow>
     (if has_lsq_nvmmu hwd
      then q' = q\<lparr>tcbs := (tcbs q)(nvme_tag_from_cid H (command_id cmd) := tcb_of H cmd),
                  sqes := (sqes q)(nvme_tag_from_cid H (command_id cmd) * 64 := cmd)\<rparr>
        \<and> writes = [Writel (sq_db q) (of_nat (nvme_tag_from_cid H (command_id cmd)))]
      else \<exists>t. t = (if unat (sq_tail q + 1) = max_queue_depth hwd then 0 else sq_tail q + 1)
        \<and> q' = q\<lparr>sqes := (sqes q)(sqe_offset_t8015 a (sq_tail q) := cmd), sq_tail := t\<rparr>
        \<and> writes = [Writel (sq_db q) (ucast t)])"

lemma submit_run:
  "wp (if has_lsq_nvmmu (hw (drv w)) then apple_nvme_submit_cmd_t8103 E H a cmd else apple_nvme_submit_cmd_t8015 E a cmd)
     (\<lambda>_ w'. queue_of (\<not> a) (drv w') = queue_of (\<not> a) (drv w) \<and> rqs (drv w') = rqs (drv w) \<and> iods (drv w') = iods (drv w)
        \<and> (\<exists>new. hist w' = hist w @ new
             \<and> submitted H a (hw (drv w)) cmd (queue_of a (drv w)) (queue_of a (drv w')) (bus_writes (reqs new)))) w"
  unfolding apple_nvme_submit_cmd_t8103_def apple_nvme_submit_cmd_t8015_def
  by (intro wp_intros) (auto simp: submitted_def no_write_def upd_queue_def queue_of_def)

definition rq_outcome :: "('x) nvme_hdr_scheme \<Rightarrow> bool \<Rightarrow> nat \<Rightarrow> apple_nvme \<Rightarrow> blk_status \<Rightarrow> apple_nvme \<Rightarrow> nvme_req list \<Rightarrow> bool" where
  "rq_outcome H a rq anv sts anv' writes \<longleftrightarrow>
     queue_of (\<not> a) anv' = queue_of (\<not> a) anv
     \<and> (writes = [] \<and> queue_of a anv' = queue_of a anv
        \<or> sts = BLK_STS_OK \<and> submitted H a (hw anv) (mapped_cmd anv' rq) (queue_of a anv) (queue_of a anv') writes)"

lemma queue_rq_submit_run:
  "wp (queue_rq_submit E H a ns rq) (\<lambda>sts w'. sts = BLK_STS_OK
     \<and> (\<exists>new. hist w' = hist w @ new \<and> rq_outcome H a rq (drv w) sts (drv w') (bus_writes (reqs new)))) w"
  unfolding queue_rq_submit_def
  apply (intro wp_bindI wp_execI wp_getdI wp_mono [OF delayed_flush_run])
  apply (elim conjE exE)
  apply (rule wp_ifI)
   apply (intro wp_intros)
   apply (auto simp: rq_outcome_def no_write_def bus_writes_none dest: same_queues_D)[1]
  apply (intro wp_bindI wp_getdI wp_mono [OF submit_run] wp_returnI)
  apply (clarsimp simp: rq_outcome_def no_write_def bus_writes_none same_queues_D mapped_cmd_def)
  done

lemma rq_outcome_trans:
  assumes "same_queues anv anv1" and "rq_outcome H a rq anv1 sts anv2 writes"
  shows "rq_outcome H a rq anv sts anv2 writes"
  using assms same_queues_D [OF assms(1)] by (simp add: rq_outcome_def)

lemma rq_outcome_none: "same_queues anv anv' \<Longrightarrow> rq_outcome H a rq anv sts anv' []"
  by (simp add: rq_outcome_def same_queues_D)

lemma same_queues_iod: "same_queues anv (upd_iod rq f anv)"
  by (simp add: same_queues_def upd_iod_def)

lemma same_queues_upd_iod [simp]: "same_queues (upd_iod rq f anv) anv' = same_queues anv anv'"
  by (simp add: same_queues_def upd_iod_def)

lemma queue_rq_run:
  "wp (apple_nvme_queue_rq E H a rq) (\<lambda>sts w'. \<exists>new. hist w' = hist w @ new
     \<and> (\<not> enabled (queue_of a (drv w)) \<longrightarrow> sts = BLK_STS_IOERR \<and> new = [])
     \<and> rq_outcome H a rq (drv w) sts (drv w') (bus_writes (reqs new))) w"
  unfolding apple_nvme_queue_rq_def
  by (intro wp_bindI wp_moddI wp_getdI wp_letI wp_ifI wp_returnI wp_callI wp_case_prodI
        wp_mono [OF nonready_run] wp_mono [OF queue_rq_map_run] wp_mono [OF queue_rq_submit_run] wp_execI;
      auto simp: bus_writes_none no_write_def same_queues_D [OF same_queues_iod];
      blast intro: rq_outcome_none rq_outcome_trans same_queues_iod)


text \<open>The submission ring of the T8015: the tail counts the commands modulo the depth.\<close>

lemma t8015_run:
  assumes "unat (sq_tail (queue_of a (drv w))) < max_queue_depth (hw (drv w))" and "max_queue_depth (hw (drv w)) < 65536"
  shows "wp (apple_nvme_submit_cmd_t8015 E a cmd) (\<lambda>_ w'. hw (drv w') = hw (drv w)
     \<and> unat (sq_tail (queue_of a (drv w'))) = Suc (unat (sq_tail (queue_of a (drv w)))) mod max_queue_depth (hw (drv w))
     \<and> sqes (queue_of a (drv w')) = (sqes (queue_of a (drv w)))(sqe_offset_t8015 a (sq_tail (queue_of a (drv w))) := cmd)) w"
proof -
  have "unat (sq_tail (queue_of a (drv w)) + 1) = Suc (unat (sq_tail (queue_of a (drv w))))"
    using assms by (subst unat_plus_simple [THEN iffD1]) (auto simp: word_le_nat_alt unat_word_ariths)
  with assms show ?thesis
    unfolding apple_nvme_submit_cmd_t8015_def
    by (intro wp_intros) (auto simp: mod_less)
qed

section \<open>Properties\<close>

text \<open>C2. The completion ring refines a first-in first-out queue. From a freshly initialised queue, for
  every interleaving of the controller posting completions and the driver testing, reading and
  advancing, the entries the driver takes, followed by those still in the ring, are exactly the entries
  posted, in their order: no completion is lost, duplicated or seen early. The driver sees one pending
  exactly when it has taken fewer than were posted.\<close>

theorem cq_ring_fifo:
  assumes "0 < apple_nvme_queue_depth a hwd" and "apple_nvme_queue_depth a hwd \<le> 65536"
    and "n = apple_nvme_queue_depth a hwd"
    and "run_events (ring_room n) (ring_post n) ring_pending ring_front (ring_advance n) es (init_queue a hwd q, 0, 0)
       = (posted, taken, s)"
  shows "map cqe_view posted = taken @ ring_contents n s \<and> (ring_pending s \<longleftrightarrow> length taken < length posted)"
proof -
  have i: "ring_inv n (init_queue a hwd q, 0, 0)" using init_queue_ring assms(1-3) by simp
  from cq_ring.run_events_fifo [OF i assms(4)]
  have s: "ring_inv n s" and e: "map cqe_view posted = taken @ ring_contents n s"
    by (auto simp: ring_contents_def)
  from arg_cong [OF e, of length] have "length posted = length taken + length (ring_contents n s)" by simp
  with e cq_ring.pending_iff [OF s] show ?thesis by (cases "ring_contents n s") auto
qed

text \<open>Polling a completion queue ends with nothing pending. It looks up the request of exactly the
  pending entries, each once and in order, leaves the other queue alone, and writes the new head to the
  queue's doorbell once if there was an entry and not at all otherwise.\<close>

theorem poll_cq_drains:
  assumes "ring_inv n (queue_of a (drv w), k, j)" and "n = apple_nvme_queue_depth a (hw (drv w))"
    and "cq_db (queue_of a (drv w)) \<noteq> (nvmmu (drv w), APPLE_NVMMU_TCB_INVAL)"
    and "run_state (apple_nvme_poll_cq E H a iob) w = ((found, iob'), w')"
  shows "found = (k < j) \<and> \<not> apple_nvme_cqe_pending (queue_of a (drv w')) \<and> ring_inv n (queue_of a (drv w'), j, j)
     \<and> queue_of (\<not> a) (drv w') = queue_of (\<not> a) (drv w)
     \<and> (\<exists>new. hist w' = hist w @ new
         \<and> writes_to (cq_db (queue_of a (drv w))) (reqs new) = (if k < j then [of_nat (j mod n)] else [])
         \<and> finds (reqs new) = map (\<lambda>p. (a, cqe_command_id (cqes (queue_of a (drv w)) (p mod n)))) [k..<j])"
proof -
  from wpD [OF poll_cq_run [OF assms(1-3)] assms(4)] obtain f new where
    r: "found = (k < j)" "drv w' = (upd_queue a (apple_nvme_update_cq_head n ^^ (j - k)) (drv w))\<lparr>iods := f\<rparr>"
    "hist w' = hist w @ new"
    "writes_to (cq_db (queue_of a (drv w))) (reqs new) = (if k < j then [of_nat (j mod n)] else [])"
    "finds (reqs new) = map (\<lambda>p. (a, cqe_command_id (cqes (queue_of a (drv w)) (p mod n)))) [k..<j]" by auto
  from r(2) have "queue_of a (drv w') = (apple_nvme_update_cq_head n ^^ (j - k)) (queue_of a (drv w))"
    and o: "queue_of (\<not> a) (drv w') = queue_of (\<not> a) (drv w)" by (auto simp: queue_of_def upd_queue_def)
  with update_heads_ring [OF assms(1)] have i: "ring_inv n (queue_of a (drv w'), j, j)" by simp
  from ring_pending_iff [OF i] have "\<not> apple_nvme_cqe_pending (queue_of a (drv w'))" by simp
  with r i o show ?thesis by blast
qed



text \<open>The tail of the T8015 submission ring never leaves the ring: after any sequence of commands it is the
  number of commands plus the old tail, modulo the depth, so every entry is written inside the queue's
  memory of 64-byte entries (admin) or 128-byte entries (I/O).\<close>

theorem t8015_tail_bounds:
  assumes "unat (sq_tail (queue_of a (drv w))) < max_queue_depth (hw (drv w))" and "max_queue_depth (hw (drv w)) < 65536"
    and "run_state (for_each cmds (apple_nvme_submit_cmd_t8015 E a)) w = ((), w')"
  shows "unat (sq_tail (queue_of a (drv w'))) = (unat (sq_tail (queue_of a (drv w))) + length cmds) mod max_queue_depth (hw (drv w))
     \<and> sqe_offset_t8015 a (sq_tail (queue_of a (drv w'))) + (if a then 64 else 128) \<le> max_queue_depth (hw (drv w)) * (if a then 64 else 128)"
proof -
  let ?n = "max_queue_depth (hw (drv w))" and ?t = "unat (sq_tail (queue_of a (drv w)))"
  let ?I = "\<lambda>ys (v :: (nvme_req, nvme_resp, apple_nvme) world). hw (drv v) = hw (drv w) \<and> unat (sq_tail (queue_of a (drv v))) = (?t + (length cmds - length ys)) mod ?n \<and> length ys \<le> length cmds"
  have n: "0 < ?n" using assms(1) by simp
  have "wp (for_each cmds (apple_nvme_submit_cmd_t8015 E a)) (\<lambda>_. ?I []) w"
  proof (rule wp_for_each [where I = ?I])
    show "?I cmds w" using assms(1) by simp
    fix y :: nvme_command and ys and v :: "(nvme_req, nvme_resp, apple_nvme) world"
    assume v: "?I (y # ys) v"
    have "unat (sq_tail (queue_of a (drv v))) < max_queue_depth (hw (drv v))" "max_queue_depth (hw (drv v)) < 65536"
      using v n assms(2) by simp_all
    from t8015_run [OF this, of E y] show "wp (apple_nvme_submit_cmd_t8015 E a y) (\<lambda>_. ?I ys) v"
      by (rule wp_mono) (use v in \<open>auto simp: mod_Suc_eq Suc_diff_Suc\<close>)
  qed auto
  from wpD [OF this assms(3)] have t: "unat (sq_tail (queue_of a (drv w'))) = (?t + length cmds) mod ?n" by simp
  then have "unat (sq_tail (queue_of a (drv w'))) + 1 \<le> ?n" using n by (simp add: Suc_leI)
  then have "sqe_offset_t8015 a (sq_tail (queue_of a (drv w'))) + (if a then 64 else 128) \<le> ?n * (if a then 64 else 128)"
    by (auto simp: sqe_offset_t8015_def APPLE_NVME_IOSQES_def push_bit_eq_mult)
  with t show ?thesis by simp
qed

lemma flush_rearm_run:
  "wp (flush_rearm E ns now) (\<lambda>b w'. \<exists>new. hist w' = hist w @ new
     \<and> (if b then reqs new = [Io (ModDelayedWork (flush_interval (drv w)))]
            \<and> (flush_ns (drv w) = 0 \<or> flush_ns (drv w) = ns) \<and> flush_ns (drv w') = ns \<and> last_flush (drv w') = last_flush (drv w)
        else drv w' = drv w)) w"
  unfolding flush_rearm_def
  by (intro wp_intros) auto

text \<open>A flush is deferred only when another one will follow: with a flush interval set, either the delayed
  work is already pending, or it is armed for one interval and remembers this namespace. A flush that is
  not deferred records its time and goes to the device; other requests are never deferred.\<close>

theorem delayed_flush_armed:
  assumes "run_state (apple_nvme_delayed_flush E ns fl) w = (b, w')"
  shows "\<exists>new. hist w' = hist w @ new
     \<and> (if \<not> fl \<or> flush_interval (drv w) = 0 then \<not> b \<and> new = [] \<and> drv w' = drv w
        else if b then
          (\<exists>r. new = [(Io DwPending, r)] \<and> fst r \<noteq> 0 \<and> drv w' = drv w)
          \<or> last (reqs new) = Io (ModDelayedWork (flush_interval (drv w)))
            \<and> (flush_ns (drv w) = 0 \<or> flush_ns (drv w) = ns) \<and> flush_ns (drv w') = ns \<and> last_flush (drv w') = last_flush (drv w)
        else last (reqs new) = Core Jiffies \<and> flush_ns (drv w') = flush_ns (drv w) \<and> last_flush (drv w') = snd (snd (last new)))"
proof -
  have "wp (apple_nvme_delayed_flush E ns fl) (\<lambda>b w'. \<exists>new. hist w' = hist w @ new
     \<and> (if \<not> fl \<or> flush_interval (drv w) = 0 then \<not> b \<and> new = [] \<and> drv w' = drv w
        else if b then
          (\<exists>r. new = [(Io DwPending, r)] \<and> fst r \<noteq> 0 \<and> drv w' = drv w)
          \<or> last (reqs new) = Io (ModDelayedWork (flush_interval (drv w)))
            \<and> (flush_ns (drv w) = 0 \<or> flush_ns (drv w) = ns) \<and> flush_ns (drv w') = ns \<and> last_flush (drv w') = last_flush (drv w)
        else last (reqs new) = Core Jiffies \<and> flush_ns (drv w') = flush_ns (drv w) \<and> last_flush (drv w') = snd (snd (last new)))) w"
    unfolding apple_nvme_delayed_flush_def
    apply (intro wp_bindI wp_getdI wp_ifI wp_returnI wp_callI wp_case_prodI wp_moddI wp_mono [OF flush_rearm_run])
       apply simp_all
      apply auto
    done
  from wpD [OF this assms] show ?thesis .
qed

section \<open>Witnesses\<close>

definition hw0 :: apple_nvme_hw where
  "hw0 = \<lparr>has_lsq_nvmmu = True, need_ioq_register = False, separate_nvmmu_region = False, max_queue_depth = 4\<rparr>"

definition hw1 :: apple_nvme_hw where
  "hw1 = \<lparr>has_lsq_nvmmu = False, need_ioq_register = False, separate_nvmmu_region = False, max_queue_depth = 4\<rparr>"

definition cmd0 :: nvme_command where
  "cmd0 = \<lparr>opcode = 2, command_id = 3, dptr_prp1 = 0, dptr_prp2 = 0, rw_length = 7, cmd_rest = []\<rparr>"

definition queue0 :: "nat \<Rightarrow> apple_nvme_queue" where
  "queue0 db = \<lparr>sqes = (\<lambda>_. cmd0), cqes = (\<lambda>_. zero_cqe), tcbs = (\<lambda>_. zero_tcb), sq_dma_addr = 0, cq_dma_addr = 0,
     tcb_dma_addr = 0, sq_db = (mmio_nvme, db + 4), cq_db = (mmio_nvme, db), sq_tail = 0, cq_head = 0, cq_phase = 1, enabled = True\<rparr>"

definition cqe0 :: "u16 \<Rightarrow> nvme_completion" where
  "cqe0 i = \<lparr>cqe_result = 0, cqe_command_id = i, cqe_status = 1\<rparr>"

definition rq0 :: blk_rq where
  "rq0 = \<lparr>rq_data = \<lparr>rq_nr_phys_segments = 0, rq_payload_bytes = 0, bv_offset = 0, bv_len = 0, rq_sgl = []\<rparr>,
     rq_cmd = cmd0, rq_is_flush = True, rq_ns = 1, rq_noretry_or_mpath = False, rq_dontprep = False, rq_adminq = False\<rparr>"

definition iod0 :: apple_nvme_iod where
  "iod0 = \<lparr>npages = - 1, nents = 0, first_dma = 0, dma_len = 0, sg = 0, iod_list = (\<lambda>_. 0), prp_mem = (\<lambda>_ _. 0), prp1 = 0, prp2 = 0\<rparr>"

definition anv0 :: "apple_nvme_hw \<Rightarrow> apple_nvme" where
  "anv0 h = \<lparr>ctrl_state = NVME_CTRL_LIVE, nr_reset = 0, failfast_expired = False, stopped = False,
     admin_q_stopped = False, frozen = False, opts = None, ctrl_config = 0, cap = 0,
     shutdown_timeout = 5, delay_before_chk_rdy = False, has_tagset = True, has_admin_tagset = True,
     namespaces = [1], io_timeout = 30, max_hw_sectors = 0, max_segments = 0, sqsize = 0,
     queue_count = 2, has_admin_q = True,
     hw = h, nvmmu = mmio_nvme, adminq = queue0 0x1004, ioq = (queue0 0x100c)\<lparr>cqes := (\<lambda>i. if i = 0 then cqe0 3 else zero_cqe)\<rparr>,
     iods = (\<lambda>_. iod0), rqs = (\<lambda>_. rq0),
     admin_tagset = \<lparr>ts_queue_depth = 1, ts_reserved_tags = 0, ts_poll = False\<rparr>,
     tagset = \<lparr>ts_queue_depth = 3, ts_reserved_tags = 2, ts_poll = True\<rparr>,
     flush_ns = 0, flush_interval = 100, last_flush = 0, pd_count = 1, pd_dev = None, pd_link = None, anv_irq = 9\<rparr>"

definition anv_w :: "apple_nvme_hw \<Rightarrow> (nvme_req, nvme_resp, apple_nvme) world" where
  "anv_w h = \<lparr>hist = [], drv = anv0 h\<rparr>"

text \<open>The constants of the NVMe specification.\<close>

definition H0 :: "nvme_env \<Rightarrow> nvme_hdr" where
  "H0 E = \<lparr>NVME_REG_CAP = 0, NVME_REG_CC = 0x14, NVME_REG_CSTS = 0x1c, NVME_REG_CRTO = 0x68, NVME_REG_AQA = 0x24,
     NVME_REG_ASQ = 0x28, NVME_REG_ACQ = 0x30, NVME_REG_DBS = 0x1000, NVME_CC_ENABLE = 1, NVME_CC_SHN_MASK = 0xc000,
     NVME_CC_SHN_NORMAL = 0x4000, NVME_CC_SHN_NONE = 0, NVME_CC_CSS_CSI = 0x60, NVME_CC_CSS_NVM = 0,
     NVME_CC_CRIME = 0x1000000, NVME_CC_AMS_RR = 0, NVME_CC_IOSQES = 0x60000, NVME_CC_IOCQES = 0x400000,
     NVME_CC_MPS_SHIFT = 7, NVME_CSTS_RDY = 1, NVME_CSTS_CFS = 2, NVME_CSTS_SHST_MASK = 0xc, NVME_CSTS_SHST_CMPLT = 8,
     NVME_CAP_TIMEOUT = (\<lambda>c. ucast (drop_bit 24 c AND 0xff)), NVME_CAP_MPSMIN = (\<lambda>c. unat (drop_bit 48 c AND 0xf)),
     NVME_CAP_CSS = (\<lambda>c. ucast (drop_bit 37 c AND 0xff)), NVME_CAP_CSS_CSI = 0x40, NVME_CAP_CRMS_CRWMS = push_bit 59 1,
     NVME_CRTO_CRWMT = (\<lambda>c. c AND 0xffff), NVME_CTRL_PAGE_SHIFT = 12, HZ = 100,
     nvme_tag_from_cid = (\<lambda>c. unat (c AND 0xfff)), nvme_is_write = (\<lambda>c. opcode c AND 1 \<noteq> 0), NVME_SC_SUCCESS = 0,
     NVME_SC_HOST_ABORTED_CMD = 0x371, NVME_QUEUE_PHYS_CONTIG = 1, NVME_CQ_IRQ_ENABLED = 2, sizeof_nvme_completion = 16,
     nvme_complete_batch = (\<lambda>f iob. do {
       for_each iob (\<lambda>rq. do { f rq; exec E (Io (CompleteBatchReq rq)) });
       exec E (Io EndRequestBatch)
     })\<rparr>"

definition E_io :: nvme_env where
  "E_io h q = (case q of Io r \<Rightarrow> (case r of CheckReady _ \<Rightarrow> (1, 0) | FindRq _ _ \<Rightarrow> (5, 0) | _ \<Rightarrow> (0, 0)) | _ \<Rightarrow> (0, 200))"

lemma H0_batch: "batch_law E (H0 E)"
  by (simp add: batch_law_def H0_def)

lemma io_ring0: "ring_inv 4 (ioq (anv0 h), 0, 1)"
proof -
  have "odd (cqe_status (cqes (ioq (anv0 h)) (m mod 4))) \<noteq> phase_of 4 m" if "1 \<le> m" "m < 5" for m
  proof -
    from that consider "m = 1" | "m = 2" | "m = 3" | "m = 4" by linarith
    then show ?thesis by cases (simp_all add: anv0_def cqe0_def zero_cqe_def phase_of_def)
  qed
  then show ?thesis by (simp add: ring_inv_def anv0_def queue0_def phase_of_def)
qed

lemma admin_ring0: "ring_inv (apple_nvme_queue_depth True hw0) (adminq (anv0 h), 0, 0)"
  by (auto simp: ring_inv_def anv0_def queue0_def phase_of_def zero_cqe_def apple_nvme_queue_depth_def hw0_def APPLE_NVME_AQ_DEPTH_def)

lemma hw0_depth: "apple_nvme_queue_depth False hw0 = 4" "hw (anv0 h) = h"
  by (simp_all add: apple_nvme_queue_depth_def hw0_def anv0_def)

lemma anv0_db: "cq_db (queue_of a (anv0 h)) \<noteq> (nvmmu (anv0 h), APPLE_NVMMU_TCB_INVAL)"
  by (simp add: queue_of_def anv0_def queue0_def APPLE_NVMMU_TCB_INVAL_def)

theorem cq_ring_fifo_witness:
  "\<exists>s. run_events (ring_room 4) (ring_post 4) ring_pending ring_front (ring_advance 4)
       [Post (cqe0 7), Post (cqe0 8), Take] (init_queue False hw0 (queue0 0), 0, 0)
     = ([cqe0 7, cqe0 8], [cqe_view (cqe0 7)], s) \<and> ring_contents 4 s = [cqe_view (cqe0 8)]"
proof -
  let ?q = "init_queue False hw0 (queue0 0)"
  let ?r = "run_events (ring_room 4) (ring_post 4) ring_pending ring_front (ring_advance 4)
       [Post (cqe0 7), Post (cqe0 8), Take] (?q, 0, 0)"
  let ?s1 = "ring_post 4 (cqe0 7) (?q, 0, 0)"
  let ?s2 = "ring_post 4 (cqe0 8) ?s1"
  have room: "ring_room 4 (?q, 0, 0)" "ring_room 4 ?s1" by (simp_all add: ring_room_def ring_post_def)
  have s2: "\<exists>q. ?s2 = (q, 0, 2) \<and> cqes q 0 = with_phase True (cqe0 7) \<and> cq_head q = 0 \<and> cq_phase q = 1"
    by (simp add: ring_post_def init_queue_def phase_of_def)
  have "set_bit 0 1 = (1 :: u16)" by (rule bit_word_eqI) (auto simp: bit_simps)
  then have ph: "cqe_status (with_phase True (cqe0 7)) = 1" by (simp add: with_phase_def cqe0_def)
  have pend: "ring_pending ?s2" "ring_front ?s2 = cqe_view (cqe0 7)"
    using s2 ph by (auto simp: ring_pending_def ring_front_def apple_nvme_cqe_pending_def cqe_view_with_phase)
  have p: "fst ?r = [cqe0 7, cqe0 8]" "fst (snd ?r) = [cqe_view (cqe0 7)]"
    using room pend by simp_all
  have e: "?r = ([cqe0 7, cqe0 8], [cqe_view (cqe0 7)], snd (snd ?r))"
    using p by (metis prod.collapse)
  have d: "0 < apple_nvme_queue_depth False hw0" "apple_nvme_queue_depth False hw0 \<le> 65536" "4 = apple_nvme_queue_depth False hw0"
    by (simp_all add: hw0_depth)
  from cq_ring_fifo [OF d e] have "ring_contents 4 (snd (snd ?r)) = [cqe_view (cqe0 8)]" by simp
  with e show ?thesis by blast
qed

theorem poll_cq_drains_witness:
  "\<exists>iob w'. run_state (apple_nvme_poll_cq E_io (H0 E_io) False []) (anv_w hw0) = ((True, iob), w')
     \<and> \<not> apple_nvme_cqe_pending (ioq (drv w')) \<and> writes_to (mmio_nvme, 0x100c) (reqs (hist w')) = [1]"
proof -
  let ?r = "run_state (apple_nvme_poll_cq E_io (H0 E_io) False []) (anv_w hw0)"
  have i: "ring_inv 4 (queue_of False (drv (anv_w hw0)), 0, 1)" using io_ring0 by (simp add: queue_of_def anv_w_def)
  have n: "4 = apple_nvme_queue_depth False (hw (drv (anv_w hw0)))" by (simp add: anv_w_def hw0_depth)
  have d: "cq_db (queue_of False (drv (anv_w hw0))) \<noteq> (nvmmu (drv (anv_w hw0)), APPLE_NVMMU_TCB_INVAL)"
    using anv0_db by (simp add: anv_w_def)
  have db: "cq_db (queue_of False (drv (anv_w hw0))) = (mmio_nvme, 0x100c)" "hist (anv_w hw0) = []"
    by (simp_all add: anv_w_def queue_of_def anv0_def queue0_def)
  from poll_cq_drains [OF i n d, of E_io "H0 E_io" "[]" "fst (fst ?r)" "snd (fst ?r)" "snd ?r", unfolded db]
  have "fst (fst ?r) = True" "\<not> apple_nvme_cqe_pending (ioq (drv (snd ?r)))"
    "writes_to (mmio_nvme, 0x100c) (reqs (hist (snd ?r))) = [1]" by (auto simp: queue_of_def)
  then show ?thesis by (intro exI [of _ "snd (fst ?r)"] exI [of _ "snd ?r"]) (auto simp: prod_eq_iff)
qed



theorem t8015_tail_bounds_witness:
  "\<exists>w'. run_state (for_each (replicate 5 cmd0) (apple_nvme_submit_cmd_t8015 E_io False)) (anv_w hw1) = ((), w')
     \<and> unat (sq_tail (ioq (drv w'))) = 1"
proof -
  let ?r = "run_state (for_each (replicate 5 cmd0) (apple_nvme_submit_cmd_t8015 E_io False)) (anv_w hw1)"
  have t: "unat (sq_tail (queue_of False (drv (anv_w hw1)))) < max_queue_depth (hw (drv (anv_w hw1)))"
    "max_queue_depth (hw (drv (anv_w hw1))) < 65536" "sq_tail (queue_of False (drv (anv_w hw1))) = 0"
    "max_queue_depth (hw (drv (anv_w hw1))) = 4"
    by (simp_all add: anv_w_def anv0_def hw1_def queue_of_def queue0_def)
  from t8015_tail_bounds [OF t(1,2), of "replicate 5 cmd0" E_io "snd ?r"] t(3,4)
  show ?thesis by (intro exI [of _ "snd ?r"]) (simp add: prod_eq_iff queue_of_def)
qed

theorem delayed_flush_armed_witness:
  "\<exists>w'. run_state (apple_nvme_delayed_flush (\<lambda>_ _. (0, 7)) 1 True) (anv_w hw0) = (True, w') \<and> flush_ns (drv w') = 1"
proof -
  let ?r = "run_state (apple_nvme_delayed_flush (\<lambda>_ _. (0, 7)) 1 True) (anv_w hw0)"
  have r: "fst ?r = True" "length (hist (snd ?r)) = 3" by code_simp+
  have h: "hist (anv_w hw0) = []" "flush_interval (drv (anv_w hw0)) = 100" by (simp_all add: anv_w_def anv0_def)
  from delayed_flush_armed [of "\<lambda>_ _. (0, 7)" 1 True "anv_w hw0" "fst ?r" "snd ?r"] r h
  show ?thesis by (intro exI [of _ "snd ?r"]) (auto simp: prod_eq_iff)
qed

end
