(* ===== verification/Nvme_Driver.thy ===== *)
theory Nvme_Driver
  imports Nvme_Queue
begin

text \<open>
  The life of the ANS NVMe controller, \<open>local-source/drivers/nvme/host/apple.c\<close>: creating and deleting the I/O
  queues, disabling, request timeouts, the reset work with its error exits, and the works the driver schedules.

  RTKit, the reset lines, the block layer and the NVMe core functions that are not modelled are requests. A wait
  that has not ended within the fuel \<open>n\<close> is \<open>None\<close>, as in the core; every function that waits passes it on.
  A step of the reset is an error number, 0 to go on, and the labels of the C are programs of their own.
  \<open>waits_end\<close> and \<open>clock_outlasts\<close> say that the fuel exceeds the sleeps a timeout takes.

  Proved: the driver's register functions keep the core's contract, so enabling the controller follows
  its protocol; disabling always ends with both queues disabled and every command cancelled; the reset work
  ends live with both queues enabled or deleting with both disabled; a timeout ends in a completion or a reset.
\<close>

section \<open>Constants and hardware\<close>

definition APPLE_ANS_COPROC_CPU_CONTROL :: nat where "APPLE_ANS_COPROC_CPU_CONTROL = 0x44"
definition APPLE_ANS_COPROC_CPU_CONTROL_RUN :: u32 where "APPLE_ANS_COPROC_CPU_CONTROL_RUN = BIT 4"
definition APPLE_ANS_ACQ_DB :: nat where "APPLE_ANS_ACQ_DB = 0x1004"
definition APPLE_ANS_IOCQ_DB :: nat where "APPLE_ANS_IOCQ_DB = 0x100c"
definition APPLE_ANS_IOSQ_REGISTER :: nat where "APPLE_ANS_IOSQ_REGISTER = 0x1200"
definition APPLE_ANS_IOCQ_REGISTER :: nat where "APPLE_ANS_IOCQ_REGISTER = 0x1208"
definition APPLE_ANS_MAX_PEND_CMDS_CTRL :: nat where "APPLE_ANS_MAX_PEND_CMDS_CTRL = 0x1210"
definition APPLE_ANS_BOOT_STATUS :: nat where "APPLE_ANS_BOOT_STATUS = 0x1300"
definition APPLE_ANS_BOOT_STATUS_OK :: u32 where "APPLE_ANS_BOOT_STATUS_OK = 0xde71ce55"
definition APPLE_ANS_LINEAR_ASQ_DB :: nat where "APPLE_ANS_LINEAR_ASQ_DB = 0x2490c"
definition APPLE_ANS_LINEAR_IOSQ_DB :: nat where "APPLE_ANS_LINEAR_IOSQ_DB = 0x24910"
definition APPLE_NVMMU_NUM_TCBS :: nat where "APPLE_NVMMU_NUM_TCBS = 0x28100"
definition APPLE_NVMMU_ASQ_TCB_BASE :: nat where "APPLE_NVMMU_ASQ_TCB_BASE = 0x28108"
definition APPLE_NVMMU_IOSQ_TCB_BASE :: nat where "APPLE_NVMMU_IOSQ_TCB_BASE = 0x28110"
definition APPLE_NVME_AQ_MQ_TAG_DEPTH :: nat where "APPLE_NVME_AQ_MQ_TAG_DEPTH = APPLE_NVME_AQ_DEPTH - 1"

definition apple_nvme_t8015_hw :: apple_nvme_hw where
  "apple_nvme_t8015_hw = \<lparr>has_lsq_nvmmu = False, need_ioq_register = False, separate_nvmmu_region = False, max_queue_depth = 16\<rparr>"

definition apple_nvme_t8103_hw :: apple_nvme_hw where
  "apple_nvme_t8103_hw = \<lparr>has_lsq_nvmmu = True, need_ioq_register = False, separate_nvmmu_region = False, max_queue_depth = 64\<rparr>"

definition apple_nvme_t8132_hw :: apple_nvme_hw where
  "apple_nvme_t8132_hw = \<lparr>has_lsq_nvmmu = True, need_ioq_register = True, separate_nvmmu_region = True, max_queue_depth = 64\<rparr>"

definition apple_nvme_of_match :: "(string \<times> apple_nvme_hw) list" where
  "apple_nvme_of_match = [(''apple,t8015-nvme-ans2'', apple_nvme_t8015_hw), (''apple,t8103-nvme-ans2'', apple_nvme_t8103_hw),
     (''apple,t8132-nvme-ans2'', apple_nvme_t8132_hw), (''apple,nvme-ans2'', apple_nvme_t8103_hw)]"

section \<open>Register functions\<close>

definition apple_nvme_reg_read32 :: "nvme_env \<Rightarrow> nat \<Rightarrow> (int \<times> u32) anv" where
  "apple_nvme_reg_read32 E off = do { r \<leftarrow> call E (Readl (mmio_nvme, off)); return (0, ucast (snd r)) }"

definition apple_nvme_reg_write32 :: "nvme_env \<Rightarrow> nat \<Rightarrow> u32 \<Rightarrow> int anv" where
  "apple_nvme_reg_write32 E off v = do { exec E (Writel (mmio_nvme, off) v); return 0 }"

definition apple_nvme_reg_read64 :: "nvme_env \<Rightarrow> nat \<Rightarrow> (int \<times> u64) anv" where
  "apple_nvme_reg_read64 E off = do { r \<leftarrow> call E (Readq (mmio_nvme, off)); return (0, snd r) }"

definition apple_ctrl_ops :: "nvme_env \<Rightarrow> apple_nvme nvme_ctrl_ops" where
  "apple_ctrl_ops E = \<lparr>reg_read32 = apple_nvme_reg_read32 E, reg_write32 = apple_nvme_reg_write32 E,
     reg_read64 = apple_nvme_reg_read64 E\<rparr>"

section \<open>Queue creation and removal\<close>

definition submit_sync :: "nvme_env \<Rightarrow> bool \<Rightarrow> sync_cmd \<Rightarrow> int anv" where
  "submit_sync E admin c = do { r \<leftarrow> call E (Ans (SubmitSync admin c)); return (fst r) }"

definition apple_nvme_create_cq :: "nvme_env \<Rightarrow> ('x) nvme_hdr_scheme \<Rightarrow> int anv" where
  "apple_nvme_create_cq E H = do {
     anv \<leftarrow> getd;
     submit_sync E True (create_cq (cq_dma_addr (ioq anv)) 1 (of_nat (max_queue_depth (hw anv) - 1))
       (NVME_QUEUE_PHYS_CONTIG H OR NVME_CQ_IRQ_ENABLED H) 0)
   }"

definition apple_nvme_remove_cq :: "nvme_env \<Rightarrow> int anv" where
  "apple_nvme_remove_cq E = submit_sync E True (delete_cq 1)"

definition apple_nvme_create_sq :: "nvme_env \<Rightarrow> ('x) nvme_hdr_scheme \<Rightarrow> int anv" where
  "apple_nvme_create_sq E H = do {
     anv \<leftarrow> getd;
     submit_sync E True (create_sq (sq_dma_addr (ioq anv)) 1 (of_nat (max_queue_depth (hw anv) - 1))
       (NVME_QUEUE_PHYS_CONTIG H) 1)
   }"

definition apple_nvme_remove_sq :: "nvme_env \<Rightarrow> int anv" where
  "apple_nvme_remove_sq E = submit_sync E True (delete_sq 1)"

section \<open>Disabling\<close>

text \<open>The part for a controller that still answers.\<close>

definition disable_alive :: "nat \<Rightarrow> nvme_env \<Rightarrow> ('x) nvme_hdr_scheme \<Rightarrow> bool \<Rightarrow> unit option anv" where
  "disable_alive n E H shutdown = do {
     anv \<leftarrow> getd;
     whenM (enabled (ioq anv)) (do {
       apple_nvme_remove_sq E;
       apple_nvme_remove_cq E;
       return ()
     });
     r \<leftarrow> (if shutdown then nvme_disable_ctrl n E H (apple_ctrl_ops E) shutdown else return (Some 0));
     case r of
       None \<Rightarrow> return None
     | Some _ \<Rightarrow> do {
         r \<leftarrow> nvme_disable_ctrl n E H (apple_ctrl_ops E) False;
         return (map_option (\<lambda>_. ()) r)
       }
   }"

text \<open>From clearing \<open>enabled\<close> to the end.\<close>

definition disable_queues :: "nvme_env \<Rightarrow> ('x) nvme_hdr_scheme \<Rightarrow> bool \<Rightarrow> unit anv" where
  "disable_queues E H shutdown = do {
     modd (\<lambda>anv. anv\<lparr>ioq := (ioq anv)\<lparr>enabled := False\<rparr>\<rparr>);
     modd (\<lambda>anv. anv\<lparr>adminq := (adminq anv)\<lparr>enabled := False\<rparr>\<rparr>);
     nvme_quiesce_admin_queue E;
     exec E (Io SpinLock);
     apple_nvme_handle_cq E H False True;
     apple_nvme_handle_cq E H True True;
     exec E (Io SpinUnlock);
     nvme_cancel_tagset E;
     nvme_cancel_admin_tagset E;
     whenM shutdown (do {
       nvme_unquiesce_io_queues E;
       nvme_unquiesce_admin_queue E
     })
   }"

definition apple_nvme_disable :: "nat \<Rightarrow> nvme_env \<Rightarrow> ('x) nvme_hdr_scheme \<Rightarrow> bool \<Rightarrow> unit option anv" where
  "apple_nvme_disable n E H shutdown = do {
     anv \<leftarrow> getd;
     let state = ctrl_state anv;
     (_, v) \<leftarrow> call E (Readl (mmio_nvme, NVME_REG_CSTS H));
     let csts = (ucast v :: u32);
     (crashed, _) \<leftarrow> call E (Ans RtkitIsCrashed);
     let dead = (crashed \<noteq> 0 \<or> csts AND NVME_CSTS_RDY H = 0 \<or> csts AND NVME_CSTS_CFS H \<noteq> 0);
     let freeze = (state = NVME_CTRL_LIVE \<or> state = NVME_CTRL_RESETTING);
     whenM freeze (nvme_start_freeze E);
     whenM (\<not> dead \<and> shutdown \<and> freeze) (do { nvme_wait_freeze_timeout E; return () });
     nvme_quiesce_io_queues E;
     r \<leftarrow> (if \<not> dead then disable_alive n E H shutdown else return (Some ()));
     case r of
       None \<Rightarrow> return None
     | Some _ \<Rightarrow> do {
         disable_queues E H shutdown;
         return (Some ())
       }
   }"

section \<open>Timeouts\<close>

text \<open>The answer is always \<open>BLK_EH_DONE\<close>; \<open>None\<close> is a wait that has not ended.\<close>

definition apple_nvme_timeout :: "nat \<Rightarrow> nvme_env \<Rightarrow> ('x) nvme_hdr_scheme \<Rightarrow> nat \<Rightarrow> unit option anv" where
  "apple_nvme_timeout n E H rq = do {
     anv \<leftarrow> getd;
     let is_adminq = rq_adminq (rqs anv rq);
     (_, v) \<leftarrow> call E (Readl (mmio_nvme, NVME_REG_CSTS H));
     let csts = (ucast v :: u32);
     if ctrl_state anv \<noteq> NVME_CTRL_LIVE then do {
       (started, _) \<leftarrow> call E (Io (RequestStarted rq));
       whenM (started \<noteq> 0) (do {
         (completed, _) \<leftarrow> call E (Io (RequestCompleted rq));
         whenM (completed = 0) (do {
           exec E (Io (SetReqStatus rq (NVME_SC_HOST_ABORTED_CMD H)));
           exec E (Io (OrReqFlags rq));
           exec E (Io (CompleteRequest rq))
         })
       });
       return (Some ())
     } else do {
       (crashed, _) \<leftarrow> call E (Ans RtkitIsCrashed);
       polled \<leftarrow> (if crashed = 0 \<and> csts AND NVME_CSTS_CFS H = 0 then do {
           exec E (Io SpinLock);
           apple_nvme_handle_cq E H is_adminq False;
           exec E (Io SpinUnlock);
           (completed, _) \<leftarrow> call E (Io (RequestCompleted rq));
           return (completed \<noteq> 0)
         } else return False);
       if polled then return (Some ())
       else do {
         exec E (Io (OrReqFlags rq));
         r \<leftarrow> apple_nvme_disable n E H False;
         case r of
           None \<Rightarrow> return None
         | Some _ \<Rightarrow> do { nvme_reset_ctrl E; return (Some ()) }
       }
     }
   }"

definition apple_nvme_rtkit_crashed :: "nvme_env \<Rightarrow> unit anv" where
  "apple_nvme_rtkit_crashed E = do { nvme_reset_ctrl E; return () }"

section \<open>Reset\<close>

text \<open>Shut RTKit down if it runs; \<open>Some 0\<close> is to go on.\<close>

definition reset_stop_rtkit :: "nat \<Rightarrow> nvme_env \<Rightarrow> ('x) nvme_hdr_scheme \<Rightarrow> int option anv" where
  "reset_stop_rtkit n E H = do {
     (running, _) \<leftarrow> call E (Ans RtkitIsRunning);
     if running \<noteq> 0 then do {
       anv \<leftarrow> getd;
       r \<leftarrow> (if ctrl_config anv AND NVME_CC_ENABLE H \<noteq> 0 then apple_nvme_disable n E H False else return (Some ()));
       case r of
         None \<Rightarrow> return None
       | Some _ \<Rightarrow> do {
           (ret, _) \<leftarrow> call E (Ans RtkitShutdown);
           if ret \<noteq> 0 then return (Some ret)
           else do {
             exec E (Writel (mmio_coproc, APPLE_ANS_COPROC_CPU_CONTROL) 0);
             return (Some 0)
           }
         }
     } else return (Some 0)
   }"

definition reset_boot_rtkit :: "nvme_env \<Rightarrow> int anv" where
  "reset_boot_rtkit E = do {
     (_, v) \<leftarrow> call E (Readl (mmio_coproc, APPLE_ANS_COPROC_CPU_CONTROL));
     if ucast v AND APPLE_ANS_COPROC_CPU_CONTROL_RUN = 0 then do {
       (ret, _) \<leftarrow> call E (Ans ResetAssert);
       if ret \<noteq> 0 then return ret
       else do {
         (ret, _) \<leftarrow> call E (Ans RtkitReinit);
         if ret \<noteq> 0 then return ret
         else do {
           (ret, _) \<leftarrow> call E (Ans ResetDeassert);
           if ret \<noteq> 0 then return ret
           else do {
             exec E (Writel (mmio_coproc, APPLE_ANS_COPROC_CPU_CONTROL) APPLE_ANS_COPROC_CPU_CONTROL_RUN);
             (ret, _) \<leftarrow> call E (Ans RtkitBoot);
             return ret
           }
         }
       }
     } else do {
       (ret, _) \<leftarrow> call E (Ans RtkitWake);
       return ret
     }
   }"

definition reset_wait_boot :: "nvme_env \<Rightarrow> int anv" where
  "reset_wait_boot E = do {
     r \<leftarrow> call E (Ans (ReadlPollTimeout (mmio_nvme, APPLE_ANS_BOOT_STATUS) APPLE_ANS_BOOT_STATUS_OK));
     return (fst r)
   }"

definition aqa_of :: "apple_nvme_hw \<Rightarrow> u32" where
  "aqa_of hwd = (let aqa = (if has_lsq_nvmmu hwd then of_nat (APPLE_NVME_AQ_DEPTH - 1) else of_nat (max_queue_depth hwd - 1))
     in aqa OR push_bit 16 aqa)"

text \<open>Limits, queue depths and queue addresses.\<close>

definition reset_setup :: "nvme_env \<Rightarrow> ('x) nvme_hdr_scheme \<Rightarrow> unit anv" where
  "reset_setup E H = do {
     (_, mx) \<leftarrow> call E (Ans DmaMaxMappingSize);
     modd (\<lambda>anv. anv\<lparr>max_hw_sectors := min (push_bit 1 (of_int NVME_MAX_KB_SZ)) (ucast (drop_bit 9 mx)), max_segments := of_int NVME_MAX_SEGS\<rparr>);
     exec E (Ans (DmaSetMaxSegSize 0xffffffff));
     anv \<leftarrow> getd;
     let depth = max_queue_depth (hw anv);
     whenM (has_lsq_nvmmu (hw anv)) (do {
       exec E (Writel (mmio_nvme, APPLE_ANS_MAX_PEND_CMDS_CTRL) (of_nat depth OR push_bit 16 (of_nat depth)));
       exec E (Writel (nvmmu anv, APPLE_NVMMU_NUM_TCBS) (of_nat (depth - 1)))
     });
     exec E (Writel (mmio_nvme, NVME_REG_AQA H) (aqa_of (hw anv)));
     exec E (Writeq (mmio_nvme, NVME_REG_ASQ H) (sq_dma_addr (adminq anv)));
     exec E (Writeq (mmio_nvme, NVME_REG_ACQ H) (cq_dma_addr (adminq anv)));
     whenM (has_lsq_nvmmu (hw anv)) (do {
       exec E (Writeq (nvmmu anv, APPLE_NVMMU_ASQ_TCB_BASE) (tcb_dma_addr (adminq anv)));
       exec E (Writeq (nvmmu anv, APPLE_NVMMU_IOSQ_TCB_BASE) (tcb_dma_addr (ioq anv)))
     });
     (_, c) \<leftarrow> call E (Readq (mmio_nvme, NVME_REG_CAP H));
     modd (\<lambda>anv. anv\<lparr>sqsize := of_nat (depth - 1), cap := c\<rparr>)
   }"

definition reset_start_admin :: "nvme_env \<Rightarrow> int anv" where
  "reset_start_admin E = do {
     apple_nvme_init_queue True;
     nvme_unquiesce_admin_queue E;
     ok \<leftarrow> nvme_change_ctrl_state E NVME_CTRL_CONNECTING;
     if \<not> ok then return (- ENODEV)
     else do {
       (ret, _) \<leftarrow> call E (Ans InitCtrlFinish);
       return ret
     }
   }"

text \<open>From the creation of the I/O queues to the live controller; the boolean says that it is live.\<close>

definition reset_start_io :: "nvme_env \<Rightarrow> bool anv" where
  "reset_start_io E = do {
     apple_nvme_init_queue False;
     anv \<leftarrow> getd;
     whenM (need_ioq_register (hw anv)) (do {
       exec E (Writeq (mmio_nvme, APPLE_ANS_IOCQ_REGISTER) (cq_dma_addr (ioq anv)));
       exec E (Writeq (mmio_nvme, APPLE_ANS_IOSQ_REGISTER) (sq_dma_addr (ioq anv)))
     });
     modd (\<lambda>anv. anv\<lparr>queue_count := 2\<rparr>);
     nvme_unquiesce_io_queues E;
     nvme_wait_freeze E;
     exec E (Ans UpdateNrHwQueues);
     nvme_unfreeze E;
     ok \<leftarrow> nvme_change_ctrl_state E NVME_CTRL_LIVE;
     whenM ok (exec E (Ans StartCtrl));
     return ok
   }"

text \<open>The labels \<open>out\<close>, \<open>out_remove_cq\<close> and \<open>out_remove_sq\<close>.\<close>

definition reset_out :: "nat \<Rightarrow> nvme_env \<Rightarrow> ('x) nvme_hdr_scheme \<Rightarrow> unit option anv" where
  "reset_out n E H = do {
     nvme_change_ctrl_state E NVME_CTRL_DELETING;
     exec E (Ans GetCtrl);
     r \<leftarrow> apple_nvme_disable n E H False;
     case r of
       None \<Rightarrow> return None
     | Some _ \<Rightarrow> do {
         nvme_mark_namespaces_dead E;
         (queued, _) \<leftarrow> call E (Core (QueueWork remove_work));
         whenM (queued = 0) (exec E (Ans PutCtrl));
         return (Some ())
       }
   }"

definition reset_out_remove_cq :: "nat \<Rightarrow> nvme_env \<Rightarrow> ('x) nvme_hdr_scheme \<Rightarrow> unit option anv" where
  "reset_out_remove_cq n E H = do { apple_nvme_remove_cq E; reset_out n E H }"

definition reset_out_remove_sq :: "nat \<Rightarrow> nvme_env \<Rightarrow> ('x) nvme_hdr_scheme \<Rightarrow> unit option anv" where
  "reset_out_remove_sq n E H = do { apple_nvme_remove_sq E; reset_out_remove_cq n E H }"

definition reset_io :: "nat \<Rightarrow> nvme_env \<Rightarrow> ('x) nvme_hdr_scheme \<Rightarrow> unit option anv" where
  "reset_io n E H = do {
     ret \<leftarrow> apple_nvme_create_cq E H;
     if ret \<noteq> 0 then reset_out n E H
     else do {
       ret \<leftarrow> apple_nvme_create_sq E H;
       if ret \<noteq> 0 then reset_out_remove_cq n E H
       else do {
         live \<leftarrow> reset_start_io E;
         if live then return (Some ()) else reset_out_remove_sq n E H
       }
     }
   }"

definition reset_enable :: "nat \<Rightarrow> nvme_env \<Rightarrow> ('x) nvme_hdr_scheme \<Rightarrow> unit option anv" where
  "reset_enable n E H = do {
     reset_setup E H;
     r \<leftarrow> nvme_enable_ctrl n E H (apple_ctrl_ops E);
     case r of
       None \<Rightarrow> return None
     | Some ret \<Rightarrow>
         if ret \<noteq> 0 then reset_out n E H
         else do {
           ret \<leftarrow> reset_start_admin E;
           if ret \<noteq> 0 then reset_out n E H else reset_io n E H
         }
   }"

definition apple_nvme_reset_work :: "nat \<Rightarrow> nvme_env \<Rightarrow> ('x) nvme_hdr_scheme \<Rightarrow> unit option anv" where
  "apple_nvme_reset_work n E H = do {
     anv \<leftarrow> getd;
     if ctrl_state anv \<noteq> NVME_CTRL_RESETTING then reset_out n E H
     else do {
       (crashed, _) \<leftarrow> call E (Ans RtkitIsCrashed);
       if crashed \<noteq> 0 then reset_out n E H
       else do {
         r \<leftarrow> reset_stop_rtkit n E H;
         case r of
           None \<Rightarrow> return None
         | Some ret \<Rightarrow>
             if ret \<noteq> 0 then reset_out n E H
             else do {
               ret \<leftarrow> reset_boot_rtkit E;
               if ret \<noteq> 0 then reset_out n E H
               else do {
                 ret \<leftarrow> reset_wait_boot E;
                 if ret \<noteq> 0 then reset_out n E H else reset_enable n E H
               }
             }
       }
     }
   }"

definition apple_nvme_remove_dead_ctrl_work :: "nvme_env \<Rightarrow> unit anv" where
  "apple_nvme_remove_dead_ctrl_work E = do { exec E (Ans PutCtrl); exec E (Ans DeviceReleaseDriver) }"

definition apple_nvme_async_probe :: "nvme_env \<Rightarrow> unit anv" where
  "apple_nvme_async_probe E = do {
     exec E (Core (FlushWork reset_work));
     exec E (Core (FlushWork scan_work));
     exec E (Ans PutCtrl)
   }"

definition apple_nvme_flush_work :: "nvme_env \<Rightarrow> unit anv" where
  "apple_nvme_flush_work E = do {
     anv \<leftarrow> getd;
     if flush_ns anv = 0 then exec E (Io WarnFlushNs)
     else do {
       (_, nsid) \<leftarrow> call E (Ans (NsId (flush_ns anv)));
       err \<leftarrow> submit_sync E False (flush_cmd (ucast nsid));
       if err \<noteq> 0 then return ()
       else do {
         (_, now) \<leftarrow> call E (Core Jiffies);
         modd (\<lambda>anv. anv\<lparr>last_flush := now\<rparr>)
       }
     }
   }"

section \<open>The completion handlers change only the rings\<close>

lemma keeps_with_iod [keeps_intros]:
  "(\<And>anv g. f (anv\<lparr>iods := g\<rparr>) = f anv) \<Longrightarrow> keeps f (with_iod E rq m)"
  by (rule keepsI, rule wp_with_iod) simp

lemma emits_with_iod [emits_intros]:
  assumes "\<And>q. is_prp q \<Longrightarrow> P q"
  shows "emits P (with_iod E rq m)"
  unfolding emits_def
proof (intro allI impI)
  fix w a w'
  assume "run_state (with_iod E rq m) w = (a, w')"
  moreover have "wp (with_iod E rq m) (\<lambda>_ w'. \<exists>new. hist w' = hist w @ new \<and> list_all P (reqs new)) w"
    by (rule wp_with_iod) (use assms in \<open>auto simp: list_all_iff\<close>)
  ultimately show "\<exists>new. hist w' = hist w @ new \<and> list_all P (reqs new)" by (rule wpD [rotated])
qed

text \<open>The life of the device, apart from its rings and data.\<close>

definition life :: "apple_nvme \<Rightarrow> nvme_ctrl_state \<times> bool \<times> bool \<times> bool \<times> bool \<times> bool \<times> bool \<times> bool" where
  "life anv = (ctrl_state anv, has_tagset anv, has_admin_tagset anv, stopped anv, admin_q_stopped anv, frozen anv,
     enabled (ioq anv), enabled (adminq anv))"

definition timing :: "apple_nvme \<Rightarrow> u32 \<times> u64 \<times> apple_nvme_hw \<times> nat list" where
  "timing anv = (shutdown_timeout anv, cap anv, hw anv, namespaces anv)"

lemma life_upd [simp]:
  "life (anv\<lparr>iods := g\<rparr>) = life anv" "timing (anv\<lparr>iods := g\<rparr>) = timing anv"
  "life (upd_queue a (apple_nvme_update_cq_head n) anv) = life anv"
  "timing (upd_queue a f anv) = timing anv"
  by (simp_all add: life_def timing_def upd_queue_def)

text \<open>A request that neither cancels a tag set nor queues work.\<close>

definition plain :: "nvme_req \<Rightarrow> bool" where
  "plain q = (case q of Core r \<Rightarrow> (case r of CancelTagset _ \<Rightarrow> False | QueueWork _ \<Rightarrow> False | _ \<Rightarrow> True) | _ \<Rightarrow> True)"

lemma is_prp_plain: "is_prp q \<Longrightarrow> plain q"
  by (auto simp: is_prp_def plain_def split: nvme_req.splits)

lemma keeps_unmap [keeps_intros]: "(\<And>anv g. f (anv\<lparr>iods := g\<rparr>) = f anv) \<Longrightarrow> keeps f (unmap_request E H rq)"
  unfolding unmap_request_def by (intro keeps_intros)

lemma emits_unmap [emits_intros]: "emits plain (unmap_request E H rq)"
  unfolding unmap_request_def by (intro emits_intros is_prp_plain)

lemma keeps_handle_cqe [keeps_intros]:
  "(\<And>anv g. f (anv\<lparr>iods := g\<rparr>) = f anv) \<Longrightarrow> keeps f (apple_nvme_handle_cqe E H a iob idx)"
  unfolding apple_nvme_handle_cqe_def apple_nvmmu_inval_def apple_nvme_complete_rq_def
  by (intro keeps_intros)

lemma emits_handle_cqe [emits_intros]: "emits plain (apple_nvme_handle_cqe E H a iob idx)"
  unfolding apple_nvme_handle_cqe_def apple_nvmmu_inval_def apple_nvme_complete_rq_def
  by (intro emits_intros) (simp_all add: plain_def)

lemma keeps_poll_loop:
  assumes "\<And>anv g. f (anv\<lparr>iods := g\<rparr>) = f anv" and "\<And>anv n. f (upd_queue a (apple_nvme_update_cq_head n) anv) = f anv"
  shows "keeps f (poll_cq_loop fuel E H a iob found)"
  by (induction fuel arbitrary: iob found) (auto intro!: keeps_intros simp: assms)

lemma emits_poll_loop: "emits plain (poll_cq_loop fuel E H a iob found)"
  by (induction fuel arbitrary: iob found) (auto intro!: emits_intros)

lemma emits_batch:
  assumes "batch_law E H"
  shows "emits plain (apple_nvme_complete_batch E H iob)"
  unfolding apple_nvme_complete_batch_def assms [unfolded batch_law_def, rule_format]
  by (intro emits_intros) (simp_all add: plain_def)

lemma keeps_handle_cq:
  assumes "batch_law E H"
    and "\<And>anv g. f (anv\<lparr>iods := g\<rparr>) = f anv" and "\<And>anv n. f (upd_queue a (apple_nvme_update_cq_head n) anv) = f anv"
  shows "keeps f (apple_nvme_handle_cq E H a force)"
  unfolding apple_nvme_handle_cq_def apple_nvme_poll_cq_def apple_nvme_complete_batch_def
    assms(1) [unfolded batch_law_def, rule_format]
  by (intro keeps_intros keeps_poll_loop assms(2,3))

lemma emits_handle_cq:
  assumes "batch_law E H"
  shows "emits plain (apple_nvme_handle_cq E H a force)"
  unfolding apple_nvme_handle_cq_def apple_nvme_poll_cq_def
  by (intro emits_intros emits_poll_loop emits_batch assms) (simp_all add: plain_def)

section \<open>The register functions keep the core's contract\<close>

interpretation apple_ops: nvme_ctrl_reg_ops E "apple_ctrl_ops E" mmio_nvme for E
  by unfold_locales
    (simp_all add: apple_ctrl_ops_def apple_nvme_reg_read32_def apple_nvme_reg_write32_def apple_nvme_reg_read64_def)

context nvme_ctrl_reg_ops
begin

lemma disable_ctrl_ends:
  assumes "\<And>h. sleeps_outlast E h n (ucast ((if shutdown then shutdown_timeout (drv w)
      else (NVME_CAP_TIMEOUT K (cap (drv w)) + 1) div 2) * HZ K))" and "0 < n"
  shows "wp (nvme_disable_ctrl n E K ops shutdown) (\<lambda>r _. r \<noteq> None) w"
  unfolding nvme_disable_ctrl_def
  by (intro wp_intros wait_ready_ends assms(2)) (use assms(1) in \<open>auto split: if_splits\<close>)

end

lemma keeps_disable_ctrl [keeps_intros]:
  assumes "\<And>anv c. f (anv\<lparr>ctrl_config := c\<rparr>) = f anv"
  shows "keeps f (nvme_disable_ctrl n E H (apple_ctrl_ops E) shutdown)"
  by (rule keepsI, rule wp_mono [OF apple_ops.disable_ctrl_result]) (auto simp: assms)

lemma enables_drv:
  assumes "enables K base r new c c'"
  obtains u where "c' = c\<lparr>cap := u\<rparr>" | u cc where "c' = c\<lparr>cap := u, ctrl_config := cc\<rparr>"
proof (cases "NVME_CTRL_PAGE_SHIFT K < NVME_CAP_MPSMIN K (snd (snd (hd new))) + 12")
  case True
  with assms have "c' = c\<lparr>cap := snd (snd (hd new))\<rparr>" by (simp add: enables_def Let_def)
  then show thesis by (rule that(1))
next
  case False
  with assms obtain u where "c' = c\<lparr>cap := u, ctrl_config := enable_config K (snd (snd (hd new))) OR NVME_CC_ENABLE K\<rparr>"
    unfolding enables_def Let_def if_not_P [OF False] by blast
  then show thesis by (rule that(2))
qed

lemma keeps_enable_ctrl [keeps_intros]:
  assumes "\<And>anv u. f (anv\<lparr>cap := u\<rparr>) = f anv" "\<And>anv c. f (anv\<lparr>ctrl_config := c\<rparr>) = f anv"
  shows "keeps f (nvme_enable_ctrl n E H (apple_ctrl_ops E))"
proof (rule keepsI, rule wp_mono [OF apple_ops.enable_ctrl_result], elim exE conjE)
  fix w w' :: "(nvme_req, nvme_resp, apple_nvme) world" and r new
  assume "enables H mmio_nvme r new (drv w) (drv w')"
  then show "f (drv w') = f (drv w)" by (cases rule: enables_drv) (simp_all add: assms)
qed

lemma emits_wait_loop: "emits plain (wait_ready_loop n E K (apple_ctrl_ops E) msk val t)"
  by (induction n) (auto intro!: emits_intros simp: plain_def apple_ctrl_ops_def apple_nvme_reg_read32_def)

lemma emits_disable_ctrl [emits_intros]: "emits plain (nvme_disable_ctrl n E H (apple_ctrl_ops E) shutdown)"
  unfolding nvme_disable_ctrl_def nvme_wait_ready_def
  by (intro emits_intros emits_wait_loop)
    (auto intro!: emits_intros simp: plain_def apple_ctrl_ops_def apple_nvme_reg_write32_def)

section \<open>Disabling\<close>

lemma life_config [simp]: "life (anv\<lparr>ctrl_config := c\<rparr>) = life anv" "timing (anv\<lparr>ctrl_config := c\<rparr>) = timing anv"
  by (simp_all add: life_def timing_def)

lemma keeps_alive [keeps_intros]:
  assumes "\<And>anv c. f (anv\<lparr>ctrl_config := c\<rparr>) = f anv"
  shows "keeps f (disable_alive n E H shutdown)"
  unfolding disable_alive_def apple_nvme_remove_sq_def apple_nvme_remove_cq_def submit_sync_def
  by (intro keeps_intros assms)

lemma emits_alive [emits_intros]: "emits plain (disable_alive n E H shutdown)"
  unfolding disable_alive_def apple_nvme_remove_sq_def apple_nvme_remove_cq_def submit_sync_def
  by (intro emits_intros) (simp_all add: plain_def)

text \<open>The tag sets that a history cancels.\<close>

definition cancels :: "nvme_req list \<Rightarrow> bool list" where
  "cancels qs = concat (map (\<lambda>q. case q of Core r \<Rightarrow> (case r of CancelTagset a \<Rightarrow> [a] | _ \<Rightarrow> []) | _ \<Rightarrow> []) qs)"

lemma cancels_simps [simp]:
  "cancels [] = []"
  "cancels (q # qs) = (case q of Core r \<Rightarrow> (case r of CancelTagset a \<Rightarrow> [a] | _ \<Rightarrow> []) | _ \<Rightarrow> []) @ cancels qs"
  "cancels (qs @ qs') = cancels qs @ cancels qs'"
  by (simp_all add: cancels_def)

lemma plain_cancels: "list_all plain qs \<Longrightarrow> cancels qs = []"
  by (induction qs) (auto simp: plain_def split: nvme_req.splits core_req.splits)

lemma plain_hist:
  assumes "emits plain m" and "\<And>a w' new. hist w' = hist w @ new \<Longrightarrow> list_all plain (reqs new) \<Longrightarrow> R a w' \<Longrightarrow> Q a w'"
    and "wp m R w"
  shows "wp m Q w"
  by (rule wp_mono [OF wp_conj [OF emits_wp [OF assms(1)] assms(3)]]) (use assms(2) in blast)

text \<open>What disabling leaves: both queues off, the I/O queues and the admin queue quiesced unless the device
  shuts down, every tag set cancelled; the controller's state is as before.\<close>

definition disabled_from :: "bool \<Rightarrow> apple_nvme \<Rightarrow> apple_nvme \<Rightarrow> bool" where
  "disabled_from shutdown anv anv' \<longleftrightarrow> ctrl_state anv' = ctrl_state anv
     \<and> \<not> enabled (ioq anv') \<and> \<not> enabled (adminq anv') \<and> admin_q_stopped anv' = (\<not> shutdown)
     \<and> has_tagset anv' = has_tagset anv \<and> has_admin_tagset anv' = has_admin_tagset anv
     \<and> stopped anv' = (if shutdown \<and> has_tagset anv then False else stopped anv)"

definition cancelled :: "apple_nvme \<Rightarrow> bool list" where
  "cancelled anv = (if has_tagset anv then [False] else []) @ (if has_admin_tagset anv then [True] else [])"

lemma disable_queues_run:
  assumes "batch_law E H"
  shows "wp (disable_queues E H shutdown) (\<lambda>_ w'. disabled_from shutdown (drv w) (drv w')
     \<and> (\<exists>new. hist w' = hist w @ new \<and> cancels (reqs new) = cancelled (drv w))) w"
proof -
  have h: "wp (apple_nvme_handle_cq E H a True) (\<lambda>_ v'. life (drv v') = life (drv v)
      \<and> (\<exists>new. hist v' = hist v @ new \<and> cancels (reqs new) = [])) v" for a v
    by (rule wp_mono [OF wp_conj [OF keeps_wp [OF keeps_handle_cq [OF assms, of life]] emits_wp [OF emits_handle_cq [OF assms]]]])
      (auto simp: plain_cancels)
  show ?thesis
    unfolding disable_queues_def nvme_quiesce_admin_queue_def nvme_cancel_tagset_def nvme_cancel_admin_tagset_def
      nvme_unquiesce_io_queues_def nvme_unquiesce_admin_queue_def
    by (intro wp_intros wp_mono [OF h]) (auto simp: disabled_from_def cancelled_def life_def)
qed

lemma keeps_start_freeze [keeps_intros]: "(\<And>anv b. f (anv\<lparr>frozen := b\<rparr>) = f anv) \<Longrightarrow> keeps f (nvme_start_freeze E)"
  unfolding nvme_start_freeze_def by (intro keeps_intros)

lemma keeps_wait_freeze_loop [keeps_intros]: "keeps f (wait_freeze_timeout_loop E nss t)"
  by (induction nss arbitrary: t) (auto intro!: keeps_intros)

lemma keeps_wait_freeze_timeout [keeps_intros]: "keeps f (nvme_wait_freeze_timeout E)"
  unfolding nvme_wait_freeze_timeout_def by (intro keeps_intros)

lemma emits_start_freeze [emits_intros]: "emits plain (nvme_start_freeze E)"
  unfolding nvme_start_freeze_def by (intro emits_intros) (simp_all add: plain_def)

lemma emits_wait_freeze_loop: "emits plain (wait_freeze_timeout_loop E nss t)"
  by (induction nss arbitrary: t) (auto intro!: emits_intros simp: plain_def)

lemma emits_wait_freeze_timeout [emits_intros]: "emits plain (nvme_wait_freeze_timeout E)"
  unfolding nvme_wait_freeze_timeout_def by (intro emits_intros emits_wait_freeze_loop) (simp_all add: plain_def)

text \<open>Up to the queues, disabling touches only the freeze, the quiesce mark and the configuration word.\<close>

definition core_life :: "apple_nvme \<Rightarrow> nvme_ctrl_state \<times> bool \<times> bool" where
  "core_life anv = (ctrl_state anv, has_tagset anv, has_admin_tagset anv)"

lemma core_life_upd [simp]:
  "core_life (anv\<lparr>frozen := b\<rparr>) = core_life anv" "core_life (anv\<lparr>stopped := b\<rparr>) = core_life anv"
  "core_life (anv\<lparr>ctrl_config := c\<rparr>) = core_life anv" "core_life (anv\<lparr>admin_q_stopped := b\<rparr>) = core_life anv"
  by (simp_all add: core_life_def)

definition disable_done :: "bool \<Rightarrow> apple_nvme \<Rightarrow> apple_nvme \<Rightarrow> bool" where
  "disable_done shutdown anv anv' \<longleftrightarrow> core_life anv' = core_life anv
     \<and> \<not> enabled (ioq anv') \<and> \<not> enabled (adminq anv') \<and> admin_q_stopped anv' = (\<not> shutdown)
     \<and> (has_tagset anv \<longrightarrow> stopped anv' = (\<not> shutdown))"

lemma quiesce_io_run:
  "wp (nvme_quiesce_io_queues E) (\<lambda>_ w'. core_life (drv w') = core_life (drv w)
     \<and> (has_tagset (drv w) \<longrightarrow> stopped (drv w'))
     \<and> (\<exists>new. hist w' = hist w @ new \<and> list_all plain (reqs new))) w"
  unfolding nvme_quiesce_io_queues_def by (intro wp_intros) (auto simp: plain_def core_life_def)

definition keep_stopped :: "apple_nvme \<Rightarrow> nvme_ctrl_state \<times> bool \<times> bool \<times> bool" where
  "keep_stopped anv = (ctrl_state anv, has_tagset anv, has_admin_tagset anv, stopped anv)"

lemma keep_stopped_config [simp]: "keep_stopped (anv\<lparr>ctrl_config := c\<rparr>) = keep_stopped anv"
  by (simp add: keep_stopped_def)

lemma alive_run:
  "wp (if b then disable_alive n E H shutdown else return (Some ())) (\<lambda>_ w'. keep_stopped (drv w') = keep_stopped (drv w)
     \<and> (\<exists>new. hist w' = hist w @ new \<and> list_all plain (reqs new))) w"
proof -
  have "keeps keep_stopped (if b then disable_alive n E H shutdown else return (Some ()))"
    by (intro keeps_intros) simp
  moreover have "emits plain (if b then disable_alive n E H shutdown else return (Some ()))"
    by (intro emits_intros)
  ultimately show ?thesis by (intro wp_conj keeps_wp emits_wp)
qed

lemma freeze_run:
  "wp (whenM b (nvme_start_freeze E)) (\<lambda>_ w'. core_life (drv w') = core_life (drv w)
     \<and> (\<exists>new. hist w' = hist w @ new \<and> list_all plain (reqs new))) w"
proof -
  have "keeps core_life (whenM b (nvme_start_freeze E :: unit anv))" by (intro keeps_intros) simp
  moreover have "emits plain (whenM b (nvme_start_freeze E :: unit anv))" by (intro emits_intros)
  ultimately show ?thesis by (intro wp_conj keeps_wp emits_wp)
qed

lemma wait_freeze_run:
  "wp (whenM b (do { nvme_wait_freeze_timeout E; return () })) (\<lambda>_ w'. core_life (drv w') = core_life (drv w)
     \<and> (\<exists>new. hist w' = hist w @ new \<and> list_all plain (reqs new))) w"
proof -
  have "keeps core_life (whenM b (do { nvme_wait_freeze_timeout E; return () } :: unit anv))" by (intro keeps_intros)
  moreover have "emits plain (whenM b (do { nvme_wait_freeze_timeout E; return () } :: unit anv))" by (intro emits_intros)
  ultimately show ?thesis by (intro wp_conj keeps_wp emits_wp)
qed

lemma disable_run:
  assumes "batch_law E H"
  shows "wp (apple_nvme_disable n E H shutdown) (\<lambda>r w'. core_life (drv w') = core_life (drv w)
     \<and> (r \<noteq> None \<longrightarrow> disable_done shutdown (drv w) (drv w')
         \<and> (\<exists>new. hist w' = hist w @ new \<and> cancels (reqs new) = cancelled (drv w)))) w"
  unfolding apple_nvme_disable_def
  apply (intro wp_bindI wp_getdI wp_letI wp_callI wp_case_prodI wp_mono [OF freeze_run])
  apply (elim conjE exE)
  apply (intro wp_bindI wp_mono [OF wait_freeze_run])
  apply (elim conjE exE)
  apply (intro wp_bindI wp_mono [OF quiesce_io_run])
  apply (elim conjE exE)
  apply (intro wp_bindI wp_mono [OF alive_run])
  apply (elim conjE exE)
  apply (rule wp_case_optionI)
   apply (rule wp_returnI)
  apply (simp add: core_life_def keep_stopped_def)
  apply (intro wp_bindI wp_mono [OF disable_queues_run [OF assms]] wp_returnI)
  apply (clarsimp simp: plain_cancels)
  apply (auto simp: disabled_from_def disable_done_def core_life_def keep_stopped_def cancelled_def plain_def plain_cancels)
  done

text \<open>Enough fuel: \<open>n\<close> sleeps outlast the controller's two timeouts, whenever they start.\<close>

definition waits_end :: "nvme_env \<Rightarrow> ('x) nvme_hdr_scheme \<Rightarrow> nat \<Rightarrow> apple_nvme \<Rightarrow> bool" where
  "waits_end E H n anv \<longleftrightarrow> 0 < n \<and> (\<forall>h. sleeps_outlast E h n (ucast (shutdown_timeout anv * HZ H))
     \<and> sleeps_outlast E h n (ucast ((NVME_CAP_TIMEOUT H (cap anv) + 1) div 2 * HZ H)))"

definition tmo :: "apple_nvme \<Rightarrow> u32 \<times> u64" where
  "tmo anv = (shutdown_timeout anv, cap anv)"

lemma waits_end_cong: "tmo anv = tmo anv' \<Longrightarrow> waits_end E H n anv = waits_end E H n anv'"
  by (simp add: waits_end_def tmo_def)

lemma tmo_upd [simp]:
  "tmo (anv\<lparr>frozen := b\<rparr>) = tmo anv" "tmo (anv\<lparr>stopped := b\<rparr>) = tmo anv" "tmo (anv\<lparr>ctrl_config := c\<rparr>) = tmo anv"
  by (simp_all add: tmo_def)

lemma keeps_quiesce_io [keeps_intros]: "(\<And>anv b. f (anv\<lparr>stopped := b\<rparr>) = f anv) \<Longrightarrow> keeps f (nvme_quiesce_io_queues E)"
  unfolding nvme_quiesce_io_queues_def by (intro keeps_intros)

lemma apple_disable_ends:
  assumes "waits_end E H n (drv w)"
  shows "wp (nvme_disable_ctrl n E H (apple_ctrl_ops E) shutdown) (\<lambda>r w'. r \<noteq> None \<and> waits_end E H n (drv w')) w"
proof (rule wp_mono [OF wp_conj])
  show "wp (nvme_disable_ctrl n E H (apple_ctrl_ops E) shutdown) (\<lambda>r _. r \<noteq> None) w"
    using assms by (intro apple_ops.disable_ctrl_ends) (auto simp: waits_end_def)
  show "wp (nvme_disable_ctrl n E H (apple_ctrl_ops E) shutdown) (\<lambda>_ w'. tmo (drv w') = tmo (drv w)) w"
    by (intro keeps_wp keeps_intros) simp
qed (use assms in \<open>auto cong: waits_end_cong\<close>)

lemma keeps_waits:
  assumes "keeps tmo m" and "waits_end E H n (drv w)"
  shows "wp m (\<lambda>_ w'. waits_end E H n (drv w')) w"
  by (rule wp_mono [OF keeps_wp [OF assms(1)]]) (use assms(2) in \<open>simp cong: waits_end_cong\<close>)

lemma alive_ends:
  assumes "waits_end E H n (drv w)"
  shows "wp (disable_alive n E H shutdown) (\<lambda>r _. r \<noteq> None) w"
proof -
  have k: "keeps tmo (whenM b (do { apple_nvme_remove_sq E; apple_nvme_remove_cq E; return () }))" for b
    unfolding apple_nvme_remove_sq_def apple_nvme_remove_cq_def submit_sync_def by (intro keeps_intros)
  have s: "wp (if shutdown then nvme_disable_ctrl n E H (apple_ctrl_ops E) shutdown else return (Some 0))
      (\<lambda>r v'. r \<noteq> None \<and> waits_end E H n (drv v')) v" if "waits_end E H n (drv v)" for v
    using apple_disable_ends [OF that] that by (auto simp: wp_simps)
  show ?thesis
    unfolding disable_alive_def
    apply (intro wp_bindI wp_getdI wp_mono [OF keeps_waits [OF k, where E = E and H = H and n = n]] assms)
    apply (rule wp_mono [OF s], assumption)
    apply (elim conjE)
    apply (rule wp_case_optionI, simp)
    apply (rule wp_bindI, rule wp_mono [OF apple_disable_ends], assumption)
    apply (auto simp: wp_simps)
    done
qed

lemma disable_ends:
  assumes "waits_end E H n (drv w)"
  shows "wp (apple_nvme_disable n E H shutdown) (\<lambda>r _. r \<noteq> None) w"
proof -
  have a: "keeps tmo (whenM b (nvme_start_freeze E :: unit anv))" for b by (intro keeps_intros) simp
  have b: "keeps tmo (whenM b (do { nvme_wait_freeze_timeout E; return () } :: unit anv))" for b by (intro keeps_intros)
  have c: "keeps tmo (nvme_quiesce_io_queues E)" by (intro keeps_intros) simp
  have d: "wp (if b then disable_alive n E H shutdown else return (Some ())) (\<lambda>r _. r \<noteq> None) v"
    if "waits_end E H n (drv v)" for b v using alive_ends [OF that] by (simp add: wp_simps)
  have e: "wp m (\<lambda>_ _. True) v" for m :: "unit anv" and v by (simp add: wp_def split: prod.splits)
  show ?thesis
    unfolding apple_nvme_disable_def
    apply (intro wp_bindI wp_getdI wp_letI wp_callI wp_case_prodI wp_mono [OF keeps_waits [OF a, where E = E and H = H and n = n]])
     apply (simp add: assms)
    apply (intro wp_bindI wp_mono [OF keeps_waits [OF b, where E = E and H = H and n = n]], assumption)
    apply (intro wp_bindI wp_mono [OF keeps_waits [OF c, where E = E and H = H and n = n]], assumption)
    apply (intro wp_bindI wp_mono [OF d], assumption)
    apply (rule wp_case_optionI, simp)
    apply (rule wp_bindI, rule wp_mono [OF e])
    apply (simp add: wp_simps)
    done
qed

section \<open>Reset\<close>

text \<open>The two ways a reset ends.\<close>

definition up :: "apple_nvme \<Rightarrow> bool" where
  "up anv \<longleftrightarrow> ctrl_state anv = NVME_CTRL_LIVE \<and> enabled (ioq anv) \<and> enabled (adminq anv) \<and> \<not> admin_q_stopped anv
     \<and> (has_tagset anv \<longrightarrow> \<not> stopped anv) \<and> \<not> frozen anv \<and> queue_count anv = 2"

definition down :: "apple_nvme \<Rightarrow> bool" where
  "down anv \<longleftrightarrow> ctrl_state anv = NVME_CTRL_DELETING \<and> \<not> enabled (ioq anv) \<and> \<not> enabled (adminq anv)
     \<and> admin_q_stopped anv \<and> (has_tagset anv \<longrightarrow> stopped anv)"

definition removal_queued :: "(nvme_req \<times> nvme_resp) list \<Rightarrow> bool" where
  "removal_queued h \<longleftrightarrow> fst (last h) = Core (QueueWork remove_work) \<or> fst (last h) = Ans PutCtrl"

definition reset_over :: "unit option \<Rightarrow> (nvme_req, nvme_resp, apple_nvme) world \<Rightarrow> bool" where
  "reset_over r w \<longleftrightarrow> r \<noteq> None \<longrightarrow> up (drv w) \<or> down (drv w) \<and> removal_queued (hist w)"

definition core_in :: "nvme_ctrl_state \<Rightarrow> (nvme_req, nvme_resp, apple_nvme) world \<Rightarrow> bool" where
  "core_in s w \<longleftrightarrow> ctrl_state (drv w) = s"

lemma keeps_state:
  assumes "keeps ctrl_state m" and "core_in s w"
  shows "wp m (\<lambda>_. core_in s) w"
  by (rule wp_mono [OF keeps_wp [OF assms(1)]]) (use assms(2) in \<open>simp add: core_in_def\<close>)

lemma keeps_mark_dead [keeps_intros]: "keeps f (nvme_mark_namespaces_dead E)"
  unfolding nvme_mark_namespaces_dead_def by (intro keeps_intros)

lemma reset_out_run:
  assumes "batch_law E H" and "core_in s w" and "ctrl_state_change s NVME_CTRL_DELETING"
  shows "wp (reset_out n E H) reset_over w"
  unfolding reset_out_def
  apply (intro wp_bindI wp_nvme_change_ctrl_state wp_execI wp_mono [OF disable_run [OF assms(1)]])
  using assms(2,3)
  apply (clarsimp simp: core_in_def)
  apply (rule wp_case_optionI)
   apply (simp add: wp_simps reset_over_def)
  apply (rule wp_bindI, rule wp_mono [OF keeps_wp [OF keeps_mark_dead [where f = "\<lambda>x. x"]]])
  apply (intro wp_intros)
   apply (auto simp: reset_over_def down_def disable_done_def core_life_def removal_queued_def)
  done

lemma keeps_remove_cq [keeps_intros]: "keeps f (apple_nvme_remove_cq E)" "keeps f (apple_nvme_remove_sq E)"
  "keeps f (apple_nvme_create_cq E H)" "keeps f (apple_nvme_create_sq E H)"
  unfolding apple_nvme_remove_cq_def apple_nvme_remove_sq_def apple_nvme_create_cq_def apple_nvme_create_sq_def submit_sync_def
  by (intro keeps_intros)+

lemma reset_out_cq_run:
  assumes "batch_law E H" and "core_in s w" and "ctrl_state_change s NVME_CTRL_DELETING"
  shows "wp (reset_out_remove_cq n E H) reset_over w"
  unfolding reset_out_remove_cq_def
  by (intro wp_bindI wp_mono [OF keeps_state [OF keeps_remove_cq(1) assms(2)]] reset_out_run [OF assms(1) _ assms(3)])

lemma reset_out_sq_run:
  assumes "batch_law E H" and "core_in s w" and "ctrl_state_change s NVME_CTRL_DELETING"
  shows "wp (reset_out_remove_sq n E H) reset_over w"
  unfolding reset_out_remove_sq_def
  by (intro wp_bindI wp_mono [OF keeps_state [OF keeps_remove_cq(2) assms(2)]] reset_out_cq_run [OF assms(1) _ assms(3)])

text \<open>A connected controller with its admin queue running.\<close>

definition admin_up :: "apple_nvme \<Rightarrow> bool" where
  "admin_up anv \<longleftrightarrow> ctrl_state anv = NVME_CTRL_CONNECTING \<and> enabled (adminq anv) \<and> \<not> admin_q_stopped anv"

lemma start_io_run:
  assumes "admin_up (drv w)"
  shows "wp (reset_start_io E) (\<lambda>live w'. live \<and> up (drv w')) w"
proof -
  have k: "keeps (\<lambda>x. x) (nvme_wait_freeze E :: unit anv)"
    unfolding nvme_wait_freeze_def by (intro keeps_intros)
  have u: "wp (nvme_unfreeze E) (\<lambda>_ v'. drv v' = (drv v)\<lparr>frozen := False\<rparr>) v" for v :: "(nvme_req, nvme_resp, apple_nvme) world"
  proof -
    have e: "keeps (\<lambda>x. x) (for_each (namespaces (drv v)) (\<lambda>ns. exec E (Core (Unfreeze ns))) :: unit anv)"
      by (intro keeps_intros)
    show ?thesis
      unfolding nvme_unfreeze_def
      by (intro wp_bindI wp_getdI wp_execI wp_mono [OF keeps_wp [OF e]] wp_moddI) simp
  qed
  show ?thesis
    unfolding reset_start_io_def apple_nvme_init_queue_def nvme_unquiesce_io_queues_def
    apply (intro wp_bindI wp_getdI wp_moddI wp_when_execI wp_whenI wp_execI wp_mono [OF keeps_wp [OF k]] wp_mono [OF u]
        wp_nvme_change_ctrl_state wp_returnI)
    using assms
    apply (auto simp: admin_up_def up_def ctrl_state_change_def enter_state_def upd_queue_def init_queue_def)
    done
qed

lemma create_keeps:
  assumes "admin_up (drv w)" and "m = apple_nvme_create_cq E H \<or> m = apple_nvme_create_sq E H"
  shows "wp m (\<lambda>_ w'. admin_up (drv w')) w"
proof -
  have "keeps admin_up m" using assms(2) keeps_remove_cq(3,4) by blast
  from keeps_wp [OF this] show ?thesis by (rule wp_mono) (use assms(1) in simp)
qed

lemma admin_up_in: "admin_up (drv w) \<Longrightarrow> core_in NVME_CTRL_CONNECTING w"
  by (simp add: admin_up_def core_in_def)

lemma deleting_allowed: "ctrl_state_change NVME_CTRL_CONNECTING NVME_CTRL_DELETING" "ctrl_state_change NVME_CTRL_RESETTING NVME_CTRL_DELETING"
  by (simp_all add: ctrl_state_change_def)

lemma reset_io_run:
  assumes "batch_law E H" and "admin_up (drv w)"
  shows "wp (reset_io n E H) reset_over w"
  unfolding reset_io_def
  apply (intro wp_bindI wp_mono [OF create_keeps [OF assms(2)]], blast)
  apply (intro wp_ifI reset_out_run [OF assms(1) _ deleting_allowed(1)] admin_up_in, assumption)
  apply (rule wp_bindI, rule wp_mono [OF create_keeps], assumption, blast)
  apply (intro wp_ifI reset_out_cq_run [OF assms(1) _ deleting_allowed(1)] admin_up_in, assumption)
  apply (rule wp_bindI, rule wp_mono [OF start_io_run], assumption)
  apply (simp add: wp_simps reset_over_def)
  done

lemma start_admin_run:
  assumes "core_in NVME_CTRL_RESETTING w"
  shows "wp (reset_start_admin E) (\<lambda>_ w'. admin_up (drv w')) w"
  unfolding reset_start_admin_def apple_nvme_init_queue_def nvme_unquiesce_admin_queue_def
  apply (intro wp_bindI wp_getdI wp_moddI wp_when_execI wp_nvme_change_ctrl_state)
  using assms
  apply (auto simp: core_in_def ctrl_state_change_def admin_up_def enter_state_def upd_queue_def init_queue_def intro!: wp_intros)
  done

lemma keeps_setup [keeps_intros]:
  assumes "\<And>anv a b. f (anv\<lparr>max_hw_sectors := a, max_segments := b\<rparr>) = f anv" "\<And>anv a b. f (anv\<lparr>sqsize := a, cap := b\<rparr>) = f anv"
  shows "keeps f (reset_setup E H)"
  unfolding reset_setup_def by (intro keeps_intros assms)

lemma reset_enable_run:
  assumes "batch_law E H" and "core_in NVME_CTRL_RESETTING w"
  shows "wp (reset_enable n E H) reset_over w"
proof -
  have s: "keeps ctrl_state (reset_setup E H)" by (intro keeps_intros) simp_all
  have e: "keeps ctrl_state (nvme_enable_ctrl n E H (apple_ctrl_ops E))" by (intro keeps_intros) simp_all
  show ?thesis
    unfolding reset_enable_def
    apply (intro wp_bindI wp_mono [OF keeps_state [OF s assms(2)]])
    apply (rule wp_mono [OF keeps_state [OF e]], assumption)
    apply (intro wp_case_optionI wp_ifI reset_out_run [OF assms(1) _ deleting_allowed(2)])
      apply (simp add: wp_simps reset_over_def)
     apply assumption
    apply (rule wp_bindI, rule wp_mono [OF start_admin_run], assumption)
    apply (intro wp_ifI reset_out_run [OF assms(1) _ deleting_allowed(1)] reset_io_run [OF assms(1)] admin_up_in)
     apply assumption+
    done
qed

lemma keeps_boot [keeps_intros]: "keeps f (reset_boot_rtkit E)" "keeps f (reset_wait_boot E)"
  unfolding reset_boot_rtkit_def reset_wait_boot_def by (intro keeps_intros)+

lemma keeps_stop:
  assumes "batch_law E H"
  shows "keeps ctrl_state (reset_stop_rtkit n E H)"
proof -
  have d: "keeps ctrl_state (apple_nvme_disable n E H False)"
    by (rule keepsI, rule wp_mono [OF disable_run [OF assms]]) (simp add: core_life_def)
  show ?thesis unfolding reset_stop_rtkit_def by (intro keeps_intros d)
qed

lemma reset_work_run:
  assumes "batch_law E H" and "core_in NVME_CTRL_RESETTING w"
  shows "wp (apple_nvme_reset_work n E H) reset_over w"
proof -
  have c: "keeps ctrl_state (call E (Ans RtkitIsCrashed) :: nvme_resp anv)" by (rule keeps_call)
  show ?thesis
    unfolding apple_nvme_reset_work_def
    apply (intro wp_bindI wp_getdI wp_ifI)
     apply (use assms(2) in \<open>simp add: core_in_def\<close>)
    apply (intro wp_bindI wp_mono [OF keeps_state [OF c assms(2)]] wp_case_prodI wp_ifI
        reset_out_run [OF assms(1) _ deleting_allowed(2)], assumption)
    apply (rule wp_mono [OF keeps_state [OF keeps_stop [OF assms(1)]]], assumption)
    apply (intro wp_case_optionI wp_ifI reset_out_run [OF assms(1) _ deleting_allowed(2)])
      apply (simp add: wp_simps reset_over_def)
     apply assumption
    apply (rule wp_bindI, rule wp_mono [OF keeps_state [OF keeps_boot(1)]], assumption)
    apply (intro wp_ifI reset_out_run [OF assms(1) _ deleting_allowed(2)], assumption)
    apply (rule wp_bindI, rule wp_mono [OF keeps_state [OF keeps_boot(2)]], assumption)
    apply (intro wp_ifI reset_out_run [OF assms(1) _ deleting_allowed(2)] reset_enable_run [OF assms(1)])
     apply assumption+
    done
qed

text \<open>The registers \<open>reset_setup\<close> programs, in order.\<close>

definition setup_writes :: "('x) nvme_hdr_scheme \<Rightarrow> apple_nvme \<Rightarrow> nvme_req list" where
  "setup_writes H anv =
     (if has_lsq_nvmmu (hw anv)
      then [Writel (mmio_nvme, APPLE_ANS_MAX_PEND_CMDS_CTRL) (of_nat (max_queue_depth (hw anv)) OR push_bit 16 (of_nat (max_queue_depth (hw anv)))),
            Writel (nvmmu anv, APPLE_NVMMU_NUM_TCBS) (of_nat (max_queue_depth (hw anv) - 1))] else [])
     @ [Writel (mmio_nvme, NVME_REG_AQA H) (aqa_of (hw anv)), Writeq (mmio_nvme, NVME_REG_ASQ H) (sq_dma_addr (adminq anv)),
        Writeq (mmio_nvme, NVME_REG_ACQ H) (cq_dma_addr (adminq anv))]
     @ (if has_lsq_nvmmu (hw anv)
        then [Writeq (nvmmu anv, APPLE_NVMMU_ASQ_TCB_BASE) (tcb_dma_addr (adminq anv)),
              Writeq (nvmmu anv, APPLE_NVMMU_IOSQ_TCB_BASE) (tcb_dma_addr (ioq anv))] else [])"

lemma setup_run:
  "wp (reset_setup E H) (\<lambda>_ w'. \<exists>new. hist w' = hist w @ new \<and> bus_writes (reqs new) = setup_writes H (drv w)) w"
  unfolding reset_setup_def
  by (intro wp_bindI wp_getdI wp_letI wp_case_prodI wp_whenI wp_steps)
    (auto simp: setup_writes_def no_write_def)

text \<open>Setting the controller up and enabling it, as one sequence of register writes.\<close>

lemma setup_enable_run:
  "wp (do { reset_setup E H; nvme_enable_ctrl n E H (apple_ctrl_ops E) })
     (\<lambda>r w'. \<exists>new writes. hist w' = hist w @ new \<and> bus_writes (reqs new) = setup_writes H (drv w) @ writes
        \<and> (writes = [] \<and> r = Some (- ENODEV)
           \<or> (\<exists>cc. writes = [Writel (mmio_nvme, NVME_REG_CC H) cc, Writel (mmio_nvme, NVME_REG_CC H) (cc OR NVME_CC_ENABLE H)]
               \<and> (r = Some 0 \<longrightarrow> (\<exists>s. last_read new (mmio_nvme, NVME_REG_CSTS H) s \<and> s AND NVME_CSTS_RDY H = NVME_CSTS_RDY H))))) w"
proof (unfold wp_bind, rule wp_mono [OF setup_run], elim exE conjE)
  fix w1 :: "(nvme_req, nvme_resp, apple_nvme) world" and new1
  assume 1: "hist w1 = hist w @ new1" "bus_writes (reqs new1) = setup_writes H (drv w)"
  show "wp (nvme_enable_ctrl n E H (apple_ctrl_ops E))
     (\<lambda>r w'. \<exists>new writes. hist w' = hist w @ new \<and> bus_writes (reqs new) = setup_writes H (drv w) @ writes
        \<and> (writes = [] \<and> r = Some (- ENODEV)
           \<or> (\<exists>cc. writes = [Writel (mmio_nvme, NVME_REG_CC H) cc, Writel (mmio_nvme, NVME_REG_CC H) (cc OR NVME_CC_ENABLE H)]
               \<and> (r = Some 0 \<longrightarrow> (\<exists>s. last_read new (mmio_nvme, NVME_REG_CSTS H) s \<and> s AND NVME_CSTS_RDY H = NVME_CSTS_RDY H))))) w1"
  proof (rule wp_mono [OF apple_ops.enable_ctrl_result], elim exE conjE)
    fix r w2 new2
    assume 2: "hist w2 = hist w1 @ new2" "enables H mmio_nvme r new2 (drv w1) (drv w2)"
    let ?cc = "enable_config H (snd (snd (hd new2)))"
    from 2(2) have ne: "new2 \<noteq> []" by (simp add: enables_def Let_def)
    have l: "last_read (new1 @ new2) reg s = last_read new2 reg s" for reg s using ne by (simp add: last_read_def)
    show "\<exists>new writes. hist w2 = hist w @ new \<and> bus_writes (reqs new) = setup_writes H (drv w) @ writes
        \<and> (writes = [] \<and> r = Some (- ENODEV)
           \<or> (\<exists>cc. writes = [Writel (mmio_nvme, NVME_REG_CC H) cc, Writel (mmio_nvme, NVME_REG_CC H) (cc OR NVME_CC_ENABLE H)]
               \<and> (r = Some 0 \<longrightarrow> (\<exists>s. last_read new (mmio_nvme, NVME_REG_CSTS H) s \<and> s AND NVME_CSTS_RDY H = NVME_CSTS_RDY H))))"
      using 1 2
      by (intro exI [of _ "new1 @ new2"] exI [of _ "bus_writes (reqs new2)"])
        (auto simp: enables_def Let_def l split: if_splits)
  qed
qed

section \<open>A reset ends\<close>

text \<open>\<open>n\<close> sleeps outlast every timeout the code can compute, a number of ticks in 32 bits.\<close>

definition clock_outlasts :: "nvme_env \<Rightarrow> nat \<Rightarrow> bool" where
  "clock_outlasts E n \<longleftrightarrow> 0 < n \<and> (\<forall>h t. sleeps_outlast E h n (ucast (t :: u32)))"

lemma clock_waits_end: "clock_outlasts E n \<Longrightarrow> waits_end E H n anv"
  by (simp add: clock_outlasts_def waits_end_def)

named_theorems ends_intros \<open>how a program of waits is shown to end\<close>

definition ends :: "(nvme_req, nvme_resp, 'd, 'a option) prog \<Rightarrow> bool" where
  "ends m \<longleftrightarrow> (\<forall>w. wp m (\<lambda>r _. r \<noteq> None) w)"

lemma ends_wp: "ends m \<Longrightarrow> wp m (\<lambda>r _. r \<noteq> None) w"
  by (simp add: ends_def)

lemma ends_return [ends_intros]: "ends (return (Some x))"
  by (simp add: ends_def wp_simps)

lemma ends_if [ends_intros]: "ends m \<Longrightarrow> ends k \<Longrightarrow> ends (if b then m else k)"
  by simp

lemma ends_case_prod [ends_intros]: "(\<And>a b. ends (k a b)) \<Longrightarrow> ends (case x of (a, b) \<Rightarrow> k a b)"
  by (cases x) simp

lemma ends_wait [ends_intros]:
  fixes m :: "('d, 'a option) nvme"
  assumes "ends m" and "\<And>y. ends (k y)"
  shows "ends (State_Monad.bind m (\<lambda>r. case r of None \<Rightarrow> return None | Some y \<Rightarrow> k y))"
  unfolding ends_def
proof (intro allI wp_bindI wp_mono [OF ends_wp [OF assms(1)]])
  fix r :: "'a option" and w
  assume "r \<noteq> None"
  then obtain y where "r = Some y" by blast
  then show "wp (case r of None \<Rightarrow> return None | Some y \<Rightarrow> k y) (\<lambda>r _. r \<noteq> None) w"
    using ends_wp [OF assms(2)] by simp
qed

lemma ends_bind:
  assumes "\<And>a. ends (k a)"
  shows "ends (State_Monad.bind m k)"
  unfolding ends_def wp_bind
  by (intro allI wpI ends_wp assms)

context nvme_ctrl_reg_ops
begin

lemma enable_ctrl_ends:
  assumes "\<And>h t. sleeps_outlast E h n (ucast (t :: u32))" and "0 < n"
  shows "wp (nvme_enable_ctrl n E K ops) (\<lambda>r _. r \<noteq> None) w"
  unfolding nvme_enable_ctrl_def enable_timeout_def
  by (intro wp_intros wait_ready_ends assms) simp_all

end

lemma ends_disable [ends_intros]: "clock_outlasts E n \<Longrightarrow> ends (apple_nvme_disable n E H shutdown)"
  unfolding ends_def by (intro allI disable_ends clock_waits_end)

lemma ends_enable [ends_intros]: "clock_outlasts E n \<Longrightarrow> ends (nvme_enable_ctrl n E H (apple_ctrl_ops E))"
  unfolding ends_def clock_outlasts_def by (intro allI apple_ops.enable_ctrl_ends) blast+

lemma ends_reset_out [ends_intros]:
  assumes "clock_outlasts E n"
  shows "ends (reset_out n E H)" "ends (reset_out_remove_cq n E H)" "ends (reset_out_remove_sq n E H)"
proof -
  show o: "ends (reset_out n E H)" unfolding reset_out_def by (intro ends_intros ends_bind assms)
  show c: "ends (reset_out_remove_cq n E H)" unfolding reset_out_remove_cq_def by (intro ends_bind o)
  show "ends (reset_out_remove_sq n E H)" unfolding reset_out_remove_sq_def by (intro ends_bind c)
qed

lemma ends_reset_stop [ends_intros]: "clock_outlasts E n \<Longrightarrow> ends (reset_stop_rtkit n E H)"
  unfolding reset_stop_rtkit_def by (intro ends_intros ends_bind)

lemma ends_reset_io [ends_intros]: "clock_outlasts E n \<Longrightarrow> ends (reset_io n E H)"
  unfolding reset_io_def by (intro ends_intros ends_bind)

lemma ends_reset_enable [ends_intros]: "clock_outlasts E n \<Longrightarrow> ends (reset_enable n E H)"
  unfolding reset_enable_def by (intro ends_intros ends_bind)

lemma ends_reset_work [ends_intros]: "clock_outlasts E n \<Longrightarrow> ends (apple_nvme_reset_work n E H)"
  unfolding apple_nvme_reset_work_def by (intro ends_intros ends_bind)

lemma ends_timeout [ends_intros]: "clock_outlasts E n \<Longrightarrow> ends (apple_nvme_timeout n E H rq)"
  unfolding apple_nvme_timeout_def Let_def by (intro ends_intros ends_bind)

section \<open>Timeouts\<close>

lemma handle_cq_life:
  assumes "batch_law E H"
  shows "wp (apple_nvme_handle_cq E H a force) (\<lambda>_ w'. life (drv w') = life (drv w)) w"
  by (rule keeps_wp [OF keeps_handle_cq [OF assms]]) simp_all

text \<open>A reset that is granted: the state machine has moved and the work is queued.\<close>

lemma reset_granted:
  assumes "ctrl_state (drv w) = NVME_CTRL_LIVE"
  shows "wp (nvme_reset_ctrl E) (\<lambda>_ w'. ctrl_state (drv w') = NVME_CTRL_RESETTING
     \<and> ioq (drv w') = ioq (drv w) \<and> adminq (drv w') = adminq (drv w) \<and> fst (last (hist w')) = Core (QueueWork reset_work)) w"
  unfolding nvme_reset_ctrl_def
  apply (intro wp_bindI wp_nvme_change_ctrl_state)
  using assms
  apply (auto simp: ctrl_state_change_def enter_state_def intro!: wp_intros)
  done

text \<open>The ways a timeout of a live controller ends: the completion was only missed, or the controller resets.\<close>

definition timed_out :: "nat \<Rightarrow> (nvme_req, nvme_resp, apple_nvme) world \<Rightarrow> bool" where
  "timed_out rq w \<longleftrightarrow>
     ctrl_state (drv w) = NVME_CTRL_LIVE \<and> fst (last (hist w)) = Io (RequestCompleted rq) \<and> fst (snd (last (hist w))) \<noteq> 0
     \<or> ctrl_state (drv w) = NVME_CTRL_RESETTING \<and> \<not> enabled (ioq (drv w)) \<and> \<not> enabled (adminq (drv w))
       \<and> fst (last (hist w)) = Core (QueueWork reset_work)"

lemma timeout_reset_run:
  assumes "batch_law E H" and "ctrl_state (drv w) = NVME_CTRL_LIVE"
  shows "wp (apple_nvme_disable n E H False) (\<lambda>r. wp (case r of None \<Rightarrow> return None
     | Some _ \<Rightarrow> do { nvme_reset_ctrl E; return (Some ()) }) (\<lambda>r w'. r \<noteq> None \<longrightarrow> timed_out rq w')) w"
proof (rule wp_mono [OF disable_run [OF assms(1)]], elim conjE, rule wp_case_optionI)
  fix r and v :: "(nvme_req, nvme_resp, apple_nvme) world"
  assume "r = None"
  show "wp (return None) (\<lambda>r w'. r \<noteq> None \<longrightarrow> timed_out rq w') v" by (simp add: wp_simps)
next
  fix r y and v :: "(nvme_req, nvme_resp, apple_nvme) world"
  assume v: "core_life (drv v) = core_life (drv w)" "r = Some y"
    "r \<noteq> None \<longrightarrow> disable_done False (drv w) (drv v) \<and> (\<exists>new. hist v = hist w @ new \<and> cancels (reqs new) = cancelled (drv w))"
  then have "ctrl_state (drv v) = NVME_CTRL_LIVE" using assms(2) by (simp add: core_life_def)
  then show "wp (do { nvme_reset_ctrl E; return (Some ()) }) (\<lambda>r w'. r \<noteq> None \<longrightarrow> timed_out rq w') v"
    by (intro wp_bindI wp_mono [OF reset_granted] wp_returnI) (use v in \<open>auto simp: timed_out_def disable_done_def\<close>)
qed

lemma timeout_poll_run:
  assumes "batch_law E H" and "ctrl_state (drv w) = NVME_CTRL_LIVE"
  shows "wp (if b then do {
           exec E (Io SpinLock);
           apple_nvme_handle_cq E H a False;
           exec E (Io SpinUnlock);
           (completed, _) \<leftarrow> call E (Io (RequestCompleted rq));
           return (completed \<noteq> 0)
         } else return False) (\<lambda>polled w'. ctrl_state (drv w') = NVME_CTRL_LIVE \<and> (polled \<longrightarrow> timed_out rq w')) w"
  apply (intro wp_ifI wp_bindI wp_steps wp_mono [OF handle_cq_life [OF assms(1)]])
   apply (use assms(2) in \<open>auto simp: life_def timed_out_def wp_simps\<close>)
  done

lemma timeout_live_run:
  assumes "batch_law E H" and "ctrl_state (drv w) = NVME_CTRL_LIVE"
  shows "wp (apple_nvme_timeout n E H rq) (\<lambda>r w'. r \<noteq> None \<longrightarrow> timed_out rq w') w"
  unfolding apple_nvme_timeout_def
  apply (intro wp_bindI wp_getdI wp_letI wp_call_step wp_case_prodI)
  apply (rule wp_ifI, simp add: assms(2))
  apply (intro wp_bindI wp_call_step wp_case_prodI)
  apply (rule wp_mono [OF timeout_poll_run [OF assms(1)]])
   apply (simp add: assms(2))
  apply (intro wp_ifI wp_returnI wp_bindI wp_exec_step timeout_reset_run [OF assms(1)])
   apply simp_all
  done

lemma timeout_idle_run:
  assumes "ctrl_state (drv w) \<noteq> NVME_CTRL_LIVE"
  shows "wp (apple_nvme_timeout n E H rq) (\<lambda>_ w'. drv w' = drv w) w"
  unfolding apple_nvme_timeout_def
  apply (intro wp_bindI wp_getdI wp_letI wp_call_step wp_case_prodI wp_ifI wp_whenI wp_exec_step wp_returnI)
      apply (use assms in simp_all)
  done

section \<open>Properties\<close>

text \<open>C3. Disabling always ends, whatever the controller answers, once the fuel outlasts its timeouts. After it
  both queues are disabled, the admin queue is quiesced unless the device shuts down, and so are the I/O queues;
  every tag set has been cancelled exactly once, the I/O tags first; the state of the controller is as before.\<close>

theorem disable_ends_quiet:
  assumes "batch_law E H" and "waits_end E H n (drv w)"
    and "run_state (apple_nvme_disable n E H shutdown) w = (r, w')"
  shows "r = Some () \<and> ctrl_state (drv w') = ctrl_state (drv w)
     \<and> \<not> enabled (ioq (drv w')) \<and> \<not> enabled (adminq (drv w')) \<and> admin_q_stopped (drv w') = (\<not> shutdown)
     \<and> (has_tagset (drv w) \<longrightarrow> stopped (drv w') = (\<not> shutdown))
     \<and> (\<exists>new. hist w' = hist w @ new \<and> cancels (reqs new) = cancelled (drv w))"
proof -
  from wpD [OF disable_ends [OF assms(2)] assms(3)] have r: "r = Some ()" by auto
  from wpD [OF disable_run [OF assms(1)] assms(3)] show ?thesis
    by (simp add: r disable_done_def core_life_def)
qed


text \<open>Setting the controller up and enabling it is one sequence of register writes: the pending-command
  limit and the number of TCBs (on controllers with an NVMMU), the admin queue's depth and addresses, both TCB
  tables, then the configuration word without and with its enable bit. Nothing else is written. Success is
  reported only after the status register was last read with the ready bit set; a controller whose minimum page
  size is too large is refused with no configuration written.\<close>

theorem setup_enable_protocol:
  assumes "run_state (do { reset_setup E H; nvme_enable_ctrl n E H (apple_ctrl_ops E) }) w = (r, w')"
  shows "\<exists>new writes. hist w' = hist w @ new \<and> bus_writes (reqs new) = setup_writes H (drv w) @ writes
        \<and> (writes = [] \<and> r = Some (- ENODEV)
           \<or> (\<exists>cc. writes = [Writel (mmio_nvme, NVME_REG_CC H) cc, Writel (mmio_nvme, NVME_REG_CC H) (cc OR NVME_CC_ENABLE H)]
               \<and> (r = Some 0 \<longrightarrow> (\<exists>s. last_read new (mmio_nvme, NVME_REG_CSTS H) s \<and> s AND NVME_CSTS_RDY H = NVME_CSTS_RDY H))))"
  by (rule wpD [OF setup_enable_run assms])

text \<open>C20. The timeout handler always ends. On a live controller either the completion had only been missed, and the
  controller stays live, or both queues are disabled, the controller is resetting and its reset work is queued. On
  a controller that is not live the handler changes nothing of the device.\<close>

theorem timeout_recovers:
  assumes "batch_law E H" and "clock_outlasts E n"
    and "run_state (apple_nvme_timeout n E H rq) w = (r, w')"
  shows "r = Some () \<and> (if ctrl_state (drv w) = NVME_CTRL_LIVE then timed_out rq w' else drv w' = drv w)"
proof -
  from wpD [OF ends_wp [OF ends_timeout [OF assms(2)]] assms(3)] have r: "r = Some ()" by auto
  show ?thesis
    using wpD [OF timeout_live_run [OF assms(1)] assms(3)] wpD [OF timeout_idle_run assms(3)] r by auto
qed

section \<open>Witnesses\<close>

text \<open>A controller that answers nothing, and a clock that a sleep advances by a tick.\<close>

definition E_clk :: nvme_env where
  "E_clk h q = (case q of Core r \<Rightarrow> (case r of Jiffies \<Rightarrow> (0, of_nat (sleeps h)) | _ \<Rightarrow> (0, 0)) | _ \<Rightarrow> (0, 0))"

lemma E_clk_outlasts: "clock_outlasts E_clk (2 ^ 32)"
proof -
  have "sint (ucast t - 2 ^ 32 :: u64) < 0" for t :: u32
  proof -
    have b: "0 \<le> uint t" "uint t < 2 ^ 32" using unsigned_less [of t, where ?'a = int] by simp_all
    have e: "(ucast t - 2 ^ 32 :: u64) = word_of_int (uint t - 2 ^ 32)" by simp
    have "sint (word_of_int (uint t - 2 ^ 32) :: u64) = uint t - 2 ^ 32"
      unfolding sint_sbintrunc' using b by (simp add: signed_take_bit_int_eq_self_iff)
    then show ?thesis unfolding e using b by simp
  qed
  then show ?thesis
    by (auto simp: clock_outlasts_def sleeps_outlast_def time_after_def E_clk_def algebra_simps)
qed

definition w_reset :: "(nvme_req, nvme_resp, apple_nvme) world" where
  "w_reset = \<lparr>hist = [], drv = (anv0 hw0)\<lparr>ctrl_state := NVME_CTRL_RESETTING\<rparr>\<rparr>"

lemma w_states: "ctrl_state (drv w_reset) = NVME_CTRL_RESETTING" "ctrl_state (drv (anv_w hw0)) = NVME_CTRL_LIVE"
  "has_tagset (drv (anv_w hw0))" "cancelled (drv (anv_w hw0)) = [False, True]"
  by (simp_all add: w_reset_def anv_w_def anv0_def cancelled_def)

theorem disable_ends_quiet_witness:
  "\<exists>w'. run_state (apple_nvme_disable (2 ^ 32) E_clk (H0 E_clk) False) (anv_w hw0) = (Some (), w')
     \<and> ctrl_state (drv w') = NVME_CTRL_LIVE \<and> \<not> enabled (ioq (drv w')) \<and> stopped (drv w')
     \<and> cancels (reqs (hist w')) = [False, True]"
proof -
  obtain r w' where run: "run_state (apple_nvme_disable (2 ^ 32) E_clk (H0 E_clk) False) (anv_w hw0) = (r, w')" by fastforce
  have "hist (anv_w hw0) = []" by (simp add: anv_w_def)
  with disable_ends_quiet [OF H0_batch clock_waits_end [OF E_clk_outlasts] run] run show ?thesis
    by (auto simp: w_states)
qed


theorem setup_enable_protocol_witness:
  "\<exists>r w' writes. run_state (do { reset_setup E_clk (H0 E_clk); nvme_enable_ctrl 3 E_clk (H0 E_clk) (apple_ctrl_ops E_clk) }) (anv_w hw0) = (r, w')
     \<and> bus_writes (reqs (hist w')) = setup_writes (H0 E_clk) (drv (anv_w hw0)) @ writes \<and> length writes \<le> 2"
proof -
  obtain r w' where run: "run_state (do { reset_setup E_clk (H0 E_clk); nvme_enable_ctrl 3 E_clk (H0 E_clk) (apple_ctrl_ops E_clk) }) (anv_w hw0) = (r, w')"
    by fastforce
  from setup_enable_protocol [OF run] obtain writes where
    "bus_writes (reqs (hist w')) = setup_writes (H0 E_clk) (drv (anv_w hw0)) @ writes" "length writes \<le> 2"
    by (auto simp: anv_w_def)
  with run show ?thesis by blast
qed

theorem timeout_recovers_witness:
  "\<exists>w'. run_state (apple_nvme_timeout (2 ^ 32) E_clk (H0 E_clk) 5) (anv_w hw0) = (Some (), w') \<and> timed_out 5 w'"
proof -
  obtain r w' where run: "run_state (apple_nvme_timeout (2 ^ 32) E_clk (H0 E_clk) 5) (anv_w hw0) = (r, w')" by fastforce
  from timeout_recovers [OF H0_batch E_clk_outlasts run] run show ?thesis by (auto simp: w_states)
qed

end
