(* ===== verification/Nvme_Probe.thy ===== *)
theory Nvme_Probe
  imports Nvme_Driver
begin

text \<open>
  Allocation, probe, removal and power management of the ANS NVMe device,
  \<open>local-source/drivers/nvme/host/apple.c\<close>, with every error exit.

  The device-managed allocations, the power domains and the device model are requests: a pointer is the
  number in a response, 0 for \<open>NULL\<close> and a negative number for \<open>ERR_PTR\<close>. A function that can dereference a
  null pointer or wait has a \<open>run_result\<close>: it returns, it faults, or its wait has not ended within the fuel.

  Proved: the tags of the two queues are disjoint and index the memory allocated for them; a probe that fails
  puts the device and its power domains back; removing the device ends with both queues off, the
  coprocessor stopped and the domains detached.
\<close>

section \<open>Tag sets and queue memory\<close>

datatype 'a run_result = Ret 'a | Oops | Unfinished

definition IS_ERR :: "int \<Rightarrow> bool" where
  "IS_ERR p \<longleftrightarrow> - 4095 \<le> p \<and> p < 0"

definition IS_ERR_OR_NULL :: "int \<Rightarrow> bool" where
  "IS_ERR_OR_NULL p \<longleftrightarrow> p = 0 \<or> IS_ERR p"

text \<open>\<open>ret = m; if (ret) goto put_dev;\<close> and then \<open>k\<close>.\<close>

definition and_then :: "int anv \<Rightarrow> int anv \<Rightarrow> int anv" where
  "and_then m k = do { ret \<leftarrow> m; if ret \<noteq> 0 then return ret else k }"

definition alloc_admin_tagset :: "nvme_env \<Rightarrow> int anv" where
  "alloc_admin_tagset E = do {
     modd (\<lambda>anv. anv\<lparr>admin_tagset := \<lparr>ts_queue_depth = APPLE_NVME_AQ_MQ_TAG_DEPTH, ts_reserved_tags = 0, ts_poll = False\<rparr>\<rparr>);
     (ret, _) \<leftarrow> call E (Dev (AllocTagSet True));
     if ret \<noteq> 0 then return ret
     else do {
       (ret, _) \<leftarrow> call E (Dev (FreeTagSetAction True));
       return ret
     }
   }"

definition alloc_io_tagset :: "nvme_env \<Rightarrow> int anv" where
  "alloc_io_tagset E = do {
     anv \<leftarrow> getd;
     modd (\<lambda>anv. anv\<lparr>tagset := \<lparr>ts_queue_depth = max_queue_depth (hw anv) - 1,
       ts_reserved_tags = (if has_lsq_nvmmu (hw anv) then APPLE_NVME_AQ_DEPTH else 0), ts_poll = True\<rparr>\<rparr>);
     (ret, _) \<leftarrow> call E (Dev (AllocTagSet False));
     if ret \<noteq> 0 then return ret
     else do {
       (ret, _) \<leftarrow> call E (Dev (FreeTagSetAction False));
       return ret
     }
   }"

definition apple_nvme_alloc_tagsets :: "nvme_env \<Rightarrow> int anv" where
  "apple_nvme_alloc_tagsets E = and_then (alloc_admin_tagset E) (and_then (alloc_io_tagset E) (do {
     modd (\<lambda>anv. anv\<lparr>has_admin_tagset := True, has_tagset := True\<rparr>);
     return 0
   }))"

definition apple_nvme_queue_alloc :: "nvme_env \<Rightarrow> ('x) nvme_hdr_scheme \<Rightarrow> bool \<Rightarrow> int anv" where
  "apple_nvme_queue_alloc E H is_adminq = do {
     anv \<leftarrow> getd;
     let depth = apple_nvme_queue_depth is_adminq (hw anv);
     (p, dma) \<leftarrow> call E (Dev (DmamAlloc (depth * sizeof_nvme_completion H)));
     if p = 0 then return (- ENOMEM)
     else do {
       modd (upd_queue is_adminq (\<lambda>q. q\<lparr>cqes := (\<lambda>_. zero_cqe), cq_dma_addr := dma\<rparr>));
       (p, dma) \<leftarrow> call E (Dev (DmamAlloc (if has_lsq_nvmmu (hw anv) then depth * 64 else push_bit APPLE_NVME_IOSQES depth)));
       if p = 0 then return (- ENOMEM)
       else do {
         modd (upd_queue is_adminq (\<lambda>q. q\<lparr>sq_dma_addr := dma\<rparr>));
         and_then
           (if has_lsq_nvmmu (hw anv) then do {
              (p, dma) \<leftarrow> call E (Dev (DmamAlloc (max_queue_depth (hw anv) * 128)));
              if p = 0 then return (- ENOMEM)
              else do {
                modd (upd_queue is_adminq (\<lambda>q. q\<lparr>tcbs := (\<lambda>_. zero_tcb), tcb_dma_addr := dma\<rparr>));
                return 0
              }
            } else return 0)
           (do {
              modd (upd_queue is_adminq (\<lambda>q. q\<lparr>cq_phase := 1\<rparr>));
              return 0
            })
       }
     }
   }"

section \<open>Power domains\<close>

fun detach_domains :: "nvme_env \<Rightarrow> (nat \<Rightarrow> int) \<Rightarrow> (nat \<Rightarrow> int) \<Rightarrow> nat \<Rightarrow> unit anv" where
  "detach_domains E links devs 0 = return ()"
| "detach_domains E links devs (Suc i) = do {
     whenM (links i \<noteq> 0) (exec E (Dev (LinkDel i)));
     whenM (\<not> IS_ERR_OR_NULL (devs i)) (exec E (Dev (DomainDetach i)));
     detach_domains E links devs i
   }"

definition apple_nvme_detach_genpd :: "nvme_env \<Rightarrow> unit run_result anv" where
  "apple_nvme_detach_genpd E = do {
     anv \<leftarrow> getd;
     if pd_count anv \<le> 1 then return (Ret ())
     else case pd_link anv of
       None \<Rightarrow> return Oops
     | Some links \<Rightarrow> (case pd_dev anv of
         None \<Rightarrow> return Oops
       | Some devs \<Rightarrow> do { detach_domains E links devs (nat (pd_count anv)); return (Ret ()) })
   }"

text \<open>The result of \<open>attach_genpd\<close>, or of the fault of the \<open>detach_genpd\<close> it calls.\<close>

definition detach_and :: "nvme_env \<Rightarrow> int \<Rightarrow> int run_result anv" where
  "detach_and E ret = do {
     d \<leftarrow> apple_nvme_detach_genpd E;
     return (case d of Ret _ \<Rightarrow> Ret ret | Oops \<Rightarrow> Oops | Unfinished \<Rightarrow> Unfinished)
   }"

fun attach_domains :: "nvme_env \<Rightarrow> nat \<Rightarrow> nat \<Rightarrow> int run_result anv" where
  "attach_domains E i 0 = return (Ret 0)"
| "attach_domains E i (Suc k) = do {
     (p, _) \<leftarrow> call E (Dev (DomainAttach i));
     modd (\<lambda>anv. anv\<lparr>pd_dev := map_option (\<lambda>devs. devs(i := p)) (pd_dev anv)\<rparr>);
     if IS_ERR p then detach_and E p
     else do {
       (l, _) \<leftarrow> call E (Dev (LinkAdd i));
       modd (\<lambda>anv. anv\<lparr>pd_link := map_option (\<lambda>links. links(i := l)) (pd_link anv)\<rparr>);
       if l = 0 then detach_and E (- EINVAL)
       else attach_domains E (Suc i) k
     }
   }"

definition apple_nvme_attach_genpd :: "nvme_env \<Rightarrow> int run_result anv" where
  "apple_nvme_attach_genpd E = do {
     (n, _) \<leftarrow> call E (Dev CountPowerDomains);
     modd (\<lambda>anv. anv\<lparr>pd_count := n\<rparr>);
     if n \<le> 1 then return (Ret 0)
     else do {
       (p, _) \<leftarrow> call E (Dev DevmKcalloc);
       if p = 0 then return (Ret (- ENOMEM))
       else do {
         modd (\<lambda>anv. anv\<lparr>pd_dev := Some (\<lambda>_. 0)\<rparr>);
         (p, _) \<leftarrow> call E (Dev DevmKcalloc);
         if p = 0 then return (Ret (- ENOMEM))
         else do {
           modd (\<lambda>anv. anv\<lparr>pd_link := Some (\<lambda>_. 0)\<rparr>);
           attach_domains E 0 (nat n)
         }
       }
     }
   }"

section \<open>Allocation\<close>

text \<open>What the kernel's headers and the command line give: the page size, the size of a scatter list entry,
  the module parameter \<open>flush_interval\<close> in milliseconds and the conversion of milliseconds into ticks.\<close>

record anv_params =
  PAGE_SIZE :: int
  sizeof_scatterlist :: int
  flush_interval_ms :: u32
  msecs_to_jiffies :: "u32 \<Rightarrow> u64"

text \<open>The zeroed structure of \<open>devm_kzalloc\<close>.\<close>

definition zero_cmd :: nvme_command where
  "zero_cmd = \<lparr>opcode = 0, command_id = 0, dptr_prp1 = 0, dptr_prp2 = 0, rw_length = 0, cmd_rest = []\<rparr>"

definition zero_queue :: apple_nvme_queue where
  "zero_queue = \<lparr>sqes = (\<lambda>_. zero_cmd), cqes = (\<lambda>_. zero_cqe), tcbs = (\<lambda>_. zero_tcb), sq_dma_addr = 0, cq_dma_addr = 0,
     tcb_dma_addr = 0, sq_db = (mmio_nvme, 0), cq_db = (mmio_nvme, 0), sq_tail = 0, cq_head = 0, cq_phase = 0, enabled = False\<rparr>"

definition zero_anv :: "(nat \<Rightarrow> apple_nvme_iod) \<Rightarrow> (nat \<Rightarrow> blk_rq) \<Rightarrow> apple_nvme" where
  "zero_anv iodm rqm = \<lparr>ctrl_state = NVME_CTRL_NEW, nr_reset = 0, failfast_expired = False, stopped = False,
     admin_q_stopped = False, frozen = False, opts = None, ctrl_config = 0, cap = 0,
     shutdown_timeout = 0, delay_before_chk_rdy = False, has_tagset = False, has_admin_tagset = False,
     namespaces = [], io_timeout = 0, max_hw_sectors = 0, max_segments = 0, sqsize = 0,
     queue_count = 0, has_admin_q = False,
     hw = \<lparr>has_lsq_nvmmu = False, need_ioq_register = False, separate_nvmmu_region = False, max_queue_depth = 0\<rparr>,
     nvmmu = mmio_nvme, adminq = zero_queue, ioq = zero_queue, iods = iodm, rqs = rqm,
     admin_tagset = \<lparr>ts_queue_depth = 0, ts_reserved_tags = 0, ts_poll = False\<rparr>,
     tagset = \<lparr>ts_queue_depth = 0, ts_reserved_tags = 0, ts_poll = False\<rparr>,
     flush_ns = 0, flush_interval = 0, last_flush = 0, pd_count = 0, pd_dev = None, pd_link = None, anv_irq = 0\<rparr>"

text \<open>\<open>of_device_get_match_data\<close> answers with the entry of the match table, or outside it when none matches.\<close>

definition alloc_match :: "nvme_env \<Rightarrow> int anv" where
  "alloc_match E = do {
     (i, _) \<leftarrow> call E (Dev OfMatchData);
     if i < 0 \<or> length apple_nvme_of_match \<le> nat i then return (- ENODEV)
     else do {
       modd (\<lambda>anv. anv\<lparr>hw := snd (apple_nvme_of_match ! nat i)\<rparr>);
       return 0
     }
   }"

definition ioremap_byname :: "nvme_env \<Rightarrow> string \<Rightarrow> int anv" where
  "ioremap_byname E name = do {
     (p, _) \<leftarrow> call E (Dev (IoremapByname name));
     return (if IS_ERR p then p else 0)
   }"

definition alloc_irq :: "nvme_env \<Rightarrow> int anv" where
  "alloc_irq E = do {
     (bad, _) \<leftarrow> call E (Dev DmaSetMask);
     if bad \<noteq> 0 then return (- ENXIO)
     else do {
       (irq, _) \<leftarrow> call E (Dev PlatformGetIrq);
       modd (\<lambda>anv. anv\<lparr>anv_irq := irq\<rparr>);
       return (if irq < 0 then irq else if irq = 0 then - ENXIO else 0)
     }
   }"

definition set_doorbells :: "('x) nvme_hdr_scheme \<Rightarrow> apple_nvme \<Rightarrow> apple_nvme" where
  "set_doorbells H anv =
     (if has_lsq_nvmmu (hw anv) then
        anv\<lparr>adminq := (adminq anv)\<lparr>sq_db := (nvmmu anv, APPLE_ANS_LINEAR_ASQ_DB), cq_db := (mmio_nvme, APPLE_ANS_ACQ_DB)\<rparr>,
            ioq := (ioq anv)\<lparr>sq_db := (nvmmu anv, APPLE_ANS_LINEAR_IOSQ_DB), cq_db := (mmio_nvme, APPLE_ANS_IOCQ_DB)\<rparr>\<rparr>
      else
        anv\<lparr>adminq := (adminq anv)\<lparr>sq_db := (mmio_nvme, NVME_REG_DBS H), cq_db := (mmio_nvme, APPLE_ANS_ACQ_DB)\<rparr>,
            ioq := (ioq anv)\<lparr>sq_db := (mmio_nvme, NVME_REG_DBS H + 8), cq_db := (mmio_nvme, APPLE_ANS_IOCQ_DB)\<rparr>\<rparr>)"

definition alloc_map :: "nvme_env \<Rightarrow> ('x) nvme_hdr_scheme \<Rightarrow> int anv" where
  "alloc_map E H = and_then (ioremap_byname E ''ans'') (and_then (ioremap_byname E ''nvme'') (do {
     anv \<leftarrow> getd;
     and_then
       (if separate_nvmmu_region (hw anv) then and_then (ioremap_byname E ''nvmmu'') (do {
          modd (\<lambda>anv. anv\<lparr>nvmmu := mmio_nvmmu\<rparr>);
          return 0
        })
        else do { modd (\<lambda>anv. anv\<lparr>nvmmu := mmio_nvme\<rparr>); return 0 })
       (do { modd (set_doorbells H); return 0 })
   }))"

definition err_of :: "nvme_env \<Rightarrow> dev_req \<Rightarrow> int anv" where
  "err_of E q = do { (p, _) \<leftarrow> call E (Dev q); return (if IS_ERR p then p else 0) }"

definition null_of :: "nvme_env \<Rightarrow> dev_req \<Rightarrow> int anv" where
  "null_of E q = do { (p, _) \<leftarrow> call E (Dev q); return (if p = 0 then - ENOMEM else 0) }"

definition ret_of :: "nvme_env \<Rightarrow> dev_req \<Rightarrow> int anv" where
  "ret_of E q = do { (ret, _) \<leftarrow> call E (Dev q); return ret }"

definition alloc_pools :: "nvme_env \<Rightarrow> ('x) nvme_hdr_scheme \<Rightarrow> anv_params \<Rightarrow> int anv" where
  "alloc_pools E H P = and_then (null_of E (PoolCreate (2 ^ NVME_CTRL_PAGE_SHIFT H))) (and_then (null_of E (PoolCreate 256))
     (and_then (null_of E (MempoolCreate (apple_nvme_iod_alloc_size (NVME_CTRL_PAGE_SHIFT H) (PAGE_SIZE P) (sizeof_scatterlist P)))) (ret_of E MempoolDestroyAction)))"

text \<open>Everything between the power domains and the return of \<open>anv\<close>.\<close>

definition alloc_rest :: "nvme_env \<Rightarrow> ('x) nvme_hdr_scheme \<Rightarrow> anv_params \<Rightarrow> int anv" where
  "alloc_rest E H P = and_then (alloc_irq E) (and_then (alloc_map E H) (and_then (err_of E SartGet) (and_then (err_of E ResetGet) (do {
     exec E (Dev InitWorks);
     and_then (apple_nvme_queue_alloc E H True) (and_then (apple_nvme_queue_alloc E H False) (and_then (alloc_pools E H P)
       (and_then (apple_nvme_alloc_tagsets E) (and_then (ret_of E RequestIrq) (and_then (err_of E RtkitInit) (ret_of E InitCtrl))))))
   }))))"

definition alloc_put_dev :: "nvme_env \<Rightarrow> int \<Rightarrow> int run_result anv" where
  "alloc_put_dev E ret = do {
     r \<leftarrow> detach_and E ret;
     (case r of Ret _ \<Rightarrow> exec E (Dev PutDevice) | _ \<Rightarrow> return ());
     return r
   }"

text \<open>The result is 0 for the new device and the error otherwise.\<close>

definition apple_nvme_alloc :: "nvme_env \<Rightarrow> ('x) nvme_hdr_scheme \<Rightarrow> anv_params \<Rightarrow> int run_result anv" where
  "apple_nvme_alloc E H P = do {
     (p, _) \<leftarrow> call E (Dev DevmKzalloc);
     if p = 0 then return (Ret (- ENOMEM))
     else do {
       modd (\<lambda>anv. zero_anv (iods anv) (rqs anv));
       exec E (Dev GetDevice);
       ret \<leftarrow> alloc_match E;
       if ret \<noteq> 0 then alloc_put_dev E ret
       else do {
         r \<leftarrow> apple_nvme_attach_genpd E;
         case r of
           Ret ret \<Rightarrow>
             if ret < 0 then alloc_put_dev E ret
             else do {
               ret \<leftarrow> alloc_rest E H P;
               if ret \<noteq> 0 then alloc_put_dev E ret else return (Ret 0)
             }
         | Oops \<Rightarrow> return Oops
         | Unfinished \<Rightarrow> return Unfinished
       }
     }
   }"

section \<open>Probe, removal and power management\<close>

definition probe_put_ctrl :: "nvme_env \<Rightarrow> int \<Rightarrow> int run_result anv" where
  "probe_put_ctrl E ret = do { exec E (Ans PutCtrl); detach_and E ret }"

text \<open>From the flush interval to the end, and from \<open>nvme_add_ctrl\<close> on.\<close>

definition probe_start :: "nvme_env \<Rightarrow> anv_params \<Rightarrow> int run_result anv" where
  "probe_start E P = do {
     whenM (flush_interval_ms P \<noteq> 0) (do {
       (_, now) \<leftarrow> call E (Core Jiffies);
       modd (\<lambda>anv. anv\<lparr>flush_interval := msecs_to_jiffies P (flush_interval_ms P), flush_ns := 0,
         last_flush := now - msecs_to_jiffies P (flush_interval_ms P)\<rparr>)
     });
     exec E (Dev InitFlushWork);
     nvme_reset_ctrl E;
     exec E (Dev AsyncSchedule);
     return (Ret 0)
   }"

definition probe_ctrl :: "nvme_env \<Rightarrow> anv_params \<Rightarrow> int run_result anv" where
  "probe_ctrl E P = do {
     (ret, _) \<leftarrow> call E (Dev AddCtrl);
     if ret \<noteq> 0 then probe_put_ctrl E ret
     else do {
       (q, _) \<leftarrow> call E (Dev AllocAdminQueue);
       modd (\<lambda>anv. anv\<lparr>has_admin_q := \<not> IS_ERR q\<rparr>);
       if IS_ERR q then do {
         exec E (Ans UninitCtrl);
         probe_put_ctrl E (- ENOMEM)
       } else probe_start E P
     }
   }"

definition apple_nvme_probe :: "nvme_env \<Rightarrow> ('x) nvme_hdr_scheme \<Rightarrow> anv_params \<Rightarrow> int run_result anv" where
  "apple_nvme_probe E H P = do {
     r \<leftarrow> apple_nvme_alloc E H P;
     case r of
       Ret ret \<Rightarrow> if ret \<noteq> 0 then return (Ret ret) else probe_ctrl E P
     | Oops \<Rightarrow> return Oops
     | Unfinished \<Rightarrow> return Unfinished
   }"

text \<open>Shut RTKit down if it runs and stop the coprocessor, whatever RTKit answers.\<close>

definition stop_rtkit :: "nvme_env \<Rightarrow> int anv" where
  "stop_rtkit E = do {
     (running, _) \<leftarrow> call E (Ans RtkitIsRunning);
     if running \<noteq> 0 then do {
       (ret, _) \<leftarrow> call E (Ans RtkitShutdown);
       exec E (Writel (mmio_coproc, APPLE_ANS_COPROC_CPU_CONTROL) 0);
       return ret
     } else return 0
   }"

definition apple_nvme_remove :: "nat \<Rightarrow> nvme_env \<Rightarrow> ('x) nvme_hdr_scheme \<Rightarrow> unit run_result anv" where
  "apple_nvme_remove n E H = do {
     nvme_change_ctrl_state E NVME_CTRL_DELETING;
     exec E (Core (FlushWork reset_work));
     exec E (Ans StopCtrl);
     exec E (Ans RemoveNamespaces);
     r \<leftarrow> apple_nvme_disable n E H True;
     case r of
       None \<Rightarrow> return Unfinished
     | Some _ \<Rightarrow> do {
         exec E (Ans UninitCtrl);
         stop_rtkit E;
         apple_nvme_detach_genpd E
       }
   }"

definition apple_nvme_shutdown :: "nat \<Rightarrow> nvme_env \<Rightarrow> ('x) nvme_hdr_scheme \<Rightarrow> unit option anv" where
  "apple_nvme_shutdown n E H = do {
     exec E (Ans FlushDelayedWork);
     r \<leftarrow> apple_nvme_disable n E H True;
     case r of
       None \<Rightarrow> return None
     | Some _ \<Rightarrow> do { stop_rtkit E; return (Some ()) }
   }"

definition apple_nvme_resume :: "nvme_env \<Rightarrow> int anv" where
  "apple_nvme_resume E = nvme_reset_ctrl E"

definition apple_nvme_suspend :: "nat \<Rightarrow> nvme_env \<Rightarrow> ('x) nvme_hdr_scheme \<Rightarrow> int option anv" where
  "apple_nvme_suspend n E H = do {
     r \<leftarrow> apple_nvme_disable n E H True;
     case r of
       None \<Rightarrow> return None
     | Some _ \<Rightarrow> do { ret \<leftarrow> stop_rtkit E; return (Some ret) }
   }"

definition apple_nvme_free_ctrl :: "nvme_env \<Rightarrow> unit anv" where
  "apple_nvme_free_ctrl E = exec E (Dev PutDevice)"

text \<open>\<open>snprintf\<close>: at most \<open>size - 1\<close> characters are stored, and the untruncated length is returned.\<close>

definition apple_nvme_get_address :: "string \<Rightarrow> nat \<Rightarrow> nat \<times> string" where
  "apple_nvme_get_address name n = (length name + 1, take (n - 1) (name @ [CHR 0x0A]))"

section \<open>Detaching\<close>

text \<open>What \<open>detach_genpd\<close> asks for and how it ends.\<close>

fun detach_reqs :: "(nat \<Rightarrow> int) \<Rightarrow> (nat \<Rightarrow> int) \<Rightarrow> nat \<Rightarrow> nvme_req list" where
  "detach_reqs links devs 0 = []"
| "detach_reqs links devs (Suc i) = (if links i \<noteq> 0 then [Dev (LinkDel i)] else [])
     @ (if \<not> IS_ERR_OR_NULL (devs i) then [Dev (DomainDetach i)] else []) @ detach_reqs links devs i"

definition detached :: "apple_nvme \<Rightarrow> nvme_req list" where
  "detached anv = (if pd_count anv \<le> 1 then [] else case pd_link anv of None \<Rightarrow> []
     | Some links \<Rightarrow> (case pd_dev anv of None \<Rightarrow> [] | Some devs \<Rightarrow> detach_reqs links devs (nat (pd_count anv))))"

definition detachable :: "apple_nvme \<Rightarrow> bool" where
  "detachable anv \<longleftrightarrow> pd_count anv \<le> 1 \<or> pd_link anv \<noteq> None \<and> pd_dev anv \<noteq> None"

lemma detach_reqs_iff: "Dev (DomainDetach i) \<in> set (detach_reqs links devs n) \<longleftrightarrow> i < n \<and> \<not> IS_ERR_OR_NULL (devs i)"
  by (induction n) (auto simp: less_Suc_eq)

lemma detach_domains_run:
  "wp (detach_domains E links devs n) (\<lambda>_ w'. drv w' = drv w \<and> (\<exists>new. hist w' = hist w @ new \<and> reqs new = detach_reqs links devs n)) w"
proof (induction n arbitrary: w)
  case 0
  show ?case by (simp add: wp_simps)
next
  case (Suc n)
  show ?case
    unfolding detach_domains.simps
    by (intro wp_bindI wp_when_execI wp_mono [OF Suc]) auto
qed

lemma detach_genpd_run:
  "wp (apple_nvme_detach_genpd E) (\<lambda>r w'. drv w' = drv w \<and> r = (if detachable (drv w) then Ret () else Oops)
     \<and> (\<exists>new. hist w' = hist w @ new \<and> reqs new = detached (drv w))) w"
  unfolding apple_nvme_detach_genpd_def
  by (intro wp_bindI wp_getdI wp_ifI wp_case_optionI wp_returnI wp_mono [OF detach_domains_run])
    (auto simp: detachable_def detached_def)

lemma detach_and_run:
  "wp (detach_and E ret) (\<lambda>r w'. drv w' = drv w \<and> r = (if detachable (drv w) then Ret ret else Oops)
     \<and> (\<exists>new. hist w' = hist w @ new \<and> reqs new = detached (drv w))) w"
  unfolding detach_and_def by (intro wp_bindI wp_mono [OF detach_genpd_run] wp_returnI) auto

section \<open>Attaching\<close>

text \<open>Requests that touch neither a power domain nor the reference to the device.\<close>

definition pd_free :: "nvme_req \<Rightarrow> bool" where
  "pd_free q = (case q of Dev r \<Rightarrow> (case r of GetDevice \<Rightarrow> False | PutDevice \<Rightarrow> False | DomainAttach _ \<Rightarrow> False
       | DomainDetach _ \<Rightarrow> False | LinkAdd _ \<Rightarrow> False | LinkDel _ \<Rightarrow> False | _ \<Rightarrow> True)
     | Ans PutCtrl \<Rightarrow> False | _ \<Rightarrow> True)"

definition ref_free :: "nvme_req \<Rightarrow> bool" where
  "ref_free q \<longleftrightarrow> q \<noteq> Dev GetDevice \<and> q \<noteq> Dev PutDevice \<and> q \<noteq> Ans PutCtrl"

definition is_detach :: "nvme_req \<Rightarrow> bool" where
  "is_detach q = (case q of Dev r \<Rightarrow> (case r of DomainDetach _ \<Rightarrow> True | LinkDel _ \<Rightarrow> True | _ \<Rightarrow> False) | _ \<Rightarrow> False)"

lemma pd_free_ref: "list_all pd_free qs \<Longrightarrow> list_all ref_free qs"
  by (induction qs) (auto simp: pd_free_def ref_free_def)

lemma pd_free_detach: "list_all pd_free qs \<Longrightarrow> list_all (\<lambda>q. \<not> is_detach q) qs"
  by (induction qs) (auto simp: pd_free_def is_detach_def split: nvme_req.splits dev_req.splits)

lemma detach_reqs_ref: "list_all ref_free (detach_reqs links devs n)"
  by (induction n) (auto simp: ref_free_def)

lemma detached_ref: "list_all ref_free (detached anv)"
  by (auto simp: detached_def detach_reqs_ref split: option.splits)

text \<open>The domains a history attached, with what the attach returned; they are in the device's table.\<close>

definition attaches :: "(nvme_req \<times> nvme_resp) list \<Rightarrow> (nat \<times> int) list" where
  "attaches h = concat (map (\<lambda>(q, v). case q of Dev r \<Rightarrow> (case r of DomainAttach i \<Rightarrow> [(i, fst v)] | _ \<Rightarrow> []) | _ \<Rightarrow> []) h)"

lemma attaches_simps [simp]:
  "attaches [] = []" "attaches (h @ k) = attaches h @ attaches k"
  "attaches ((q, v) # h) = (case q of Dev r \<Rightarrow> (case r of DomainAttach i \<Rightarrow> [(i, fst v)] | _ \<Rightarrow> []) | _ \<Rightarrow> []) @ attaches h"
  by (simp_all add: attaches_def)

definition recorded :: "(nat \<times> int) list \<Rightarrow> apple_nvme \<Rightarrow> bool" where
  "recorded ps anv \<longleftrightarrow> list_all (\<lambda>(i, p). 1 < pd_count anv \<and> i < nat (pd_count anv)
     \<and> (\<exists>devs. pd_dev anv = Some devs \<and> devs i = p)) ps"

lemma recorded_simps [simp]:
  "recorded [] anv" "recorded (ps @ qs) anv = (recorded ps anv \<and> recorded qs anv)"
  by (simp_all add: recorded_def)

definition no_attach :: "nvme_req \<Rightarrow> bool" where
  "no_attach q = (case q of Dev r \<Rightarrow> (case r of DomainAttach _ \<Rightarrow> False | _ \<Rightarrow> True) | _ \<Rightarrow> True)"

lemma attaches_none: "list_all no_attach (reqs h) \<Longrightarrow> attaches h = []"
  by (induction h) (auto simp: no_attach_def split: nvme_req.splits dev_req.splits)

lemma pd_free_no_attach: "list_all pd_free qs \<Longrightarrow> list_all no_attach qs"
  by (induction qs) (auto simp: pd_free_def no_attach_def split: nvme_req.splits dev_req.splits)

lemma detached_no_attach: "list_all no_attach (detached anv)"
proof -
  have "list_all no_attach (detach_reqs links devs n)" for links devs n by (induction n) (auto simp: no_attach_def)
  then show ?thesis by (simp add: detached_def split: option.splits)
qed

lemma recorded_detached:
  assumes "recorded ps anv" and "detachable anv" and "(i, p) \<in> set ps" and "\<not> IS_ERR_OR_NULL p"
  shows "Dev (DomainDetach i) \<in> set (detached anv)"
proof -
  from assms(1,3) obtain devs where "1 < pd_count anv" "i < nat (pd_count anv)" "pd_dev anv = Some devs" "devs i = p"
    by (auto simp: recorded_def list_all_iff)
  with assms(2,4) show ?thesis by (auto simp: detachable_def detached_def detach_reqs_iff)
qed

lemma recorded_attach:
  assumes "recorded ps anv" and "pd_dev anv = Some devs" and "1 < pd_count anv" and "i < nat (pd_count anv)"
    and "list_all (\<lambda>(j, _). j < i) ps"
  shows "recorded (ps @ [(i, p)]) (anv\<lparr>pd_dev := Some (devs(i := p))\<rparr>)"
  using assms by (auto simp: recorded_def list_all_iff)

text \<open>What attaching leaves, since the history \<open>h\<close>.\<close>

definition attach_post :: "(nvme_req \<times> nvme_resp) list \<Rightarrow> int run_result \<Rightarrow> (nvme_req, nvme_resp, apple_nvme) world \<Rightarrow> bool" where
  "attach_post h r w \<longleftrightarrow> (\<exists>new. hist w = h @ new \<and> recorded (attaches new) (drv w) \<and> list_all ref_free (reqs new)
     \<and> (r = Ret 0 \<longrightarrow> list_all (\<lambda>q. \<not> is_detach q) (reqs new) \<and> detachable (drv w)) \<and> (\<forall>ret. r = Ret ret \<longrightarrow> ret \<le> 0) \<and> r \<noteq> Unfinished)"

text \<open>Before domain \<open>i\<close> of the loop.\<close>

definition attaching :: "(nvme_req \<times> nvme_resp) list \<Rightarrow> nat \<Rightarrow> (nvme_req, nvme_resp, apple_nvme) world \<Rightarrow> bool" where
  "attaching h i w \<longleftrightarrow> (\<exists>new. hist w = h @ new \<and> recorded (attaches new) (drv w) \<and> list_all ref_free (reqs new)
     \<and> list_all (\<lambda>q. \<not> is_detach q) (reqs new) \<and> list_all (\<lambda>(j, _). j < i) (attaches new)
     \<and> 1 < pd_count (drv w) \<and> pd_dev (drv w) \<noteq> None \<and> pd_link (drv w) \<noteq> None)"

lemma attaching_failed:
  assumes "attaching h i w" and "ret < 0"
  shows "wp (detach_and E ret) (attach_post h) w"
proof (rule wp_mono [OF detach_and_run], elim conjE exE)
  fix r new' and w' :: "(nvme_req, nvme_resp, apple_nvme) world"
  assume w': "drv w' = drv w" "r = (if detachable (drv w) then Ret ret else Oops)" "hist w' = hist w @ new'" "reqs new' = detached (drv w)"
  from assms(1) obtain new where new: "hist w = h @ new" "recorded (attaches new) (drv w)" "list_all ref_free (reqs new)"
    by (auto simp: attaching_def)
  have "attaches new' = []" "list_all ref_free (reqs new')"
    using attaches_none [of new'] detached_no_attach detached_ref w'(4) by simp_all
  with new w' assms(2) show "attach_post h r w'" unfolding attach_post_def
    by (intro exI [of _ "new @ new'"]) auto
qed

lemma attaching_dev:
  assumes "attaching h i w" and "i < nat (pd_count (drv w))"
  shows "attaching h (Suc i) (w\<lparr>hist := hist w @ [(Dev (DomainAttach i), p, x)],
     drv := (drv w)\<lparr>pd_dev := map_option (\<lambda>devs. devs(i := p)) (pd_dev (drv w))\<rparr>\<rparr>)"
proof -
  from assms(1) obtain new devs where new: "hist w = h @ new" "recorded (attaches new) (drv w)" "list_all ref_free (reqs new)"
    "list_all (\<lambda>q. \<not> is_detach q) (reqs new)" "list_all (\<lambda>(j, _). j < i) (attaches new)" "1 < pd_count (drv w)"
    "pd_dev (drv w) = Some devs" "pd_link (drv w) \<noteq> None"
    by (auto simp: attaching_def)
  then show ?thesis unfolding attaching_def
    using recorded_attach [OF new(2,7,6) assms(2) new(5), of p]
    by (intro exI [of _ "new @ [(Dev (DomainAttach i), p, x)]"])
      (auto simp: ref_free_def is_detach_def list_all_iff)
qed

lemma attaching_link:
  assumes "attaching h i w"
  shows "attaching h i (w\<lparr>hist := hist w @ [(Dev (LinkAdd j), v)],
     drv := (drv w)\<lparr>pd_link := map_option f (pd_link (drv w))\<rparr>\<rparr>)"
  using assms unfolding attaching_def
  by (elim exE, intro exI [of _ "_ @ [(Dev (LinkAdd j), v)]"]) (auto simp: ref_free_def is_detach_def recorded_def)

lemma attach_domains_run:
  assumes "attaching h i w" and "i + k \<le> nat (pd_count (drv w))"
  shows "wp (attach_domains E i k) (attach_post h) w"
  using assms
proof (induction k arbitrary: i w)
  case 0
  then show ?case by (auto simp: wp_simps attach_post_def attaching_def detachable_def)
next
  case (Suc k)
  then have i: "i < nat (pd_count (drv w))" by simp
  show ?case
    unfolding attach_domains.simps
    apply (intro wp_bindI wp_callI wp_case_prodI wp_moddI)
    apply (rule wp_ifI, rule attaching_failed [where i = "Suc i"])
    using attaching_dev [OF Suc.prems(1) i] apply simp
     apply (simp add: IS_ERR_def)
    apply (intro wp_bindI wp_callI wp_case_prodI wp_moddI)
    apply (rule wp_ifI, rule attaching_failed [where i = "Suc i"])
    using attaching_link [OF attaching_dev [OF Suc.prems(1) i]] apply simp
     apply simp
    apply (rule Suc.IH)
    using attaching_link [OF attaching_dev [OF Suc.prems(1) i]] Suc.prems(2) apply simp_all
    done
qed

lemma attach_genpd_run: "wp (apple_nvme_attach_genpd E) (attach_post (hist w)) w"
  unfolding apple_nvme_attach_genpd_def
  apply (intro wp_bindI wp_callI wp_case_prodI wp_moddI)
  apply (rule wp_ifI)
   apply (simp add: wp_simps attach_post_def ref_free_def is_detach_def detachable_def)
  apply (intro wp_bindI wp_callI wp_case_prodI wp_moddI)
  apply (rule wp_ifI)
   apply (simp add: wp_simps attach_post_def ref_free_def is_detach_def)
  apply (intro wp_bindI wp_callI wp_case_prodI wp_moddI)
  apply (rule wp_ifI)
   apply (simp add: wp_simps attach_post_def ref_free_def is_detach_def)
  apply (intro wp_bindI wp_moddI attach_domains_run)
   apply (simp_all add: attaching_def ref_free_def is_detach_def)
  done

section \<open>Probe\<close>

text \<open>The references to the device that some requests leave taken.\<close>

definition refs :: "nvme_req list \<Rightarrow> int" where
  "refs qs = sum_list (map (\<lambda>q. if q = Dev GetDevice then 1 else if q = Dev PutDevice \<or> q = Ans PutCtrl then - 1 else 0) qs)"

lemma refs_simps [simp]:
  "refs [] = 0" "refs (qs @ qs') = refs qs + refs qs'"
  "refs (q # qs) = (if q = Dev GetDevice then 1 else if q = Dev PutDevice \<or> q = Ans PutCtrl then - 1 else 0) + refs qs"
  by (simp_all add: refs_def)

lemma refs_free: "list_all ref_free qs \<Longrightarrow> refs qs = 0"
  by (induction qs) (auto simp: ref_free_def)

definition domains_settled :: "(nvme_req \<times> nvme_resp) list \<Rightarrow> bool" where
  "domains_settled h \<longleftrightarrow> list_all (\<lambda>(i, p). IS_ERR_OR_NULL p \<or> Dev (DomainDetach i) \<in> set (reqs h)) (attaches h)"

text \<open>Since the history \<open>h\<close> the device was taken and its domains are in its table; and everything was put back.\<close>

definition held :: "(nvme_req \<times> nvme_resp) list \<Rightarrow> (nvme_req, nvme_resp, apple_nvme) world \<Rightarrow> bool" where
  "held h w \<longleftrightarrow> (\<exists>new. hist w = h @ new \<and> recorded (attaches new) (drv w) \<and> refs (reqs new) = 1)"

definition given_back :: "(nvme_req \<times> nvme_resp) list \<Rightarrow> (nvme_req, nvme_resp, apple_nvme) world \<Rightarrow> bool" where
  "given_back h w \<longleftrightarrow> (\<exists>new. hist w = h @ new \<and> domains_settled new \<and> refs (reqs new) = 0)"

definition in_use :: "(nvme_req \<times> nvme_resp) list \<Rightarrow> (nvme_req, nvme_resp, apple_nvme) world \<Rightarrow> bool" where
  "in_use h w \<longleftrightarrow> held h w \<and> (\<exists>new. hist w = h @ new \<and> list_all (\<lambda>q. \<not> is_detach q) (reqs new)) \<and> detachable (drv w)"

lemma detach_back:
  assumes "hist w = h @ new" and "recorded (attaches new) (drv w)" and "refs (reqs new) = k"
  shows "wp (detach_and E ret) (\<lambda>r w'. (\<forall>x. r = Ret x \<longrightarrow> x = ret) \<and> r \<noteq> Unfinished
     \<and> (r \<noteq> Oops \<longrightarrow> (\<exists>new. hist w' = h @ new \<and> domains_settled new \<and> refs (reqs new) = k))) w"
proof (rule wp_mono [OF detach_and_run], elim conjE exE)
  fix r new' and w' :: "(nvme_req, nvme_resp, apple_nvme) world"
  assume w': "drv w' = drv w" "r = (if detachable (drv w) then Ret ret else Oops)" "hist w' = hist w @ new'" "reqs new' = detached (drv w)"
  have n: "attaches new' = []" "refs (reqs new') = 0"
    using attaches_none [of new'] detached_no_attach refs_free [OF detached_ref] w'(4) by simp_all
  have "domains_settled (new @ new')" if "detachable (drv w)"
    unfolding domains_settled_def list_all_iff using recorded_detached [OF assms(2) that] n(1) w'(4) by auto
  with assms n w' show "(\<forall>x. r = Ret x \<longrightarrow> x = ret) \<and> r \<noteq> Unfinished
     \<and> (r \<noteq> Oops \<longrightarrow> (\<exists>new. hist w' = h @ new \<and> domains_settled new \<and> refs (reqs new) = k))"
    by (intro conjI impI exI [of _ "new @ new'"]) (auto split: if_splits)
qed

lemma domains_settled_snoc: "domains_settled (new @ [(q, v)]) = domains_settled new" if "no_attach q" "\<not> is_detach q"
  using that by (auto simp: domains_settled_def no_attach_def is_detach_def list_all_iff split: nvme_req.splits dev_req.splits)

lemma put_dev_run:
  assumes "held h w"
  shows "wp (alloc_put_dev E ret) (\<lambda>r w'. (\<forall>x. r = Ret x \<longrightarrow> x = ret \<and> given_back h w') \<and> r \<noteq> Unfinished) w"
proof -
  from assms obtain new where new: "hist w = h @ new" "recorded (attaches new) (drv w)" "refs (reqs new) = 1"
    by (auto simp: held_def)
  show ?thesis
    unfolding alloc_put_dev_def
    apply (rule wp_bindI, rule wp_mono [OF detach_back [OF new]])
    subgoal for r w'
      by (cases r) (auto simp: wp_simps given_back_def domains_settled_snoc no_attach_def is_detach_def)
    done
qed

lemma put_ctrl_run:
  assumes "held h w"
  shows "wp (probe_put_ctrl E ret) (\<lambda>r w'. (\<forall>x. r = Ret x \<longrightarrow> x = ret \<and> given_back h w') \<and> r \<noteq> Unfinished) w"
proof -
  from assms obtain new where new: "hist w = h @ new" "recorded (attaches new) (drv w)" "refs (reqs new) = 1"
    by (auto simp: held_def)
  show ?thesis
    unfolding probe_put_ctrl_def
    apply (intro wp_bindI wp_exec_step)
    subgoal for r w'
      by (rule wp_mono [OF detach_back [where h = h and new = "new @ [(Ans PutCtrl, r)]" and k = 0]])
        (use new in \<open>auto simp: given_back_def\<close>)
    done
qed

text \<open>What the rest of the allocation keeps and asks for.\<close>

lemma keeps_and_then [keeps_intros]: "keeps f m \<Longrightarrow> keeps f k \<Longrightarrow> keeps f (and_then m k)"
  unfolding and_then_def by (intro keeps_intros)

lemma emits_and_then [emits_intros]: "emits Q m \<Longrightarrow> emits Q k \<Longrightarrow> emits Q (and_then m k)"
  unfolding and_then_def by (intro emits_intros)

definition pd_view :: "apple_nvme \<Rightarrow> int \<times> (nat \<Rightarrow> int) option \<times> (nat \<Rightarrow> int) option" where
  "pd_view anv = (pd_count anv, pd_dev anv, pd_link anv)"

lemmas alloc_defs = alloc_rest_def alloc_irq_def alloc_map_def ioremap_byname_def err_of_def ret_of_def null_of_def
  alloc_pools_def apple_nvme_queue_alloc_def apple_nvme_alloc_tagsets_def alloc_admin_tagset_def alloc_io_tagset_def

lemma keeps_alloc_rest: "keeps (\<lambda>anv. (pd_view anv, ctrl_state anv)) (alloc_rest E H P)"
  unfolding alloc_defs
  by (intro keeps_intros) (simp_all add: pd_view_def upd_queue_def set_doorbells_def)

lemma emits_alloc_rest: "emits pd_free (alloc_rest E H P)"
  unfolding alloc_defs
  by (intro emits_intros) (simp_all add: pd_free_def)

lemma recorded_view: "pd_view anv' = pd_view anv \<Longrightarrow> recorded ps anv' = recorded ps anv \<and> detachable anv' = detachable anv"
  by (simp add: pd_view_def recorded_def detachable_def)

lemma in_use_step:
  assumes "in_use h w" and "hist w' = hist w @ new'" and "list_all pd_free (reqs new')" and "pd_view (drv w') = pd_view (drv w)"
  shows "in_use h w'"
proof -
  from assms(1) obtain new where new: "hist w = h @ new" "recorded (attaches new) (drv w)" "refs (reqs new) = 1"
    "list_all (\<lambda>q. \<not> is_detach q) (reqs new)" "detachable (drv w)"
    by (auto simp: in_use_def held_def)
  have "attaches new' = []" "refs (reqs new') = 0" "list_all (\<lambda>q. \<not> is_detach q) (reqs new')"
    using assms(3) by (simp_all add: attaches_none pd_free_no_attach refs_free pd_free_ref pd_free_detach)
  then show ?thesis
    using new assms(2,4) recorded_view [OF assms(4)]
    unfolding in_use_def held_def by (intro conjI exI [of _ "new @ new'"]) auto
qed

lemma alloc_rest_run:
  assumes "in_use h w"
  shows "wp (alloc_rest E H P) (\<lambda>_ w'. in_use h w' \<and> ctrl_state (drv w') = ctrl_state (drv w)) w"
  by (rule wp_mono [OF wp_conj [OF keeps_wp [OF keeps_alloc_rest] emits_wp [OF emits_alloc_rest]]])
    (use in_use_step [OF assms] in auto)

text \<open>The outcome of the allocation and of the probe.\<close>

definition probe_post :: "nvme_ctrl_state \<Rightarrow> (nvme_req \<times> nvme_resp) list \<Rightarrow> int run_result \<Rightarrow> (nvme_req, nvme_resp, apple_nvme) world \<Rightarrow> bool" where
  "probe_post s h r w \<longleftrightarrow> r \<noteq> Unfinished \<and> (\<forall>x. r = Ret x \<longrightarrow>
     (if x = 0 then in_use h w \<and> ctrl_state (drv w) = s else given_back h w))"

lemma put_dev_post: "held h w \<Longrightarrow> ret \<noteq> 0 \<Longrightarrow> wp (alloc_put_dev E ret) (probe_post s h) w"
  by (rule wp_mono [OF put_dev_run]) (auto simp: probe_post_def)

lemma put_ctrl_post: "held h w \<Longrightarrow> ret \<noteq> 0 \<Longrightarrow> wp (probe_put_ctrl E ret) (probe_post s h) w"
  by (rule wp_mono [OF put_ctrl_run]) (auto simp: probe_post_def)

lemma keeps_attach_state: "keeps ctrl_state (apple_nvme_attach_genpd E)"
proof -
  have d: "keeps ctrl_state (detach_and E ret)" for ret
    by (rule keepsI, rule wp_mono [OF detach_and_run]) auto
  have "keeps ctrl_state (attach_domains E i k)" for i k
    by (induction k arbitrary: i) (auto intro!: keeps_intros d)
  then show ?thesis unfolding apple_nvme_attach_genpd_def by (intro keeps_intros) simp_all
qed

lemma attach_in_use:
  assumes "attach_post (hist w0) r w" and "hist w0 = h @ [(Dev DevmKzalloc, a), (Dev GetDevice, b), (Dev OfMatchData, c)]"
  shows "held h w" "r = Ret 0 \<Longrightarrow> in_use h w" "r = Ret x \<Longrightarrow> x \<le> 0" "r \<noteq> Unfinished"
proof -
  from assms obtain new where new: "hist w = h @ ([(Dev DevmKzalloc, a), (Dev GetDevice, b), (Dev OfMatchData, c)] @ new)"
    "recorded (attaches new) (drv w)" "list_all ref_free (reqs new)" "(\<forall>ret. r = Ret ret \<longrightarrow> ret \<le> 0) \<and> r \<noteq> Unfinished"
    "r = Ret 0 \<longrightarrow> list_all (\<lambda>q. \<not> is_detach q) (reqs new) \<and> detachable (drv w)"
    by (auto simp: attach_post_def)
  then show h: "held h w" unfolding held_def
    by (intro exI [of _ "[(Dev DevmKzalloc, a), (Dev GetDevice, b), (Dev OfMatchData, c)] @ new"]) (auto simp: refs_free)
  show "r = Ret x \<Longrightarrow> x \<le> 0" "r \<noteq> Unfinished" using new(4) by blast+
  show "in_use h w" if "r = Ret 0"
    using that new(1,5) h unfolding in_use_def
    by (intro conjI exI [of _ "[(Dev DevmKzalloc, a), (Dev GetDevice, b), (Dev OfMatchData, c)] @ new"]) (auto simp: is_detach_def)
qed

lemma alloc_attached_run:
  assumes "attach_post (hist w0) r w" and "hist w0 = h @ [(Dev DevmKzalloc, a), (Dev GetDevice, b), (Dev OfMatchData, c)]"
    and "ctrl_state (drv w) = s"
  shows "wp (case r of Ret ret \<Rightarrow>
             if ret < 0 then alloc_put_dev E ret
             else do {
               ret \<leftarrow> alloc_rest E H P;
               if ret \<noteq> 0 then alloc_put_dev E ret else return (Ret 0)
             } | Oops \<Rightarrow> return Oops | Unfinished \<Rightarrow> return Unfinished) (probe_post s h) w"
proof (cases r)
  case (Ret x)
  show ?thesis
  proof (cases "x < 0")
    case True
    then show ?thesis using Ret put_dev_post [OF attach_in_use(1) [OF assms(1,2)]] by simp
  next
    case False
    with attach_in_use(3) [OF assms(1,2) Ret] have "x = 0" by simp
    with Ret have u: "in_use h w" using attach_in_use(2) [OF assms(1,2)] by simp
    have "wp (do { ret \<leftarrow> alloc_rest E H P; if ret \<noteq> 0 then alloc_put_dev E ret else return (Ret 0) }) (probe_post s h) w"
      apply (rule wp_bindI, rule wp_mono [OF alloc_rest_run [OF u]], rule wp_ifI)
       apply (rule put_dev_post, simp add: in_use_def, assumption)
      apply (use assms(3) in \<open>simp add: wp_simps probe_post_def pd_view_def\<close>)
      done
    then show ?thesis using Ret \<open>x = 0\<close> by simp
  qed
qed (use attach_in_use(4) [OF assms(1,2)] in \<open>simp_all add: wp_simps probe_post_def\<close>)

lemma alloc_run: "wp (apple_nvme_alloc E H P) (probe_post NVME_CTRL_NEW (hist w)) w"
  unfolding apple_nvme_alloc_def alloc_match_def
  apply (intro wp_bindI wp_call_step wp_case_prodI)
  apply (rule wp_ifI)
   apply (simp add: wp_simps probe_post_def given_back_def domains_settled_def)
  apply (intro wp_bindI wp_modd_step wp_exec_step wp_call_step wp_case_prodI)
  apply (rule wp_ifI)
   apply (rule wp_returnI, simp, rule put_dev_post)
    apply (simp add: held_def)
   apply simp
  apply (intro wp_bindI wp_modd_step wp_returnI)
  apply (simp)
  apply (rule wp_bindI, rule wp_mono [OF wp_conj [OF attach_genpd_run keeps_wp [OF keeps_attach_state]]])
  apply (elim conjE)
  apply (rule alloc_attached_run, assumption)
   apply (simp, simp add: zero_anv_def)
  done

lemma is_core_pd_free: "list_all is_core qs \<Longrightarrow> list_all pd_free qs"
  by (induction qs) (auto simp: is_core_def pd_free_def split: nvme_req.splits)

text \<open>The device is taken and its controller new.\<close>

definition ready :: "(nvme_req \<times> nvme_resp) list \<Rightarrow> (nvme_req, nvme_resp, apple_nvme) world \<Rightarrow> bool" where
  "ready h w \<longleftrightarrow> in_use h w \<and> ctrl_state (drv w) = NVME_CTRL_NEW"

lemma ready_held: "ready h w \<Longrightarrow> held h w"
  by (simp add: ready_def in_use_def)

lemma ready_call:
  assumes "ready h w" and "pd_free q" and "\<And>r w'. ready h w' \<Longrightarrow> Q r w'"
  shows "wp (call E q) Q w"
proof (rule wp_call_step, rule assms(3))
  fix r and w' :: "(nvme_req, nvme_resp, apple_nvme) world"
  assume "hist w' = hist w @ [(q, r)]" "drv w' = drv w"
  then show "ready h w'" using assms(1,2) in_use_step [of h w w' "[(q, r)]"] by (simp add: ready_def)
qed

lemma ready_exec: "ready h w \<Longrightarrow> pd_free q \<Longrightarrow> (\<And>w'. ready h w' \<Longrightarrow> Q () w') \<Longrightarrow> wp (exec E q) Q w"
  unfolding exec_def by (rule wp_bindI, rule ready_call) (auto simp: wp_simps)

lemma ready_modd:
  assumes "ready h w" and "\<And>anv. pd_view (f anv) = pd_view anv" and "\<And>anv. ctrl_state (f anv) = ctrl_state anv"
    and "\<And>w'. ready h w' \<Longrightarrow> Q () w'"
  shows "wp (modd f) Q w"
  by (rule wp_modd_step, rule assms(4)) (use assms(1-3) in_use_step [of h w _ "[]"] in \<open>simp add: ready_def\<close>)

lemma reset_ctrl_run:
  assumes "ready h w"
  shows "wp (nvme_reset_ctrl E) (\<lambda>_ w'. in_use h w' \<and> ctrl_state (drv w') = NVME_CTRL_RESETTING) w"
proof -
  have u: "in_use h w" "ctrl_state (drv w) = NVME_CTRL_NEW" using assms by (simp_all add: ready_def)
  have e: "emits pd_free (nvme_change_ctrl_state E s :: bool anv)" for s
    by (rule emits_weaken [OF emits_change_ctrl_state]) (use is_core_pd_free [of "[q]" for q] in simp)
  have "emits pd_free (nvme_reset_ctrl E :: int anv)"
    unfolding nvme_reset_ctrl_def by (intro emits_intros e) (simp add: pd_free_def)
  from wp_conj [OF wp_nvme_reset_ctrl emits_wp [OF this]] show ?thesis
    by (rule wp_mono) (use u(2) in \<open>auto simp: ctrl_state_change_def enter_state_def pd_view_def intro: in_use_step [OF u(1)]\<close>)
qed

lemma probe_start_run:
  assumes "ready h w"
  shows "wp (probe_start E P) (probe_post NVME_CTRL_RESETTING h) w"
proof -
  have f: "wp (whenM b (do { (x, now) \<leftarrow> call E (Core Jiffies);
      modd (\<lambda>anv. anv\<lparr>flush_interval := a, flush_ns := 0, last_flush := now - c\<rparr>) })) (\<lambda>_. ready h) w" for a b c
    by (intro wp_whenI wp_bindI ready_call [OF assms] wp_case_prodI ready_modd)
      (use assms in \<open>auto simp: pd_view_def pd_free_def\<close>)
  have a: "wp (do { exec E (Dev AsyncSchedule); return (Ret 0) }) (probe_post NVME_CTRL_RESETTING h) v"
    if "in_use h v" "ctrl_state (drv v) = NVME_CTRL_RESETTING" for v
    by (intro wp_bindI wp_exec_step wp_returnI)
      (use that(2) in \<open>auto simp: probe_post_def pd_free_def intro!: in_use_step [OF that(1)]\<close>)
  show ?thesis
    unfolding probe_start_def
    apply (rule wp_bindI, rule wp_mono [OF f])
    apply (rule wp_bindI, erule ready_exec, simp add: pd_free_def)
    apply (rule wp_bindI, erule wp_mono [OF reset_ctrl_run])
    apply (elim conjE, erule (1) a)
    done
qed

lemma probe_ctrl_run:
  assumes "ready h w"
  shows "wp (probe_ctrl E P) (probe_post NVME_CTRL_RESETTING h) w"
  unfolding probe_ctrl_def
  apply (rule wp_bindI, rule ready_call [OF assms], simp add: pd_free_def)
  apply (intro wp_case_prodI wp_ifI, erule put_ctrl_post [OF ready_held], assumption)
  apply (rule wp_bindI, erule ready_call, simp add: pd_free_def)
  apply (intro wp_case_prodI wp_bindI, erule ready_modd)
    apply (simp_all add: pd_view_def)[2]
  apply (rule wp_ifI, rule wp_bindI, erule ready_exec, simp add: pd_free_def)
   apply (erule put_ctrl_post [OF ready_held], simp)
  apply (erule probe_start_run)
  done

lemma probe_run: "wp (apple_nvme_probe E H P) (probe_post NVME_CTRL_RESETTING (hist w)) w"
  unfolding apple_nvme_probe_def
proof (rule wp_bindI, rule wp_mono [OF alloc_run])
  fix r v
  assume r: "probe_post NVME_CTRL_NEW (hist w) r v"
  show "wp (case r of Ret ret \<Rightarrow> if ret \<noteq> 0 then return (Ret ret) else probe_ctrl E P
     | Oops \<Rightarrow> return Oops | Unfinished \<Rightarrow> return Unfinished) (probe_post NVME_CTRL_RESETTING (hist w)) v"
  proof (cases r)
    case (Ret x)
    with r probe_ctrl_run [of "hist w" v E P] show ?thesis by (simp add: wp_simps probe_post_def ready_def)
  qed (use r in \<open>simp_all add: wp_simps probe_post_def\<close>)
qed

section \<open>Tags and memory\<close>

lemma and_then_run:
  assumes "wp m (\<lambda>r w'. r = 0 \<longrightarrow> wp k Q w') w" and "wp m (\<lambda>r w'. r \<noteq> 0 \<longrightarrow> Q r w') w"
  shows "wp (and_then m k) Q w"
  unfolding and_then_def
  by (rule wp_bindI, rule wp_mono [OF wp_conj [OF assms]]) (auto simp: wp_simps)

definition admin_tag :: "apple_nvme \<Rightarrow> nat \<Rightarrow> bool" where
  "admin_tag anv t \<longleftrightarrow> t < ts_queue_depth (admin_tagset anv)"

text \<open>The block layer hands out the tags of the I/O queue that are not reserved.\<close>

definition io_tag :: "apple_nvme \<Rightarrow> nat \<Rightarrow> bool" where
  "io_tag anv t \<longleftrightarrow> ts_reserved_tags (tagset anv) \<le> t \<and> t < ts_queue_depth (tagset anv)"

definition tags_of :: "apple_nvme_hw \<Rightarrow> apple_nvme \<Rightarrow> bool" where
  "tags_of h anv \<longleftrightarrow> ts_queue_depth (admin_tagset anv) = 1 \<and> ts_queue_depth (tagset anv) = max_queue_depth h - 1
     \<and> ts_reserved_tags (tagset anv) = (if has_lsq_nvmmu h then 2 else 0)"

lemma tagsets_run:
  "wp (apple_nvme_alloc_tagsets E) (\<lambda>r w'. (r = 0 \<longrightarrow> tags_of (hw (drv w)) (drv w') \<and> has_tagset (drv w') \<and> has_admin_tagset (drv w'))
     \<and> (r \<noteq> 0 \<longrightarrow> has_tagset (drv w') = has_tagset (drv w) \<and> has_admin_tagset (drv w') = has_admin_tagset (drv w))
     \<and> hw (drv w') = hw (drv w)) w"
  unfolding apple_nvme_alloc_tagsets_def alloc_admin_tagset_def alloc_io_tagset_def and_then_def
  by (intro wp_bindI wp_getdI wp_ifI wp_returnI wp_case_prodI wp_steps)
    (auto simp: tags_of_def APPLE_NVME_AQ_MQ_TAG_DEPTH_def APPLE_NVME_AQ_DEPTH_def)

text \<open>The sizes of the coherent allocations in a history.\<close>

definition dma_sizes :: "nvme_req list \<Rightarrow> nat list" where
  "dma_sizes qs = concat (map (\<lambda>q. case q of Dev r \<Rightarrow> (case r of DmamAlloc n \<Rightarrow> [n] | _ \<Rightarrow> []) | _ \<Rightarrow> []) qs)"

text \<open>Of a queue: its completion ring, its submission ring and, with an NVMMU, its TCB table.\<close>

definition queue_sizes :: "('x) nvme_hdr_scheme \<Rightarrow> bool \<Rightarrow> apple_nvme_hw \<Rightarrow> nat list" where
  "queue_sizes H a h = [apple_nvme_queue_depth a h * sizeof_nvme_completion H,
     if has_lsq_nvmmu h then apple_nvme_queue_depth a h * 64 else push_bit 7 (apple_nvme_queue_depth a h)]
     @ (if has_lsq_nvmmu h then [max_queue_depth h * 128] else [])"

lemma queue_alloc_run:
  "wp (apple_nvme_queue_alloc E H a) (\<lambda>r w'. hw (drv w') = hw (drv w) \<and> (r = 0 \<longrightarrow> (\<exists>new. hist w' = hist w @ new
     \<and> dma_sizes (reqs new) = queue_sizes H a (hw (drv w))))) w"
  unfolding apple_nvme_queue_alloc_def and_then_def
  by (intro wp_bindI wp_getdI wp_letI wp_ifI wp_returnI wp_case_prodI wp_steps)
    (auto simp: dma_sizes_def queue_sizes_def upd_queue_def APPLE_NVME_IOSQES_def)

lemma tagsets_no_dma: "emits (\<lambda>q. dma_sizes [q] = []) (apple_nvme_alloc_tagsets E)"
  unfolding apple_nvme_alloc_tagsets_def alloc_admin_tagset_def alloc_io_tagset_def
  by (intro emits_intros) (simp_all add: dma_sizes_def)

lemma dma_sizes_simps [simp]: "dma_sizes [] = []" "dma_sizes (qs @ qs') = dma_sizes qs @ dma_sizes qs'"
  by (simp_all add: dma_sizes_def)

lemma dma_sizes_none: "list_all (\<lambda>q. dma_sizes [q] = []) qs \<Longrightarrow> dma_sizes qs = []"
  by (induction qs) (auto simp: dma_sizes_def)

lemma memory_tags_run:
  "wp (and_then (apple_nvme_queue_alloc E H a) (apple_nvme_alloc_tagsets E)) (\<lambda>r w'. r = 0 \<longrightarrow> tags_of (hw (drv w)) (drv w')
     \<and> (\<exists>new. hist w' = hist w @ new
     \<and> dma_sizes (reqs new) = queue_sizes H a (hw (drv w)))) w"
  apply (rule and_then_run; rule wp_mono [OF queue_alloc_run])
   apply (intro impI, elim conjE impE, assumption, elim exE conjE)
   apply (rule wp_mono [OF wp_conj [OF tagsets_run emits_wp [OF tagsets_no_dma]]], elim conjE exE)
  subgoal premises p for r w1 new r' w2 new'
    using p by (intro impI conjI exI [of _ "new @ new'"]) (simp_all only: dma_sizes_none dma_sizes_simps reqs_simps append_assoc append_Nil2 refl)
  subgoal by blast
  done

section \<open>Removal and suspend\<close>

lemma keeps_admin_queue [keeps_intros]:
  assumes "\<And>anv b. f (anv\<lparr>admin_q_stopped := b\<rparr>) = f anv"
  shows "keeps f (nvme_quiesce_admin_queue E)" "keeps f (nvme_unquiesce_admin_queue E)"
  unfolding nvme_quiesce_admin_queue_def nvme_unquiesce_admin_queue_def by (intro keeps_intros assms)+

lemma keeps_unquiesce_io [keeps_intros]:
  assumes "\<And>anv b. f (anv\<lparr>stopped := b\<rparr>) = f anv"
  shows "keeps f (nvme_unquiesce_io_queues E)"
  unfolding nvme_unquiesce_io_queues_def by (intro keeps_intros assms)

lemma keeps_cancel [keeps_intros]: "keeps f (nvme_cancel_tagset E)" "keeps f (nvme_cancel_admin_tagset E)"
  unfolding nvme_cancel_tagset_def nvme_cancel_admin_tagset_def by (intro keeps_intros)+

lemma pd_view_upd [simp]:
  "pd_view (anv\<lparr>frozen := b\<rparr>) = pd_view anv" "pd_view (anv\<lparr>stopped := b\<rparr>) = pd_view anv"
  "pd_view (anv\<lparr>ctrl_config := c\<rparr>) = pd_view anv" "pd_view (anv\<lparr>admin_q_stopped := b\<rparr>) = pd_view anv"
  "pd_view (anv\<lparr>iods := g\<rparr>) = pd_view anv" "pd_view (anv\<lparr>ioq := q\<rparr>) = pd_view anv" "pd_view (anv\<lparr>adminq := q\<rparr>) = pd_view anv"
  "pd_view (upd_queue a f anv) = pd_view anv"
  by (simp_all add: pd_view_def upd_queue_def)

lemma keeps_disable_queues:
  assumes "batch_law E H"
  shows "keeps pd_view (disable_queues E H shutdown)"
  unfolding disable_queues_def by (intro keeps_intros keeps_handle_cq [OF assms]) simp_all

lemma keeps_disable:
  assumes "batch_law E H"
  shows "keeps pd_view (apple_nvme_disable n E H shutdown)"
  unfolding apple_nvme_disable_def Let_def by (intro keeps_intros keeps_disable_queues [OF assms]) simp_all

text \<open>A history in which the coprocessor was found stopped, or was stopped.\<close>

definition coproc_stopped :: "(nvme_req \<times> nvme_resp) list \<Rightarrow> bool" where
  "coproc_stopped h \<longleftrightarrow> (\<exists>x. h = [(Ans RtkitIsRunning, 0, x)])
     \<or> (\<exists>a b c. h = [(Ans RtkitIsRunning, a), (Ans RtkitShutdown, b), (Writel (mmio_coproc, APPLE_ANS_COPROC_CPU_CONTROL) 0, c)])"

lemma stop_rtkit_run:
  "wp (stop_rtkit E) (\<lambda>_ w'. drv w' = drv w \<and> (\<exists>new. hist w' = hist w @ new \<and> coproc_stopped new)) w"
  unfolding stop_rtkit_def
  by (intro wp_bindI wp_ifI wp_returnI wp_case_prodI wp_steps) (auto simp: coproc_stopped_def)

definition queues_off :: "apple_nvme \<Rightarrow> bool" where
  "queues_off anv \<longleftrightarrow> \<not> enabled (ioq anv) \<and> \<not> enabled (adminq anv)"

lemma shutdown_disable_run:
  assumes "batch_law E H" and "clock_outlasts E n"
  shows "wp (apple_nvme_disable n E H True) (\<lambda>r w'. r = Some () \<and> queues_off (drv w') \<and> ctrl_state (drv w') = ctrl_state (drv w)
     \<and> pd_view (drv w') = pd_view (drv w) \<and> (\<exists>new. hist w' = hist w @ new)) w"
proof -
  show ?thesis
    by (rule wp_mono [OF wp_conj [OF wp_conj [OF disable_run [OF assms(1)] ends_wp [OF ends_disable [OF assms(2)]]] keeps_wp [OF keeps_disable [OF assms(1)]]]])
      (auto simp: core_life_def disable_done_def queues_off_def)
qed

lemma detach_view: "pd_view anv' = pd_view anv \<Longrightarrow> detached anv' = detached anv \<and> detachable anv' = detachable anv"
  by (auto simp: pd_view_def detached_def detachable_def split: option.splits)

lemma remove_tail_run:
  "wp (do { exec E (Ans UninitCtrl); stop_rtkit E; apple_nvme_detach_genpd E }) (\<lambda>r w'. drv w' = drv w
     \<and> r = (if detachable (drv w) then Ret () else Oops)
     \<and> (\<exists>pre stop det. hist w' = hist w @ pre @ stop @ det \<and> coproc_stopped stop \<and> reqs det = detached (drv w))) w"
  apply (intro wp_bindI wp_exec_step)
  subgoal for r w1
    apply (intro wp_mono [OF stop_rtkit_run], elim conjE exE)
    apply (rule wp_mono [OF detach_genpd_run], elim conjE exE)
    subgoal premises p for r2 w2 stop r3 w3 det
      using p by (intro conjI exI [of _ "[(Ans UninitCtrl, r)]"] exI [of _ stop] exI [of _ det]) simp_all
    done
  done

lemma remove_run:
  assumes "batch_law E H" and "clock_outlasts E n"
  shows "wp (apple_nvme_remove n E H) (\<lambda>r w'. r = (if detachable (drv w) then Ret () else Oops) \<and> queues_off (drv w')
     \<and> ctrl_state (drv w') = (if ctrl_state_change (ctrl_state (drv w)) NVME_CTRL_DELETING then NVME_CTRL_DELETING else ctrl_state (drv w))
     \<and> (\<exists>pre stop det. hist w' = hist w @ pre @ stop @ det \<and> coproc_stopped stop \<and> reqs det = detached (drv w))) w"
  unfolding apple_nvme_remove_def
  apply (intro wp_bindI wp_nvme_change_ctrl_state wp_exec_step)
  apply (rule wp_mono [OF shutdown_disable_run [OF assms]])
  apply (elim conjE exE)
  apply (rule wp_case_optionI, simp)
  apply (rule wp_mono [OF remove_tail_run], elim conjE exE)
  subgoal premises p for w1 r1 w2 r2 w3 r3 w4 r w5 new1 new2 y r6 w6 pre stop det
  proof -
    have "pd_view (drv w5) = pd_view (drv w)" "ctrl_state (drv w5) =
      (if ctrl_state_change (ctrl_state (drv w)) NVME_CTRL_DELETING then NVME_CTRL_DELETING else ctrl_state (drv w))"
      using p by (simp_all add: pd_view_def enter_state_def)
    with p detach_view [of "drv w5" "drv w"] show ?thesis
      by (intro conjI exI [of _ "new1 @ [(Core (FlushWork reset_work), r1), (Ans StopCtrl, r2), (Ans RemoveNamespaces, r3)] @ new2 @ pre"] exI [of _ stop] exI [of _ det]) simp_all
  qed
  done

lemma suspend_run:
  assumes "batch_law E H" and "clock_outlasts E n"
  shows "wp (apple_nvme_suspend n E H) (\<lambda>r w'. r \<noteq> None \<and> queues_off (drv w') \<and> ctrl_state (drv w') = ctrl_state (drv w)
     \<and> (\<exists>pre stop. hist w' = hist w @ pre @ stop \<and> coproc_stopped stop)) w"
  unfolding apple_nvme_suspend_def
  apply (rule wp_bindI, rule wp_mono [OF shutdown_disable_run [OF assms]], elim conjE exE)
  apply (rule wp_case_optionI, simp)
  apply (intro wp_bindI wp_mono [OF stop_rtkit_run] wp_returnI)
  apply auto
  done

section \<open>Properties\<close>

text \<open>C17. A probe returns or faults; it never waits. When it succeeds, the device is taken once, no power domain
  was given back, and the controller is resetting. When it fails, every reference to the device that was taken is
  put back, directly or with the controller's, and every power domain that was attached is detached.\<close>

theorem probe_settles:
  assumes "run_state (apple_nvme_probe E H P) w = (r, w')"
  shows "r \<noteq> Unfinished \<and> (\<forall>x. r = Ret x \<longrightarrow> (\<exists>new. hist w' = hist w @ new
     \<and> (if x = 0 then refs (reqs new) = 1 \<and> list_all (\<lambda>q. \<not> is_detach q) (reqs new) \<and> ctrl_state (drv w') = NVME_CTRL_RESETTING
        else refs (reqs new) = 0 \<and> list_all (\<lambda>(i, p). IS_ERR_OR_NULL p \<or> Dev (DomainDetach i) \<in> set (reqs new)) (attaches new))))"
proof (intro conjI allI impI)
  note post = wpD [OF probe_run assms, unfolded probe_post_def]
  from post show "r \<noteq> Unfinished" by simp
  fix x
  assume "r = Ret x"
  with post have x: "if x = 0 then in_use (hist w) w' \<and> ctrl_state (drv w') = NVME_CTRL_RESETTING else given_back (hist w) w'" by blast
  show "\<exists>new. hist w' = hist w @ new
     \<and> (if x = 0 then refs (reqs new) = 1 \<and> list_all (\<lambda>q. \<not> is_detach q) (reqs new) \<and> ctrl_state (drv w') = NVME_CTRL_RESETTING
        else refs (reqs new) = 0 \<and> list_all (\<lambda>(i, p). IS_ERR_OR_NULL p \<or> Dev (DomainDetach i) \<in> set (reqs new)) (attaches new))"
    using x by (cases "x = 0") (auto simp: in_use_def held_def given_back_def domains_settled_def)
qed

text \<open>C19. On every controller of the match table, once a queue and the tag sets are allocated: each index of the
  completion ring lies in the memory allocated for it. With an NVMMU, the tags of the two queues are disjoint, and each
  tag the block layer can hand out for the queue indexes a whole entry of its submission ring and of the TCB table; without
  one, each tail the ring can have does.\<close>

theorem tags_index_memory:
  assumes "run_state (and_then (apple_nvme_queue_alloc E H a) (apple_nvme_alloc_tagsets E)) w = (0, w')"
    and "hw (drv w) = h" and "h \<in> set (map snd apple_nvme_of_match)"
  shows "\<exists>new cq sq rest. hist w' = hist w @ new \<and> dma_sizes (reqs new) = cq # sq # rest
     \<and> (\<forall>i < apple_nvme_queue_depth a h. i * sizeof_nvme_completion H + sizeof_nvme_completion H \<le> cq)
     \<and> (if has_lsq_nvmmu h
        then (\<forall>t. \<not> (admin_tag (drv w') t \<and> io_tag (drv w') t))
          \<and> (\<forall>t. (if a then admin_tag (drv w') t else io_tag (drv w') t) \<longrightarrow> t * 64 + 64 \<le> sq \<and> t * 128 + 128 \<le> hd rest)
        else (\<forall>tail. unat tail < max_queue_depth h \<longrightarrow> sqe_offset_t8015 a tail + 64 \<le> sq))"
proof -
  from wpD [OF memory_tags_run assms(1)] assms(2) obtain new where new: "hist w' = hist w @ new"
    "dma_sizes (reqs new) = queue_sizes H a h" and t: "tags_of h (drv w')" by auto
  have "i * s + s \<le> d * s" if "i < d" for i s d :: nat
    using mult_le_mono1 [of "Suc i" d s] that by simp
  moreover from assms(3) have "h = apple_nvme_t8015_hw \<or> h = apple_nvme_t8103_hw \<or> h = apple_nvme_t8132_hw"
    by (auto simp: apple_nvme_of_match_def)
  moreover have "sqe_offset_t8015 a tail + 64 \<le> push_bit 7 16" if "unat tail < 16" for tail
    using that by (simp add: sqe_offset_t8015_def APPLE_NVME_IOSQES_def push_bit_eq_mult)
  ultimately show ?thesis
    using new t
    by (intro exI [of _ new] exI [of _ "queue_sizes H a h ! 0"] exI [of _ "queue_sizes H a h ! 1"] exI [of _ "drop 2 (queue_sizes H a h)"])
      (auto simp: queue_sizes_def tags_of_def admin_tag_def io_tag_def apple_nvme_queue_depth_def APPLE_NVME_AQ_DEPTH_def
        apple_nvme_t8015_hw_def apple_nvme_t8103_hw_def apple_nvme_t8132_hw_def)
qed

text \<open>Removing the device always ends, once the fuel outlasts every timeout: the controller is being deleted if its
  state allows that, both queues are disabled, and the last things that happen are that the coprocessor is found
  stopped or is stopped, and then that every domain of the device's table is detached, last to first. Only a device
  whose tables could not be allocated makes it fault.\<close>

theorem remove_tears_down:
  assumes "batch_law E H" and "clock_outlasts E n" and "run_state (apple_nvme_remove n E H) w = (r, w')"
  shows "r = (if detachable (drv w) then Ret () else Oops) \<and> \<not> enabled (ioq (drv w')) \<and> \<not> enabled (adminq (drv w'))
     \<and> ctrl_state (drv w') = (if ctrl_state_change (ctrl_state (drv w)) NVME_CTRL_DELETING then NVME_CTRL_DELETING else ctrl_state (drv w))
     \<and> (\<exists>pre stop det. hist w' = hist w @ pre @ stop @ det \<and> coproc_stopped stop \<and> reqs det = detached (drv w))"
  using wpD [OF remove_run [OF assms(1,2)] assms(3)] by (simp add: queues_off_def)

text \<open>Suspending a live device and resuming it: the suspend ends with both queues disabled and the coprocessor
  stopped; the resume leaves them so, moves the controller to resetting and asks for the reset work.\<close>

theorem suspend_resume_resets:
  assumes "batch_law E H" and "clock_outlasts E n" and "ctrl_state (drv w) = NVME_CTRL_LIVE"
    and "run_state (apple_nvme_suspend n E H) w = (r, w1)" and "run_state (apple_nvme_resume E) w1 = (r', w2)"
  shows "r \<noteq> None \<and> (\<exists>pre stop. hist w1 = hist w @ pre @ stop \<and> coproc_stopped stop)
     \<and> queues_off (drv w2) \<and> ctrl_state (drv w2) = NVME_CTRL_RESETTING \<and> fst (last (hist w2)) = Core (QueueWork reset_work)"
proof -
  from wpD [OF suspend_run [OF assms(1,2)] assms(4)] assms(3)
  have s: "r \<noteq> None" "queues_off (drv w1)" "ctrl_state (drv w1) = NVME_CTRL_LIVE"
    "\<exists>pre stop. hist w1 = hist w @ pre @ stop \<and> coproc_stopped stop" by auto
  from wpD [OF reset_granted [OF s(3)] assms(5) [unfolded apple_nvme_resume_def]] s show ?thesis
    by (simp add: queues_off_def)
qed

text \<open>An environment whose second power domain is not there yet, and one without memory for the tables.\<close>

definition E_defer :: nvme_env where
  "E_defer h q = (case q of Dev r \<Rightarrow> (case r of CountPowerDomains \<Rightarrow> (2, 0) | DomainAttach i \<Rightarrow> (if i = 0 then 7 else - 517, 0) | _ \<Rightarrow> (1, 0)) | _ \<Rightarrow> (0, 0))"

definition E_nomem :: nvme_env where
  "E_nomem h q = (case q of Dev r \<Rightarrow> (case r of CountPowerDomains \<Rightarrow> (2, 0) | DevmKcalloc \<Rightarrow> (0, 0) | _ \<Rightarrow> (1, 0)) | _ \<Rightarrow> (0, 0))"

lemma defer_run:
  "wp (apple_nvme_alloc E_defer H P) (\<lambda>r w'. r = Ret (- 517) \<and> (\<exists>new. hist w' = hist w @ new
     \<and> count_list (reqs new) (Dev (DomainAttach 0)) = 1 \<and> count_list (reqs new) (Dev (DomainDetach 0)) = 2)) w"
  by (simp add: apple_nvme_alloc_def alloc_match_def apple_nvme_of_match_def apple_nvme_attach_genpd_def numeral_2_eq_2 E_defer_def
      detach_and_def apple_nvme_detach_genpd_def alloc_put_dev_def IS_ERR_def IS_ERR_OR_NULL_def zero_anv_def wp_simps)

lemma nomem_run: "wp (apple_nvme_alloc E_nomem H P) (\<lambda>r _. r = Oops) w"
  by (simp add: apple_nvme_alloc_def alloc_match_def apple_nvme_of_match_def apple_nvme_attach_genpd_def E_nomem_def
      detach_and_def apple_nvme_detach_genpd_def alloc_put_dev_def IS_ERR_def zero_anv_def wp_simps)

text \<open>The two faults of the error exits of the power domains. When a later domain cannot be attached, for example
  because its provider is not there yet, \<open>attach_genpd\<close> detaches the domains it had attached and \<open>alloc\<close> detaches
  them again. When the tables cannot be allocated, \<open>alloc\<close> runs \<open>detach_genpd\<close> on the null table and faults.\<close>

theorem attach_error_exits:
  "fst (run_state (apple_nvme_alloc E_nomem H P) w) = Oops
   \<and> (\<exists>w' new. run_state (apple_nvme_alloc E_defer H P) w = (Ret (- 517), w') \<and> hist w' = hist w @ new
      \<and> count_list (reqs new) (Dev (DomainAttach 0)) = 1 \<and> count_list (reqs new) (Dev (DomainDetach 0)) = 2)"
proof -
  obtain r w' where run: "run_state (apple_nvme_alloc E_defer H P) w = (r, w')" by fastforce
  obtain r2 w2 where run2: "run_state (apple_nvme_alloc E_nomem H P) w = (r2, w2)" by fastforce
  from wpD [OF defer_run run] wpD [OF nomem_run run2] run run2 show ?thesis by auto
qed

section \<open>Witnesses\<close>

definition P0 :: anv_params where
  "P0 = \<lparr>PAGE_SIZE = 16384, sizeof_scatterlist = 32, flush_interval_ms = 1000, msecs_to_jiffies = (\<lambda>m. ucast (m div 10))\<rparr>"

definition E_nomatch :: nvme_env where
  "E_nomatch h q = (case q of Dev r \<Rightarrow> (case r of OfMatchData \<Rightarrow> (- 1, 0) | _ \<Rightarrow> (1, 0)) | _ \<Rightarrow> (0, 0))"

lemma nomatch_run: "wp (apple_nvme_probe E_nomatch H P) (\<lambda>r _. r = Ret (- 19)) w"
  by (simp add: apple_nvme_probe_def apple_nvme_alloc_def alloc_match_def E_nomatch_def
      detach_and_def apple_nvme_detach_genpd_def alloc_put_dev_def zero_anv_def wp_simps)

theorem probe_settles_witness:
  "\<exists>w'. run_state (apple_nvme_probe E_nomatch (H0 E_nomatch) P0) (anv_w hw0) = (Ret (- 19), w') \<and> refs (reqs (hist w')) = 0"
proof -
  obtain r w' where run: "run_state (apple_nvme_probe E_nomatch (H0 E_nomatch) P0) (anv_w hw0) = (r, w')" by fastforce
  have "hist (anv_w hw0) = []" by (simp add: anv_w_def)
  with probe_settles [OF run] wpD [OF nomatch_run run] run show ?thesis by auto
qed

definition E_mem :: nvme_env where
  "E_mem h q = (case q of Dev r \<Rightarrow> (case r of DmamAlloc _ \<Rightarrow> (1, 4096) | _ \<Rightarrow> (0, 0)) | _ \<Rightarrow> (0, 0))"

lemma mem_run: "wp (and_then (apple_nvme_queue_alloc E_mem H a) (apple_nvme_alloc_tagsets E_mem)) (\<lambda>r _. r = 0) w"
  by (simp add: and_then_def apple_nvme_queue_alloc_def apple_nvme_alloc_tagsets_def alloc_admin_tagset_def alloc_io_tagset_def
      E_mem_def wp_simps)

theorem tags_index_memory_witness:
  "\<exists>w' cq sq rest. run_state (and_then (apple_nvme_queue_alloc E_mem (H0 E_mem) False) (apple_nvme_alloc_tagsets E_mem)) (anv_w apple_nvme_t8132_hw) = (0, w')
     \<and> dma_sizes (reqs (hist w')) = cq # sq # rest \<and> 63 * 16 + 16 \<le> cq"
proof -
  let ?m = "and_then (apple_nvme_queue_alloc E_mem (H0 E_mem) False) (apple_nvme_alloc_tagsets E_mem)"
  obtain r w' where run: "run_state ?m (anv_w apple_nvme_t8132_hw) = (r, w')" by fastforce
  with wpD [OF mem_run run] have run0: "run_state ?m (anv_w apple_nvme_t8132_hw) = (0, w')" by simp
  have w: "hw (drv (anv_w apple_nvme_t8132_hw)) = apple_nvme_t8132_hw" "apple_nvme_t8132_hw \<in> set (map snd apple_nvme_of_match)"
    "hist (anv_w apple_nvme_t8132_hw) = []" "sizeof_nvme_completion (H0 E_mem) = 16" "apple_nvme_queue_depth False apple_nvme_t8132_hw = 64"
    by (simp_all add: anv_w_def anv0_def apple_nvme_of_match_def H0_def apple_nvme_queue_depth_def apple_nvme_t8132_hw_def)
  from tags_index_memory [OF run0 w(1,2)] obtain cq sq rest where "dma_sizes (reqs (hist w')) = cq # sq # rest"
    "\<forall>i < 64. i * 16 + 16 \<le> cq" by (auto simp: w)
  moreover from this(2) [rule_format, of 63] have "63 * 16 + 16 \<le> cq" by simp
  ultimately show ?thesis using run0 by blast
qed

theorem remove_tears_down_witness:
  "\<exists>w'. run_state (apple_nvme_remove (2 ^ 32) E_clk (H0 E_clk)) (anv_w hw0) = (Ret (), w')
     \<and> ctrl_state (drv w') = NVME_CTRL_DELETING \<and> \<not> enabled (ioq (drv w'))"
proof -
  obtain r w' where run: "run_state (apple_nvme_remove (2 ^ 32) E_clk (H0 E_clk)) (anv_w hw0) = (r, w')" by fastforce
  have "detachable (drv (anv_w hw0))" by (simp add: anv_w_def anv0_def detachable_def)
  with remove_tears_down [OF H0_batch E_clk_outlasts run] run show ?thesis by (auto simp: w_states ctrl_state_change_def)
qed

theorem suspend_resume_resets_witness:
  "\<exists>r w1 r' w2. run_state (apple_nvme_suspend (2 ^ 32) E_clk (H0 E_clk)) (anv_w hw0) = (r, w1)
     \<and> run_state (apple_nvme_resume E_clk) w1 = (r', w2) \<and> ctrl_state (drv w2) = NVME_CTRL_RESETTING"
proof -
  obtain r w1 where s: "run_state (apple_nvme_suspend (2 ^ 32) E_clk (H0 E_clk)) (anv_w hw0) = (r, w1)" by fastforce
  obtain r' w2 where t: "run_state (apple_nvme_resume E_clk) w1 = (r', w2)" by fastforce
  from suspend_resume_resets [OF H0_batch E_clk_outlasts w_states(2) s t] s t show ?thesis by blast
qed

end
