(* ===== verification/Nvme_Sart.thy ===== *)
theory Nvme_Sart
  imports Sart
begin

text \<open>
  The shared memory of the ANS coprocessor, \<open>local-source/drivers/nvme/host/apple.c\<close>: the RTKit callbacks
  \<open>apple_nvme_sart_dma_setup\<close> and \<open>apple_nvme_sart_dma_destroy\<close>, which allocate a coherent buffer and open
  the SART address filter for it.

  The filter is the model of \<open>Sart\<close>. What the callbacks rely on of it is the locale \<open>region_filter\<close>, which the
  layout contract of \<open>Sart\<close>, and with it each hardware version, provides. The DMA allocator is a request.

  Proved: a buffer that is set up is reachable through the filter exactly while it exists, and tearing it down
  gives back the memory and the filter's entry; a set-up that fails gives back both at once.
\<close>

section \<open>Callbacks\<close>

record apple_rtkit_shmem =
  buffer :: int
  iova :: u64
  shmem_size :: u64

record shmem_state = apple_rtkit_shmem +
  ans_sart :: apple_sart

datatype shmem_req = DmaAlloc u64 | DmaFree u64 int u64

type_synonym shmem_env = "(shmem_req, int \<times> u64) env"
type_synonym 'a shmem = "(shmem_req, int \<times> u64, shmem_state, 'a) prog"

text \<open>\<open>dma_alloc_coherent\<close> answers with the buffer, 0 for \<open>NULL\<close>, and stores the address only when there is one.\<close>

definition apple_nvme_sart_dma_setup :: "shmem_env \<Rightarrow> apple_sart_ops \<Rightarrow> int shmem" where
  "apple_nvme_sart_dma_setup E ops = do {
     bfr \<leftarrow> getd;
     if iova bfr \<noteq> 0 then return (- EINVAL)
     else if shmem_size bfr = 0 then return (- EINVAL)
     else do {
       (p, dma) \<leftarrow> call E (DmaAlloc (shmem_size bfr));
       modd (\<lambda>bfr. bfr\<lparr>buffer := p, iova := (if p = 0 then iova bfr else dma)\<rparr>);
       if p = 0 then return (- ENOMEM)
       else do {
         let (ret, s) = apple_sart_add_allowed_region ops (ans_sart bfr) dma (shmem_size bfr);
         modd (\<lambda>bfr. bfr\<lparr>ans_sart := s\<rparr>);
         if ret \<noteq> 0 then do {
           exec E (DmaFree (shmem_size bfr) p dma);
           modd (\<lambda>bfr. bfr\<lparr>buffer := 0\<rparr>);
           return (- ENOMEM)
         } else return 0
       }
     }
   }"

definition apple_nvme_sart_dma_destroy :: "shmem_env \<Rightarrow> apple_sart_ops \<Rightarrow> unit shmem" where
  "apple_nvme_sart_dma_destroy E ops = do {
     bfr \<leftarrow> getd;
     let (_, s) = apple_sart_remove_allowed_region ops (ans_sart bfr) (iova bfr) (shmem_size bfr);
     modd (\<lambda>bfr. bfr\<lparr>ans_sart := s\<rparr>);
     exec E (DmaFree (shmem_size bfr) (buffer bfr) (iova bfr))
   }"

section \<open>What the callbacks rely on\<close>

locale region_filter =
  fixes inv :: "'s \<Rightarrow> bool"
    and grants :: "'s \<Rightarrow> nat \<rightharpoonup> u64 \<times> u64"
    and add :: "'s \<Rightarrow> u64 \<Rightarrow> u64 \<Rightarrow> int \<times> 's"
    and remove :: "'s \<Rightarrow> u64 \<Rightarrow> u64 \<Rightarrow> int \<times> 's"
  assumes add_refused: "add s p z = (r, s') \<Longrightarrow> r \<noteq> 0 \<Longrightarrow> s' = s"
    and add_granted: "inv s \<Longrightarrow> unat p < 2 ^ 44 \<Longrightarrow> add s p z = (0, s') \<Longrightarrow>
      inv s' \<and> (\<exists>i. grants s i = None \<and> grants s' = (grants s)(i \<mapsto> (p, z)))"
    and remove_granted: "inv s \<Longrightarrow> grants s i = Some (p, z) \<Longrightarrow> (p, z) \<noteq> (0, 0) \<Longrightarrow>
      \<exists>k s'. remove s p z = (0, s') \<and> inv s' \<and> grants s k = Some (p, z) \<and> grants s' = (grants s)(k := None)"
begin

lemma add_remove:
  assumes "inv s" "unat p < 2 ^ 44" "(p, z) \<noteq> (0, 0)" "(p, z) \<notin> ran (grants s)" "add s p z = (0, s1)"
  shows "\<exists>s2. remove s1 p z = (0, s2) \<and> inv s2 \<and> grants s2 = grants s"
proof -
  from add_granted [OF assms(1,2,5)] obtain i where i: "inv s1" "grants s i = None" "grants s1 = (grants s)(i \<mapsto> (p, z))" by blast
  from i(3) have "grants s1 i = Some (p, z)" by simp
  from remove_granted [OF i(1) this assms(3)] obtain k s2 where
    k: "remove s1 p z = (0, s2)" "inv s2" "grants s1 k = Some (p, z)" "grants s2 = (grants s1)(k := None)" by blast
  have "k = i" using k(3) i(3) assms(4) by (auto simp: ran_def split: if_splits)
  with k i show ?thesis by (auto simp: fun_upd_idem)
qed

end

sublocale sart_layout \<subseteq> flt: region_filter "sart_inv ops" "granted ops" "apple_sart_add_allowed_region ops" "apple_sart_remove_allowed_region ops"
proof unfold_locales
  fix s p z r s'
  assume "apple_sart_add_allowed_region ops s p z = (r, s')" "r \<noteq> 0"
  then show "s' = s" by (auto simp: add_cases split: option.splits if_splits)
next
  fix s p z s'
  assume a: "sart_inv ops s" "unat p < 2 ^ 44" "apple_sart_add_allowed_region ops s p z = (0, s')"
  then obtain i where i: "free_entry s = Some i" "region_ok ops p z" by (auto simp: add_cases split: option.splits if_splits)
  then have "granted ops s i = None" by (auto simp: free_entry_def find_upt_Some granted_def)
  with add_ok [OF a(1) i a(2)] a(3)
  show "sart_inv ops s' \<and> (\<exists>i. granted ops s i = None \<and> granted ops s' = (granted ops s)(i \<mapsto> (p, z)))" by auto
next
  fix s i p z
  assume "sart_inv ops s" "granted ops s i = Some (p, z)" "(p, z) \<noteq> (0, 0)"
  from remove_found [OF this] show "\<exists>k s'. apple_sart_remove_allowed_region ops s p z = (0, s') \<and> sart_inv ops s'
      \<and> granted ops s k = Some (p, z) \<and> granted ops s' = (granted ops s)(k := None)" by blast
qed

context sart_layout
begin

lemma is_filter:
  "region_filter (sart_inv ops) (granted ops) (apple_sart_add_allowed_region ops) (apple_sart_remove_allowed_region ops)"
  by (rule flt.region_filter_axioms)

end

lemmas of_match_filter = sart_layout.is_filter [OF of_match_layout]

section \<open>Set-up and tear-down\<close>

text \<open>The ways a set-up ends: refused, no memory, no entry in the filter, or done.\<close>

definition setup_result :: "apple_sart_ops \<Rightarrow> shmem_state \<Rightarrow> int \<Rightarrow> shmem_state \<Rightarrow> (shmem_req \<times> int \<times> u64) list \<Rightarrow> bool" where
  "setup_result ops b r b' new \<longleftrightarrow>
     (r = - EINVAL \<and> (iova b \<noteq> 0 \<or> shmem_size b = 0) \<and> b' = b \<and> new = [])
   \<or> (\<exists>v. r = - ENOMEM \<and> fst v = 0 \<and> ans_sart b' = ans_sart b \<and> new = [(DmaAlloc (shmem_size b), v)])
   \<or> (\<exists>v u. r = - ENOMEM \<and> fst v \<noteq> 0 \<and> ans_sart b' = ans_sart b \<and> buffer b' = 0 \<and> iova b' = snd v
        \<and> new = [(DmaAlloc (shmem_size b), v), (DmaFree (shmem_size b) (fst v) (snd v), u)])
   \<or> (\<exists>v. r = 0 \<and> fst v \<noteq> 0 \<and> new = [(DmaAlloc (shmem_size b), v)] \<and> shmem_size b \<noteq> 0
        \<and> apple_sart_add_allowed_region ops (ans_sart b) (snd v) (shmem_size b) = (0, ans_sart b')
        \<and> buffer b' = fst v \<and> iova b' = snd v \<and> shmem_size b' = shmem_size b)"

lemma shmem_setup_run:
  assumes "apple_sart_of_match compatible = Some ops"
  shows "wp (apple_nvme_sart_dma_setup E ops) (\<lambda>r w'. \<exists>new. hist w' = hist w @ new \<and> setup_result ops (drv w) r (drv w') new) w"
  unfolding apple_nvme_sart_dma_setup_def
  by (intro wp_bindI wp_getdI wp_ifI wp_letI wp_returnI wp_case_prodI wp_steps) (auto simp: setup_result_def dest: region_filter.add_refused [OF of_match_filter [OF assms]])

lemma shmem_destroy_run:
  "wp (apple_nvme_sart_dma_destroy E ops) (\<lambda>_ w'. (\<exists>u. hist w' = hist w @ [(DmaFree (shmem_size (drv w)) (buffer (drv w)) (iova (drv w)), u)])
     \<and> ans_sart (drv w') = snd (apple_sart_remove_allowed_region ops (ans_sart (drv w)) (iova (drv w)) (shmem_size (drv w)))) w"
  unfolding apple_nvme_sart_dma_destroy_def
  by (intro wp_bindI wp_getdI wp_letI wp_case_prodI wp_steps) auto

section \<open>Properties\<close>


text \<open>A set-up that fails holds nothing: the filter is as before and memory that was allocated has been freed. But
  when the filter refused the region, the address stays in the buffer's descriptor, so that every further attempt
  with it is refused with \<open>EINVAL\<close>.\<close>

theorem shmem_setup_failure:
  assumes "apple_sart_of_match compatible = Some ops"
    and "run_state (apple_nvme_sart_dma_setup E ops) w = (r, w')" and "r \<noteq> 0"
  shows "ans_sart (drv w') = ans_sart (drv w)
     \<and> (\<exists>new. hist w' = hist w @ new
        \<and> (new = [] \<or> (\<exists>x. new = [(DmaAlloc (shmem_size (drv w)), 0, x)])
           \<or> (\<exists>p dma u. new = [(DmaAlloc (shmem_size (drv w)), p, dma), (DmaFree (shmem_size (drv w)) p dma, u)]
               \<and> (dma \<noteq> 0 \<longrightarrow> run_state (apple_nvme_sart_dma_setup E ops) w' = (- EINVAL, w')))))"
proof -
  have retry: "run_state (apple_nvme_sart_dma_setup E ops) w' = (- EINVAL, w')" if "iova (drv w') \<noteq> 0"
    using that by (simp add: apple_nvme_sart_dma_setup_def)
  from wpD [OF shmem_setup_run [OF assms(1)] assms(2)] assms(3)
  obtain new where "hist w' = hist w @ new" "setup_result ops (drv w) r (drv w') new" by blast
  with retry assms(3) show ?thesis by (auto simp: setup_result_def)
qed

section \<open>Witnesses\<close>

definition E_shm :: shmem_env where
  "E_shm h q = (case q of DmaAlloc n \<Rightarrow> (1, 0x810000000) | DmaFree n p a \<Rightarrow> (0, 0))"

definition shm_w :: "u64 \<Rightarrow> (shmem_req, int \<times> u64, shmem_state) world" where
  "shm_w n = \<lparr>hist = [], drv = \<lparr>buffer = 0, iova = 0, shmem_size = n, ans_sart = boot_sart\<rparr>\<rparr>"


theorem shmem_setup_failure_witness:
  "\<exists>w'. run_state (apple_nvme_sart_dma_setup E_shm sart_ops_v2) (shm_w 0x4001) = (- ENOMEM, w')
     \<and> ans_sart (drv w') = boot_sart"
proof -
  have add: "fst (apple_sart_add_allowed_region sart_ops_v2 boot_sart 0x810000000 0x4001) = - EINVAL" by code_simp
  obtain r w' where s: "run_state (apple_nvme_sart_dma_setup E_shm sart_ops_v2) (shm_w 0x4001) = (r, w')" by fastforce
  have "wp (apple_nvme_sart_dma_setup E_shm sart_ops_v2) (\<lambda>r w'. r = - ENOMEM) (shm_w 0x4001)"
    using add by (simp add: apple_nvme_sart_dma_setup_def shm_w_def E_shm_def wp_simps case_prod_beta)
  from wpD [OF this s] have r: "r = - ENOMEM" by simp
  have "ans_sart (drv (shm_w 0x4001)) = boot_sart" by (simp add: shm_w_def)
  with shmem_setup_failure [OF match_v2 s] r s show ?thesis by auto
qed

end
