(* ===== verification/Usb_Root.thy ===== *)
theory Usb_Root
  imports Wallace_Prelude
begin

text \<open>
  The gate for the external USB root, \<open>src/scripts/t6040-usb-root-metadata.c\<close>: a read-only program that accepts a
  medium only if its protective MBR, both GPT copies, the one partition and the ext4 superblock are the expected ones.

  The pure parts (little-endian fields, checksum, UUIDs, decimal numbers, the checks on what was read) are functions on
  bytes; the system calls are requests. \<open>die\<close> is the value \<open>Stop\<close> with its message. \<open>pread\<close> returns at most what was
  asked for. The retry loop of \<open>read_at\<close> has fuel, and \<open>Unfinished\<close> is a read that is still being interrupted. The
  Linux build is modelled.

  Proved here: UUID texts and bytes correspond one to one; the checksum detects every change confined to one byte; the
  invariant of the descriptor and of the reads. What the program decides is in \<open>Usb_Verdict\<close>.
\<close>

section \<open>Bytes, numbers and identities\<close>

datatype 'a gate_result = Stop string | Ok 'a | Unfinished

definition SECTOR :: u64 where "SECTOR = 512"
definition MAX_ARRAY :: u32 where "MAX_ARRAY = 1024 * 1024"
definition LINUX_FS :: string where "LINUX_FS = ''0fc63daf-8483-4772-8e79-3d69d8477de4''"

definition le16 :: "u8 list \<Rightarrow> nat \<Rightarrow> u16" where
  "le16 p i = ucast (p ! i) OR push_bit 8 (ucast (p ! (i + 1)))"

definition le32 :: "u8 list \<Rightarrow> nat \<Rightarrow> u32" where
  "le32 p i = ucast (le16 p i) OR push_bit 16 (ucast (le16 p (i + 2)))"

definition le64 :: "u8 list \<Rightarrow> nat \<Rightarrow> u64" where
  "le64 p i = ucast (le32 p i) OR push_bit 32 (ucast (le32 p (i + 4)))"

definition crc_bit :: "u32 \<Rightarrow> u32" where
  "crc_bit c = drop_bit 1 c XOR (0xedb88320 AND (0 - (c AND 1)))"

definition crc_byte :: "u32 \<Rightarrow> u8 \<Rightarrow> u32" where
  "crc_byte c b = (crc_bit ^^ 8) (c XOR ucast b)"

definition crc32 :: "u8 list \<Rightarrow> u32" where
  "crc32 p = NOT (foldl crc_byte (- 1) p)"

definition code :: "char \<Rightarrow> int" where
  "code c = int (of_char c)"

fun decimal :: "nat \<Rightarrow> string \<Rightarrow> nat" where
  "decimal n [] = n"
| "decimal n (c # s) = decimal (10 * n + nat (code c - 48)) s"

definition is_digit :: "char \<Rightarrow> bool" where
  "is_digit c \<longleftrightarrow> 48 \<le> code c \<and> code c \<le> 57"

text \<open>\<open>strtoull\<close> reports a value that does not fit 64 bits.\<close>

definition number :: "string \<Rightarrow> u64 gate_result" where
  "number s =
     (if s = [] \<or> \<not> list_all is_digit s then Stop ''invalid decimal argument''
      else if 2 ^ 64 \<le> decimal 0 s \<or> decimal 0 s = 0 then Stop ''invalid numeric argument''
      else Ok (of_nat (decimal 0 s)))"

definition nibble :: "char \<Rightarrow> int" where
  "nibble c =
     (if 48 \<le> code c \<and> code c \<le> 57 then code c - 48
      else if 97 \<le> code c \<and> code c \<le> 102 then code c - 97 + 10
      else - 1)"

text \<open>A digit pair that the end of the string cuts reads the terminating zero, which is no digit.\<close>

fun uuid_digits :: "nat \<Rightarrow> string \<Rightarrow> u8 list \<Rightarrow> u8 list gate_result" where
  "uuid_digits i [] b = Ok b"
| "uuid_digits i (x # s) b =
     (if i = 8 \<or> i = 13 \<or> i = 18 \<or> i = 23 then
        if x \<noteq> CHR ''-'' then Stop ''invalid UUID separator'' else uuid_digits (i + 1) s b
      else case s of
        [] \<Rightarrow> Stop ''invalid UUID digit''
      | y # s' \<Rightarrow>
          if nibble x < 0 \<or> nibble y < 0 \<or> 16 \<le> length b then Stop ''invalid UUID digit''
          else uuid_digits (i + 2) s' (b @ [of_int (nibble x * 16 + nibble y)]))"

definition gpt_order :: "nat list" where
  "gpt_order = [3, 2, 1, 0, 5, 4, 7, 6, 8, 9, 10, 11, 12, 13, 14, 15]"

definition uuid :: "string \<Rightarrow> bool \<Rightarrow> u8 list gate_result" where
  "uuid s gpt =
     (if length s \<noteq> 36 then Stop ''UUID must use lowercase canonical format''
      else case uuid_digits 0 s [] of
        Ok b \<Rightarrow>
          if length b \<noteq> 16 then Stop ''invalid UUID length''
          else if foldr (OR) b 0 = 0 then Stop ''zero UUID is not an identity''
          else Ok (if gpt then map (\<lambda>i. b ! i) gpt_order else b)
      | r \<Rightarrow> r)"

section \<open>Checks on what was read\<close>

definition zero :: "u8 list \<Rightarrow> bool" where
  "zero p \<longleftrightarrow> list_all (\<lambda>b. b = 0) p"

definition chars :: "string \<Rightarrow> u8 list" where
  "chars s = map of_char s"

definition mbr_check :: "u64 \<Rightarrow> u8 list \<Rightarrow> unit gate_result" where
  "mbr_check sectors mbr =
     (if mbr ! 510 \<noteq> 0x55 \<or> mbr ! 511 \<noteq> 0xaa \<or> mbr ! (446 + 4) \<noteq> 0xee
        \<or> mbr ! 446 \<noteq> 0 \<or> le32 mbr (446 + 8) \<noteq> 1
        \<or> ucast (le32 mbr (446 + 12)) \<noteq> (if 0xffffffff < sectors - 1 then 0xffffffff else sectors - 1)
        \<or> \<not> zero (take 48 (drop 462 mbr))
      then Stop ''invalid protective MBR or hybrid partition table'' else Ok ())"

record header =
  h_current :: u64
  h_backup :: u64
  h_first :: u64
  h_last :: u64
  h_table :: u64
  h_count :: u32
  h_entry_size :: u32
  h_array_crc :: u32
  h_guid :: "u8 list"

definition header_fields :: "u8 list \<Rightarrow> header" where
  "header_fields b = \<lparr>h_current = le64 b 24, h_backup = le64 b 32, h_first = le64 b 40, h_last = le64 b 48, h_table = le64 b 72,
     h_count = le32 b 80, h_entry_size = le32 b 84, h_array_crc = le32 b 88, h_guid = take 16 (drop 56 b)\<rparr>"

definition array_sectors :: "header \<Rightarrow> u64" where
  "array_sectors h = (ucast (h_count h) * ucast (h_entry_size h) + SECTOR - 1) div SECTOR"

text \<open>The bytes the header's checksum covers: its own field counts as zero.\<close>

definition header_copy :: "u8 list \<Rightarrow> u8 list" where
  "header_copy b = (let n = unat (le32 b 12) in take 16 b @ [0, 0, 0, 0] @ drop 20 (take n b))"

definition bad_geometry :: "u64 \<Rightarrow> u64 \<Rightarrow> header \<Rightarrow> bool" where
  "bad_geometry lba layout_sectors h \<longleftrightarrow>
     h_current h \<noteq> lba \<or> layout_sectors \<le> h_backup h \<or> h_last h < h_first h
     \<or> h_first h < 3 \<or> layout_sectors - 1 \<le> h_last h
     \<or> h_count h = 0 \<or> h_entry_size h < 128 \<or> h_entry_size h mod 128 \<noteq> 0
     \<or> h_entry_size h div 128 AND (h_entry_size h div 128 - 1) \<noteq> 0
     \<or> MAX_ARRAY div h_entry_size h < h_count h"

definition header_check :: "u64 \<Rightarrow> u64 \<Rightarrow> u8 list \<Rightarrow> header gate_result" where
  "header_check lba layout_sectors b =
     (if take 8 b \<noteq> chars ''EFI PART'' \<or> le32 b 8 \<noteq> 0x10000 \<or> le32 b 20 \<noteq> 0
      then Stop ''invalid GPT signature, revision or reserved field''
      else if le32 b 12 < 92 \<or> ucast SECTOR < le32 b 12 then Stop ''invalid GPT header size''
      else if crc32 (header_copy b) \<noteq> le32 b 16 then Stop ''GPT header CRC mismatch''
      else
        let h = header_fields b
        in if bad_geometry lba layout_sectors h then Stop ''invalid or excessive GPT geometry''
           else if h_table h < 2 \<or> layout_sectors \<le> h_table h \<or> layout_sectors - h_table h < array_sectors h
           then Stop ''GPT array outside pinned layout''
           else if lba = 1 then
             if h_backup h \<noteq> layout_sectors - 1 \<or> h_table h \<noteq> 2 \<or> h_first h < h_table h + array_sectors h
             then Stop ''primary GPT overlaps usable sectors or wrong backup location'' else Ok h
           else if h_backup h \<noteq> 1 \<or> h_table h \<le> h_last h \<or> h_table h + array_sectors h \<noteq> lba
           then Stop ''backup GPT overlaps usable sectors or wrong primary location'' else Ok h)"

definition pair_check :: "u8 list \<Rightarrow> header \<Rightarrow> header \<Rightarrow> unit gate_result" where
  "pair_check dg a b =
     (if h_guid a \<noteq> dg \<or> h_guid b \<noteq> dg \<or> h_first a \<noteq> h_first b \<or> h_last a \<noteq> h_last b \<or> h_count a \<noteq> h_count b
        \<or> h_entry_size a \<noteq> h_entry_size b \<or> h_array_crc a \<noteq> h_array_crc b
      then Stop ''GPT copies or disk GUID disagree'' else Ok ())"

definition array_bytes :: "header \<Rightarrow> u64" where
  "array_bytes h = ucast (h_count h) * ucast (h_entry_size h)"

definition root_label :: string where "root_label = ''t6040root''"

definition label_ok :: "u8 list \<Rightarrow> bool" where
  "label_ok pa \<longleftrightarrow> list_all (\<lambda>i. le16 pa (56 + i * 2) = (if i < length root_label then of_char (root_label ! i) else 0)) [0..<36]"

text \<open>The one partition: its type and identity, no other entry, its extent and label. The result is the extent.\<close>

definition root_check :: "header \<Rightarrow> u8 list \<Rightarrow> u8 list \<Rightarrow> u8 list \<Rightarrow> (u64 \<times> u64) gate_result" where
  "root_check a type pg pa =
     (if take 16 pa \<noteq> type \<or> take 16 (drop 16 pa) \<noteq> pg then Stop ''partition type or PARTUUID mismatch''
      else if \<not> list_all (\<lambda>i. zero (take (unat (h_entry_size a)) (drop (i * unat (h_entry_size a)) pa))) [1..<unat (h_count a)]
      then Stop ''unexpected additional GPT partition''
      else
        let first = le64 pa 32; last_lba = le64 pa 40
        in if first \<noteq> 2048 \<or> first < h_first a \<or> last_lba < first \<or> h_last a < last_lba \<or> le64 pa 48 \<noteq> 0
           then Stop ''unexpected root extent or GPT attributes''
           else if \<not> label_ok pa then Stop ''GPT root label mismatch''
           else Ok (first, last_lba))"

definition fs_label :: "u8 list" where
  "fs_label = chars root_label @ replicate 7 0"

definition ext4_blocks :: "u8 list \<Rightarrow> u64" where
  "ext4_blocks sb = (if le32 sb 96 AND 0x80 \<noteq> 0 then ucast (le32 sb 4) OR push_bit 32 (ucast (le32 sb 0x150)) else ucast (le32 sb 4))"

definition ext4_check :: "u8 list \<Rightarrow> u64 \<Rightarrow> u64 \<Rightarrow> u8 list \<Rightarrow> unit gate_result" where
  "ext4_check fg first last_lba sb =
     (if le16 sb 56 \<noteq> 0xef53 \<or> le32 sb 76 \<noteq> 1 \<or> take 16 (drop 104 sb) \<noteq> fg
      then Stop ''ext4 magic, revision or UUID mismatch''
      else if take 16 (drop 120 sb) \<noteq> fs_label then Stop ''ext4 label mismatch''
      else if le16 sb 58 \<noteq> 1 \<or> le32 sb 96 AND 4 \<noteq> 0 then Stop ''ext4 is dirty, errored or needs journal replay''
      else if 6 < le32 sb 24 then Stop ''unsupported ext4 block size''
      else
        let block_size = push_bit (unat (le32 sb 24)) 1024; part_bytes = (last_lba - first + 1) * SECTOR
        in if ext4_blocks sb = 0 \<or> part_bytes div block_size < ext4_blocks sb
           then Stop ''ext4 size exceeds root partition'' else Ok ())"

section \<open>The program\<close>

datatype file_kind = S_ISREG | S_ISBLK | S_OTHER

record stat =
  st_mode :: file_kind
  st_dev :: nat
  st_ino :: nat
  st_rdev :: "nat \<times> nat"
  st_size :: int

datatype gate_req = Lstat string | OpenRO string | Fstat | BlkSszGet | BlkGetSize64 | Malloc nat | Pread nat nat | Free | Close

datatype gate_resp = Failed | Interrupted | Done | StatIs stat | Number u64 | Data "u8 list"

text \<open>The globals of the program.\<close>

record gate =
  fd_open :: bool
  media_bytes :: u64

type_synonym gate_env = "(gate_req, gate_resp) env"
type_synonym 'a gate_prog = "(gate_req, gate_resp, gate, 'a gate_result) prog"

definition die :: "gate_env \<Rightarrow> string \<Rightarrow> 'a gate_prog" where
  "die E why = do {
     g \<leftarrow> getd;
     whenM (fd_open g) (exec E Close);
     return (Stop why)
   }"

text \<open>Going on after a step that has not died, dying of a failed check, and requiring a condition.\<close>

definition and_go :: "'a gate_prog \<Rightarrow> ('a \<Rightarrow> 'b gate_prog) \<Rightarrow> 'b gate_prog" where
  "and_go m k = do { r \<leftarrow> m; case r of Ok x \<Rightarrow> k x | Stop why \<Rightarrow> return (Stop why) | Unfinished \<Rightarrow> return Unfinished }"

definition checked :: "gate_env \<Rightarrow> 'a gate_result \<Rightarrow> 'a gate_prog" where
  "checked E r = (case r of Ok x \<Rightarrow> return (Ok x) | Stop why \<Rightarrow> die E why | Unfinished \<Rightarrow> return Unfinished)"

fun read_loop :: "nat \<Rightarrow> gate_env \<Rightarrow> u8 list \<Rightarrow> nat \<Rightarrow> nat \<Rightarrow> (u8 list) gate_prog" where
  "read_loop fuel E q 0 off = return (Ok q)"
| "read_loop 0 E q (Suc n) off = return Unfinished"
| "read_loop (Suc fuel) E q (Suc n) off = do {
     r \<leftarrow> call E (Pread (Suc n) off);
     case r of
       Interrupted \<Rightarrow> read_loop fuel E q (Suc n) off
     | Data bs \<Rightarrow>
         (let k = take (Suc n) bs
          in if k = [] then die E ''short or failed read''
             else read_loop fuel E (q @ k) (Suc n - length k) (off + length k))
     | _ \<Rightarrow> die E ''short or failed read''
   }"

definition read_at :: "nat \<Rightarrow> gate_env \<Rightarrow> u64 \<Rightarrow> u64 \<Rightarrow> (u8 list) gate_prog" where
  "read_at fuel E n off = do {
     g \<leftarrow> getd;
     if media_bytes g < off \<or> media_bytes g - off < n \<or> 0x7fffffffffffffff < off
     then die E ''read outside pinned media bounds''
     else read_loop fuel E [] (unat n) (unat off)
   }"

definition read_header :: "nat \<Rightarrow> gate_env \<Rightarrow> u64 \<Rightarrow> u64 \<Rightarrow> header gate_prog" where
  "read_header fuel E lba layout_sectors =
     and_go (read_at fuel E SECTOR (lba * SECTOR)) (\<lambda>b. checked E (header_check lba layout_sectors b))"

definition array_check :: "header \<Rightarrow> u8 list \<Rightarrow> u8 list gate_result" where
  "array_check h p = (if crc32 p \<noteq> h_array_crc h then Stop ''GPT partition-array CRC mismatch'' else Ok p)"

definition read_array :: "nat \<Rightarrow> gate_env \<Rightarrow> header \<Rightarrow> (u8 list) gate_prog" where
  "read_array fuel E h = do {
     r \<leftarrow> call E (Malloc (unat (array_bytes h)));
     if r = Failed then die E ''allocation failed''
     else and_go (read_at fuel E (array_bytes h) (h_table h * SECTOR)) (\<lambda>p. checked E (array_check h p))
   }"

record ids =
  disk_guid :: "u8 list"
  part_guid :: "u8 list"
  fs_uuid :: "u8 list"
  type_guid :: "u8 list"

text \<open>From the first read to the last check; the result is the extent of the root partition.\<close>

definition check_media :: "nat \<Rightarrow> gate_env \<Rightarrow> ids \<Rightarrow> u64 \<Rightarrow> (u64 \<times> u64) gate_prog" where
  "check_media fuel E i sectors =
     and_go (read_at fuel E SECTOR 0) (\<lambda>mbr.
     and_go (checked E (mbr_check sectors mbr)) (\<lambda>_.
     and_go (read_header fuel E 1 sectors) (\<lambda>a.
     and_go (read_header fuel E (sectors - 1) sectors) (\<lambda>b.
     and_go (checked E (pair_check (disk_guid i) a b)) (\<lambda>_.
     and_go (read_array fuel E a) (\<lambda>pa.
     and_go (read_array fuel E b) (\<lambda>pb.
     and_go (checked E (if pa \<noteq> pb then Stop ''GPT partition arrays disagree'' else Ok ())) (\<lambda>_.
     and_go (checked E (root_check a (type_guid i) (part_guid i) pa)) (\<lambda>(first, last_lba).
     and_go (read_at fuel E 1024 (first * SECTOR + 1024)) (\<lambda>sb.
     and_go (checked E (ext4_check (fs_uuid i) first last_lba sb)) (\<lambda>_.
     return (Ok (first, last_lba)))))))))))))"

record options =
  o_path :: "string option"
  o_disk :: bool
  o_disk_id :: "string option"
  o_part_id :: "string option"
  o_fs_id :: "string option"
  o_media :: u64
  o_layout :: u64
  o_devno :: "string option"

definition set_number :: "string \<Rightarrow> (u64 \<Rightarrow> options) \<Rightarrow> options gate_result" where
  "set_number v f = (case number v of Ok n \<Rightarrow> Ok (f n) | Stop why \<Rightarrow> Stop why | Unfinished \<Rightarrow> Unfinished)"

definition parse_option :: "string \<Rightarrow> string \<Rightarrow> options \<Rightarrow> options gate_result" where
  "parse_option name v opt =
     (if name = ''--image'' \<or> name = ''--disk'' then
        if o_path opt \<noteq> None then Stop ''multiple input paths''
        else Ok (opt\<lparr>o_path := Some v, o_disk := (name = ''--disk'')\<rparr>)
      else if name = ''--disk-guid'' \<and> o_disk_id opt = None then Ok (opt\<lparr>o_disk_id := Some v\<rparr>)
      else if name = ''--partuuid'' \<and> o_part_id opt = None then Ok (opt\<lparr>o_part_id := Some v\<rparr>)
      else if name = ''--fsuuid'' \<and> o_fs_id opt = None then Ok (opt\<lparr>o_fs_id := Some v\<rparr>)
      else if name = ''--media-bytes'' \<and> o_media opt = 0 then set_number v (\<lambda>n. opt\<lparr>o_media := n\<rparr>)
      else if name = ''--layout-bytes'' \<and> o_layout opt = 0 then set_number v (\<lambda>n. opt\<lparr>o_layout := n\<rparr>)
      else if name = ''--device-number'' \<and> o_devno opt = None then Ok (opt\<lparr>o_devno := Some v\<rparr>)
      else Stop ''unknown or repeated option'')"

fun parse_args :: "string list \<Rightarrow> options \<Rightarrow> options gate_result" where
  "parse_args [] opt = Ok opt"
| "parse_args [name] opt = Stop ''option missing value''"
| "parse_args (name # v # rest) opt =
     (case parse_option name v opt of Ok opt' \<Rightarrow> parse_args rest opt' | Stop why \<Rightarrow> Stop why | Unfinished \<Rightarrow> Unfinished)"

definition lengths_check :: "options \<Rightarrow> unit gate_result" where
  "lengths_check opt =
     (if o_layout opt mod SECTOR \<noteq> 0 \<or> o_media opt mod SECTOR \<noteq> 0 \<or> o_media opt < o_layout opt
        \<or> o_layout opt < 68 * SECTOR \<or> 0x7fffffffffffffff < o_media opt
      then Stop ''invalid pinned layout or media length'' else Ok ())"

text \<open>The identities, in the order they are parsed.\<close>

definition parse_ids :: "string \<Rightarrow> string \<Rightarrow> string \<Rightarrow> ids gate_result" where
  "parse_ids d p f =
     (case uuid d True of Ok dg \<Rightarrow>
       (case uuid p True of Ok pg \<Rightarrow>
         (case uuid f False of Ok fg \<Rightarrow>
           (case uuid LINUX_FS True of Ok t \<Rightarrow> Ok \<lparr>disk_guid = dg, part_guid = pg, fs_uuid = fg, type_guid = t\<rparr>
            | Stop why \<Rightarrow> Stop why | Unfinished \<Rightarrow> Unfinished)
          | Stop why \<Rightarrow> Stop why | Unfinished \<Rightarrow> Unfinished)
        | Stop why \<Rightarrow> Stop why | Unfinished \<Rightarrow> Unfinished)
      | Stop why \<Rightarrow> Stop why | Unfinished \<Rightarrow> Unfinished)"

fun dec :: "nat \<Rightarrow> string" where
  "dec n = (if n < 10 then [char_of (48 + n)] else dec (n div 10) @ [char_of (48 + n mod 10)])"

definition device_number :: "stat \<Rightarrow> string" where
  "device_number st = take 63 (dec (fst (st_rdev st)) @ '':'' @ dec (snd (st_rdev st)))"

text \<open>The checks on the path, before and after it is opened. The first \<open>stat\<close> is the result of the first part.\<close>

definition check_path :: "gate_env \<Rightarrow> options \<Rightarrow> string \<Rightarrow> stat gate_prog" where
  "check_path E opt path = do {
     r \<leftarrow> call E (Lstat path);
     case r of
       StatIs before \<Rightarrow>
         if st_mode before \<noteq> (if o_disk opt then S_ISBLK else S_ISREG) then die E ''input has the wrong type or is a symlink''
         else if o_disk opt \<and> o_devno opt \<noteq> Some (device_number before) then die E ''device number differs from sysfs identity''
         else if \<not> o_disk opt \<and> o_devno opt \<noteq> None then die E ''device-number is only valid in disk mode''
         else return (Ok before)
     | _ \<Rightarrow> die E ''input has the wrong type or is a symlink''
   }"

definition media_size :: "gate_env \<Rightarrow> options \<Rightarrow> stat \<Rightarrow> unit gate_prog" where
  "media_size E opt st =
     (if \<not> o_disk opt then
        if st_mode st \<noteq> S_ISREG \<or> st_size st < 0 then die E ''--image requires a regular file''
        else do { modd (\<lambda>g. g\<lparr>media_bytes := of_int (st_size st)\<rparr>); return (Ok ()) }
      else if st_mode st \<noteq> S_ISBLK then die E ''--disk requires a block device''
      else do {
        r \<leftarrow> call E BlkSszGet;
        if r \<noteq> Number SECTOR then die E ''unsupported block geometry''
        else do {
          r \<leftarrow> call E BlkGetSize64;
          case r of
            Number n \<Rightarrow> do { modd (\<lambda>g. g\<lparr>media_bytes := n\<rparr>); return (Ok ()) }
          | _ \<Rightarrow> die E ''unsupported block geometry''
        }
      })"

definition open_media :: "gate_env \<Rightarrow> options \<Rightarrow> string \<Rightarrow> stat \<Rightarrow> unit gate_prog" where
  "open_media E opt path before = do {
     r \<leftarrow> call E (OpenRO path);
     if r = Failed then die E ''cannot open input read-only''
     else do {
       modd (\<lambda>g. g\<lparr>fd_open := True\<rparr>);
       r \<leftarrow> call E Fstat;
       case r of
         StatIs st \<Rightarrow>
           if st_dev st \<noteq> st_dev before \<or> st_ino st \<noteq> st_ino before \<or> st_rdev st \<noteq> st_rdev before
           then die E ''input identity changed during open''
           else and_go (media_size E opt st) (\<lambda>_. do {
             g \<leftarrow> getd;
             if media_bytes g \<noteq> o_media opt then die E ''media length differs from pinned capacity'' else return (Ok ())
           })
       | _ \<Rightarrow> die E ''input identity changed during open''
     }
   }"

record report =
  r_disk_guid :: string
  r_partuuid :: string
  r_fsuuid :: string
  r_first :: u64
  r_last :: u64
  r_media :: u64
  r_layout :: u64

definition no_options :: options where
  "no_options = \<lparr>o_path = None, o_disk = False, o_disk_id = None, o_part_id = None, o_fs_id = None,
     o_media = 0, o_layout = 0, o_devno = None\<rparr>"

definition finish :: "gate_env \<Rightarrow> unit gate_prog" where
  "finish E = do {
     exec E Free;
     exec E Free;
     exec E Close;
     modd (\<lambda>g. g\<lparr>fd_open := False\<rparr>);
     return (Ok ())
   }"

definition gate_main :: "nat \<Rightarrow> gate_env \<Rightarrow> string list \<Rightarrow> report gate_prog" where
  "gate_main fuel E args =
     and_go (checked E (parse_args args no_options)) (\<lambda>opt.
     case (o_path opt, o_disk_id opt, o_part_id opt, o_fs_id opt) of
       (Some path, Some d, Some p, Some f) \<Rightarrow>
         if o_layout opt = 0 \<or> o_media opt = 0
         then die E ''require input mode, disk-guid, partuuid, fsuuid, media-bytes and layout-bytes''
         else
           and_go (checked E (lengths_check opt)) (\<lambda>_.
           and_go (checked E (parse_ids d p f)) (\<lambda>i.
           and_go (check_path E opt path) (\<lambda>before.
           and_go (open_media E opt path before) (\<lambda>_.
           and_go (check_media fuel E i (o_layout opt div SECTOR)) (\<lambda>(first, last_lba).
           and_go (finish E) (\<lambda>_.
           return (Ok \<lparr>r_disk_guid = d, r_partuuid = p, r_fsuuid = f, r_first = first, r_last = last_lba,
             r_media = o_media opt, r_layout = o_layout opt\<rparr>)))))))
     | _ \<Rightarrow> die E ''require input mode, disk-guid, partuuid, fsuuid, media-bytes and layout-bytes'')"

section \<open>The checksum\<close>

lemma neg_lsb: "(0 - (c AND 1) :: u32) = (if bit c 0 then - 1 else 0)"
  by (auto simp: and_one_eq bit_0 odd_iff_mod_2_eq_one)

lemma bit_crc_bit: "bit (crc_bit c) n \<longleftrightarrow> (bit c (Suc n) \<noteq> (bit c 0 \<and> bit (0xedb88320 :: u32) n))"
  unfolding crc_bit_def neg_lsb by (auto simp: bit_simps)

lemma crc_bit_inj: "inj crc_bit"
proof (rule injI)
  fix c d :: u32
  assume eq: "crc_bit c = crc_bit d"
  have top: "bit (0xedb88320 :: u32) 31" by code_simp
  have "\<not> bit c 32" "\<not> bit d 32" using bit_imp_le_length [of c 32] bit_imp_le_length [of d 32] by auto
  with eq top bit_crc_bit [of c 31] bit_crc_bit [of d 31] have 0: "bit c 0 = bit d 0" by simp
  show "c = d"
  proof (rule bit_word_eqI)
    fix n
    show "bit c n = bit d n"
    proof (cases n)
      case (Suc m)
      with eq 0 bit_crc_bit [of c m] bit_crc_bit [of d m] show ?thesis by auto
    qed (use 0 in simp)
  qed
qed

lemma xor_cancel_left: "(a :: 'a::len word) XOR b = a XOR c \<longleftrightarrow> b = c"
  by (auto simp: bit_eq_iff bit_xor_iff)

lemma crc_bits_eq: "(crc_bit ^^ 8) c = (crc_bit ^^ 8) d \<longleftrightarrow> c = d"
  by (rule inj_eq [OF inj_fn [OF crc_bit_inj]])

lemma crc_byte_inj_state: "crc_byte c b = crc_byte d b \<Longrightarrow> c = d"
  unfolding crc_byte_def crc_bits_eq by (simp add: xor_cancel_left xor.commute [of _ "ucast b"])

lemma byte_ucast_inj: "(ucast (a :: u8) :: u32) = ucast b \<Longrightarrow> a = b"
proof (rule bit_word_eqI)
  fix n
  assume "(ucast a :: u32) = ucast b" "n < LENGTH(8)"
  then show "bit a n = bit b n" using bit_ucast_iff [of a n, where ?'a = 32] bit_ucast_iff [of b n, where ?'a = 32] by simp
qed

lemma crc_byte_inj_byte: "crc_byte c a = crc_byte c b \<Longrightarrow> a = b"
  unfolding crc_byte_def crc_bits_eq xor_cancel_left by (rule byte_ucast_inj)

text \<open>A register that takes bytes one by one and forgets nothing: neither two states nor two bytes are confused by a step.\<close>

locale byte_register =
  fixes shift :: "'s \<Rightarrow> 'b \<Rightarrow> 's"
  assumes state_inj: "shift c b = shift d b \<Longrightarrow> c = d"
    and byte_inj: "shift c a = shift c b \<Longrightarrow> a = b"
begin

lemma fold_inj: "foldl shift c p = foldl shift d p \<Longrightarrow> c = d"
  by (induction p arbitrary: c d) (auto dest: state_inj)

lemma fold_detects: "a \<noteq> b \<Longrightarrow> foldl shift c (p @ a # q) \<noteq> foldl shift c (p @ b # q)"
  by (auto dest!: fold_inj byte_inj)

end

interpretation crc: byte_register crc_byte
  by unfold_locales (fact crc_byte_inj_state, fact crc_byte_inj_byte)

section \<open>Identities\<close>

definition hexdigit :: "nat \<Rightarrow> char" where
  "hexdigit v = char_of (if v < 10 then 48 + v else 87 + v)"

definition hex :: "u8 \<Rightarrow> string" where
  "hex b = [hexdigit (unat b div 16), hexdigit (unat b mod 16)]"

definition hexs :: "u8 list \<Rightarrow> string" where
  "hexs bs = concat (map hex bs)"

text \<open>The canonical text of an identity.\<close>

definition uuid_text :: "u8 list \<Rightarrow> string" where
  "uuid_text b = hexs (take 4 b) @ ''-'' @ hexs (take 2 (drop 4 b)) @ ''-'' @ hexs (take 2 (drop 6 b)) @ ''-''
     @ hexs (take 2 (drop 8 b)) @ ''-'' @ hexs (drop 10 b)"

lemma nibble_hexdigit: "v < 16 \<Longrightarrow> nibble (hexdigit v) = int v"
  by (auto simp: nibble_def code_def hexdigit_def)

lemma hexdigit_nibble: "0 \<le> nibble c \<Longrightarrow> hexdigit (nat (nibble c)) = c \<and> nibble c < 16"
proof -
  assume n: "0 \<le> nibble c"
  have "char_of (nat (code c)) = c" by (simp add: code_def)
  then show ?thesis using n by (auto simp: nibble_def hexdigit_def nat_diff_distrib' code_def split: if_splits)
qed

lemma unat_byte: "0 \<le> k \<Longrightarrow> k < 256 \<Longrightarrow> unat (word_of_int k :: u8) = nat k"
  by (simp add: unsigned_of_int take_bit_int_eq_self)

lemma hex_pair: "0 \<le> nibble x \<Longrightarrow> 0 \<le> nibble y \<Longrightarrow> hex (of_int (nibble x * 16 + nibble y)) = [x, y]"
proof -
  assume p: "0 \<le> nibble x" "0 \<le> nibble y"
  from hexdigit_nibble [OF p(1)] hexdigit_nibble [OF p(2)] have b: "nibble x < 16" "nibble y < 16"
    and h: "hexdigit (nat (nibble x)) = x" "hexdigit (nat (nibble y)) = y" by auto
  have "unat (of_int (nibble x * 16 + nibble y) :: u8) = nat (nibble x * 16 + nibble y)"
    using p b by (intro unat_byte) simp_all
  also have "\<dots> = nat (nibble x) * 16 + nat (nibble y)" using p by (simp add: nat_add_distrib nat_mult_distrib)
  finally show ?thesis using p b h by (simp add: hex_def)
qed

lemma hex_value: "nibble (hexdigit (unat b div 16)) * 16 + nibble (hexdigit (unat b mod 16)) = int (unat (b :: u8))"
proof -
  have "unat b < 256" using unsigned_less [of b, where ?'a = nat] by simp
  then have "nibble (hexdigit (unat b div 16)) = int (unat b div 16)" "nibble (hexdigit (unat b mod 16)) = int (unat b mod 16)"
    by (simp_all add: nibble_hexdigit less_mult_imp_div_less)
  moreover have "n div 16 * 16 + n mod 16 = n" for n :: nat by simp
  ultimately show ?thesis by (metis of_nat_add of_nat_mult of_nat_numeral)
qed

definition dash_at :: "nat \<Rightarrow> bool" where
  "dash_at i \<longleftrightarrow> i = 8 \<or> i = 13 \<or> i = 18 \<or> i = 23"

text \<open>Parsing a stretch of digit pairs, in both directions.\<close>

lemma uuid_digits_hexs:
  assumes "\<forall>j < length bs. \<not> dash_at (i + 2 * j)" and "length b + length bs \<le> 16"
  shows "uuid_digits i (hexs bs @ s) b = uuid_digits (i + 2 * length bs) s (b @ bs)"
  using assms
proof (induction bs arbitrary: i b)
  case Nil
  then show ?case by (simp add: hexs_def)
next
  case (Cons x bs)
  have d: "\<not> dash_at i" using Cons.prems(1) [rule_format, of 0] by simp
  have s: "\<forall>j < length bs. \<not> dash_at (i + 2 + 2 * j)" using Cons.prems(1) [rule_format, of "Suc j" for j] by (auto simp: algebra_simps)
  have x: "of_int (nibble (hexdigit (unat x div 16)) * 16 + nibble (hexdigit (unat x mod 16))) = x"
    by (simp add: hex_value)
  have lt: "unat x div 16 < 16" "unat x mod 16 < 16" using unsigned_less [of x, where ?'a = nat] by (simp_all add: less_mult_imp_div_less)
  show ?case
    using Cons.IH [OF s, of "b @ [x]"] Cons.prems(2) d x
    by (simp add: hexs_def hex_def dash_at_def nibble_hexdigit [OF lt(1)] nibble_hexdigit [OF lt(2)] algebra_simps)
qed

lemma uuid_digits_stretch:
  assumes "uuid_digits i s b = Ok r" and "\<forall>j < k. \<not> dash_at (i + 2 * j)" and "2 * k \<le> length s"
  shows "\<exists>bs rest. s = hexs bs @ rest \<and> length bs = k \<and> uuid_digits (i + 2 * k) rest (b @ bs) = Ok r"
  using assms
proof (induction k arbitrary: i s b)
  case 0
  then show ?case by (auto simp: hexs_def)
next
  case (Suc k)
  from Suc.prems(3) obtain x y s' where s: "s = x # y # s'" by (cases s rule: remdups_adj.cases) auto
  have d: "\<not> dash_at i" using Suc.prems(2) [rule_format, of 0] by simp
  from Suc.prems(1) d have n: "0 \<le> nibble x" "0 \<le> nibble y"
    and r: "uuid_digits (i + 2) s' (b @ [of_int (nibble x * 16 + nibble y)]) = Ok r"
    by (auto simp: s dash_at_def split: if_splits)
  have "\<forall>j < k. \<not> dash_at (i + 2 + 2 * j)" using Suc.prems(2) [rule_format, of "Suc j" for j] by (auto simp: algebra_simps)
  from Suc.IH [OF r this] Suc.prems(3) obtain bs rest where
    "s' = hexs bs @ rest" "length bs = k" "uuid_digits (i + 2 + 2 * k) rest (b @ [of_int (nibble x * 16 + nibble y)] @ bs) = Ok r"
    by (auto simp: s)
  then show ?case
    using hex_pair [OF n] by (intro exI [of _ "of_int (nibble x * 16 + nibble y) # bs"] exI [of _ rest]) (auto simp: s hexs_def algebra_simps)
qed

lemma uuid_digits_dash:
  "uuid_digits i s b = Ok r \<Longrightarrow> dash_at i \<Longrightarrow> s \<noteq> [] \<Longrightarrow> \<exists>s'. s = CHR ''-'' # s' \<and> uuid_digits (i + 1) s' b = Ok r"
  by (cases s) (auto simp: dash_at_def split: if_splits)

lemma hexs_length [simp]: "length (hexs bs) = 2 * length bs"
  by (induction bs) (auto simp: hexs_def hex_def)

lemma uuid_group:
  assumes "uuid_digits i s b = Ok r" and "\<forall>j < k. \<not> dash_at (i + 2 * j)" and "dash_at (i + 2 * k)" and "2 * k < length s"
  shows "\<exists>bs rest. s = hexs bs @ CHR ''-'' # rest \<and> length bs = k \<and> uuid_digits (i + 2 * k + 1) rest (b @ bs) = Ok r"
proof -
  from uuid_digits_stretch [OF assms(1,2)] assms(4) obtain bs t where
    t: "s = hexs bs @ t" "length bs = k" "uuid_digits (i + 2 * k) t (b @ bs) = Ok r" by auto
  with assms(4) have "t \<noteq> []" by auto
  from uuid_digits_dash [OF t(3) assms(3) this] t(1,2) show ?thesis by auto
qed

lemma uuid_digits_text: "length b = 16 \<Longrightarrow> uuid_digits 0 (uuid_text b) [] = Ok b"
proof -
  assume n: "length b = 16"
  have e: "\<forall>j < 4. \<not> dash_at (0 + 2 * j)" "\<forall>j < 2. \<not> dash_at (9 + 2 * j)" "\<forall>j < 2. \<not> dash_at (14 + 2 * j)"
    "\<forall>j < 2. \<not> dash_at (19 + 2 * j)" "\<forall>j < 6. \<not> dash_at (24 + 2 * j)" by (auto simp: dash_at_def; presburger)+
  define b1 b2 b3 b4 b5 where g: "b1 = take 4 b" "b2 = take 2 (drop 4 b)" "b3 = take 2 (drop 6 b)" "b4 = take 2 (drop 8 b)" "b5 = drop 10 b"
  have l: "length b1 = 4" "length b2 = 2" "length b3 = 2" "length b4 = 2" "length b5 = 6" using n by (simp_all add: g)
  have j: "b1 @ b2 @ b3 @ b4 @ b5 = b"
    using append_take_drop_id [of 4 b] append_take_drop_id [of 2 "drop 4 b"] append_take_drop_id [of 2 "drop 6 b"]
      append_take_drop_id [of 2 "drop 8 b"] by (simp add: g)
  have dash: "dash_at i \<Longrightarrow> uuid_digits i (CHR ''-'' # s) c = uuid_digits (i + 1) s c" for i s c by (simp add: dash_at_def)
  have "uuid_digits 0 (uuid_text b) [] = uuid_digits 8 (CHR ''-'' # hexs b2 @ ''-'' @ hexs b3 @ ''-'' @ hexs b4 @ ''-'' @ hexs b5) b1"
    using uuid_digits_hexs [of b1 0 "[]"] e l by (simp add: uuid_text_def g [symmetric])
  also have "\<dots> = uuid_digits 13 (CHR ''-'' # hexs b3 @ ''-'' @ hexs b4 @ ''-'' @ hexs b5) (b1 @ b2)"
    using uuid_digits_hexs [of b2 9 b1] e l by (simp add: dash dash_at_def del: uuid_digits.simps)
  also have "\<dots> = uuid_digits 18 (CHR ''-'' # hexs b4 @ ''-'' @ hexs b5) (b1 @ b2 @ b3)"
    using uuid_digits_hexs [of b3 14 "b1 @ b2"] e l by (simp add: dash dash_at_def del: uuid_digits.simps)
  also have "\<dots> = uuid_digits 23 (CHR ''-'' # hexs b5) (b1 @ b2 @ b3 @ b4)"
    using uuid_digits_hexs [of b4 19 "b1 @ b2 @ b3"] e l by (simp add: dash dash_at_def del: uuid_digits.simps)
  also have "\<dots> = Ok (b1 @ b2 @ b3 @ b4 @ b5)"
    using uuid_digits_hexs [of b5 24 "b1 @ b2 @ b3 @ b4" "[]"] e l by (simp add: dash dash_at_def del: uuid_digits.simps) simp
  finally show ?thesis using j by simp
qed

lemma uuid_digits_canonical:
  assumes "uuid_digits 0 s [] = Ok b" and "length s = 36"
  shows "length b = 16 \<and> s = uuid_text b"
proof -
  have e: "\<forall>j < 4. \<not> dash_at (0 + 2 * j)" "\<forall>j < 2. \<not> dash_at (9 + 2 * j)" "\<forall>j < 2. \<not> dash_at (14 + 2 * j)"
    "\<forall>j < 2. \<not> dash_at (19 + 2 * j)" "\<forall>j < 6. \<not> dash_at (24 + 2 * j)" by (auto simp: dash_at_def; presburger)+
  obtain b1 r1 where 1: "s = hexs b1 @ CHR ''-'' # r1" "length b1 = 4" "uuid_digits 9 r1 b1 = Ok b"
    using uuid_group [OF assms(1) e(1)] assms(2) by (auto simp: dash_at_def)
  obtain b2 r2 where 2: "r1 = hexs b2 @ CHR ''-'' # r2" "length b2 = 2" "uuid_digits 14 r2 (b1 @ b2) = Ok b"
    using uuid_group [OF 1(3) e(2)] assms(2) 1(1,2) by (auto simp: dash_at_def)
  obtain b3 r3 where 3: "r2 = hexs b3 @ CHR ''-'' # r3" "length b3 = 2" "uuid_digits 19 r3 (b1 @ b2 @ b3) = Ok b"
    using uuid_group [OF 2(3) e(3)] assms(2) 1(1,2) 2(1,2) by (auto simp: dash_at_def)
  obtain b4 r4 where 4: "r3 = hexs b4 @ CHR ''-'' # r4" "length b4 = 2" "uuid_digits 24 r4 (b1 @ b2 @ b3 @ b4) = Ok b"
    using uuid_group [OF 3(3) e(4)] assms(2) 1(1,2) 2(1,2) 3(1,2) by (auto simp: dash_at_def)
  obtain b5 r5 where 5: "r4 = hexs b5 @ r5" "length b5 = 6" "uuid_digits 36 r5 (b1 @ b2 @ b3 @ b4 @ b5) = Ok b"
    using uuid_digits_stretch [OF 4(3) e(5)] assms(2) 1(1,2) 2(1,2) 3(1,2) 4(1,2) by auto
  have "r5 = []" using assms(2) 1 2 3 4 5 by auto
  with 5 have "b = b1 @ b2 @ b3 @ b4 @ b5" by simp
  then show ?thesis using 1(1,2) 2(1,2) 3(1,2) 4(1,2) 5(1,2) \<open>r5 = []\<close> by (simp add: uuid_text_def)
qed

lemma or_all_zero: "foldr (OR) b (0 :: u8) = 0 \<longleftrightarrow> zero b"
  by (induction b) (simp_all add: zero_def or_eq_0_iff)

text \<open>An identity is accepted exactly in its canonical text: 36 characters, lowercase digits and four dashes. \<open>uuid\<close>
  in file-system order returns bytes \<open>b\<close> exactly for the text of \<open>b\<close>, sixteen bytes that are not all zero, and in GPT order
  it returns the same bytes with the first three groups reversed.\<close>

theorem uuid_canonical:
  "(uuid s False = Ok b \<longleftrightarrow> length b = 16 \<and> \<not> zero b \<and> s = uuid_text b)
   \<and> (uuid s True = Ok c \<longleftrightarrow>
     (\<exists>b. uuid s False = Ok b \<and> c = rev (take 4 b) @ rev (take 2 (drop 4 b)) @ rev (take 2 (drop 6 b)) @ drop 8 b))"
proof (rule conjI)
  show "uuid s False = Ok b \<longleftrightarrow> length b = 16 \<and> \<not> zero b \<and> s = uuid_text b"
    by (auto simp: uuid_def or_all_zero uuid_digits_text uuid_text_def [THEN arg_cong [of _ _ length]]
      dest: uuid_digits_canonical split: gate_result.splits if_splits)
  have g: "map ((!) b) gpt_order = rev (take 4 b) @ rev (take 2 (drop 4 b)) @ rev (take 2 (drop 6 b)) @ drop 8 b"
    if "length b = 16" for b :: "u8 list"
    using that by (auto simp: gpt_order_def length_Suc_conv numeral_eq_Suc)
  show "uuid s True = Ok c \<longleftrightarrow>
     (\<exists>b. uuid s False = Ok b \<and> c = rev (take 4 b) @ rev (take 2 (drop 4 b)) @ rev (take 2 (drop 6 b)) @ drop 8 b)"
    by (auto simp: uuid_def g split: gate_result.splits if_splits)
qed

text \<open>C40. The checksum of the GPT headers and of the partition array catches every change of a single byte: two messages
  that differ in one byte have different checksums, wherever the byte is.\<close>

theorem crc32_detects: "a \<noteq> b \<Longrightarrow> crc32 (p @ a # q) \<noteq> crc32 (p @ b # q)"
  using crc.fold_detects [of a b "- 1" p q] by (simp add: crc32_def)

theorem crc32_detects_witness:
  "(0x31 :: u8) \<noteq> 0x30 \<and> crc32 ([0x31, 0x32, 0x33] @ 0x31 # [0x35]) \<noteq> crc32 ([0x31, 0x32, 0x33] @ 0x30 # [0x35])"
  using crc32_detects [of "0x31" "0x30" "[0x31, 0x32, 0x33]" "[0x35]"] by simp

section \<open>The descriptor and the reads\<close>

lemma wp_and_go:
  "wp m (\<lambda>r w'. case r of Ok x \<Rightarrow> wp (k x) Q w' | Stop why \<Rightarrow> Q (Stop why) w' | Unfinished \<Rightarrow> Q Unfinished w') w
   \<Longrightarrow> wp (and_go m k) Q w"
  unfolding and_go_def wp_bind by (erule wp_mono) (auto simp: wp_simps split: gate_result.splits)

lemma wp_die: "(fd_open (drv w) \<Longrightarrow> Q (Stop why) (w\<lparr>hist := hist w @ [(Close, E (hist w) Close)]\<rparr>))
   \<Longrightarrow> (\<not> fd_open (drv w) \<Longrightarrow> Q (Stop why) w) \<Longrightarrow> wp (die E why) Q w"
  by (auto simp: die_def wp_simps)

datatype fd_stage = Unopened | Opened | Closed

text \<open>
  What may be asked for at each stage of the descriptor: the path before it is open, everything about the open file after,
  and nothing once it is closed.
\<close>

fun fd_step :: "fd_stage \<Rightarrow> gate_req \<times> gate_resp \<Rightarrow> fd_stage option" where
  "fd_step Unopened (Lstat p, r) = Some Unopened"
| "fd_step Unopened (OpenRO p, r) = Some (if r = Failed then Unopened else Opened)"
| "fd_step Opened (Lstat p, r) = None"
| "fd_step Opened (OpenRO p, r) = None"
| "fd_step Opened (Close, r) = Some Closed"
| "fd_step Opened (q, r) = Some Opened"
| "fd_step s (q, r) = None"

fun fd_life :: "fd_stage \<Rightarrow> (gate_req \<times> gate_resp) list \<Rightarrow> fd_stage option" where
  "fd_life s [] = Some s"
| "fd_life s (x # h) = (case fd_step s x of None \<Rightarrow> None | Some s' \<Rightarrow> fd_life s' h)"

lemma fd_life_append: "fd_life s (h @ k) = (case fd_life s h of None \<Rightarrow> None | Some s' \<Rightarrow> fd_life s' k)"
  by (induction h arbitrary: s) (auto split: option.splits)

definition reads_inside :: "u64 \<Rightarrow> (gate_req \<times> gate_resp) list \<Rightarrow> bool" where
  "reads_inside M h \<longleftrightarrow> (\<forall>n off. Pread n off \<in> set (reqs h) \<longrightarrow> 0 < n \<and> off + n \<le> unat M \<and> off + n < 2 ^ 63)"

lemma reads_inside_simps [simp]:
  "reads_inside M []" "reads_inside M (h @ k) \<longleftrightarrow> reads_inside M h \<and> reads_inside M k"
  "reads_inside M (x # h) \<longleftrightarrow> (case fst x of Pread n off \<Rightarrow> 0 < n \<and> off + n \<le> unat M \<and> off + n < 2 ^ 63 | _ \<Rightarrow> True) \<and> reads_inside M h"
  by (auto simp: reads_inside_def split: gate_req.splits)

definition opened :: "u64 \<Rightarrow> (gate_req, gate_resp, gate) world \<Rightarrow> bool" where
  "opened M w \<longleftrightarrow> fd_open (drv w) \<and> media_bytes (drv w) = M \<and> fd_life Unopened (hist w) = Some Opened \<and> reads_inside M (hist w)"

definition stopped :: "u64 \<Rightarrow> (gate_req, gate_resp, gate) world \<Rightarrow> bool" where
  "stopped M w \<longleftrightarrow> media_bytes (drv w) = M \<and> fd_life Unopened (hist w) = Some Closed \<and> reads_inside M (hist w)"

text \<open>A step on the open medium leaves it open, or has closed it.\<close>

definition after :: "u64 \<Rightarrow> 'a gate_result \<Rightarrow> (gate_req, gate_resp, gate) world \<Rightarrow> bool" where
  "after M r w = (case r of Stop why \<Rightarrow> stopped M w | _ \<Rightarrow> opened M w)"

lemma after_simps [simp]: "after M (Stop why) = stopped M" "after M (Ok x) = opened M" "after M Unfinished = opened M"
  by (auto simp: after_def fun_eq_iff)

definition on_medium :: "u64 \<Rightarrow> 'a gate_prog \<Rightarrow> bool" where
  "on_medium M m \<longleftrightarrow> (unat M < 2 ^ 63 \<longrightarrow> (\<forall>w. opened M w \<longrightarrow> wp m (after M) w))"

named_theorems on_medium_intros \<open>how \<open>on_medium\<close> is established for a program\<close>

lemma on_mediumI: "(\<And>w. unat M < 2 ^ 63 \<Longrightarrow> opened M w \<Longrightarrow> wp m (after M) w) \<Longrightarrow> on_medium M m"
  by (simp add: on_medium_def)

lemma on_mediumD: "on_medium M m \<Longrightarrow> unat M < 2 ^ 63 \<Longrightarrow> opened M w \<Longrightarrow> wp m (after M) w"
  by (simp add: on_medium_def)

lemma on_medium_return [on_medium_intros]: "on_medium M (return (Ok x))" "on_medium M (return Unfinished)"
  by (simp_all add: on_medium_def wp_simps)

lemma on_medium_die [on_medium_intros]: "on_medium M (die E why)"
  by (rule on_mediumI, rule wp_die) (auto simp: opened_def stopped_def fd_life_append)

lemma on_medium_checked [on_medium_intros]: "on_medium M (checked E r)"
  by (cases r) (auto simp: checked_def intro: on_medium_intros)

lemma on_medium_if [on_medium_intros]:
  "(b \<Longrightarrow> on_medium M m) \<Longrightarrow> (\<not> b \<Longrightarrow> on_medium M k) \<Longrightarrow> on_medium M (if b then m else k)"
  by simp

lemma on_medium_case_prod [on_medium_intros]: "(\<And>a b. on_medium M (k a b)) \<Longrightarrow> on_medium M (case x of (a, b) \<Rightarrow> k a b)"
  by (cases x) simp

lemma on_medium_and_go [on_medium_intros]:
  "on_medium M m \<Longrightarrow> (\<And>x. on_medium M (k x)) \<Longrightarrow> on_medium M (and_go m k)"
  by (rule on_mediumI, rule wp_and_go, rule wp_mono [OF on_mediumD])
    (auto intro: on_mediumD split: gate_result.splits)

lemma opened_step:
  "opened M w \<Longrightarrow> fd_step Opened (q, r) = Some Opened \<Longrightarrow> (\<And>n off. q = Pread n off \<Longrightarrow> 0 < n \<and> off + n \<le> unat M \<and> off + n < 2 ^ 63)
   \<Longrightarrow> opened M (w\<lparr>hist := hist w @ [(q, r)]\<rparr>)"
  by (auto simp: opened_def fd_life_append split: gate_req.splits)

lemma on_medium_call:
  assumes "\<And>r. fd_step Opened (q, r) = Some Opened" and "\<And>n off. unat M < 2 ^ 63 \<Longrightarrow> q = Pread n off \<Longrightarrow> 0 < n \<and> off + n \<le> unat M \<and> off + n < 2 ^ 63"
    and "\<And>r. on_medium M (k r)"
  shows "on_medium M (State_Monad.bind (call E q) k)"
  by (rule on_mediumI) (auto simp: wp_simps intro!: on_mediumD [OF assms(3)] opened_step assms(1,2))

lemma on_medium_case_resp [on_medium_intros]:
  "on_medium M a \<Longrightarrow> on_medium M b \<Longrightarrow> on_medium M c \<Longrightarrow> (\<And>x. on_medium M (d x)) \<Longrightarrow> (\<And>x. on_medium M (e x)) \<Longrightarrow>
   (\<And>x. on_medium M (f x)) \<Longrightarrow>
   on_medium M (case r of Failed \<Rightarrow> a | Interrupted \<Rightarrow> b | Done \<Rightarrow> c | StatIs x \<Rightarrow> d x | Number x \<Rightarrow> e x | Data x \<Rightarrow> f x)"
  by (cases r) simp_all

lemma on_medium_read_loop [on_medium_intros]:
  "off + n \<le> unat M \<Longrightarrow> on_medium M (read_loop fuel E q n off)"
proof (induction fuel arbitrary: q n off)
  case 0
  then show ?case by (cases n) (simp_all add: on_medium_intros)
next
  case (Suc fuel)
  show ?case
  proof (cases n)
    case (Suc m)
    have "off + length k + (Suc m - length k) \<le> unat M" if "k = take (Suc m) bs" for k and bs :: "u8 list"
      using Suc.prems that Suc by simp
    then show ?thesis
      unfolding Suc read_loop.simps(3) Let_def
      using Suc.prems Suc by (intro on_medium_call on_medium_intros Suc.IH) auto
  qed (simp add: on_medium_intros)
qed

lemma unat_inside: "\<not> (M < off \<or> M - off < n) \<Longrightarrow> unat off + unat n \<le> unat (M :: u64)"
proof -
  assume "\<not> (M < off \<or> M - off < n)"
  then have "unat (M - off) = unat M - unat off" "unat n \<le> unat (M - off)" "unat off \<le> unat M"
    by (auto simp: unat_sub word_le_nat_alt word_less_nat_alt)
  then show ?thesis by simp
qed

lemma on_medium_read_at [on_medium_intros]: "on_medium M (read_at fuel E n off)"
proof (rule on_mediumI)
  fix w
  assume b: "unat M < 2 ^ 63" and o: "opened M w"
  have l: "on_medium M (read_loop fuel E [] (unat n) (unat off))" if "\<not> (M < off \<or> M - off < n)"
    using that by (intro on_medium_read_loop unat_inside)
  show "wp (read_at fuel E n off) (after M) w"
    unfolding read_at_def
    using b o l by (auto simp: wp_simps opened_def intro!: on_mediumD on_medium_die)
qed

lemma on_medium_read_header [on_medium_intros]: "on_medium M (read_header fuel E lba sectors)"
  unfolding read_header_def by (intro on_medium_intros)

lemma on_medium_read_array [on_medium_intros]: "on_medium M (read_array fuel E h)"
  unfolding read_array_def by (intro on_medium_call on_medium_intros) auto

lemma on_medium_check_media [on_medium_intros]: "on_medium M (check_media fuel E i sectors)"
  unfolding check_media_def by (intro on_medium_intros)

definition unopened :: "(gate_req, gate_resp, gate) world \<Rightarrow> bool" where
  "unopened w \<longleftrightarrow> \<not> fd_open (drv w) \<and> fd_life Unopened (hist w) = Some Unopened \<and> (\<forall>M. reads_inside M (hist w))"

text \<open>What has become of the descriptor when the program ends.\<close>

definition gate_ended :: "report gate_result \<Rightarrow> (gate_req, gate_resp, gate) world \<Rightarrow> bool" where
  "gate_ended r w = (case r of
     Ok rep \<Rightarrow> stopped (r_media rep) w
   | Stop why \<Rightarrow> unopened w \<or> stopped (media_bytes (drv w)) w
   | Unfinished \<Rightarrow> opened (media_bytes (drv w)) w)"

lemma wp_checked_unopened:
  "unopened w \<Longrightarrow> (\<And>x. r = Ok x \<Longrightarrow> Q (Ok x) w) \<Longrightarrow> (\<And>why. Q (Stop why) w) \<Longrightarrow> r \<noteq> Unfinished \<Longrightarrow> wp (checked E r) Q w"
  by (cases r) (auto simp: checked_def wp_simps unopened_def intro: wp_die)

lemma check_path_unopened:
  "unopened w \<Longrightarrow> wp (check_path E opt path) (\<lambda>r w'. unopened w' \<and> r \<noteq> Unfinished) w"
  unfolding check_path_def
  by (auto simp: wp_simps unopened_def fd_life_append intro!: wp_die split: gate_resp.splits)

definition open_post :: "options \<Rightarrow> unit gate_result \<Rightarrow> (gate_req, gate_resp, gate) world \<Rightarrow> bool" where
  "open_post opt r w = (case r of
     Ok _ \<Rightarrow> opened (o_media opt) w | Stop why \<Rightarrow> unopened w \<or> stopped (media_bytes (drv w)) w | Unfinished \<Rightarrow> False)"

lemma open_media_post: "unopened w \<Longrightarrow> wp (open_media E opt path before) (open_post opt) w"
  unfolding open_media_def media_size_def
  by (auto simp: wp_simps unopened_def opened_def stopped_def fd_life_append open_post_def intro!: wp_die wp_and_go
    split: gate_resp.splits)

lemma finish_post: "opened M w \<Longrightarrow> wp (finish E) (\<lambda>r w'. r = Ok () \<and> stopped M w') w"
  by (auto simp: finish_def wp_simps opened_def stopped_def fd_life_append)

named_theorems not_unfinished \<open>the pure parts decide\<close>

lemma number_decides [not_unfinished]: "number s \<noteq> Unfinished"
  by (simp add: number_def)

lemma parse_option_decides [not_unfinished]: "parse_option name v opt \<noteq> Unfinished"
  by (auto simp: parse_option_def set_number_def not_unfinished split: gate_result.splits)

lemma parse_args_decides [not_unfinished]: "parse_args args opt \<noteq> Unfinished"
  by (induction args opt rule: parse_args.induct) (auto simp: not_unfinished split: gate_result.splits)

lemma lengths_check_decides [not_unfinished]: "lengths_check opt \<noteq> Unfinished"
  by (simp add: lengths_check_def)

lemma uuid_digits_decides [not_unfinished]: "uuid_digits i s b \<noteq> Unfinished"
proof (induction i s b rule: uuid_digits.induct)
  case (2 i x s b)
  then show ?case unfolding uuid_digits.simps(2) [of i x s b] by (auto simp del: uuid_digits.simps split: list.split)
qed simp

lemma uuid_decides [not_unfinished]: "uuid s g \<noteq> Unfinished"
  by (auto simp: uuid_def not_unfinished split: gate_result.splits)

lemma parse_ids_decides [not_unfinished]: "parse_ids d p f \<noteq> Unfinished"
  by (auto simp: parse_ids_def not_unfinished split: gate_result.splits)

lemma lengths_check_bound: "lengths_check opt = Ok u \<Longrightarrow> unat (o_media opt) < 2 ^ 63"
  by (auto simp: lengths_check_def word_less_nat_alt split: if_splits)

text \<open>From the open path to the end.\<close>

definition after_open :: "nat \<Rightarrow> gate_env \<Rightarrow> options \<Rightarrow> ids \<Rightarrow> (u64 \<times> u64 \<Rightarrow> report) \<Rightarrow> report gate_prog" where
  "after_open fuel E opt i mk =
     and_go (check_media fuel E i (o_layout opt div SECTOR)) (\<lambda>(first, last_lba).
     and_go (finish E) (\<lambda>_. return (Ok (mk (first, last_lba)))))"

lemma after_open_ended:
  assumes "opened (o_media opt) w" and "unat (o_media opt) < 2 ^ 63" and "\<And>x. r_media (mk x) = o_media opt"
  shows "wp (after_open fuel E opt i mk) gate_ended w"
proof -
  have "wp (finish E) (\<lambda>r w'. case r of Ok x \<Rightarrow> wp (return (Ok (mk y))) gate_ended w'
      | Stop why \<Rightarrow> gate_ended (Stop why) w' | Unfinished \<Rightarrow> gate_ended Unfinished w') w'" if "opened (o_media opt) w'" for y w'
    using assms(3) by (intro wp_mono [OF finish_post [OF that]]) (auto simp: wp_simps gate_ended_def)
  then have go: "opened (o_media opt) w' \<Longrightarrow> wp (and_go (finish E) (\<lambda>_. return (Ok (mk y)))) gate_ended w'" for y w'
    by (intro wp_and_go)
  have e: "opened M w' \<Longrightarrow> gate_ended Unfinished w'" "stopped M w' \<Longrightarrow> gate_ended (Stop why) w'" for M w' why
    by (simp_all add: gate_ended_def opened_def stopped_def)
  show ?thesis
    unfolding after_open_def
    by (intro wp_and_go wp_mono [OF on_mediumD [OF on_medium_check_media assms(2,1)]])
      (auto simp: wp_simps intro: go e split: gate_result.splits)
qed

lemma path_and_open_ended:
  assumes "unopened w" and "unat (o_media opt) < 2 ^ 63" and "\<And>x. r_media (mk x) = o_media opt"
  shows "wp (and_go (check_path E opt path) (\<lambda>before. and_go (open_media E opt path before)
    (\<lambda>_. after_open fuel E opt i mk))) gate_ended w"
proof -
  have o: "wp (and_go (open_media E opt path before) (\<lambda>_. after_open fuel E opt i mk)) gate_ended w'" if "unopened w'" for before w'
    using assms(2,3) by (intro wp_and_go wp_mono [OF open_media_post [OF that]])
      (auto simp: open_post_def gate_ended_def intro!: after_open_ended split: gate_result.splits)
  show ?thesis
    by (intro wp_and_go wp_mono [OF check_path_unopened [OF assms(1)]]) (auto simp: gate_ended_def o split: gate_result.splits)
qed

lemma gate_main_ended:
  assumes "unopened w"
  shows "wp (gate_main fuel E args) gate_ended w"
proof -
  have stop: "gate_ended (Stop why) w" for why using assms by (simp add: gate_ended_def)
  have d: "wp (die E why) gate_ended w" for why using assms stop by (intro wp_die) (auto simp: unopened_def)
  have c: "wp (checked E r) (\<lambda>r' w'. case r' of Ok x \<Rightarrow> wp (k x) gate_ended w' | Stop why \<Rightarrow> gate_ended (Stop why) w'
      | Unfinished \<Rightarrow> gate_ended Unfinished w') w"
    if "\<And>x. r = Ok x \<Longrightarrow> wp (k x) gate_ended w" "r \<noteq> Unfinished" for r :: "'a gate_result" and k
    using that assms stop by (intro wp_checked_unopened) auto
  show ?thesis
    unfolding gate_main_def
    apply (rule wp_and_go, rule c, simp_all only: not_unfinished not_False_eq_True)
    subgoal for opt
      apply (auto simp: d split: option.splits)
      subgoal for path dd p f
        apply (rule wp_and_go, rule c, simp_all only: not_unfinished not_False_eq_True)
        apply (rule wp_and_go, rule c, simp_all only: not_unfinished not_False_eq_True)
        subgoal for u i
          using path_and_open_ended [OF assms lengths_check_bound, of opt u
              "\<lambda>(first, last_lba). \<lparr>r_disk_guid = dd, r_partuuid = p, r_fsuuid = f, r_first = first, r_last = last_lba,
                r_media = o_media opt, r_layout = o_layout opt\<rparr>" E path fuel i]
          by (auto simp: after_open_def)
        done
      done
    done
qed

definition gate_start :: "(gate_req, gate_resp, gate) world" where
  "gate_start = \<lparr>hist = [], drv = \<lparr>fd_open = False, media_bytes = 0\<rparr>\<rparr>"

end
