(* ===== verification/Usb_Verdict.thy ===== *)
theory Usb_Verdict
  imports Usb_Root
begin

text \<open>
  What the gate for the USB root decides. On a medium that is read faithfully, whatever the pieces and interruptions,
  the program computes the function \<open>media_check\<close> of its contents (the framework \<open>gives\<close>), and a positive verdict
  means the layout \<open>root_layout\<close>, which is stated on sector numbers and byte positions as natural numbers. The
  last section has a complete medium of 2054 sectors that is accepted; its checksums are evaluated by a copy
  of the checksum on integers.
\<close>

section \<open>The verdict\<close>

text \<open>A medium is its contents; a faithful one answers \<open>pread\<close> with a first part of what is there and interrupts at most \<open>m\<close> times.\<close>

type_synonym medium = "nat \<Rightarrow> u8"

definition bytes_at :: "medium \<Rightarrow> nat \<Rightarrow> nat \<Rightarrow> u8 list" where
  "bytes_at D off n = map D [off..<off + n]"

definition interrupts :: "(gate_req \<times> gate_resp) list \<Rightarrow> nat" where
  "interrupts h = length (filter (\<lambda>x. snd x = Interrupted) h)"

definition good_read :: "medium \<Rightarrow> nat \<Rightarrow> nat \<Rightarrow> u8 list \<Rightarrow> bool" where
  "good_read D off n bs \<longleftrightarrow> bs \<noteq> [] \<and> length bs \<le> n \<and> bs = bytes_at D off (length bs)"

definition faithful :: "medium \<Rightarrow> u64 \<Rightarrow> nat \<Rightarrow> gate_env \<Rightarrow> bool" where
  "faithful D M m E \<longleftrightarrow>
     (\<forall>h n off. 0 < n \<longrightarrow> off + n \<le> unat M \<longrightarrow>
        (\<exists>bs. E h (Pread n off) = Data bs \<and> good_read D off n bs) \<or> E h (Pread n off) = Interrupted \<and> interrupts h < m)
     \<and> (\<forall>h n. E h (Malloc n) \<noteq> Failed)"

lemma bytes_at_length [simp]: "length (bytes_at D off n) = n"
  by (simp add: bytes_at_def)

lemma bytes_at_append: "bytes_at D off k @ bytes_at D (off + k) n = bytes_at D off (k + n)"
  unfolding bytes_at_def using upt_add_eq_append [of off "off + k" n] by (simp add: add.assoc)

lemma interrupts_simps [simp]:
  "interrupts (h @ [(q, r)]) = interrupts h + (if r = Interrupted then 1 else 0)"
  by (simp add: interrupts_def)

lemma read_loop_gives:
  assumes "faithful D M m E" and "off + n \<le> unat M" and "n + (m - interrupts (hist w)) \<le> fuel"
  shows "wp (read_loop fuel E q n off) (\<lambda>r w'. r = Ok (q @ bytes_at D off n) \<and> drv w' = drv w) w"
  using assms(2,3)
proof (induction fuel arbitrary: q n off w)
  case 0
  then show ?case by (simp add: wp_simps bytes_at_def)
next
  case (Suc fuel)
  show ?case
  proof (cases n)
    case 0
    then show ?thesis by (simp add: wp_simps bytes_at_def)
  next
    case n: (Suc j)
    let ?w = "\<lambda>r. w\<lparr>hist := hist w @ [(Pread (Suc j) off, r)]\<rparr>"
    from assms(1) Suc.prems(1) n consider
        (data) bs where "E (hist w) (Pread (Suc j) off) = Data bs" "good_read D off (Suc j) bs"
      | (intr) "E (hist w) (Pread (Suc j) off) = Interrupted" "interrupts (hist w) < m"
      unfolding faithful_def by blast
    then show ?thesis
    proof cases
      case data
      from data(2) have k: "take (Suc j) bs = bs" "bs \<noteq> []" "length bs \<le> Suc j" "0 < length bs" and s: "bs = bytes_at D off (length bs)"
        by (simp_all add: good_read_def)
      have "Suc j - length bs + (m - interrupts (hist w)) \<le> fuel" using Suc.prems(2) n k(4) by linarith
      then have "wp (read_loop fuel E (q @ bs) (Suc j - length bs) (off + length bs))
          (\<lambda>r w'. r = Ok ((q @ bs) @ bytes_at D (off + length bs) (Suc j - length bs)) \<and> drv w' = drv (?w (Data bs))) (?w (Data bs))"
        using Suc.prems(1) n k(3) by (intro Suc.IH) simp_all
      moreover have "bs @ bytes_at D (off + length bs) (Suc j - length bs) = bytes_at D off (Suc j)"
        using bytes_at_append [of D off "length bs" "Suc j - length bs"] s k(3) by simp
      ultimately show ?thesis by (simp add: n wp_simps data(1) k Let_def)
    next
      case intr
      have "wp (read_loop fuel E q (Suc j) off) (\<lambda>r w'. r = Ok (q @ bytes_at D off (Suc j)) \<and> drv w' = drv (?w Interrupted)) (?w Interrupted)"
        using Suc.prems n intr(2) by (intro Suc.IH) auto
      then show ?thesis by (simp add: n wp_simps intr(1))
    qed
  qed
qed

text \<open>\<open>gives M v m\<close>: on a medium of \<open>M\<close> bytes, \<open>m\<close> has the result \<open>v\<close> and leaves the globals as they are.\<close>

definition gives :: "u64 \<Rightarrow> 'a gate_result \<Rightarrow> 'a gate_prog \<Rightarrow> bool" where
  "gives M v m \<longleftrightarrow> (\<forall>w. media_bytes (drv w) = M \<longrightarrow> wp m (\<lambda>r w'. r = v \<and> drv w' = drv w) w)"

named_theorems gives_intros \<open>the result of a program\<close>

lemma givesI: "(\<And>w. media_bytes (drv w) = M \<Longrightarrow> wp m (\<lambda>r w'. r = v \<and> drv w' = drv w) w) \<Longrightarrow> gives M v m"
  by (simp add: gives_def)

lemma givesD: "gives M v m \<Longrightarrow> media_bytes (drv w) = M \<Longrightarrow> wp m (\<lambda>r w'. r = v \<and> drv w' = drv w) w"
  by (simp add: gives_def)

fun then_go :: "'a gate_result \<Rightarrow> ('a \<Rightarrow> 'b gate_result) \<Rightarrow> 'b gate_result" where
  "then_go (Ok x) f = f x"
| "then_go (Stop why) f = Stop why"
| "then_go Unfinished f = Unfinished"

lemma gives_and_go [gives_intros]:
  assumes "gives M v m" and "\<And>x. v = Ok x \<Longrightarrow> gives M (f x) (k x)"
  shows "gives M (then_go v f) (and_go m k)"
proof (rule givesI, rule wp_and_go)
  fix w :: "(gate_req, gate_resp, gate) world"
  assume M: "media_bytes (drv w) = M"
  show "wp m (\<lambda>r w'. case r of Ok x \<Rightarrow> wp (k x) (\<lambda>r w'. r = then_go v f \<and> drv w' = drv w) w'
    | Stop why \<Rightarrow> Stop why = then_go v f \<and> drv w' = drv w | Unfinished \<Rightarrow> Unfinished = then_go v f \<and> drv w' = drv w) w"
  proof (rule wp_mono [OF givesD [OF assms(1) M]], elim conjE)
    fix r :: "'a gate_result" and w' :: "(gate_req, gate_resp, gate) world"
    assume "r = v" "drv w' = drv w"
    then show "case r of Ok x \<Rightarrow> wp (k x) (\<lambda>r w'. r = then_go v f \<and> drv w' = drv w) w'
      | Stop why \<Rightarrow> Stop why = then_go v f \<and> drv w' = drv w | Unfinished \<Rightarrow> Unfinished = then_go v f \<and> drv w' = drv w"
      using givesD [OF assms(2), of _ w'] M by (cases v) simp_all
  qed
qed

lemma gives_return [gives_intros]: "gives M v (return v)"
  by (simp add: gives_def wp_simps)

lemma gives_die [gives_intros]: "gives M (Stop why) (die E why)"
  by (auto simp: gives_def intro!: wp_die)

lemma gives_checked [gives_intros]: "gives M v (checked E v)"
  by (cases v) (auto simp: checked_def intro: gives_intros)

lemma gives_case_prod [gives_intros]: "(\<And>a b. gives M (v a b) (k a b)) \<Longrightarrow> gives M (case x of (a, b) \<Rightarrow> v a b) (case x of (a, b) \<Rightarrow> k a b)"
  by (cases x) simp

definition pure_read :: "medium \<Rightarrow> u64 \<Rightarrow> u64 \<Rightarrow> u64 \<Rightarrow> (u8 list) gate_result" where
  "pure_read D M n off =
     (if M < off \<or> M - off < n \<or> 0x7fffffffffffffff < off then Stop ''read outside pinned media bounds''
      else Ok (bytes_at D (unat off) (unat n)))"

lemma gives_read_at [gives_intros]:
  assumes "faithful D M m E" and "unat n + m \<le> fuel"
  shows "gives M (pure_read D M n off) (read_at fuel E n off)"
proof (rule givesI)
  fix w :: "(gate_req, gate_resp, gate) world"
  assume M: "media_bytes (drv w) = M"
  show "wp (read_at fuel E n off) (\<lambda>r w'. r = pure_read D M n off \<and> drv w' = drv w) w"
  proof (cases "M < off \<or> M - off < n \<or> 0x7fffffffffffffff < off")
    case True
    then show ?thesis using M givesD [OF gives_die M] by (simp add: read_at_def wp_simps pure_read_def)
  next
    case False
    have "wp (read_loop fuel E [] (unat n) (unat off)) (\<lambda>r w'. r = Ok ([] @ bytes_at D (unat off) (unat n)) \<and> drv w' = drv w) w"
      using assms(2) False by (intro read_loop_gives [OF assms(1)] unat_inside) auto
    then show ?thesis using M False by (simp add: read_at_def wp_simps pure_read_def)
  qed
qed

definition media_header :: "medium \<Rightarrow> u64 \<Rightarrow> u64 \<Rightarrow> u64 \<Rightarrow> header gate_result" where
  "media_header D M lba sectors = then_go (pure_read D M SECTOR (lba * SECTOR)) (header_check lba sectors)"

definition media_array :: "medium \<Rightarrow> u64 \<Rightarrow> header \<Rightarrow> (u8 list) gate_result" where
  "media_array D M h = then_go (pure_read D M (array_bytes h) (h_table h * SECTOR)) (array_check h)"

text \<open>What the gate decides of the contents of a medium of \<open>M\<close> bytes.\<close>

definition media_check :: "medium \<Rightarrow> u64 \<Rightarrow> ids \<Rightarrow> u64 \<Rightarrow> (u64 \<times> u64) gate_result" where
  "media_check D M i sectors =
     then_go (pure_read D M SECTOR 0) (\<lambda>mbr.
     then_go (mbr_check sectors mbr) (\<lambda>_.
     then_go (media_header D M 1 sectors) (\<lambda>a.
     then_go (media_header D M (sectors - 1) sectors) (\<lambda>b.
     then_go (pair_check (disk_guid i) a b) (\<lambda>_.
     then_go (media_array D M a) (\<lambda>pa.
     then_go (media_array D M b) (\<lambda>pb.
     then_go (if pa \<noteq> pb then Stop ''GPT partition arrays disagree'' else Ok ()) (\<lambda>_.
     then_go (root_check a (type_guid i) (part_guid i) pa) (\<lambda>(first, last_lba).
     then_go (pure_read D M 1024 (first * SECTOR + 1024)) (\<lambda>sb.
     then_go (ext4_check (fs_uuid i) first last_lba sb) (\<lambda>_.
     Ok (first, last_lba))))))))))))"

lemma then_go_Ok: "then_go v f = Ok y \<longleftrightarrow> (\<exists>x. v = Ok x \<and> f x = Ok y)"
  by (cases v) auto

lemma header_check_geometry: "header_check lba sectors b = Ok h \<Longrightarrow> \<not> bad_geometry lba sectors h"
  by (auto simp: header_check_def Let_def split: if_splits)

lemma unat_array_bytes: "unat (array_bytes h) = unat (h_count h) * unat (h_entry_size h)"
proof -
  have b: "unat (h_count h) < 2 ^ 32" "unat (h_entry_size h) < 2 ^ 32" using unsigned_less [of "h_count h", where ?'a = nat]
      unsigned_less [of "h_entry_size h", where ?'a = nat] by simp_all
  then have "unat (h_count h) * unat (h_entry_size h) < 2 ^ 32 * 2 ^ 32" by (intro mult_strict_mono) simp_all
  then show ?thesis
    by (simp add: array_bytes_def unat_word_ariths unat_ucast_u64)
qed

lemma geometry_array_small: "\<not> bad_geometry lba sectors h \<Longrightarrow> unat (array_bytes h) \<le> 2 ^ 20"
proof -
  assume "\<not> bad_geometry lba sectors h"
  then have "h_count h \<le> MAX_ARRAY div h_entry_size h" by (simp add: bad_geometry_def not_less)
  then have "unat (h_count h) \<le> 2 ^ 20 div unat (h_entry_size h)" by (simp add: word_le_nat_alt unat_div MAX_ARRAY_def)
  then have "unat (h_count h) * unat (h_entry_size h) \<le> 2 ^ 20 div unat (h_entry_size h) * unat (h_entry_size h)" by (rule mult_le_mono1)
  also have "\<dots> \<le> 2 ^ 20" by (rule div_times_less_eq_dividend)
  finally show ?thesis by (simp add: unat_array_bytes)
qed

lemma media_header_small: "media_header D M lba sectors = Ok h \<Longrightarrow> unat (array_bytes h) \<le> 2 ^ 20"
  by (auto simp: media_header_def then_go_Ok dest!: header_check_geometry geometry_array_small)

lemma gives_read_header [gives_intros]:
  "faithful D M m E \<Longrightarrow> 512 + m \<le> fuel \<Longrightarrow> gives M (media_header D M lba sectors) (read_header fuel E lba sectors)"
  unfolding read_header_def media_header_def by (intro gives_intros) (auto simp: SECTOR_def)

lemma gives_read_array [gives_intros]:
  assumes "faithful D M m E" and "unat (array_bytes h) + m \<le> fuel"
  shows "gives M (media_array D M h) (read_array fuel E h)"
proof -
  have "gives M (media_array D M h) (and_go (read_at fuel E (array_bytes h) (h_table h * SECTOR)) (\<lambda>p. checked E (array_check h p)))"
    unfolding media_array_def using assms by (intro gives_intros)
  note g = givesD [OF this]
  have ok: "E h' (Malloc n) \<noteq> Failed" for h' n using assms(1) by (simp add: faithful_def)
  show ?thesis
  proof (rule givesI)
    fix w :: "(gate_req, gate_resp, gate) world"
    assume "media_bytes (drv w) = M"
    with g [of "w\<lparr>hist := hist w @ [(Malloc n, r)]\<rparr>" for n r] ok
    show "wp (read_array fuel E h) (\<lambda>r w'. r = media_array D M h \<and> drv w' = drv w) w"
      by (simp add: read_array_def wp_simps)
  qed
qed

lemma gives_check_media:
  assumes "faithful D M m E" and "2 ^ 20 + m \<le> fuel"
  shows "gives M (media_check D M i sectors) (check_media fuel E i sectors)"
  unfolding check_media_def media_check_def
  using assms by (intro gives_intros) (auto simp: SECTOR_def dest!: media_header_small)

section \<open>What an accepted medium holds\<close>

text \<open>
  The layout that the gate promises, in exact arithmetic on sector numbers and byte positions: the primary header and
  array, the usable sectors, the root partition inside them, the backup array and header, in this order and without
  overlap up to the last sector of the layout; both copies equal and with the expected identities; no second partition;
  a file system with the expected identity that fits the partition.
\<close>

definition array_span :: "header \<Rightarrow> nat" where
  "array_span h = (unat (h_count h) * unat (h_entry_size h) + 511) div 512"

definition root_order :: "header \<Rightarrow> header \<Rightarrow> nat \<Rightarrow> nat \<Rightarrow> nat \<Rightarrow> bool" where
  "root_order a b S first last_lba \<longleftrightarrow>
     h_table a = 2 \<and> 2 + array_span a \<le> unat (h_first a) \<and> unat (h_first a) \<le> first \<and> first \<le> last_lba \<and> last_lba \<le> unat (h_last a)
     \<and> unat (h_last a) < unat (h_table b) \<and> unat (h_table b) + array_span a + 1 = S"

definition root_copies :: "medium \<Rightarrow> header \<Rightarrow> header \<Rightarrow> ids \<Rightarrow> bool" where
  "root_copies D a b i \<longleftrightarrow>
     (let n = unat (h_count a) * unat (h_entry_size a)
      in h_guid a = disk_guid i \<and> h_guid b = disk_guid i \<and> h_first b = h_first a \<and> h_last b = h_last a
         \<and> bytes_at D 1024 n = bytes_at D (unat (h_table b) * 512) n
         \<and> crc32 (bytes_at D 1024 n) = h_array_crc a \<and> h_array_crc b = h_array_crc a
         \<and> bytes_at D 1024 16 = type_guid i \<and> bytes_at D 1040 16 = part_guid i
         \<and> zero (bytes_at D (1024 + unat (h_entry_size a)) (n - unat (h_entry_size a))))"

definition root_fs :: "medium \<Rightarrow> ids \<Rightarrow> nat \<Rightarrow> nat \<Rightarrow> bool" where
  "root_fs D i first last_lba \<longleftrightarrow>
     (let sb = bytes_at D (first * 512 + 1024) 1024
      in bytes_at D (first * 512 + 1024 + 104) 16 = fs_uuid i
         \<and> 0 < ext4_blocks sb \<and> unat (ext4_blocks sb) * 2 ^ (10 + unat (le32 sb 24)) \<le> (last_lba - first + 1) * 512)"

definition root_layout :: "medium \<Rightarrow> nat \<Rightarrow> ids \<Rightarrow> nat \<Rightarrow> nat \<Rightarrow> bool" where
  "root_layout D S i first last_lba \<longleftrightarrow>
     (let a = header_fields (bytes_at D 512 512); b = header_fields (bytes_at D ((S - 1) * 512) 512)
      in root_order a b S first last_lba \<and> root_copies D a b i \<and> root_fs D i first last_lba)"

lemma unat_sector: "unat (lba :: u64) * 512 < 2 ^ 64 \<Longrightarrow> unat (lba * SECTOR) = unat lba * 512"
  by (simp add: SECTOR_def unat_word_ariths)

lemma unat_array_sectors: "\<not> bad_geometry lba sectors h \<Longrightarrow> unat (array_sectors h) = array_span h"
proof -
  assume "\<not> bad_geometry lba sectors h"
  from geometry_array_small [OF this] have n: "unat (array_bytes h) \<le> 2 ^ 20" .
  have e: "array_bytes h + SECTOR - 1 = array_bytes h + 511" by (simp add: SECTOR_def)
  have "unat (array_bytes h + 511) = unat (array_bytes h) + 511" using n by (simp add: unat_word_ariths)
  then have "unat ((array_bytes h + SECTOR - 1) div SECTOR) = (unat (array_bytes h) + 511) div 512"
    unfolding e by (simp add: unat_div SECTOR_def)
  then show ?thesis by (simp add: array_sectors_def array_span_def unat_array_bytes array_bytes_def [symmetric])
qed

lemma unat_add_le: "unat (y :: u64) \<le> unat (x - t) \<Longrightarrow> t \<le> x \<Longrightarrow> unat (t + y) = unat t + unat y \<and> unat t + unat y \<le> unat x"
proof -
  assume y: "unat y \<le> unat (x - t)" and t: "t \<le> x"
  then have "unat t + unat y \<le> unat x" by (simp add: unat_sub word_le_nat_alt)
  moreover have "unat x < 2 ^ 64" using unsigned_less [of x, where ?'a = nat] by simp
  ultimately show ?thesis by (simp add: unat_word_ariths)
qed

lemma header_exact:
  assumes "header_check lba sectors b = Ok h"
  shows "h = header_fields b" "unat (h_first h) \<le> unat (h_last h)" "unat (h_table h) + array_span h \<le> unat sectors"
    "lba = 1 \<Longrightarrow> h_table h = 2 \<and> 2 + array_span h \<le> unat (h_first h)"
    "lba \<noteq> 1 \<Longrightarrow> unat (h_last h) < unat (h_table h) \<and> unat (h_table h) + array_span h = unat lba"
proof -
  note g = header_check_geometry [OF assms]
  note s = unat_array_sectors [OF g]
  show "h = header_fields b" using assms by (auto simp: header_check_def Let_def split: if_splits)
  show "unat (h_first h) \<le> unat (h_last h)" using g by (simp add: bad_geometry_def not_less word_le_nat_alt)
  from assms have t: "h_table h \<le> sectors" "array_sectors h \<le> sectors - h_table h"
    and p: "lba = 1 \<Longrightarrow> h_table h = 2 \<and> h_table h + array_sectors h \<le> h_first h"
    and q: "lba \<noteq> 1 \<Longrightarrow> h_last h < h_table h \<and> h_table h + array_sectors h = lba"
    by (auto simp: header_check_def Let_def not_less not_le split: if_splits)
  from unat_add_le [OF t(2) [unfolded word_le_nat_alt] t(1)] have u:
    "unat (h_table h + array_sectors h) = unat (h_table h) + array_span h" "unat (h_table h) + array_span h \<le> unat sectors"
    by (simp_all add: s)
  show "unat (h_table h) + array_span h \<le> unat sectors" by (rule u)
  show "h_table h = 2 \<and> 2 + array_span h \<le> unat (h_first h)" if "lba = 1"
    using p [OF that] u(1) by (auto simp: word_le_nat_alt)
  show "unat (h_last h) < unat (h_table h) \<and> unat (h_table h) + array_span h = unat lba" if "lba \<noteq> 1"
    using q [OF that] u by (simp add: word_less_nat_alt)
qed

lemma pure_read_Ok: "pure_read D M n off = Ok b \<Longrightarrow> b = bytes_at D (unat off) (unat n) \<and> unat off + unat n \<le> unat M"
  by (auto simp: pure_read_def intro: unat_inside split: if_splits)

lemma bytes_at_part: "k + m \<le> n \<Longrightarrow> take m (drop k (bytes_at D off n)) = bytes_at D (off + k) m"
  by (simp add: bytes_at_def drop_map take_map add.assoc)

lemma others_zero:
  assumes "\<forall>i \<in> {1..<c}. zero (take e (drop (i * e) p))" and "length p = c * e"
  shows "zero (drop e p)"
  unfolding zero_def list_all_length
proof (intro allI impI)
  fix n
  assume n: "n < length (drop e p)"
  then have "0 < e" using assms(2) by (cases e) auto
  define i j where ij: "i = (e + n) div e" "j = (e + n) mod e"
  have eq: "i * e + j = e + n" and j: "j < e" unfolding ij using \<open>0 < e\<close> by (simp_all only: div_mult_mod_eq mod_less_divisor)
  have "i < c" using n assms(2) \<open>0 < e\<close> by (auto simp: ij div_less_iff_less_mult)
  moreover have "1 \<le> i" using \<open>0 < e\<close> by (simp add: ij Suc_le_eq div_greater_zero_iff)
  ultimately have z: "zero (take e (drop (i * e) p))" using assms(1) by simp
  have l: "i * e + j < length p" using n eq by simp
  with z j have "take e (drop (i * e) p) ! j = 0" by (simp add: zero_def list_all_length)
  with j l have "p ! (i * e + j) = 0" by (simp add: nth_drop)
  then show "drop e p ! n = 0" using n eq by simp
qed

lemma root_check_exact:
  assumes "root_check a type pg pa = Ok (first, last_lba)" and "length pa = unat (h_count a) * unat (h_entry_size a)"
  shows "take 16 pa = type" "take 16 (drop 16 pa) = pg" "zero (drop (unat (h_entry_size a)) pa)"
    "unat first = 2048" "unat (h_first a) \<le> unat first" "unat first \<le> unat last_lba" "unat last_lba \<le> unat (h_last a)"
proof -
  from assms(1) show "take 16 pa = type" "take 16 (drop 16 pa) = pg"
    "unat first = 2048" "unat (h_first a) \<le> unat first" "unat first \<le> unat last_lba" "unat last_lba \<le> unat (h_last a)"
    by (auto simp: root_check_def Let_def not_less word_le_nat_alt split: if_splits)
  have "\<forall>i \<in> {1..<unat (h_count a)}. zero (take (unat (h_entry_size a)) (drop (i * unat (h_entry_size a)) pa))"
    using assms(1) by (auto simp: root_check_def list_all_iff split: if_splits)
  from others_zero [OF this assms(2)] show "zero (drop (unat (h_entry_size a)) pa)" .
qed

lemma unat_block_size: "k \<le> 6 \<Longrightarrow> unat (push_bit k (1024 :: u64)) = 2 ^ (10 + k)"
proof -
  assume "k \<le> 6"
  then consider "k = 0" | "k = 1" | "k = 2" | "k = 3" | "k = 4" | "k = 5" | "k = 6" by linarith
  then show ?thesis by cases simp_all
qed

lemma ext4_check_exact:
  assumes "ext4_check fg first last_lba sb = Ok u" and "first \<le> last_lba" and "(unat last_lba + 1) * 512 < 2 ^ 64"
  shows "take 16 (drop 104 sb) = fg" "0 < ext4_blocks sb"
    "unat (ext4_blocks sb) * 2 ^ (10 + unat (le32 sb 24)) \<le> (unat last_lba - unat first + 1) * 512"
proof -
  from assms(1) show "take 16 (drop 104 sb) = fg" "0 < ext4_blocks sb"
    by (auto simp: ext4_check_def Let_def word_neq_0_conv split: if_splits)
  from assms(1) have s: "unat (le32 sb 24) \<le> 6"
    and b: "ext4_blocks sb \<le> (last_lba - first + 1) * SECTOR div push_bit (unat (le32 sb 24)) 1024"
    by (auto simp: ext4_check_def Let_def not_less word_le_nat_alt split: if_splits)
  have l: "unat (last_lba - first + 1) = unat last_lba - unat first + 1"
    using assms(2,3) by (simp add: unat_word_ariths unat_sub word_le_nat_alt)
  have "unat ((last_lba - first + 1) * SECTOR) = (unat last_lba - unat first + 1) * 512"
    using assms(3) by (subst unat_sector) (simp_all add: l)
  moreover have "unat (push_bit (unat (le32 sb 24)) (1024 :: u64)) = 2 ^ (10 + unat (le32 sb 24))"
    using s by (rule unat_block_size)
  ultimately have "unat (ext4_blocks sb) \<le> (unat last_lba - unat first + 1) * 512 div 2 ^ (10 + unat (le32 sb 24))"
    using b by (simp add: word_le_nat_alt unat_div)
  then have "unat (ext4_blocks sb) * 2 ^ (10 + unat (le32 sb 24))
      \<le> (unat last_lba - unat first + 1) * 512 div 2 ^ (10 + unat (le32 sb 24)) * 2 ^ (10 + unat (le32 sb 24))" by (rule mult_le_mono1)
  also have "\<dots> \<le> (unat last_lba - unat first + 1) * 512" by (rule div_times_less_eq_dividend)
  finally show "unat (ext4_blocks sb) * 2 ^ (10 + unat (le32 sb 24)) \<le> (unat last_lba - unat first + 1) * 512" .
qed

text \<open>The facts behind a positive verdict, step by step.\<close>

lemma media_check_Ok:
  assumes "media_check D M i sectors = Ok (first, last_lba)"
  obtains a b pa sb where "media_header D M 1 sectors = Ok a" "media_header D M (sectors - 1) sectors = Ok b"
    "pair_check (disk_guid i) a b = Ok ()" "media_array D M a = Ok pa" "media_array D M b = Ok pa"
    "root_check a (type_guid i) (part_guid i) pa = Ok (first, last_lba)"
    "pure_read D M 1024 (first * SECTOR + 1024) = Ok sb" "ext4_check (fs_uuid i) first last_lba sb = Ok ()"
  using assms unfolding media_check_def by (auto simp: then_go_Ok split: if_splits)

lemma media_header_exact:
  assumes "media_header D M lba sectors = Ok h" and "unat lba * 512 < 2 ^ 64"
  shows "h = header_fields (bytes_at D (unat lba * 512) 512)" "header_check lba sectors (bytes_at D (unat lba * 512) 512) = Ok h"
proof -
  from assms(1) obtain b where b: "pure_read D M SECTOR (lba * SECTOR) = Ok b" "header_check lba sectors b = Ok h"
    by (auto simp: media_header_def then_go_Ok)
  from pure_read_Ok [OF b(1)] have "b = bytes_at D (unat lba * 512) 512" using unat_sector [OF assms(2)] by (simp add: SECTOR_def)
  with b(2) show "header_check lba sectors (bytes_at D (unat lba * 512) 512) = Ok h" by simp
  then show "h = header_fields (bytes_at D (unat lba * 512) 512)" by (rule header_exact(1))
qed

lemma media_array_exact:
  assumes "media_array D M h = Ok p" and "unat (h_table h) * 512 < 2 ^ 64"
  shows "p = bytes_at D (unat (h_table h) * 512) (unat (h_count h) * unat (h_entry_size h))" "crc32 p = h_array_crc h"
proof -
  from assms(1) have b: "pure_read D M (array_bytes h) (h_table h * SECTOR) = Ok p" "crc32 p = h_array_crc h"
    by (auto simp: media_array_def then_go_Ok array_check_def split: if_splits)
  from pure_read_Ok [OF b(1)] show "p = bytes_at D (unat (h_table h) * 512) (unat (h_count h) * unat (h_entry_size h))"
    by (simp add: unat_sector [OF assms(2)] unat_array_bytes)
  show "crc32 p = h_array_crc h" by (rule b)
qed

lemma last_sector: "2 < unat (sectors :: u64) \<Longrightarrow> unat (sectors - 1) = unat sectors - 1 \<and> sectors - 1 \<noteq> 1"
proof -
  assume s: "2 < unat sectors"
  then have u: "unat (sectors - 1) = unat sectors - 1" by (subst unat_sub) (auto simp: word_le_nat_alt)
  moreover have "unat (sectors - 1) \<noteq> unat (1 :: u64)" using u s by simp
  ultimately show ?thesis by auto
qed

lemma geometry_entries:
  assumes "\<not> bad_geometry lba sectors h"
  shows "128 \<le> unat (h_count h) * unat (h_entry_size h)" "unat (h_entry_size h) \<le> unat (h_count h) * unat (h_entry_size h)"
proof -
  have e: "128 \<le> unat (h_entry_size h)" and c: "1 \<le> unat (h_count h)"
    using assms by (auto simp: bad_geometry_def not_less word_le_nat_alt Suc_le_eq unat_gt_0)
  show le: "unat (h_entry_size h) \<le> unat (h_count h) * unat (h_entry_size h)" using c mult_le_mono1 [OF c] by simp
  with e show "128 \<le> unat (h_count h) * unat (h_entry_size h)" by linarith
qed

lemma media_check_sound:
  assumes "media_check D M i sectors = Ok (first, last_lba)" and "2 < unat sectors" and "unat sectors * 512 < 2 ^ 64"
  shows "root_layout D (unat sectors) i (unat first) (unat last_lba)"
proof -
  from assms(1) obtain a b pa sb where ha: "media_header D M 1 sectors = Ok a" and hb: "media_header D M (sectors - 1) sectors = Ok b"
    and pair: "pair_check (disk_guid i) a b = Ok ()" and ra: "media_array D M a = Ok pa" and rb: "media_array D M b = Ok pa"
    and root: "root_check a (type_guid i) (part_guid i) pa = Ok (first, last_lba)"
    and sb: "pure_read D M 1024 (first * SECTOR + 1024) = Ok sb" and ext: "ext4_check (fs_uuid i) first last_lba sb = Ok ()"
    by (rule media_check_Ok)
  note s1 = last_sector [OF assms(2)]
  have oa: "unat (1 :: u64) * 512 < 2 ^ 64" and ob: "unat (sectors - 1) * 512 < 2 ^ 64" using s1 assms(3) by simp_all
  note A = media_header_exact [OF ha oa] and B = media_header_exact [OF hb ob]
  note XA = header_exact [OF A(2)] and XB = header_exact [OF B(2)]
  have ta: "unat (h_table a) * 512 < 2 ^ 64" and tb: "unat (h_table b) * 512 < 2 ^ 64" using XA(3) XB(3) assms(3) by linarith+
  note RA = media_array_exact [OF ra ta] and RB = media_array_exact [OF rb tb]
  from pair have P: "h_guid a = disk_guid i" "h_guid b = disk_guid i" "h_first b = h_first a" "h_last b = h_last a" "h_count b = h_count a"
    "h_entry_size b = h_entry_size a" "h_array_crc b = h_array_crc a" by (auto simp: pair_check_def split: if_splits)
  define n where "n = unat (h_count a) * unat (h_entry_size a)"
  have R: "root_check a (type_guid i) (part_guid i) (bytes_at D 1024 n) = Ok (first, last_lba)"
    using root RA(1) XA(4) by (simp add: n_def)
  note X = root_check_exact [OF R, unfolded bytes_at_length, OF n_def]
  note N = geometry_entries [OF header_check_geometry [OF A(2)], folded n_def]
  have span: "array_span b = array_span a" by (simp add: array_span_def P)
  have ord: "root_order a b (unat sectors) (unat first) (unat last_lba)"
    unfolding root_order_def using XA(4) XB(5) s1 X P span assms(2) by (auto simp: word_le_nat_alt)
  have cop: "root_copies D a b i"
    unfolding root_copies_def Let_def n_def [symmetric]
    using P RA RB XA(4) X N bytes_at_part [of 0 16 n D 1024] bytes_at_part [of 16 16 n D 1024]
      bytes_at_part [of "unat (h_entry_size a)" "n - unat (h_entry_size a)" n D 1024] by (simp add: n_def)
  have "unat first * 512 < 2 ^ 64" "(unat last_lba + 1) * 512 < 2 ^ 64" using ord assms(3) by (auto simp: root_order_def)
  have "unat (first * SECTOR + 1024) = unat first * 512 + 1024" using X(4) unat_sector [of first] by (simp add: unat_word_ariths)
  with pure_read_Ok [OF sb] have sbD: "sb = bytes_at D (unat first * 512 + 1024) 1024" by simp
  have fs: "root_fs D i (unat first) (unat last_lba)"
    using ext4_check_exact [OF ext _ \<open>(unat last_lba + 1) * 512 < 2 ^ 64\<close>] X(6) bytes_at_part [of 104 16 1024 D "unat first * 512 + 1024"]
    by (simp add: root_fs_def sbD word_le_nat_alt)
  show ?thesis
    unfolding root_layout_def Let_def using ord cop fs A(1) B(1) s1 by simp
qed

section \<open>The program's verdict\<close>

text \<open>What an accepting run has established, without looking at how other runs end.\<close>

lemma wp_accept:
  assumes "\<And>r w'. (\<And>x. r \<noteq> Ok x) \<Longrightarrow> Q r w'" and "wp m (\<lambda>r w'. \<forall>x. r = Ok x \<longrightarrow> wp (k x) Q w') w"
  shows "wp (and_go m k) Q w"
  by (rule wp_and_go, rule wp_mono [OF assms(2)]) (auto intro: assms(1) split: gate_result.splits)

lemma wp_any: "(\<And>r w'. Q r w') \<Longrightarrow> wp m Q w"
  by (auto intro: wpI)

lemma wp_checked_ok: "(\<And>x w'. v = Ok x \<Longrightarrow> P x w') \<Longrightarrow> wp (checked E v) (\<lambda>r w'. \<forall>x. r = Ok x \<longrightarrow> P x w') w"
  by (cases v) (auto simp: checked_def wp_simps intro: wp_die)

lemma open_media_sized: "wp (open_media E opt path before) (\<lambda>r w'. \<forall>u. r = Ok u \<longrightarrow> media_bytes (drv w') = o_media opt) w"
  unfolding open_media_def media_size_def
  by (auto simp: wp_simps intro!: wp_die wp_and_go split: gate_resp.splits)

definition verdict_ok :: "medium \<Rightarrow> u64 \<Rightarrow> report \<Rightarrow> bool" where
  "verdict_ok D M rep \<longleftrightarrow> (\<exists>i. parse_ids (r_disk_guid rep) (r_partuuid rep) (r_fsuuid rep) = Ok i
     \<and> media_check D M i (r_layout rep div SECTOR) = Ok (r_first rep, r_last rep)
     \<and> r_layout rep mod SECTOR = 0 \<and> r_layout rep \<le> M \<and> 68 * SECTOR \<le> r_layout rep \<and> unat M < 2 ^ 63)"

definition accepts :: "medium \<Rightarrow> u64 \<Rightarrow> report gate_result \<Rightarrow> (gate_req, gate_resp, gate) world \<Rightarrow> bool" where
  "accepts D M r w \<longleftrightarrow> (\<forall>rep. r = Ok rep \<longrightarrow> r_media rep = M \<longrightarrow> verdict_ok D M rep)"

lemma accepts_other: "(\<And>x. r \<noteq> Ok x) \<Longrightarrow> accepts D M r w"
  by (simp add: accepts_def)

lemma finish_accepts:
  "(r_media rep = M \<Longrightarrow> verdict_ok D M rep) \<Longrightarrow> wp (and_go (finish E) (\<lambda>_. return (Ok rep))) (accepts D M) w"
  by (rule wp_accept [OF accepts_other], assumption, rule wp_any) (auto simp: wp_simps accepts_def)

lemma check_media_accepts:
  assumes "faithful D M m E" and "2 ^ 20 + m \<le> fuel" and "lengths_check opt = Ok ()" and "parse_ids d p f = Ok i"
    and "media_bytes (drv w) = o_media opt"
  shows "wp (and_go (check_media fuel E i (o_layout opt div SECTOR)) (\<lambda>(first, last_lba). and_go (finish E) (\<lambda>_.
      return (Ok \<lparr>r_disk_guid = d, r_partuuid = p, r_fsuuid = f, r_first = first, r_last = last_lba,
        r_media = o_media opt, r_layout = o_layout opt\<rparr>)))) (accepts D M) w"
proof (cases "o_media opt = M")
  case True
  have chk: "wp (check_media fuel E i (o_layout opt div SECTOR)) (\<lambda>r w'. r = media_check D M i (o_layout opt div SECTOR) \<and> drv w' = drv w) w"
    using assms(5) True by (intro givesD [OF gives_check_media [OF assms(1,2)]]) simp
  have ok: "verdict_ok D M \<lparr>r_disk_guid = d, r_partuuid = p, r_fsuuid = f, r_first = x, r_last = y, r_media = o_media opt,
      r_layout = o_layout opt\<rparr>" if "media_check D M i (o_layout opt div SECTOR) = Ok (x, y)" for x y
    using that assms(3,4) True lengths_check_bound [OF assms(3)] by (auto simp: verdict_ok_def lengths_check_def not_less split: if_splits)
  show ?thesis
    by (rule wp_accept [OF accepts_other], assumption, rule wp_mono [OF chk])
      (auto intro!: finish_accepts ok [folded True])
next
  case False
  then show ?thesis
    by (intro wp_accept [OF accepts_other] wp_any) (auto intro!: finish_accepts)
qed

lemma gate_main_accepts:
  assumes "faithful D M m E" and "2 ^ 20 + m \<le> fuel"
  shows "wp (gate_main fuel E args) (accepts D M) w"
  unfolding gate_main_def
  apply (rule wp_accept [OF accepts_other], assumption, rule wp_checked_ok)
  apply (auto split: option.splits intro!: wp_die simp: accepts_other)
  apply (rule wp_accept [OF accepts_other], assumption, rule wp_checked_ok)
  apply (rule wp_accept [OF accepts_other], assumption, rule wp_checked_ok)
  apply (rule wp_accept [OF accepts_other], assumption, rule wp_any, intro allI impI)
  apply (rule wp_accept [OF accepts_other], assumption, rule wp_mono [OF open_media_sized], intro allI impI)
  apply (rule check_media_accepts [OF assms]; simp)
  done

text \<open>C8. An accepted medium is what the gate promises. If the program accepts a medium that is read faithfully, with enough
  fuel for the bytes and the interrupted reads, then the identities of the report are canonical, and the bytes of the
  medium have the expected layout within the pinned length: protective structures, root partition and backup in order and
  disjoint, equal copies with a correct checksum, the three identities, no second partition, and a file
  system no larger than its partition. All of it in exact arithmetic.\<close>

theorem gate_accept_sound:
  assumes "run_state (gate_main fuel E args) gate_start = (Ok rep, w)"
    and "faithful D (r_media rep) m E" and "2 ^ 20 + m \<le> fuel"
  shows "\<exists>i. parse_ids (r_disk_guid rep) (r_partuuid rep) (r_fsuuid rep) = Ok i
    \<and> root_layout D (unat (r_layout rep) div 512) i (unat (r_first rep)) (unat (r_last rep))
    \<and> unat (r_layout rep) mod 512 = 0 \<and> unat (r_layout rep) \<le> unat (r_media rep)"
proof -
  from wpD [OF gate_main_accepts [OF assms(2,3)] assms(1)] obtain i where
    i: "parse_ids (r_disk_guid rep) (r_partuuid rep) (r_fsuuid rep) = Ok i"
    and c: "media_check D (r_media rep) i (r_layout rep div SECTOR) = Ok (r_first rep, r_last rep)"
    and l: "r_layout rep mod SECTOR = 0" "r_layout rep \<le> r_media rep" "68 * SECTOR \<le> r_layout rep" "unat (r_media rep) < 2 ^ 63"
    unfolding accepts_def verdict_ok_def by blast
  have s: "unat (r_layout rep div SECTOR) = unat (r_layout rep) div 512" by (simp add: unat_div SECTOR_def)
  have "unat (r_layout rep mod SECTOR) = unat (r_layout rep) mod 512" by (simp add: unat_mod SECTOR_def)
  with l have m: "unat (r_layout rep) mod 512 = 0" by simp
  have b: "unat (r_layout rep) \<le> unat (r_media rep)" "34816 \<le> unat (r_layout rep)"
    using l(2,3) by (simp_all add: word_le_nat_alt SECTOR_def)
  have "root_layout D (unat (r_layout rep div SECTOR)) i (unat (r_first rep)) (unat (r_last rep))"
    by (rule media_check_sound [OF c]) (use b l(4) in \<open>simp_all add: s\<close>)
  then show ?thesis using i m b(1) by (auto simp: s)
qed

text \<open>A system that presents the medium under the given options: the same file before and after it is opened, of the right kind and size.\<close>

definition presents :: "gate_env \<Rightarrow> options \<Rightarrow> stat \<Rightarrow> bool" where
  "presents E opt st \<longleftrightarrow>
     (\<forall>h p. E h (Lstat p) = StatIs st) \<and> (\<forall>h. E h Fstat = StatIs st) \<and> (\<forall>h p. E h (OpenRO p) \<noteq> Failed)
     \<and> (if o_disk opt
        then st_mode st = S_ISBLK \<and> o_devno opt = Some (device_number st)
          \<and> (\<forall>h. E h BlkSszGet = Number SECTOR) \<and> (\<forall>h. E h BlkGetSize64 = Number (o_media opt))
        else st_mode st = S_ISREG \<and> o_devno opt = None \<and> 0 \<le> st_size st \<and> of_int (st_size st) = o_media opt)"

lemma check_path_presents: "presents E opt st \<Longrightarrow> wp (check_path E opt path) (\<lambda>r w'. r = Ok st) w"
  by (auto simp: presents_def check_path_def wp_simps split: if_splits)

lemma open_media_presents:
  "presents E opt st \<Longrightarrow> wp (open_media E opt path st) (\<lambda>r w'. r = Ok () \<and> media_bytes (drv w') = o_media opt) w"
  unfolding open_media_def media_size_def
  by (auto simp: presents_def wp_simps intro!: wp_and_go split: if_splits)

lemma wp_and_go_Ok: "wp m (\<lambda>r w'. \<exists>x. r = Ok x \<and> wp (k x) Q w') w \<Longrightarrow> wp (and_go m k) Q w"
  by (rule wp_and_go) (auto elim: wp_mono)

lemma wp_checked_Ok: "v = Ok x \<Longrightarrow> Q (Ok x) w \<Longrightarrow> wp (checked E v) Q w"
  by (simp add: checked_def wp_simps)

lemma lengths_check_nonzero: "lengths_check opt = Ok u \<Longrightarrow> o_layout opt \<noteq> 0 \<and> o_media opt \<noteq> 0"
  by (auto simp: lengths_check_def SECTOR_def word_gt_0 split: if_splits)

definition make_report :: "options \<Rightarrow> string \<Rightarrow> string \<Rightarrow> string \<Rightarrow> u64 \<times> u64 \<Rightarrow> report" where
  "make_report opt d p f x = \<lparr>r_disk_guid = d, r_partuuid = p, r_fsuuid = f, r_first = fst x, r_last = snd x,
     r_media = o_media opt, r_layout = o_layout opt\<rparr>"

lemma check_media_verdict:
  assumes "faithful D (o_media opt) m E" and "2 ^ 20 + m \<le> fuel" and "media_bytes (drv w) = o_media opt"
  shows "wp (and_go (check_media fuel E i sectors) (\<lambda>(first, last_lba). and_go (finish E) (\<lambda>_. return (Ok (mk first last_lba)))))
    (\<lambda>r w'. r = then_go (media_check D (o_media opt) i sectors) (\<lambda>(first, last_lba). Ok (mk first last_lba))) w"
proof (rule wp_and_go, rule wp_mono [OF givesD [OF gives_check_media [OF assms(1,2)] assms(3)]], elim conjE)
  fix r w'
  assume "r = media_check D (o_media opt) i sectors"
  then show "case r of Ok x \<Rightarrow> wp (case x of (first, last_lba) \<Rightarrow> and_go (finish E) (\<lambda>_. return (Ok (mk first last_lba))))
      (\<lambda>r w'. r = then_go (media_check D (o_media opt) i sectors) (\<lambda>(first, last_lba). Ok (mk first last_lba))) w'
    | Stop why \<Rightarrow> Stop why = then_go (media_check D (o_media opt) i sectors) (\<lambda>(first, last_lba). Ok (mk first last_lba))
    | Unfinished \<Rightarrow> Unfinished = then_go (media_check D (o_media opt) i sectors) (\<lambda>(first, last_lba). Ok (mk first last_lba))"
    by (cases "media_check D (o_media opt) i sectors") (auto simp: finish_def wp_simps intro!: wp_and_go_Ok)
qed

lemma gate_main_verdict:
  assumes "parse_args args no_options = Ok opt" and "o_path opt = Some path" and "o_disk_id opt = Some d"
    and "o_part_id opt = Some p" and "o_fs_id opt = Some f" and "lengths_check opt = Ok ()" and "parse_ids d p f = Ok i"
    and "presents E opt st" and "faithful D (o_media opt) m E" and "2 ^ 20 + m \<le> fuel"
  shows "wp (gate_main fuel E args)
    (\<lambda>r w'. r = then_go (media_check D (o_media opt) i (o_layout opt div SECTOR)) (\<lambda>x. Ok (make_report opt d p f x))) w"
proof -
  have nz: "\<not> (o_layout opt = 0 \<or> o_media opt = 0)" using lengths_check_nonzero [OF assms(6)] by simp
  have e: "(\<lambda>x. Ok (make_report opt d p f x)) = (\<lambda>(first, last_lba). Ok \<lparr>r_disk_guid = d, r_partuuid = p, r_fsuuid = f,
      r_first = first, r_last = last_lba, r_media = o_media opt, r_layout = o_layout opt\<rparr>)"
    by (auto simp: make_report_def)
  show ?thesis
    unfolding gate_main_def e
    apply (rule wp_and_go_Ok, rule wp_checked_Ok [OF assms(1)], rule exI, rule conjI [OF refl])
    apply (simp only: assms(2-5) option.case prod.case nz if_False)
    apply (rule wp_and_go_Ok, rule wp_checked_Ok [OF assms(6)], rule exI, rule conjI [OF refl])
    apply (rule wp_and_go_Ok, rule wp_checked_Ok [OF assms(7)], rule exI, rule conjI [OF refl])
    apply (rule wp_and_go_Ok, rule wp_mono [OF check_path_presents [OF assms(8)]], rule exI, rule conjI, assumption)
    apply (rule wp_and_go_Ok, rule wp_mono [OF open_media_presents [OF assms(8)]], rule exI, rule conjI, erule conjunct1)
    apply (rule check_media_verdict [OF assms(9,10)], erule conjunct2)
    done
qed


text \<open>For all arguments and whatever the system answers, every \<open>pread\<close> lies within the medium and below the range of
  \<open>off_t\<close>, and asks for at least a byte. The path is looked at before it is opened, the file is used only while it is
  open, and nothing follows \<open>close\<close>. When the program accepts or stops, either nothing was opened or the
  descriptor has been closed, and the report states the size of the medium.\<close>

theorem gate_reads_inside:
  assumes "run_state (gate_main fuel E args) gate_start = (r, w)"
  shows "reads_inside (media_bytes (drv w)) (hist w)
    \<and> (case r of
         Ok rep \<Rightarrow> fd_life Unopened (hist w) = Some Closed \<and> media_bytes (drv w) = r_media rep
       | Stop why \<Rightarrow> fd_life Unopened (hist w) \<in> {Some Unopened, Some Closed}
       | Unfinished \<Rightarrow> fd_life Unopened (hist w) = Some Opened)"
proof -
  have "unopened gate_start" by (simp add: unopened_def gate_start_def)
  from wpD [OF gate_main_ended [OF this] assms] show ?thesis
    by (auto simp: gate_ended_def unopened_def opened_def stopped_def split: gate_result.splits)
qed

section \<open>A medium that is accepted\<close>

text \<open>The checksum on integers, for evaluation.\<close>

definition crc_step :: "int \<Rightarrow> int" where
  "crc_step c = (if even c then c div 2 else (c div 2) XOR 0xedb88320)"

definition crc_steps :: "int \<Rightarrow> int \<Rightarrow> int" where
  "crc_steps c b = crc_step (crc_step (crc_step (crc_step (crc_step (crc_step (crc_step (crc_step (c XOR b))))))))"

lemma crc_step_simps:
  "crc_step 0 = 0" "crc_step 1 = 0xedb88320" "crc_step (numeral (num.Bit0 n)) = numeral n"
  "crc_step (numeral (num.Bit1 n)) = numeral n XOR 0xedb88320"
  by (simp_all add: crc_step_def)

lemma uint_crc_bit: "uint (crc_bit c) = crc_step (uint c)"
proof -
  have "crc_bit c = drop_bit 1 c XOR (if odd (uint c) then 0xedb88320 else 0)"
    unfolding crc_bit_def neg_lsb by (simp add: bit_0 [symmetric] bit_unsigned_iff)
  then show ?thesis
    by (simp add: crc_step_def unsigned_xor_eq unsigned_drop_bit_eq drop_bit_Suc uint_div)
qed

lemma uint_widen: "uint (ucast (a :: u8) :: u32) = uint a"
proof -
  have "uint a < 2 ^ 8" using uint_bounded [of a] by simp
  then show ?thesis by (simp add: unsigned_ucast_eq take_bit_int_eq_self)
qed

lemma uint_crc_byte: "uint (crc_byte c b) = crc_steps (uint c) (uint b)"
proof -
  have e: "(crc_bit ^^ 8) d = crc_bit (crc_bit (crc_bit (crc_bit (crc_bit (crc_bit (crc_bit (crc_bit d)))))))" for d
    by (simp add: eval_nat_numeral)
  show ?thesis by (simp add: crc_byte_def e crc_steps_def uint_crc_bit unsigned_xor_eq uint_widen)
qed

lemma uint_crc_fold: "uint (foldl crc_byte c p) = foldl crc_steps (uint c) (map uint p)"
  by (induction p arbitrary: c) (simp_all add: uint_crc_byte)

lemma crc32_eval: "crc32 p = NOT (word_of_int (foldl crc_steps 4294967295 (map uint p)))"
proof -
  have "word_of_int (uint (foldl crc_byte (- 1) p)) = foldl crc_byte (- 1) p" by simp
  moreover have "uint (- 1 :: u32) = 4294967295" by (simp add: unsigned_minus_1_eq_mask mask_eq_exp_minus_1)
  ultimately show ?thesis unfolding crc32_def uint_crc_fold by simp
qed

text \<open>Placing bytes on a medium.\<close>

definition place :: "nat \<Rightarrow> u8 list \<Rightarrow> medium \<Rightarrow> medium" where
  "place off xs D k = (if off \<le> k \<and> k < off + length xs then xs ! (k - off) else D k)"

lemma read_placed: "bytes_at (place off xs D) off (length xs) = xs"
  by (rule nth_equalityI) (simp_all add: bytes_at_def place_def)

lemma read_elsewhere: "off + n \<le> off' \<or> off' + length xs \<le> off \<Longrightarrow> bytes_at (place off' xs D) off n = bytes_at D off n"
  by (auto simp: bytes_at_def place_def)

definition demo_mbr :: "u8 list" where
  "demo_mbr = replicate 446 0 @ [0, 0, 0, 0, 238, 0, 0, 0, 1, 0, 0, 0, 5, 8, 0, 0] @ replicate 48 0 @ [85, 170]"

definition demo_primary :: "u8 list" where
  "demo_primary = [69, 70, 73, 32, 80, 65, 82, 84, 0, 0, 1, 0, 92, 0, 0, 0, 62, 101, 93, 45, 0, 0, 0, 0, 1, 0, 0, 0, 0, 0, 0, 0, 5, 8, 0, 0, 0,
     0, 0, 0, 34, 0, 0, 0, 0, 0, 0, 0, 3, 8, 0, 0, 0, 0, 0, 0, 68, 51, 34, 17, 102, 85, 136, 119, 153, 170, 187, 204, 221, 238,
     255, 1, 2, 0, 0, 0, 0, 0, 0, 0, 1, 0, 0, 0, 128, 0, 0, 0, 252, 139, 246, 29]
     @ replicate 420 0"

definition demo_backup :: "u8 list" where
  "demo_backup = [69, 70, 73, 32, 80, 65, 82, 84, 0, 0, 1, 0, 92, 0, 0, 0, 85, 161, 95, 63, 0, 0, 0, 0, 5, 8, 0, 0, 0, 0, 0, 0, 1, 0, 0, 0, 0,
     0, 0, 0, 34, 0, 0, 0, 0, 0, 0, 0, 3, 8, 0, 0, 0, 0, 0, 0, 68, 51, 34, 17, 102, 85, 136, 119, 153, 170, 187, 204, 221, 238,
     255, 1, 4, 8, 0, 0, 0, 0, 0, 0, 1, 0, 0, 0, 128, 0, 0, 0, 252, 139, 246, 29]
     @ replicate 420 0"

definition demo_array :: "u8 list" where
  "demo_array = [175, 61, 198, 15, 131, 132, 114, 71, 142, 121, 61, 105, 216, 71, 125, 228, 68, 51, 34, 33, 102, 85, 136, 119, 153, 170, 187,
     204, 221, 238, 255, 2, 0, 8, 0, 0, 0, 0, 0, 0, 3, 8, 0, 0, 0, 0, 0, 0, 0, 0, 0, 0, 0, 0, 0, 0, 116, 0, 54, 0, 48, 0, 52, 0,
     48, 0, 114, 0, 111, 0, 111, 0, 116, 0, 0, 0, 0, 0, 0, 0, 0, 0, 0, 0, 0, 0, 0, 0, 0, 0, 0, 0, 0, 0, 0, 0, 0, 0, 0, 0, 0, 0, 0,
     0, 0, 0, 0, 0, 0, 0, 0, 0, 0, 0, 0, 0, 0, 0, 0, 0, 0, 0, 0, 0, 0, 0, 0, 0]"

definition demo_super :: "u8 list" where
  "demo_super = [0, 0, 0, 0, 2, 0, 0, 0, 0, 0, 0, 0, 0, 0, 0, 0, 0, 0, 0, 0, 0, 0, 0, 0, 0, 0, 0, 0, 0, 0, 0, 0, 0, 0, 0, 0, 0, 0, 0, 0, 0,
     0, 0, 0, 0, 0, 0, 0, 0, 0, 0, 0, 0, 0, 0, 0, 83, 239, 1, 0, 0, 0, 0, 0, 0, 0, 0, 0, 0, 0, 0, 0, 0, 0, 0, 0, 1, 0, 0, 0, 0, 0,
     0, 0, 0, 0, 0, 0, 0, 0, 0, 0, 0, 0, 0, 0, 0, 0, 0, 0, 0, 0, 0, 0, 49, 34, 51, 68, 85, 102, 119, 136, 153, 170, 187, 204, 221,
     238, 255, 3, 116, 54, 48, 52, 48, 114, 111, 111, 116]
     @ replicate 895 0"

definition demo :: medium where
  "demo = place 0 demo_mbr (place 512 demo_primary (place 1024 demo_array (place 1049600 demo_super
     (place 1050624 demo_array (place 1051136 demo_backup (\<lambda>_. 0))))))"

lemma demo_lengths: "length demo_mbr = 512" "length demo_primary = 512" "length demo_backup = 512" "length demo_array = 128"
    "length demo_super = 1024"
  by (simp_all add: demo_mbr_def demo_primary_def demo_backup_def demo_array_def demo_super_def)

lemma demo_reads: "bytes_at demo 0 512 = demo_mbr" "bytes_at demo 512 512 = demo_primary" "bytes_at demo 1024 128 = demo_array"
    "bytes_at demo 1049600 1024 = demo_super" "bytes_at demo 1050624 128 = demo_array" "bytes_at demo 1051136 512 = demo_backup"
  unfolding demo_def using demo_lengths read_placed [of _ demo_mbr] read_placed [of _ demo_primary] read_placed [of _ demo_backup]
    read_placed [of _ demo_array] read_placed [of _ demo_super] by (simp_all add: read_elsewhere)

definition demo_header :: "u64 \<Rightarrow> u64 \<Rightarrow> u64 \<Rightarrow> header" where
  "demo_header c b t = \<lparr>h_current = c, h_backup = b, h_first = 34, h_last = 2051, h_table = t, h_count = 1, h_entry_size = 128, h_array_crc =
     502696956, h_guid = [68, 51, 34, 17, 102, 85, 136, 119, 153, 170, 187, 204, 221, 238, 255, 1]\<rparr>"

definition demo_ids :: ids where
  "demo_ids = \<lparr>disk_guid = [68, 51, 34, 17, 102, 85, 136, 119, 153, 170, 187, 204, 221, 238, 255, 1],
     part_guid = [68, 51, 34, 33, 102, 85, 136, 119, 153, 170, 187, 204, 221, 238, 255, 2],
     fs_uuid = [49, 34, 51, 68, 85, 102, 119, 136, 153, 170, 187, 204, 221, 238, 255, 3],
     type_guid = [175, 61, 198, 15, 131, 132, 114, 71, 142, 121, 61, 105, 216, 71, 125, 228]\<rparr>"

lemmas demo_eval = le16_def le32_def le64_def nth_append

lemma demo_mbr_check: "mbr_check 2054 demo_mbr = Ok ()"
  by (simp add: mbr_check_def demo_mbr_def demo_eval zero_def list_all_iff)

lemma demo_primary_crc: "crc32 (header_copy demo_primary) = le32 demo_primary 16"
  by (simp add: header_copy_def demo_primary_def demo_eval crc32_eval crc_steps_def crc_step_simps)

lemma demo_backup_crc: "crc32 (header_copy demo_backup) = le32 demo_backup 16"
  by (simp add: header_copy_def demo_backup_def demo_eval crc32_eval crc_steps_def crc_step_simps)

lemma demo_array_crc: "crc32 demo_array = 502696956"
  by (simp add: demo_array_def crc32_eval crc_steps_def crc_step_simps)

lemma demo_primary_check: "header_check 1 2054 demo_primary = Ok (demo_header 1 2053 2)"
  by (simp add: header_check_def demo_primary_crc)
    (simp add: demo_primary_def demo_eval demo_header_def header_fields_def chars_def bad_geometry_def array_sectors_def SECTOR_def MAX_ARRAY_def)

lemma demo_compare: "\<not> (2054 :: u64) \<le> 1" "(2053 :: u64) \<noteq> 1"
  by code_simp+

lemma demo_backup_check: "header_check 2053 2054 demo_backup = Ok (demo_header 2053 1 2052)"
  by (simp add: header_check_def demo_backup_crc)
    (simp add: demo_compare demo_backup_def demo_eval demo_header_def header_fields_def chars_def bad_geometry_def array_sectors_def SECTOR_def MAX_ARRAY_def)

lemma demo_root_check: "root_check (demo_header 1 2053 2) (type_guid demo_ids) (part_guid demo_ids) demo_array = Ok (2048, 2051)"
  by (simp add: root_check_def demo_header_def demo_ids_def demo_array_def demo_eval label_ok_def root_label_def upt_rec)

lemma demo_ext4_check: "ext4_check (fs_uuid demo_ids) 2048 2051 demo_super = Ok ()"
  by (simp add: ext4_check_def demo_super_def demo_ids_def demo_eval fs_label_def chars_def root_label_def ext4_blocks_def SECTOR_def)

lemma demo_accepted: "media_check demo 1051648 demo_ids 2054 = Ok (2048, 2051)"
proof -
  have r: "pure_read demo 1051648 512 0 = Ok demo_mbr" "pure_read demo 1051648 512 512 = Ok demo_primary"
    "pure_read demo 1051648 512 1051136 = Ok demo_backup" "pure_read demo 1051648 128 1024 = Ok demo_array"
    "pure_read demo 1051648 128 1050624 = Ok demo_array" "pure_read demo 1051648 1024 1049600 = Ok demo_super"
    by (simp_all add: pure_read_def demo_reads)
  have h: "media_header demo 1051648 1 2054 = Ok (demo_header 1 2053 2)" "media_header demo 1051648 2053 2054 = Ok (demo_header 2053 1 2052)"
    by (simp_all add: media_header_def SECTOR_def r demo_primary_check demo_backup_check)
  have a: "media_array demo 1051648 (demo_header 1 2053 2) = Ok demo_array" "media_array demo 1051648 (demo_header 2053 1 2052) = Ok demo_array"
    by (simp_all add: media_array_def demo_header_def array_bytes_def SECTOR_def r array_check_def demo_array_crc)
  show ?thesis
    unfolding media_check_def
    by (simp add: r h a demo_mbr_check demo_root_check demo_ext4_check SECTOR_def)
      (simp add: pair_check_def demo_header_def demo_ids_def)
qed

text \<open>A system that interrupts the first read and returns every other one in two parts.\<close>

definition demo_stat :: stat where
  "demo_stat = \<lparr>st_mode = S_ISREG, st_dev = 1, st_ino = 7, st_rdev = (0, 0), st_size = 1051648\<rparr>"

fun demo_env :: gate_env where
  "demo_env h (Pread n off) = (if interrupts h = 0 then Interrupted else Data (bytes_at demo off (if n < 2 then n else n div 2)))"
| "demo_env h (Lstat p) = StatIs demo_stat"
| "demo_env h Fstat = StatIs demo_stat"
| "demo_env h q = Done"

definition demo_args :: "string list" where
  "demo_args = [''--image'', ''root.img'', ''--disk-guid'', ''11223344-5566-7788-99aa-bbccddeeff01'',
     ''--partuuid'', ''21223344-5566-7788-99aa-bbccddeeff02'', ''--fsuuid'', ''31223344-5566-7788-99aa-bbccddeeff03'',
     ''--media-bytes'', ''1051648'', ''--layout-bytes'', ''1051648'']"

definition demo_options :: options where
  "demo_options = \<lparr>o_path = Some ''root.img'', o_disk = False, o_disk_id = Some ''11223344-5566-7788-99aa-bbccddeeff01'',
     o_part_id = Some ''21223344-5566-7788-99aa-bbccddeeff02'', o_fs_id = Some ''31223344-5566-7788-99aa-bbccddeeff03'',
     o_media = 1051648, o_layout = 1051648, o_devno = None\<rparr>"

lemma demo_number: "number ''1051648'' = Ok 1051648"
  by (simp add: number_def is_digit_def code_def)

lemma demo_parse: "parse_args demo_args no_options = Ok demo_options"
  by (simp add: demo_args_def no_options_def parse_option_def set_number_def demo_number demo_options_def)

lemma demo_lengths_check: "lengths_check demo_options = Ok ()"
  by (simp add: lengths_check_def demo_options_def SECTOR_def)

lemma demo_parse_ids:
  "parse_ids ''11223344-5566-7788-99aa-bbccddeeff01'' ''21223344-5566-7788-99aa-bbccddeeff02'' ''31223344-5566-7788-99aa-bbccddeeff03'' = Ok demo_ids"
  by (simp add: parse_ids_def uuid_def LINUX_FS_def nibble_def code_def gpt_order_def demo_ids_def)

lemma demo_presents: "presents demo_env demo_options demo_stat"
  by (simp add: presents_def demo_options_def demo_stat_def)

lemma demo_faithful: "faithful demo M 1 demo_env"
  by (auto simp: faithful_def good_read_def bytes_at_def)

definition demo_report :: report where
  "demo_report = make_report demo_options ''11223344-5566-7788-99aa-bbccddeeff01'' ''21223344-5566-7788-99aa-bbccddeeff02''
     ''31223344-5566-7788-99aa-bbccddeeff03'' (2048, 2051)"

lemma demo_verdict:
  "then_go (media_check demo (o_media demo_options) demo_ids (o_layout demo_options div SECTOR))
     (\<lambda>x. Ok (make_report demo_options ''11223344-5566-7788-99aa-bbccddeeff01'' ''21223344-5566-7788-99aa-bbccddeeff02''
       ''31223344-5566-7788-99aa-bbccddeeff03'' x)) = Ok demo_report"
proof -
  have "o_media demo_options = 1051648" "o_layout demo_options div SECTOR = 2054" by (simp_all add: demo_options_def SECTOR_def)
  then show ?thesis by (simp add: demo_accepted demo_report_def)
qed

lemma demo_run: "fst (run_state (gate_main (2 ^ 20 + 1) demo_env demo_args) gate_start) = Ok demo_report"
proof -
  have "wp (gate_main (2 ^ 20 + 1) demo_env demo_args) (\<lambda>r w'. r = Ok demo_report) gate_start"
    unfolding demo_verdict [symmetric]
    by (rule gate_main_verdict [OF demo_parse _ _ _ _ demo_lengths_check demo_parse_ids demo_presents demo_faithful, of _ "2 ^ 20 + 1"])
      (simp_all add: demo_options_def)
  from wpD [OF this] show ?thesis by (metis prod.collapse)
qed


theorem gate_accept_sound_witness:
  "parse_ids (r_disk_guid demo_report) (r_partuuid demo_report) (r_fsuuid demo_report) = Ok demo_ids
   \<and> root_layout demo 2054 demo_ids 2048 2051"
proof -
  obtain w where run: "run_state (gate_main (2 ^ 20 + 1) demo_env demo_args) gate_start = (Ok demo_report, w)"
    using demo_run by (metis prod.collapse)
  have ids: "parse_ids (r_disk_guid demo_report) (r_partuuid demo_report) (r_fsuuid demo_report) = Ok demo_ids"
    by (simp add: demo_report_def make_report_def demo_parse_ids)
  from gate_accept_sound [OF run demo_faithful] ids show ?thesis
    by (simp add: demo_report_def make_report_def demo_options_def)
qed

theorem gate_reads_inside_witness:
  "fst (run_state (gate_main (2 ^ 20 + 1) demo_env demo_args) gate_start) = Ok demo_report
   \<and> (let w = snd (run_state (gate_main (2 ^ 20 + 1) demo_env demo_args) gate_start)
      in reads_inside 1051648 (hist w) \<and> fd_life Unopened (hist w) = Some Closed)"
proof -
  obtain w where run: "run_state (gate_main (2 ^ 20 + 1) demo_env demo_args) gate_start = (Ok demo_report, w)"
    using demo_run by (metis prod.collapse)
  from gate_reads_inside [OF run] run show ?thesis
    by (auto simp: demo_report_def make_report_def demo_options_def)
qed

end
