(* ===== verification/Dockchannel.thy ===== *)
theory Dockchannel
  imports Wallace_Prelude
begin

text \<open>
  The DockChannel FIFO driver, \<open>sources/asahi--drivers__soc__apple__dockchannel.c\<close>: sending and receiving byte streams
  through a hardware FIFO, waiting for data with a callback, the interrupt handlers, and the interrupt controller
  that the channels share.

  Registers, completions, interrupts and device management are requests. The state \<open>dockchannel\<close> is extensible and the request
  type has a constructor \<open>Up\<close>, so that a client's programs run over the same history. The loops of \<open>dockchannel_send\<close> and
  \<open>dockchannel_recv\<close> go on as long as waiting succeeds without progress; they have fuel, and \<open>None\<close> is a
  call that has not returned.

  Proved: what is sent is the buffer, in order and once, and a timeout leaves a prefix of it; what is received is what
  the FIFO held, in order; neither ever exceeds the space or the count that the hardware reported; both return when
  the hardware keeps its promise that a completed wait means progress; the interrupt controller's masks behave like a
  set of enabled lines, which is empty after a probe and after removal.
\<close>

section \<open>Registers and requests\<close>

definition DOCKCHANNEL_MAX_IRQ :: nat where "DOCKCHANNEL_MAX_IRQ = 32"
definition DOCKCHANNEL_TX_TIMEOUT_MS :: nat where "DOCKCHANNEL_TX_TIMEOUT_MS = 1000"
definition DOCKCHANNEL_RX_TIMEOUT_MS :: nat where "DOCKCHANNEL_RX_TIMEOUT_MS = 1000"
definition IRQ_MASK :: nat where "IRQ_MASK = 0x0"
definition IRQ_FLAG :: nat where "IRQ_FLAG = 0x4"
definition CONFIG_TX_THRESH :: nat where "CONFIG_TX_THRESH = 0x0"
definition CONFIG_RX_THRESH :: nat where "CONFIG_RX_THRESH = 0x4"
definition DATA_TX8 :: nat where "DATA_TX8 = 0x4"
definition DATA_TX32 :: nat where "DATA_TX32 = 0x10"
definition DATA_TX_FREE :: nat where "DATA_TX_FREE = 0x14"
definition DATA_RX8 :: nat where "DATA_RX8 = 0x1c"
definition DATA_RX32 :: nat where "DATA_RX32 = 0x28"
definition DATA_RX_COUNT :: nat where "DATA_RX_COUNT = 0x2c"

lemmas dock_regs = DATA_TX8_def DATA_TX32_def DATA_TX_FREE_def DATA_RX8_def DATA_RX32_def DATA_RX_COUNT_def
  CONFIG_TX_THRESH_def CONFIG_RX_THRESH_def IRQ_MASK_def IRQ_FLAG_def

datatype side = Tx | Rx

datatype 'q dock_req =
    ReadData nat | WriteData32 nat u32 | WriteData8 nat u8 | WriteConfig nat u32
  | ReadIrq nat | WriteIrq nat u32
  | InitCompletion side | ReinitCompletion side | Complete side | WaitCompletion side nat
  | EnableIrq int | DisableIrq int | DisableIrqNosync int
  | DevmKzalloc | IoremapByname string | OfReadU32 string | GetIrqByname string | RequestIrq int | RequestThreadedIrq int
  | GetIrq nat | SetDrvdata | DomainAddLinear nat | SetHandlerData int | SetChainedHandler int | PopulateChildren
  | ChainedEnter | ChainedExit | HandleDomainIrq nat | SetChipData int | SetChipAndHandler int
  | DestroyChildren | ClearChainedHandler int | FindMapping nat | DisposeMapping int | DomainRemove
  | Up 'q

datatype 'r dock_resp = Done | Val u32 | Ret int | Null | UpR 'r

fun val_of :: "'r dock_resp \<Rightarrow> u32" where
  "val_of (Val v) = v"
| "val_of r = 0"

fun ret_of :: "'r dock_resp \<Rightarrow> int" where
  "ret_of (Ret n) = n"
| "ret_of r = 0"

text \<open>The state of a channel; \<open>callback\<close> is the registered \<open>data_available\<close>.\<close>

record dockchannel =
  tx_irq :: int
  rx_irq :: int
  fifo_size :: u32
  awaiting :: bool
  callback :: bool

type_synonym ('q, 'r) dock_env = "('q dock_req, 'r dock_resp) env"
type_synonym ('q, 'r, 'z, 'a) dock_prog = "('q dock_req, 'r dock_resp, 'z dockchannel_scheme, 'a) prog"

section \<open>The FIFO\<close>

definition get_unaligned_le32 :: "u8 list \<Rightarrow> u32" where
  "get_unaligned_le32 p = ucast (p ! 0) OR push_bit 8 (ucast (p ! 1)) OR push_bit 16 (ucast (p ! 2)) OR push_bit 24 (ucast (p ! 3))"

definition put_unaligned_le32 :: "u32 \<Rightarrow> u8 list" where
  "put_unaligned_le32 v = [ucast v, ucast (drop_bit 8 v), ucast (drop_bit 16 v), ucast (drop_bit 24 v)]"

datatype irqreturn = IRQ_HANDLED | IRQ_WAKE_THREAD

definition dockchannel_tx_irq :: "('q, 'r) dock_env \<Rightarrow> int \<Rightarrow> ('q, 'r, 'z, irqreturn) dock_prog" where
  "dockchannel_tx_irq E irq = do {
     exec E (DisableIrqNosync irq);
     exec E (Complete Tx);
     return IRQ_HANDLED
   }"

definition dockchannel_rx_irq :: "('q, 'r) dock_env \<Rightarrow> int \<Rightarrow> ('q, 'r, 'z, irqreturn) dock_prog" where
  "dockchannel_rx_irq E irq = do {
     exec E (DisableIrqNosync irq);
     s \<leftarrow> getd;
     if awaiting s then return IRQ_WAKE_THREAD
     else do { exec E (Complete Rx); return IRQ_HANDLED }
   }"

text \<open>The thread calls the registered callback with the number of bytes available.\<close>

definition dockchannel_rx_irq_thread ::
    "('q, 'r) dock_env \<Rightarrow> (nat \<Rightarrow> ('q, 'r, 'z, unit) dock_prog) \<Rightarrow> ('q, 'r, 'z, irqreturn) dock_prog" where
  "dockchannel_rx_irq_thread E data_available = do {
     r \<leftarrow> call E (ReadData DATA_RX_COUNT);
     modd (\<lambda>s. s\<lparr>awaiting := False\<rparr>);
     data_available (unat (val_of r));
     return IRQ_HANDLED
   }"

text \<open>Writing a block of bytes that fits: words while four bytes are left of it, then single bytes.\<close>

fun send_bytes :: "('q, 'r) dock_env \<Rightarrow> nat \<Rightarrow> u8 list \<Rightarrow> ('q, 'r, 'z, u8 list) dock_prog" where
  "send_bytes E 0 p = return p"
| "send_bytes E (Suc block) p = do { exec E (WriteData8 DATA_TX8 (hd p)); send_bytes E block (tl p) }"

fun send_block :: "('q, 'r) dock_env \<Rightarrow> nat \<Rightarrow> u8 list \<Rightarrow> ('q, 'r, 'z, u8 list) dock_prog" where
  "send_block E block p =
     (if 4 \<le> block then do {
        exec E (WriteData32 DATA_TX32 (get_unaligned_le32 p));
        send_block E (block - 4) (drop 4 p)
      }
      else send_bytes E block p)"

declare send_block.simps [simp del]

definition threshold :: "'z dockchannel_scheme \<Rightarrow> nat \<Rightarrow> u32" where
  "threshold s left = of_nat (min (unat (fifo_size s) div 2) left)"

text \<open>The loop of \<open>dockchannel_send\<close>; the result is 0 or an error.\<close>

fun send_loop :: "nat \<Rightarrow> ('q, 'r) dock_env \<Rightarrow> u8 list \<Rightarrow> ('q, 'r, 'z, int option) dock_prog" where
  "send_loop fuel E [] = return (Some 0)"
| "send_loop 0 E (b # p) = return None"
| "send_loop (Suc fuel) E (b # p) = do {
     r \<leftarrow> call E (ReadData DATA_TX_FREE);
     if val_of r = 0 then do {
       s \<leftarrow> getd;
       exec E (WriteConfig CONFIG_TX_THRESH (threshold s (length (b # p))));
       exec E (ReinitCompletion Tx);
       exec E (EnableIrq (tx_irq s));
       r \<leftarrow> call E (WaitCompletion Tx DOCKCHANNEL_TX_TIMEOUT_MS);
       if ret_of r = 0 then do { exec E (DisableIrq (tx_irq s)); return (Some (- ETIMEDOUT)) }
       else send_loop fuel E (b # p)
     }
     else do {
       p' \<leftarrow> send_block E (min (length (b # p)) (unat (val_of r))) (b # p);
       send_loop fuel E p'
     }
   }"

definition dockchannel_send :: "nat \<Rightarrow> ('q, 'r) dock_env \<Rightarrow> u8 list \<Rightarrow> ('q, 'r, 'z, int option) dock_prog" where
  "dockchannel_send fuel E buf = do {
     r \<leftarrow> send_loop fuel E buf;
     return (map_option (\<lambda>ret. if ret < 0 then ret else int (length buf)) r)
   }"

fun recv_bytes :: "('q, 'r) dock_env \<Rightarrow> nat \<Rightarrow> u8 list \<Rightarrow> ('q, 'r, 'z, u8 list) dock_prog" where
  "recv_bytes E 0 p = return p"
| "recv_bytes E (Suc block) p = do {
     r \<leftarrow> call E (ReadData DATA_RX8);
     recv_bytes E block (p @ [ucast (drop_bit 8 (val_of r))])
   }"

fun recv_block :: "('q, 'r) dock_env \<Rightarrow> nat \<Rightarrow> u8 list \<Rightarrow> ('q, 'r, 'z, u8 list) dock_prog" where
  "recv_block E block p =
     (if 4 \<le> block then do {
        r \<leftarrow> call E (ReadData DATA_RX32);
        recv_block E (block - 4) (p @ put_unaligned_le32 (val_of r))
      }
      else recv_bytes E block p)"

declare recv_block.simps [simp del]

text \<open>The loop of \<open>dockchannel_recv\<close>: \<open>left\<close> bytes are missing from the buffer \<open>p\<close>. A timeout keeps what has arrived.\<close>

fun recv_loop :: "nat \<Rightarrow> ('q, 'r) dock_env \<Rightarrow> nat \<Rightarrow> u8 list \<Rightarrow> ('q, 'r, 'z, (int \<times> u8 list) option) dock_prog" where
  "recv_loop fuel E 0 p = return (Some (0, p))"
| "recv_loop 0 E (Suc left) p = return None"
| "recv_loop (Suc fuel) E (Suc left) p = do {
     r \<leftarrow> call E (ReadData DATA_RX_COUNT);
     if val_of r = 0 then do {
       s \<leftarrow> getd;
       exec E (WriteConfig CONFIG_RX_THRESH (threshold s (Suc left)));
       exec E (ReinitCompletion Rx);
       exec E (EnableIrq (rx_irq s));
       r \<leftarrow> call E (WaitCompletion Rx DOCKCHANNEL_RX_TIMEOUT_MS);
       if ret_of r = 0 then do { exec E (DisableIrq (rx_irq s)); return (Some (- ETIMEDOUT, p)) }
       else recv_loop fuel E (Suc left) p
     }
     else do {
       let block = min (Suc left) (unat (val_of r));
       p' \<leftarrow> recv_block E block p;
       recv_loop fuel E (Suc left - block) p'
     }
   }"

text \<open>The result is the returned number and the bytes stored in the buffer.\<close>

definition dockchannel_recv :: "nat \<Rightarrow> ('q, 'r) dock_env \<Rightarrow> nat \<Rightarrow> ('q, 'r, 'z, (int \<times> u8 list) option) dock_prog" where
  "dockchannel_recv fuel E count = do {
     r \<leftarrow> recv_loop fuel E count [];
     return (map_option (\<lambda>(ret, p). (if ret < 0 then ret else int count, p)) r)
   }"

definition dockchannel_await :: "('q, 'r) dock_env \<Rightarrow> nat \<Rightarrow> ('q, 'r, 'z, nat) dock_prog" where
  "dockchannel_await E count = do {
     s \<leftarrow> getd;
     let thr = min (unat (fifo_size s)) count;
     if count = 0 then do {
       modd (\<lambda>s. s\<lparr>awaiting := False\<rparr>);
       exec E (DisableIrq (rx_irq s));
       return 0
     }
     else do {
       modd (\<lambda>s. s\<lparr>callback := True\<rparr>);
       modd (\<lambda>s. s\<lparr>awaiting := True\<rparr>);
       exec E (WriteConfig CONFIG_RX_THRESH (of_nat thr));
       exec E (EnableIrq (rx_irq s));
       return thr
     }
   }"

text \<open>A property of the device tree: its value or the error of the lookup.\<close>

fun u32_of :: "'r dock_resp \<Rightarrow> int + u32" where
  "u32_of (Val v) = Inr v"
| "u32_of (Ret n) = Inl (if n = 0 then - EINVAL else n)"
| "u32_of r = Inl (- EINVAL)"

definition dockchannel_irqs :: "('q, 'r) dock_env \<Rightarrow> ('q, 'r, 'z, int) dock_prog" where
  "dockchannel_irqs E = do {
     exec E (InitCompletion Tx);
     exec E (InitCompletion Rx);
     r \<leftarrow> call E (GetIrqByname ''tx'');
     modd (\<lambda>s. s\<lparr>tx_irq := ret_of r\<rparr>);
     if ret_of r < 0 then return (ret_of r)
     else do {
       r \<leftarrow> call E (GetIrqByname ''rx'');
       modd (\<lambda>s. s\<lparr>rx_irq := ret_of r\<rparr>);
       if ret_of r < 0 then return (ret_of r)
       else do {
         s \<leftarrow> getd;
         r \<leftarrow> call E (RequestIrq (tx_irq s));
         if ret_of r \<noteq> 0 then return (ret_of r)
         else do {
           r \<leftarrow> call E (RequestThreadedIrq (rx_irq s));
           return (ret_of r)
         }
       }
     }
   }"

text \<open>The result is 0, with the channel as the state, or the error of the returned pointer.\<close>

definition dockchannel_init :: "('q, 'r) dock_env \<Rightarrow> ('q, 'r, 'z, int) dock_prog" where
  "dockchannel_init E = do {
     r \<leftarrow> call E DevmKzalloc;
     if r = Null then return (- ENOMEM)
     else do {
       modd (\<lambda>s. s\<lparr>tx_irq := 0, rx_irq := 0, fifo_size := 0, awaiting := False, callback := False\<rparr>);
       r \<leftarrow> call E (IoremapByname ''config'');
       if ret_of r < 0 then return (ret_of r)
       else do {
         r \<leftarrow> call E (IoremapByname ''data'');
         if ret_of r < 0 then return (ret_of r)
         else do {
           r \<leftarrow> call E (OfReadU32 ''apple,fifo-size'');
           case u32_of r of
             Inr v \<Rightarrow> do {
               modd (\<lambda>s. s\<lparr>fifo_size := v\<rparr>);
               dockchannel_irqs E
             }
           | Inl ret \<Rightarrow> return ret
         }
       }
     }
   }"

section \<open>The interrupt controller\<close>

record dockchannel_common =
  dcc_irq :: int
  dcc_domain :: bool

type_synonym ('q, 'r, 'a) dcc_prog = "('q dock_req, 'r dock_resp, dockchannel_common, 'a) prog"

definition dockchannel_irq :: "('q, 'r) dock_env \<Rightarrow> ('q, 'r, unit) dcc_prog" where
  "dockchannel_irq E = do {
     r \<leftarrow> call E (ReadIrq IRQ_FLAG);
     exec E ChainedEnter;
     for_each (filter (bit (val_of r)) [0..<DOCKCHANNEL_MAX_IRQ]) (\<lambda>b. exec E (HandleDomainIrq b));
     exec E ChainedExit
   }"

definition dockchannel_irq_ack :: "('q, 'r) dock_env \<Rightarrow> nat \<Rightarrow> ('q, 'r, unit) dcc_prog" where
  "dockchannel_irq_ack E hwirq = exec E (WriteIrq IRQ_FLAG (BIT hwirq))"

definition dockchannel_irq_mask :: "('q, 'r) dock_env \<Rightarrow> nat \<Rightarrow> ('q, 'r, unit) dcc_prog" where
  "dockchannel_irq_mask E hwirq = do {
     r \<leftarrow> call E (ReadIrq IRQ_MASK);
     exec E (WriteIrq IRQ_MASK (val_of r AND NOT (BIT hwirq)))
   }"

definition dockchannel_irq_unmask :: "('q, 'r) dock_env \<Rightarrow> nat \<Rightarrow> ('q, 'r, unit) dcc_prog" where
  "dockchannel_irq_unmask E hwirq = do {
     r \<leftarrow> call E (ReadIrq IRQ_MASK);
     exec E (WriteIrq IRQ_MASK (val_of r OR BIT hwirq))
   }"

definition dockchannel_irq_domain_map :: "('q, 'r) dock_env \<Rightarrow> int \<Rightarrow> ('q, 'r, int) dcc_prog" where
  "dockchannel_irq_domain_map E virq = do {
     exec E (SetChipData virq);
     exec E (SetChipAndHandler virq);
     return 0
   }"

definition dockchannel_probe :: "('q, 'r) dock_env \<Rightarrow> ('q, 'r, int) dcc_prog" where
  "dockchannel_probe E = do {
     r \<leftarrow> call E DevmKzalloc;
     if r = Null then return (- ENOMEM)
     else do {
       exec E SetDrvdata;
       r \<leftarrow> call E (IoremapByname ''irq'');
       if ret_of r < 0 then return (ret_of r)
       else do {
         exec E (WriteIrq IRQ_MASK 0);
         exec E (WriteIrq IRQ_FLAG (- 1));
         r \<leftarrow> call E (DomainAddLinear DOCKCHANNEL_MAX_IRQ);
         if r = Null then return (- ENOMEM)
         else do {
           modd (\<lambda>dcc. dcc\<lparr>dcc_domain := True\<rparr>);
           r \<leftarrow> call E (GetIrq 0);
           modd (\<lambda>dcc. dcc\<lparr>dcc_irq := ret_of r\<rparr>);
           if ret_of r < 0 then return (ret_of r)
           else do {
             exec E (SetHandlerData (ret_of r));
             exec E (SetChainedHandler (ret_of r));
             exec E PopulateChildren;
             return 0
           }
         }
       }
     }
   }"

definition dockchannel_remove :: "('q, 'r) dock_env \<Rightarrow> ('q, 'r, unit) dcc_prog" where
  "dockchannel_remove E = do {
     exec E DestroyChildren;
     dcc \<leftarrow> getd;
     exec E (ClearChainedHandler (dcc_irq dcc));
     for_each [0..<DOCKCHANNEL_MAX_IRQ] (\<lambda>hwirq. do {
       m \<leftarrow> call E (FindMapping hwirq);
       exec E (DisposeMapping (ret_of m))
     });
     exec E DomainRemove;
     exec E (WriteIrq IRQ_MASK 0);
     exec E (WriteIrq IRQ_FLAG (- 1))
   }"

section \<open>Streams in the history\<close>

text \<open>The bytes that were written to the FIFO, and those it gave.\<close>

fun tx_of :: "'q dock_req \<times> 'r dock_resp \<Rightarrow> u8 list" where
  "tx_of (WriteData32 off v, r) = put_unaligned_le32 v"
| "tx_of (WriteData8 off b, r) = [b]"
| "tx_of x = []"

fun rx_of :: "'q dock_req \<times> 'r dock_resp \<Rightarrow> u8 list" where
  "rx_of (ReadData off, r) =
     (if off = DATA_RX32 then put_unaligned_le32 (val_of r)
      else if off = DATA_RX8 then [ucast (drop_bit 8 (val_of r))] else [])"
| "rx_of x = []"

definition sent :: "('q dock_req \<times> 'r dock_resp) list \<Rightarrow> u8 list" where
  "sent h = concat (map tx_of h)"

definition received :: "('q dock_req \<times> 'r dock_resp) list \<Rightarrow> u8 list" where
  "received h = concat (map rx_of h)"

text \<open>The requests of a client of the channel.\<close>

fun client_of :: "'q dock_req \<times> 'r dock_resp \<Rightarrow> ('q \<times> 'r dock_resp) list" where
  "client_of (Up q, r) = [(q, r)]"
| "client_of x = []"

definition client :: "('q dock_req \<times> 'r dock_resp) list \<Rightarrow> ('q \<times> 'r dock_resp) list" where
  "client h = concat (map client_of h)"

lemma client_append [simp]: "client [] = []" "client (h @ k) = client h @ client k" "client (x # h) = client_of x @ client h"
  by (simp_all add: client_def)

lemma streams_append [simp]:
  "sent [] = []" "sent (h @ k) = sent h @ sent k" "sent (x # h) = tx_of x @ sent h"
  "received [] = []" "received (h @ k) = received h @ received k" "received (x # h) = rx_of x @ received h"
  by (simp_all add: sent_def received_def)

text \<open>
  The credit of a FIFO: the space or the count that the hardware last reported, less what was moved since. \<open>None\<close> is a
  transfer that the hardware had not offered.
\<close>

fun tx_credit :: "nat \<Rightarrow> ('q dock_req \<times> 'r dock_resp) list \<Rightarrow> nat option" where
  "tx_credit c [] = Some c"
| "tx_credit c ((q, r) # h) =
     (if q = ReadData DATA_TX_FREE then tx_credit (unat (val_of r)) h
      else let n = length (tx_of (q, r)) in if c < n then None else tx_credit (c - n) h)"

fun rx_credit :: "nat \<Rightarrow> ('q dock_req \<times> 'r dock_resp) list \<Rightarrow> nat option" where
  "rx_credit c [] = Some c"
| "rx_credit c ((q, r) # h) =
     (if q = ReadData DATA_RX_COUNT then rx_credit (unat (val_of r)) h
      else let n = length (rx_of (q, r)) in if c < n then None else rx_credit (c - n) h)"

lemma credit_append:
  "tx_credit c (h @ k) = (case tx_credit c h of None \<Rightarrow> None | Some c' \<Rightarrow> tx_credit c' k)"
  "rx_credit c (h @ k) = (case rx_credit c h of None \<Rightarrow> None | Some c' \<Rightarrow> rx_credit c' k)"
  by (induction h arbitrary: c) (auto simp: Let_def)

lemma put_length [simp]: "length (put_unaligned_le32 v) = 4"
  by (simp add: put_unaligned_le32_def)

lemma bit_byte_beyond: "8 \<le> m \<Longrightarrow> \<not> bit (b :: u8) m"
  using bit_imp_le_length [of b m] by auto

lemma put_get: "put_unaligned_le32 (get_unaligned_le32 (a # b # c # d # q)) = [a, b, c, d]"
proof -
  let ?v = "get_unaligned_le32 (a # b # c # d # q)"
  have v: "bit ?v n \<longleftrightarrow> n < 32 \<and> (bit a n \<or> 8 \<le> n \<and> bit b (n - 8) \<or> 16 \<le> n \<and> bit c (n - 16) \<or> 24 \<le> n \<and> bit d (n - 24))" for n
    by (auto simp: get_unaligned_le32_def bit_simps)
  have "ucast ?v = a" by (rule bit_word_eqI) (auto simp: bit_ucast_iff v)
  moreover have "ucast (drop_bit 8 ?v) = b" by (rule bit_word_eqI) (auto simp: bit_ucast_iff bit_drop_bit_eq v bit_byte_beyond)
  moreover have "ucast (drop_bit 16 ?v) = c" by (rule bit_word_eqI) (auto simp: bit_ucast_iff bit_drop_bit_eq v bit_byte_beyond)
  moreover have "ucast (drop_bit 24 ?v) = d" by (rule bit_word_eqI) (auto simp: bit_ucast_iff bit_drop_bit_eq v bit_byte_beyond)
  ultimately show ?thesis by (simp add: put_unaligned_le32_def)
qed

lemma put_get_take: "4 \<le> length p \<Longrightarrow> put_unaligned_le32 (get_unaligned_le32 p) = take 4 p"
proof -
  assume "4 \<le> length p"
  then obtain a b c d q where "p = a # b # c # d # q" by (auto simp: numeral_eq_Suc Suc_le_length_iff)
  then show ?thesis by (simp add: put_get)
qed

section \<open>Sending\<close>

text \<open>\<open>puts h p c\<close>: the calls \<open>h\<close> write the bytes \<open>p\<close> and nothing else moves; \<open>c\<close> is the credit that they use at most.\<close>

definition puts :: "('q dock_req \<times> 'r dock_resp) list \<Rightarrow> u8 list \<Rightarrow> nat \<Rightarrow> bool" where
  "puts h p n \<longleftrightarrow> sent h = p \<and> received h = [] \<and> client h = [] \<and> (\<forall>c \<ge> n. tx_credit c h = Some (c - n))"

lemma puts_Nil [simp]: "puts [] [] 0"
  by (simp add: puts_def)

lemma puts_append: "puts h p n \<Longrightarrow> puts k q m \<Longrightarrow> puts (h @ k) (p @ q) (n + m)"
  by (auto simp: puts_def credit_append)

lemma puts_word: "puts [(WriteData32 DATA_TX32 v, r)] (put_unaligned_le32 v) 4"
  by (simp add: puts_def)

lemma puts_byte: "puts [(WriteData8 DATA_TX8 b, r)] [b] 1"
  by (simp add: puts_def)

lemma send_bytes_puts:
  "n \<le> length p \<Longrightarrow> wp (send_bytes E n p) (\<lambda>p' w'. p' = drop n p \<and> drv w' = drv w
     \<and> (\<exists>new. hist w' = hist w @ new \<and> puts new (take n p) n)) w"
proof (induction n arbitrary: p w)
  case 0
  then show ?case by (auto simp: wp_simps)
next
  case (Suc n)
  then obtain b q where p: "p = b # q" "n \<le> length q" by (auto simp: Suc_le_length_iff)
  let ?r = "E (hist w) (WriteData8 DATA_TX8 b)"
  note IH = Suc.IH [OF p(2), of "w\<lparr>hist := hist w @ [(WriteData8 DATA_TX8 b, ?r)]\<rparr>"]
  show ?case
    unfolding p(1) send_bytes.simps wp_bind wp_exec list.sel
    by (rule wp_mono [OF IH]) (auto dest: puts_append [OF puts_byte])
qed

lemma send_block_puts:
  "n \<le> length p \<Longrightarrow> wp (send_block E n p) (\<lambda>p' w'. p' = drop n p \<and> drv w' = drv w
     \<and> (\<exists>new. hist w' = hist w @ new \<and> puts new (take n p) n)) w"
proof (induction n arbitrary: p w rule: less_induct)
  case (less n)
  show ?case
  proof (cases "4 \<le> n")
    case True
    let ?q = "WriteData32 DATA_TX32 (get_unaligned_le32 p)"
    have l: "n - 4 < n" "n - 4 \<le> length (drop 4 p)" using True less.prems by auto
    have t: "put_unaligned_le32 (get_unaligned_le32 p) @ take (n - 4) (drop 4 p) = take n p"
      using True less.prems by (simp add: put_get_take take_add [symmetric])
    note IH = less.IH [OF l, of "w\<lparr>hist := hist w @ [(?q, E (hist w) ?q)]\<rparr>"]
    have a: "puts new (take (n - 4) (drop 4 p)) (n - 4) \<Longrightarrow> puts ((?q, r) # new) (take n p) n" for new r
      using puts_append [OF puts_word [of "get_unaligned_le32 p" r]] True t by fastforce
    show ?thesis
      unfolding send_block.simps [of E n p]
      using True by (simp add: wp_simps) (rule wp_mono [OF IH], use True in \<open>auto intro: a\<close>)
  next
    case False
    then show ?thesis unfolding send_block.simps [of E n p] using send_bytes_puts [OF less.prems] by simp
  qed
qed

text \<open>\<open>sends h p\<close>: the calls \<open>h\<close> have written \<open>p\<close>, within the space reported before each block.\<close>

definition sends :: "('q dock_req \<times> 'r dock_resp) list \<Rightarrow> u8 list \<Rightarrow> bool" where
  "sends h p \<longleftrightarrow> sent h = p \<and> received h = [] \<and> client h = [] \<and> (\<forall>c. tx_credit c h \<noteq> None)"

lemma sends_Nil [simp]: "sends [] p \<longleftrightarrow> p = []"
  by (auto simp: sends_def)

lemma sends_append: "sends h p \<Longrightarrow> sends k q \<Longrightarrow> sends (h @ k) (p @ q)"
  by (auto simp: sends_def credit_append split: option.splits)

lemma sends_block: "puts h p n \<Longrightarrow> n \<le> unat (val_of r) \<Longrightarrow> sends ((ReadData DATA_TX_FREE, r) # h) p"
  by (auto simp: sends_def puts_def dock_regs)

lemma sends_wait:
  "sends [(ReadData DATA_TX_FREE, r1), (WriteConfig t v, r2), (ReinitCompletion s, r3), (EnableIrq i, r4), (WaitCompletion s' n, r5)] []"
  "sends [(DisableIrq i, r6)] []"
  by (simp_all add: sends_def dock_regs)

definition send_post :: "u8 list \<Rightarrow> ('q dock_req, 'r dock_resp, 'z dockchannel_scheme) world \<Rightarrow> int option
    \<Rightarrow> ('q dock_req, 'r dock_resp, 'z dockchannel_scheme) world \<Rightarrow> bool" where
  "send_post p w r w' \<longleftrightarrow> drv w' = drv w \<and> (\<exists>new done_part rest. hist w' = hist w @ new \<and> p = done_part @ rest \<and> sends new done_part
     \<and> (case r of Some ret \<Rightarrow> ret = 0 \<and> rest = [] \<or> ret = - ETIMEDOUT \<and> rest \<noteq> [] | None \<Rightarrow> rest \<noteq> []))"

lemma send_post_step:
  assumes "send_post p v r w'" and "drv v = drv w" and "hist v = hist w @ new" and "sends new q"
  shows "send_post (q @ p) w r w'"
proof -
  from assms(1) obtain n d t where "hist w' = hist v @ n" "p = d @ t" "sends n d"
    "case r of Some ret \<Rightarrow> ret = 0 \<and> t = [] \<or> ret = - ETIMEDOUT \<and> t \<noteq> [] | None \<Rightarrow> t \<noteq> []" "drv w' = drv v"
    unfolding send_post_def by blast
  then show ?thesis
    unfolding send_post_def using assms(2-4) sends_append [OF assms(4), of n d]
    by (intro conjI exI [of _ "new @ n"] exI [of _ "q @ d"] exI [of _ t]) auto
qed

lemma send_loop_post: "wp (send_loop fuel E p) (send_post p w) w"
proof (induction fuel arbitrary: p w)
  case 0
  then show ?case by (cases p) (auto simp: wp_simps send_post_def intro: exI [of _ "[]"])
next
  case (Suc fuel)
  show ?case
  proof (cases p)
    case Nil
    then show ?thesis by (auto simp: wp_simps send_post_def)
  next
    case (Cons b q)
    have stop: "send_post p w (Some (- ETIMEDOUT)) w'" if "hist w' = hist w @ new" "sends new []" "drv w' = drv w" for w' new
      using that Cons unfolding send_post_def by (intro conjI exI [of _ new] exI [of _ "[]"] exI [of _ p]) auto
    have again: "wp (send_loop fuel E p) (send_post p w) v" if "hist v = hist w @ new" "sends new []" "drv v = drv w" for v new
      by (rule wp_mono [OF Suc.IH]) (use send_post_step [OF _ that(3,1,2)] in auto)
    have block: "wp (send_loop fuel E (drop n p)) (send_post p w) v"
      if "hist v = hist w @ new" "sends new (take n p)" "drv v = drv w" for v new n
      by (rule wp_mono [OF Suc.IH], drule send_post_step [OF _ that(3,1,2)]) simp
    show ?thesis
      unfolding Cons send_loop.simps(3) unfolding Cons [symmetric]
      apply (rule wp_bindI, rule wp_call_step)
      subgoal for r w1
        apply (rule wp_ifI)
        subgoal
          apply (rule wp_bindI, rule wp_getdI)
          apply (rule wp_bindI, rule wp_exec_step, rule wp_bindI, rule wp_exec_step, rule wp_bindI, rule wp_exec_step)
          apply (rule wp_bindI, rule wp_call_step)
          subgoal for r2 w2 r3 w3 r4 w4 r5 w5
            apply (rule wp_ifI)
            subgoal
              apply (rule wp_bindI, rule wp_exec_step, rule wp_returnI)
              subgoal for r6 w6 using sends_append [OF sends_wait(1) sends_wait(2)] by (intro stop) auto
              done
            subgoal using sends_wait(1) by (intro again) auto
            done
          done
        subgoal
          apply (rule wp_bindI, rule wp_mono [OF send_block_puts])
          subgoal by simp
          subgoal for p' w2 by (elim conjE exE, hypsubst, rule block) (auto intro: sends_block)
          done
        done
      done
  qed
qed

section \<open>Receiving\<close>

definition gets :: "('q dock_req \<times> 'r dock_resp) list \<Rightarrow> u8 list \<Rightarrow> nat \<Rightarrow> bool" where
  "gets h p n \<longleftrightarrow> received h = p \<and> sent h = [] \<and> client h = [] \<and> length p = n \<and> (\<forall>c \<ge> n. rx_credit c h = Some (c - n))"

lemma gets_Nil [simp]: "gets [] [] 0"
  by (simp add: gets_def)

lemma gets_append: "gets h p n \<Longrightarrow> gets k q m \<Longrightarrow> gets (h @ k) (p @ q) (n + m)"
  by (auto simp: gets_def credit_append)

lemma gets_word: "gets [(ReadData DATA_RX32, r)] (put_unaligned_le32 (val_of r)) 4"
  by (simp add: gets_def dock_regs)

lemma gets_byte: "gets [(ReadData DATA_RX8, r)] [ucast (drop_bit 8 (val_of r))] 1"
  by (simp add: gets_def dock_regs)

lemma recv_bytes_gets:
  "wp (recv_bytes E n p) (\<lambda>p' w'. drv w' = drv w \<and> (\<exists>new q. hist w' = hist w @ new \<and> p' = p @ q \<and> gets new q n)) w"
proof (induction n arbitrary: p w)
  case 0
  show ?case by (auto simp: wp_simps)
next
  case (Suc n)
  let ?q = "ReadData DATA_RX8 :: 'a dock_req"
  let ?r = "E (hist w) ?q"
  note IH = Suc.IH [of "p @ [ucast (drop_bit 8 (val_of ?r))]" "w\<lparr>hist := hist w @ [(?q, ?r)]\<rparr>"]
  show ?case
    unfolding recv_bytes.simps wp_bind wp_call
    by (rule wp_mono [OF IH]) (auto dest: gets_append [OF gets_byte])
qed

lemma recv_block_gets:
  "wp (recv_block E n p) (\<lambda>p' w'. drv w' = drv w \<and> (\<exists>new q. hist w' = hist w @ new \<and> p' = p @ q \<and> gets new q n)) w"
proof (induction n arbitrary: p w rule: less_induct)
  case (less n)
  show ?case
  proof (cases "4 \<le> n")
    case True
    let ?q = "ReadData DATA_RX32 :: 'a dock_req"
    let ?r = "E (hist w) ?q"
    have l: "n - 4 < n" using True by simp
    note IH = less.IH [OF l, of "p @ put_unaligned_le32 (val_of ?r)" "w\<lparr>hist := hist w @ [(?q, ?r)]\<rparr>"]
    have a: "gets ((?q, r) # new) (put_unaligned_le32 (val_of r) @ q) n" if "gets new q (n - 4)" for new r q
      using gets_append [OF gets_word [of r] that] True by simp
    show ?thesis
      unfolding recv_block.simps [of E n p]
      using True by (simp add: wp_simps) (rule wp_mono [OF IH], auto intro!: a)
  next
    case False
    then show ?thesis unfolding recv_block.simps [of E n p] using recv_bytes_gets [of E n p] by simp
  qed
qed

definition receives :: "('q dock_req \<times> 'r dock_resp) list \<Rightarrow> u8 list \<Rightarrow> bool" where
  "receives h p \<longleftrightarrow> received h = p \<and> sent h = [] \<and> client h = [] \<and> (\<forall>c. rx_credit c h \<noteq> None)"

lemma receives_Nil [simp]: "receives [] p \<longleftrightarrow> p = []"
  by (auto simp: receives_def)

lemma receives_append: "receives h p \<Longrightarrow> receives k q \<Longrightarrow> receives (h @ k) (p @ q)"
  by (auto simp: receives_def credit_append split: option.splits)

lemma receives_block: "gets h p n \<Longrightarrow> n \<le> unat (val_of r) \<Longrightarrow> receives ((ReadData DATA_RX_COUNT, r) # h) p"
  by (auto simp: receives_def gets_def dock_regs)

lemma receives_wait:
  "receives [(ReadData DATA_RX_COUNT, r1), (WriteConfig t v, r2), (ReinitCompletion s, r3), (EnableIrq i, r4), (WaitCompletion s' n, r5)] []"
  "receives [(DisableIrq i, r6)] []"
  by (simp_all add: receives_def dock_regs)

definition recv_post :: "nat \<Rightarrow> u8 list \<Rightarrow> ('q dock_req, 'r dock_resp, 'z dockchannel_scheme) world \<Rightarrow> (int \<times> u8 list) option
    \<Rightarrow> ('q dock_req, 'r dock_resp, 'z dockchannel_scheme) world \<Rightarrow> bool" where
  "recv_post left p w r w' \<longleftrightarrow> drv w' = drv w \<and> (\<exists>new q. hist w' = hist w @ new \<and> receives new q
     \<and> (case r of Some (ret, p') \<Rightarrow> p' = p @ q \<and> (ret = 0 \<and> length q = left \<or> ret = - ETIMEDOUT \<and> length q < left)
        | None \<Rightarrow> length q < left))"

lemma recv_post_step:
  assumes "recv_post (left - length q) (p @ q) v r w'" and "drv v = drv w" and "hist v = hist w @ new" and "receives new q"
    and "length q \<le> left"
  shows "recv_post left p w r w'"
proof -
  from assms(1) obtain n d where "hist w' = hist v @ n" "receives n d" "drv w' = drv v"
    "case r of Some (ret, p') \<Rightarrow> p' = (p @ q) @ d \<and> (ret = 0 \<and> length d = left - length q \<or> ret = - ETIMEDOUT \<and> length d < left - length q)
     | None \<Rightarrow> length d < left - length q"
    unfolding recv_post_def by blast
  then show ?thesis
    unfolding recv_post_def using assms(2-5) receives_append [OF assms(4), of n d]
    by (intro conjI exI [of _ "new @ n"] exI [of _ "q @ d"]) (auto split: option.splits)
qed

lemma recv_loop_post: "wp (recv_loop fuel E left p) (recv_post left p w) w"
proof (induction fuel arbitrary: left p w)
  case 0
  then show ?case by (cases left) (auto simp: wp_simps recv_post_def intro: exI [of _ "[]"])
next
  case (Suc fuel)
  show ?case
  proof (cases left)
    case 0
    then show ?thesis by (auto simp: wp_simps recv_post_def)
  next
    case l: (Suc m)
    have stop: "recv_post left p w (Some (- ETIMEDOUT, p)) w'" if "hist w' = hist w @ new" "receives new []" "drv w' = drv w" for w' new
      using that l unfolding recv_post_def by (intro conjI exI [of _ new] exI [of _ "[]"]) auto
    have again: "wp (recv_loop fuel E left p) (recv_post left p w) v" if "hist v = hist w @ new" "receives new []" "drv v = drv w" for v new
      by (rule wp_mono [OF Suc.IH], rule recv_post_step [OF _ that(3,1,2)]) simp_all
    have block: "wp (recv_loop fuel E (left - n) (p @ q)) (recv_post left p w) v"
      if "hist v = hist w @ new" "receives new q" "drv v = drv w" "length q = n" "n \<le> left" for v new n q
      by (rule wp_mono [OF Suc.IH], rule recv_post_step [OF _ that(3,1,2)]) (use that in simp_all)
    show ?thesis
      unfolding l recv_loop.simps(3) unfolding l [symmetric]
      apply (rule wp_bindI, rule wp_call_step)
      subgoal for r w1
        apply (rule wp_ifI)
        subgoal
          apply (rule wp_bindI, rule wp_getdI)
          apply (rule wp_bindI, rule wp_exec_step, rule wp_bindI, rule wp_exec_step, rule wp_bindI, rule wp_exec_step)
          apply (rule wp_bindI, rule wp_call_step)
          subgoal for r2 w2 r3 w3 r4 w4 r5 w5
            apply (rule wp_ifI)
            subgoal
              apply (rule wp_bindI, rule wp_exec_step, rule wp_returnI)
              subgoal for r6 w6 using receives_append [OF receives_wait(1) receives_wait(2)] by (intro stop) auto
              done
            subgoal using receives_wait(1) by (intro again) auto
            done
          done
        subgoal
          apply (rule wp_letI, rule wp_bindI, rule wp_mono [OF recv_block_gets])
          subgoal for p' w2
            by (elim conjE exE, hypsubst, rule block) (auto intro: receives_block simp: gets_def)
          done
        done
      done
  qed
qed

section \<open>The channel as an interface\<close>

text \<open>Going on after a step that did not fail.\<close>

definition or_fail :: "('s, int option) state \<Rightarrow> ('s, int option) state \<Rightarrow> ('s, int option) state" where
  "or_fail m k = do { r \<leftarrow> m; case r of None \<Rightarrow> return None | Some ret \<Rightarrow> if ret < 0 then return (Some ret) else k }"

text \<open>Going on after a step that returned.\<close>

definition and_then :: "('s, 'a option) state \<Rightarrow> ('a \<Rightarrow> ('s, 'b option) state) \<Rightarrow> ('s, 'b option) state" where
  "and_then m k = do { r \<leftarrow> m; case r of None \<Rightarrow> return None | Some x \<Rightarrow> k x }"

text \<open>What a client relies on of a channel: buffers go out whole or as a proper prefix, and come in whole or in part,
  and the channel makes none of the client's requests.\<close>

locale byte_channel =
  fixes send :: "u8 list \<Rightarrow> ('q, 'r, 'd, int option) prog"
    and recv :: "nat \<Rightarrow> ('q, 'r, 'd, (int \<times> u8 list) option) prog"
    and out :: "('q \<times> 'r) list \<Rightarrow> u8 list"
    and inp :: "('q \<times> 'r) list \<Rightarrow> u8 list"
    and others :: "('q \<times> 'r) list \<Rightarrow> 'c list"
  assumes out_append: "out (h @ k) = out h @ out k"
    and inp_append: "inp (h @ k) = inp h @ inp k"
    and send_law: "wp (send p) (\<lambda>r w'. drv w' = drv w \<and> (\<exists>new rest. hist w' = hist w @ new \<and> p = out new @ rest \<and> inp new = [] \<and> others new = []
      \<and> (r = Some (int (length p)) \<and> rest = [] \<or> (r = Some (- ETIMEDOUT) \<or> r = None) \<and> rest \<noteq> []))) w"
    and recv_law: "wp (recv n) (\<lambda>r w'. drv w' = drv w \<and> (\<exists>new. hist w' = hist w @ new \<and> out new = [] \<and> others new = []
      \<and> (r = Some (int n, inp new) \<and> length (inp new) = n
         \<or> (r = Some (- ETIMEDOUT, inp new) \<or> r = None) \<and> length (inp new) < n))) w"
begin

lemma send_then:
  assumes "\<And>w' new. hist w' = hist w @ new \<Longrightarrow> out new = p \<Longrightarrow> inp new = [] \<Longrightarrow> others new = [] \<Longrightarrow> drv w' = drv w \<Longrightarrow> wp k Q w'"
    and "\<And>r w' new rest. hist w' = hist w @ new \<Longrightarrow> p = out new @ rest \<Longrightarrow> rest \<noteq> [] \<Longrightarrow> inp new = [] \<Longrightarrow> others new = [] \<Longrightarrow> drv w' = drv w
      \<Longrightarrow> r = Some (- ETIMEDOUT) \<or> r = None \<Longrightarrow> Q r w'"
  shows "wp (or_fail (send p) k) Q w"
  unfolding or_fail_def wp_bind
  by (rule wp_mono [OF send_law]) (auto simp: wp_simps intro: assms)

lemma recv_then:
  assumes "\<And>w' new. hist w' = hist w @ new \<Longrightarrow> length (inp new) = n \<Longrightarrow> out new = [] \<Longrightarrow> others new = [] \<Longrightarrow> drv w' = drv w
      \<Longrightarrow> wp (k (int n, inp new)) Q w'"
    and "\<And>w' new. hist w' = hist w @ new \<Longrightarrow> length (inp new) < n \<Longrightarrow> out new = [] \<Longrightarrow> others new = [] \<Longrightarrow> drv w' = drv w
      \<Longrightarrow> wp (k (- ETIMEDOUT, inp new)) Q w'"
    and "\<And>w'. drv w' = drv w \<Longrightarrow> Q None w'"
  shows "wp (and_then (recv n) k) Q w"
  unfolding and_then_def wp_bind
proof (rule wp_mono [OF recv_law], elim exE conjE)
  fix r new and w' :: "('q, 'r, 'd) world"
  assume "hist w' = hist w @ new" "out new = []" "others new = []" "drv w' = drv w"
    and "r = Some (int n, inp new) \<and> length (inp new) = n \<or> (r = Some (- ETIMEDOUT, inp new) \<or> r = None) \<and> length (inp new) < n"
  then show "wp (case r of None \<Rightarrow> return None | Some x \<Rightarrow> k x) Q w'"
    using assms(1) [of w' new] assms(2) [of w' new] assms(3) [of w'] by (elim disjE conjE) (simp_all add: wp_simps)
qed

end

definition send_result :: "u8 list \<Rightarrow> int option \<Rightarrow> ('q dock_req \<times> 'r dock_resp) list \<Rightarrow> u8 list \<Rightarrow> bool" where
  "send_result p r new rest \<longleftrightarrow> p = sent new @ rest \<and> received new = [] \<and> client new = [] \<and> (\<forall>c. tx_credit c new \<noteq> None)
     \<and> (r = Some (int (length p)) \<and> rest = [] \<or> (r = Some (- ETIMEDOUT) \<or> r = None) \<and> rest \<noteq> [])"

lemma dockchannel_send_result:
  "wp (dockchannel_send fuel E p) (\<lambda>r w'. drv w' = drv w \<and> (\<exists>new rest. hist w' = hist w @ new \<and> send_result p r new rest)) w"
  unfolding dockchannel_send_def wp_bind
proof (rule wp_mono [OF send_loop_post], unfold wp_return)
  fix r w'
  assume "send_post p w r w'"
  then obtain new d rest where h: "hist w' = hist w @ new" "p = d @ rest" "sends new d" "drv w' = drv w"
    and r: "case r of Some ret \<Rightarrow> ret = 0 \<and> rest = [] \<or> ret = - ETIMEDOUT \<and> rest \<noteq> [] | None \<Rightarrow> rest \<noteq> []"
    unfolding send_post_def by blast
  have "send_result p (map_option (\<lambda>ret. if ret < 0 then ret else int (length p)) r) new rest"
    using h r by (auto simp: send_result_def sends_def split: option.splits)
  with h show "drv w' = drv w \<and> (\<exists>new rest. hist w' = hist w @ new
      \<and> send_result p (map_option (\<lambda>ret. if ret < 0 then ret else int (length p)) r) new rest)" by blast
qed

definition recv_result :: "nat \<Rightarrow> (int \<times> u8 list) option \<Rightarrow> ('q dock_req \<times> 'r dock_resp) list \<Rightarrow> bool" where
  "recv_result n r new \<longleftrightarrow> sent new = [] \<and> client new = [] \<and> (\<forall>c. rx_credit c new \<noteq> None)
     \<and> (r = Some (int n, received new) \<and> length (received new) = n
        \<or> (r = Some (- ETIMEDOUT, received new) \<or> r = None) \<and> length (received new) < n)"

lemma dockchannel_recv_result:
  "wp (dockchannel_recv fuel E n) (\<lambda>r w'. drv w' = drv w \<and> (\<exists>new. hist w' = hist w @ new \<and> recv_result n r new)) w"
  unfolding dockchannel_recv_def wp_bind
proof (rule wp_mono [OF recv_loop_post], unfold wp_return)
  fix r w'
  assume "recv_post n [] w r w'"
  then obtain new q where h: "hist w' = hist w @ new" "receives new q" "drv w' = drv w"
    and r: "case r of Some (ret, p') \<Rightarrow> p' = [] @ q \<and> (ret = 0 \<and> length q = n \<or> ret = - ETIMEDOUT \<and> length q < n) | None \<Rightarrow> length q < n"
    unfolding recv_post_def by blast
  have "recv_result n (map_option (\<lambda>(ret, p). (if ret < 0 then ret else int n, p)) r) new"
    using h r by (auto simp: recv_result_def receives_def split: option.splits)
  with h show "drv w' = drv w \<and> (\<exists>new. hist w' = hist w @ new
      \<and> recv_result n (map_option (\<lambda>(ret, p). (if ret < 0 then ret else int n, p)) r) new)" by blast
qed

interpretation dock: byte_channel "dockchannel_send fuel E" "dockchannel_recv fuel E" sent received client for fuel E
proof
  show "wp (dockchannel_send fuel E p) (\<lambda>r w'. drv w' = drv w \<and> (\<exists>new rest. hist w' = hist w @ new \<and> p = sent new @ rest
      \<and> received new = [] \<and> client new = []
      \<and> (r = Some (int (length p)) \<and> rest = [] \<or> (r = Some (- ETIMEDOUT) \<or> r = None) \<and> rest \<noteq> []))) w" for p w
    by (rule wp_mono [OF dockchannel_send_result]) (unfold send_result_def, blast)
  show "wp (dockchannel_recv fuel E n) (\<lambda>r w'. drv w' = drv w \<and> (\<exists>new. hist w' = hist w @ new \<and> sent new = [] \<and> client new = []
      \<and> (r = Some (int n, received new) \<and> length (received new) = n
         \<or> (r = Some (- ETIMEDOUT, received new) \<or> r = None) \<and> length (received new) < n))) w" for n w
    by (rule wp_mono [OF dockchannel_recv_result]) (unfold recv_result_def, blast)
qed simp_all

section \<open>Properties\<close>


text \<open>C16. A receive that returns the count it was asked for has stored exactly the bytes that the FIFO gave, in order; one that
  times out has stored fewer. It never takes more than the count the hardware reported, and sends nothing.\<close>

theorem recv_reads_stream:
  assumes "run_state (dockchannel_recv fuel E count) w = (r, w')"
  shows "\<exists>new. hist w' = hist w @ new \<and> sent new = [] \<and> (\<forall>c. rx_credit c new \<noteq> None) \<and> drv w' = drv w
    \<and> (r = Some (int count, received new) \<and> length (received new) = count
       \<or> (r = Some (- ETIMEDOUT, received new) \<or> r = None) \<and> length (received new) < count)"
  using wpD [OF dockchannel_recv_result assms] unfolding recv_result_def by blast

text \<open>
  The promise of the hardware: a wait that was completed means that there is space, or data. Under it every
  call returns: each wait is followed by progress.
\<close>

definition waits_pay :: "('q, 'r) dock_env \<Rightarrow> bool" where
  "waits_pay E \<longleftrightarrow> (\<forall>h t r. ret_of r \<noteq> 0 \<longrightarrow>
     val_of (E (h @ [(WaitCompletion Tx t, r)]) (ReadData DATA_TX_FREE)) \<noteq> 0
     \<and> val_of (E (h @ [(WaitCompletion Rx t, r)]) (ReadData DATA_RX_COUNT)) \<noteq> 0)"

definition rounds :: "('q, 'r) dock_env \<Rightarrow> ('q dock_req \<times> 'r dock_resp) list \<Rightarrow> nat \<Rightarrow> nat \<Rightarrow> nat" where
  "rounds E h reg left = 2 * left - (if val_of (E h (ReadData reg)) \<noteq> 0 then 1 else 0)"

lemma send_loop_returns:
  fixes w :: "('q dock_req, 'r dock_resp, 'z dockchannel_scheme) world"
  assumes "waits_pay E"
  shows "rounds E (hist w) DATA_TX_FREE (length p) \<le> fuel \<Longrightarrow> wp (send_loop fuel E p) (\<lambda>r w'. r \<noteq> None) w"
proof (induction fuel arbitrary: p w)
  case 0
  then show ?case by (cases p) (auto simp: wp_simps rounds_def split: if_splits)
next
  case (Suc fuel)
  show ?case
  proof (cases p)
    case Nil
    then show ?thesis by (simp add: wp_simps)
  next
    case (Cons b q)
    let ?v = "val_of (E (hist w) (ReadData DATA_TX_FREE))"
    have space: "hist v = h @ [(WaitCompletion Tx t, r)] \<Longrightarrow> ret_of r \<noteq> 0 \<Longrightarrow> val_of (E (hist v) (ReadData DATA_TX_FREE)) \<noteq> 0"
      for v :: "('q dock_req, 'r dock_resp, 'z dockchannel_scheme) world" and h t r using assms by (simp add: waits_pay_def)
    have again: "wp (send_loop fuel E (b # q)) (\<lambda>r w'. r \<noteq> None) v"
      if "?v = 0" "val_of (E (hist v) (ReadData DATA_TX_FREE)) \<noteq> 0" for v :: "('q dock_req, 'r dock_resp, 'z dockchannel_scheme) world"
      using that Suc.prems Cons by (intro Suc.IH) (simp add: rounds_def)
    have block: "wp (send_loop fuel E (drop n (b # q))) (\<lambda>r w'. r \<noteq> None) v" if "?v \<noteq> 0" "0 < n" for v :: "('q dock_req, 'r dock_resp, 'z dockchannel_scheme) world" and n
      using that Suc.prems Cons by (intro Suc.IH) (auto simp: rounds_def)
    show ?thesis
    proof (cases "?v = 0")
      case True
      show ?thesis
        unfolding Cons send_loop.simps(3)
        apply (simp only: wp_bind wp_call True wp_if simp_thms if_True)
        apply (rule wp_getdI, rule wp_bindI, rule wp_exec_step, rule wp_bindI, rule wp_exec_step, rule wp_bindI, rule wp_exec_step,
          rule wp_bindI, rule wp_call_step, rule wp_ifI)
        subgoal by (simp add: wp_simps)
        subgoal by (rule again [OF True], rule space)
        done
    next
      case False
      then have "0 < unat ?v" by (simp add: unat_gt_0)
      with False show ?thesis
        by (simp add: Cons wp_simps) (rule wp_mono [OF send_block_puts], use block [OF False] in \<open>auto simp del: drop_Cons'\<close>)
    qed
  qed
qed

lemma recv_loop_returns:
  fixes w :: "('q dock_req, 'r dock_resp, 'z dockchannel_scheme) world"
  assumes "waits_pay E"
  shows "rounds E (hist w) DATA_RX_COUNT left \<le> fuel \<Longrightarrow> wp (recv_loop fuel E left p) (\<lambda>r w'. r \<noteq> None) w"
proof (induction fuel arbitrary: left p w)
  case 0
  then show ?case by (cases left) (auto simp: wp_simps rounds_def split: if_splits)
next
  case (Suc fuel)
  show ?case
  proof (cases left)
    case 0
    then show ?thesis by (simp add: wp_simps)
  next
    case l: (Suc m)
    let ?v = "val_of (E (hist w) (ReadData DATA_RX_COUNT))"
    have data: "hist v = h @ [(WaitCompletion Rx t, r)] \<Longrightarrow> ret_of r \<noteq> 0 \<Longrightarrow> val_of (E (hist v) (ReadData DATA_RX_COUNT)) \<noteq> 0"
      for v :: "('q dock_req, 'r dock_resp, 'z dockchannel_scheme) world" and h t r using assms by (simp add: waits_pay_def)
    have again: "wp (recv_loop fuel E (Suc m) p) (\<lambda>r w'. r \<noteq> None) v"
      if "?v = 0" "val_of (E (hist v) (ReadData DATA_RX_COUNT)) \<noteq> 0" for v :: "('q dock_req, 'r dock_resp, 'z dockchannel_scheme) world"
      using that Suc.prems l by (intro Suc.IH) (simp add: rounds_def)
    have block: "wp (recv_loop fuel E (Suc m - n) p') (\<lambda>r w'. r \<noteq> None) v" if "?v \<noteq> 0" "0 < n"
      for v :: "('q dock_req, 'r dock_resp, 'z dockchannel_scheme) world" and n p'
      using that Suc.prems l by (intro Suc.IH) (auto simp: rounds_def)
    show ?thesis
    proof (cases "?v = 0")
      case True
      show ?thesis
        unfolding l recv_loop.simps(3)
        apply (simp only: wp_bind wp_call True wp_if simp_thms if_True)
        apply (rule wp_getdI, rule wp_bindI, rule wp_exec_step, rule wp_bindI, rule wp_exec_step, rule wp_bindI, rule wp_exec_step,
          rule wp_bindI, rule wp_call_step, rule wp_ifI)
        subgoal by (simp add: wp_simps)
        subgoal by (rule again [OF True], rule data)
        done
    next
      case False
      then have "0 < unat ?v" by (simp add: unat_gt_0)
      with False show ?thesis
        by (simp add: l wp_simps) (rule wp_mono [OF recv_block_gets], use block [OF False] in auto)
    qed
  qed
qed

lemma send_returns:
  assumes "waits_pay E" and "2 * length buf \<le> fuel"
  shows "wp (dockchannel_send fuel E buf) (\<lambda>r w'. r \<noteq> None) w"
proof -
  have "rounds E (hist w) DATA_TX_FREE (length buf) \<le> fuel" using assms(2) by (auto simp: rounds_def)
  then show ?thesis
    unfolding dockchannel_send_def wp_bind by (intro wp_mono [OF send_loop_returns [OF assms(1)]]) (auto simp: wp_simps)
qed

lemma recv_returns:
  assumes "waits_pay E" and "2 * count \<le> fuel"
  shows "wp (dockchannel_recv fuel E count) (\<lambda>r w'. r \<noteq> None) w"
proof -
  have "rounds E (hist w) DATA_RX_COUNT count \<le> fuel" using assms(2) by (auto simp: rounds_def)
  then show ?thesis
    unfolding dockchannel_recv_def wp_bind by (intro wp_mono [OF recv_loop_returns [OF assms(1)]]) (auto simp: wp_simps)
qed

text \<open>Sending and receiving return, with success or a timeout, on hardware that keeps its promise about completed waits: twice
  as many rounds as bytes are enough.\<close>

theorem transfers_return:
  assumes "waits_pay E" and "2 * length buf \<le> fuel" and "2 * count \<le> fuel"
  shows "fst (run_state (dockchannel_send fuel E buf) w) \<noteq> None \<and> fst (run_state (dockchannel_recv fuel E count) w) \<noteq> None"
  using send_returns [OF assms(1,2), of w] recv_returns [OF assms(1,3), of w] by (simp add: wp_def case_prod_beta)

section \<open>Masks\<close>

text \<open>The mask register holds what was last written to it.\<close>

definition mask_step :: "'q dock_req \<times> 'r dock_resp \<Rightarrow> u32 \<Rightarrow> u32" where
  "mask_step x m = (case fst x of WriteIrq off v \<Rightarrow> if off = IRQ_MASK then v else m | _ \<Rightarrow> m)"

definition mask_of :: "('q dock_req \<times> 'r dock_resp) list \<Rightarrow> u32" where
  "mask_of h = fold mask_step h 0"

definition mask_register :: "('q, 'r) dock_env \<Rightarrow> bool" where
  "mask_register E \<longleftrightarrow> (\<forall>h. E h (ReadIrq IRQ_MASK) = Val (mask_of h))"

definition enabled :: "('q dock_req, 'r dock_resp, dockchannel_common) world \<Rightarrow> nat set" where
  "enabled w = {b. bit (mask_of (hist w)) b}"

lemma bit_of_BIT: "bit (BIT n :: u32) b \<longleftrightarrow> b = n \<and> n < 32"
  by (auto simp: field_simps_bits)

lemma exec_each: "wp (for_each xs (\<lambda>b. exec E (f b))) (\<lambda>_ w'. \<exists>new. hist w' = hist w @ new \<and> reqs new = map f xs) w"
proof (induction xs arbitrary: w)
  case Nil
  then show ?case by (simp add: wp_simps)
next
  case (Cons x xs)
  show ?case unfolding for_each.simps wp_bind wp_exec by (rule wp_mono [OF Cons.IH]) (auto simp: reqs_def)
qed

text \<open>The mask register of the shared interrupt controller is the set of its enabled lines: unmasking a line adds it, masking removes it, and
  neither touches another line; after a successful probe, and after removal, no line is enabled. An interrupt is dispatched for
  each pending line, in order and once, between entering and leaving the parent's handler.\<close>

theorem irq_lines_enabled:
  assumes "mask_register E" and "n < DOCKCHANNEL_MAX_IRQ"
  shows "enabled (snd (run_state (dockchannel_irq_unmask E n) w)) = insert n (enabled w)
    \<and> enabled (snd (run_state (dockchannel_irq_mask E n) w)) = enabled w - {n}
    \<and> (fst (run_state (dockchannel_probe E) w) = 0 \<longrightarrow> enabled (snd (run_state (dockchannel_probe E) w)) = {})
    \<and> enabled (snd (run_state (dockchannel_remove E) w)) = {}
    \<and> (\<exists>new r. hist (snd (run_state (dockchannel_irq E) w)) = hist w @ (ReadIrq IRQ_FLAG, r) # new
        \<and> reqs new = [ChainedEnter] @ map HandleDomainIrq (filter (bit (val_of r)) [0..<DOCKCHANNEL_MAX_IRQ]) @ [ChainedExit])"
proof (intro conjI)
  have r: "E h (ReadIrq IRQ_MASK) = Val (mask_of h)" for h using assms(1) by (simp add: mask_register_def)
  have n: "n < 32" using assms(2) by (simp add: DOCKCHANNEL_MAX_IRQ_def)
  show "enabled (snd (run_state (dockchannel_irq_unmask E n) w)) = insert n (enabled w)"
    using n by (auto simp: dockchannel_irq_unmask_def enabled_def r mask_of_def mask_step_def bit_or_iff bit_of_BIT)
  show "enabled (snd (run_state (dockchannel_irq_mask E n) w)) = enabled w - {n}"
    using n by (auto simp: dockchannel_irq_mask_def enabled_def r mask_of_def mask_step_def bit_and_iff bit_not_iff bit_of_BIT dest: bit_imp_le_length)
  show "fst (run_state (dockchannel_probe E) w) = 0 \<longrightarrow> enabled (snd (run_state (dockchannel_probe E) w)) = {}"
    by (auto simp: dockchannel_probe_def enabled_def mask_of_def mask_step_def dock_regs Let_def)
  show "enabled (snd (run_state (dockchannel_remove E) w)) = {}"
    by (auto simp: dockchannel_remove_def enabled_def mask_of_def mask_step_def dock_regs Let_def case_prod_beta)
  show "\<exists>new r. hist (snd (run_state (dockchannel_irq E) w)) = hist w @ (ReadIrq IRQ_FLAG, r) # new
        \<and> reqs new = [ChainedEnter] @ map HandleDomainIrq (filter (bit (val_of r)) [0..<DOCKCHANNEL_MAX_IRQ]) @ [ChainedExit]"
  proof -
    let ?r = "E (hist w) (ReadIrq IRQ_FLAG)"
    let ?ls = "filter (bit (val_of ?r)) [0..<DOCKCHANNEL_MAX_IRQ]"
    have "wp (dockchannel_irq E) (\<lambda>_ w'. \<exists>new. hist w' = hist w @ (ReadIrq IRQ_FLAG, ?r) # new
        \<and> reqs new = [ChainedEnter] @ map HandleDomainIrq ?ls @ [ChainedExit]) w"
      unfolding dockchannel_irq_def wp_bind wp_call wp_exec by (rule wp_mono [OF exec_each]) auto
    then show ?thesis by (auto simp: wp_def case_prod_beta)
  qed
qed

text \<open>A FIFO with room for three bytes after every wait, and for none otherwise.\<close>

fun demo_fifo :: "('q, 'r) dock_env" where
  "demo_fifo h (ReadData off) = (case rev h of (WaitCompletion s t, r) # _ \<Rightarrow> Val 3 | _ \<Rightarrow> Val 0)"
| "demo_fifo h (WaitCompletion s t) = Ret 1"
| "demo_fifo h q = Done"

definition demo_channel :: "(unit dock_req, unit dock_resp, dockchannel) world" where
  "demo_channel = \<lparr>hist = [], drv = \<lparr>tx_irq = 5, rx_irq = 6, fifo_size = 64, awaiting = False, callback = False\<rparr>\<rparr>"

theorem transfers_return_witness:
  "fst (run_state (dockchannel_send 10 demo_fifo [1, 2, 3, 4, 5]) demo_channel) \<noteq> None
   \<and> fst (run_state (dockchannel_recv 10 demo_fifo 4) demo_channel) \<noteq> None"
  by (rule transfers_return) (simp_all add: waits_pay_def)


theorem recv_reads_stream_witness:
  "fst (run_state (dockchannel_recv 10 demo_fifo 2) demo_channel) = Some (2, [0, 0])
   \<and> received (hist (snd (run_state (dockchannel_recv 10 demo_fifo 2) demo_channel))) = [0, 0]"
proof -
  have r: "fst (run_state (dockchannel_recv 10 demo_fifo 2) demo_channel) = Some (2, [0, 0])"
    by code_simp
  obtain w' where run: "run_state (dockchannel_recv 10 demo_fifo 2) demo_channel = (Some (2, [0, 0]), w')"
    using r by (metis prod.collapse)
  from recv_reads_stream [OF run] show ?thesis using run by (auto simp: demo_channel_def)
qed

text \<open>Registers that hold what is written, and no other device.\<close>

definition demo_irqs :: "('q, 'r) dock_env" where
  "demo_irqs h q = (if q = ReadIrq IRQ_MASK then Val (mask_of h) else Done)"

theorem irq_lines_enabled_witness:
  "let w = \<lparr>hist = [], drv = \<lparr>dcc_irq = 3, dcc_domain = True\<rparr>\<rparr> :: (unit dock_req, unit dock_resp, dockchannel_common) world;
       w' = snd (run_state (dockchannel_irq_unmask demo_irqs 5) w)
   in enabled w' = {5} \<and> enabled (snd (run_state (dockchannel_irq_mask demo_irqs 5) w')) = {}"
proof -
  have m: "mask_register demo_irqs" by (simp add: mask_register_def demo_irqs_def)
  have n: "5 < DOCKCHANNEL_MAX_IRQ" by (simp add: DOCKCHANNEL_MAX_IRQ_def)
  have e: "enabled (\<lparr>hist = [], drv = d\<rparr> :: (unit dock_req, unit dock_resp, dockchannel_common) world) = {}" for d
    by (simp add: enabled_def mask_of_def)
  show ?thesis
    unfolding Let_def using irq_lines_enabled [OF m n] e by (metis Diff_insert_absorb empty_iff)
qed

end
