(* ===== verification/Dchid.thy ===== *)
theory Dchid
  imports Dockchannel
begin

text \<open>
  The HID transport over DockChannel, \<open>sources/asahi--drivers__hid__dockchannel-hid__dockchannel-hid.c\<close>: frames with a
  checksum, commands that wait for their acknowledgement, and the commands that the driver gives the coprocessor. Events, interfaces
  and the probe are in \<open>Dchid_Events\<close>.

  The state extends the channel's. Interfaces are an array of sixteen optional records and are named by their index; a frame's
  bytes are lists. \<open>None\<close> as a result is a transfer of the channel that has not returned. While a command waits, the
  receive thread runs: the answer to \<open>WaitOut\<close> is the list of packets it hands to the interface in the meantime, and \<open>dchid_handle_ack\<close> is
  applied to each. \<open>Undefined\<close> marks an access outside of an object, after which nothing is known; every such access
  that the code can make is written out. The buffers of callers are as long as they say, and not empty. Log output is left out.

  Proved: what is sent is a frame that the receiving side's check accepts and takes apart again; a command ends with
  the first acknowledgement that matches it, or times out, and leaves the interface idle either way.
\<close>

section \<open>Constants, records and requests\<close>

definition COMMAND_TIMEOUT_MS :: nat where "COMMAND_TIMEOUT_MS = 1000"
definition START_TIMEOUT_MS :: nat where "START_TIMEOUT_MS = 2000"
definition MAX_INTERFACES :: nat where "MAX_INTERFACES = 16"
definition MAX_PKT_SIZE :: nat where "MAX_PKT_SIZE = 0xffff + 4"
definition DCHID_CHANNEL_CMD :: u8 where "DCHID_CHANNEL_CMD = 0x11"
definition DCHID_CHANNEL_REPORT :: u8 where "DCHID_CHANNEL_REPORT = 0x12"
definition IFACE_COMM :: nat where "IFACE_COMM = 0"
definition FLAGS_GROUP :: field where "FLAGS_GROUP = (7, 6)"
definition FLAGS_REQ :: field where "FLAGS_REQ = (5, 0)"
definition REQ_SET_REPORT :: u32 where "REQ_SET_REPORT = 0"
definition REQ_GET_REPORT :: u32 where "REQ_GET_REPORT = 1"
definition EVENT_GPIO_CMD :: u8 where "EVENT_GPIO_CMD = 0xa0"
definition EVENT_INIT :: u8 where "EVENT_INIT = 0xf0"
definition EVENT_READY :: u8 where "EVENT_READY = 0xf1"
definition INIT_HID_DESCRIPTOR :: u16 where "INIT_HID_DESCRIPTOR = 0"
definition INIT_GPIO_REQUEST :: u16 where "INIT_GPIO_REQUEST = 1"
definition INIT_TERMINATOR :: u16 where "INIT_TERMINATOR = 2"
definition CMD_RESET_INTERFACE :: u8 where "CMD_RESET_INTERFACE = 0x40"
definition CMD_SEND_FIRMWARE :: u8 where "CMD_SEND_FIRMWARE = 0x95"
definition CMD_ENABLE_INTERFACE :: u8 where "CMD_ENABLE_INTERFACE = 0xb4"
definition CMD_ACK_GPIO_CMD :: u8 where "CMD_ACK_GPIO_CMD = 0xa1"
definition MAX_GPIO_NAME :: nat where "MAX_GPIO_NAME = 32"
definition STM_REPORT_ID :: u8 where "STM_REPORT_ID = 0x10"
definition STM_REPORT_SERIAL :: u8 where "STM_REPORT_SERIAL = 0x11"
definition FW_MAGIC :: u32 where "FW_MAGIC = 0x46444948"
definition FW_VER :: u32 where "FW_VER = 1"

text \<open>The report types of the kernel's HID headers and the vendor number are parameters of the definitions that use them.\<close>

record hid_consts =
  HID_INPUT_REPORT :: u32
  HID_OUTPUT_REPORT :: u32
  HID_FEATURE_REPORT :: u32
  HOST_VENDOR_ID_APPLE :: u16

record dchid_hdr =
  hdr_len :: u8
  channel :: u8
  hlength :: u16
  seq :: u8
  hiface :: u8

record dchid_subhdr =
  sflags :: u8
  slength :: u16
  sretcode :: u32

definition get_le16 :: "u8 list \<Rightarrow> nat \<Rightarrow> u16" where
  "get_le16 p i = ucast (p ! i) OR push_bit 8 (ucast (p ! (i + 1)))"

definition put_le16 :: "u16 \<Rightarrow> u8 list" where
  "put_le16 v = [ucast v, ucast (drop_bit 8 v)]"

definition get_hdr :: "u8 list \<Rightarrow> dchid_hdr" where
  "get_hdr p = \<lparr>hdr_len = p ! 0, channel = p ! 1, hlength = get_le16 p 2, seq = p ! 4, hiface = p ! 5\<rparr>"

definition put_hdr :: "dchid_hdr \<Rightarrow> u8 list" where
  "put_hdr h = [hdr_len h, channel h] @ put_le16 (hlength h) @ [seq h, hiface h, 0, 0]"

definition get_subhdr :: "u8 list \<Rightarrow> dchid_subhdr" where
  "get_subhdr p = \<lparr>sflags = p ! 0, slength = get_le16 p 2, sretcode = get_unaligned_le32 (drop 4 p)\<rparr>"

definition put_subhdr :: "dchid_subhdr \<Rightarrow> u8 list" where
  "put_subhdr s = [sflags s, 0] @ put_le16 (slength s) @ put_unaligned_le32 (sretcode s)"

record dchid_iface =
  hid :: bool
  creating :: bool
  iname :: "string option"
  tx_seq :: u8
  deferred :: bool
  starting :: bool
  iopen :: bool
  hid_desc :: "u8 list option"
  hid_desc_len :: nat
  gpio :: bool
  gpio_name :: string
  gpio_id :: int
  out_flags :: u32
  out_report :: int
  retcode :: u32
  resp_buf :: "u8 list option"
  resp_size :: nat
  out_complete :: nat
  keyboard_layout_id :: u32

record dockchannel_hid = dockchannel +
  id_ready :: bool
  device_id :: "u8 list"
  serial :: "u8 list"
  ifaces :: "dchid_iface option list"
  pkt_buf :: "u8 list"

datatype hid_kind = HID_TYPE_OTHER | HID_TYPE_SPI_MOUSE | HID_TYPE_SPI_KEYBOARD

record hid_device =
  hid_name :: "string option"
  vendor :: u16
  product :: u16
  version :: u16
  uniq :: "u8 list"
  hid_type :: hid_kind
  country :: u32

datatype hid_req =
    Undefined
  | DevmKzallocDchid | DevmKzallocIface | Kzalloc nat | Kstrdup string | AllocOrderedWq string | GetChildByName string
  | MutexLock nat | MutexUnlock nat | WaitOut nat nat
  | CompleteAllReady nat | ReadyDone nat | WaitReady nat nat
  | DmaAlloc nat | CopyToDma u64 "u8 list" | Wmb
  | OfReadString nat string | OfReadPropU32 nat string | RequestFirmware string | ReleaseFirmware | Kmemdup "u8 list"
  | GpiodGetIndex string | GpiodSet nat bool | Msleep nat
  | DeviceCreateFile nat | DeviceRemoveFile nat | HidParseReport nat "u8 list option" nat
  | HidAllocateDevice | HidAddDevice nat hid_device | HidDestroyDevice nat | HidInputReport nat "u8 list"
  | QueueCreate nat | QueuePacket nat dchid_hdr "u8 list" | KfreeWork | KfreeAck
  | DmaSetMask | GetNamedChildNode string | FwnodeAvailable | FwnodePut
  | ChildProperties | FwnodeGpiodGet string | GpiodPut string | OfNodePut
  | OfParsePhandle string | OfFindDevice | PutDevice | DeviceLinkAdd | SupplierBound

datatype hid_resp =
    UDone | UNull | URet int | UVal u32 | UAddr u64 | UStr string | UBytes "u8 list"
  | UAcks "(dchid_hdr \<times> u8 list) list" | UTree "string list list"

type_synonym hid_env = "(hid_req, hid_resp) dock_env"
type_synonym hid_world = "(hid_req dock_req, hid_resp dock_resp, dockchannel_hid) world"
type_synonym 'a hid_prog = "(hid_req dock_req, hid_resp dock_resp, dockchannel_hid, 'a) prog"

fun up_of :: "hid_resp dock_resp \<Rightarrow> hid_resp" where
  "up_of (UpR r) = r"
| "up_of _ = UDone"

definition ask :: "hid_env \<Rightarrow> hid_req \<Rightarrow> hid_resp hid_prog" where
  "ask E q = do { r \<leftarrow> call E (Up q); return (up_of r) }"

definition tell :: "hid_env \<Rightarrow> hid_req \<Rightarrow> unit hid_prog" where
  "tell E q = exec E (Up q)"

fun uret :: "hid_resp \<Rightarrow> int" where
  "uret (URet n) = n"
| "uret r = 0"

text \<open>A pointer that may be an error or null; \<open>uret\<close> is \<open>PTR_ERR\<close>.\<close>

definition is_err :: "hid_resp \<Rightarrow> bool" where
  "is_err r \<longleftrightarrow> uret r < 0"

definition is_err_or_null :: "hid_resp \<Rightarrow> bool" where
  "is_err_or_null r \<longleftrightarrow> is_err r \<or> r = UNull"

text \<open>The interface with an index, and an update of it.\<close>

definition iface :: "dockchannel_hid \<Rightarrow> nat \<Rightarrow> dchid_iface" where
  "iface s i = the (ifaces s ! i)"

definition mod_iface :: "nat \<Rightarrow> (dchid_iface \<Rightarrow> dchid_iface) \<Rightarrow> unit hid_prog" where
  "mod_iface i f = modd (\<lambda>s. s\<lparr>ifaces := (ifaces s)[i := Some (f (iface s i))]\<rparr>)"

definition get_iface :: "nat \<Rightarrow> dchid_iface hid_prog" where
  "get_iface i = do { s \<leftarrow> getd; return (iface s i) }"

section \<open>Frames and commands\<close>

definition new_iface :: "string option \<Rightarrow> dchid_iface" where
  "new_iface n = \<lparr>hid = False, creating = False, iname = n, tx_seq = 0, deferred = False, starting = False, iopen = False,
     hid_desc = None, hid_desc_len = 0, gpio = False, gpio_name = [], gpio_id = 0, out_flags = 0, out_report = - 1, retcode = 0,
     resp_buf = None, resp_size = 0, out_complete = 0, keyboard_layout_id = 0\<rparr>"

text \<open>The name is \<open>None\<close> when the string has no end in its object.\<close>

definition dchid_get_interface :: "hid_env \<Rightarrow> nat \<Rightarrow> string option \<Rightarrow> (nat option) hid_prog" where
  "dchid_get_interface E index nm = do {
     s \<leftarrow> getd;
     if MAX_INTERFACES \<le> index then return None
     else if ifaces s ! index \<noteq> None then return (Some index)
     else do {
       r \<leftarrow> ask E DevmKzallocIface;
       if r = UNull then return None
       else case nm of
         None \<Rightarrow> do { tell E Undefined; return None }
       | Some name \<Rightarrow> do {
           r \<leftarrow> ask E (Kstrdup name);
           let n = (if r = UNull then None else Some name);
           r \<leftarrow> ask E (AllocOrderedWq (''dchid-'' @ (case n of Some m \<Rightarrow> m | None \<Rightarrow> ''(null)'')));
           if r = UNull then return None
           else do {
             r \<leftarrow> (if name = ''comm'' then return UDone else ask E (GetChildByName name));
             if r = UNull then return None
             else do {
               modd (\<lambda>s. s\<lparr>ifaces := (ifaces s)[index := Some (new_iface n)]\<rparr>);
               return (Some index)
             }
           }
         }
     }
   }"

fun dchid_checksum :: "u8 list \<Rightarrow> u32" where
  "dchid_checksum p = (if 4 \<le> length p then get_unaligned_le32 p + dchid_checksum (drop 4 p) else 0)"

declare dchid_checksum.simps [simp del]

definition round_down4 :: "nat \<Rightarrow> nat" where "round_down4 n = n div 4 * 4"
definition round_up4 :: "nat \<Rightarrow> nat" where "round_up4 n = (n + 3) div 4 * 4"

text \<open>The check of a received packet, over its header and its body.\<close>

definition packet_ok :: "u8 list \<Rightarrow> u8 list \<Rightarrow> bool" where
  "packet_ok h body \<longleftrightarrow> dchid_checksum h + dchid_checksum body = 0xffffffff"

text \<open>Both headers of a frame, and its padded last word.\<close>

definition send_hdr :: "dchid_iface \<Rightarrow> nat \<Rightarrow> u32 \<Rightarrow> nat \<Rightarrow> u8 list" where
  "send_hdr ifc i flags n =
     put_hdr \<lparr>hdr_len = 8, channel = DCHID_CHANNEL_CMD, hlength = of_nat (round_up4 n + 8), seq = tx_seq ifc, hiface = of_nat i\<rparr>
     @ put_subhdr \<lparr>sflags = ucast flags, slength = of_nat n, sretcode = 0\<rparr>"

definition send_tail :: "u8 list \<Rightarrow> u8 list" where
  "send_tail msg = (let t = drop (round_down4 (length msg)) msg in t @ replicate (4 - length t) 0)"

definition dchid_send :: "nat \<Rightarrow> hid_env \<Rightarrow> nat \<Rightarrow> u32 \<Rightarrow> u8 list \<Rightarrow> (int option) hid_prog" where
  "dchid_send fuel E i flags msg = do {
     ifc \<leftarrow> get_iface i;
     let wsize = round_down4 (length msg);
     let tsize = length msg - wsize;
     let h = send_hdr ifc i flags (length msg);
     let c1 = 0xffffffff - dchid_checksum h;
     let c2 = c1 - dchid_checksum (take wsize msg);
     let c3 = (if tsize \<noteq> 0 then c2 - dchid_checksum (send_tail msg) else c2);
     or_fail (dockchannel_send fuel E h) (
     or_fail (dockchannel_send fuel E (take wsize msg)) (
     or_fail (if tsize \<noteq> 0 then dockchannel_send fuel E (send_tail msg) else return (Some 0)) (
     or_fail (dockchannel_send fuel E (put_unaligned_le32 c3)) (
     return (Some 0)))))
   }"

text \<open>An acknowledgement, on the receive thread. \<open>data\<close> is the packet buffer.\<close>

definition dchid_handle_ack :: "nat \<Rightarrow> dchid_hdr \<Rightarrow> u8 list \<Rightarrow> unit hid_prog" where
  "dchid_handle_ack i hdr data = do {
     ifc \<leftarrow> get_iface i;
     let shdr = get_subhdr data;
     let payload = drop 8 data;
     if unat (hlength hdr) < unat (slength shdr) + 8 then return ()
     else if ucast (sflags shdr) \<noteq> out_flags ifc then return ()
     else if unat (slength shdr) < 1 then return ()
     else if tx_seq ifc \<noteq> seq hdr then return ()
     else if out_report ifc \<noteq> int (unat (payload ! 0)) then return ()
     else do {
       mod_iface i (\<lambda>ifc. case resp_buf ifc of
           Some b \<Rightarrow> (let n = min (unat (slength shdr) - 1) (resp_size ifc) in ifc\<lparr>resp_buf := Some (take n (drop 1 payload) @ drop n b)\<rparr>)
         | None \<Rightarrow> ifc);
       mod_iface i (\<lambda>ifc. ifc\<lparr>resp_size := unat (slength shdr)\<rparr>);
       mod_iface i (\<lambda>ifc. ifc\<lparr>out_report := - 1\<rparr>);
       mod_iface i (\<lambda>ifc. ifc\<lparr>retcode := sretcode shdr\<rparr>);
       mod_iface i (\<lambda>ifc. ifc\<lparr>out_complete := out_complete ifc + 1\<rparr>)
     }
   }"

text \<open>The wait for \<open>out_complete\<close>, with what the receive thread does meanwhile. The result says whether it was completed.\<close>

definition wait_out :: "hid_env \<Rightarrow> nat \<Rightarrow> bool hid_prog" where
  "wait_out E i = do {
     r \<leftarrow> ask E (WaitOut i COMMAND_TIMEOUT_MS);
     for_each (case r of UAcks ps \<Rightarrow> ps | _ \<Rightarrow> []) (\<lambda>(hdr, data). dchid_handle_ack i hdr data);
     ifc \<leftarrow> get_iface i;
     if out_complete ifc = 0 then return False
     else do { mod_iface i (\<lambda>ifc. ifc\<lparr>out_complete := out_complete ifc - 1\<rparr>); return True }
   }"

text \<open>The exit of a command; the buffer that held the response is given back with the result.\<close>

definition cmd_done :: "hid_env \<Rightarrow> nat \<Rightarrow> int \<Rightarrow> ((int \<times> u8 list option) option) hid_prog" where
  "cmd_done E i ret = do {
     ifc \<leftarrow> get_iface i;
     mod_iface i (\<lambda>ifc. ifc\<lparr>tx_seq := tx_seq ifc + 1, out_report := - 1, out_flags := 0, resp_buf := None, resp_size := 0\<rparr>);
     tell E (MutexUnlock i);
     return (Some (ret, resp_buf ifc))
   }"

definition cmd_wait :: "hid_env \<Rightarrow> nat \<Rightarrow> ((int \<times> u8 list option) option) hid_prog" where
  "cmd_wait E i = do {
     ok \<leftarrow> wait_out E i;
     if \<not> ok then cmd_done E i (- ETIMEDOUT)
     else do {
       ifc \<leftarrow> get_iface i;
       cmd_done E i (if retcode ifc \<noteq> 0 then - EIO else int (resp_size ifc))
     }
   }"

definition dchid_cmd :: "nat \<Rightarrow> hid_env \<Rightarrow> nat \<Rightarrow> u32 \<Rightarrow> u32 \<Rightarrow> u8 list \<Rightarrow> u8 list option \<Rightarrow> nat
    \<Rightarrow> ((int \<times> u8 list option) option) hid_prog" where
  "dchid_cmd fuel E i type req data rbuf rsize = do {
     tell E (MutexLock i);
     mod_iface i (\<lambda>ifc. ifc\<lparr>out_report := int (unat (hd data))\<rparr>);
     mod_iface i (\<lambda>ifc. ifc\<lparr>out_flags := FIELD_PREP FLAGS_GROUP type OR FIELD_PREP FLAGS_REQ req\<rparr>);
     mod_iface i (\<lambda>ifc. ifc\<lparr>resp_buf := rbuf, resp_size := rsize\<rparr>);
     mod_iface i (\<lambda>ifc. ifc\<lparr>out_complete := 0\<rparr>);
     ifc \<leftarrow> get_iface i;
     and_then (dchid_send fuel E i (out_flags ifc) data) (\<lambda>ret.
     if ret < 0 then cmd_done E i ret else cmd_wait E i)
   }"

definition dchid_comm_cmd :: "nat \<Rightarrow> hid_consts \<Rightarrow> hid_env \<Rightarrow> u8 list \<Rightarrow> (int option) hid_prog" where
  "dchid_comm_cmd fuel K E cmd =
     and_then (dchid_cmd fuel E IFACE_COMM (HID_FEATURE_REPORT K) REQ_SET_REPORT cmd None 0) (\<lambda>(ret, _). return (Some ret))"

definition dchid_enable_interface :: "nat \<Rightarrow> hid_consts \<Rightarrow> hid_env \<Rightarrow> nat \<Rightarrow> (int option) hid_prog" where
  "dchid_enable_interface fuel K E i = dchid_comm_cmd fuel K E [CMD_ENABLE_INTERFACE, of_nat i]"

definition dchid_reset_interface :: "nat \<Rightarrow> hid_consts \<Rightarrow> hid_env \<Rightarrow> nat \<Rightarrow> u8 \<Rightarrow> (int option) hid_prog" where
  "dchid_reset_interface fuel K E i state = dchid_comm_cmd fuel K E [CMD_RESET_INTERFACE, 1, of_nat i, state]"

definition put_le64 :: "u64 \<Rightarrow> u8 list" where
  "put_le64 v = put_unaligned_le32 (ucast v) @ put_unaligned_le32 (ucast (drop_bit 32 v))"

definition dchid_send_firmware :: "nat \<Rightarrow> hid_consts \<Rightarrow> hid_env \<Rightarrow> nat \<Rightarrow> u8 list \<Rightarrow> (int option) hid_prog" where
  "dchid_send_firmware fuel K E i firmware = do {
     r \<leftarrow> ask E (DmaAlloc (length firmware));
     case r of
       UAddr addr \<Rightarrow> do {
         tell E (CopyToDma addr firmware);
         tell E Wmb;
         dchid_comm_cmd fuel K E ([CMD_SEND_FIRMWARE, 2, 0, of_nat i] @ put_le64 addr @ put_unaligned_le32 (of_nat (length firmware)))
       }
     | _ \<Rightarrow> return (Some (if is_err r then uret r else - ENOMEM))
   }"

section \<open>Frames\<close>

lemma get_put_le16: "get_le16 (put_le16 v @ q) 0 = v"
  by (rule bit_word_eqI) (auto simp: get_le16_def put_le16_def bit_simps)

lemma get_le16_shift: "get_le16 (x # p) (Suc i) = get_le16 p i"
  by (simp add: get_le16_def)

lemma get_put_le32: "get_unaligned_le32 (put_unaligned_le32 v @ q) = v"
proof (rule bit_word_eqI)
  fix n
  assume "n < LENGTH(32)"
  then show "bit (get_unaligned_le32 (put_unaligned_le32 v @ q)) n = bit v n"
    by (cases "n < 8"; cases "n < 16"; cases "n < 24") (auto simp: get_unaligned_le32_def put_unaligned_le32_def bit_simps)
qed

lemma get_le32_append: "4 \<le> length p \<Longrightarrow> get_unaligned_le32 (p @ q) = get_unaligned_le32 p"
  by (auto simp: get_unaligned_le32_def nth_append)

lemma put_le16_length [simp]: "length (put_le16 v) = 2"
  by (simp add: put_le16_def)

lemma put_hdr_length [simp]: "length (put_hdr h) = 8"
  by (simp add: put_hdr_def)

lemma put_subhdr_length [simp]: "length (put_subhdr s) = 8"
  by (simp add: put_subhdr_def)

lemma get_put_hdr: "get_hdr (put_hdr h @ q) = h"
proof -
  have "get_le16 (put_hdr h @ q) 2 = hlength h"
    using get_put_le16 [of "hlength h" "[seq h, hiface h, 0, 0] @ q"] by (simp add: put_hdr_def numeral_2_eq_2 get_le16_shift)
  then show ?thesis by (simp add: get_hdr_def) (simp add: put_hdr_def put_le16_def)
qed

lemma get_put_subhdr: "get_subhdr (put_subhdr s @ q) = s"
proof -
  have "get_le16 (put_subhdr s @ q) 2 = slength s"
    using get_put_le16 [of "slength s" "put_unaligned_le32 (sretcode s) @ q"] by (simp add: put_subhdr_def numeral_2_eq_2 get_le16_shift)
  moreover have "get_unaligned_le32 (drop 4 (put_subhdr s @ q)) = sretcode s"
    using get_put_le32 [of "sretcode s" q] by (simp add: put_subhdr_def)
  ultimately show ?thesis by (simp add: get_subhdr_def) (simp add: put_subhdr_def)
qed

lemma dchid_checksum_short: "length p < 4 \<Longrightarrow> dchid_checksum p = 0"
  by (simp add: dchid_checksum.simps)

lemma dchid_checksum_append: "4 dvd length p \<Longrightarrow> dchid_checksum (p @ q) = dchid_checksum p + dchid_checksum q"
proof (induction p rule: dchid_checksum.induct)
  case (1 p)
  show ?case
  proof (cases "4 \<le> length p")
    case True
    then have "4 dvd length (drop 4 p)" using 1(2) by (auto simp: dvd_diff_nat)
    with 1(1) [OF True] True show ?thesis
      by (simp add: dchid_checksum.simps [of "p @ q"] dchid_checksum.simps [of p] get_le32_append)
  next
    case False
    with 1(2) have "p = []" by (auto dest: dvd_imp_le)
    then show ?thesis by (simp add: dchid_checksum_short)
  qed
qed

lemma dchid_checksum_word: "dchid_checksum (put_unaligned_le32 v) = v"
  using get_put_le32 [of v "[]"] by (simp add: dchid_checksum.simps dchid_checksum_short)

lemma send_tail_length: "length msg \<noteq> round_down4 (length msg) \<Longrightarrow> length (send_tail msg) = 4"
  by (simp add: send_tail_def Let_def round_down4_def)

text \<open>The bytes of the message as they are sent, in whole words.\<close>

definition padded :: "u8 list \<Rightarrow> u8 list" where
  "padded msg = take (round_down4 (length msg)) msg @ (if length msg - round_down4 (length msg) \<noteq> 0 then send_tail msg else [])"

definition frame :: "dchid_iface \<Rightarrow> nat \<Rightarrow> u32 \<Rightarrow> u8 list \<Rightarrow> u8 list" where
  "frame ifc i flags msg = (let b = send_hdr ifc i flags (length msg) @ padded msg
     in b @ put_unaligned_le32 (0xffffffff - dchid_checksum b))"

lemma round_down4_le: "round_down4 n \<le> n" "4 dvd round_down4 n" "n - round_down4 n < 4"
  by (simp_all add: round_down4_def minus_div_mult_eq_mod)

lemma padded_props: "length (padded msg) = round_up4 (length msg)" "take (length msg) (padded msg) = msg"
proof -
  let ?n = "length msg"
  have eq: "round_up4 ?n = (if ?n - round_down4 ?n \<noteq> 0 then round_down4 ?n + 4 else round_down4 ?n)"
    unfolding round_up4_def round_down4_def by presburger
  show "length (padded msg) = round_up4 ?n"
    using round_down4_le [of ?n] send_tail_length [of msg] by (simp add: padded_def eq)
  show "take ?n (padded msg) = msg"
    using round_down4_le [of ?n] by (auto simp: padded_def send_tail_def Let_def)
qed

lemma frame_parts:
  "frame ifc i flags msg = send_hdr ifc i flags (length msg) @ take (round_down4 (length msg)) msg
     @ (if length msg - round_down4 (length msg) \<noteq> 0 then send_tail msg else [])
     @ put_unaligned_le32 (if length msg - round_down4 (length msg) \<noteq> 0
         then 0xffffffff - dchid_checksum (send_hdr ifc i flags (length msg)) - dchid_checksum (take (round_down4 (length msg)) msg)
           - dchid_checksum (send_tail msg)
         else 0xffffffff - dchid_checksum (send_hdr ifc i flags (length msg)) - dchid_checksum (take (round_down4 (length msg)) msg))"
proof -
  have l: "4 dvd length (send_hdr ifc i flags (length msg))" "4 dvd length (take (round_down4 (length msg)) msg)"
    using round_down4_le [of "length msg"] by (simp_all add: send_hdr_def min_absorb2)
  show ?thesis
    by (simp add: frame_def padded_def Let_def dchid_checksum_append [OF l(1)] dchid_checksum_append [OF l(2)] dchid_checksum_short algebra_simps)
qed

definition frame_result :: "u8 list \<Rightarrow> int option \<Rightarrow> (hid_req dock_req \<times> hid_resp dock_resp) list \<Rightarrow> bool" where
  "frame_result F r new \<longleftrightarrow> received new = []
     \<and> (r = Some 0 \<and> sent new = F \<or> (r = Some (- ETIMEDOUT) \<or> r = None) \<and> (\<exists>rest. rest \<noteq> [] \<and> F = sent new @ rest))"

lemma or_fail_return: "or_fail (return (Some 0)) k = k"
  by (simp add: or_fail_def)

lemma dchid_send_frame:
  "wp (dchid_send fuel E i flags msg)
     (\<lambda>r w'. drv w' = drv w \<and> (\<exists>new. hist w' = hist w @ new \<and> frame_result (frame (iface (drv w) i) i flags msg) r new)) w"
proof -
  let ?F = "frame (iface (drv w) i) i flags msg"
  let ?Q = "\<lambda>r w'. drv w' = drv w \<and> (\<exists>new. hist w' = hist w @ new \<and> frame_result ?F r new)"
  have fin: "?Q (Some 0) w'" if "hist w' = hist w @ new" "drv w' = drv w" "sent new = ?F" "received new = []" for w' new
    using that unfolding frame_result_def by blast
  have cut: "?Q r w'" if "hist w' = hist w @ new" "drv w' = drv w" "received new = []" "\<exists>more. ?F = (sent new @ rest) @ more" "rest \<noteq> []"
    "r = Some (- ETIMEDOUT) \<or> r = None" for r w' new rest
  proof -
    from that(4,5) obtain more where "?F = sent new @ (rest @ more)" "rest @ more \<noteq> []" by auto
    with that(1-3,6) show ?thesis unfolding frame_result_def by blast
  qed
  show ?thesis
    unfolding dchid_send_def get_iface_def wp_bind wp_getd wp_return
    apply (rule wp_letI)+
    apply (rule dock.send_then)
    subgoal for w1 n1
      apply (rule dock.send_then)
      subgoal for w2 n2
        apply (cases "length msg - round_down4 (length msg) \<noteq> 0")
        subgoal
          apply (simp only: if_True simp_thms)
          apply (rule dock.send_then)
          subgoal for w3 n3
            apply (rule dock.send_then)
            subgoal for w4 n4 by (rule wp_returnI, rule fin [of _ "n1 @ n2 @ n3 @ n4"]) (simp_all add: frame_parts)
            subgoal for r w4 n4 rest by (rule cut [of _ "n1 @ n2 @ n3 @ n4" rest]) (simp_all add: frame_parts)
            done
          subgoal for r w3 n3 rest
            by (rule cut [of _ "n1 @ n2 @ n3" rest]) (simp_all add: frame_parts)
          done
        subgoal
          apply (simp only: if_False simp_thms or_fail_return)
          apply (rule dock.send_then)
          subgoal for w4 n4 by (rule wp_returnI, rule fin [of _ "n1 @ n2 @ n4"]) (simp_all add: frame_parts)
          subgoal for r w4 n4 rest by (rule cut [of _ "n1 @ n2 @ n4" rest]) (simp_all add: frame_parts)
          done
        done
      subgoal for r w2 n2 rest by (rule cut [of _ "n1 @ n2" rest]) (simp_all add: frame_parts)
      done
    subgoal for r w1 n1 rest by (rule cut [of _ n1 rest]) (simp_all add: frame_parts)
    done
qed

text \<open>C9. What one side sends the other accepts. A command that was sent leaves on the channel one frame of which the header has the
  right lengths, the sequence number and the interface; the sum over header, body and checksum is what
  \<open>dchid_handle_packet\<close> requires; the sub-header has the flags and the length, and the payload is the message. This holds for
  messages of any length that fits the 16-bit field.\<close>

theorem send_frame_accepted:
  assumes "run_state (dchid_send fuel E i flags msg) w = (Some 0, w')" and "i < MAX_INTERFACES" and "round_up4 (length msg) + 8 < 2 ^ 16"
  shows "\<exists>new h body. hist w' = hist w @ new \<and> sent new = h @ body \<and> length h = 8
    \<and> get_hdr h = \<lparr>hdr_len = 8, channel = DCHID_CHANNEL_CMD, hlength = of_nat (round_up4 (length msg) + 8),
        seq = tx_seq (iface (drv w) i), hiface = of_nat i\<rparr>
    \<and> length body = unat (hlength (get_hdr h)) + 4 \<and> packet_ok h body
    \<and> get_subhdr body = \<lparr>sflags = ucast flags, slength = of_nat (length msg), sretcode = 0\<rparr>
    \<and> take (unat (slength (get_subhdr body))) (drop 8 body) = msg"
proof -
  let ?n = "length msg"
  define lw where "lw = (of_nat (round_up4 ?n + 8) :: u16)"
  define hd8 where "hd8 = put_hdr \<lparr>hdr_len = 8, channel = DCHID_CHANNEL_CMD, hlength = lw,
    seq = tx_seq (iface (drv w) i), hiface = of_nat i\<rparr>"
  define sub8 where "sub8 = put_subhdr \<lparr>sflags = ucast flags, slength = of_nat ?n, sretcode = 0\<rparr>"
  define c where "c = put_unaligned_le32 (0xffffffff - dchid_checksum ((hd8 @ sub8) @ padded msg))"
  define body where "body = sub8 @ padded msg @ c"
  from wpD [OF dchid_send_frame assms(1)] obtain new where n: "hist w' = hist w @ new" "sent new = frame (iface (drv w) i) i flags msg"
    by (auto simp: frame_result_def)
  have f: "frame (iface (drv w) i) i flags msg = hd8 @ body"
    by (simp only: frame_def send_hdr_def hd8_def sub8_def body_def c_def Let_def lw_def append_assoc)
  have le: "?n \<le> round_up4 ?n" unfolding round_up4_def by presburger
  have fits: "unat (of_nat k :: u16) = k" if "k < 2 ^ 16" for k using that by (simp add: unsigned_of_nat take_bit_nat_eq_self)
  have u: "unat lw = round_up4 ?n + 8" "unat (of_nat ?n :: u16) = ?n"
    unfolding lw_def using assms(3) le by (auto intro!: fits simp del: of_nat_add)
  have len: "length hd8 = 8" "length sub8 = 8" "length c = 4" by (simp_all add: hd8_def sub8_def c_def)
  have h: "get_hdr hd8 = \<lparr>hdr_len = 8, channel = DCHID_CHANNEL_CMD, hlength = lw,
      seq = tx_seq (iface (drv w) i), hiface = of_nat i\<rparr>"
    using get_put_hdr [of _ "[]"] by (simp add: hd8_def)
  have s: "get_subhdr body = \<lparr>sflags = ucast flags, slength = of_nat ?n, sretcode = 0\<rparr>"
    unfolding body_def sub8_def by (rule get_put_subhdr)
  have d4: "4 dvd length (padded msg)" by (simp add: padded_props round_up4_def)
  have ok: "packet_ok hd8 body"
    using len d4 by (simp add: packet_ok_def body_def dchid_checksum_append c_def dchid_checksum_word algebra_simps)
  have b: "length body = unat (hlength (get_hdr hd8)) + 4" using len u by (simp add: h body_def padded_props)
  have m: "take (unat (slength (get_subhdr body))) (drop 8 body) = msg"
  proof -
    have "drop 8 body = padded msg @ c" by (simp add: body_def len)
    then show ?thesis using u le padded_props [of msg] by (simp add: s)
  qed
  show ?thesis unfolding lw_def [symmetric] using n f len(1) h b ok s m by (intro exI [of _ new] exI [of _ hd8] exI [of _ body]) simp
qed

section \<open>Commands\<close>

definition at_iface :: "dockchannel_hid \<Rightarrow> nat \<Rightarrow> dchid_iface \<Rightarrow> dockchannel_hid" where
  "at_iface s i ifc = s\<lparr>ifaces := (ifaces s)[i := Some ifc]\<rparr>"

lemma iface_at [simp]: "i < length (ifaces s) \<Longrightarrow> iface (at_iface s i ifc) i = ifc"
  by (simp add: iface_def at_iface_def)

lemma at_at [simp]: "at_iface (at_iface s i a) i b = at_iface s i b"
  by (simp add: at_iface_def)

lemma at_length [simp]: "length (ifaces (at_iface s i a)) = length (ifaces s)"
  by (simp add: at_iface_def)

lemma wp_mod_iface [wp_simps]: "wp (mod_iface i f) Q w = Q () (w\<lparr>drv := at_iface (drv w) i (f (iface (drv w) i))\<rparr>)"
  by (simp add: mod_iface_def wp_simps at_iface_def)

lemma wp_get_iface [wp_simps]: "wp (get_iface i) Q w = Q (iface (drv w) i) w"
  by (simp add: get_iface_def wp_simps)

lemma wp_ask [wp_simps]: "wp (ask E q) Q w = (let r = E (hist w) (Up q) in Q (up_of r) (w\<lparr>hist := hist w @ [(Up q, r)]\<rparr>))"
  by (simp add: ask_def wp_simps Let_def)

lemma wp_tell [wp_simps]: "wp (tell E q) Q w = Q () (w\<lparr>hist := hist w @ [(Up q, E (hist w) (Up q))]\<rparr>)"
  by (simp add: tell_def wp_simps)

text \<open>The acknowledgement that a command waits for, and what it does.\<close>

definition matches :: "dchid_iface \<Rightarrow> dchid_hdr \<times> u8 list \<Rightarrow> bool" where
  "matches ifc p \<longleftrightarrow> (let shdr = get_subhdr (snd p) in
     unat (slength shdr) + 8 \<le> unat (hlength (fst p)) \<and> ucast (sflags shdr) = out_flags ifc \<and> 1 \<le> unat (slength shdr)
     \<and> tx_seq ifc = seq (fst p) \<and> out_report ifc = int (unat (drop 8 (snd p) ! 0)))"

definition fill :: "u8 list option \<Rightarrow> nat \<Rightarrow> u8 list \<Rightarrow> u8 list option" where
  "fill rbuf n payload = map_option (\<lambda>b. take n payload @ drop n b) rbuf"

definition accepted :: "dchid_iface \<Rightarrow> dchid_hdr \<times> u8 list \<Rightarrow> dchid_iface" where
  "accepted ifc p = (let shdr = get_subhdr (snd p); n = unat (slength shdr) in
     ifc\<lparr>resp_buf := fill (resp_buf ifc) (min (n - 1) (resp_size ifc)) (drop 1 (drop 8 (snd p))),
       resp_size := n, out_report := - 1, retcode := sretcode shdr, out_complete := out_complete ifc + 1\<rparr>)"

definition ack_step :: "dchid_iface \<Rightarrow> dchid_hdr \<times> u8 list \<Rightarrow> dchid_iface" where
  "ack_step ifc p = (if matches ifc p then accepted ifc p else ifc)"

lemma handle_ack_step:
  assumes "i < length (ifaces s)" and "drv w = at_iface s i ifc"
  shows "wp (dchid_handle_ack i hdr data) (\<lambda>_ w'. hist w' = hist w \<and> drv w' = at_iface s i (ack_step ifc (hdr, data))) w"
proof (cases "matches ifc (hdr, data)")
  case True
  then have c: "\<not> unat (hlength hdr) < unat (slength (get_subhdr data)) + 8" "ucast (sflags (get_subhdr data)) = out_flags ifc"
    "\<not> unat (slength (get_subhdr data)) < 1" "tx_seq ifc = seq hdr" "out_report ifc = int (unat (drop 8 data ! 0))"
    by (auto simp: matches_def Let_def not_less)
  have q: "ack_step ifc (hdr, data) = accepted ifc (hdr, data)" using True by (simp add: ack_step_def)
  show ?thesis
    unfolding dchid_handle_ack_def wp_bind wp_get_iface wp_let q
    using assms c by (cases ifc; cases "resp_buf ifc") (simp_all add: wp_simps accepted_def fill_def Let_def)
next
  case False
  then have q: "ack_step ifc (hdr, data) = ifc" by (simp add: ack_step_def)
  from False have "unat (hlength hdr) < unat (slength (get_subhdr data)) + 8 \<or> ucast (sflags (get_subhdr data)) \<noteq> out_flags ifc
    \<or> unat (slength (get_subhdr data)) < 1 \<or> tx_seq ifc \<noteq> seq hdr \<or> out_report ifc \<noteq> int (unat (drop 8 data ! 0))"
    by (auto simp: matches_def Let_def not_less not_le)
  then show ?thesis
    unfolding dchid_handle_ack_def wp_bind wp_get_iface wp_let q
    by (elim disjE) (simp_all add: wp_simps assms)
qed

lemma handle_acks_fold:
  assumes "i < length (ifaces s)" and "drv w = at_iface s i ifc"
  shows "wp (for_each ps (\<lambda>(hdr, data). dchid_handle_ack i hdr data))
    (\<lambda>_ w'. hist w' = hist w \<and> drv w' = at_iface s i (foldl ack_step ifc ps)) w"
  using assms(2)
proof (induction ps arbitrary: w ifc)
  case Nil
  then show ?case by (simp add: wp_simps)
next
  case (Cons p ps)
  obtain hdr data where p: "p = (hdr, data)" by fastforce
  show ?case
    unfolding for_each.simps wp_bind p prod.case
    by (rule wp_mono [OF handle_ack_step [OF assms(1) Cons.prems]], rule wp_mono [OF Cons.IH]) auto
qed

text \<open>Of the packets that arrive while a command waits, the first that matches is taken, and no other.\<close>

lemma matches_report: "matches ifc p \<Longrightarrow> 0 \<le> out_report ifc"
  unfolding matches_def Let_def by (elim conjE) (simp only: of_nat_0_le_iff)

lemma accepted_report: "out_report (accepted ifc p) = - 1"
  by (simp add: accepted_def Let_def)

lemma no_second_ack: "out_report ifc = - 1 \<Longrightarrow> foldl ack_step ifc ps = ifc"
  by (induction ps) (auto simp: ack_step_def dest: matches_report)

lemma fold_acks: "foldl ack_step ifc ps = (case find (matches ifc) ps of None \<Rightarrow> ifc | Some p \<Rightarrow> accepted ifc p)"
  by (induction ps) (simp_all add: ack_step_def [of ifc] no_second_ack accepted_report)

definition cmd_started :: "dchid_iface \<Rightarrow> u32 \<Rightarrow> u32 \<Rightarrow> u8 list \<Rightarrow> u8 list option \<Rightarrow> nat \<Rightarrow> dchid_iface" where
  "cmd_started ifc type req data rbuf rsize = ifc\<lparr>out_report := int (unat (hd data)),
     out_flags := FIELD_PREP FLAGS_GROUP type OR FIELD_PREP FLAGS_REQ req, resp_buf := rbuf, resp_size := rsize, out_complete := 0\<rparr>"

definition cmd_idle :: "dchid_iface \<Rightarrow> dchid_iface \<Rightarrow> bool" where
  "cmd_idle ifc ifc' \<longleftrightarrow> tx_seq ifc' = tx_seq ifc + 1 \<and> out_report ifc' = - 1 \<and> out_flags ifc' = 0 \<and> resp_buf ifc' = None \<and> resp_size ifc' = 0
     \<and> ifc'\<lparr>tx_seq := tx_seq ifc, out_report := out_report ifc, out_flags := out_flags ifc, resp_buf := resp_buf ifc, resp_size := resp_size ifc,
         retcode := retcode ifc, out_complete := out_complete ifc\<rparr> = ifc"

text \<open>The result of a command whose frame was sent, from the packets that came in time.\<close>

definition cmd_reply :: "dchid_iface \<Rightarrow> (dchid_hdr \<times> u8 list) list \<Rightarrow> int \<times> u8 list option" where
  "cmd_reply st ps = (case find (matches st) ps of
     None \<Rightarrow> (- ETIMEDOUT, resp_buf st)
   | Some p \<Rightarrow>
       let shdr = get_subhdr (snd p); n = unat (slength shdr)
       in (if sretcode shdr \<noteq> 0 then - EIO else int n, fill (resp_buf st) (min (n - 1) (resp_size st)) (drop 1 (drop 8 (snd p)))))"

text \<open>The fields that a command changes.\<close>

definition same_but_cmd :: "dchid_iface \<Rightarrow> dchid_iface \<Rightarrow> bool" where
  "same_but_cmd ifc ifc1 \<longleftrightarrow> ifc1\<lparr>out_report := out_report ifc, out_flags := out_flags ifc, resp_buf := resp_buf ifc, resp_size := resp_size ifc,
     retcode := retcode ifc, out_complete := out_complete ifc\<rparr> = ifc"

definition acks_of :: "hid_resp \<Rightarrow> (dchid_hdr \<times> u8 list) list" where
  "acks_of r = (case r of UAcks ps \<Rightarrow> ps | _ \<Rightarrow> [])"

definition cmd_post :: "hid_env \<Rightarrow> nat \<Rightarrow> u8 list \<Rightarrow> dchid_iface \<Rightarrow> dockchannel_hid \<Rightarrow> (int \<times> u8 list option) option \<Rightarrow> dockchannel_hid
    \<Rightarrow> (hid_req dock_req \<times> hid_resp dock_resp) list \<Rightarrow> bool" where
  "cmd_post E i F st s r s' new \<longleftrightarrow> (case r of
     None \<Rightarrow> \<exists>ifc'. s' = at_iface s i ifc' \<and> same_but_cmd (iface s i) ifc'
   | Some (ret, b) \<Rightarrow> (\<exists>ifc'. s' = at_iface s i ifc' \<and> cmd_idle (iface s i) ifc')
       \<and> (ret = - ETIMEDOUT \<and> b = resp_buf st \<and> (\<exists>rest. rest \<noteq> [] \<and> F = sent new @ rest)
          \<or> sent new = F \<and> (\<exists>resp. (Up (WaitOut i COMMAND_TIMEOUT_MS), resp) \<in> set new
            \<and> (\<exists>h. resp = E h (Up (WaitOut i COMMAND_TIMEOUT_MS))) \<and> (ret, b) = cmd_reply st (acks_of (up_of resp)))))"

lemma cmd_done_idle:
  assumes "i < length (ifaces s)" and "drv w = at_iface s i ifc1"
    and "ifc1\<lparr>out_report := out_report ifc, out_flags := out_flags ifc, resp_buf := resp_buf ifc, resp_size := resp_size ifc,
           retcode := retcode ifc, out_complete := out_complete ifc\<rparr> = ifc"
  shows "wp (cmd_done E i ret) (\<lambda>r w'. r = Some (ret, resp_buf ifc1) \<and> (\<exists>ifc'. drv w' = at_iface s i ifc' \<and> cmd_idle ifc ifc')
    \<and> (\<exists>x. hist w' = hist w @ [(Up (MutexUnlock i), x)])) w"
proof -
  from assms(3) have "cmd_idle ifc (ifc1\<lparr>tx_seq := tx_seq ifc1 + 1, out_report := - 1, out_flags := 0, resp_buf := None, resp_size := 0\<rparr>)"
    by (cases ifc1; cases ifc) (simp add: cmd_idle_def)
  then show ?thesis using assms(1,2) by (auto simp: cmd_done_def wp_simps)
qed

lemma wait_out_post:
  assumes "i < length (ifaces s)" and "drv w = at_iface s i st" and "out_complete st = 0"
  shows "wp (wait_out E i) (\<lambda>ok w'. \<exists>resp. hist w' = hist w @ [(Up (WaitOut i COMMAND_TIMEOUT_MS), resp)] \<and> resp = E (hist w) (Up (WaitOut i COMMAND_TIMEOUT_MS))
    \<and> (case find (matches st) (acks_of (up_of resp)) of
         None \<Rightarrow> \<not> ok \<and> drv w' = at_iface s i st
       | Some p \<Rightarrow> ok \<and> drv w' = at_iface s i ((accepted st p)\<lparr>out_complete := 0\<rparr>))) w"
proof -
  let ?q = "Up (WaitOut i COMMAND_TIMEOUT_MS)"
  let ?r = "E (hist w) ?q"
  let ?ps = "acks_of (up_of ?r)"
  have f: "wp (for_each ?ps (\<lambda>(hdr, data). dchid_handle_ack i hdr data))
      (\<lambda>_ w'. hist w' = hist w @ [(?q, ?r)] \<and> drv w' = at_iface s i (foldl ack_step st ?ps)) (w\<lparr>hist := hist w @ [(?q, ?r)]\<rparr>)"
    by (rule wp_mono [OF handle_acks_fold [OF assms(1)]]) (simp_all add: assms(2))
  have oc: "out_complete (accepted st p) = 1" for p by (simp add: accepted_def Let_def assms(3))
  show ?thesis
    unfolding wait_out_def wp_bind wp_ask Let_def acks_of_def [symmetric]
    apply (rule wp_mono [OF f])
    subgoal premises p for a w'
      using p assms oc by (cases "find (matches st) ?ps") (auto simp: wp_simps fold_acks)
    done
qed

lemma same_but_cmd_started: "same_but_cmd ifc (cmd_started ifc type req data rbuf rsize)"
  by (simp add: same_but_cmd_def cmd_started_def)

lemma same_but_cmd_accepted: "same_but_cmd ifc st \<Longrightarrow> same_but_cmd ifc ((accepted st p)\<lparr>out_complete := 0\<rparr>)"
  by (cases st; cases ifc) (simp add: same_but_cmd_def accepted_def Let_def)

lemma cmd_wait_post:
  assumes "i < length (ifaces s)" and "drv v = at_iface s i st" and "out_complete st = 0" and "same_but_cmd (iface s i) st"
  shows "wp (cmd_wait E i) (\<lambda>r w'. (\<exists>ifc'. drv w' = at_iface s i ifc' \<and> cmd_idle (iface s i) ifc')
    \<and> (\<exists>resp x. hist w' = hist v @ [(Up (WaitOut i COMMAND_TIMEOUT_MS), resp), (Up (MutexUnlock i), x)]
       \<and> resp = E (hist v) (Up (WaitOut i COMMAND_TIMEOUT_MS)) \<and> r = Some (cmd_reply st (acks_of (up_of resp))))) v"
  unfolding cmd_wait_def wp_bind
proof (rule wp_mono [OF wait_out_post [OF assms(1-3)]], elim exE conjE)
  fix ok resp and w' :: hid_world
  assume h: "hist w' = hist v @ [(Up (WaitOut i COMMAND_TIMEOUT_MS), resp)]"
    and e0: "resp = E (hist v) (Up (WaitOut i COMMAND_TIMEOUT_MS))"
    and c: "case find (matches st) (acks_of (up_of resp)) of None \<Rightarrow> \<not> ok \<and> drv w' = at_iface s i st
      | Some p \<Rightarrow> ok \<and> drv w' = at_iface s i ((accepted st p)\<lparr>out_complete := 0\<rparr>)"
  have dn: "wp (cmd_done E i ret) (\<lambda>r w'. (\<exists>ifc'. drv w' = at_iface s i ifc' \<and> cmd_idle (iface s i) ifc')
    \<and> (\<exists>resp x. hist w' = hist v @ [(Up (WaitOut i COMMAND_TIMEOUT_MS), resp), (Up (MutexUnlock i), x)]
       \<and> resp = E (hist v) (Up (WaitOut i COMMAND_TIMEOUT_MS)) \<and> r = Some (cmd_reply st (acks_of (up_of resp))))) w'"
    if "drv w' = at_iface s i ifc1" "same_but_cmd (iface s i) ifc1" "cmd_reply st (acks_of (up_of resp)) = (ret, resp_buf ifc1)" for ret ifc1
  proof (rule wp_mono [OF cmd_done_idle [OF assms(1) that(1) that(2) [unfolded same_but_cmd_def]]], elim conjE exE)
    fix r ifc' x and w2 :: hid_world
    assume "r = Some (ret, resp_buf ifc1)" "drv w2 = at_iface s i ifc'" "cmd_idle (iface s i) ifc'" "hist w2 = hist w' @ [(Up (MutexUnlock i), x)]"
    with that(3) h e0 show "(\<exists>ifc'. drv w2 = at_iface s i ifc' \<and> cmd_idle (iface s i) ifc')
      \<and> (\<exists>resp x. hist w2 = hist v @ [(Up (WaitOut i COMMAND_TIMEOUT_MS), resp), (Up (MutexUnlock i), x)]
         \<and> resp = E (hist v) (Up (WaitOut i COMMAND_TIMEOUT_MS)) \<and> r = Some (cmd_reply st (acks_of (up_of resp))))"
      by (intro conjI exI [of _ ifc'] exI [of _ resp] exI [of _ x]) simp_all
  qed
  show "wp (if \<not> ok then cmd_done E i (- ETIMEDOUT)
      else State_Monad.bind (get_iface i) (\<lambda>ifc. cmd_done E i (if retcode ifc \<noteq> 0 then - EIO else int (resp_size ifc))))
      (\<lambda>r w'. (\<exists>ifc'. drv w' = at_iface s i ifc' \<and> cmd_idle (iface s i) ifc')
        \<and> (\<exists>resp x. hist w' = hist v @ [(Up (WaitOut i COMMAND_TIMEOUT_MS), resp), (Up (MutexUnlock i), x)]
           \<and> resp = E (hist v) (Up (WaitOut i COMMAND_TIMEOUT_MS)) \<and> r = Some (cmd_reply st (acks_of (up_of resp))))) w'"
  proof (cases "find (matches st) (acks_of (up_of resp))")
    case None
    with c have d: "\<not> ok" "drv w' = at_iface s i st" by auto
    have "cmd_reply st (acks_of (up_of resp)) = (- ETIMEDOUT, resp_buf st)" by (simp add: cmd_reply_def None)
    from dn [OF d(2) assms(4) this] d(1) show ?thesis by simp
  next
    case (Some p)
    with c have d: "ok" "drv w' = at_iface s i ((accepted st p)\<lparr>out_complete := 0\<rparr>)" by auto
    have "cmd_reply st (acks_of (up_of resp)) =
        (if retcode (accepted st p) \<noteq> 0 then - EIO else int (resp_size (accepted st p)), resp_buf ((accepted st p)\<lparr>out_complete := 0\<rparr>))"
      by (simp add: cmd_reply_def Some accepted_def Let_def)
    note fin = dn [OF d(2) same_but_cmd_accepted [OF assms(4)] this]
    have e: "iface (drv w') i = (accepted st p)\<lparr>out_complete := 0\<rparr>" using d(2) assms(1) by simp
    have f: "retcode (iface (drv w') i) = retcode (accepted st p)" "resp_size (iface (drv w') i) = resp_size (accepted st p)"
      by (simp_all add: e)
    show ?thesis unfolding wp_bind wp_get_iface f using fin d(1) by (simp only: not_True_eq_False if_False wp_bind wp_get_iface f)
  qed
qed

lemma dchid_cmd_start:
  assumes "i < length (ifaces (drv w))"
  shows "wp (dchid_cmd fuel E i type req data rbuf rsize) Q w =
    wp (and_then (dchid_send fuel E i (out_flags (cmd_started (iface (drv w) i) type req data rbuf rsize)) data)
        (\<lambda>ret. if ret < 0 then cmd_done E i ret else cmd_wait E i)) Q
      (w\<lparr>hist := hist w @ [(Up (MutexLock i), E (hist w) (Up (MutexLock i)))],
         drv := at_iface (drv w) i (cmd_started (iface (drv w) i) type req data rbuf rsize)\<rparr>)"
  unfolding dchid_cmd_def using assms by (simp add: wp_bind wp_tell wp_mod_iface wp_get_iface cmd_started_def)

lemma dchid_cmd_post:
  fixes type req :: u32 and data :: "u8 list" and rbuf :: "u8 list option" and rsize :: nat
  assumes "i < length (ifaces (drv w))"
  defines "st \<equiv> cmd_started (iface (drv w) i) type req data rbuf rsize"
  shows "wp (dchid_cmd fuel E i type req data rbuf rsize) (\<lambda>r w'. \<exists>new. hist w' = hist w @ new
    \<and> cmd_post E i (frame st i (out_flags st) data) st (drv w) r (drv w') new) w"
  unfolding dchid_cmd_start [OF assms(1)] and_then_def wp_bind st_def [symmetric]
proof (rule wp_mono [OF dchid_send_frame], elim exE conjE)
  let ?s = "drv w"
  let ?F = "frame st i (out_flags st) data"
  let ?lock = "(Up (MutexLock i), E (hist w) (Up (MutexLock i)))"
  let ?Q = "\<lambda>r w'. \<exists>new. hist w' = hist w @ new \<and> cmd_post E i ?F st ?s r (drv w') new"
  let ?w1 = "w\<lparr>hist := hist w @ [?lock], drv := at_iface ?s i st\<rparr>"
  fix r new and w' :: hid_world
  assume d: "drv w' = drv ?w1" and h: "hist w' = hist ?w1 @ new" and f: "frame_result (frame (iface (drv ?w1) i) i (out_flags st) data) r new"
  have dw: "drv w' = at_iface ?s i st" using d by simp
  have hw: "hist w' = hist w @ ?lock # new" using h by simp
  have fr: "frame_result ?F r new" using f assms(1) by simp
  have st: "out_complete st = 0" "same_but_cmd (iface ?s i) st"
    unfolding st_def by (simp add: cmd_started_def) (rule same_but_cmd_started)
  have fail: "wp (cmd_done E i (- ETIMEDOUT)) ?Q w'" if "\<exists>rest. rest \<noteq> [] \<and> ?F = sent new @ rest"
    by (rule wp_mono [OF cmd_done_idle [OF assms(1) dw st(2) [unfolded same_but_cmd_def]]]) (use that in \<open>auto simp: hw cmd_post_def\<close>)
  have wait: "wp (cmd_wait E i) ?Q w'" if "sent new = ?F"
  proof (rule wp_mono [OF cmd_wait_post [OF assms(1) dw st]], elim conjE exE)
    fix r ifc' resp x and w2 :: hid_world
    assume a: "drv w2 = at_iface ?s i ifc'" "cmd_idle (iface ?s i) ifc'" "r = Some (cmd_reply st (acks_of (up_of resp)))"
      "hist w2 = hist w' @ [(Up (WaitOut i COMMAND_TIMEOUT_MS), resp), (Up (MutexUnlock i), x)]"
    moreover assume "resp = E (hist w') (Up (WaitOut i COMMAND_TIMEOUT_MS))"
    moreover obtain ret b where "cmd_reply st (acks_of (up_of resp)) = (ret, b)" by fastforce
    ultimately show "?Q r w2" using hw that by (intro exI conjI) (auto simp: cmd_post_def)
  qed
  from fr consider "r = Some 0" "sent new = ?F" | "r = Some (- ETIMEDOUT)" "\<exists>rest. rest \<noteq> [] \<and> ?F = sent new @ rest" | "r = None"
    by (auto simp: frame_result_def)
  then show "wp (case r of None \<Rightarrow> return None | Some ret \<Rightarrow> if ret < 0 then cmd_done E i ret else cmd_wait E i) ?Q w'"
    using fail wait hw dw st(2) by cases (auto simp: wp_return cmd_post_def)
qed

text \<open>C6. A command always leaves its interface idle: the sequence number advanced by one, nothing outstanding, no buffer
  of the caller kept, and no other field or interface touched. When its whole frame was sent, the result is that of the first packet,
  among those that arrived while it waited, with the expected flags, sequence number and report: the length it carries, or an I/O error
  if the device reports one, and the response is copied into the buffer as far as that goes. Without such a packet, or when
  the frame could not be sent, it is a timeout, and the buffer is untouched.\<close>

theorem cmd_outcome:
  assumes "run_state (dchid_cmd fuel E i type req data rbuf rsize) w = (Some (ret, b), w')" and "i < length (ifaces (drv w))"
    and "st = cmd_started (iface (drv w) i) type req data rbuf rsize"
  shows "(\<exists>ifc'. drv w' = at_iface (drv w) i ifc' \<and> cmd_idle (iface (drv w) i) ifc')
    \<and> (\<exists>new. hist w' = hist w @ new
       \<and> (ret = - ETIMEDOUT \<and> b = rbuf \<and> (\<exists>rest. rest \<noteq> [] \<and> frame st i (out_flags st) data = sent new @ rest)
          \<or> sent new = frame st i (out_flags st) data
            \<and> (\<exists>resp. (Up (WaitOut i COMMAND_TIMEOUT_MS), resp) \<in> set new \<and> (ret, b) = cmd_reply st (acks_of (up_of resp)))))"
proof -
  have "resp_buf st = rbuf" by (simp add: assms(3) cmd_started_def)
  moreover from wpD [OF dchid_cmd_post [OF assms(2)] assms(1)] obtain new where "hist w' = hist w @ new"
    "cmd_post E i (frame st i (out_flags st) data) st (drv w) (Some (ret, b)) (drv w') new"
    unfolding assms(3) by blast
  ultimately show ?thesis unfolding cmd_post_def option.case prod.case by blast
qed

text \<open>A coprocessor that takes and gives bytes at once, and that answers a command on interface 2 with the byte 7.\<close>

definition demo_hid :: hid_env where
  "demo_hid h q = (case q of
     ReadData off \<Rightarrow> Val 64
   | WaitCompletion s t \<Rightarrow> Ret 1
   | Up u \<Rightarrow> UpR (case u of
       WaitOut i t \<Rightarrow> UAcks [(\<lparr>hdr_len = 8, channel = 0x11, hlength = 10, seq = 0, hiface = 2\<rparr>,
         put_subhdr \<lparr>sflags = 0x81, slength = 2, sretcode = 0\<rparr> @ [0x10, 7])]
     | _ \<Rightarrow> UDone)
   | _ \<Rightarrow> Done)"

definition demo_channel_state :: dockchannel where
  "demo_channel_state = \<lparr>tx_irq = 5, rx_irq = 6, fifo_size = 64, awaiting = False, callback = False\<rparr>"

definition demo_hid_world :: hid_world where
  "demo_hid_world = \<lparr>hist = [], drv = dockchannel.extend demo_channel_state \<lparr>id_ready = False, device_id = replicate 11 0, serial = replicate 64 0,
     ifaces = [Some (new_iface (Some ''comm'')), None, Some (new_iface (Some ''stm''))] @ replicate 13 None, pkt_buf = []\<rparr>\<rparr>"

theorem send_frame_accepted_witness:
  "\<exists>h body. sent (hist (snd (run_state (dchid_send 40 demo_hid 2 0x81 [0xb4, 1]) demo_hid_world))) = h @ body
     \<and> packet_ok h body \<and> hiface (get_hdr h) = 2 \<and> take (unat (slength (get_subhdr body))) (drop 8 body) = [0xb4, 1]"
proof -
  have r: "fst (run_state (dchid_send 40 demo_hid 2 0x81 [0xb4, 1]) demo_hid_world) = Some 0" by code_simp
  obtain w' where run: "run_state (dchid_send 40 demo_hid 2 0x81 [0xb4, 1]) demo_hid_world = (Some 0, w')"
    using r by (metis prod.collapse)
  have c: "2 < MAX_INTERFACES" "round_up4 (length [0xb4, 1 :: u8]) + 8 < 2 ^ 16" by (simp_all add: MAX_INTERFACES_def round_up4_def)
  have e: "hist demo_hid_world = []" by (simp add: demo_hid_world_def)
  from send_frame_accepted [OF run c] obtain new h body where o: "hist w' = hist demo_hid_world @ new" "sent new = h @ body"
    "packet_ok h body" "take (unat (slength (get_subhdr body))) (drop 8 body) = [0xb4, 1]" "hiface (get_hdr h) = 2"
    by (auto simp: dchid_hdr.defs)
  then show ?thesis by (intro exI [of _ h] exI [of _ body]) (simp add: run e)
qed

text \<open>The state in which the command waits.\<close>

definition demo_started :: dchid_iface where
  "demo_started = (new_iface (Some ''stm''))\<lparr>out_report := 16, out_flags := 0x81, resp_buf := Some [0, 5], resp_size := 1\<rparr>"

definition demo_waiting :: hid_world where
  "demo_waiting = demo_hid_world\<lparr>hist := [(Up (MutexLock 2), UpR UDone)], drv := at_iface (drv demo_hid_world) 2 demo_started\<rparr>"

lemma demo_wait:
  "fst (run_state (and_then (dchid_send 40 demo_hid 2 0x81 [0x10]) (\<lambda>ret. if ret < 0 then cmd_done demo_hid 2 ret else cmd_wait demo_hid 2))
     demo_waiting) = Some (2, Some [7, 5])"
  by code_simp

lemma demo_start: "cmd_started (iface (drv demo_hid_world) 2) 2 REQ_GET_REPORT [0x10] (Some [0, 5]) 1 = demo_started"
proof -
  have "FIELD_PREP FLAGS_GROUP 2 OR FIELD_PREP FLAGS_REQ REQ_GET_REPORT = (0x81 :: u32)" by code_simp
  moreover have "iface (drv demo_hid_world) 2 = new_iface (Some ''stm'')" by (simp add: demo_hid_world_def iface_def dockchannel.extend_def)
  ultimately show ?thesis by (simp add: cmd_started_def demo_started_def new_iface_def)
qed

theorem cmd_outcome_witness:
  "fst (run_state (dchid_cmd 40 demo_hid 2 2 REQ_GET_REPORT [0x10] (Some [0, 5]) 1) demo_hid_world) = Some (2, Some [7, 5])
   \<and> (\<exists>ifc'. drv (snd (run_state (dchid_cmd 40 demo_hid 2 2 REQ_GET_REPORT [0x10] (Some [0, 5]) 1) demo_hid_world)) = at_iface (drv demo_hid_world) 2 ifc'
       \<and> cmd_idle (iface (drv demo_hid_world) 2) ifc')"
proof -
  have l: "2 < length (ifaces (drv demo_hid_world))" by (simp add: demo_hid_world_def dockchannel.extend_def)
  have s: "demo_hid_world\<lparr>hist := hist demo_hid_world @ [(Up (MutexLock 2), demo_hid (hist demo_hid_world) (Up (MutexLock 2)))],
      drv := at_iface (drv demo_hid_world) 2 demo_started\<rparr> = demo_waiting" "out_flags demo_started = 0x81"
    by (simp_all add: demo_waiting_def demo_hid_def demo_hid_world_def demo_started_def)
  have "wp (dchid_cmd 40 demo_hid 2 2 REQ_GET_REPORT [0x10] (Some [0, 5]) 1) (\<lambda>r _. r = Some (2, Some [7, 5])) demo_hid_world"
    unfolding dchid_cmd_start [OF l] demo_start s using demo_wait by (simp add: wp_def case_prod_beta)
  then obtain w' where run: "run_state (dchid_cmd 40 demo_hid 2 2 REQ_GET_REPORT [0x10] (Some [0, 5]) 1) demo_hid_world = (Some (2, Some [7, 5]), w')"
    by (metis (mono_tags, lifting) wpD prod.collapse)
  from cmd_outcome [OF run l refl] show ?thesis unfolding run fst_conv snd_conv by blast
qed

end
