(* ===== verification/Dchid_Events.thy ===== *)
theory Dchid_Events
  imports Dchid
begin

text \<open>
  The rest of the HID transport, \<open>sources/asahi--drivers__hid__dockchannel-hid__dockchannel-hid.c\<close>: firmware, GPIOs, opening and
  creating interfaces, the events and packets that the coprocessor sends, and the probe.

  Proved: the packet handler implements a specification, \<open>packet_fate\<close>, of what becomes of the bytes that arrived; every entry keeps the
  shape of the state and returns; firmware that is sent lies inside its file; an interface that was started and did
  not become ready cannot be opened again.
\<close>

section \<open>Firmware, GPIOs and opening\<close>

definition fw_ok :: "u8 list \<Rightarrow> bool" where
  "fw_ok fw \<longleftrightarrow>
     (let magic = get_unaligned_le32 fw; version = get_unaligned_le32 (drop 4 fw); hl = unat (get_unaligned_le32 (drop 8 fw));
          dl = unat (get_unaligned_le32 (drop 12 fw)); off = unat (get_unaligned_le32 (drop 16 fw))
      in \<not> (magic \<noteq> FW_MAGIC \<or> version \<noteq> FW_VER \<or> hl < 20 \<or> length fw < hl \<or> length fw < hl + dl \<or> dl \<le> off))"

text \<open>The data of a firmware file. A file shorter than the header is read beyond its end.\<close>

definition firmware_data :: "hid_env \<Rightarrow> nat \<Rightarrow> u8 list \<Rightarrow> (int + u8 list option) hid_prog" where
  "firmware_data E i fw =
     (if length fw < 20 then do { tell E Undefined; return (Inl (- EINVAL)) }
      else if \<not> fw_ok fw then do { tell E ReleaseFirmware; return (Inl (- EINVAL)) }
      else
        let hl = unat (get_unaligned_le32 (drop 8 fw)); dl = unat (get_unaligned_le32 (drop 12 fw));
            off = unat (get_unaligned_le32 (drop 16 fw)); fw_data = take dl (drop hl fw)
        in do {
          r \<leftarrow> ask E (Kmemdup fw_data);
          tell E ReleaseFirmware;
          return (if r = UNull then Inl (- ENOMEM) else Inr (Some (if off \<noteq> 0 then fw_data[off := of_nat i] else fw_data)))
        })"

text \<open>The firmware of an interface: an error, or the bytes (\<open>None\<close> when it needs none).\<close>

definition dchid_get_firmware :: "hid_env \<Rightarrow> nat \<Rightarrow> (int + u8 list option) hid_prog" where
  "dchid_get_firmware E i = do {
     r \<leftarrow> ask E (OfReadString i ''firmware-name'');
     case r of
       UStr fw_name \<Rightarrow> do {
         r \<leftarrow> ask E (RequestFirmware fw_name);
         case r of
           UBytes fw \<Rightarrow> firmware_data E i fw
         | _ \<Rightarrow> return (Inl (if is_err r then uret r else - ENOENT))
       }
     | _ \<Rightarrow> return (Inr None)
   }"

definition dchid_request_gpio :: "hid_env \<Rightarrow> nat \<Rightarrow> int hid_prog" where
  "dchid_request_gpio E i = do {
     ifc \<leftarrow> get_iface i;
     if gpio ifc then return 0
     else do {
       r \<leftarrow> ask E (GpiodGetIndex (take (MAX_GPIO_NAME + 16 - 1) (''apple,'' @ gpio_name ifc)));
       if is_err_or_null r then do { mod_iface i (\<lambda>ifc. ifc\<lparr>gpio := False\<rparr>); return (- 1) }
       else do { mod_iface i (\<lambda>ifc. ifc\<lparr>gpio := True\<rparr>); return 0 }
     }
   }"

definition start_err :: "nat \<Rightarrow> int \<Rightarrow> (int option) hid_prog" where
  "start_err i ret = do { mod_iface i (\<lambda>ifc. ifc\<lparr>starting := False\<rparr>); return (Some ret) }"

definition start_firmware :: "nat \<Rightarrow> hid_consts \<Rightarrow> hid_env \<Rightarrow> nat \<Rightarrow> u8 list option \<Rightarrow> (int option) hid_prog" where
  "start_firmware fuel K E i fw =
     (case fw of
        Some (b # bs) \<Rightarrow>
          and_then (dchid_send_firmware fuel K E i (b # bs)) (\<lambda>ret.
          if ret < 0 then start_err i ret
          else
            and_then (dchid_reset_interface fuel K E i 0) (\<lambda>_.
            and_then (dchid_reset_interface fuel K E i 2) (\<lambda>_.
            return (Some 0))))
      | _ \<Rightarrow> return (Some 0))"

definition dchid_start_interface :: "nat \<Rightarrow> hid_consts \<Rightarrow> hid_env \<Rightarrow> nat \<Rightarrow> (int option) hid_prog" where
  "dchid_start_interface fuel K E i = do {
     ifc \<leftarrow> get_iface i;
     if starting ifc then return (Some (- EINPROGRESS))
     else do {
       mod_iface i (\<lambda>ifc. ifc\<lparr>starting := True\<rparr>);
       r \<leftarrow> dchid_get_firmware E i;
       case r of
         Inl ret \<Rightarrow> start_err i ret
       | Inr fw \<Rightarrow>
           if gpio_id ifc \<noteq> 0 then do {
             ret \<leftarrow> dchid_request_gpio E i;
             if ret < 0 then start_err i ret else start_firmware fuel K E i fw
           }
           else start_firmware fuel K E i fw
     }
   }"

definition dchid_start :: "hid_env \<Rightarrow> nat \<Rightarrow> int hid_prog" where
  "dchid_start E i = do {
     ifc \<leftarrow> get_iface i;
     if keyboard_layout_id ifc \<noteq> 0 then do {
       r \<leftarrow> ask E (DeviceCreateFile i);
       (if uret r \<noteq> 0 then mod_iface i (\<lambda>ifc. ifc\<lparr>keyboard_layout_id := 0\<rparr>) else return ());
       return 0
     }
     else return 0
   }"

definition dchid_stop :: "hid_env \<Rightarrow> nat \<Rightarrow> unit hid_prog" where
  "dchid_stop E i = do {
     ifc \<leftarrow> get_iface i;
     whenM (keyboard_layout_id ifc \<noteq> 0) (tell E (DeviceRemoveFile i))
   }"

definition dchid_open :: "nat \<Rightarrow> hid_consts \<Rightarrow> hid_env \<Rightarrow> nat \<Rightarrow> (int option) hid_prog" where
  "dchid_open fuel K E i = do {
     r \<leftarrow> ask E (ReadyDone i);
     and_then (if uret r = 0 then
         and_then (dchid_start_interface fuel K E i) (\<lambda>ret.
         if ret < 0 then return (Some ret)
         else do {
           r \<leftarrow> ask E (WaitReady i START_TIMEOUT_MS);
           return (Some (if uret r = 0 then - ETIMEDOUT else 0))
         })
       else return (Some 0)) (\<lambda>ret.
     if ret < 0 then return (Some ret)
     else do { mod_iface i (\<lambda>ifc. ifc\<lparr>iopen := True\<rparr>); return (Some 0) })
   }"

definition dchid_close :: "nat \<Rightarrow> unit hid_prog" where
  "dchid_close i = mod_iface i (\<lambda>ifc. ifc\<lparr>iopen := False\<rparr>)"

definition dchid_parse :: "hid_env \<Rightarrow> nat \<Rightarrow> int hid_prog" where
  "dchid_parse E i = do {
     ifc \<leftarrow> get_iface i;
     r \<leftarrow> ask E (HidParseReport i (hid_desc ifc) (hid_desc_len ifc));
     return (uret r)
   }"

text \<open>The result and the buffer.\<close>

definition dchid_get_report_cmd :: "nat \<Rightarrow> hid_consts \<Rightarrow> hid_env \<Rightarrow> nat \<Rightarrow> u8 \<Rightarrow> u8 list \<Rightarrow> nat
    \<Rightarrow> ((int \<times> u8 list option) option) hid_prog" where
  "dchid_get_report_cmd fuel K E i reportnum buf len =
     and_then (dchid_cmd fuel E i (HID_FEATURE_REPORT K) REQ_GET_REPORT [reportnum] (Some buf) len)
       (\<lambda>(ret, b). return (Some (if ret \<le> 0 then ret else ret - 1, b)))"

definition dchid_set_report :: "nat \<Rightarrow> hid_consts \<Rightarrow> hid_env \<Rightarrow> nat \<Rightarrow> u8 list \<Rightarrow> (int option) hid_prog" where
  "dchid_set_report fuel K E i buf =
     and_then (dchid_cmd fuel E i (HID_OUTPUT_REPORT K) REQ_SET_REPORT buf None 0) (\<lambda>(ret, _). return (Some ret))"

datatype reqtype = HID_REQ_GET_REPORT | HID_REQ_SET_REPORT | HID_REQ_OTHER

text \<open>The result and the caller's buffer afterwards.\<close>

definition dchid_raw_request :: "nat \<Rightarrow> hid_consts \<Rightarrow> hid_env \<Rightarrow> nat \<Rightarrow> u8 \<Rightarrow> u8 list \<Rightarrow> u8 \<Rightarrow> reqtype
    \<Rightarrow> ((int \<times> u8 list) option) hid_prog" where
  "dchid_raw_request fuel K E i reportnum buf rtype rq =
     (case rq of
        HID_REQ_GET_REPORT \<Rightarrow>
          and_then (dchid_cmd fuel E i (ucast rtype) REQ_GET_REPORT [reportnum] (Some (tl buf)) (length buf - 1))
            (\<lambda>(ret, b). return (Some (ret, reportnum # (case b of Some b' \<Rightarrow> b' | None \<Rightarrow> tl buf))))
      | HID_REQ_SET_REPORT \<Rightarrow> and_then (dchid_set_report fuel K E i buf) (\<lambda>ret. return (Some (ret, buf)))
      | HID_REQ_OTHER \<Rightarrow> return (Some (- EIO, buf)))"

definition kind_of :: "string option \<Rightarrow> hid_kind" where
  "kind_of n = (if n = Some ''multi-touch'' then HID_TYPE_SPI_MOUSE else if n = Some ''keyboard'' then HID_TYPE_SPI_KEYBOARD else HID_TYPE_OTHER)"

definition country_code :: "hid_env \<Rightarrow> nat \<Rightarrow> u32 hid_prog" where
  "country_code E i = do {
     r \<leftarrow> ask E (OfReadPropU32 i ''hid-country-code'');
     l \<leftarrow> ask E (OfReadPropU32 i ''apple,keyboard-layout-id'');
     (case l of UVal v \<Rightarrow> mod_iface i (\<lambda>ifc. ifc\<lparr>keyboard_layout_id := v\<rparr>) | _ \<Rightarrow> return ());
     return (case r of UVal v \<Rightarrow> v | _ \<Rightarrow> 0)
   }"

definition dchid_create_interface_work :: "nat \<Rightarrow> hid_consts \<Rightarrow> hid_env \<Rightarrow> nat \<Rightarrow> (unit option) hid_prog" where
  "dchid_create_interface_work fuel K E i = do {
     ifc \<leftarrow> get_iface i;
     if hid ifc then return (Some ())
     else
       and_then (dchid_enable_interface fuel K E i) (\<lambda>ret.
       if ret < 0 then return (Some ())
       else do {
         mod_iface i (\<lambda>ifc. ifc\<lparr>deferred := False\<rparr>);
         r \<leftarrow> ask E HidAllocateDevice;
         if is_err r then return (Some ())
         else if iname ifc = None then do { tell E Undefined; return (Some ()) }
         else do {
           s \<leftarrow> getd;
           c \<leftarrow> (if iname ifc = Some ''keyboard'' then country_code E i else return 0);
           mod_iface i (\<lambda>ifc. ifc\<lparr>hid := True\<rparr>);
           r \<leftarrow> ask E (HidAddDevice i \<lparr>hid_name = iname ifc, vendor = get_le16 (device_id s) 1, product = get_le16 (device_id s) 3,
             version = get_le16 (device_id s) 5, uniq = takeWhile (\<lambda>b. b \<noteq> 0) (take 63 (serial s)), hid_type = kind_of (iname ifc), country = c\<rparr>);
           if uret r < 0 then do {
             mod_iface i (\<lambda>ifc. ifc\<lparr>hid := False\<rparr>);
             tell E (HidDestroyDevice i);
             return (Some ())
           }
           else return (Some ())
         }
       })
   }"

definition dchid_create_interface :: "hid_env \<Rightarrow> nat \<Rightarrow> int hid_prog" where
  "dchid_create_interface E i = do {
     ifc \<leftarrow> get_iface i;
     if creating ifc then return (- EBUSY)
     else do {
       mod_iface i (\<lambda>ifc. ifc\<lparr>creating := True\<rparr>);
       r \<leftarrow> ask E (QueueCreate i);
       return (uret r)
     }
   }"

section \<open>Events and packets\<close>

text \<open>
  A message is the list of bytes from its first to the end of its allocation, and its length. A C string in it that has no
  end inside the allocation is read beyond it.
\<close>

definition cstr :: "u8 list \<Rightarrow> string option" where
  "cstr p = (if 0 \<in> set p then Some (map (char_of \<circ> unat) (takeWhile (\<lambda>b. b \<noteq> 0) p)) else None)"

definition dchid_handle_descriptor :: "hid_env \<Rightarrow> nat \<Rightarrow> u8 list \<Rightarrow> unit hid_prog" where
  "dchid_handle_descriptor E i desc = do {
     ifc \<leftarrow> get_iface i;
     if hid ifc then return ()
     else do {
       r \<leftarrow> ask E (Kmemdup desc);
       if r = UNull then mod_iface i (\<lambda>ifc. ifc\<lparr>hid_desc := None\<rparr>)
       else mod_iface i (\<lambda>ifc. ifc\<lparr>hid_desc := Some desc, hid_desc_len := length desc\<rparr>)
     }
   }"

definition gpio_request :: "hid_env \<Rightarrow> nat \<Rightarrow> u8 list \<Rightarrow> nat \<Rightarrow> unit hid_prog" where
  "gpio_request E i data len = do {
     ifc \<leftarrow> get_iface i;
     if len < 36 then return ()
     else if gpio_id ifc \<noteq> 0 then return ()
     else do {
       mod_iface i (\<lambda>ifc. ifc\<lparr>gpio_name := map (char_of \<circ> unat) (takeWhile (\<lambda>b. b \<noteq> 0) (take (MAX_GPIO_NAME - 1) (drop 4 data)))\<rparr>);
       mod_iface i (\<lambda>ifc. ifc\<lparr>gpio_id := int (unat (get_le16 data 2))\<rparr>)
     }
   }"

text \<open>The blocks of an init event; \<open>len\<close> bytes of \<open>data\<close> belong to it.\<close>

function (sequential) init_blocks :: "hid_env \<Rightarrow> nat \<Rightarrow> u8 list \<Rightarrow> nat \<Rightarrow> unit hid_prog" where
  "init_blocks E i data len =
     (if len < 4 then return ()
      else
        let type = get_le16 data 0; n = unat (get_le16 data 2); data = drop 4 data; len = len - 4
        in if len < n then return ()
           else do {
             (if type = INIT_HID_DESCRIPTOR then dchid_handle_descriptor E i (take n data)
              else if type = INIT_GPIO_REQUEST then gpio_request E i data len
              else return ());
             if type = INIT_TERMINATOR then return () else init_blocks E i (drop n data) (len - n)
           })"
  by pat_completeness auto
termination
  by (relation "measure (\<lambda>(E, i, data, len). len)") auto

declare init_blocks.simps [simp del]

definition strcmp_name :: "hid_env \<Rightarrow> nat \<Rightarrow> string \<Rightarrow> bool hid_prog" where
  "strcmp_name E i s = do {
     ifc \<leftarrow> get_iface i;
     whenM (iname ifc = None) (tell E Undefined);
     return (iname ifc = Some s)
   }"

definition dchid_handle_init :: "hid_env \<Rightarrow> u8 list \<Rightarrow> nat \<Rightarrow> unit hid_prog" where
  "dchid_handle_init E data len =
     (if len < 22 then return ()
      else do {
        r \<leftarrow> dchid_get_interface E (unat (data ! 3)) (cstr (drop 4 data));
        case r of
          None \<Rightarrow> return ()
        | Some i \<Rightarrow> do {
            init_blocks E i (drop 22 data) (len - 22);
            if data ! 20 \<noteq> 0 then return ()
            else do {
              s \<leftarrow> getd;
              stm \<leftarrow> (if id_ready s then return True else strcmp_name E i ''stm'');
              if stm then do { dchid_create_interface E i; return () }
              else mod_iface i (\<lambda>ifc. ifc\<lparr>deferred := True\<rparr>)
            }
          }
      })"

text \<open>
  What the coprocessor's own interface reports when it is ready. The comparison of the result with the size of the
  identity is one of unsigned numbers: a negative result is not less.
\<close>

definition stm_ready :: "nat \<Rightarrow> hid_consts \<Rightarrow> hid_env \<Rightarrow> nat \<Rightarrow> (unit option) hid_prog" where
  "stm_ready fuel K E i = do {
     s \<leftarrow> getd;
     and_then (dchid_get_report_cmd fuel K E i STM_REPORT_ID (device_id s) 11) (\<lambda>(ret, b). do {
     modd (\<lambda>s. s\<lparr>device_id := (case b of Some b' \<Rightarrow> b' | None \<Rightarrow> device_id s)\<rparr>);
     (if 0 \<le> ret \<and> ret < 11 then
        modd (\<lambda>s. s\<lparr>device_id := [0] @ put_le16 (HOST_VENDOR_ID_APPLE K) @ replicate 8 0\<rparr>)
      else return ());
     s \<leftarrow> getd;
     and_then (dchid_get_report_cmd fuel K E i STM_REPORT_SERIAL (serial s) 63) (\<lambda>(ret, b). do {
     modd (\<lambda>s. s\<lparr>serial := (case b of Some b' \<Rightarrow> b' | None \<Rightarrow> serial s)\<rparr>);
     (if ret < 0 then modd (\<lambda>s. s\<lparr>serial := (serial s)[0 := 0]\<rparr>) else return ());
     modd (\<lambda>s. s\<lparr>id_ready := True\<rparr>);
     s \<leftarrow> getd;
     for_each (filter (\<lambda>j. ifaces s ! j \<noteq> None \<and> deferred (iface s j)) [0..<MAX_INTERFACES])
       (\<lambda>j. do { dchid_create_interface E j; return () });
     return (Some ())
     })})
   }"

definition dchid_handle_ready :: "nat \<Rightarrow> hid_consts \<Rightarrow> hid_env \<Rightarrow> u8 list \<Rightarrow> nat \<Rightarrow> (unit option) hid_prog" where
  "dchid_handle_ready fuel K E data len =
     (if len < 2 then return (Some ())
      else
        let i = unat (data ! 1)
        in if MAX_INTERFACES \<le> i then return (Some ())
           else do {
             s \<leftarrow> getd;
             if ifaces s ! i = None then return (Some ())
             else do {
               tell E (CompleteAllReady i);
               stm \<leftarrow> strcmp_name E i ''stm'';
               if stm then stm_ready fuel K E i else return (Some ())
             }
           })"

definition gpio_pulse :: "hid_env \<Rightarrow> nat \<Rightarrow> unit hid_prog" where
  "gpio_pulse E i = do {
     tell E (GpiodSet i True);
     tell E (Msleep 10);
     tell E (GpiodSet i False)
   }"

text \<open>The command itself; the result is the code to acknowledge it with.\<close>

definition gpio_command :: "hid_env \<Rightarrow> u8 list \<Rightarrow> u32 hid_prog" where
  "gpio_command E data = do {
     let i = unat (data ! 1);
     s \<leftarrow> getd;
     if MAX_INTERFACES \<le> i \<or> ifaces s ! i = None then return 0xe000f00d
     else do {
       ret \<leftarrow> dchid_request_gpio E i;
       ifc \<leftarrow> get_iface i;
       if ret < 0 then return 0xe000f00d
       else if \<not> gpio ifc \<or> int (unat (data ! 2)) \<noteq> gpio_id ifc then return 0xe000f00d
       else if data ! 4 = 3 then do { gpio_pulse E i; return 0 }
       else return 0xe000f00d
     }
   }"

definition dchid_handle_gpio :: "nat \<Rightarrow> hid_consts \<Rightarrow> hid_env \<Rightarrow> u8 list \<Rightarrow> nat \<Rightarrow> (unit option) hid_prog" where
  "dchid_handle_gpio fuel K E data len =
     (if len < 5 then return (Some ())
      else do {
        code \<leftarrow> gpio_command E data;
        r \<leftarrow> ask E (Kzalloc (5 + len));
        if r = UNull then return (Some ())
        else
          and_then (dchid_comm_cmd fuel K E ([CMD_ACK_GPIO_CMD] @ put_unaligned_le32 code @ take len data)) (\<lambda>_. do {
          tell E KfreeAck;
          return (Some ())
          })
      })"

definition dchid_handle_event :: "nat \<Rightarrow> hid_consts \<Rightarrow> hid_env \<Rightarrow> u8 list \<Rightarrow> nat \<Rightarrow> (unit option) hid_prog" where
  "dchid_handle_event fuel K E data len =
     (case data of
        [] \<Rightarrow> do { tell E Undefined; return (Some ()) }
      | p # _ \<Rightarrow>
          if p = EVENT_INIT then do { dchid_handle_init E data len; return (Some ()) }
          else if p = EVENT_READY then dchid_handle_ready fuel K E data len
          else if p = EVENT_GPIO_CMD then dchid_handle_gpio fuel K E data len
          else return (Some ()))"

definition dchid_handle_report :: "hid_env \<Rightarrow> nat \<Rightarrow> u8 list \<Rightarrow> unit hid_prog" where
  "dchid_handle_report E i data = do {
     ifc \<leftarrow> get_iface i;
     if \<not> hid ifc then return ()
     else if \<not> iopen ifc then return ()
     else tell E (HidInputReport i data)
   }"

text \<open>The work of a packet that was queued: \<open>data\<close> is the copy of its bytes, as many as the header says.\<close>

definition dchid_packet_work :: "nat \<Rightarrow> hid_consts \<Rightarrow> hid_env \<Rightarrow> nat \<Rightarrow> dchid_hdr \<Rightarrow> u8 list \<Rightarrow> (unit option) hid_prog" where
  "dchid_packet_work fuel K E i hdr data =
     (if length data < 8 then do { tell E Undefined; return (Some ()) }
      else
        let shdr = get_subhdr data; n = unat (slength shdr); payload = drop 8 data
        in if unat (hlength hdr) < n + 8 then return (Some ())
           else
             and_then (if FIELD_GET FLAGS_GROUP (ucast (sflags shdr)) = HID_INPUT_REPORT K then
                 if unat (hiface hdr) = IFACE_COMM then dchid_handle_event fuel K E payload n
                 else do { dchid_handle_report E i (take n payload); return (Some ()) }
               else return (Some ())) (\<lambda>_. do {
             tell E KfreeWork;
             return (Some ())
             }))"

definition rearm :: "hid_env \<Rightarrow> (unit option) hid_prog" where
  "rearm E = do { dockchannel_await E 8; return (Some ()) }"

text \<open>A packet whose bytes have arrived: to the interface's acknowledgement or to its work queue.\<close>

definition dispatch_packet :: "hid_env \<Rightarrow> dchid_hdr \<Rightarrow> (unit option) hid_prog" where
  "dispatch_packet E hdr = do {
     s \<leftarrow> getd;
     let i = unat (hiface hdr);
     if MAX_INTERFACES \<le> i then do { tell E Undefined; return (Some ()) }
     else if ifaces s ! i = None then rearm E
     else if channel hdr = DCHID_CHANNEL_CMD then do { dchid_handle_ack i hdr (pkt_buf s); rearm E }
     else do {
       r \<leftarrow> ask E (Kzalloc (unat (hlength hdr)));
       if r = UNull then return (Some ())
       else do {
         tell E (QueuePacket i hdr (take (unat (hlength hdr)) (pkt_buf s)));
         rearm E
       }
     }
   }"

definition dchid_handle_packet :: "nat \<Rightarrow> hid_env \<Rightarrow> (unit option) hid_prog" where
  "dchid_handle_packet fuel E =
     and_then (dockchannel_recv fuel E 8) (\<lambda>(ret, h).
     if ret \<noteq> 8 then return (Some ())
     else
       let hdr = get_hdr h; n = unat (hlength hdr) + 4
       in if hdr_len hdr \<noteq> 8 then rearm E
          else
            and_then (dockchannel_recv fuel E n) (\<lambda>(ret, body). do {
            modd (\<lambda>s. s\<lparr>pkt_buf := body @ drop (length body) (pkt_buf s)\<rparr>);
            if ret \<noteq> int n then rearm E
            else if \<not> packet_ok h body then rearm E
            else dispatch_packet E hdr
            }))"

section \<open>Probe\<close>

fun probe_gpios :: "hid_env \<Rightarrow> string list \<Rightarrow> bool hid_prog" where
  "probe_gpios E [] = return True"
| "probe_gpios E (p # ps) =
     (if length p < 12 \<or> take 6 p \<noteq> ''apple,'' \<or> drop (length p - 6) p \<noteq> ''-gpios'' then probe_gpios E ps
      else do {
        r \<leftarrow> ask E (FwnodeGpiodGet p);
        if is_err_or_null r then
          if uret r = - EPROBE_DEFER then do { tell E OfNodePut; return False } else probe_gpios E ps
        else do { tell E (GpiodPut p); probe_gpios E ps }
      })"

fun probe_children :: "hid_env \<Rightarrow> string list list \<Rightarrow> bool hid_prog" where
  "probe_children E [] = return True"
| "probe_children E (c # cs) = do {
     ok \<leftarrow> probe_gpios E c;
     if ok then probe_children E cs else return False
   }"

definition probe_start :: "hid_env \<Rightarrow> int hid_prog" where
  "probe_start E = do {
     ret \<leftarrow> dockchannel_init E;
     if ret < 0 then return ret
     else do {
       r \<leftarrow> ask E (AllocOrderedWq ''dchid-new'');
       if r = UNull then return (- ENOMEM)
       else do {
         r \<leftarrow> dchid_get_interface E IFACE_COMM (Some ''comm'');
         if r = None then return (- EIO)
         else do { dockchannel_await E 8; return 0 }
       }
     }
   }"

definition probe_helper :: "hid_env \<Rightarrow> int hid_prog" where
  "probe_helper E = do {
     r \<leftarrow> ask E (OfParsePhandle ''apple,helper-cpu'');
     if r = UNull then return (- EINVAL)
     else do {
       r \<leftarrow> ask E OfFindDevice;
       tell E OfNodePut;
       if r = UNull then return (- EINVAL)
       else do {
         r \<leftarrow> ask E DeviceLinkAdd;
         tell E PutDevice;
         if r = UNull then return (- EINVAL)
         else do {
           r \<leftarrow> ask E SupplierBound;
           if uret r = 0 then return (- EPROBE_DEFER) else probe_start E
         }
       }
     }
   }"

definition dockchannel_hid_probe :: "hid_env \<Rightarrow> int hid_prog" where
  "dockchannel_hid_probe E = do {
     r \<leftarrow> ask E DmaSetMask;
     if uret r \<noteq> 0 then return (uret r)
     else do {
       r \<leftarrow> ask E DevmKzallocDchid;
       if r = UNull then return (- ENOMEM)
       else do {
         modd (\<lambda>s. s\<lparr>ifaces := replicate MAX_INTERFACES None, device_id := replicate 11 0, serial := replicate 64 0,
           pkt_buf := replicate MAX_PKT_SIZE 0\<rparr>);
         stm \<leftarrow> ask E (GetNamedChildNode ''stm'');
         av \<leftarrow> (if stm = UNull then return UNull else ask E FwnodeAvailable);
         modd (\<lambda>s. s\<lparr>id_ready := (stm = UNull \<or> uret av = 0)\<rparr>);
         tell E FwnodePut;
         t \<leftarrow> ask E ChildProperties;
         ok \<leftarrow> probe_children E (case t of UTree cs \<Rightarrow> cs | _ \<Rightarrow> []);
         if \<not> ok then return (- EPROBE_DEFER) else probe_helper E
       }
     }
   }"

section \<open>What becomes of a packet\<close>

text \<open>
  The specification of the receive path: the bytes taken from the channel and the interfaces decide what happens to a packet.
  It is a function of both, and says nothing of how the bytes are read.
\<close>

datatype fate = NoHeader | Dropped | OutOfRange | Acked nat dchid_hdr | Queued nat dchid_hdr

definition packet_fate :: "dockchannel_hid \<Rightarrow> u8 list \<Rightarrow> fate" where
  "packet_fate s bytes =
     (let hdr = get_hdr (take 8 bytes); body = drop 8 bytes; i = unat (hiface hdr)
      in if length bytes < 8 then NoHeader
         else if hdr_len hdr \<noteq> 8 \<or> length body < unat (hlength hdr) + 4 \<or> \<not> packet_ok (take 8 bytes) body then Dropped
         else if MAX_INTERFACES \<le> i then OutOfRange
         else if ifaces s ! i = None then Dropped
         else if channel hdr = DCHID_CHANNEL_CMD then Acked i hdr
         else Queued i hdr)"

definition buffered :: "dockchannel_hid \<Rightarrow> u8 list \<Rightarrow> dockchannel_hid" where
  "buffered s body = s\<lparr>pkt_buf := body @ drop (length body) (pkt_buf s)\<rparr>"

definition armed :: "dockchannel_hid \<Rightarrow> dockchannel_hid" where
  "armed s = s\<lparr>callback := True, awaiting := True\<rparr>"

definition packet_post :: "dockchannel_hid \<Rightarrow> u8 list \<Rightarrow> (hid_req \<times> hid_resp dock_resp) list \<Rightarrow> dockchannel_hid \<Rightarrow> bool" where
  "packet_post s bytes calls s' \<longleftrightarrow>
     (let b = buffered s (drop 8 bytes)
      in case packet_fate s bytes of
           NoHeader \<Rightarrow> s' = s \<and> calls = []
         | Dropped \<Rightarrow> s' = armed b \<and> calls = []
         | OutOfRange \<Rightarrow> \<exists>r. calls = [(Undefined, r)]
         | Acked i hdr \<Rightarrow> s' = armed (at_iface b i (ack_step (iface s i) (hdr, pkt_buf b))) \<and> calls = []
         | Queued i hdr \<Rightarrow> \<exists>r. if up_of r = UNull then s' = b \<and> calls = [(Kzalloc (unat (hlength hdr)), r)]
             else s' = armed b \<and> (\<exists>r'. calls = [(Kzalloc (unat (hlength hdr)), r), (QueuePacket i hdr (take (unat (hlength hdr)) (drop 8 bytes)), r')]))"

definition packet_Q :: "hid_world \<Rightarrow> unit option \<Rightarrow> hid_world \<Rightarrow> bool" where
  "packet_Q w r w' \<longleftrightarrow> r = None \<or> (\<exists>new. hist w' = hist w @ new \<and> sent new = [] \<and> packet_post (drv w) (received new) (client new) (drv w'))"

lemma packet_QI:
  "hist w' = hist w @ new \<Longrightarrow> sent new = [] \<Longrightarrow> packet_post (drv w) (received new) (client new) (drv w') \<Longrightarrow> packet_Q w r w'"
  unfolding packet_Q_def by blast

lemma rearm_then:
  "hist v = hist w @ new \<Longrightarrow> sent new = [] \<Longrightarrow> packet_post (drv w) (received new) (client new) (armed (drv v)) \<Longrightarrow> wp (rearm E) (packet_Q w) v"
  by (simp add: rearm_def dockchannel_await_def wp_simps Let_def) (rule packet_QI, simp, simp_all add: armed_def)

lemma dropped_post: "packet_fate s bytes = Dropped \<Longrightarrow> packet_post s bytes [] (armed (buffered s (drop 8 bytes)))"
  by (simp add: packet_post_def)

lemma dispatch_post:
  assumes h: "hist v = hist w @ new" "sent new = []" "client new = []" "drv v = buffered (drv w) body"
    and b: "received new = h @ body" "length h = 8" "hdr_len (get_hdr h) = 8" "length body = unat (hlength (get_hdr h)) + 4" "packet_ok h body"
    and l: "length (ifaces (drv w)) = MAX_INTERFACES"
  shows "wp (dispatch_packet E (get_hdr h)) (packet_Q w) v"
proof -
  let ?hdr = "get_hdr h"
  let ?i = "unat (hiface ?hdr)"
  let ?s = "drv w"
  have f: "packet_fate ?s (received new) = (if MAX_INTERFACES \<le> ?i then OutOfRange else if ifaces ?s ! ?i = None then Dropped
      else if channel ?hdr = DCHID_CHANNEL_CMD then Acked ?i ?hdr else Queued ?i ?hdr)"
    using b by (simp add: packet_fate_def Let_def)
  have d: "drop 8 (received new) = body" using b by simp
  have ib: "ifaces (buffered ?s body) = ifaces ?s" by (simp add: buffered_def)
  consider (out) "MAX_INTERFACES \<le> ?i" | (unknown) "\<not> MAX_INTERFACES \<le> ?i" "ifaces ?s ! ?i = None"
    | (ack) "\<not> MAX_INTERFACES \<le> ?i" "ifaces ?s ! ?i \<noteq> None" "channel ?hdr = DCHID_CHANNEL_CMD"
    | (report) "\<not> MAX_INTERFACES \<le> ?i" "ifaces ?s ! ?i \<noteq> None" "channel ?hdr \<noteq> DCHID_CHANNEL_CMD" by blast
  then show ?thesis
  proof cases
    case out
    then show ?thesis
      unfolding dispatch_packet_def by (simp add: wp_simps Let_def) (rule packet_QI, simp add: h(1), use out h in \<open>simp_all add: packet_post_def f\<close>)
  next
    case unknown
    then have "wp (rearm E) (packet_Q w) v"
      using h d dropped_post [of ?s "received new"] by (intro rearm_then [OF h(1,2)]) (simp add: f)
    with unknown show ?thesis unfolding dispatch_packet_def by (simp add: wp_simps Let_def h(4) ib)
  next
    case ack
    have i: "?i < length (ifaces (buffered ?s body))" using ack(1) l by (simp add: ib)
    have e: "at_iface (buffered ?s body) ?i (iface ?s ?i) = buffered ?s body"
    proof -
      have "(ifaces ?s)[?i := Some (the (ifaces ?s ! ?i))] = ifaces ?s" using ack(2) by simp
      then show ?thesis by (simp add: at_iface_def buffered_def iface_def)
    qed
    have "wp (dchid_handle_ack ?i ?hdr (pkt_buf (buffered ?s body))) (\<lambda>_. wp (rearm E) (packet_Q w)) v"
    proof (rule wp_mono [OF handle_ack_step [OF i]])
      show "drv v = at_iface (buffered ?s body) ?i (iface ?s ?i)" by (simp add: e h(4))
      fix a and v2 :: hid_world
      assume "hist v2 = hist v \<and> drv v2 = at_iface (buffered ?s body) ?i (ack_step (iface ?s ?i) (?hdr, pkt_buf (buffered ?s body)))"
      then show "wp (rearm E) (packet_Q w) v2"
        using h ack d by (intro rearm_then [where new = new]) (auto simp: packet_post_def f)
    qed
    with ack show ?thesis unfolding dispatch_packet_def by (auto simp: wp_simps Let_def h(4) ib)
  next
    case report
    have t: "take (unat (hlength ?hdr)) (pkt_buf (buffered ?s body)) = take (unat (hlength ?hdr)) body"
      using b(4) by (simp add: buffered_def)
    have a: "E (hist v) (Up (Kzalloc (unat (hlength ?hdr)))) = r \<Longrightarrow> wp (if up_of r = UNull then return (Some ())
        else State_Monad.bind (tell E (QueuePacket ?i ?hdr (take (unat (hlength ?hdr)) (pkt_buf (buffered ?s body))))) (\<lambda>_. rearm E)) (packet_Q w)
        (v\<lparr>hist := hist v @ [(Up (Kzalloc (unat (hlength ?hdr))), r)]\<rparr>)" for r
    proof (rule wp_ifI)
      assume "up_of r = UNull"
      then show "wp (return (Some ())) (packet_Q w) (v\<lparr>hist := hist v @ [(Up (Kzalloc (unat (hlength ?hdr))), r)]\<rparr>)"
        unfolding wp_return by (intro packet_QI [where new = "new @ [(Up (Kzalloc (unat (hlength ?hdr))), r)]"]) (use h report d in \<open>auto simp: packet_post_def f\<close>)
    next
      assume n: "up_of r \<noteq> UNull"
      show "wp (State_Monad.bind (tell E (QueuePacket ?i ?hdr (take (unat (hlength ?hdr)) (pkt_buf (buffered ?s body))))) (\<lambda>_. rearm E))
          (packet_Q w) (v\<lparr>hist := hist v @ [(Up (Kzalloc (unat (hlength ?hdr))), r)]\<rparr>)"
        unfolding wp_bind wp_tell t by (rule rearm_then, simp add: h(1)) (use n h report d in \<open>auto simp: packet_post_def f\<close>)
    qed
    from report a [OF refl, folded h(4)] show ?thesis
      unfolding dispatch_packet_def by (auto simp: wp_bind wp_getd wp_ask Let_def h(4) ib split del: if_split)
  qed
qed

lemma handle_packet_post:
  assumes l: "length (ifaces (drv w)) = MAX_INTERFACES"
  shows "wp (dchid_handle_packet fuel E) (packet_Q w) w"
  unfolding dchid_handle_packet_def
proof (rule dock.recv_then, goal_cases)
  case (1 w1 n1)
  let ?h = "received n1"
  let ?n = "unat (hlength (get_hdr ?h)) + 4"
  have "wp (rearm E) (packet_Q w) w1" if "hdr_len (get_hdr ?h) \<noteq> 8"
    using 1 that dropped_post [of "drv w" ?h] by (intro rearm_then [OF 1(1)]) (simp_all add: packet_fate_def buffered_def)
  moreover have "wp (and_then (dockchannel_recv fuel E ?n) (\<lambda>(ret, body). State_Monad.bind
      (modd (\<lambda>s. s\<lparr>pkt_buf := body @ drop (length body) (pkt_buf s)\<rparr>))
      (\<lambda>_. if ret \<noteq> int ?n then rearm E else if \<not> packet_ok ?h body then rearm E else dispatch_packet E (get_hdr ?h)))) (packet_Q w) w1"
    if "hdr_len (get_hdr ?h) = 8"
  proof (rule dock.recv_then, goal_cases)
    case (1 w2 n2)
    let ?v = "w2\<lparr>drv := buffered (drv w) (received n2)\<rparr>"
    have h: "hist ?v = hist w @ (n1 @ n2)" "sent (n1 @ n2) = []" "client (n1 @ n2) = []" "received (n1 @ n2) = ?h @ received n2"
      using 1 \<open>hist w1 = hist w @ n1\<close> \<open>sent n1 = []\<close> \<open>client n1 = []\<close> by simp_all
    have "wp (rearm E) (packet_Q w) ?v" if "\<not> packet_ok ?h (received n2)"
      using h that \<open>length ?h = 8\<close> \<open>hdr_len (get_hdr ?h) = 8\<close> dropped_post [of "drv w" "received (n1 @ n2)"]
      by (intro rearm_then [OF h(1,2)]) (simp add: packet_fate_def)
    moreover have "wp (dispatch_packet E (get_hdr ?h)) (packet_Q w) ?v" if "packet_ok ?h (received n2)"
      using 1 that \<open>length ?h = 8\<close> \<open>hdr_len (get_hdr ?h) = 8\<close> by (intro dispatch_post [OF h(1-3) _ h(4)]) (simp_all add: l)
    ultimately show ?case
      using 1 \<open>drv w1 = drv w\<close> by (simp add: wp_bind wp_modd buffered_def)
  next
    case (2 w2 n2)
    let ?v = "w2\<lparr>drv := buffered (drv w) (received n2)\<rparr>"
    have h: "hist ?v = hist w @ (n1 @ n2)" "sent (n1 @ n2) = []" "client (n1 @ n2) = []" "received (n1 @ n2) = ?h @ received n2"
      using 2 \<open>hist w1 = hist w @ n1\<close> \<open>sent n1 = []\<close> \<open>client n1 = []\<close> by simp_all
    have "wp (rearm E) (packet_Q w) ?v"
      using h 2 \<open>length ?h = 8\<close> dropped_post [of "drv w" "received (n1 @ n2)"]
      by (intro rearm_then [OF h(1,2)]) (simp add: packet_fate_def)
    moreover have "- ETIMEDOUT \<noteq> int ?n" by linarith
    ultimately show ?case using 2 \<open>drv w1 = drv w\<close> by (simp only: prod.case wp_bind wp_modd buffered_def simp_thms if_True)
  qed (simp add: packet_Q_def)
  ultimately show ?case by (simp add: Let_def)
next
  case (2 w1 n1)
  then show ?case by (simp add: wp_return) (rule packet_QI, auto simp: packet_post_def packet_fate_def)
qed (simp add: packet_Q_def)

section \<open>The shape of the state\<close>

text \<open>
  The arrays of the driver have the lengths that the code indexes them with, and the interfaces of \<open>D\<close>, and the coprocessor's own, exist.
\<close>

definition hid_wf :: "nat set \<Rightarrow> dockchannel_hid \<Rightarrow> bool" where
  "hid_wf D s \<longleftrightarrow> length (ifaces s) = MAX_INTERFACES \<and> length (device_id s) = 11 \<and> length (serial s) = 64
     \<and> length (pkt_buf s) = MAX_PKT_SIZE \<and> (\<forall>i \<in> insert IFACE_COMM D. ifaces s ! i \<noteq> None)"

text \<open>What is handed over while a command waits is the packet buffer.\<close>

definition acks_full :: "hid_env \<Rightarrow> bool" where
  "acks_full E \<longleftrightarrow> (\<forall>h i t. \<forall>p \<in> set (acks_of (up_of (E h (Up (WaitOut i t))))). length (snd p) = MAX_PKT_SIZE)"

lemma update_present: "xs ! j = Some y \<Longrightarrow> \<exists>y. (xs[i := Some v]) ! j = Some y"
  by (cases "i < length xs"; cases "i = j") (auto simp: not_less list_update_beyond)

lemma hid_wf_at: "hid_wf D s \<Longrightarrow> hid_wf D (at_iface s i ifc)"
  unfolding hid_wf_def at_iface_def by (auto intro: update_present)

lemma maintains_mod_iface [maintains_intros]: "maintains (hid_wf D) (mod_iface i f)"
  by (rule maintainsI) (simp add: wp_mod_iface hid_wf_at)

lemma maintains_get_iface [maintains_intros]: "maintains I (get_iface i)"
  by (rule maintainsI) (simp add: wp_get_iface)

lemma maintains_ask [maintains_intros]: "maintains I (ask E q)"
  by (rule maintainsI) (simp add: wp_ask)

lemma maintains_tell [maintains_intros]: "maintains I (tell E q)"
  by (rule maintainsI) (simp add: wp_tell)

lemma maintains_and_then [maintains_intros]: "maintains I m \<Longrightarrow> (\<And>x. maintains I (k x)) \<Longrightarrow> maintains I (and_then m k)"
  unfolding and_then_def by (intro maintains_intros)

lemma maintains_await [maintains_intros]: "maintains (hid_wf D) (dockchannel_await E n)"
  unfolding dockchannel_await_def by (intro maintains_intros maintains_modd) (simp_all add: hid_wf_def)

lemma maintains_rearm [maintains_intros]: "maintains (hid_wf D) (rearm E)"
  unfolding rearm_def by (intro maintains_intros)

lemma maintains_recv [maintains_intros]: "maintains I (dockchannel_recv fuel E n)"
  by (rule maintainsI, rule wp_mono [OF dockchannel_recv_result]) auto

text \<open>A command and the length of the buffer that it fills.\<close>

lemma reply_length:
  assumes "acks_full E" and "resp = E h (Up (WaitOut i t))" and "(ret, b) = cmd_reply st (acks_of (up_of resp))"
    and "resp_buf st = Some buf" and "resp_size st \<le> length buf"
  shows "\<exists>b'. b = Some b' \<and> length b' = length buf"
proof (cases "find (matches st) (acks_of (up_of resp))")
  case None
  then show ?thesis using assms by (simp add: cmd_reply_def)
next
  case (Some p)
  then have p: "p \<in> set (acks_of (up_of resp))" "matches st p" by (auto simp: find_Some_iff)
  then have l: "length (snd p) = MAX_PKT_SIZE" using assms(1,2) unfolding acks_full_def by blast
  have "unat (slength (get_subhdr (snd p))) + 8 \<le> unat (hlength (fst p))" using p(2) by (simp add: matches_def Let_def)
  moreover have "unat (hlength (fst p)) < 2 ^ 16" using unsigned_less [of "hlength (fst p)"] by simp
  ultimately show ?thesis using Some assms(3-5) l by (auto simp: cmd_reply_def Let_def fill_def MAX_PKT_SIZE_def)
qed

lemma cmd_result:
  assumes "acks_full E" and "i < MAX_INTERFACES" and "hid_wf D (drv w)"
  shows "wp (dchid_cmd fuel E i type req data rbuf rsize) (\<lambda>r w'. hid_wf D (drv w') \<and> device_id (drv w') = device_id (drv w) \<and> serial (drv w') = serial (drv w)
    \<and> (\<forall>ret b buf. r = Some (ret, b) \<and> rbuf = Some buf \<and> rsize \<le> length buf \<longrightarrow> (\<exists>b'. b = Some b' \<and> length b' = length buf))) w"
proof -
  let ?st = "cmd_started (iface (drv w) i) type req data rbuf rsize"
  have i: "i < length (ifaces (drv w))" using assms(2,3) by (simp add: hid_wf_def)
  show ?thesis
  proof (rule wp_mono [OF dchid_cmd_post [OF i]], elim exE conjE)
    fix r new and w' :: hid_world
    assume p: "cmd_post E i (frame ?st i (out_flags ?st) data) ?st (drv w) r (drv w') new"
    then obtain ifc' where d: "drv w' = at_iface (drv w) i ifc'" by (cases r) (auto simp: cmd_post_def)
    have "\<exists>b'. b = Some b' \<and> length b' = length buf" if "r = Some (ret, b)" "rbuf = Some buf" "rsize \<le> length buf" for ret b buf
    proof -
      have s: "resp_buf ?st = Some buf" "resp_size ?st \<le> length buf" using that by (simp_all add: cmd_started_def)
      from p that(1) consider "b = resp_buf ?st"
        | resp h where "resp = E h (Up (WaitOut i COMMAND_TIMEOUT_MS))" "(ret, b) = cmd_reply ?st (acks_of (up_of resp))"
        unfolding cmd_post_def by auto
      then show ?thesis by cases (use s reply_length [OF assms(1) _ _ s] in auto)
    qed
    then show "hid_wf D (drv w') \<and> device_id (drv w') = device_id (drv w) \<and> serial (drv w') = serial (drv w)
      \<and> (\<forall>ret b buf. r = Some (ret, b) \<and> rbuf = Some buf \<and> rsize \<le> length buf \<longrightarrow> (\<exists>b'. b = Some b' \<and> length b' = length buf))"
      using d hid_wf_at [OF assms(3)] by (auto simp: at_iface_def)
  qed
qed

lemma maintains_cmd [maintains_intros]: "acks_full E \<Longrightarrow> i < MAX_INTERFACES \<Longrightarrow> maintains (hid_wf D) (dchid_cmd fuel E i type req data rbuf rsize)"
  by (rule maintainsI, rule wp_mono [OF cmd_result]) auto

lemma comm_in_range: "IFACE_COMM < MAX_INTERFACES"
  by (simp add: IFACE_COMM_def MAX_INTERFACES_def)

lemma maintains_comm_cmd [maintains_intros]: "acks_full E \<Longrightarrow> maintains (hid_wf D) (dchid_comm_cmd fuel K E cmd)"
  unfolding dchid_comm_cmd_def by (intro maintains_intros comm_in_range)

lemma maintains_get_interface [maintains_intros]: "maintains (hid_wf D) (dchid_get_interface E i n)"
  unfolding dchid_get_interface_def by (intro maintains_intros maintains_modd) (rule hid_wf_at [unfolded at_iface_def])

lemma maintains_case_resp [maintains_intros]:
  "(\<And>a. maintains I (m a)) \<Longrightarrow> (\<And>s. maintains I (k s)) \<Longrightarrow> maintains I (case r of UAddr a \<Rightarrow> m a | _ \<Rightarrow> k r)"
  "(\<And>n. maintains I (m2 n)) \<Longrightarrow> (\<And>s. maintains I (k s)) \<Longrightarrow> maintains I (case r of UStr n \<Rightarrow> m2 n | _ \<Rightarrow> k r)"
  "(\<And>b. maintains I (m3 b)) \<Longrightarrow> (\<And>s. maintains I (k s)) \<Longrightarrow> maintains I (case r of UBytes b \<Rightarrow> m3 b | _ \<Rightarrow> k r)"
  "(\<And>v. maintains I (m4 v)) \<Longrightarrow> (\<And>s. maintains I (k s)) \<Longrightarrow> maintains I (case r of UVal v \<Rightarrow> m4 v | _ \<Rightarrow> k r)"
  by (cases r; simp)+

lemma maintains_create_interface [maintains_intros]: "maintains (hid_wf D) (dchid_create_interface E i)"
  unfolding dchid_create_interface_def by (intro maintains_intros)

lemma maintains_send_firmware [maintains_intros]: "acks_full E \<Longrightarrow> maintains (hid_wf D) (dchid_send_firmware fuel K E i fw)"
  unfolding dchid_send_firmware_def
  by (rule maintains_bind, rule maintains_ask) (auto split: hid_resp.split intro!: maintains_intros)

lemma maintains_get_firmware [maintains_intros]: "maintains I (dchid_get_firmware E i)"
  unfolding dchid_get_firmware_def firmware_data_def
  by (rule maintains_bind, rule maintains_ask) (auto split: hid_resp.split simp: Let_def intro!: maintains_intros)

lemma maintains_request_gpio [maintains_intros]: "maintains (hid_wf D) (dchid_request_gpio E i)"
  unfolding dchid_request_gpio_def by (intro maintains_intros)

lemma maintains_start_err [maintains_intros]: "maintains (hid_wf D) (start_err i ret)"
  unfolding start_err_def by (intro maintains_intros)

lemma maintains_start_firmware [maintains_intros]: "acks_full E \<Longrightarrow> maintains (hid_wf D) (start_firmware fuel K E i fw)"
  unfolding start_firmware_def dchid_reset_interface_def by (intro maintains_intros)

lemma maintains_start_interface [maintains_intros]: "acks_full E \<Longrightarrow> maintains (hid_wf D) (dchid_start_interface fuel K E i)"
  unfolding dchid_start_interface_def by (intro maintains_intros)

lemma maintains_open: "acks_full E \<Longrightarrow> maintains (hid_wf D) (dchid_open fuel K E i)"
  unfolding dchid_open_def by (intro maintains_intros)

lemma maintains_country_code [maintains_intros]: "maintains (hid_wf D) (country_code E i)"
  unfolding country_code_def by (auto split: hid_resp.split intro!: maintains_intros)

lemma maintains_create_work: "acks_full E \<Longrightarrow> maintains (hid_wf D) (dchid_create_interface_work fuel K E i)"
  unfolding dchid_create_interface_work_def dchid_enable_interface_def by (intro maintains_intros)

lemma maintains_raw_request:
  "acks_full E \<Longrightarrow> i < MAX_INTERFACES \<Longrightarrow> maintains (hid_wf D) (dchid_raw_request fuel K E i n buf rtype rq)"
  unfolding dchid_raw_request_def dchid_set_report_def by (cases rq) (auto intro!: maintains_intros)

lemma maintains_strcmp [maintains_intros]: "maintains (hid_wf D) (strcmp_name E i n)"
  unfolding strcmp_name_def by (intro maintains_intros)

lemma maintains_init_blocks [maintains_intros]: "maintains (hid_wf D) (init_blocks E i data len)"
proof (induction E i data len rule: init_blocks.induct)
  case (1 E i data len)
  show ?case
    unfolding init_blocks.simps [of E i data len] dchid_handle_descriptor_def gpio_request_def Let_def
    by (intro maintains_intros) (rule "1.IH"; (assumption | rule refl))
qed

lemma maintains_handle_init [maintains_intros]: "maintains (hid_wf D) (dchid_handle_init E data len)"
  unfolding dchid_handle_init_def by (intro maintains_intros)

lemma report_cmd_then:
  fixes v :: hid_world
  assumes "acks_full E" and "i < MAX_INTERFACES" and "hid_wf D (drv v)" and "len \<le> length buf"
    and "\<And>ret b. length b = length buf \<Longrightarrow> maintains (hid_wf D) (k (ret, Some b))"
  shows "wp (and_then (dchid_get_report_cmd fuel K E i rep buf len) k) (\<lambda>_ w'. hid_wf D (drv w')) v"
  unfolding and_then_def dchid_get_report_cmd_def wp_bind
  apply (rule wp_mono [OF cmd_result [OF assms(1-3)]])
  subgoal for r w'
    using assms(4) by (cases r) (auto simp: wp_simps intro!: maintains_wp [OF assms(5)])
  done

lemma maintains_stm_ready [maintains_intros]:
  assumes "acks_full E" and "i < MAX_INTERFACES"
  shows "maintains (hid_wf D) (stm_ready fuel K E i)"
proof -
  have id: "maintains (hid_wf D) (modd (\<lambda>s. s\<lparr>device_id := f s\<rparr>))" if "\<And>s. hid_wf D s \<Longrightarrow> length (f s) = 11" for f
    using that by (intro maintains_modd) (simp add: hid_wf_def)
  have ser: "maintains (hid_wf D) (modd (\<lambda>s. s\<lparr>serial := f s\<rparr>))" if "\<And>s. hid_wf D s \<Longrightarrow> length (f s) = 64" for f
    using that by (intro maintains_modd) (simp add: hid_wf_def)
  have ready: "maintains (hid_wf D) (modd (\<lambda>s. s\<lparr>id_ready := x\<rparr>))" for x by (intro maintains_modd) (simp add: hid_wf_def)
  have l: "hid_wf D s \<Longrightarrow> length (device_id s) = 11" "hid_wf D s \<Longrightarrow> length (serial s) = 64" for s by (simp_all add: hid_wf_def)
  show ?thesis
    unfolding stm_ready_def
    apply (rule maintainsI, unfold wp_bind wp_getd, rule report_cmd_then [OF assms])
    subgoal by assumption
    subgoal by (simp add: l)
    subgoal
      unfolding prod.case option.case
      apply (rule maintains_bind, rule id, simp add: l, rule maintains_bind, intro maintains_intros id, simp add: put_le16_def)
      apply (rule maintainsI, unfold wp_bind wp_getd, rule report_cmd_then [OF assms])
      subgoal by assumption
      subgoal by (simp add: l)
      subgoal unfolding prod.case option.case by (intro maintains_intros ser ready) (simp_all add: l)
      done
    done
qed

lemma maintains_handle_ready [maintains_intros]: "acks_full E \<Longrightarrow> maintains (hid_wf D) (dchid_handle_ready fuel K E data len)"
  unfolding dchid_handle_ready_def Let_def by (intro maintains_intros) (simp_all add: not_le)

lemma maintains_handle_gpio [maintains_intros]: "acks_full E \<Longrightarrow> maintains (hid_wf D) (dchid_handle_gpio fuel K E data len)"
  unfolding dchid_handle_gpio_def gpio_command_def gpio_pulse_def by (intro maintains_intros)

lemma maintains_packet_work: "acks_full E \<Longrightarrow> maintains (hid_wf D) (dchid_packet_work fuel K E i hdr data)"
  unfolding dchid_packet_work_def dchid_handle_event_def dchid_handle_report_def by (intro maintains_intros)

lemma maintains_dispatch [maintains_intros]: "maintains (hid_wf D) (dispatch_packet E hdr)"
  unfolding dispatch_packet_def dchid_handle_ack_def Let_def by (intro maintains_intros)

lemma maintains_handle_packet: "maintains (hid_wf D) (dchid_handle_packet fuel E)"
proof -
  have store: "maintains (hid_wf D) (modd (\<lambda>s. s\<lparr>pkt_buf := body @ drop (length body) (pkt_buf s)\<rparr>))" if "length body \<le> MAX_PKT_SIZE" for body
    using that by (intro maintains_modd) (simp add: hid_wf_def)
  have fits: "unat (hlength hdr) + 4 \<le> MAX_PKT_SIZE" for hdr
  proof -
    have "unat (hlength hdr) < 2 ^ 16" using unsigned_less [of "hlength hdr"] by simp
    then show ?thesis by (simp add: MAX_PKT_SIZE_def)
  qed
  have body: "maintains (hid_wf D) (and_then (dockchannel_recv fuel E (unat (hlength hdr) + 4)) (\<lambda>(ret, body). State_Monad.bind
      (modd (\<lambda>s. s\<lparr>pkt_buf := body @ drop (length body) (pkt_buf s)\<rparr>)) (\<lambda>_. f ret body)))"
    if "\<And>ret body. maintains (hid_wf D) (f ret body)" for hdr and f :: "int \<Rightarrow> u8 list \<Rightarrow> (unit option) hid_prog"
  proof (rule maintainsI, rule dock.recv_then, goal_cases)
    case (1 w w' new)
    then have "maintains (hid_wf D) (State_Monad.bind (modd (\<lambda>s. s\<lparr>pkt_buf := received new @ drop (length (received new)) (pkt_buf s)\<rparr>))
      (\<lambda>_. f (int (unat (hlength hdr) + 4)) (received new)))"
      using fits [of hdr] by (intro maintains_bind store that) simp
    from maintains_wp [OF this] 1 show ?case by simp
  next
    case (2 w w' new)
    then have "maintains (hid_wf D) (State_Monad.bind (modd (\<lambda>s. s\<lparr>pkt_buf := received new @ drop (length (received new)) (pkt_buf s)\<rparr>))
      (\<lambda>_. f (- ETIMEDOUT) (received new)))"
      using fits [of hdr] by (intro maintains_bind store that) simp
    from maintains_wp [OF this] 2 show ?case by simp
  qed simp
  show ?thesis
    unfolding dchid_handle_packet_def Let_def
    by (rule maintains_and_then, rule maintains_recv)
      (intro maintains_case_prod maintains_if maintains_let maintains_return maintains_rearm body maintains_dispatch)
qed

lemma ask_step: "(\<And>r w'. drv w' = drv w \<Longrightarrow> Q r w') \<Longrightarrow> wp (ask E q) Q w"
  by (simp add: wp_ask Let_def)

lemma tell_step: "(\<And>w'. drv w' = drv w \<Longrightarrow> Q () w') \<Longrightarrow> wp (tell E q) Q w"
  by (simp add: wp_tell)

text \<open>The probe.\<close>

definition hid_part :: "dockchannel_hid \<Rightarrow> u8 list \<times> u8 list \<times> dchid_iface option list \<times> u8 list" where
  "hid_part s = (device_id s, serial s, ifaces s, pkt_buf s)"

lemma hid_part_wf: "hid_part s = hid_part t \<Longrightarrow> hid_wf D s = hid_wf D t"
  by (simp add: hid_part_def hid_wf_def)

lemma keeps_ask [keeps_intros]: "keeps f (ask E q)"
  unfolding ask_def by (intro keeps_intros)

lemma keeps_tell [keeps_intros]: "keeps f (tell E q)"
  unfolding tell_def by (intro keeps_intros)

lemma keeps_init: "keeps hid_part (dockchannel_init E)"
  unfolding dockchannel_init_def dockchannel_irqs_def
  by (intro keeps_intros) (auto split: sum.split intro!: keeps_intros simp: hid_part_def)

lemma keeps_gpios [keeps_intros]: "keeps f (probe_gpios E ps)"
  by (induction ps) (auto intro!: keeps_intros)

lemma keeps_children [keeps_intros]: "keeps f (probe_children E cs)"
  by (induction cs) (auto intro!: keeps_intros)

definition fresh :: "dockchannel_hid \<Rightarrow> bool" where
  "fresh s \<longleftrightarrow> hid_part s = (replicate 11 0, replicate 64 0, replicate MAX_INTERFACES None, replicate MAX_PKT_SIZE 0)"

lemma fresh_comm:
  assumes "fresh (drv w)"
  shows "wp (dchid_get_interface E IFACE_COMM (Some ''comm'')) (\<lambda>r w'. r \<noteq> None \<longrightarrow> hid_wf {} (drv w')) w"
  using assms comm_in_range
  by (auto simp: fresh_def hid_part_def dchid_get_interface_def wp_simps Let_def hid_wf_def)

lemma probe_start_wf:
  assumes "fresh (drv w)"
  shows "wp (probe_start E) (\<lambda>r w'. r = 0 \<longrightarrow> hid_wf {} (drv w') \<and> awaiting (drv w')) w"
  unfolding probe_start_def wp_bind
proof (rule wp_mono [OF keeps_wp [OF keeps_init]])
  fix ret and w1 :: hid_world
  assume "hid_part (drv w1) = hid_part (drv w)"
  with assms have f: "fresh (drv (w1\<lparr>hist := h\<rparr>))" for h by (simp add: fresh_def)
  have "wp (State_Monad.bind (dchid_get_interface E IFACE_COMM (Some ''comm'')) (\<lambda>r. if r = None then return (- EIO) else
      State_Monad.bind (dockchannel_await E 8) (\<lambda>_. return 0))) (\<lambda>r w'. r = 0 \<longrightarrow> hid_wf {} (drv w') \<and> awaiting (drv w')) (w1\<lparr>hist := h\<rparr>)" for h
    unfolding wp_bind by (rule wp_mono [OF fresh_comm [OF f]]) (auto simp: wp_simps dockchannel_await_def Let_def hid_wf_def)
  then show "wp (if ret < 0 then return ret else State_Monad.bind (ask E (AllocOrderedWq ''dchid-new'')) (\<lambda>r. if r = UNull then return (- ENOMEM)
      else State_Monad.bind (dchid_get_interface E IFACE_COMM (Some ''comm'')) (\<lambda>r. if r = None then return (- EIO) else
        State_Monad.bind (dockchannel_await E 8) (\<lambda>_. return 0)))) (\<lambda>r w'. r = 0 \<longrightarrow> hid_wf {} (drv w') \<and> awaiting (drv w')) w1"
    by (auto simp: wp_if wp_return wp_bind wp_ask Let_def)
qed

lemma probe_helper_wf:
  fixes w :: hid_world
  assumes "fresh (drv w)"
  shows "wp (probe_helper E) (\<lambda>r w'. r = 0 \<longrightarrow> hid_wf {} (drv w') \<and> awaiting (drv w')) w"
proof -
  have "fresh (drv (w\<lparr>hist := h\<rparr>))" for h using assms by simp
  note s = probe_start_wf [OF this]
  show ?thesis unfolding probe_helper_def by (auto simp: wp_bind wp_ask wp_tell wp_if wp_return Let_def intro: s)
qed

lemma probe_wf: "wp (dockchannel_hid_probe E) (\<lambda>r w'. r = 0 \<longrightarrow> hid_wf {} (drv w') \<and> awaiting (drv w')) w"
proof -
  let ?Q = "\<lambda>r w'. r = 0 \<longrightarrow> hid_wf {} (drv w') \<and> awaiting (drv (w' :: hid_world))"
  let ?rest = "do {
    t \<leftarrow> ask E ChildProperties;
    ok \<leftarrow> probe_children E (case t of UTree cs \<Rightarrow> cs | _ \<Rightarrow> []);
    if \<not> ok then return (- EPROBE_DEFER) else probe_helper E
  }"
  have rest: "wp ?rest ?Q v" if "fresh (drv v)" for v :: hid_world
    unfolding wp_bind wp_ask Let_def
    by (rule wp_mono [OF keeps_wp [OF keeps_children, where f = "\<lambda>s. s"]])
      (use that in \<open>auto simp: wp_simps intro!: probe_helper_wf\<close>)
  show ?thesis
    unfolding dockchannel_hid_probe_def
    apply (rule wp_bindI, rule ask_step, rule wp_ifI, rule wp_returnI, simp)
    apply (rule wp_bindI, rule ask_step, rule wp_ifI, rule wp_returnI, simp)
    apply (rule wp_bindI, rule wp_modd_step, rule wp_bindI, rule ask_step, rule wp_bindI)
    apply (rule wp_ifI [where b = "x = UNull" for x])
     apply (rule wp_returnI)
     apply (rule wp_bindI, rule wp_modd_step, rule wp_bindI, rule tell_step, rule rest, simp add: fresh_def hid_part_def)
    apply (rule ask_step, rule wp_bindI, rule wp_modd_step, rule wp_bindI, rule tell_step, rule rest, simp add: fresh_def hid_part_def)
    done
qed

section \<open>Every entry returns\<close>

definition returns :: "('s, 'a option) state \<Rightarrow> bool" where
  "returns m \<longleftrightarrow> (\<forall>w. wp m (\<lambda>r _. r \<noteq> None) w)"

named_theorems returns_intros \<open>how \<open>returns\<close> is established\<close>

lemma returns_return [returns_intros]: "returns (return (Some x))"
  by (simp add: returns_def wp_return)

lemma returns_bind [returns_intros]: "(\<And>a. returns (k a)) \<Longrightarrow> returns (State_Monad.bind m k)"
  by (auto simp: returns_def wp_def case_prod_beta split: prod.splits)

lemma returns_and_then [returns_intros]: "returns m \<Longrightarrow> (\<And>x. returns (k x)) \<Longrightarrow> returns (and_then m k)"
  unfolding returns_def and_then_def wp_bind by (intro allI, rule wp_mono, erule spec) auto

lemma returns_or_fail [returns_intros]: "returns m \<Longrightarrow> returns k \<Longrightarrow> returns (or_fail m k)"
  unfolding returns_def or_fail_def wp_bind by (intro allI, rule wp_mono, erule spec) (auto simp: wp_simps)

lemma returns_if [returns_intros]: "(b \<Longrightarrow> returns m) \<Longrightarrow> (\<not> b \<Longrightarrow> returns k) \<Longrightarrow> returns (if b then m else k)"
  by simp

lemma returns_let [returns_intros]: "returns (k v) \<Longrightarrow> returns (Let v k)"
  by simp

lemma returns_case_prod [returns_intros]: "(\<And>a b. returns (k a b)) \<Longrightarrow> returns (case x of (a, b) \<Rightarrow> k a b)"
  by (cases x) simp

lemma returns_case_option [returns_intros]: "returns m \<Longrightarrow> (\<And>y. returns (k y)) \<Longrightarrow> returns (case x of None \<Rightarrow> m | Some y \<Rightarrow> k y)"
  by (cases x) simp_all

lemma returns_case_sum [returns_intros]: "(\<And>a. returns (m a)) \<Longrightarrow> (\<And>b. returns (k b)) \<Longrightarrow> returns (case x of Inl a \<Rightarrow> m a | Inr b \<Rightarrow> k b)"
  by (cases x) simp_all

lemma returns_case_list [returns_intros]: "returns m \<Longrightarrow> (\<And>y ys. returns (k y ys)) \<Longrightarrow> returns (case x of [] \<Rightarrow> m | y # ys \<Rightarrow> k y ys)"
  by (cases x) simp_all

lemma returns_send [returns_intros]: "waits_pay E \<Longrightarrow> 2 * length p \<le> fuel \<Longrightarrow> returns (dockchannel_send fuel E p)"
  unfolding returns_def by (intro allI send_returns)

lemma returns_recv [returns_intros]: "waits_pay E \<Longrightarrow> 2 * n \<le> fuel \<Longrightarrow> returns (dockchannel_recv fuel E n)"
  unfolding returns_def by (intro allI recv_returns)

text \<open>The fuel that the longest message needs: the acknowledgement of a GPIO command that fills a packet.\<close>

definition HID_FUEL :: nat where "HID_FUEL = 2 * (MAX_PKT_SIZE + 1)"

lemma returns_dchid_send [returns_intros]:
  assumes "waits_pay E" and "HID_FUEL \<le> fuel" and "length msg \<le> MAX_PKT_SIZE + 1"
  shows "returns (dchid_send fuel E i flags msg)"
proof -
  have l: "length (take n msg) \<le> MAX_PKT_SIZE + 1" for n using assms(3) by simp
  have t: "length (send_tail msg) \<le> 4" using round_down4_le [of "length msg"] by (simp add: send_tail_def Let_def)
  have f: "2 * m \<le> fuel" if "m \<le> MAX_PKT_SIZE + 1" for m using that assms(2) by (simp add: HID_FUEL_def)
  have m: "4 \<le> MAX_PKT_SIZE + 1" "16 \<le> MAX_PKT_SIZE + 1" by (simp_all add: MAX_PKT_SIZE_def)
  show ?thesis
    unfolding dchid_send_def
    by (intro returns_intros assms(1) f l) (use t m in \<open>simp_all add: send_hdr_def\<close>)
qed

lemma returns_cmd [returns_intros]:
  "waits_pay E \<Longrightarrow> HID_FUEL \<le> fuel \<Longrightarrow> length data \<le> MAX_PKT_SIZE + 1 \<Longrightarrow> returns (dchid_cmd fuel E i type req data rbuf rsize)"
  unfolding dchid_cmd_def cmd_done_def cmd_wait_def by (intro returns_intros)

lemma returns_comm_cmd [returns_intros]:
  "waits_pay E \<Longrightarrow> HID_FUEL \<le> fuel \<Longrightarrow> length cmd \<le> MAX_PKT_SIZE + 1 \<Longrightarrow> returns (dchid_comm_cmd fuel K E cmd)"
  unfolding dchid_comm_cmd_def by (intro returns_intros)

lemma returns_open [returns_intros]:
  assumes "waits_pay E" and "HID_FUEL \<le> fuel"
  shows "returns (dchid_open fuel K E i)"
proof -
  have fw: "returns (dchid_send_firmware fuel K E i p)" for p
    unfolding dchid_send_firmware_def
    by (intro returns_bind) (auto split: hid_resp.split intro!: returns_intros assms simp: put_le64_def MAX_PKT_SIZE_def)
  show ?thesis
    unfolding dchid_open_def dchid_start_interface_def start_firmware_def start_err_def dchid_reset_interface_def
    by (intro returns_intros fw assms) (simp_all add: MAX_PKT_SIZE_def)
qed

lemma returns_create_work [returns_intros]:
  assumes "waits_pay E" and "HID_FUEL \<le> fuel"
  shows "returns (dchid_create_interface_work fuel K E i)"
  unfolding dchid_create_interface_work_def dchid_enable_interface_def by (intro returns_intros assms) (simp add: MAX_PKT_SIZE_def)

lemma returns_raw_request [returns_intros]:
  assumes "waits_pay E" and "HID_FUEL \<le> fuel" and "length buf \<le> MAX_PKT_SIZE"
  shows "returns (dchid_raw_request fuel K E i n buf rtype rq)"
  using assms unfolding dchid_raw_request_def dchid_set_report_def by (cases rq) (auto intro!: returns_intros simp: MAX_PKT_SIZE_def)

lemma returns_packet_work [returns_intros]:
  assumes "waits_pay E" and "HID_FUEL \<le> fuel"
  shows "returns (dchid_packet_work fuel K E i hdr data)"
proof -
  have n: "unat (slength h) < 2 ^ 16" for h using unsigned_less [of "slength h"] by simp
  have "returns (dchid_handle_gpio fuel K E p (unat (slength h)))" for p h
    unfolding dchid_handle_gpio_def
    by (intro returns_intros assms) (use n [of h] in \<open>auto simp: MAX_PKT_SIZE_def min_def\<close>)
  moreover have "returns (dchid_handle_ready fuel K E p l)" for p l
    unfolding dchid_handle_ready_def stm_ready_def dchid_get_report_cmd_def Let_def by (intro returns_intros assms) (simp_all add: MAX_PKT_SIZE_def)
  ultimately show ?thesis
    unfolding dchid_packet_work_def dchid_handle_event_def by (intro returns_intros)
qed

lemma returns_handle_packet [returns_intros]:
  assumes "waits_pay E" and "HID_FUEL \<le> fuel"
  shows "returns (dchid_handle_packet fuel E)"
proof -
  have f: "2 * (unat (hlength h) + 4) \<le> fuel" for h
  proof -
    have "unat (hlength h) < 2 ^ 16" using unsigned_less [of "hlength h"] by simp
    then show ?thesis using assms(2) by (simp add: HID_FUEL_def MAX_PKT_SIZE_def)
  qed
  have g: "2 * 8 \<le> fuel" using assms(2) by (simp add: HID_FUEL_def MAX_PKT_SIZE_def)
  show ?thesis
    unfolding dchid_handle_packet_def dispatch_packet_def rearm_def by (intro returns_intros assms f g)
qed

section \<open>Firmware and starting\<close>

lemma up_of_cases: "up_of r = UBytes f \<Longrightarrow> r = UpR (UBytes f)"
  by (cases r) auto

definition loaded :: "nat \<Rightarrow> u8 list \<Rightarrow> u8 list \<Rightarrow> bool" where
  "loaded i f d \<longleftrightarrow>
     (let hl = unat (get_unaligned_le32 (drop 8 f)); dl = unat (get_unaligned_le32 (drop 12 f)); off = unat (get_unaligned_le32 (drop 16 f))
      in 20 \<le> hl \<and> hl + dl \<le> length f \<and> off < dl \<and> length d = dl
         \<and> (\<forall>k < dl. d ! k = (if k = off \<and> off \<noteq> 0 then of_nat i else f ! (hl + k))))"

lemma fw_ok_loaded:
  assumes "fw_ok f"
  shows "loaded i f (let hl = unat (get_unaligned_le32 (drop 8 f)); dl = unat (get_unaligned_le32 (drop 12 f));
      off = unat (get_unaligned_le32 (drop 16 f)); p = take dl (drop hl f) in if off \<noteq> 0 then p[off := of_nat i] else p)"
  using assms unfolding fw_ok_def loaded_def Let_def by (auto simp: not_less not_le nth_list_update)

definition firmware_post :: "nat \<Rightarrow> hid_world \<Rightarrow> int + u8 list option \<Rightarrow> hid_world \<Rightarrow> bool" where
  "firmware_post i w r w' \<longleftrightarrow> drv w' = drv w \<and> (\<forall>e. r = Inl e \<longrightarrow> e < 0) \<and> (\<forall>d. r = Inr (Some d) \<longrightarrow> (\<exists>name f new. hist w' = hist w @ new
     \<and> (Up (RequestFirmware name), UpR (UBytes f)) \<in> set new \<and> fst (last new) = Up ReleaseFirmware
     \<and> Up Undefined \<notin> fst ` set new \<and> loaded i f d))"

lemma firmware_postI:
  "drv w' = drv w \<Longrightarrow> hist w' = hist w @ [a, (Up (RequestFirmware name), UpR (UBytes f)), b, (Up ReleaseFirmware, c)]
     \<Longrightarrow> fst a \<noteq> Up Undefined \<Longrightarrow> fst b \<noteq> Up Undefined \<Longrightarrow> loaded i f d \<Longrightarrow> firmware_post i w (Inr (Some d)) w'"
  unfolding firmware_post_def
  by (intro conjI allI impI exI [of _ name] exI [of _ f] exI [of _ "[a, (Up (RequestFirmware name), UpR (UBytes f)), b, (Up ReleaseFirmware, c)]"]) auto

lemma firmware_data_post:
  fixes v w :: hid_world
  assumes "drv v = drv w" and "hist v = hist w @ [a, (Up (RequestFirmware name), UpR (UBytes f))]" and "fst a \<noteq> Up Undefined"
  shows "wp (firmware_data E i f) (firmware_post i w) v"
proof (cases "length f < 20 \<or> \<not> fw_ok f")
  case True
  then show ?thesis unfolding firmware_data_def using assms(1) by (auto simp: wp_simps firmware_post_def)
next
  case False
  let ?d = "let hl = unat (get_unaligned_le32 (drop 8 f)); dl = unat (get_unaligned_le32 (drop 12 f));
    off = unat (get_unaligned_le32 (drop 16 f)); p = take dl (drop hl f) in if off \<noteq> 0 then p[off := of_nat i] else p"
  have "firmware_post i w (Inr (Some ?d)) u" if "drv u = drv w" "hist u = hist v @ [(Up (Kmemdup p), b), (Up ReleaseFirmware, c)]"
    for u :: hid_world and b c p
    by (rule firmware_postI [where b = "(Up (Kmemdup p), b)" and c = c and f = f and name = name and a = a])
      (use that assms False fw_ok_loaded [of f i] in simp_all)
  from this [unfolded Let_def] False assms(1) show ?thesis
    unfolding firmware_data_def Let_def
    by (simp add: wp_bind wp_ask wp_tell wp_return Let_def firmware_post_def [of _ _ "Inl e" for e] split del: if_split cong: if_cong)
      (simp add: firmware_post_def [of _ _ "Inl e" for e])
qed

lemma wp_case_bytes: "(\<And>f. r = UBytes f \<Longrightarrow> wp (m f) Q v) \<Longrightarrow> Q x v \<Longrightarrow> wp (case r of UBytes f \<Rightarrow> m f | _ \<Rightarrow> return x) Q v"
  by (cases r) (simp_all add: wp_return)

lemma wp_case_str: "(\<And>n. r = UStr n \<Longrightarrow> wp (m n) Q v) \<Longrightarrow> Q x v \<Longrightarrow> wp (case r of UStr n \<Rightarrow> m n | _ \<Rightarrow> return x) Q v"
  by (cases r) (simp_all add: wp_return)

lemma get_firmware_post: "wp (dchid_get_firmware E i) (firmware_post i w) w"
proof -
  have none: "firmware_post i w (Inl (if is_err r then uret r else - ENOENT)) v" "firmware_post i w (Inr None) v" if "drv v = drv w" for r v
    using that by (simp_all add: firmware_post_def is_err_def)
  show ?thesis
    unfolding dchid_get_firmware_def wp_bind wp_ask Let_def
    apply (rule wp_case_str, unfold wp_bind wp_ask Let_def, rule wp_case_bytes)
    subgoal for name f
      by (rule firmware_data_post [where name = name and a = "(Up (OfReadString i ''firmware-name''), r)" for r])
        (auto dest: up_of_cases)
    subgoal by (rule none) simp
    subgoal by (rule none) simp
    done
qed

lemma keeps_firmware [keeps_intros]: "keeps f (dchid_get_firmware E i)"
  by (rule keepsI, rule wp_mono [OF get_firmware_post]) (simp add: firmware_post_def)

text \<open>An interface that is being started.\<close>

definition is_starting :: "nat \<Rightarrow> dockchannel_hid \<Rightarrow> bool" where
  "is_starting i s \<longleftrightarrow> length (ifaces s) = MAX_INTERFACES \<and> starting (iface s i)"

lemma starting_comm_cmd: "maintains (is_starting i) (dchid_comm_cmd fuel K E cmd)"
proof (rule maintainsI)
  fix w :: hid_world
  assume s: "is_starting i (drv w)"
  then have l: "IFACE_COMM < length (ifaces (drv w))" using comm_in_range by (simp add: is_starting_def)
  have k: "is_starting i (at_iface (drv w) IFACE_COMM ifc')" if "cmd_idle (iface (drv w) IFACE_COMM) ifc' \<or> same_but_cmd (iface (drv w) IFACE_COMM) ifc'" for ifc'
  proof -
    have "starting ifc' = starting (iface (drv w) IFACE_COMM)"
      using that by (cases ifc'; cases "iface (drv w) IFACE_COMM") (auto simp: cmd_idle_def same_but_cmd_def)
    with s l show ?thesis by (cases "i = IFACE_COMM") (auto simp: is_starting_def at_iface_def iface_def)
  qed
  show "wp (dchid_comm_cmd fuel K E cmd) (\<lambda>_ w'. is_starting i (drv w')) w"
    unfolding dchid_comm_cmd_def and_then_def wp_bind
    by (rule wp_mono [OF dchid_cmd_post [OF l]])
      (auto simp: wp_simps cmd_post_def intro!: k split: option.splits)
qed

lemma starting_mod [maintains_intros]:
  "(\<And>ifc. starting (f ifc) = starting ifc) \<Longrightarrow> maintains (is_starting i) (mod_iface j f)"
proof (rule maintainsI, unfold wp_mod_iface)
  fix w :: hid_world
  assume f: "\<And>ifc. starting (f ifc) = starting ifc" and s: "is_starting i (drv w)"
  show "is_starting i (drv (w\<lparr>drv := at_iface (drv w) j (f (iface (drv w) j))\<rparr>))"
    using s by (cases "j < length (ifaces (drv w))"; cases "j = i") (auto simp: is_starting_def at_iface_def iface_def f list_update_beyond)
qed

lemma start_interface_starting:
  fixes w :: hid_world
  assumes "length (ifaces (drv w)) = MAX_INTERFACES" and "i < MAX_INTERFACES"
  shows "wp (dchid_start_interface fuel K E i) (\<lambda>r w'. \<forall>ret. r = Some ret \<longrightarrow> 0 \<le> ret \<longrightarrow> is_starting i (drv w')) w"
proof -
  let ?Q = "\<lambda>r w'. \<forall>ret. r = Some ret \<longrightarrow> 0 \<le> ret \<longrightarrow> is_starting i (drv (w' :: hid_world))"
  have err: "wp (start_err i ret) ?Q v" if "ret < 0" for ret v using that by (simp add: start_err_def wp_simps)
  have reset: "maintains (is_starting i) (dchid_reset_interface fuel K E i m)" for m
    unfolding dchid_reset_interface_def by (rule starting_comm_cmd)
  have send: "maintains (is_starting i) (dchid_send_firmware fuel K E i p)" for p
    unfolding dchid_send_firmware_def
    by (rule maintains_bind, rule maintains_ask) (auto split: hid_resp.split intro!: maintains_intros starting_comm_cmd)
  have resets: "maintains (is_starting i) (and_then (dchid_reset_interface fuel K E i 0) (\<lambda>_. and_then (dchid_reset_interface fuel K E i 2) (\<lambda>_. return (Some 0))))"
    by (intro maintains_intros reset)
  have fw: "wp (start_firmware fuel K E i fw) ?Q v" if "is_starting i (drv v)" for fw and v :: hid_world
  proof (cases fw)
    case None
    then show ?thesis using that by (simp add: start_firmware_def wp_return)
  next
    case (Some p)
    show ?thesis
    proof (cases p)
      case Nil
      then show ?thesis using that Some by (simp add: start_firmware_def wp_return)
    next
      case (Cons b bs)
      show ?thesis
        unfolding start_firmware_def Some Cons option.case list.case and_then_def [of "dchid_send_firmware fuel K E i (b # bs)"] wp_bind
        apply (rule wp_mono [OF maintains_wp [OF send that]])
        subgoal for r v2
          using err maintains_wp [OF resets, of v2] by (cases r) (auto simp: wp_return wp_if elim: wp_mono)
        done
    qed
  qed
  have gp: "maintains (is_starting i) (dchid_request_gpio E i)"
    unfolding dchid_request_gpio_def by (intro maintains_intros) simp_all
  let ?v = "w\<lparr>drv := at_iface (drv w) i ((iface (drv w) i)\<lparr>starting := True\<rparr>)\<rparr>"
  have go: "is_starting i (drv ?v)" using assms by (simp add: is_starting_def)
  have next1: "wp (if gpio_id ifc \<noteq> 0 then do { ret \<leftarrow> dchid_request_gpio E i; if ret < 0 then start_err i ret else start_firmware fuel K E i x }
      else start_firmware fuel K E i x) ?Q v" if "is_starting i (drv v)" for v x ifc
  proof (rule wp_ifI)
    show "wp (do { ret \<leftarrow> dchid_request_gpio E i; if ret < 0 then start_err i ret else start_firmware fuel K E i x }) ?Q v"
      unfolding wp_bind by (rule wp_mono [OF maintains_wp [OF gp that]]) (auto simp: wp_if intro: err fw)
  qed (rule fw [OF that])
  have run: "wp (do { r \<leftarrow> dchid_get_firmware E i; case r of Inl ret \<Rightarrow> start_err i ret
      | Inr x \<Rightarrow> if gpio_id ifc \<noteq> 0 then do { ret \<leftarrow> dchid_request_gpio E i; if ret < 0 then start_err i ret else start_firmware fuel K E i x }
          else start_firmware fuel K E i x }) ?Q ?v" for ifc
    unfolding wp_bind
  proof (rule wp_mono [OF get_firmware_post])
    fix r v
    assume "firmware_post i ?v r v"
    with go show "wp (case r of Inl ret \<Rightarrow> start_err i ret
      | Inr x \<Rightarrow> if gpio_id ifc \<noteq> 0 then do { ret \<leftarrow> dchid_request_gpio E i; if ret < 0 then start_err i ret else start_firmware fuel K E i x }
          else start_firmware fuel K E i x) ?Q v"
      by (cases r) (auto simp only: firmware_post_def sum.case intro!: err next1)
  qed
  show ?thesis
    unfolding dchid_start_interface_def wp_bind [of "get_iface i"] wp_get_iface
    using run by (auto simp only: wp_if wp_return wp_bind [of "mod_iface i f" for f] wp_mod_iface split: if_split)
qed

section \<open>Properties\<close>


text \<open>C5. The receive path implements its specification, whatever arrives: the packet handler returns, it has taken some bytes from the
  channel and sent none, and what it did is what the fate of those bytes says. A packet with a wrong header, length or checksum, or for an interface
  that does not exist, changes only the buffer; an acknowledgement reaches the command that waits for it; a report is queued
  once, with exactly its bytes. In each of these the channel is armed again. It is not when the header did not arrive or no memory was
  left, and an interface number of sixteen or more leads outside of the table.\<close>

theorem handle_packet_refines:
  assumes "waits_pay E" and "HID_FUEL \<le> fuel" and "length (ifaces (drv w)) = MAX_INTERFACES"
  shows "\<exists>w' new. run_state (dchid_handle_packet fuel E) w = (Some (), w') \<and> hist w' = hist w @ new \<and> sent new = []
    \<and> packet_post (drv w) (received new) (client new) (drv w')"
proof -
  obtain r w' where run: "run_state (dchid_handle_packet fuel E) w = (r, w')" by fastforce
  have "wp (dchid_handle_packet fuel E) (\<lambda>r _. r \<noteq> None) w"
    using returns_handle_packet [OF assms(1,2)] unfolding returns_def by blast
  from wpD [OF this run] have "r = Some ()" by auto
  with wpD [OF handle_packet_post [OF assms(3)] run] run show ?thesis unfolding packet_Q_def by blast
qed

text \<open>No entry of the driver hangs, on hardware that keeps its promise about completed waits: the handlers of packets and of queued
  work, creating and opening an interface, and requests of reports as long as a packet all return.\<close>

theorem hid_entries_return:
  assumes "waits_pay E" and "HID_FUEL \<le> fuel" and "length buf \<le> MAX_PKT_SIZE"
  shows "fst (run_state (dchid_handle_packet fuel E) w) \<noteq> None \<and> fst (run_state (dchid_packet_work fuel K E i hdr data) w) \<noteq> None
    \<and> fst (run_state (dchid_create_interface_work fuel K E i) w) \<noteq> None \<and> fst (run_state (dchid_open fuel K E i) w) \<noteq> None
    \<and> fst (run_state (dchid_raw_request fuel K E i n buf rtype rq) w) \<noteq> None"
  using returns_handle_packet [OF assms(1,2)] returns_packet_work [OF assms(1,2), of K i hdr data]
    returns_create_work [OF assms(1,2), of K i] returns_open [OF assms(1,2), of K i] returns_raw_request [OF assms, of K i n rtype rq]
  by (simp add: returns_def wp_def case_prod_beta)

text \<open>C21. Firmware that is accepted lies inside its file: what is sent is the data part of it, byte by byte, except for the interface number that
  replaces the byte at the given offset, which is inside the data; the file is released, and nothing is read outside.\<close>

theorem firmware_inside_file:
  assumes "run_state (dchid_get_firmware E i) w = (Inr (Some d), w')"
  shows "drv w' = drv w \<and> (\<exists>name f new. hist w' = hist w @ new \<and> (Up (RequestFirmware name), UpR (UBytes f)) \<in> set new
    \<and> fst (last new) = Up ReleaseFirmware \<and> Up Undefined \<notin> fst ` set new \<and> loaded i f d)"
  using wpD [OF get_firmware_post assms] unfolding firmware_post_def by blast

text \<open>An interface that was started, but does not become ready in time, cannot be opened again: the mark that it is being started is only
  cleared by a start that fails, and with it every later open fails with \<open>EINPROGRESS\<close> and starts nothing, until the
  interface reports that it is ready.\<close>

theorem open_after_timeout:
  assumes "run_state (dchid_start_interface fuel K E i) w = (Some ret, w')" and "0 \<le> ret"
    and "length (ifaces (drv w)) = MAX_INTERFACES" and "i < MAX_INTERFACES"
    and "drv v = drv w'" and "uret (up_of (E' (hist v) (Up (ReadyDone i)))) = 0"
  shows "run_state (dchid_open fuel' K E' i) v
    = (Some (- EINPROGRESS), v\<lparr>hist := hist v @ [(Up (ReadyDone i), E' (hist v) (Up (ReadyDone i)))]\<rparr>)"
proof -
  have "starting (iface (drv v) i)"
    using wpD [OF start_interface_starting [OF assms(3,4)] assms(1)] assms(2,5) by (simp add: is_starting_def)
  then have "wp (dchid_open fuel' K E' i) (\<lambda>r v'. r = Some (- EINPROGRESS) \<and> v' = v\<lparr>hist := hist v @ [(Up (ReadyDone i), E' (hist v) (Up (ReadyDone i)))]\<rparr>) v"
    using assms(6) unfolding dchid_open_def dchid_start_interface_def and_then_def by (simp add: wp_simps Let_def)
  then show ?thesis by (simp add: wp_def case_prod_beta prod_eq_iff)
qed

section \<open>Examples\<close>

definition demo_K :: hid_consts where
  "demo_K = \<lparr>HID_INPUT_REPORT = 0, HID_OUTPUT_REPORT = 1, HID_FEATURE_REPORT = 2, HOST_VENDOR_ID_APPLE = 0x5ac\<rparr>"

text \<open>A device that answers nothing of interest, and has a firmware file of two bytes for an interface.\<close>

definition demo_file :: "u8 list" where
  "demo_file = put_unaligned_le32 FW_MAGIC @ put_unaligned_le32 1 @ put_unaligned_le32 20 @ put_unaligned_le32 2 @ put_unaligned_le32 1 @ [7, 9]"

definition demo_quiet :: "string option \<Rightarrow> hid_env" where
  "demo_quiet name h q = (case q of
     ReadData off \<Rightarrow> Val 64
   | WaitCompletion s t \<Rightarrow> Ret 1
   | Up u \<Rightarrow> UpR (case u of
       OfReadString i p \<Rightarrow> (case name of None \<Rightarrow> UDone | Some n \<Rightarrow> UStr n)
     | RequestFirmware n \<Rightarrow> UBytes demo_file
     | WaitOut i t \<Rightarrow> UAcks []
     | _ \<Rightarrow> UDone)
   | _ \<Rightarrow> Done)"

definition demo_full :: hid_world where
  "demo_full = demo_hid_world\<lparr>drv := (drv demo_hid_world)\<lparr>pkt_buf := replicate MAX_PKT_SIZE 0\<rparr>\<rparr>"

lemma demo_facts:
  "waits_pay (demo_quiet name)" "acks_full (demo_quiet name)" "length (ifaces (drv demo_full)) = MAX_INTERFACES" "hid_wf {2} (drv demo_full)"
  by (simp_all add: waits_pay_def acks_full_def acks_of_def demo_quiet_def demo_full_def demo_hid_world_def dockchannel.extend_def MAX_INTERFACES_def
      hid_wf_def IFACE_COMM_def)


theorem handle_packet_refines_witness:
  "\<exists>w' new. run_state (dchid_handle_packet HID_FUEL (demo_quiet None)) demo_full = (Some (), w') \<and> sent new = []
    \<and> packet_post (drv demo_full) (received new) (client new) (drv w')"
  using handle_packet_refines [OF demo_facts(1) [of None] le_refl demo_facts(3)] by blast

theorem hid_entries_return_witness:
  "fst (run_state (dchid_raw_request HID_FUEL demo_K (demo_quiet None) 2 0 [1, 2] 1 HID_REQ_SET_REPORT) demo_full) \<noteq> None
   \<and> fst (run_state (dchid_open HID_FUEL demo_K (demo_quiet None) 2) demo_full) \<noteq> None"
proof -
  have "length [1, 2 :: u8] \<le> MAX_PKT_SIZE" by (simp add: MAX_PKT_SIZE_def)
  from hid_entries_return [OF demo_facts(1) [of None] le_refl this] show ?thesis by blast
qed

theorem firmware_inside_file_witness:
  "fst (run_state (dchid_get_firmware (demo_quiet (Some ''fw'')) 3) demo_hid_world) = Inr (Some [7, 3])
   \<and> (\<exists>f. loaded 3 f [7, 3])"
proof -
  have r: "fst (run_state (dchid_get_firmware (demo_quiet (Some ''fw'')) 3) demo_hid_world) = Inr (Some [7, 3])" by code_simp
  obtain w' where run: "run_state (dchid_get_firmware (demo_quiet (Some ''fw'')) 3) demo_hid_world = (Inr (Some [7, 3]), w')"
    using r by (metis prod.collapse)
  from firmware_inside_file [OF run] r show ?thesis by blast
qed

theorem open_after_timeout_witness:
  "fst (run_state (dchid_start_interface 40 demo_K (demo_quiet None) 2) demo_hid_world) = Some 0
   \<and> fst (run_state (dchid_open 40 demo_K (demo_quiet None) 2) (snd (run_state (dchid_start_interface 40 demo_K (demo_quiet None) 2) demo_hid_world)))
     = Some (- EINPROGRESS)"
proof -
  have r: "fst (run_state (dchid_start_interface 40 demo_K (demo_quiet None) 2) demo_hid_world) = Some 0" by code_simp
  obtain w' where run: "run_state (dchid_start_interface 40 demo_K (demo_quiet None) 2) demo_hid_world = (Some 0, w')"
    using r by (metis prod.collapse)
  have l: "length (ifaces (drv demo_hid_world)) = MAX_INTERFACES" "2 < MAX_INTERFACES"
    by (simp_all add: demo_hid_world_def dockchannel.extend_def MAX_INTERFACES_def)
  have u: "uret (up_of (demo_quiet None (hist w') (Up (ReadyDone 2)))) = 0" by (simp add: demo_quiet_def)
  from open_after_timeout [where E' = "demo_quiet None" and v = w' and fuel' = 40, OF run order_refl l refl u] run show ?thesis by simp
qed

end
