(* ===== verification/Regcache.thy ===== *)
theory Regcache
  imports Wallace_Prelude "HOL-Library.Multiset"
begin

text \<open>
  The register cache of regmap, \<open>sources/asahi--drivers__base__regmap__regcache.c\<close>: the defaults of a map and the search in them, the format of cached
  words, reading and writing through the cache, and syncing it to the hardware, whole, by region and by block.

  The rest of regmap and the cache implementations are not in the repository. Their functions are requests:
  \<open>_regmap_write\<close> and its relatives carry the flag \<open>cache_bypass\<close> under which they run, and a cache implementation is a record that
  says which functions it has. Which registers are readable, writeable or volatile is fixed by the configuration of a map; it is a
  parameter, as are the optional formatting functions. \<open>Bug\<close> marks a \<open>BUG\<close>, after which nothing is known. The words of a block are in
  the byte order of the machine, which is little-endian. Log output and tracing are left out.

  Proved: words read back as written and leave the others alone; the search finds exactly the defaults, also after
  unsorted ones were given; a block written in runs reaches the hardware as the same registers, values and order as one written singly;
  a sync writes the patch and then exactly the registers that need it, restores the bypass flag on every path, and ends;
  a failing initialisation frees what it took.
\<close>

section \<open>Maps and requests\<close>

record reg_default =
  dreg :: u32
  def :: u32

record regcache_ops =
  ctype :: nat
  has_name :: bool
  has_read :: bool
  has_write :: bool
  has_init :: bool
  has_exit :: bool
  has_populate :: bool
  has_sync :: bool
  has_drop :: bool

text \<open>The parts of a map that this file uses; \<open>cache_type\<close> is \<open>None\<close> for \<open>REGCACHE_NONE\<close>, and \<open>selectors\<close> are the selector registers of the ranges.\<close>

record regmap =
  cache_type :: "nat option"
  cache_ops :: "regcache_ops option"
  cache_bypass :: bool
  cache_only :: bool
  cache_dirty :: bool
  no_sync_defaults :: bool
  cache_free :: bool
  async :: bool
  use_single_write :: bool
  reg_stride :: u32
  num_reg_defaults :: u32
  reg_defaults :: "reg_default list option"
  num_reg_defaults_raw :: u32
  reg_defaults_raw :: "u8 list option"
  cache_word_size :: nat
  cache_size_raw :: nat
  max_register :: u32
  max_register_is_set :: bool
  reg_default_cb :: bool
  patch :: "reg_default list"
  selectors :: "u32 list"

record regmap_config =
  cfg_reg_defaults :: "reg_default list option"
  cfg_num_reg_defaults :: u32
  cfg_reg_defaults_raw :: "u8 list option"
  cfg_num_reg_defaults_raw :: u32
  cfg_val_bits :: nat

text \<open>What the file takes from elsewhere: the register tables, the value format and the cache implementations.\<close>

record regmap_core =
  regmap_readable :: "u32 \<Rightarrow> bool"
  regmap_writeable :: "u32 \<Rightarrow> bool"
  regmap_volatile :: "u32 \<Rightarrow> bool"
  regmap_can_raw_write :: bool
  format_val :: "(u32 \<Rightarrow> u8 list) option"
  parse_val :: "(u8 list \<Rightarrow> u32) option"
  val_bytes :: nat
  cache_types :: "regcache_ops list"

datatype rc_req =
    Bug
  | CacheRead u32 | CacheWrite u32 u32 | CacheSync u32 u32 | CacheDrop u32 u32 | CacheInit | CacheExit | CachePopulate
  | RegmapWrite bool u32 u32 | RegmapRawWrite bool u32 "u8 list" | RegmapRead bool u32 | RegmapRawRead bool u32 nat
  | Kmalloc nat | KmallocDefaults nat | KmemdupDefaults | KfreeRaw | KfreeTmp | KfreeDefaults
  | Lock | Unlock | AsyncComplete

datatype rc_resp = RDone | RNull | RRet int | RVal u32 | RBytes "u8 list"

type_synonym rc_env = "(rc_req, rc_resp) env"
type_synonym rc_world = "(rc_req, rc_resp, regmap) world"
type_synonym 'a rc_prog = "(rc_req, rc_resp, regmap, 'a) prog"

fun rret :: "rc_resp \<Rightarrow> int" where
  "rret (RRet n) = n"
| "rret r = 0"

fun rval :: "rc_resp \<Rightarrow> u32" where
  "rval (RVal v) = v"
| "rval r = 0"

section \<open>Defaults\<close>

definition regcache_defaults_cmp :: "reg_default \<Rightarrow> reg_default \<Rightarrow> int" where
  "regcache_defaults_cmp x y = (if dreg y < dreg x then 1 else if dreg x < dreg y then - 1 else 0)"

definition regcache_sort_defaults :: "reg_default list \<Rightarrow> reg_default list" where
  "regcache_sort_defaults ds = sort_key dreg ds"

text \<open>The C library's binary search: the index of an element that compares equal to the key.\<close>

function bsearch :: "reg_default \<Rightarrow> reg_default list \<Rightarrow> nat \<Rightarrow> nat \<Rightarrow> nat option" where
  "bsearch key ds base num =
     (if num = 0 then None
      else
        let pivot = base + num div 2; result = regcache_defaults_cmp key (ds ! pivot)
        in if result = 0 then Some pivot
           else if 0 < result then bsearch key ds (pivot + 1) ((num - 1) div 2)
           else bsearch key ds base (num div 2))"
  by pat_completeness auto
termination
  by (relation "measure (\<lambda>(key, ds, base, num). num)") (auto simp: div_less_dividend)

declare bsearch.simps [simp del]

definition defaults_of :: "regmap \<Rightarrow> reg_default list" where
  "defaults_of m = (case reg_defaults m of Some ds \<Rightarrow> ds | None \<Rightarrow> [])"

definition regcache_lookup_reg :: "regmap \<Rightarrow> u32 \<Rightarrow> int" where
  "regcache_lookup_reg m reg =
     (case bsearch \<lparr>dreg = reg, def = 0\<rparr> (defaults_of m) 0 (unat (num_reg_defaults m)) of
        Some i \<Rightarrow> int i
      | None \<Rightarrow> - ENOENT)"

section \<open>Words\<close>

definition get_word :: "nat \<Rightarrow> u8 list \<Rightarrow> nat \<Rightarrow> u32" where
  "get_word n base idx = foldr (\<lambda>b v. ucast b OR push_bit 8 v) (take n (drop (n * idx) base)) 0"

definition put_word :: "nat \<Rightarrow> u32 \<Rightarrow> u8 list" where
  "put_word n val = map (\<lambda>k. ucast (drop_bit (8 * k) val)) [0..<n]"

text \<open>The bytes of \<open>base\<close> with some replaced.\<close>

definition splice :: "u8 list \<Rightarrow> nat \<Rightarrow> u8 list \<Rightarrow> u8 list" where
  "splice base off bs = take off base @ bs @ drop (off + length bs) base"

definition regcache_set_val :: "rc_env \<Rightarrow> regmap_core \<Rightarrow> u8 list \<Rightarrow> nat \<Rightarrow> u32 \<Rightarrow> (u8 list) rc_prog" where
  "regcache_set_val E K base idx val = do {
     m \<leftarrow> getd;
     let n = cache_word_size m;
     case format_val K of
       Some f \<Rightarrow> return (splice base (n * idx) (f val))
     | None \<Rightarrow>
         if n = 1 \<or> n = 2 \<or> n = 4 then return (splice base (n * idx) (put_word n val))
         else do { exec E Bug; return base }
   }"

definition regcache_get_val :: "rc_env \<Rightarrow> regmap_core \<Rightarrow> u8 list option \<Rightarrow> nat \<Rightarrow> u32 rc_prog" where
  "regcache_get_val E K base idx = do {
     m \<leftarrow> getd;
     let n = cache_word_size m;
     case base of
       None \<Rightarrow> return (of_int (- EINVAL))
     | Some b \<Rightarrow>
         case parse_val K of
           Some f \<Rightarrow> return (f (drop (n * idx) b))
         | None \<Rightarrow>
             if n = 1 \<or> n = 2 \<or> n = 4 then return (get_word n b idx)
             else do { exec E Bug; return (- 1) }
   }"

section \<open>Reading and writing\<close>

text \<open>The result and the value.\<close>

definition regcache_read :: "rc_env \<Rightarrow> regmap_core \<Rightarrow> u32 \<Rightarrow> (int \<times> u32) rc_prog" where
  "regcache_read E K reg = do {
     m \<leftarrow> getd;
     if cache_type m = None then return (- EINVAL, 0)
     else do {
       whenM (cache_ops m = None) (exec E Bug);
       if \<not> regmap_volatile K reg then do {
         r \<leftarrow> call E (CacheRead reg);
         return (rret r, rval r)
       }
       else return (- EINVAL, 0)
     }
   }"

definition regcache_write :: "rc_env \<Rightarrow> regmap_core \<Rightarrow> u32 \<Rightarrow> u32 \<Rightarrow> int rc_prog" where
  "regcache_write E K reg val = do {
     m \<leftarrow> getd;
     if cache_type m = None then return 0
     else do {
       whenM (cache_ops m = None) (exec E Bug);
       if \<not> regmap_volatile K reg then do {
         r \<leftarrow> call E (CacheWrite reg val);
         return (rret r)
       }
       else return 0
     }
   }"

definition regcache_reg_needs_sync :: "regmap_core \<Rightarrow> regmap \<Rightarrow> u32 \<Rightarrow> u32 \<Rightarrow> bool" where
  "regcache_reg_needs_sync K m reg val =
     (if \<not> regmap_writeable K reg then False
      else if \<not> no_sync_defaults m then True
      else
        let ret = regcache_lookup_reg m reg
        in if 0 \<le> ret \<and> val = def (defaults_of m ! nat ret) then False else True)"

definition regcache_sync_val :: "rc_env \<Rightarrow> regmap_core \<Rightarrow> u32 \<Rightarrow> u32 \<Rightarrow> int rc_prog" where
  "regcache_sync_val E K reg val = do {
     m \<leftarrow> getd;
     if \<not> regcache_reg_needs_sync K m reg val then return 0
     else do {
       modd (\<lambda>m. m\<lparr>cache_bypass := True\<rparr>);
       r \<leftarrow> call E (RegmapWrite True reg val);
       modd (\<lambda>m. m\<lparr>cache_bypass := False\<rparr>);
       return (rret r)
     }
   }"

text \<open>
  The loop of \<open>regcache_default_sync\<close>, from register \<open>reg\<close>. The counter is unsigned and may wrap past the last register; the fuel counts
  the turns, and \<open>None\<close> is a loop that has not ended.
\<close>

fun default_sync_loop :: "nat \<Rightarrow> rc_env \<Rightarrow> regmap_core \<Rightarrow> u32 \<Rightarrow> u32 \<Rightarrow> (int option) rc_prog" where
  "default_sync_loop 0 E K mx reg = return (if mx < reg then Some 0 else None)"
| "default_sync_loop (Suc fuel) E K mx reg =
     (if mx < reg then return (Some 0)
      else do {
        m \<leftarrow> getd;
        let nxt = reg + reg_stride m;
        if regmap_volatile K reg \<or> \<not> regmap_writeable K reg then default_sync_loop fuel E K mx nxt
        else do {
          (ret, val) \<leftarrow> regcache_read E K reg;
          if ret = - ENOENT then default_sync_loop fuel E K mx nxt
          else if ret \<noteq> 0 then return (Some ret)
          else if \<not> regcache_reg_needs_sync K m reg val then default_sync_loop fuel E K mx nxt
          else do {
            modd (\<lambda>m. m\<lparr>cache_bypass := True\<rparr>);
            r \<leftarrow> call E (RegmapWrite True reg val);
            modd (\<lambda>m. m\<lparr>cache_bypass := False\<rparr>);
            if rret r \<noteq> 0 then return (Some (rret r)) else default_sync_loop fuel E K mx nxt
          }
        }
      })"

definition regcache_default_sync :: "nat \<Rightarrow> rc_env \<Rightarrow> regmap_core \<Rightarrow> u32 \<Rightarrow> u32 \<Rightarrow> (int option) rc_prog" where
  "regcache_default_sync fuel E K mn mx = default_sync_loop fuel E K mx mn"

section \<open>Syncing\<close>

fun apply_patch :: "rc_env \<Rightarrow> reg_default list \<Rightarrow> int rc_prog" where
  "apply_patch E [] = return 0"
| "apply_patch E (d # ds) = do {
     r \<leftarrow> call E (RegmapWrite True (dreg d) (def d));
     if rret r \<noteq> 0 then return (rret r) else apply_patch E ds
   }"

definition run_sync :: "nat \<Rightarrow> rc_env \<Rightarrow> regmap_core \<Rightarrow> u32 \<Rightarrow> u32 \<Rightarrow> (int option) rc_prog" where
  "run_sync fuel E K mn mx = do {
     m \<leftarrow> getd;
     if (case cache_ops m of Some ops \<Rightarrow> has_sync ops | None \<Rightarrow> False) then do {
       r \<leftarrow> call E (CacheSync mn mx);
       return (Some (rret r))
     }
     else regcache_default_sync fuel E K mn mx
   }"

text \<open>The registers that select a page are written again at the end; \<open>ret\<close> is the result so far.\<close>

fun sync_selectors :: "rc_env \<Rightarrow> regmap_core \<Rightarrow> u32 list \<Rightarrow> int \<Rightarrow> int rc_prog" where
  "sync_selectors E K [] ret = return ret"
| "sync_selectors E K (s # ss) ret = do {
     (r, val) \<leftarrow> regcache_read E K s;
     if r \<noteq> 0 then sync_selectors E K ss ret
     else do {
       m \<leftarrow> getd;
       r \<leftarrow> call E (RegmapWrite (cache_bypass m) s val);
       if rret r \<noteq> 0 then return (rret r) else sync_selectors E K ss (rret r)
     }
   }"

definition sync_out :: "rc_env \<Rightarrow> regmap_core \<Rightarrow> bool \<Rightarrow> int \<Rightarrow> (int option) rc_prog" where
  "sync_out E K bypass ret = do {
     modd (\<lambda>m. m\<lparr>cache_bypass := bypass\<rparr>);
     modd (\<lambda>m. m\<lparr>no_sync_defaults := False\<rparr>);
     m \<leftarrow> getd;
     ret \<leftarrow> sync_selectors E K (selectors m) ret;
     exec E Unlock;
     exec E AsyncComplete;
     return (Some ret)
   }"

definition sync_dirty :: "nat \<Rightarrow> rc_env \<Rightarrow> regmap_core \<Rightarrow> (int option) rc_prog" where
  "sync_dirty fuel E K = do {
     m \<leftarrow> getd;
     modd (\<lambda>m. m\<lparr>cache_bypass := True\<rparr>);
     ret \<leftarrow> apply_patch E (patch m);
     if ret \<noteq> 0 then return (Some ret)
     else do {
       modd (\<lambda>m. m\<lparr>cache_bypass := False\<rparr>);
       r \<leftarrow> run_sync fuel E K 0 (max_register m);
       (if r = Some 0 then modd (\<lambda>m. m\<lparr>cache_dirty := False\<rparr>) else return ());
       return r
     }
   }"

definition regcache_sync :: "nat \<Rightarrow> rc_env \<Rightarrow> regmap_core \<Rightarrow> (int option) rc_prog" where
  "regcache_sync fuel E K = do {
     m \<leftarrow> getd;
     if cache_type m = None then return (Some (- EINVAL))
     else do {
       whenM (cache_ops m = None) (exec E Bug);
       exec E Lock;
       m \<leftarrow> getd;
       r \<leftarrow> (if \<not> cache_dirty m then return (Some 0) else sync_dirty fuel E K);
       case r of None \<Rightarrow> return None | Some ret \<Rightarrow> sync_out E K (cache_bypass m) ret
     }
   }"

definition regcache_sync_region :: "nat \<Rightarrow> rc_env \<Rightarrow> regmap_core \<Rightarrow> u32 \<Rightarrow> u32 \<Rightarrow> (int option) rc_prog" where
  "regcache_sync_region fuel E K mn mx = do {
     m \<leftarrow> getd;
     if cache_type m = None then return (Some (- EINVAL))
     else do {
       whenM (cache_ops m = None) (exec E Bug);
       exec E Lock;
       m \<leftarrow> getd;
       r \<leftarrow> (if \<not> cache_dirty m then return (Some 0)
             else do { modd (\<lambda>m. m\<lparr>async := True\<rparr>); run_sync fuel E K mn mx });
       case r of
         None \<Rightarrow> return None
       | Some ret \<Rightarrow> do {
           modd (\<lambda>s. s\<lparr>cache_bypass := cache_bypass m\<rparr>);
           modd (\<lambda>s. s\<lparr>async := False\<rparr>);
           modd (\<lambda>s. s\<lparr>no_sync_defaults := False\<rparr>);
           exec E Unlock;
           exec E AsyncComplete;
           return (Some ret)
         }
     }
   }"

definition regcache_drop_region :: "rc_env \<Rightarrow> u32 \<Rightarrow> u32 \<Rightarrow> int rc_prog" where
  "regcache_drop_region E mn mx = do {
     m \<leftarrow> getd;
     if (case cache_ops m of Some ops \<Rightarrow> \<not> has_drop ops | None \<Rightarrow> True) then return (- EINVAL)
     else do {
       exec E Lock;
       r \<leftarrow> call E (CacheDrop mn mx);
       exec E Unlock;
       return (rret r)
     }
   }"

definition regcache_cache_only :: "rc_env \<Rightarrow> bool \<Rightarrow> unit rc_prog" where
  "regcache_cache_only E enable = do {
     exec E Lock;
     modd (\<lambda>m. m\<lparr>cache_only := enable\<rparr>);
     exec E Unlock
   }"

definition regcache_mark_dirty :: "rc_env \<Rightarrow> unit rc_prog" where
  "regcache_mark_dirty E = do {
     exec E Lock;
     modd (\<lambda>m. m\<lparr>cache_dirty := True\<rparr>);
     modd (\<lambda>m. m\<lparr>no_sync_defaults := True\<rparr>);
     exec E Unlock
   }"

definition regcache_cache_bypass :: "rc_env \<Rightarrow> bool \<Rightarrow> unit rc_prog" where
  "regcache_cache_bypass E enable = do {
     exec E Lock;
     modd (\<lambda>m. m\<lparr>cache_bypass := enable\<rparr>);
     exec E Unlock
   }"

definition regcache_reg_cached :: "rc_env \<Rightarrow> regmap_core \<Rightarrow> u32 \<Rightarrow> bool rc_prog" where
  "regcache_reg_cached E K reg = do {
     exec E Lock;
     (ret, _) \<leftarrow> regcache_read E K reg;
     exec E Unlock;
     return (ret = 0)
   }"

section \<open>Blocks\<close>

definition regcache_reg_present :: "(nat \<Rightarrow> bool) option \<Rightarrow> nat \<Rightarrow> bool" where
  "regcache_reg_present cache_present idx = (case cache_present of None \<Rightarrow> True | Some p \<Rightarrow> p idx)"

text \<open>The register of the word with an index, and whether it is skipped.\<close>

definition reg_at :: "regmap \<Rightarrow> u32 \<Rightarrow> nat \<Rightarrow> u32" where
  "reg_at m block_base i = block_base + of_nat i * reg_stride m"

fun block_single :: "rc_env \<Rightarrow> regmap_core \<Rightarrow> u8 list \<Rightarrow> (nat \<Rightarrow> bool) option \<Rightarrow> u32 \<Rightarrow> nat list \<Rightarrow> int rc_prog" where
  "block_single E K block cache_present block_base [] = return 0"
| "block_single E K block cache_present block_base (i # is) = do {
     m \<leftarrow> getd;
     let regtmp = reg_at m block_base i;
     if \<not> regcache_reg_present cache_present i \<or> \<not> regmap_writeable K regtmp then block_single E K block cache_present block_base is
     else do {
       val \<leftarrow> regcache_get_val E K (Some block) i;
       ret \<leftarrow> regcache_sync_val E K regtmp val;
       if ret \<noteq> 0 then return ret else block_single E K block cache_present block_base is
     }
   }"

definition regcache_sync_block_single :: "rc_env \<Rightarrow> regmap_core \<Rightarrow> u8 list \<Rightarrow> (nat \<Rightarrow> bool) option \<Rightarrow> u32 \<Rightarrow> nat \<Rightarrow> nat \<Rightarrow> int rc_prog" where
  "regcache_sync_block_single E K block cache_present block_base start end_idx =
     block_single E K block cache_present block_base [start..<end_idx]"

text \<open>\<open>data\<close> is the pointer to the first word of the run that is to be written, as the index of the word; the caller's pointer is null afterwards.\<close>

definition regcache_sync_block_raw_flush :: "rc_env \<Rightarrow> regmap_core \<Rightarrow> u8 list \<Rightarrow> nat option \<Rightarrow> u32 \<Rightarrow> u32 \<Rightarrow> int rc_prog" where
  "regcache_sync_block_raw_flush E K block data base cur =
     (case data of
        None \<Rightarrow> return 0
      | Some d \<Rightarrow> do {
          m \<leftarrow> getd;
          let cnt = unat ((cur - base) div reg_stride m);
          modd (\<lambda>m. m\<lparr>cache_bypass := True\<rparr>);
          r \<leftarrow> call E (RegmapRawWrite True base (take (cnt * val_bytes K) (drop (cache_word_size m * d) block)));
          modd (\<lambda>m. m\<lparr>cache_bypass := False\<rparr>);
          return (rret r)
        })"

fun block_raw :: "rc_env \<Rightarrow> regmap_core \<Rightarrow> u8 list \<Rightarrow> (nat \<Rightarrow> bool) option \<Rightarrow> u32 \<Rightarrow> nat list \<Rightarrow> nat option \<Rightarrow> u32 \<Rightarrow> u32 \<Rightarrow> int rc_prog" where
  "block_raw E K block cache_present block_base [] data base regtmp = do {
     m \<leftarrow> getd;
     regcache_sync_block_raw_flush E K block data base (regtmp + reg_stride m)
   }"
| "block_raw E K block cache_present block_base (i # is) data base _ = do {
     m \<leftarrow> getd;
     let regtmp = reg_at m block_base i;
     if \<not> regcache_reg_present cache_present i \<or> \<not> regmap_writeable K regtmp then do {
       ret \<leftarrow> regcache_sync_block_raw_flush E K block data base regtmp;
       if ret \<noteq> 0 then return ret else block_raw E K block cache_present block_base is None base regtmp
     }
     else do {
       val \<leftarrow> regcache_get_val E K (Some block) i;
       if \<not> regcache_reg_needs_sync K m regtmp val then do {
         ret \<leftarrow> regcache_sync_block_raw_flush E K block data base regtmp;
         if ret \<noteq> 0 then return ret else block_raw E K block cache_present block_base is None base regtmp
       }
       else
         case data of
           None \<Rightarrow> block_raw E K block cache_present block_base is (Some i) regtmp regtmp
         | Some d \<Rightarrow> block_raw E K block cache_present block_base is (Some d) base regtmp
     }
   }"

definition regcache_sync_block_raw :: "rc_env \<Rightarrow> regmap_core \<Rightarrow> u8 list \<Rightarrow> (nat \<Rightarrow> bool) option \<Rightarrow> u32 \<Rightarrow> nat \<Rightarrow> nat \<Rightarrow> int rc_prog" where
  "regcache_sync_block_raw E K block cache_present block_base start end_idx =
     block_raw E K block cache_present block_base [start..<end_idx] None 0 0"

definition regcache_sync_block :: "rc_env \<Rightarrow> regmap_core \<Rightarrow> u8 list \<Rightarrow> (nat \<Rightarrow> bool) option \<Rightarrow> u32 \<Rightarrow> nat \<Rightarrow> nat \<Rightarrow> int rc_prog" where
  "regcache_sync_block E K block cache_present block_base start end_idx = do {
     m \<leftarrow> getd;
     if regmap_can_raw_write K \<and> \<not> use_single_write m
     then regcache_sync_block_raw E K block cache_present block_base start end_idx
     else regcache_sync_block_single E K block cache_present block_base start end_idx
   }"

section \<open>Initialisation\<close>

definition cacheable :: "regmap_core \<Rightarrow> regmap \<Rightarrow> nat list" where
  "cacheable K m = filter (\<lambda>i. regmap_readable K (of_nat i * reg_stride m) \<and> \<not> regmap_volatile K (of_nat i * reg_stride m))
     [0..<unat (num_reg_defaults_raw m)]"

definition regcache_count_cacheable_registers :: "regmap_core \<Rightarrow> regmap \<Rightarrow> nat" where
  "regcache_count_cacheable_registers K m = length (cacheable K m)"

text \<open>Filling the defaults: the result, or the error of a register that cannot be read.\<close>

fun fill_defaults :: "rc_env \<Rightarrow> regmap_core \<Rightarrow> nat list \<Rightarrow> nat \<Rightarrow> int rc_prog" where
  "fill_defaults E K [] j = return 0"
| "fill_defaults E K (i # is) j = do {
     m \<leftarrow> getd;
     let reg = of_nat i * reg_stride m;
     if \<not> regmap_readable K reg then fill_defaults E K is j
     else if regmap_volatile K reg then fill_defaults E K is j
     else do {
       (ret, val) \<leftarrow> (case reg_defaults_raw m of
           Some raw \<Rightarrow> do { v \<leftarrow> regcache_get_val E K (Some raw) i; return (0, v) }
         | None \<Rightarrow> do {
             modd (\<lambda>m. m\<lparr>cache_bypass := True\<rparr>);
             r \<leftarrow> call E (RegmapRead True reg);
             modd (\<lambda>s. s\<lparr>cache_bypass := cache_bypass m\<rparr>);
             return (rret r, rval r)
           });
       if ret \<noteq> 0 then return ret
       else do {
         modd (\<lambda>m. m\<lparr>reg_defaults := map_option (\<lambda>ds. ds[j := \<lparr>dreg = reg, def = val\<rparr>]) (reg_defaults m)\<rparr>);
         fill_defaults E K is (j + 1)
       }
     }
   }"

definition read_back :: "rc_env \<Rightarrow> int rc_prog" where
  "read_back E = do {
     m \<leftarrow> getd;
     modd (\<lambda>m. m\<lparr>cache_bypass := True\<rparr>);
     t \<leftarrow> call E (Kmalloc (cache_size_raw m));
     if t = RNull then return (- ENOMEM)
     else do {
       r \<leftarrow> call E (RegmapRawRead True 0 (cache_size_raw m));
       modd (\<lambda>s. s\<lparr>cache_bypass := cache_bypass m\<rparr>);
       (case r of
          RBytes b \<Rightarrow> modd (\<lambda>m. m\<lparr>reg_defaults_raw := Some b, cache_free := True\<rparr>)
        | _ \<Rightarrow> exec E KfreeTmp);
       return 0
     }
   }"

definition regcache_hw_init :: "rc_env \<Rightarrow> regmap_core \<Rightarrow> int rc_prog" where
  "regcache_hw_init E K = do {
     m \<leftarrow> getd;
     ret \<leftarrow> (if reg_defaults_raw m = None then read_back E else return 0);
     if ret \<noteq> 0 then return ret
     else fill_defaults E K [0..<unat (num_reg_defaults_raw m)] 0
   }"

definition regcache_hw_exit :: "rc_env \<Rightarrow> unit rc_prog" where
  "regcache_hw_exit E = do {
     m \<leftarrow> getd;
     whenM (cache_free m) (exec E KfreeRaw)
   }"

definition call_exit :: "rc_env \<Rightarrow> unit rc_prog" where
  "call_exit E = do {
     m \<leftarrow> getd;
     whenM (case cache_ops m of Some ops \<Rightarrow> has_exit ops | None \<Rightarrow> False) (exec E CacheExit)
   }"

text \<open>Freeing a null pointer does nothing.\<close>

definition free_defaults :: "rc_env \<Rightarrow> unit rc_prog" where
  "free_defaults E = do {
     m \<leftarrow> getd;
     whenM (reg_defaults m \<noteq> None) (exec E KfreeDefaults)
   }"

text \<open>The defaults of the configuration in turn: whether one is not a multiple of the stride, and whether they have to be sorted.\<close>

fun scan_defaults :: "u32 \<Rightarrow> u32 \<Rightarrow> bool \<Rightarrow> reg_default list \<Rightarrow> bool option" where
  "scan_defaults stride prev unsorted [] = Some unsorted"
| "scan_defaults stride prev unsorted (d # ds) =
     (if dreg d mod stride \<noteq> 0 then None
      else scan_defaults stride (dreg d) (unsorted \<or> dreg d < prev) ds)"

definition init_populate :: "rc_env \<Rightarrow> int rc_prog" where
  "init_populate E = do {
     m \<leftarrow> getd;
     if (case cache_ops m of Some ops \<Rightarrow> has_populate ops | None \<Rightarrow> False) \<and> (num_reg_defaults m \<noteq> 0 \<or> reg_default_cb m) then do {
       exec E Lock;
       r \<leftarrow> call E CachePopulate;
       exec E Unlock;
       if rret r \<noteq> 0 then do {
         regcache_hw_exit E;
         call_exit E;
         free_defaults E;
         return (rret r)
       }
       else return 0
     }
     else return 0
   }"

definition init_hw :: "rc_env \<Rightarrow> regmap_core \<Rightarrow> nat \<Rightarrow> int rc_prog" where
  "init_hw E K cnt =
     (if cnt \<noteq> 0 then do {
        ret \<leftarrow> regcache_hw_init E K;
        if ret \<noteq> 0 then do { call_exit E; free_defaults E; return ret }
        else init_populate E
      }
      else init_populate E)"

definition init_cache :: "rc_env \<Rightarrow> regmap_core \<Rightarrow> nat \<Rightarrow> int rc_prog" where
  "init_cache E K cnt = do {
     modd (\<lambda>m. if \<not> max_register_is_set m \<and> num_reg_defaults_raw m \<noteq> 0
       then m\<lparr>max_register := (num_reg_defaults_raw m - 1) * reg_stride m, max_register_is_set := True\<rparr> else m);
     m \<leftarrow> getd;
     if (case cache_ops m of Some ops \<Rightarrow> has_init ops | None \<Rightarrow> False) then do {
       r \<leftarrow> call E CacheInit;
       if rret r \<noteq> 0 then do { free_defaults E; return (rret r) } else init_hw E K cnt
     }
     else init_hw E K cnt
   }"

definition init_defaults :: "rc_env \<Rightarrow> regmap_core \<Rightarrow> regmap_config \<Rightarrow> bool \<Rightarrow> int rc_prog" where
  "init_defaults E K config unsorted =
     (case cfg_reg_defaults config of
        Some all \<Rightarrow> do {
          m \<leftarrow> getd;
          let ds = take (unat (num_reg_defaults m)) all;
          t \<leftarrow> call E KmemdupDefaults;
          if t = RNull then return (- ENOMEM)
          else do {
            modd (\<lambda>m. m\<lparr>reg_defaults := Some (if unsorted then regcache_sort_defaults ds else ds)\<rparr>);
            init_cache E K 0
          }
        }
      | None \<Rightarrow> do {
          m \<leftarrow> getd;
          if num_reg_defaults_raw m \<noteq> 0 then do {
            let cnt = regcache_count_cacheable_registers K m;
            modd (\<lambda>m. if cnt = 0 then m\<lparr>cache_bypass := True\<rparr> else m);
            m \<leftarrow> getd;
            if cache_bypass m then return 0
            else do {
              modd (\<lambda>m. m\<lparr>num_reg_defaults := of_nat cnt\<rparr>);
              t \<leftarrow> call E (KmallocDefaults cnt);
              if t = RNull then do { modd (\<lambda>m. m\<lparr>reg_defaults := None\<rparr>); return (- ENOMEM) }
              else do {
                modd (\<lambda>m. m\<lparr>reg_defaults := Some (replicate cnt \<lparr>dreg = 0, def = 0\<rparr>)\<rparr>);
                init_cache E K cnt
              }
            }
          }
          else init_cache E K 0
        })"

definition regcache_init :: "rc_env \<Rightarrow> regmap_core \<Rightarrow> regmap_config \<Rightarrow> int rc_prog" where
  "regcache_init E K config = do {
     m \<leftarrow> getd;
     case cache_type m of
       None \<Rightarrow> do { modd (\<lambda>m. m\<lparr>cache_bypass := True\<rparr>); return 0 }
     | Some t \<Rightarrow>
         if cfg_reg_defaults config \<noteq> None \<and> cfg_num_reg_defaults config = 0 then return (- EINVAL)
         else if cfg_num_reg_defaults config \<noteq> 0 \<and> cfg_reg_defaults config = None then return (- EINVAL)
         else
           case scan_defaults (reg_stride m) 0 False (case cfg_reg_defaults config of Some ds \<Rightarrow> take (unat (cfg_num_reg_defaults config)) ds | None \<Rightarrow> []) of
             None \<Rightarrow> return (- EINVAL)
           | Some unsorted \<Rightarrow>
               case find (\<lambda>ops. ctype ops = t) (cache_types K) of
                 None \<Rightarrow> return (- EINVAL)
               | Some ops \<Rightarrow> do {
                   modd (\<lambda>m. m\<lparr>num_reg_defaults := cfg_num_reg_defaults config, num_reg_defaults_raw := cfg_num_reg_defaults_raw config,
                     reg_defaults_raw := cfg_reg_defaults_raw config, cache_word_size := (cfg_val_bits config + 7) div 8,
                     cache_size_raw := unat (of_nat ((cfg_val_bits config + 7) div 8) * cfg_num_reg_defaults_raw config), cache_ops := Some ops\<rparr>);
                   if \<not> has_read ops \<or> \<not> has_write ops \<or> \<not> has_name ops then return (- EINVAL)
                   else init_defaults E K config unsorted
                 }
   }"

definition regcache_exit :: "rc_env \<Rightarrow> unit rc_prog" where
  "regcache_exit E = do {
     m \<leftarrow> getd;
     if cache_type m = None then return ()
     else do {
       whenM (cache_ops m = None) (exec E Bug);
       regcache_hw_exit E;
       call_exit E;
       free_defaults E
     }
   }"

section \<open>Words read back\<close>

lemma splice_length: "off + length bs \<le> length base \<Longrightarrow> length (splice base off bs) = length base"
  by (simp add: splice_def)

lemma splice_nth:
  "off + length bs \<le> length base \<Longrightarrow> k < length base
    \<Longrightarrow> splice base off bs ! k = (if off \<le> k \<and> k < off + length bs then bs ! (k - off) else base ! k)"
  by (auto simp: splice_def nth_append)

lemma splice_same: "off + length bs \<le> length base \<Longrightarrow> take (length bs) (drop off (splice base off bs)) = bs"
  by (simp add: splice_def)

lemma splice_other:
  assumes "off + length bs \<le> length base" and "p + n \<le> off \<or> off + length bs \<le> p" and "p + n \<le> length base"
  shows "take n (drop p (splice base off bs)) = take n (drop p base)"
  by (rule nth_equalityI) (use assms in \<open>auto simp: splice_length splice_nth\<close>)

lemma get_word_put:
  assumes "n = 1 \<or> n = 2 \<or> n = 4"
  shows "foldr (\<lambda>b v. ucast b OR push_bit 8 v) (put_word n val) 0 = (take_bit (8 * n) val :: u32)"
proof (rule bit_word_eqI)
  fix k
  assume "k < LENGTH(32)"
  then show "bit (foldr (\<lambda>b v. ucast b OR push_bit 8 v) (put_word n val) 0 :: u32) k = bit (take_bit (8 * n) val) k"
    using assms
    by (cases "k < 8"; cases "k < 16"; cases "k < 24") (auto simp: put_word_def upt_rec bit_simps)
qed

lemma put_word_length [simp]: "length (put_word n val) = n"
  by (simp add: put_word_def)

text \<open>A cached word reads back as it was written, cut to the width of a word, and no other word of the block changes.\<close>

theorem word_round_trip:
  assumes "cache_word_size (drv w) = n" and "n = 1 \<or> n = 2 \<or> n = 4" and "n * (idx + 1) \<le> length base"
    and "format_val K = None" and "parse_val K = None"
  shows "\<exists>base'. run_state (regcache_set_val E K base idx val) w = (base', w) \<and> length base' = length base
    \<and> run_state (regcache_get_val E K (Some base') idx) w = (take_bit (8 * n) val, w)
    \<and> (\<forall>j. j \<noteq> idx \<and> n * (j + 1) \<le> length base \<longrightarrow>
        run_state (regcache_get_val E K (Some base') j) w = run_state (regcache_get_val E K (Some base) j) w)"
proof -
  let ?b = "splice base (n * idx) (put_word n val)"
  have l: "n * idx + length (put_word n val) \<le> length base" using assms(3) by (simp add: algebra_simps)
  have g: "get_word n ?b idx = take_bit (8 * n) val"
    using splice_same [OF l] get_word_put [OF assms(2)] by (simp add: get_word_def)
  have o: "get_word n ?b j = get_word n base j" if "j \<noteq> idx" "n * (j + 1) \<le> length base" for j
  proof -
    from that(1) have "j + 1 \<le> idx \<or> idx + 1 \<le> j" by linarith
    then have "n * (j + 1) \<le> n * idx \<or> n * (idx + 1) \<le> n * j" by (metis mult_le_mono2)
    then have "n * j + n \<le> n * idx \<or> n * idx + length (put_word n val) \<le> n * j" by (simp add: algebra_simps)
    from splice_other [OF l this] that(2) show ?thesis by (simp add: get_word_def algebra_simps)
  qed
  show ?thesis
    using assms(1,2,4,5) g o splice_length [OF l]
    by (intro exI [of _ ?b]) (auto simp: regcache_set_val_def regcache_get_val_def Let_def)
qed

section \<open>Searching the defaults\<close>

lemma cmp_simps:
  "regcache_defaults_cmp x y = 0 \<longleftrightarrow> dreg x = dreg y" "0 < regcache_defaults_cmp x y \<longleftrightarrow> dreg y < dreg x"
  by (auto simp: regcache_defaults_cmp_def)

lemma bsearch_spec:
  assumes "sorted (map dreg ds)" and "base + num \<le> length ds"
  shows "case bsearch key ds base num of
      Some i \<Rightarrow> base \<le> i \<and> i < base + num \<and> dreg (ds ! i) = dreg key
    | None \<Rightarrow> \<forall>i. base \<le> i \<and> i < base + num \<longrightarrow> dreg (ds ! i) \<noteq> dreg key"
  using assms
proof (induction key ds base num rule: bsearch.induct)
  case (1 key ds base num)
  let ?p = "base + num div 2"
  let ?c = "regcache_defaults_cmp key (ds ! ?p)"
  have s: "i \<le> j \<Longrightarrow> j < length ds \<Longrightarrow> dreg (ds ! i) \<le> dreg (ds ! j)" for i j
    using "1.prems"(1) by (simp add: sorted_iff_nth_mono)
  consider (none) "num = 0" | (hit) "num \<noteq> 0" "?c = 0" | (right) "num \<noteq> 0" "?c \<noteq> 0" "0 < ?c" | (left) "num \<noteq> 0" "?c \<noteq> 0" "\<not> 0 < ?c"
    by blast
  then show ?case
  proof cases
    case none
    then show ?thesis by (auto simp: bsearch.simps)
  next
    case hit
    then show ?thesis by (simp add: bsearch.simps [of key ds base num] Let_def cmp_simps)
  next
    case right
    have p: "?p < length ds" "dreg (ds ! ?p) < dreg key" using right "1.prems"(2) by (simp_all add: cmp_simps)
    have r: "(?p + 1) + (num - 1) div 2 \<le> base + num" "base + num \<le> (?p + 1) + (num - 1) div 2" using right(1) by presburger+
    have out: "dreg (ds ! i) \<noteq> dreg key" if "i \<le> ?p" for i using s [OF that p(1)] p(2) by auto
    have "case bsearch key ds (?p + 1) ((num - 1) div 2) of
        Some i \<Rightarrow> ?p + 1 \<le> i \<and> i < ?p + 1 + (num - 1) div 2 \<and> dreg (ds ! i) = dreg key
      | None \<Rightarrow> \<forall>i. ?p + 1 \<le> i \<and> i < ?p + 1 + (num - 1) div 2 \<longrightarrow> dreg (ds ! i) \<noteq> dreg key"
      using right r(1) "1.prems" by (intro "1.IH"(1) [OF right(1) refl refl]) simp_all
    moreover have "bsearch key ds base num = bsearch key ds (?p + 1) ((num - 1) div 2)"
      using right by (simp add: bsearch.simps [of key ds base num] Let_def)
    moreover have "i \<le> ?p \<or> ?p + 1 \<le> i \<and> i < ?p + 1 + (num - 1) div 2" if "i < base + num" for i using that r(2) by linarith
    ultimately show ?thesis using r(1) out by (fastforce split: option.splits)
  next
    case left
    have p: "?p < length ds" "dreg key < dreg (ds ! ?p)" using left "1.prems"(2) by (auto simp: regcache_defaults_cmp_def split: if_splits)
    have out: "dreg (ds ! i) \<noteq> dreg key" if "?p \<le> i" "i < length ds" for i using s [OF that] p(2) by auto
    have "case bsearch key ds base (num div 2) of
        Some i \<Rightarrow> base \<le> i \<and> i < base + num div 2 \<and> dreg (ds ! i) = dreg key
      | None \<Rightarrow> \<forall>i. base \<le> i \<and> i < base + num div 2 \<longrightarrow> dreg (ds ! i) \<noteq> dreg key"
      using left "1.prems" by (intro "1.IH"(2) [OF left(1) refl refl]) simp_all
    moreover have "bsearch key ds base num = bsearch key ds base (num div 2)"
      using left by (simp add: bsearch.simps [of key ds base num] Let_def)
    moreover have "?p \<le> i \<and> i < length ds \<or> i < base + num div 2" if "i < base + num" for i using that "1.prems"(2) by linarith
    ultimately show ?thesis using out by (fastforce split: option.splits)
  qed
qed

lemma lookup_spec:
  assumes "sorted (map dreg (defaults_of m))" and "length (defaults_of m) = unat (num_reg_defaults m)"
  shows "(0 \<le> regcache_lookup_reg m reg \<longleftrightarrow> reg \<in> dreg ` set (defaults_of m))
    \<and> (0 \<le> regcache_lookup_reg m reg \<longrightarrow> nat (regcache_lookup_reg m reg) < length (defaults_of m)
        \<and> dreg (defaults_of m ! nat (regcache_lookup_reg m reg)) = reg)"
  using bsearch_spec [OF assms(1), of 0 "length (defaults_of m)" "\<lparr>dreg = reg, def = 0\<rparr>"] assms(2)
  by (auto simp: regcache_lookup_reg_def set_conv_nth split: option.splits)

lemma scan_sorted: "scan_defaults stride prev False ds = Some False \<Longrightarrow> sorted (map dreg ds) \<and> (\<forall>d \<in> set ds. prev \<le> dreg d)"
proof -
  have never: "scan_defaults stride p True xs \<noteq> Some False" for p xs by (induction xs arbitrary: p) auto
  show "scan_defaults stride prev False ds = Some False \<Longrightarrow> ?thesis"
  proof (induction ds arbitrary: prev)
    case (Cons d ds)
    have "\<not> dreg d < prev" using Cons.prems never [of "dreg d" ds] by (auto split: if_splits)
    with Cons.prems have "scan_defaults stride (dreg d) False ds = Some False" "prev \<le> dreg d" by (simp_all split: if_splits)
    with Cons.IH [of "dreg d"] show ?case by auto
  qed simp
qed

text \<open>What the steps after the defaults were copied keep.\<close>

definition default_view :: "regmap \<Rightarrow> reg_default list option \<times> u32" where
  "default_view m = (reg_defaults m, num_reg_defaults m)"

lemma keeps_free [keeps_intros]: "keeps f (free_defaults E)"
  unfolding free_defaults_def by (intro keeps_intros)

lemma keeps_exits [keeps_intros]: "keeps f (call_exit E)" "keeps f (regcache_hw_exit E)"
  unfolding call_exit_def regcache_hw_exit_def by (intro keeps_intros)+

lemma keeps_init_populate: "keeps f (init_populate E)"
  unfolding init_populate_def by (intro keeps_intros)

lemma init_hw_none: "init_hw E K 0 = init_populate E"
  by (simp add: init_hw_def)

lemma keeps_init_cache0: "keeps default_view (init_cache E K 0)"
  unfolding init_cache_def init_hw_none
  by (intro keeps_intros keeps_init_populate) (simp add: default_view_def)

lemma init_defaults_given:
  assumes "cfg_reg_defaults config = Some ds" and "unat (num_reg_defaults (drv w)) = length ds"
  shows "wp (init_defaults E K config unsorted) (\<lambda>ret w'. ret = 0 \<longrightarrow>
    default_view (drv w') = (Some (if unsorted then regcache_sort_defaults ds else ds), num_reg_defaults (drv w))) w"
  unfolding init_defaults_def assms(1) option.case wp_bind wp_getd wp_let wp_call
  by (auto simp: assms(2) wp_simps default_view_def intro!: wp_mono [OF keeps_wp [OF keeps_init_cache0]])

text \<open>Defaults given with a configuration are found again. After an initialisation that succeeds, the map has the same defaults in ascending
  order, whatever order they came in, and the binary search finds a register exactly if it is among them: the index it returns
  is inside the array and belongs to that register.\<close>

theorem init_defaults_found:
  assumes "run_state (regcache_init E K config) w = (0, w')" and "cache_type (drv w) \<noteq> None"
    and "cfg_reg_defaults config = Some ds" and "unat (cfg_num_reg_defaults config) = length ds"
  shows "sorted (map dreg (defaults_of (drv w'))) \<and> mset (defaults_of (drv w')) = mset ds
    \<and> (0 \<le> regcache_lookup_reg (drv w') reg \<longleftrightarrow> reg \<in> dreg ` set ds)
    \<and> (0 \<le> regcache_lookup_reg (drv w') reg \<longrightarrow> nat (regcache_lookup_reg (drv w') reg) < length ds
        \<and> dreg (defaults_of (drv w') ! nat (regcache_lookup_reg (drv w') reg)) = reg)"
proof -
  let ?ds = "\<lambda>u. if u then regcache_sort_defaults ds else ds"
  let ?Q = "\<lambda>ret w'. ret = 0 \<longrightarrow> (\<exists>u. scan_defaults (reg_stride (drv w)) 0 False ds = Some u
    \<and> default_view (drv w') = (Some (?ds u), cfg_num_reg_defaults config))"
  obtain t where t: "cache_type (drv w) = Some t" using assms(2) by auto
  have "wp (regcache_init E K config) ?Q w"
    unfolding regcache_init_def wp_bind wp_getd t option.case assms(3,4) take_all [OF order_refl]
    apply (rule wp_ifI, rule wp_returnI, simp)
    apply (rule wp_ifI, rule wp_returnI, simp)
    apply (rule wp_case_optionI, rule wp_returnI, simp)
    apply (rule wp_case_optionI, rule wp_returnI, simp)
    apply (rule wp_bindI, rule wp_modd_step, rule wp_ifI, rule wp_returnI, simp)
    apply (rule wp_mono [OF init_defaults_given [OF assms(3)]])
    apply (simp add: assms(4))
    apply (auto simp: default_view_def)
    done
  from wpD [OF this assms(1)] obtain u where u: "scan_defaults (reg_stride (drv w)) 0 False ds = Some u"
    "default_view (drv w') = (Some (?ds u), cfg_num_reg_defaults config)" by auto
  have d: "defaults_of (drv w') = ?ds u" "num_reg_defaults (drv w') = cfg_num_reg_defaults config"
    using u(2) by (simp_all add: defaults_of_def default_view_def)
  have s: "sorted (map dreg (?ds u))"
    using u(1) scan_sorted [of "reg_stride (drv w)" 0 ds] by (cases u) (simp_all add: regcache_sort_defaults_def)
  have m: "mset (?ds u) = mset ds" "set (?ds u) = set ds" "length (?ds u) = length ds" by (simp_all add: regcache_sort_defaults_def)
  have "length (defaults_of (drv w')) = unat (num_reg_defaults (drv w'))" unfolding d using m(3) assms(4) by simp
  from lookup_spec [OF _ this, of reg] s m show ?thesis unfolding d by simp
qed

section \<open>Blocks\<close>

text \<open>What reaches the hardware: registers with their values, in order. A raw write of bytes is one register per word.\<close>

definition word_at :: "regmap_core \<Rightarrow> nat \<Rightarrow> u8 list \<Rightarrow> nat \<Rightarrow> u32" where
  "word_at K n b i = (case parse_val K of Some f \<Rightarrow> f (drop (n * i) b) | None \<Rightarrow> get_word n b i)"

fun hw_of :: "regmap_core \<Rightarrow> regmap \<Rightarrow> rc_req \<times> rc_resp \<Rightarrow> (u32 \<times> u32) list" where
  "hw_of K m (RegmapWrite b reg val, r) = [(reg, val)]"
| "hw_of K m (RegmapRawWrite b base bs, r) =
     map (\<lambda>k. (base + of_nat k * reg_stride m, word_at K (cache_word_size m) bs k)) [0..<length bs div cache_word_size m]"
| "hw_of K m x = []"

definition hw_writes :: "regmap_core \<Rightarrow> regmap \<Rightarrow> (rc_req \<times> rc_resp) list \<Rightarrow> (u32 \<times> u32) list" where
  "hw_writes K m h = concat (map (hw_of K m) h)"

lemma hw_writes_simps [simp]:
  "hw_writes K m [] = []" "hw_writes K m (x # h) = hw_of K m x @ hw_writes K m h" "hw_writes K m (h @ k) = hw_writes K m h @ hw_writes K m k"
  by (simp_all add: hw_writes_def)

text \<open>What has to be written of a block: the words that are present and need it.\<close>

definition wanted :: "regmap_core \<Rightarrow> regmap \<Rightarrow> u8 list \<Rightarrow> (nat \<Rightarrow> bool) option \<Rightarrow> u32 \<Rightarrow> nat \<Rightarrow> bool" where
  "wanted K m block cache_present block_base i \<longleftrightarrow> regcache_reg_present cache_present i
     \<and> regcache_reg_needs_sync K m (reg_at m block_base i) (word_at K (cache_word_size m) block i)"

definition block_spec :: "regmap_core \<Rightarrow> regmap \<Rightarrow> u8 list \<Rightarrow> (nat \<Rightarrow> bool) option \<Rightarrow> u32 \<Rightarrow> nat list \<Rightarrow> (u32 \<times> u32) list" where
  "block_spec K m block cache_present block_base is =
     map (\<lambda>i. (reg_at m block_base i, word_at K (cache_word_size m) block i)) (filter (wanted K m block cache_present block_base) is)"

text \<open>
  The block fits: the words have the size of a value, the registers do not wrap, and a parser reads one word only.
\<close>

definition block_fits :: "regmap_core \<Rightarrow> regmap \<Rightarrow> u8 list \<Rightarrow> nat \<Rightarrow> bool" where
  "block_fits K m block e \<longleftrightarrow> val_bytes K = cache_word_size m \<and> 0 < cache_word_size m
     \<and> (parse_val K = None \<longrightarrow> cache_word_size m = 1 \<or> cache_word_size m = 2 \<or> cache_word_size m = 4)
     \<and> (\<forall>f bs. parse_val K = Some f \<longrightarrow> f (take (cache_word_size m) bs) = f bs)
     \<and> reg_stride m \<noteq> 0 \<and> e * unat (reg_stride m) < 2 ^ 32 \<and> cache_word_size m * e \<le> length block"

definition writes_succeed :: "rc_env \<Rightarrow> bool" where
  "writes_succeed E \<longleftrightarrow> (\<forall>h b reg val bs. rret (E h (RegmapWrite b reg val)) = 0 \<and> rret (E h (RegmapRawWrite b reg bs)) = 0)"

lemma get_val_fits: "block_fits K m block e \<Longrightarrow> drv w = m\<lparr>cache_bypass := x\<rparr> \<Longrightarrow>
    wp (regcache_get_val E K (Some block) i) Q w = Q (word_at K (cache_word_size m) block i) w"
  by (auto simp: block_fits_def regcache_get_val_def wp_simps Let_def word_at_def split: option.splits)

lemma bypass_irrelevant [simp]:
  "regcache_reg_needs_sync K (m\<lparr>cache_bypass := x\<rparr>) reg val = regcache_reg_needs_sync K m reg val"
  "reg_at (m\<lparr>cache_bypass := x\<rparr>) = reg_at m"
  by (simp_all add: regcache_reg_needs_sync_def regcache_lookup_reg_def defaults_of_def reg_at_def fun_eq_iff)

text \<open>\<open>same_map m w w'\<close> and the outcome of both ways of writing a block.\<close>

definition block_post :: "regmap_core \<Rightarrow> regmap \<Rightarrow> (u32 \<times> u32) list \<Rightarrow> rc_world \<Rightarrow> int \<Rightarrow> rc_world \<Rightarrow> bool" where
  "block_post K m ws w ret w' \<longleftrightarrow> ret = 0 \<and> (\<exists>x. drv w' = m\<lparr>cache_bypass := x\<rparr>)
     \<and> (\<exists>new. hist w' = hist w @ new \<and> hw_writes K m new = ws)"

lemma block_post_step:
  "block_post K m ws v ret w' \<Longrightarrow> hist v = hist w @ new \<Longrightarrow> hw_writes K m new = pre \<Longrightarrow> block_post K m (pre @ ws) w ret w'"
  unfolding block_post_def by (elim conjE exE) (intro conjI exI, assumption, assumption, auto)

lemma not_wanted:
  "\<not> regcache_reg_present cache_present i \<or> \<not> regmap_writeable K (reg_at m block_base i) \<Longrightarrow> \<not> wanted K m block cache_present block_base i"
  by (auto simp: wanted_def regcache_reg_needs_sync_def)

lemma block_single_post:
  fixes w :: rc_world
  assumes "writes_succeed E" and "block_fits K m block e" and "drv w = m\<lparr>cache_bypass := x\<rparr>"
  shows "wp (block_single E K block cache_present block_base is) (block_post K m (block_spec K m block cache_present block_base is) w) w"
  using assms(3)
proof (induction "is" arbitrary: w x)
  case Nil
  then show ?case by (auto simp: wp_simps block_post_def block_spec_def)
next
  case (Cons i "is")
  let ?s = "block_spec K m block cache_present block_base is"
  let ?reg = "reg_at m block_base i"
  let ?val = "word_at K (cache_word_size m) block i"
  show ?case
  proof (cases "\<not> regcache_reg_present cache_present i \<or> \<not> regmap_writeable K ?reg")
    case True
    from Cons.IH [OF Cons.prems] True not_wanted [OF True] show ?thesis
      by (auto simp: wp_simps Let_def Cons.prems block_spec_def)
  next
    case False
    show ?thesis
    proof (cases "regcache_reg_needs_sync K m ?reg ?val")
      case n: True
      let ?q = "RegmapWrite True ?reg ?val"
      let ?v = "w\<lparr>hist := hist w @ [(?q, E (hist w) ?q)], drv := m\<lparr>cache_bypass := False\<rparr>\<rparr>"
      have r: "rret (E (hist w) ?q) = 0" using assms(1) by (simp add: writes_succeed_def)
      have sp: "block_spec K m block cache_present block_base (i # is) = [(?reg, ?val)] @ ?s"
        using False n by (simp add: block_spec_def wanted_def)
      have hw: "hw_writes K m [(?q, E (hist w) ?q)] = [(?reg, ?val)]" by simp
      have "wp (block_single E K block cache_present block_base is) (block_post K m ([(?reg, ?val)] @ ?s) w) ?v"
        by (rule wp_mono [OF Cons.IH [of ?v False]], simp, rule block_post_step [OF _ _ hw], assumption) simp
      then show ?thesis
        unfolding sp using False n r
        by (auto simp: wp_bind wp_getd wp_if wp_let get_val_fits [OF assms(2) Cons.prems] regcache_sync_val_def wp_modd wp_call wp_return Let_def Cons.prems)
    next
      case n: False
      with Cons.IH [OF Cons.prems] False show ?thesis
        by (auto simp: wp_bind wp_getd wp_if wp_let get_val_fits [OF assms(2) Cons.prems] regcache_sync_val_def wp_return Let_def Cons.prems block_spec_def wanted_def)
    qed
  qed
qed

text \<open>A run of words written at once is the words one by one.\<close>

lemma run_count:
  assumes "block_fits K m block e" and "d \<le> i" and "i \<le> e"
  shows "unat ((reg_at m block_base i - reg_at m block_base d) div reg_stride m) = i - d"
proof -
  have s: "0 < unat (reg_stride m)" using assms(1) by (simp add: block_fits_def unat_gt_0)
  have "(i - d) * unat (reg_stride m) \<le> e * unat (reg_stride m)" using assms(2,3) by (intro mult_le_mono1) simp
  also have "\<dots> < 2 ^ 32" using assms(1) by (simp add: block_fits_def)
  finally have b: "(i - d) * unat (reg_stride m) < 2 ^ 32" .
  have "reg_at m block_base i - reg_at m block_base d = of_nat ((i - d) * unat (reg_stride m))"
    using assms(2) by (simp add: reg_at_def of_nat_diff algebra_simps)
  moreover have "unat (of_nat ((i - d) * unat (reg_stride m)) :: u32) = (i - d) * unat (reg_stride m)"
    using b by (simp only: unsigned_of_nat) (simp add: take_bit_nat_eq_self)
  ultimately show ?thesis using s by (simp add: unat_div)
qed

lemma slice_inside: "a + n \<le> b \<Longrightarrow> take n (drop a (take b xs)) = take n (drop a xs)"
  by (simp add: drop_take min_absorb1)

lemma word_at_slice:
  assumes "block_fits K m block e" and "i \<le> e" and "d + k < i"
  shows "word_at K (cache_word_size m) (take ((i - d) * cache_word_size m) (drop (cache_word_size m * d) block)) k
    = word_at K (cache_word_size m) block (d + k)"
proof -
  let ?n = "cache_word_size m"
  have l: "?n * k + ?n \<le> (i - d) * ?n"
  proof -
    have "(k + 1) * ?n \<le> (i - d) * ?n" using assms(3) by (intro mult_le_mono1) simp
    then show ?thesis by (simp add: algebra_simps)
  qed
  have t: "take ?n (drop (?n * k) (take ((i - d) * ?n) (drop (?n * d) block))) = take ?n (drop (?n * (d + k)) block)"
    unfolding slice_inside [OF l] drop_drop by (simp add: algebra_simps)
  show ?thesis
  proof (cases "parse_val K")
    case None
    with t show ?thesis by (simp add: word_at_def get_word_def)
  next
    case (Some f)
    then have "f (take ?n bs) = f bs" for bs using assms(1) by (simp add: block_fits_def)
    with Some t show ?thesis unfolding word_at_def option.case by (metis (no_types) option.simps(5))
  qed
qed

lemma flush_writes:
  assumes "block_fits K m block e" and "d < i" and "i \<le> e" and "\<And>j. d \<le> j \<Longrightarrow> j < i \<Longrightarrow> wanted K m block cache_present block_base j"
  shows "hw_of K m (RegmapRawWrite True (reg_at m block_base d) (take ((i - d) * cache_word_size m) (drop (cache_word_size m * d) block)), r)
    = block_spec K m block cache_present block_base [d..<i]"
proof -
  let ?n = "cache_word_size m"
  let ?bs = "take ((i - d) * ?n) (drop (?n * d) block)"
  have "?n * i \<le> ?n * e" using assms(3) by simp
  also have "\<dots> \<le> length block" using assms(1) by (simp add: block_fits_def)
  finally have "(i - d) * ?n \<le> length block - ?n * d" by (simp add: algebra_simps diff_mult_distrib)
  then have l: "length ?bs div ?n = i - d" using assms(1) by (simp add: block_fits_def min_absorb2)
  have f: "filter (wanted K m block cache_present block_base) [d..<i] = [d..<i]" using assms(4) by (intro filter_True) auto
  have "hw_of K m (RegmapRawWrite True (reg_at m block_base d) ?bs, r)
    = map (\<lambda>k. (reg_at m block_base (d + k), word_at K ?n block (d + k))) [0..<i - d]"
    unfolding hw_of.simps l
    by (rule map_cong [OF refl]) (use word_at_slice [OF assms(1,3)] in \<open>auto simp: reg_at_def algebra_simps\<close>)
  also have "\<dots> = map (\<lambda>j. (reg_at m block_base j, word_at K ?n block j)) [d..<i]"
    using assms(2) by (intro nth_equalityI) simp_all
  finally show ?thesis by (simp add: block_spec_def f)
qed

lemma flush_post:
  fixes w :: rc_world
  assumes "writes_succeed E" and "block_fits K m block e" and "drv w = m\<lparr>cache_bypass := x\<rparr>" and "i \<le> e"
    and "\<And>d. data = Some d \<Longrightarrow> d < i \<and> base = reg_at m block_base d \<and> (\<forall>j. d \<le> j \<and> j < i \<longrightarrow> wanted K m block cache_present block_base j)"
  shows "wp (regcache_sync_block_raw_flush E K block data base (reg_at m block_base i))
    (block_post K m (case data of None \<Rightarrow> [] | Some d \<Rightarrow> block_spec K m block cache_present block_base [d..<i]) w) w"
proof (cases data)
  case None
  then show ?thesis using assms(3) by (auto simp: regcache_sync_block_raw_flush_def wp_simps block_post_def)
next
  case (Some d)
  note d = assms(5) [OF Some]
  let ?q = "RegmapRawWrite True (reg_at m block_base d) (take ((i - d) * cache_word_size m) (drop (cache_word_size m * d) block))"
  have v: "val_bytes K = cache_word_size m" using assms(2) by (simp add: block_fits_def)
  have r: "rret (E (hist w) ?q) = 0" using assms(1) by (simp add: writes_succeed_def)
  have c: "unat ((reg_at m block_base i - reg_at m block_base d) div reg_stride m) = i - d"
    by (rule run_count [OF assms(2) _ assms(4)]) (use d in simp)
  have hw: "hw_writes K m [(?q, E (hist w) ?q)] = block_spec K m block cache_present block_base [d..<i]"
    using flush_writes [OF assms(2) _ assms(4), of d cache_present block_base] d by simp
  show ?thesis
    using Some d r hw
    by (auto simp: regcache_sync_block_raw_flush_def wp_simps Let_def assms(3) c v block_post_def)
qed

definition run_inv :: "regmap_core \<Rightarrow> regmap \<Rightarrow> u8 list \<Rightarrow> (nat \<Rightarrow> bool) option \<Rightarrow> u32 \<Rightarrow> nat \<Rightarrow> nat option \<Rightarrow> u32 \<Rightarrow> u32 \<Rightarrow> bool" where
  "run_inv K m block cp bb i data base rt \<longleftrightarrow> (\<forall>d. data = Some d \<longrightarrow> d < i \<and> base = reg_at m bb d \<and> rt = reg_at m bb (i - 1)
     \<and> (\<forall>j. d \<le> j \<and> j < i \<longrightarrow> wanted K m block cp bb j))"

definition run_from :: "nat \<Rightarrow> nat option \<Rightarrow> nat" where
  "run_from i data = (case data of None \<Rightarrow> i | Some d \<Rightarrow> d)"

lemma block_spec_append: "block_spec K m block cp bb (xs @ ys) = block_spec K m block cp bb xs @ block_spec K m block cp bb ys"
  by (simp add: block_spec_def)

lemma block_raw_post:
  fixes w :: rc_world
  assumes "writes_succeed E" and "block_fits K m block e"
  shows "i \<le> e \<Longrightarrow> run_inv K m block cp bb i data base rt \<Longrightarrow> drv w = m\<lparr>cache_bypass := x\<rparr> \<Longrightarrow>
    wp (block_raw E K block cp bb [i..<e] data base rt) (block_post K m (block_spec K m block cp bb [run_from i data..<e]) w) w"
proof (induction "e - i" arbitrary: i data base rt w x)
  case 0
  then have i: "i = e" by simp
  have "rt + reg_stride m = reg_at m bb e" if "data = Some d" for d
  proof -
    have "d < e" "rt = reg_at m bb (e - 1)" using 0(3) that i by (auto simp: run_inv_def)
    then show ?thesis by (cases e) (simp_all add: reg_at_def algebra_simps)
  qed
  then have "wp (regcache_sync_block_raw_flush E K block data base (rt + reg_stride m))
      (block_post K m (case data of None \<Rightarrow> [] | Some d \<Rightarrow> block_spec K m block cp bb [d..<e]) w) w"
    using flush_post [OF assms 0(4) order_refl, of data base bb cp] 0(3) i
    by (cases data) (auto simp: run_inv_def regcache_sync_block_raw_flush_def)
  moreover have "(case data of None \<Rightarrow> [] | Some d \<Rightarrow> block_spec K m block cp bb [d..<e]) = block_spec K m block cp bb [run_from i data..<e]"
    by (cases data) (simp_all add: run_from_def i block_spec_def)
  ultimately show ?case by (simp add: i wp_simps 0(4))
next
  case (Suc n)
  let ?is = "[Suc i..<e]"
  let ?reg = "reg_at m bb i"
  let ?s = "block_spec K m block cp bb"
  have e: "i < e" "n = e - Suc i" "Suc i \<le> e" using Suc.hyps(2) by simp_all
  have u: "[i..<e] = i # ?is" using e(1) by (simp add: upt_rec)
  have f: "run_from i data \<le> i" using Suc.prems(2) by (auto simp: run_from_def run_inv_def split: option.splits)
  have sp: "?s [run_from i data..<e] = ?s [run_from i data..<i] @ ?s [i] @ ?s ?is"
  proof -
    have "[run_from i data..<e] = [run_from i data..<i] @ [i] @ ?is" using f e(1) upt_add_eq_append [of "run_from i data" i "e - i"] u by simp
    then show ?thesis by (simp add: block_spec_def)
  qed
  have skip: "wp (State_Monad.bind (regcache_sync_block_raw_flush E K block data base ?reg)
      (\<lambda>ret. if ret \<noteq> 0 then return ret else block_raw E K block cp bb ?is None base ?reg))
      (block_post K m (?s [run_from i data..<e]) w) w" if nw: "\<not> wanted K m block cp bb i"
    unfolding wp_bind
  proof (rule wp_mono [OF flush_post [OF assms Suc.prems(3), of i data base bb cp]])
    show "i \<le> e" using e by simp
    show "d < i \<and> base = reg_at m bb d \<and> (\<forall>j. d \<le> j \<and> j < i \<longrightarrow> wanted K m block cp bb j)" if "data = Some d" for d
      using Suc.prems(2) that by (auto simp: run_inv_def)
    fix ret and v :: rc_world
    assume p: "block_post K m (case data of None \<Rightarrow> [] | Some d \<Rightarrow> ?s [d..<i]) w ret v"
    then obtain y new where y: "ret = 0" "drv v = m\<lparr>cache_bypass := y\<rparr>" "hist v = hist w @ new"
      "hw_writes K m new = (case data of None \<Rightarrow> [] | Some d \<Rightarrow> ?s [d..<i])" unfolding block_post_def by blast
    have pre: "hw_writes K m new = ?s [run_from i data..<i]" unfolding y(4) by (cases data) (simp_all add: run_from_def block_spec_def)
    have inv: "run_inv K m block cp bb (Suc i) None base ?reg" by (simp add: run_inv_def)
    have eq: "?s [run_from i data..<i] @ ?s [i] @ ?s ?is = ?s [run_from i data..<i] @ ?s [run_from (Suc i) None..<e]"
      using nw by (simp add: block_spec_def run_from_def)
    show "wp (if ret \<noteq> 0 then return ret else block_raw E K block cp bb ?is None base ?reg) (block_post K m (?s [run_from i data..<e]) w) v"
      unfolding sp eq y(1)
      by (simp, rule wp_mono [OF Suc.hyps(1) [OF e(2,3) inv y(2)]], rule block_post_step [OF _ y(3) pre])
  qed
  have go: "wp (block_raw E K block cp bb ?is (Some (run_from i data)) (reg_at m bb (run_from i data)) ?reg)
      (block_post K m (?s [run_from i data..<e]) w) w" if "wanted K m block cp bb i"
  proof -
    have "run_inv K m block cp bb (Suc i) (Some (run_from i data)) (reg_at m bb (run_from i data)) ?reg"
      using Suc.prems(2) that f by (auto simp: run_inv_def run_from_def less_Suc_eq split: option.splits)
    from Suc.hyps(1) [OF e(2,3) this Suc.prems(3)] show ?thesis by (simp add: run_from_def)
  qed
  have b: "base = reg_at m bb d" if "data = Some d" for d using Suc.prems(2) that by (simp add: run_inv_def)
  show ?case
  proof (cases "\<not> regcache_reg_present cp i \<or> \<not> regmap_writeable K ?reg")
    case True
    from skip [OF not_wanted [OF True]] True show ?thesis
      unfolding u block_raw.simps by (auto simp: wp_bind wp_getd wp_if wp_let Suc.prems(3))
  next
    case False
    then have w: "wanted K m block cp bb i \<longleftrightarrow> regcache_reg_needs_sync K m ?reg (word_at K (cache_word_size m) block i)" by (simp add: wanted_def)
    show ?thesis
    proof (cases "wanted K m block cp bb i")
      case True
      with go False w b show ?thesis
        unfolding u block_raw.simps
        by (cases data) (simp_all add: wp_bind wp_getd wp_if wp_let get_val_fits [OF assms(2) Suc.prems(3)] Suc.prems(3) run_from_def)
    next
      case nw: False
      with skip [OF nw] False w show ?thesis
        unfolding u block_raw.simps
        by (simp add: wp_bind wp_getd wp_if wp_let get_val_fits [OF assms(2) Suc.prems(3)] Suc.prems(3))
    qed
  qed
qed

text \<open>C25. Writing a block in runs is writing it word by word. When the writes succeed, both ways return success and
  reach the hardware as the same registers with the same values in the same order, the words that are present and need it: no run covers
  a word that is not to be written, and none is lost where one ends. It does not matter which way a map chooses.\<close>

theorem block_runs_equal_single:
  assumes "writes_succeed E" and "block_fits K (drv w) block e" and "s \<le> e"
  shows "\<exists>raw w1 single w2. run_state (regcache_sync_block_raw E K block cp bb s e) w = (0, w1) \<and> hist w1 = hist w @ raw
    \<and> run_state (regcache_sync_block_single E K block cp bb s e) w = (0, w2) \<and> hist w2 = hist w @ single
    \<and> hw_writes K (drv w) raw = hw_writes K (drv w) single
    \<and> hw_writes K (drv w) single = block_spec K (drv w) block cp bb [s..<e]
    \<and> (\<exists>x. drv w1 = (drv w)\<lparr>cache_bypass := x\<rparr>) \<and> (\<exists>x. drv w2 = (drv w)\<lparr>cache_bypass := x\<rparr>)"
proof -
  have d: "drv w = (drv w)\<lparr>cache_bypass := cache_bypass (drv w)\<rparr>" by simp
  have "wp (regcache_sync_block_raw E K block cp bb s e) (block_post K (drv w) (block_spec K (drv w) block cp bb [s..<e]) w) w"
    unfolding regcache_sync_block_raw_def
    using block_raw_post [OF assms(1,2,3) _ d, of cp bb None 0 0] by (simp add: run_inv_def run_from_def)
  moreover have "wp (regcache_sync_block_single E K block cp bb s e) (block_post K (drv w) (block_spec K (drv w) block cp bb [s..<e]) w) w"
    unfolding regcache_sync_block_single_def by (rule block_single_post [OF assms(1,2) d])
  ultimately show ?thesis
    unfolding wp_def block_post_def by (auto simp: case_prod_beta prod_eq_iff)
qed

section \<open>Syncing\<close>

text \<open>A cache implementation that holds \<open>C\<close>: it answers with the value, or that there is none.\<close>

definition cache_answers :: "rc_env \<Rightarrow> (u32 \<rightharpoonup> u32) \<Rightarrow> bool" where
  "cache_answers E C \<longleftrightarrow> (\<forall>h reg. E h (CacheRead reg) = (case C reg of Some v \<Rightarrow> RVal v | None \<Rightarrow> RRet (- ENOENT)))"

text \<open>The registers of a region, how many there are, and what has to be written of them.\<close>

definition turns :: "u32 \<Rightarrow> u32 \<Rightarrow> u32 \<Rightarrow> nat" where
  "turns stride mx reg = (if mx < reg then 0 else Suc ((unat mx - unat reg) div unat stride))"

definition region :: "u32 \<Rightarrow> u32 \<Rightarrow> u32 \<Rightarrow> u32 list" where
  "region stride mn mx = map (\<lambda>k. mn + of_nat k * stride) [0..<turns stride mx mn]"

definition sync_one :: "regmap_core \<Rightarrow> regmap \<Rightarrow> (u32 \<rightharpoonup> u32) \<Rightarrow> u32 \<Rightarrow> (u32 \<times> u32) list" where
  "sync_one K m C reg =
     (case C reg of Some v \<Rightarrow> if \<not> regmap_volatile K reg \<and> regcache_reg_needs_sync K m reg v then [(reg, v)] else [] | None \<Rightarrow> [])"

definition sync_spec :: "regmap_core \<Rightarrow> regmap \<Rightarrow> (u32 \<rightharpoonup> u32) \<Rightarrow> u32 list \<Rightarrow> (u32 \<times> u32) list" where
  "sync_spec K m C regs = concat (map (sync_one K m C) regs)"

lemma turns_step:
  assumes "reg \<le> mx" and "unat mx + unat stride < 2 ^ 32" and "stride \<noteq> 0"
  shows "turns stride mx reg = Suc (turns stride mx (reg + stride))"
proof -
  have p: "0 < unat stride" using assms(3) by (simp add: unat_gt_0)
  have l: "unat reg \<le> unat mx" using assms(1) by (simp add: word_le_nat_alt)
  have s: "unat (reg + stride) = unat reg + unat stride" using l assms(2) by (simp add: unat_word_ariths)
  show ?thesis
  proof (cases "unat mx < unat reg + unat stride")
    case True
    then have "(unat mx - unat reg) div unat stride = 0" using l by simp
    then show ?thesis using True l s assms(1) by (simp add: turns_def word_less_nat_alt not_less)
  next
    case False
    then have e: "unat mx - unat reg = (unat mx - (unat reg + unat stride)) + unat stride" by linarith
    have "(unat mx - unat reg) div unat stride = Suc ((unat mx - (unat reg + unat stride)) div unat stride)"
      unfolding e using p by (simp only: div_add_self2 Suc_eq_plus1 not_gr_zero)
    then show ?thesis using False s assms(1) by (simp add: turns_def word_less_nat_alt not_less)
  qed
qed

lemma region_step:
  assumes "reg \<le> mx" and "unat mx + unat stride < 2 ^ 32" and "stride \<noteq> 0"
  shows "region stride reg mx = reg # region stride (reg + stride) mx"
proof -
  have "map (\<lambda>k. reg + of_nat k * stride) [Suc 0..<Suc n] = map (\<lambda>k. reg + stride + of_nat k * stride) [0..<n]" for n
    unfolding map_Suc_upt [symmetric] map_map by (rule map_cong) (simp_all add: algebra_simps)
  then show ?thesis
    unfolding region_def turns_step [OF assms] upt_conv_Cons [OF zero_less_Suc] by simp
qed

lemma region_end: "mx < reg \<Longrightarrow> region stride reg mx = []"
  by (simp add: region_def turns_def)

definition ends_with :: "regmap_core \<Rightarrow> regmap \<Rightarrow> (u32 \<times> u32) list \<Rightarrow> rc_world \<Rightarrow> int option \<Rightarrow> rc_world \<Rightarrow> bool" where
  "ends_with K m ws w r w' \<longleftrightarrow> (\<exists>ret. r = Some ret \<and> block_post K m ws w ret w')"

lemma ends_with_step:
  "ends_with K m ws v r w' \<Longrightarrow> hist v = hist w @ new \<Longrightarrow> hw_writes K m new = pre \<Longrightarrow> ends_with K m (pre @ ws) w r w'"
  unfolding ends_with_def using block_post_step by blast

text \<open>One turn of the loop: what it sends, and how it goes on.\<close>

lemma loop_turn:
  fixes w :: rc_world
  assumes "cache_answers E C" and "writes_succeed E" and "cache_type m \<noteq> None" and "cache_ops m \<noteq> None"
    and "drv w = m\<lparr>cache_bypass := x\<rparr>" and "reg \<le> mx"
    and go: "\<And>v y new. drv v = m\<lparr>cache_bypass := y\<rparr> \<Longrightarrow> hist v = hist w @ new \<Longrightarrow> hw_writes K m new = sync_one K m C reg
      \<Longrightarrow> wp (default_sync_loop fuel E K mx (reg + reg_stride m)) Q v"
  shows "wp (default_sync_loop (Suc fuel) E K mx reg) Q w"
proof -
  have nl: "\<not> mx < reg" using assms(6) by simp
  obtain t os where t: "cache_type m = Some t" "cache_ops m = Some os" using assms(3,4) by blast
  note r = assms(1) [unfolded cache_answers_def, rule_format]
  let ?h = "hist w @ [(CacheRead reg, E (hist w) (CacheRead reg))]"
  show ?thesis
  proof (cases "regmap_volatile K reg \<or> \<not> regmap_writeable K reg")
    case True
    then have "sync_one K m C reg = []" by (auto simp: sync_one_def regcache_reg_needs_sync_def split: option.splits)
    with True go [OF assms(5), of "[]"] assms(5) nl show ?thesis by (simp add: wp_bind wp_getd wp_let)
  next
    case False
    show ?thesis
    proof (cases "C reg")
      case None
      then have "sync_one K m C reg = []" by (simp add: sync_one_def)
      with go [of "w\<lparr>hist := ?h\<rparr>" x "[(CacheRead reg, E (hist w) (CacheRead reg))]"] False t assms(5) nl None show ?thesis
        by (simp add: regcache_read_def wp_simps r)
    next
      case (Some v)
      let ?q = "RegmapWrite True reg v"
      have ok: "rret (E h ?q) = 0" for h using assms(2) by (simp add: writes_succeed_def)
      show ?thesis
      proof (cases "regcache_reg_needs_sync K m reg v")
        case True
        then have "sync_one K m C reg = [(reg, v)]" using False Some by (simp add: sync_one_def)
        with go [of "w\<lparr>hist := ?h @ [(?q, E ?h ?q)], drv := m\<lparr>cache_bypass := False\<rparr>\<rparr>" False "[(CacheRead reg, E (hist w) (CacheRead reg)), (?q, E ?h ?q)]"]
          False t assms(5) nl Some True ok show ?thesis
          by (simp add: regcache_read_def wp_simps r)
      next
        case n: False
        then have "sync_one K m C reg = []" using Some by (simp add: sync_one_def)
        with go [of "w\<lparr>hist := ?h\<rparr>" x "[(CacheRead reg, E (hist w) (CacheRead reg))]"] False t assms(5) nl Some n show ?thesis
          by (simp add: regcache_read_def wp_simps r)
      qed
    qed
  qed
qed

lemma default_sync_spec:
  fixes w :: rc_world
  assumes "cache_answers E C" and "writes_succeed E" and "cache_type m \<noteq> None" and "cache_ops m \<noteq> None"
    and nw: "unat mx + unat (reg_stride m) < 2 ^ 32" "reg_stride m \<noteq> 0"
  shows "drv w = m\<lparr>cache_bypass := x\<rparr> \<Longrightarrow> turns (reg_stride m) mx reg \<le> fuel \<Longrightarrow>
    wp (default_sync_loop fuel E K mx reg) (ends_with K m (sync_spec K m C (region (reg_stride m) reg mx)) w) w"
proof (induction fuel arbitrary: reg w x)
  case 0
  then show ?case
    by (auto simp: turns_def region_def wp_simps ends_with_def block_post_def sync_spec_def split: if_splits)
next
  case (Suc fuel)
  show ?case
  proof (cases "mx < reg")
    case True
    with Suc.prems show ?thesis by (auto simp: region_end wp_simps ends_with_def block_post_def sync_spec_def)
  next
    case False
    then have le: "reg \<le> mx" by simp
    have sp: "sync_spec K m C (region (reg_stride m) reg mx) = sync_one K m C reg @ sync_spec K m C (region (reg_stride m) (reg + reg_stride m) mx)"
      by (simp add: region_step [OF le nw] sync_spec_def)
    have f: "turns (reg_stride m) mx (reg + reg_stride m) \<le> fuel" using Suc.prems(2) turns_step [OF le nw] by simp
    show ?thesis
      unfolding sp
      by (rule loop_turn [OF assms(1-4) Suc.prems(1) le], rule wp_mono [OF Suc.IH [OF _ f]], assumption, rule ends_with_step)
  qed
qed

text \<open>When the region ends at the last register of the address space, the counter wraps and the loop does not end.\<close>

lemma default_sync_wraps:
  fixes w :: rc_world
  assumes "cache_answers E C" and "writes_succeed E" and "cache_type m \<noteq> None" and "cache_ops m \<noteq> None"
  shows "drv w = m\<lparr>cache_bypass := x\<rparr> \<Longrightarrow> wp (default_sync_loop fuel E K (- 1) reg) (\<lambda>r _. r = None) w"
proof (induction fuel arbitrary: reg w x)
  case 0
  show ?case by (simp add: wp_simps word_less_nat_alt not_less) (metis word_le_nat_alt word_n1_ge)
next
  case (Suc fuel)
  show ?case
    by (rule loop_turn [OF assms Suc.prems]) (auto intro: Suc.IH)
qed

text \<open>The selector registers that are in the cache.\<close>

definition sel_spec :: "regmap_core \<Rightarrow> (u32 \<rightharpoonup> u32) \<Rightarrow> u32 list \<Rightarrow> (u32 \<times> u32) list" where
  "sel_spec K C ss = concat (map (\<lambda>s. case C s of Some v \<Rightarrow> if regmap_volatile K s then [] else [(s, v)] | None \<Rightarrow> []) ss)"

definition sel_post :: "regmap_core \<Rightarrow> regmap \<Rightarrow> (u32 \<times> u32) list \<Rightarrow> int \<Rightarrow> rc_world \<Rightarrow> int \<Rightarrow> rc_world \<Rightarrow> bool" where
  "sel_post K m ws ret w r w' \<longleftrightarrow> r = (if ws = [] then ret else 0) \<and> drv w' = drv w
     \<and> (\<exists>new. hist w' = hist w @ new \<and> hw_writes K m new = ws)"

lemma sel_post_step:
  "sel_post K m ws ret' v r w' \<Longrightarrow> drv v = drv w \<Longrightarrow> hist v = hist w @ new \<Longrightarrow> hw_writes K m new = pre
    \<Longrightarrow> ret' = (if pre = [] then ret else 0) \<Longrightarrow> sel_post K m (pre @ ws) ret w r w'"
  unfolding sel_post_def by (elim conjE exE) (intro conjI exI, auto)

lemma selectors_spec:
  fixes w :: rc_world
  assumes "cache_answers E C" and "writes_succeed E"
  shows "cache_type (drv w) \<noteq> None \<Longrightarrow> cache_ops (drv w) \<noteq> None \<Longrightarrow> wp (sync_selectors E K ss ret) (sel_post K m (sel_spec K C ss) ret w) w"
proof (induction ss arbitrary: w ret)
  case Nil
  then show ?case by (auto simp: wp_simps sel_post_def sel_spec_def)
next
  case (Cons s ss)
  note r = assms(1) [unfolded cache_answers_def, rule_format]
  let ?o = "case C s of Some v \<Rightarrow> if regmap_volatile K s then [] else [(s, v)] | None \<Rightarrow> []"
  let ?rd = "(CacheRead s, E (hist w) (CacheRead s))"
  obtain t os where t: "cache_type (drv w) = Some t" "cache_ops (drv w) = Some os" using Cons.prems by blast
  have sp: "sel_spec K C (s # ss) = ?o @ sel_spec K C ss" by (simp add: sel_spec_def)
  have go: "wp (sync_selectors E K ss ret') (sel_post K m (?o @ sel_spec K C ss) ret w) v"
    if "drv v = drv w" "hist v = hist w @ new" "hw_writes K m new = ?o" "ret' = (if ?o = [] then ret else 0)" for v :: rc_world and new ret'
    by (rule wp_mono [OF Cons.IH]) (use that t in \<open>auto intro: sel_post_step\<close>)
  consider "regmap_volatile K s" | "\<not> regmap_volatile K s" "C s = None" | v where "\<not> regmap_volatile K s" "C s = Some v" by blast
  then show ?case
  proof cases
    case 1
    then have o: "?o = []" by (simp split: option.splits)
    from go [of w "[]" ret] 1 show ?thesis
      unfolding sp o by (simp add: regcache_read_def wp_simps t)
  next
    case 2
    from go [of "w\<lparr>hist := hist w @ [?rd]\<rparr>" "[?rd]" ret] 2 show ?thesis
      unfolding sp by (simp add: regcache_read_def wp_simps t r)
  next
    case (3 v)
    let ?q = "RegmapWrite (cache_bypass (drv w)) s v"
    let ?wr = "(?q, E (hist w @ [?rd]) ?q)"
    have ok: "rret (E h ?q) = 0" for h using assms(2) by (simp add: writes_succeed_def)
    from go [of "w\<lparr>hist := hist w @ [?rd, ?wr]\<rparr>" "[?rd, ?wr]" 0] 3 ok show ?thesis
      unfolding sp by (simp add: regcache_read_def wp_simps t r)
  qed
qed

lemma patch_spec:
  fixes w :: rc_world
  assumes "writes_succeed E"
  shows "drv w = m\<lparr>cache_bypass := x\<rparr> \<Longrightarrow> wp (apply_patch E ds) (block_post K m (map (\<lambda>d. (dreg d, def d)) ds) w) w"
proof (induction ds arbitrary: w)
  case Nil
  then show ?case by (auto simp: wp_simps block_post_def)
next
  case (Cons d ds)
  let ?q = "RegmapWrite True (dreg d) (def d)"
  let ?wr = "(?q, E (hist w) ?q)"
  have ok: "rret (E h ?q) = 0" for h using assms by (simp add: writes_succeed_def)
  have "wp (apply_patch E ds) (block_post K m ([(dreg d, def d)] @ map (\<lambda>d. (dreg d, def d)) ds) w) (w\<lparr>hist := hist w @ [?wr]\<rparr>)"
    by (rule wp_mono [OF Cons.IH], simp add: Cons.prems, rule block_post_step [where new = "[?wr]"]) auto
  then show ?case by (simp add: wp_simps ok)
qed

text \<open>What a sync of a dirty map writes, in this order.\<close>

definition sync_all :: "regmap_core \<Rightarrow> regmap \<Rightarrow> (u32 \<rightharpoonup> u32) \<Rightarrow> (u32 \<times> u32) list" where
  "sync_all K m C = map (\<lambda>d. (dreg d, def d)) (patch m) @ sync_spec K m C (region (reg_stride m) 0 (max_register m)) @ sel_spec K C (selectors m)"

lemma sync_dirty_spec:
  fixes w :: rc_world
  assumes "cache_answers E C" and "writes_succeed E" and "cache_type (drv w) \<noteq> None" and "cache_ops (drv w) = Some ops" and "\<not> has_sync ops"
    and nw: "unat (max_register (drv w)) + unat (reg_stride (drv w)) < 2 ^ 32" "reg_stride (drv w) \<noteq> 0"
    and "unat (max_register (drv w)) div unat (reg_stride (drv w)) < fuel"
  shows "wp (sync_dirty fuel E K) (\<lambda>r w'. r = Some 0 \<and> (\<exists>x. drv w' = (drv w)\<lparr>cache_bypass := x, cache_dirty := False\<rparr>)
    \<and> (\<exists>new. hist w' = hist w @ new \<and> hw_writes K (drv w) new =
        map (\<lambda>d. (dreg d, def d)) (patch (drv w)) @ sync_spec K (drv w) C (region (reg_stride (drv w)) 0 (max_register (drv w))))) w"
proof -
  let ?m = "drv w"
  let ?w = "w\<lparr>drv := ?m\<lparr>cache_bypass := True\<rparr>\<rparr>"
  let ?p = "map (\<lambda>d. (dreg d, def d)) (patch ?m)"
  have f: "turns (reg_stride ?m) (max_register ?m) 0 \<le> fuel" using assms(8) by (simp add: turns_def)
  have o: "cache_ops ?m \<noteq> None" using assms(4) by simp
  show ?thesis
    unfolding sync_dirty_def wp_bind wp_getd wp_modd
  proof (rule wp_mono [OF patch_spec [OF assms(2), where w = ?w and m = ?m and x = True and ds = "patch ?m" and K = K]], simp)
    fix ret and v :: rc_world
    assume "block_post K ?m ?p ?w ret v"
    then obtain x new where v: "ret = 0" "drv v = ?m\<lparr>cache_bypass := x\<rparr>" "hist v = hist w @ new" "hw_writes K ?m new = ?p"
      by (auto simp: block_post_def)
    let ?v = "v\<lparr>drv := ?m\<lparr>cache_bypass := False\<rparr>\<rparr>"
    have "wp (default_sync_loop fuel E K (max_register ?m) 0)
        (ends_with K ?m (sync_spec K ?m C (region (reg_stride ?m) 0 (max_register ?m))) ?v) ?v"
      by (rule default_sync_spec [OF assms(1-3) o nw _ f, where x = False]) simp
    then have "wp (default_sync_loop fuel E K (max_register ?m) 0)
        (ends_with K ?m (?p @ sync_spec K ?m C (region (reg_stride ?m) 0 (max_register ?m))) w) ?v"
      by (rule wp_mono) (erule ends_with_step, simp add: v(3), rule v(4))
    then show "wp (if ret \<noteq> 0 then return (Some ret) else State_Monad.bind (modd (\<lambda>m. m\<lparr>cache_bypass := False\<rparr>))
         (\<lambda>_. State_Monad.bind (run_sync fuel E K 0 (max_register ?m)) (\<lambda>r. State_Monad.bind (if r = Some 0 then modd (\<lambda>m. m\<lparr>cache_dirty := False\<rparr>) else return ()) (\<lambda>_. return r))))
       (\<lambda>r w'. r = Some 0 \<and> (\<exists>x. drv w' = ?m\<lparr>cache_bypass := x, cache_dirty := False\<rparr>)
          \<and> (\<exists>new. hist w' = hist w @ new \<and> hw_writes K ?m new = ?p @ sync_spec K ?m C (region (reg_stride ?m) 0 (max_register ?m)))) v"
      using v(1,2) assms(4,5)
      by (simp add: wp_simps run_sync_def regcache_default_sync_def) (erule wp_mono, auto simp: ends_with_def block_post_def wp_simps)
  qed
qed


definition quiet_view :: "regmap \<Rightarrow> regmap" where
  "quiet_view m = m\<lparr>cache_bypass := False, cache_dirty := False, no_sync_defaults := False\<rparr>"

lemma keeps_read [keeps_intros]: "keeps f (regcache_read E K reg)"
  unfolding regcache_read_def by (intro keeps_intros)

lemma keeps_selectors [keeps_intros]: "keeps f (sync_selectors E K ss ret)"
  by (induction ss arbitrary: ret) (simp_all, (intro keeps_intros | assumption)+)

lemma keeps_patch [keeps_intros]: "keeps f (apply_patch E ds)"
  by (induction ds) (simp_all, (intro keeps_intros | assumption)+)

lemma keeps_sync_loop [keeps_intros]: "keeps quiet_view (default_sync_loop fuel E K mx reg)"
proof (induction fuel arbitrary: reg)
  case 0
  show ?case unfolding default_sync_loop.simps by (intro keeps_intros)
next
  case (Suc fuel)
  show ?case unfolding default_sync_loop.simps by (intro keeps_intros Suc.IH) (simp_all add: quiet_view_def)
qed

lemma keeps_run_sync [keeps_intros]: "keeps quiet_view (run_sync fuel E K mn mx)"
  unfolding run_sync_def regcache_default_sync_def by (intro keeps_intros)

lemma keeps_sync_dirty [keeps_intros]: "keeps quiet_view (sync_dirty fuel E K)"
  unfolding sync_dirty_def by (intro keeps_intros) (simp_all add: quiet_view_def)

text \<open>A sync leaves no trace of itself in the map. Whatever the cache and the hardware answer, and wherever it stops, a sync that returns
  has put the bypass flag back and changes nothing else but the two flags it is there for; the dirty flag is cleared only, never set.\<close>

theorem sync_restores:
  assumes "run_state (regcache_sync fuel E K) w = (Some ret, w')" and "cache_type (drv w) \<noteq> None"
  shows "drv w' = (drv w)\<lparr>no_sync_defaults := False, cache_dirty := cache_dirty (drv w')\<rparr> \<and> (cache_dirty (drv w') \<longrightarrow> cache_dirty (drv w))"
proof -
  let ?m = "drv w"
  let ?Q = "\<lambda>r w'. r \<noteq> None \<longrightarrow> drv w' = ?m\<lparr>no_sync_defaults := False, cache_dirty := cache_dirty (drv w')\<rparr> \<and> (cache_dirty (drv w') \<longrightarrow> cache_dirty ?m)"
  have out: "wp (case r of None \<Rightarrow> return None | Some ret \<Rightarrow> sync_out E K (cache_bypass ?m) ret) ?Q v"
    if v: "quiet_view (drv v) = quiet_view ?m" "cache_dirty (drv v) \<longrightarrow> cache_dirty ?m" for r :: "int option" and v :: rc_world
  proof (cases r)
    case (Some n)
    let ?v = "v\<lparr>drv := (drv v)\<lparr>cache_bypass := cache_bypass ?m, no_sync_defaults := False\<rparr>\<rparr>"
    have d: "drv ?v = ?m\<lparr>no_sync_defaults := False, cache_dirty := cache_dirty (drv v)\<rparr>"
      using v(1) by (cases "drv v"; cases "drv w") (simp add: quiet_view_def)
    show ?thesis unfolding Some option.case sync_out_def
      apply (rule wp_bindI, rule wp_modd_step, rule wp_bindI, rule wp_modd_step, rule wp_bindI, rule wp_getdI, rule wp_bindI)
      apply (rule wp_mono [OF keeps_wp [OF keeps_selectors [where f = "\<lambda>m. m"]]])
      using v(2) d by (auto simp: wp_simps)
  qed (simp add: wp_simps)
  have main: "wp (if \<not> cache_dirty (drv v) then return (Some 0) else sync_dirty fuel E K)
      (\<lambda>r. wp (case r of None \<Rightarrow> return None | Some ret \<Rightarrow> sync_out E K (cache_bypass (drv v)) ret) ?Q) v" if v: "drv v = ?m" for v :: rc_world
    unfolding v
    by (rule wp_ifI, rule wp_returnI, rule out, simp add: v, simp add: v,
        rule wp_mono [OF keeps_wp [OF keeps_sync_dirty]], rule out, simp add: v, simp)
  have "wp (regcache_sync fuel E K) ?Q w"
    unfolding regcache_sync_def
    apply (rule wp_bindI, rule wp_getdI, rule wp_ifI)
    using assms(2) apply simp
    apply (rule wp_bindI, rule wp_whenI, rule wp_exec_step)
    apply (rule wp_bindI, rule wp_exec_step, rule wp_bindI, rule wp_getdI, rule wp_bindI, rule main, simp)
    apply (rule wp_bindI, rule wp_exec_step, rule wp_bindI, rule wp_getdI, rule wp_bindI, rule main, simp)
    done
  from wpD [OF this assms(1)] show ?thesis by simp
qed

text \<open>A failed sync can report success. When the cache implementation fails to sync and the map has a cached selector register
  whose write succeeds, the function returns zero and the error is lost; the map stays dirty, so only a caller that syncs again
  recovers.\<close>

theorem sync_error_masked:
  assumes "cache_answers E C" and "writes_succeed E" and "cache_type (drv w) \<noteq> None" and "cache_ops (drv w) = Some ops" and "has_sync ops"
    and "cache_dirty (drv w)" and "\<And>h. rret (E h (CacheSync 0 (max_register (drv w)))) \<noteq> 0"
    and "s \<in> set (selectors (drv w))" and "C s = Some v" and "\<not> regmap_volatile K s"
  shows "\<exists>w'. run_state (regcache_sync fuel E K) w = (Some 0, w') \<and> cache_dirty (drv w')"
proof -
  let ?m = "drv w"
  let ?Q = "\<lambda>r w'. r = Some (0 :: int) \<and> cache_dirty (drv w')"
  obtain t where t: "cache_type ?m = Some t" using assms(3) by blast
  have "(s, v) \<in> set (sel_spec K C (selectors ?m))"
    unfolding sel_spec_def set_concat set_map by (rule UN_I [OF imageI [OF assms(8)]]) (simp add: assms(9,10))
  then have ne: "sel_spec K C (selectors ?m) \<noteq> []" by auto
  have out: "wp (sync_out E K b ret) ?Q u" if u: "drv u = ?m\<lparr>cache_bypass := x\<rparr>" for b ret x and u :: rc_world
    unfolding sync_out_def
    apply (rule wp_bindI, rule wp_modd_step, rule wp_bindI, rule wp_modd_step, rule wp_bindI, rule wp_getdI, rule wp_bindI)
    apply (rule wp_mono [OF selectors_spec [OF assms(1,2), where m = ?m]])
    using u t assms(4,6) ne by (auto simp: wp_simps sel_post_def)
  have "wp (sync_dirty fuel E K) (\<lambda>r. wp (case r of None \<Rightarrow> return None | Some ret \<Rightarrow> sync_out E K (cache_bypass ?m) ret) ?Q) u"
    if u: "drv u = ?m" for u :: rc_world
    unfolding sync_dirty_def
    apply (rule wp_bindI, rule wp_getdI, rule wp_bindI, rule wp_modd_step, rule wp_bindI)
    apply (rule wp_mono [OF patch_spec [OF assms(2), where m = ?m and x = True]])
    using u assms(4,5,7) by (auto simp: block_post_def wp_simps run_sync_def intro!: out)
  then have "wp (regcache_sync fuel E K) ?Q w"
    by (simp add: regcache_sync_def wp_bind wp_getd wp_exec wp_whenM t assms(4,6))
  then show ?thesis unfolding wp_def by (auto simp: case_prod_beta prod_eq_iff)
qed

section \<open>What initialisation owns\<close>

text \<open>How many buffers for defaults and how many raw buffers a history has taken and not given back.\<close>

fun defaults_held :: "(rc_req \<times> rc_resp) list \<Rightarrow> int" where
  "defaults_held [] = 0"
| "defaults_held ((q, r) # h) =
     (case q of KmemdupDefaults \<Rightarrow> if r = RNull then 0 else 1 | KmallocDefaults n \<Rightarrow> if r = RNull then 0 else 1 | KfreeDefaults \<Rightarrow> - 1 | _ \<Rightarrow> 0)
     + defaults_held h"

fun raw_held :: "(rc_req \<times> rc_resp) list \<Rightarrow> int" where
  "raw_held [] = 0"
| "raw_held ((q, r) # h) =
     (case q of Kmalloc n \<Rightarrow> if r = RNull then 0 else 1 | KfreeTmp \<Rightarrow> - 1 | KfreeRaw \<Rightarrow> - 1 | _ \<Rightarrow> 0) + raw_held h"

definition held :: "(rc_req \<times> rc_resp) list \<Rightarrow> int \<times> int" where
  "held h = (defaults_held h, raw_held h)"

lemma held_append [simp]:
  "defaults_held (h @ k) = defaults_held h + defaults_held k" "raw_held (h @ k) = raw_held h + raw_held k"
  by (induction h rule: defaults_held.induct) auto

text \<open>What the map itself still points to.\<close>

definition owned :: "regmap \<Rightarrow> int \<times> int" where
  "owned m = (if reg_defaults m = None then 0 else 1, if cache_free m then 1 else 0)"

definition loose :: "rc_world \<Rightarrow> int \<times> int" where
  "loose w = (defaults_held (hist w) - fst (owned (drv w)), raw_held (hist w) - snd (owned (drv w)))"

text \<open>An operation that has failed holds what was held before; one that has not holds that and what the map points to.\<close>

definition settled :: "int \<times> int \<Rightarrow> int \<Rightarrow> rc_world \<Rightarrow> bool" where
  "settled B ret w \<longleftrightarrow> (if ret = 0 then loose w = B else held (hist w) = B)"

lemmas held_defs = settled_def loose_def owned_def held_def

lemma hw_exit_held:
  fixes w :: rc_world
  shows "wp (regcache_hw_exit E) (\<lambda>_ w'. drv w' = drv w \<and> defaults_held (hist w') = defaults_held (hist w)
     \<and> raw_held (hist w') = raw_held (hist w) - (if cache_free (drv w) then 1 else 0)) w"
  by (simp add: regcache_hw_exit_def wp_simps)

lemma call_exit_held:
  fixes w :: rc_world
  shows "wp (call_exit E) (\<lambda>_ w'. drv w' = drv w \<and> held (hist w') = held (hist w)) w"
  by (simp add: call_exit_def wp_simps held_def)

lemma free_defaults_held:
  fixes w :: rc_world
  shows "wp (free_defaults E) (\<lambda>_ w'. drv w' = drv w \<and> raw_held (hist w') = raw_held (hist w)
     \<and> defaults_held (hist w') = defaults_held (hist w) - (if reg_defaults (drv w) = None then 0 else 1)) w"
  by (simp add: free_defaults_def wp_simps)

lemma populate_settled:
  fixes w :: rc_world
  assumes "loose w = B"
  shows "wp (init_populate E) (settled B) w"
  unfolding init_populate_def
  apply (rule wp_bindI, rule wp_getdI, rule wp_ifI)
   apply (rule wp_bindI, rule wp_exec_step, rule wp_bindI, rule wp_call_step, rule wp_bindI, rule wp_exec_step, rule wp_ifI)
    apply (rule wp_bindI, rule wp_mono [OF hw_exit_held], rule wp_bindI, rule wp_mono [OF call_exit_held],
      rule wp_bindI, rule wp_mono [OF free_defaults_held], rule wp_returnI)
  using assms by (auto intro!: wp_returnI simp: held_defs)

lemma get_val_held:
  fixes w :: rc_world
  shows "wp (regcache_get_val E K b i) (\<lambda>_ w'. drv w' = drv w \<and> held (hist w') = held (hist w)) w"
  by (auto simp: regcache_get_val_def wp_simps held_def split: option.splits)

text \<open>Filling the defaults takes nothing, and can fail only when there is no raw buffer.\<close>

lemma fill_held:
  fixes w :: rc_world
  shows "wp (fill_defaults E K is j) (\<lambda>ret w'. held (hist w') = held (hist w) \<and> owned (drv w') = owned (drv w) \<and> cache_free (drv w') = cache_free (drv w)
    \<and> (ret \<noteq> 0 \<longrightarrow> reg_defaults_raw (drv w) = None)) w"
proof (induction "is" arbitrary: j w)
  case Nil
  show ?case by (simp add: wp_simps)
next
  case (Cons i "is")
  show ?case
  proof (cases "reg_defaults_raw (drv w)")
    case None
    show ?thesis
      unfolding fill_defaults.simps
      apply (rule wp_bindI, rule wp_getdI, rule wp_letI, rule wp_ifI, rule Cons.IH, rule wp_ifI, rule Cons.IH)
      unfolding None option.case
      apply (rule wp_bindI, rule wp_bindI, rule wp_modd_step, rule wp_bindI, rule wp_call_step, rule wp_bindI, rule wp_modd_step, rule wp_returnI)
      apply (simp only: prod.case, rule wp_ifI, rule wp_returnI)
       apply (simp add: held_defs)
      apply (rule wp_bindI, rule wp_modd_step, rule wp_mono [OF Cons.IH])
      by (auto simp: held_defs None split: option.splits)
  next
    case (Some raw)
    show ?thesis
      unfolding fill_defaults.simps
      apply (rule wp_bindI, rule wp_getdI, rule wp_letI, rule wp_ifI, rule Cons.IH, rule wp_ifI, rule Cons.IH)
      unfolding Some option.case
      apply (rule wp_bindI, rule wp_bindI, rule wp_mono [OF get_val_held], rule wp_returnI)
      apply (simp only: prod.case, rule wp_ifI, simp)
      apply (rule wp_bindI, rule wp_modd_step, rule wp_mono [OF Cons.IH])
      by (auto simp: held_defs Some split: option.splits)
  qed
qed

lemma read_back_held:
  fixes w :: rc_world
  assumes "\<not> cache_free (drv w)"
  shows "wp (read_back E) (\<lambda>ret w'. loose w' = loose w \<and> (ret \<noteq> 0 \<longrightarrow> \<not> cache_free (drv w'))
    \<and> (cache_free (drv w') \<longrightarrow> reg_defaults_raw (drv w') \<noteq> None)) w"
  unfolding read_back_def
  apply (rule wp_bindI, rule wp_getdI, rule wp_bindI, rule wp_modd_step, rule wp_bindI, rule wp_call_step, rule wp_ifI, rule wp_returnI)
  using assms apply (simp add: held_defs)
  apply (rule wp_bindI, rule wp_call_step, rule wp_bindI, rule wp_modd_step, rule wp_bindI)
  using assms by (auto simp: held_defs wp_simps split: rc_resp.splits)

text \<open>When it fails, the raw buffer is not in the map's hands.\<close>

lemma hw_init_held:
  fixes w :: rc_world
  assumes "\<not> cache_free (drv w)"
  shows "wp (regcache_hw_init E K) (\<lambda>ret w'. loose w' = loose w \<and> (ret \<noteq> 0 \<longrightarrow> \<not> cache_free (drv w'))) w"
proof -
  have fill: "wp (fill_defaults E K is 0) (\<lambda>ret w'. loose w' = loose w \<and> (ret \<noteq> 0 \<longrightarrow> \<not> cache_free (drv w'))) v"
    if "loose v = loose w" "cache_free (drv v) \<longrightarrow> reg_defaults_raw (drv v) \<noteq> None" for v :: rc_world and "is"
    by (rule wp_mono [OF fill_held]) (use that in \<open>auto simp: held_defs\<close>)
  show ?thesis
    unfolding regcache_hw_init_def
    apply (rule wp_bindI, rule wp_getdI, rule wp_bindI, rule wp_ifI)
     apply (rule wp_mono [OF read_back_held [OF assms]], rule wp_ifI, rule wp_returnI, simp)
     apply (rule fill, simp, simp)
    apply (rule wp_returnI, rule wp_ifI, simp, rule fill, simp)
    using assms by simp
qed

lemma init_hw_settled:
  fixes w :: rc_world
  assumes "\<not> cache_free (drv w)" and "loose w = B"
  shows "wp (init_hw E K cnt) (settled B) w"
  unfolding init_hw_def
  apply (rule wp_ifI)
   apply (rule wp_bindI, rule wp_mono [OF hw_init_held [OF assms(1)]], rule wp_ifI)
    apply (rule wp_bindI, rule wp_mono [OF call_exit_held], rule wp_bindI, rule wp_mono [OF free_defaults_held], rule wp_returnI)
    apply (use assms(2) in \<open>auto simp: held_defs\<close>)[1]
   apply (rule populate_settled, simp add: assms(2))
  by (rule populate_settled [OF assms(2)])

lemma init_cache_settled:
  fixes w :: rc_world
  assumes "\<not> cache_free (drv w)" and "loose w = B"
  shows "wp (init_cache E K cnt) (settled B) w"
  unfolding init_cache_def
  apply (rule wp_bindI, rule wp_modd_step, rule wp_bindI, rule wp_getdI, rule wp_ifI)
   apply (rule wp_bindI, rule wp_call_step, rule wp_ifI)
    apply (rule wp_bindI, rule wp_mono [OF free_defaults_held], rule wp_returnI)
    apply (use assms in \<open>auto simp: held_defs\<close>)[1]
   apply (rule init_hw_settled, (use assms in \<open>auto simp: held_defs\<close>)[1], (use assms in \<open>auto simp: held_defs\<close>)[1])
  apply (rule init_hw_settled, (use assms in \<open>auto simp: held_defs\<close>)[1], (use assms in \<open>auto simp: held_defs\<close>)[1])
  done

lemma init_defaults_settled:
  fixes w :: rc_world
  assumes "\<not> cache_free (drv w)" and "reg_defaults (drv w) = None" and "held (hist w) = B"
  shows "wp (init_defaults E K config unsorted) (settled B) w"
  unfolding init_defaults_def
  apply (rule wp_case_optionI)
   apply (rule wp_bindI, rule wp_getdI, rule wp_ifI)
    apply (rule wp_letI, rule wp_bindI, rule wp_modd_step, rule wp_bindI, rule wp_getdI, rule wp_ifI, rule wp_returnI)
     apply (use assms in \<open>auto simp: held_defs\<close>)[1]
    apply (rule wp_bindI, rule wp_modd_step, rule wp_bindI, rule wp_call_step, rule wp_ifI, rule wp_bindI, rule wp_modd_step, rule wp_returnI)
     apply (use assms in \<open>auto simp: held_defs\<close>)[1]
    apply (rule wp_bindI, rule wp_modd_step, rule init_cache_settled, (use assms in \<open>auto simp: held_defs\<close>)[1], (use assms in \<open>auto simp: held_defs\<close>)[1])
   apply (rule init_cache_settled, (use assms in \<open>auto simp: held_defs\<close>)[1], (use assms in \<open>auto simp: held_defs\<close>)[1])
  apply (rule wp_bindI, rule wp_getdI, rule wp_letI, rule wp_bindI, rule wp_call_step, rule wp_ifI, rule wp_returnI)
   apply (use assms in \<open>auto simp: held_defs\<close>)[1]
  apply (rule wp_bindI, rule wp_modd_step, rule init_cache_settled, (use assms in \<open>auto simp: held_defs\<close>)[1], (use assms in \<open>auto simp: held_defs\<close>)[1])
  done

lemma init_settled:
  fixes w :: rc_world
  assumes "\<not> cache_free (drv w)" and "reg_defaults (drv w) = None"
  shows "wp (regcache_init E K config) (settled (held (hist w))) w"
  unfolding regcache_init_def
  apply (rule wp_bindI, rule wp_getdI, rule wp_case_optionI)
   apply (rule wp_bindI, rule wp_modd_step, rule wp_returnI, (use assms in \<open>simp add: held_defs\<close>)[1])
  apply (rule wp_ifI, rule wp_returnI, simp add: held_defs)
  apply (rule wp_ifI, rule wp_returnI, simp add: held_defs)
  apply (rule wp_case_optionI, rule wp_returnI, simp add: held_defs)
  apply (rule wp_case_optionI, rule wp_returnI, simp add: held_defs)
  apply (rule wp_bindI, rule wp_modd_step, rule wp_ifI, rule wp_returnI, simp add: held_defs)
  by (rule init_defaults_settled) (use assms in \<open>auto simp: held_defs\<close>)

lemma exit_held:
  fixes w :: rc_world
  assumes "cache_type (drv w) \<noteq> None"
  shows "wp (regcache_exit E) (\<lambda>_ w'. held (hist w') = loose w) w"
  unfolding regcache_exit_def
  apply (rule wp_bindI, rule wp_getdI, rule wp_ifI)
  using assms apply simp
  apply (rule wp_bindI, rule wp_whenI, rule wp_exec_step)
   apply (rule wp_bindI, rule wp_mono [OF hw_exit_held], rule wp_bindI, rule wp_mono [OF call_exit_held], rule wp_mono [OF free_defaults_held])
   apply (auto simp: held_defs)[1]
  apply (rule wp_bindI, rule wp_mono [OF hw_exit_held], rule wp_bindI, rule wp_mono [OF call_exit_held], rule wp_mono [OF free_defaults_held])
  apply (auto simp: held_defs)[1]
  done

lemma keeps_case_resp [keeps_intros]:
  "keeps f a \<Longrightarrow> (\<And>n. keeps f (b n)) \<Longrightarrow> (\<And>n. keeps f (c n)) \<Longrightarrow> (\<And>n. keeps f (d n)) \<Longrightarrow> keeps f n
    \<Longrightarrow> keeps f (case r of RDone \<Rightarrow> a | RNull \<Rightarrow> n | RRet x \<Rightarrow> b x | RVal x \<Rightarrow> c x | RBytes x \<Rightarrow> d x)"
  by (cases r) simp_all

lemma keeps_get_val [keeps_intros]: "keeps f (regcache_get_val E K b i)"
  unfolding regcache_get_val_def by (intro keeps_intros)

lemma fill_keeps_type: "keeps cache_type (fill_defaults E K is j)"
proof (induction "is" arbitrary: j)
  case Nil
  show ?case unfolding fill_defaults.simps by (intro keeps_intros)
next
  case (Cons i "is")
  show ?case unfolding fill_defaults.simps by (intro keeps_intros Cons.IH) simp_all
qed

lemma init_keeps_type: "keeps cache_type (regcache_init E K config)"
  unfolding regcache_init_def init_defaults_def init_cache_def init_hw_def regcache_hw_init_def read_back_def
  by (intro keeps_intros keeps_init_populate fill_keeps_type) simp_all

text \<open>Initialisation frees what it took. On a fresh map and whatever allocation, the bus and the cache implementation answer, an initialisation that
  fails has given back every buffer it took, at whichever step it failed, and after one that succeeds
  the exit gives them all back, the raw buffer included, if it was read from the hardware.\<close>

theorem init_exit_balanced:
  assumes "run_state (regcache_init E K config) w = (ret, w')" and "\<not> cache_free (drv w)" and "reg_defaults (drv w) = None" and "cache_type (drv w) \<noteq> None"
  shows "(ret \<noteq> 0 \<longrightarrow> held (hist w') = held (hist w))
    \<and> (ret = 0 \<longrightarrow> held (hist (snd (run_state (regcache_exit E) w'))) = held (hist w))"
proof -
  have s: "settled (held (hist w)) ret w'" by (rule wpD [OF init_settled [OF assms(2,3)] assms(1)])
  have t: "cache_type (drv w') = cache_type (drv w)" by (rule wpD [OF keeps_wp [OF init_keeps_type] assms(1)])
  have "held (hist (snd (run_state (regcache_exit E) w'))) = loose w'"
    using exit_held [of w' E] t assms(4) by (simp add: wp_def case_prod_beta)
  with s show ?thesis by (simp add: settled_def)
qed

section \<open>Concrete runs\<close>

text \<open>A map of four registers in words of two bytes: register 4 is volatile, 8 is not writeable, 12 selects a page.\<close>

definition test_ops :: regcache_ops where
  "test_ops = \<lparr>ctype = 3, has_name = True, has_read = True, has_write = True, has_init = True, has_exit = True,
     has_populate = False, has_sync = False, has_drop = False\<rparr>"

definition test_core :: regmap_core where
  "test_core = \<lparr>regmap_readable = (\<lambda>r. True), regmap_writeable = (\<lambda>r. r \<noteq> 8), regmap_volatile = (\<lambda>r. r = 4),
     regmap_can_raw_write = True, format_val = None, parse_val = None, val_bytes = 2, cache_types = [test_ops]\<rparr>"

definition test_map :: regmap where
  "test_map = \<lparr>cache_type = Some 3, cache_ops = None, cache_bypass = False, cache_only = False, cache_dirty = True, no_sync_defaults = False,
     cache_free = False, async = False, use_single_write = False, reg_stride = 4, num_reg_defaults = 0, reg_defaults = None,
     num_reg_defaults_raw = 0, reg_defaults_raw = None, cache_word_size = 2, cache_size_raw = 0, max_register = 12,
     max_register_is_set = True, reg_default_cb = False, patch = [\<lparr>dreg = 64, def = 1\<rparr>], selectors = [12]\<rparr>"

definition test_cache :: "u32 \<rightharpoonup> u32" where
  "test_cache r = (if r = 0 then Some 7 else if r = 12 then Some 3 else None)"

fun test_env :: "int \<Rightarrow> rc_env" where
  "test_env e h (CacheRead r) = (case test_cache r of Some v \<Rightarrow> RVal v | None \<Rightarrow> RRet (- ENOENT))"
| "test_env e h (CacheSync mn mx) = RRet e"
| "test_env e h CacheInit = RRet e"
| "test_env e h q = RDone"

definition test_config :: regmap_config where
  "test_config = \<lparr>cfg_reg_defaults = Some [\<lparr>dreg = 12, def = 5\<rparr>, \<lparr>dreg = 4, def = 9\<rparr>], cfg_num_reg_defaults = 2,
     cfg_reg_defaults_raw = None, cfg_num_reg_defaults_raw = 0, cfg_val_bits = 16\<rparr>"

definition test_start :: "regmap \<Rightarrow> rc_world" where
  "test_start m = \<lparr>hist = [], drv = m\<rparr>"

lemmas test_defs = test_ops_def test_core_def test_map_def test_cache_def test_config_def test_start_def

lemma test_answers: "cache_answers (test_env e) test_cache" "writes_succeed (test_env e)"
  by (simp_all add: cache_answers_def writes_succeed_def)

theorem word_round_trip_witness:
  "\<exists>base'. run_state (regcache_set_val (test_env 0) test_core [1, 2, 3, 4] 1 0x1BEEF) (test_start test_map) = (base', test_start test_map) \<and> length base' = 4
    \<and> run_state (regcache_get_val (test_env 0) test_core (Some base') 1) (test_start test_map) = (0xBEEF, test_start test_map)"
  using word_round_trip [of "test_start test_map" 2 1 "[1, 2, 3, 4]" test_core "test_env 0" "0x1BEEF"]
  by (auto simp: test_core_def test_map_def test_start_def)

lemma test_init: "\<exists>w'. run_state (regcache_init (test_env 0) test_core test_config) (test_start test_map) = (0, w')"
  by (simp add: test_defs regcache_init_def init_defaults_def init_cache_def init_hw_def init_populate_def Let_def)

theorem init_defaults_found_witness:
  "\<exists>w'. run_state (regcache_init (test_env 0) test_core test_config) (test_start test_map) = (0, w')
    \<and> 0 \<le> regcache_lookup_reg (drv w') 12 \<and> dreg (defaults_of (drv w') ! nat (regcache_lookup_reg (drv w') 12)) = 12"
proof -
  obtain w' where run: "run_state (regcache_init (test_env 0) test_core test_config) (test_start test_map) = (0, w')" using test_init by blast
  have "cache_type (drv (test_start test_map)) \<noteq> None" "unat (cfg_num_reg_defaults test_config) = 2" by (simp_all add: test_defs)
  with init_defaults_found [OF run, of "[\<lparr>dreg = 12, def = 5\<rparr>, \<lparr>dreg = 4, def = 9\<rparr>]" 12] run show ?thesis
    by (auto simp: test_config_def)
qed

theorem block_runs_equal_single_witness:
  "\<exists>raw w1 single w2. run_state (regcache_sync_block_raw (test_env 0) test_core [1, 0, 2, 0, 3, 0, 4, 0] None 12 0 4) (test_start test_map) = (0, w1) \<and> hist w1 = raw
    \<and> run_state (regcache_sync_block_single (test_env 0) test_core [1, 0, 2, 0, 3, 0, 4, 0] None 12 0 4) (test_start test_map) = (0, w2) \<and> hist w2 = single
    \<and> hw_writes test_core test_map raw = hw_writes test_core test_map single"
proof -
  have f: "block_fits test_core (drv (test_start test_map)) [1, 0, 2, 0, 3, 0, 4, 0] 4" by (simp add: block_fits_def test_defs)
  show ?thesis
    using block_runs_equal_single [OF test_answers(2) f, of 0 0 None 12] by (fastforce simp: test_start_def)
qed

lemma test_region: "region 4 0 12 = [0, 4, 8, 12]"
  by (simp add: region_def turns_def upt_rec)


theorem sync_restores_witness:
  "\<exists>ret w'. run_state (regcache_sync 4 (test_env (- 5)) test_core) (test_start (test_map\<lparr>cache_ops := Some (test_ops\<lparr>has_sync := True\<rparr>), selectors := []\<rparr>)) = (Some ret, w')
    \<and> ret = - 5 \<and> \<not> cache_bypass (drv w')"
proof -
  let ?w = "test_start (test_map\<lparr>cache_ops := Some (test_ops\<lparr>has_sync := True\<rparr>), selectors := []\<rparr>)"
  obtain w' where run: "run_state (regcache_sync 4 (test_env (- 5)) test_core) ?w = (Some (- 5), w')"
    by (simp add: test_defs regcache_sync_def sync_dirty_def run_sync_def sync_out_def)
  have "cache_type (drv ?w) \<noteq> None" by (simp add: test_defs)
  from sync_restores [OF run this] have "\<not> cache_bypass (drv w')" by (simp add: test_start_def test_map_def) (metis regmap.select_convs(3) regmap.update_convs)
  with run show ?thesis by blast
qed

theorem sync_error_masked_witness:
  "\<exists>w'. run_state (regcache_sync 4 (test_env (- 5)) test_core) (test_start (test_map\<lparr>cache_ops := Some (test_ops\<lparr>has_sync := True\<rparr>)\<rparr>)) = (Some 0, w')
    \<and> cache_dirty (drv w')"
  by (rule sync_error_masked [OF test_answers, where s = 12 and v = 3 and ops = "test_ops\<lparr>has_sync := True\<rparr>"]) (simp_all add: test_defs)

theorem init_exit_balanced_witness:
  "\<exists>w'. run_state (regcache_init (test_env 0) test_core test_config) (test_start test_map) = (0, w')
    \<and> held (hist (snd (run_state (regcache_exit (test_env 0)) w'))) = (0, 0)"
proof -
  obtain w' where run: "run_state (regcache_init (test_env 0) test_core test_config) (test_start test_map) = (0, w')" using test_init by blast
  from init_exit_balanced [OF run] run show ?thesis by (simp add: test_start_def test_map_def held_def)
qed

end
