(* ===== verification/Idreg.thy ===== *)
theory Idreg
  imports Wallace_Prelude
begin

text \<open>
  The overrides of identification registers, \<open>sources/idreg-override.c\<close>: options on the kernel's command line replace fields of the
  registers that say which features a processor has.

  A character string is a list that ends where the C string has its final zero. The constants of the kernel's headers, by their names, the processor's registers and the
  functions that extract a field from one are parameters, as are the comparison with \<open>ID_AA64MMFR0_EL1_TGRAN_LPA2\<close>, whose type is the header's, the configuration and the device tree's boot arguments. An override is
  named by the register it is for. The functions of \<open>ctype.h\<close> are those of the kernel: its space includes 0xA0.

  Proved: the parser looks at exactly the words of the command line up to a separate \<open>--\<close>; an option changes exactly the field it names, and
  anything else nothing; the overrides implement a table of fields that are unset, set or refused, in which the last option for a field
  wins.
\<close>

section \<open>Registers and fields\<close>

record arm64_ftr_override =
  ovr_val :: u64
  ovr_mask :: u64

datatype ovr = Mmfr0 | Mmfr1 | Mmfr2 | Pfr0 | Pfr1 | Isar1 | Isar2 | Smfr0 | Sw | Zfr0

record idreg =
  boot_status :: u64
  override_of :: "ovr \<Rightarrow> arm64_ftr_override"

record idreg_params =
  cst :: "string \<Rightarrow> u64"
  read_sysreg :: "string \<Rightarrow> u64"
  cpuid_feature_extract_signed_field :: "u64 \<Rightarrow> nat \<Rightarrow> int"
  reaches_lpa2 :: "int \<Rightarrow> bool"
  cpuid_feature_extract_unsigned_field :: "u64 \<Rightarrow> nat \<Rightarrow> nat"
  CONFIG_ARM64_LPA2 :: bool
  CONFIG_CMDLINE_FORCE :: bool
  CONFIG_CMDLINE :: string

record ftr_field =
  fname :: string
  fshift :: nat
  fwidth :: nat
  ffilter :: "(u64 \<Rightarrow> idreg \<Rightarrow> bool \<times> idreg) option"

record ftr_set_desc =
  rname :: string
  rover :: ovr
  rfields :: "ftr_field list"

definition bitno :: "idreg_params \<Rightarrow> string \<Rightarrow> nat" where
  "bitno K n = unat (cst K n)"

definition upd_override :: "ovr \<Rightarrow> (arm64_ftr_override \<Rightarrow> arm64_ftr_override) \<Rightarrow> idreg \<Rightarrow> idreg" where
  "upd_override r g s = s\<lparr>override_of := (override_of s)(r := g (override_of s r))\<rparr>"

section \<open>Filters\<close>

text \<open>A filter may refuse a value, and may change other overrides.\<close>

definition mmfr1_vh_filter :: "idreg_params \<Rightarrow> u64 \<Rightarrow> idreg \<Rightarrow> bool \<times> idreg" where
  "mmfr1_vh_filter K val s = (\<not> (boot_status s = cst K ''BOOT_CPU_FLAG_E2H'' OR cst K ''BOOT_CPU_MODE_EL2'' \<and> val = 0), s)"

definition mmfr2_varange_filter :: "idreg_params \<Rightarrow> u64 \<Rightarrow> idreg \<Rightarrow> bool \<times> idreg" where
  "mmfr2_varange_filter K val s =
     (if val \<noteq> 0 then (False, s)
      else if CONFIG_ARM64_LPA2 K then
        let feat = cpuid_feature_extract_signed_field K (read_sysreg K ''id_aa64mmfr0_el1'') (bitno K ''ID_AA64MMFR0_EL1_TGRAN_SHIFT'')
        in if reaches_lpa2 K feat then
             (True, upd_override Mmfr0 (\<lambda>ov. ov\<lparr>
                ovr_val := ovr_val ov OR push_bit (bitno K ''ID_AA64MMFR0_EL1_TGRAN_SHIFT'') (cst K ''ID_AA64MMFR0_EL1_TGRAN_LPA2'' - 1)
                  OR push_bit (bitno K ''ID_AA64MMFR0_EL1_PARANGE_SHIFT'') (cst K ''ID_AA64MMFR0_EL1_PARANGE_48''),
                ovr_mask := ovr_mask ov OR push_bit (bitno K ''ID_AA64MMFR0_EL1_TGRAN_SHIFT'') 0xF
                  OR push_bit (bitno K ''ID_AA64MMFR0_EL1_PARANGE_SHIFT'') 0xF\<rparr>) s)
           else (True, s)
      else (True, s))"

definition pfr0_sve_filter :: "u64 \<Rightarrow> idreg \<Rightarrow> bool \<times> idreg" where
  "pfr0_sve_filter val s = (True, if val = 0 then upd_override Zfr0 (\<lambda>ov. ov\<lparr>ovr_val := 0, ovr_mask := GENMASK (63, 0)\<rparr>) s else s)"

definition pfr1_sme_filter :: "u64 \<Rightarrow> idreg \<Rightarrow> bool \<times> idreg" where
  "pfr1_sme_filter val s = (True, if val = 0 then upd_override Smfr0 (\<lambda>ov. ov\<lparr>ovr_val := 0, ovr_mask := GENMASK (63, 0)\<rparr>) s else s)"

definition hvhe_filter :: "idreg_params \<Rightarrow> u64 \<Rightarrow> idreg \<Rightarrow> bool \<times> idreg" where
  "hvhe_filter K val s =
     (val = 1 \<and> take_bit 32 (boot_status s) = cst K ''BOOT_CPU_MODE_EL2''
      \<and> cpuid_feature_extract_unsigned_field K (read_sysreg K ''id_aa64mmfr1_el1'') (bitno K ''ID_AA64MMFR1_EL1_VH_SHIFT'') \<noteq> 0, s)"

section \<open>Tables\<close>

definition FIELD :: "string \<Rightarrow> nat \<Rightarrow> (u64 \<Rightarrow> idreg \<Rightarrow> bool \<times> idreg) option \<Rightarrow> ftr_field" where
  "FIELD n s f = \<lparr>fname = n, fshift = s, fwidth = 4, ffilter = f\<rparr>"

definition mmfr0 :: "idreg_params \<Rightarrow> ftr_set_desc" where
  "mmfr0 K = \<lparr>rname = ''id_aa64mmfr0'', rover = Mmfr0, rfields = [FIELD ''ecv'' (bitno K ''ID_AA64MMFR0_EL1_ECV_SHIFT'') None]\<rparr>"

definition mmfr1 :: "idreg_params \<Rightarrow> ftr_set_desc" where
  "mmfr1 K = \<lparr>rname = ''id_aa64mmfr1'', rover = Mmfr1, rfields = [FIELD ''vh'' (bitno K ''ID_AA64MMFR1_EL1_VH_SHIFT'') (Some (mmfr1_vh_filter K))]\<rparr>"

definition mmfr2 :: "idreg_params \<Rightarrow> ftr_set_desc" where
  "mmfr2 K = \<lparr>rname = ''id_aa64mmfr2'', rover = Mmfr2,
     rfields = [FIELD ''varange'' (bitno K ''ID_AA64MMFR2_EL1_VARange_SHIFT'') (Some (mmfr2_varange_filter K))]\<rparr>"

definition pfr0 :: "idreg_params \<Rightarrow> ftr_set_desc" where
  "pfr0 K = \<lparr>rname = ''id_aa64pfr0'', rover = Pfr0,
     rfields = [FIELD ''sve'' (bitno K ''ID_AA64PFR0_EL1_SVE_SHIFT'') (Some pfr0_sve_filter),
       FIELD ''el0'' (bitno K ''ID_AA64PFR0_EL1_EL0_SHIFT'') None,
       FIELD ''mpam'' (bitno K ''ID_AA64PFR0_EL1_MPAM_SHIFT'') None]\<rparr>"

definition pfr1 :: "idreg_params \<Rightarrow> ftr_set_desc" where
  "pfr1 K = \<lparr>rname = ''id_aa64pfr1'', rover = Pfr1,
     rfields = [FIELD ''bt'' (bitno K ''ID_AA64PFR1_EL1_BT_SHIFT'') None,
       FIELD ''gcs'' (bitno K ''ID_AA64PFR1_EL1_GCS_SHIFT'') None,
       FIELD ''mte'' (bitno K ''ID_AA64PFR1_EL1_MTE_SHIFT'') None,
       FIELD ''sme'' (bitno K ''ID_AA64PFR1_EL1_SME_SHIFT'') (Some pfr1_sme_filter),
       FIELD ''mpam_frac'' (bitno K ''ID_AA64PFR1_EL1_MPAM_frac_SHIFT'') None]\<rparr>"

definition isar1 :: "idreg_params \<Rightarrow> ftr_set_desc" where
  "isar1 K = \<lparr>rname = ''id_aa64isar1'', rover = Isar1,
     rfields = [FIELD ''gpi'' (bitno K ''ID_AA64ISAR1_EL1_GPI_SHIFT'') None,
       FIELD ''gpa'' (bitno K ''ID_AA64ISAR1_EL1_GPA_SHIFT'') None,
       FIELD ''api'' (bitno K ''ID_AA64ISAR1_EL1_API_SHIFT'') None,
       FIELD ''apa'' (bitno K ''ID_AA64ISAR1_EL1_APA_SHIFT'') None]\<rparr>"

definition isar2 :: "idreg_params \<Rightarrow> ftr_set_desc" where
  "isar2 K = \<lparr>rname = ''id_aa64isar2'', rover = Isar2,
     rfields = [FIELD ''wfxt'' (bitno K ''ID_AA64ISAR2_EL1_WFxT_SHIFT'') None,
       FIELD ''gpa3'' (bitno K ''ID_AA64ISAR2_EL1_GPA3_SHIFT'') None,
       FIELD ''apa3'' (bitno K ''ID_AA64ISAR2_EL1_APA3_SHIFT'') None,
       FIELD ''mops'' (bitno K ''ID_AA64ISAR2_EL1_MOPS_SHIFT'') None]\<rparr>"

definition smfr0 :: "idreg_params \<Rightarrow> ftr_set_desc" where
  "smfr0 K = \<lparr>rname = ''id_aa64smfr0'', rover = Smfr0,
     rfields = [FIELD ''smever'' (bitno K ''ID_AA64SMFR0_EL1_SMEver_SHIFT'') None,
       \<lparr>fname = ''fa64'', fshift = bitno K ''ID_AA64SMFR0_EL1_FA64_SHIFT'', fwidth = 1, ffilter = None\<rparr>]\<rparr>"

definition sw_features :: "idreg_params \<Rightarrow> ftr_set_desc" where
  "sw_features K = \<lparr>rname = ''arm64_sw'', rover = Sw,
     rfields = [FIELD ''nokaslr'' (bitno K ''ARM64_SW_FEATURE_OVERRIDE_NOKASLR'') None,
       FIELD ''hvhe'' (bitno K ''ARM64_SW_FEATURE_OVERRIDE_HVHE'') (Some (hvhe_filter K)),
       FIELD ''rodataoff'' (bitno K ''ARM64_SW_FEATURE_OVERRIDE_RODATA_OFF'') None]\<rparr>"

definition regs :: "idreg_params \<Rightarrow> ftr_set_desc list" where
  "regs K = [mmfr0 K, mmfr1 K, mmfr2 K, pfr0 K, pfr1 K, isar1 K, isar2 K, smfr0 K, sw_features K]"

definition aliases :: "(string \<times> string) list" where
  "aliases = [
     (''kvm_arm.mode=nvhe'', ''arm64_sw.hvhe=0 id_aa64mmfr1.vh=0''),
     (''kvm_arm.mode=protected'', ''arm64_sw.hvhe=1''),
     (''arm64.nosve'', ''id_aa64pfr0.sve=0''),
     (''arm64.nosme'', ''id_aa64pfr1.sme=0''),
     (''arm64.nobti'', ''id_aa64pfr1.bt=0''),
     (''arm64.nogcs'', ''id_aa64pfr1.gcs=0''),
     (''arm64.nopauth'', ''id_aa64isar1.gpi=0 id_aa64isar1.gpa=0 id_aa64isar1.api=0 id_aa64isar1.apa=0 id_aa64isar2.gpa3=0 id_aa64isar2.apa3=0''),
     (''arm64.nomops'', ''id_aa64isar2.mops=0''),
     (''arm64.nowfxt'', ''id_aa64isar2.wfxt=0''),
     (''arm64.nomte'', ''id_aa64pfr1.mte=0''),
     (''nokaslr'', ''arm64_sw.nokaslr=1''),
     (''rodata=off'', ''arm64_sw.rodataoff=1''),
     (''arm64.nolva'', ''id_aa64mmfr2.varange=0''),
     (''arm64.no32bit_el0'', ''id_aa64pfr0.el0=1''),
     (''arm64.nompam'', ''id_aa64pfr0.mpam=0 id_aa64pfr1.mpam_frac=0'')]"

section \<open>Parsing\<close>

definition isspace :: "char \<Rightarrow> bool" where
  "isspace c \<longleftrightarrow> c \<in> {CHR '' '', CHR 0x09, CHR 0x0A, CHR 0x0B, CHR 0x0C, CHR 0x0D, CHR 0xA0}"

definition isdigit :: "char \<Rightarrow> bool" where
  "isdigit c \<longleftrightarrow> 48 \<le> (of_char c :: nat) \<and> (of_char c :: nat) \<le> 57"

definition isxdigit :: "char \<Rightarrow> bool" where
  "isxdigit c \<longleftrightarrow> isdigit c \<or> 65 \<le> (of_char c :: nat) \<and> (of_char c :: nat) \<le> 70 \<or> 97 \<le> (of_char c :: nat) \<and> (of_char c :: nat) \<le> 102"

text \<open>The code of a character in lower case; the letters of Latin-1 are upper case for the kernel too.\<close>

definition tolower :: "char \<Rightarrow> nat" where
  "tolower c = (let n = of_char c in if 65 \<le> n \<and> n \<le> 90 \<or> 192 \<le> n \<and> n \<le> 222 \<and> n \<noteq> 215 then n + 32 else n)"

text \<open>The character at a position of a C string, and the zero at its end.\<close>

definition char_at :: "string \<Rightarrow> nat \<Rightarrow> char option" where
  "char_at p i = (if i < length p then Some (p ! i) else None)"

definition parse_hexdigit :: "string \<Rightarrow> u64 option" where
  "parse_hexdigit p =
     (let p = (if char_at p 0 = Some (CHR ''0'') \<and> map_option tolower (char_at p 1) = Some (of_char (CHR ''x'')) then drop 2 p else p)
      in case char_at p 0 of
           None \<Rightarrow> None
         | Some c \<Rightarrow>
             if \<not> isxdigit c \<or> (case char_at p 1 of None \<Rightarrow> False | Some d \<Rightarrow> \<not> isspace d) then None
             else Some (of_nat (tolower c - (if isdigit c then of_char (CHR ''0'') else of_char (CHR ''a'') - 10))))"

text \<open>\<open>opt\<close> already holds the register's name and a dot.\<close>

definition find_field :: "string \<Rightarrow> string \<Rightarrow> ftr_field \<Rightarrow> u64 option" where
  "find_field cmdline opt f =
     (let opt = opt @ fname f @ ''=''
      in if take (length opt) cmdline \<noteq> opt then None else parse_hexdigit (drop (length opt) cmdline))"

definition field_mask :: "ftr_field \<Rightarrow> u64" where
  "field_mask f = (let width = (if fwidth f = 0 then 4 else fwidth f) in GENMASK (fshift f + width - 1, fshift f))"

definition refuse_field :: "ovr \<Rightarrow> ftr_field \<Rightarrow> idreg \<Rightarrow> idreg" where
  "refuse_field r f = upd_override r (\<lambda>ov. ov\<lparr>ovr_val := ovr_val ov OR field_mask f, ovr_mask := ovr_mask ov AND NOT (field_mask f)\<rparr>)"

definition set_field :: "ovr \<Rightarrow> ftr_field \<Rightarrow> u64 \<Rightarrow> idreg \<Rightarrow> idreg" where
  "set_field r f v = upd_override r (\<lambda>ov. ov\<lparr>ovr_val := (ovr_val ov AND NOT (field_mask f)) OR (push_bit (fshift f) v AND field_mask f),
     ovr_mask := ovr_mask ov OR field_mask f\<rparr>)"

text \<open>The inner loop over the fields of a register, and the outer loop over the registers: the state, and whether the function has returned.\<close>

fun match_fields :: "string \<Rightarrow> string \<Rightarrow> ovr \<Rightarrow> ftr_field list \<Rightarrow> idreg \<Rightarrow> idreg \<times> bool" where
  "match_fields cmdline opt r [] s = (s, False)"
| "match_fields cmdline opt r (f # fs) s =
     (case find_field cmdline opt f of
        None \<Rightarrow> match_fields cmdline opt r fs s
      | Some v \<Rightarrow>
          (case ffilter f of
             None \<Rightarrow> (set_field r f v s, True)
           | Some flt \<Rightarrow>
               (case flt v s of (ok, s') \<Rightarrow>
                  if \<not> ok then match_fields cmdline opt r fs (refuse_field r f s')
                  else (set_field r f v s', True))))"

fun match_regs :: "string \<Rightarrow> ftr_set_desc list \<Rightarrow> idreg \<Rightarrow> idreg" where
  "match_regs cmdline [] s = s"
| "match_regs cmdline (d # ds) s =
     (case match_fields cmdline (rname d @ ''.'') (rover d) (rfields d) s of
        (s', ret) \<Rightarrow> if ret then s' else match_regs cmdline ds s')"

definition match_options :: "idreg_params \<Rightarrow> string \<Rightarrow> idreg \<Rightarrow> idreg" where
  "match_options K cmdline s = match_regs cmdline (regs K) s"

fun skip_spaces :: "string \<Rightarrow> string" where
  "skip_spaces [] = []"
| "skip_spaces (c # cs) = (if isspace c then skip_spaces cs else c # cs)"

text \<open>The buffer for a word has 256 bytes, one of them for the zero.\<close>

definition word_len :: "string \<Rightarrow> nat" where
  "word_len cmdline = min 255 (length (takeWhile (\<lambda>c. \<not> isspace c) cmdline))"

definition dash :: "string \<Rightarrow> string" where
  "dash w = map (\<lambda>c. if c = CHR ''-'' then CHR ''_'' else c) w"

lemma skip_spaces_length: "length (skip_spaces s) \<le> length s"
  by (induction s) auto

lemma word_len_progress:
  assumes "word_len (skip_spaces s) \<noteq> 0"
  shows "length (drop (word_len (skip_spaces s)) (skip_spaces s)) < length s"
proof -
  have "word_len (skip_spaces s) \<le> length (skip_spaces s)" using length_takeWhile_le [of _ "skip_spaces s"] by (simp add: word_len_def min.coboundedI2)
  then show ?thesis using assms skip_spaces_length [of s] by simp
qed

text \<open>The loop over the words, with what is done for each.\<close>

function parse_loop :: "(string \<Rightarrow> 's \<Rightarrow> 's) \<Rightarrow> string \<Rightarrow> 's \<Rightarrow> 's" where
  "parse_loop act cmdline s =
     (let cmdline = skip_spaces cmdline
      in if char_at cmdline 0 = Some (CHR ''-'') \<and> char_at cmdline 1 = Some (CHR ''-'') \<and> (case char_at cmdline 2 of None \<Rightarrow> False | Some c \<Rightarrow> isspace c) then s
         else
           let len = word_len cmdline
           in if len = 0 then s
              else parse_loop act (drop len cmdline) (act (dash (take len cmdline)) s))"
  by pat_completeness auto
termination
  by (relation "measure (\<lambda>(act, cmdline, s). length cmdline)") (use word_len_progress in auto)

declare parse_loop.simps [simp del]

definition parse_aliases :: "idreg_params \<Rightarrow> string \<Rightarrow> idreg \<Rightarrow> idreg" where
  "parse_aliases K buf s = fold (\<lambda>(alias, feature) s. if buf = alias then parse_loop (match_options K) feature s else s) aliases s"

definition parse_cmdline_words :: "idreg_params \<Rightarrow> string \<Rightarrow> bool \<Rightarrow> idreg \<Rightarrow> idreg" where
  "parse_cmdline_words K cmdline aliased =
     parse_loop (\<lambda>buf s. let s = match_options K buf s in if aliased then parse_aliases K buf s else s) cmdline"

section \<open>Initialisation\<close>

datatype idreg_req = FdtGetprop int string | CleanInval ovr
datatype idreg_resp = PropNone | Prop string | CacheDone

type_synonym idreg_env = "(idreg_req, idreg_resp) env"
type_synonym idreg_world = "(idreg_req, idreg_resp, idreg) world"
type_synonym 'a idreg_prog = "(idreg_req, idreg_resp, idreg, 'a) prog"

definition get_bootargs_cmdline :: "idreg_env \<Rightarrow> int \<Rightarrow> (string option) idreg_prog" where
  "get_bootargs_cmdline E node =
     (if node < 0 then return None
      else do {
        r \<leftarrow> call E (FdtGetprop node ''bootargs'');
        return (case r of Prop p \<Rightarrow> if length p \<noteq> 0 then Some p else None | _ \<Rightarrow> None)
      })"

definition parse_cmdline :: "idreg_env \<Rightarrow> idreg_params \<Rightarrow> int \<Rightarrow> unit idreg_prog" where
  "parse_cmdline E K chosen = do {
     prop \<leftarrow> get_bootargs_cmdline E chosen;
     whenM (CONFIG_CMDLINE_FORCE K \<or> prop = None) (modd (parse_cmdline_words K (CONFIG_CMDLINE K) True));
     case prop of
       Some p \<Rightarrow> whenM (\<not> CONFIG_CMDLINE_FORCE K) (modd (parse_cmdline_words K p True))
     | None \<Rightarrow> return ()
   }"

definition init_feature_override :: "idreg_env \<Rightarrow> idreg_params \<Rightarrow> u64 \<Rightarrow> int \<Rightarrow> unit idreg_prog" where
  "init_feature_override E K status chosen = do {
     for_each (regs K) (\<lambda>d. modd (upd_override (rover d) (\<lambda>ov. ov\<lparr>ovr_val := 0, ovr_mask := 0\<rparr>)));
     modd (\<lambda>s. s\<lparr>boot_status := status\<rparr>);
     parse_cmdline E K chosen;
     for_each (regs K) (\<lambda>d. exec E (CleanInval (rover d)))
   }"

section \<open>The words of a command line\<close>

function words :: "string \<Rightarrow> string list" where
  "words s = (let s = dropWhile isspace s in if s = [] then [] else takeWhile (\<lambda>c. \<not> isspace c) s # words (dropWhile (\<lambda>c. \<not> isspace c) s))"
  by pat_completeness auto
termination
proof (relation "measure length")
  fix s x :: string
  assume x: "x = dropWhile isspace s" "x \<noteq> []"
  then obtain c cs where c: "x = c # cs" "\<not> isspace c" by (metis hd_dropWhile list.exhaust_sel)
  have "length (dropWhile (\<lambda>c. \<not> isspace c) x) \<le> length cs" using c by (simp add: length_dropWhile_le)
  moreover have "length x \<le> length s" using x(1) by (simp add: length_dropWhile_le)
  ultimately show "(dropWhile (\<lambda>c. \<not> isspace c) x, s) \<in> measure length" using c(1) by simp
qed simp

declare words.simps [simp del]

lemma skip_spaces_dropWhile: "skip_spaces s = dropWhile isspace s"
  by (induction s) auto

lemma drop_word: "drop (length (takeWhile P s)) s = dropWhile P s"
  by (induction s) auto

text \<open>What the loop sees at the start of a word.\<close>

lemma word_start:
  assumes "s \<noteq> []" and "\<not> isspace (hd s)" and "length (takeWhile (\<lambda>c. \<not> isspace c) s) \<le> 255"
  shows "word_len s = length (takeWhile (\<lambda>c. \<not> isspace c) s)" "word_len s \<noteq> 0"
    "take (word_len s) s = takeWhile (\<lambda>c. \<not> isspace c) s" "drop (word_len s) s = dropWhile (\<lambda>c. \<not> isspace c) s"
proof -
  show l: "word_len s = length (takeWhile (\<lambda>c. \<not> isspace c) s)" using assms(3) by (simp add: word_len_def)
  show "word_len s \<noteq> 0" unfolding l using assms(1,2) by (cases s) simp_all
  show "take (word_len s) s = takeWhile (\<lambda>c. \<not> isspace c) s" unfolding l by (metis takeWhile_eq_take)
  show "drop (word_len s) s = dropWhile (\<lambda>c. \<not> isspace c) s" unfolding l by (rule drop_word)
qed

definition at_separator :: "string \<Rightarrow> bool" where
  "at_separator s \<longleftrightarrow> char_at s 0 = Some (CHR ''-'') \<and> char_at s 1 = Some (CHR ''-'') \<and> (case char_at s 2 of None \<Rightarrow> False | Some c \<Rightarrow> isspace c)"

lemma separator_word: "at_separator s \<longleftrightarrow> takeWhile (\<lambda>c. \<not> isspace c) s = ''--'' \<and> s \<noteq> ''--''"
proof (cases s)
  case (Cons a s1)
  show ?thesis
  proof (cases s1)
    case (Cons b s2)
    with \<open>s = a # s1\<close> show ?thesis by (cases s2) (auto simp: at_separator_def char_at_def isspace_def)
  qed (use Cons in \<open>auto simp: at_separator_def char_at_def\<close>)
qed (simp add: at_separator_def char_at_def)

lemma parse_loop_step:
  "parse_loop act c s = (let x = skip_spaces c in if at_separator x \<or> word_len x = 0 then s else parse_loop act (drop (word_len x) x) (act (dash (take (word_len x) x)) s))"
  unfolding parse_loop.simps [of act c] at_separator_def by (simp add: Let_def)

lemma parse_loop_word:
  assumes "\<not> isspace (hd x)" and "x \<noteq> []" and "skip_spaces c = x" and "length (takeWhile (\<lambda>c. \<not> isspace c) x) \<le> 255" and "\<not> at_separator x"
  shows "parse_loop act c s = parse_loop act (dropWhile (\<lambda>c. \<not> isspace c) x) (act (dash (takeWhile (\<lambda>c. \<not> isspace c) x)) s)"
  using assms word_start [OF assms(2,1,4)] by (simp add: parse_loop_step [of act c])

lemma parse_loop_end: "skip_spaces c = [] \<Longrightarrow> parse_loop act c s = s"
  by (simp add: parse_loop_step [of act c] word_len_def)

lemma parse_loop_separator: "at_separator (skip_spaces c) \<Longrightarrow> parse_loop act c s = s"
  by (simp add: parse_loop_step [of act c])

lemma parse_loop_words:
  assumes "\<And>s. act ''__'' s = s"
  shows "\<forall>w \<in> set (words c). length w \<le> 255 \<Longrightarrow> parse_loop act c s = fold (\<lambda>w. act (dash w)) (takeWhile (\<lambda>w. w \<noteq> ''--'') (words c)) s"
proof (induction c arbitrary: s rule: words.induct)
  case (1 c)
  let ?x = "dropWhile isspace c"
  let ?w = "takeWhile (\<lambda>c. \<not> isspace c) ?x"
  let ?r = "dropWhile (\<lambda>c. \<not> isspace c) ?x"
  show ?case
  proof (cases "?x = []")
    case True
    then show ?thesis by (simp add: words.simps [of c] parse_loop_end skip_spaces_dropWhile)
  next
    case False
    then have ws: "words c = ?w # words ?r" by (simp add: words.simps [of c] Let_def)
    have h: "\<not> isspace (hd ?x)" using False by (rule hd_dropWhile)
    have l: "length ?w \<le> 255" "\<forall>w \<in> set (words ?r). length w \<le> 255" using "1.prems" ws by simp_all
    consider (sep) "at_separator ?x" | (tail) "\<not> at_separator ?x" "?w = ''--''" | (word) "\<not> at_separator ?x" "?w \<noteq> ''--''" by blast
    then show ?thesis
    proof cases
      case sep
      then show ?thesis unfolding ws using parse_loop_separator [of c act s] by (simp add: separator_word skip_spaces_dropWhile)
    next
      case tail
      then have x: "?x = ''--''" using separator_word by blast
      have "parse_loop act c s = parse_loop act ?r (act (dash ?w) s)" by (rule parse_loop_word [OF h False skip_spaces_dropWhile l(1) tail(1)])
      moreover have "?r = []" unfolding x by (simp add: isspace_def)
      moreover have "dash ?w = ''__''" unfolding tail(2) by (simp add: dash_def)
      ultimately show ?thesis unfolding ws using tail(2) assms by (simp add: parse_loop_end)
    next
      case word
      have "parse_loop act c s = parse_loop act ?r (act (dash ?w) s)" by (rule parse_loop_word [OF h False skip_spaces_dropWhile l(1) word(1)])
      with "1.IH" [OF refl False l(2)] word(2) show ?thesis unfolding ws by simp
    qed
  qed
qed

section \<open>Which option a word is\<close>

definition options :: "idreg_params \<Rightarrow> (ftr_set_desc \<times> ftr_field) list" where
  "options K = concat (map (\<lambda>d. map (Pair d) (rfields d)) (regs K))"

definition opt_name :: "ftr_set_desc \<times> ftr_field \<Rightarrow> string" where
  "opt_name x = rname (fst x) @ ''.'' @ fname (snd x) @ ''=''"

definition apply_option :: "ftr_set_desc \<times> ftr_field \<Rightarrow> u64 \<Rightarrow> idreg \<Rightarrow> idreg" where
  "apply_option x v s =
     (case ffilter (snd x) of
        None \<Rightarrow> set_field (rover (fst x)) (snd x) v s
      | Some flt \<Rightarrow> (case flt v s of (ok, s') \<Rightarrow> if ok then set_field (rover (fst x)) (snd x) v s' else refuse_field (rover (fst x)) (snd x) s'))"

definition option_value :: "string \<Rightarrow> ftr_set_desc \<times> ftr_field \<Rightarrow> u64 option" where
  "option_value buf x = find_field buf (rname (fst x) @ ''.'') (snd x)"

definition try_option :: "string \<Rightarrow> ftr_set_desc \<times> ftr_field \<Rightarrow> idreg \<Rightarrow> idreg" where
  "try_option buf x s = (case option_value buf x of None \<Rightarrow> s | Some v \<Rightarrow> apply_option x v s)"

text \<open>At most one option of a list matches.\<close>

definition exclusive :: "string \<Rightarrow> (ftr_set_desc \<times> ftr_field) list \<Rightarrow> bool" where
  "exclusive buf xs \<longleftrightarrow> sorted_wrt (\<lambda>x y. option_value buf x = None \<or> option_value buf y = None) xs"

lemma try_option_simps:
  "option_value buf x = None \<Longrightarrow> try_option buf x s = s" "option_value buf x = Some v \<Longrightarrow> try_option buf x s = apply_option x v s"
  by (simp_all add: try_option_def)

lemma fold_no_option: "\<forall>x \<in> set xs. option_value buf x = None \<Longrightarrow> fold (try_option buf) xs s = s"
  by (induction xs) (auto simp: try_option_simps)

lemma exclusive_Cons:
  "exclusive buf (x # xs) \<longleftrightarrow> exclusive buf xs \<and> (option_value buf x = None \<or> (\<forall>y \<in> set xs. option_value buf y = None))"
  by (auto simp: exclusive_def)

lemma exclusive_append:
  "exclusive buf (xs @ ys) \<Longrightarrow> exclusive buf xs \<and> exclusive buf ys \<and> ((\<exists>x \<in> set xs. option_value buf x \<noteq> None) \<longrightarrow> (\<forall>y \<in> set ys. option_value buf y = None))"
  by (auto simp: exclusive_def sorted_wrt_append)

lemma match_fields_fold:
  "exclusive buf (map (Pair d) fs) \<Longrightarrow> match_fields buf (rname d @ ''.'') (rover d) fs s = (s', ret) \<Longrightarrow>
    s' = fold (try_option buf) (map (Pair d) fs) s \<and> (ret \<longrightarrow> (\<exists>x \<in> set (map (Pair d) fs). option_value buf x \<noteq> None))"
proof (induction fs arbitrary: s)
  case (Cons f fs)
  show ?case
  proof (cases "find_field buf (rname d @ ''.'') f")
    case None
    with Cons show ?thesis by (auto simp: exclusive_Cons try_option_simps option_value_def)
  next
    case (Some v)
    then have v: "option_value buf (d, f) = Some v" by (simp add: option_value_def)
    then have rest: "\<forall>y \<in> set (map (Pair d) fs). option_value buf y = None" "exclusive buf (map (Pair d) fs)" using Cons.prems(1) by (auto simp: exclusive_Cons)
    have id: "fold (try_option buf) (map (Pair d) fs) t = t" for t by (rule fold_no_option [OF rest(1)])
    show ?thesis
      using Cons.prems(2) Some v Cons.IH [OF rest(2)] id
      by (auto simp: try_option_simps apply_option_def split: option.splits prod.splits if_splits)
  qed
qed simp

lemma match_regs_fold:
  "exclusive buf (concat (map (\<lambda>d. map (Pair d) (rfields d)) ds)) \<Longrightarrow> match_regs buf ds s = fold (try_option buf) (concat (map (\<lambda>d. map (Pair d) (rfields d)) ds)) s"
proof (induction ds arbitrary: s)
  case (Cons d ds)
  let ?rest = "concat (map (\<lambda>d. map (Pair d) (rfields d)) ds)"
  obtain s' ret where m: "match_fields buf (rname d @ ''.'') (rover d) (rfields d) s = (s', ret)" by fastforce
  have "exclusive buf (map (Pair d) (rfields d) @ ?rest)" using Cons.prems by simp
  note e = exclusive_append [OF this, THEN conjunct1] exclusive_append [OF this, THEN conjunct2, THEN conjunct1]
    exclusive_append [OF this, THEN conjunct2, THEN conjunct2]
  note f = match_fields_fold [OF e(1) m]
  have "(if ret then s' else match_regs buf ds s') = fold (try_option buf) ?rest s'"
  proof (cases ret)
    case True
    then have "\<forall>y \<in> set ?rest. option_value buf y = None" using f e(3) by blast
    from fold_no_option [OF this] True show ?thesis by simp
  qed (simp add: Cons.IH [OF e(2)])
  then show ?case unfolding match_regs.simps m prod.case using f [THEN conjunct1] by simp
qed simp

text \<open>The names are distinct and have one equals sign, at the end. So two of them are never both the start of a word.\<close>

lemma option_names:
  "map opt_name (options K) = [''id_aa64mmfr0.ecv='', ''id_aa64mmfr1.vh='', ''id_aa64mmfr2.varange='', ''id_aa64pfr0.sve='', ''id_aa64pfr0.el0='',
    ''id_aa64pfr0.mpam='', ''id_aa64pfr1.bt='', ''id_aa64pfr1.gcs='', ''id_aa64pfr1.mte='', ''id_aa64pfr1.sme='', ''id_aa64pfr1.mpam_frac='',
    ''id_aa64isar1.gpi='', ''id_aa64isar1.gpa='', ''id_aa64isar1.api='', ''id_aa64isar1.apa='', ''id_aa64isar2.wfxt='', ''id_aa64isar2.gpa3='',
    ''id_aa64isar2.apa3='', ''id_aa64isar2.mops='', ''id_aa64smfr0.smever='', ''id_aa64smfr0.fa64='', ''arm64_sw.nokaslr='', ''arm64_sw.hvhe='', ''arm64_sw.rodataoff='']"
  by (simp add: options_def regs_def mmfr0_def mmfr1_def mmfr2_def pfr0_def pfr1_def isar1_def isar2_def smfr0_def sw_features_def FIELD_def opt_name_def)

lemma names_distinct: "distinct (map opt_name (options K))"
  unfolding option_names by simp

lemma names_end:
  assumes "x \<in> set (options K)"
  shows "takeWhile (\<lambda>c. c \<noteq> CHR ''='') (opt_name x @ rest) @ ''='' = opt_name x"
proof -
  have "list_all (\<lambda>n. \<forall>rest. takeWhile (\<lambda>c. c \<noteq> CHR ''='') (n @ rest) @ ''='' = n) (map opt_name (options K))"
    unfolding option_names by simp
  then show ?thesis using assms by (auto simp: list_all_iff)
qed

lemma value_name: "option_value buf x = Some v \<longleftrightarrow> (\<exists>digits. buf = opt_name x @ digits \<and> parse_hexdigit digits = Some v)"
proof -
  have "option_value buf x = (if take (length (opt_name x)) buf = opt_name x then parse_hexdigit (drop (length (opt_name x)) buf) else None)"
    by (simp add: option_value_def find_field_def opt_name_def Let_def)
  moreover have "take (length n) buf = n \<longleftrightarrow> (\<exists>digits. buf = n @ digits)" for n
    by (metis append_eq_conv_conj)
  ultimately show ?thesis by auto
qed

lemma options_exclusive: "exclusive buf (options K)"
proof -
  have same: "x = y" if "x \<in> set (options K)" "y \<in> set (options K)" "option_value buf x \<noteq> None" "option_value buf y \<noteq> None" for x y
  proof -
    from that(3,4) obtain r r' where b: "buf = opt_name x @ r" "buf = opt_name y @ r'" using value_name by blast
    have "opt_name x = opt_name y" using names_end [OF that(1), of r] names_end [OF that(2), of r'] b by simp
    then show ?thesis using names_distinct [of K] that(1,2) by (auto simp: distinct_map inj_on_def)
  qed
  have "distinct (options K)" using names_distinct [of K] by (simp add: distinct_map)
  show ?thesis
    unfolding exclusive_def sorted_wrt_iff_nth_less
  proof (intro allI impI)
    fix i j
    assume "i < j" "j < length (options K)"
    then have "options K ! i \<noteq> options K ! j" "options K ! i \<in> set (options K)" "options K ! j \<in> set (options K)"
      using \<open>distinct (options K)\<close> by (simp_all add: nth_eq_iff_index_eq)
    then show "option_value buf (options K ! i) = None \<or> option_value buf (options K ! j) = None" using same by blast
  qed
qed

lemma fold_one_option:
  "exclusive buf xs \<Longrightarrow> x \<in> set xs \<Longrightarrow> option_value buf x = Some v \<Longrightarrow> fold (try_option buf) xs s = apply_option x v s"
proof (induction xs arbitrary: s)
  case (Cons y ys)
  show ?case
  proof (cases "option_value buf y")
    case None
    with Cons show ?thesis by (auto simp: exclusive_Cons try_option_simps)
  next
    case (Some u)
    then have n: "\<forall>z \<in> set ys. option_value buf z = None" using Cons.prems(1) by (simp add: exclusive_Cons)
    with Cons.prems(2,3) have "x = y" by auto
    with Cons.prems(3) fold_no_option [OF n] show ?thesis by (simp add: try_option_simps)
  qed
qed simp

text \<open>A word changes what it names, and nothing otherwise. A register's name, a dot, a field's name, an equals sign and one hexadecimal digit, with or without 0x,
  acts on that field alone, and the search for it visits no other; any other word leaves the state as it is.\<close>

theorem match_options_exact:
  "(x \<in> set (options K) \<and> parse_hexdigit digits = Some v \<longrightarrow> match_options K (opt_name x @ digits) s = apply_option x v s)
    \<and> ((\<nexists>x digits v. x \<in> set (options K) \<and> parse_hexdigit digits = Some v \<and> buf = opt_name x @ digits) \<longrightarrow> match_options K buf s = s)"
proof -
  have fold: "match_options K b s = fold (try_option b) (options K) s" for b
    unfolding match_options_def options_def by (rule match_regs_fold) (simp add: options_exclusive [unfolded options_def])
  have "match_options K (opt_name x @ digits) s = apply_option x v s" if "x \<in> set (options K)" "parse_hexdigit digits = Some v"
    unfolding fold by (rule fold_one_option [OF options_exclusive that(1)]) (use that(2) value_name in blast)
  moreover have "match_options K buf s = s" if n: "\<nexists>x digits v. x \<in> set (options K) \<and> parse_hexdigit digits = Some v \<and> buf = opt_name x @ digits"
  proof -
    have "option_value buf x = None" if "x \<in> set (options K)" for x
      using n that value_name [of buf x] by (cases "option_value buf x") blast+
    then show ?thesis unfolding fold by (simp add: fold_no_option)
  qed
  ultimately show ?thesis by blast
qed

section \<open>The table the overrides implement\<close>

datatype fstate = Unset | FieldSet u64 | Refused

type_synonym ftable = "ovr \<Rightarrow> string \<Rightarrow> fstate"

definition holds :: "ftr_field \<Rightarrow> arm64_ftr_override \<Rightarrow> fstate \<Rightarrow> bool" where
  "holds f ov st =
     (case st of
        Unset \<Rightarrow> ovr_val ov AND field_mask f = 0 \<and> ovr_mask ov AND field_mask f = 0
      | FieldSet v \<Rightarrow> ovr_val ov AND field_mask f = push_bit (fshift f) v AND field_mask f \<and> ovr_mask ov AND field_mask f = field_mask f
      | Refused \<Rightarrow> ovr_val ov AND field_mask f = field_mask f \<and> ovr_mask ov AND field_mask f = 0)"

definition implements :: "idreg_params \<Rightarrow> idreg \<Rightarrow> ftable \<Rightarrow> bool" where
  "implements K s t \<longleftrightarrow> (\<forall>x \<in> set (options K). holds (snd x) (override_of s (rover (fst x))) (t (rover (fst x)) (fname (snd x))))"

text \<open>Which values are accepted: virtualisation extensions cannot be turned off on a processor that is stuck in them, the address range can only be reduced to
  the smallest, and the hypervisor's own mode needs the processor to have started at the right level with the extensions.\<close>

definition accepted :: "idreg_params \<Rightarrow> u64 \<Rightarrow> ovr \<Rightarrow> string \<Rightarrow> u64 \<Rightarrow> bool" where
  "accepted K status r n v =
     (if r = Mmfr1 \<and> n = ''vh'' then \<not> (status = cst K ''BOOT_CPU_FLAG_E2H'' OR cst K ''BOOT_CPU_MODE_EL2'' \<and> v = 0)
      else if r = Mmfr2 \<and> n = ''varange'' then v = 0
      else if r = Sw \<and> n = ''hvhe'' then v = 1 \<and> take_bit 32 status = cst K ''BOOT_CPU_MODE_EL2''
        \<and> cpuid_feature_extract_unsigned_field K (read_sysreg K ''id_aa64mmfr1_el1'') (bitno K ''ID_AA64MMFR1_EL1_VH_SHIFT'') \<noteq> 0
      else True)"

text \<open>An option in the table: SME set to 0 clears the fields that describe it.\<close>

definition table_option :: "idreg_params \<Rightarrow> u64 \<Rightarrow> ovr \<Rightarrow> string \<Rightarrow> u64 \<Rightarrow> ftable \<Rightarrow> ftable" where
  "table_option K status r n v t =
     (let t = (if r = Pfr1 \<and> n = ''sme'' \<and> v = 0 then t(Smfr0 := (\<lambda>_. FieldSet 0)) else t)
      in t(r := (t r)(n := if accepted K status r n v then FieldSet v else Refused)))"

definition table_word :: "idreg_params \<Rightarrow> u64 \<Rightarrow> string \<Rightarrow> ftable \<Rightarrow> ftable" where
  "table_word K status buf t =
     (case find (\<lambda>x. option_value buf x \<noteq> None) (options K) of
        None \<Rightarrow> t
      | Some x \<Rightarrow> table_option K status (rover (fst x)) (fname (snd x)) (the (option_value buf x)) t)"

text \<open>The registers' layout: the fields of a register do not overlap, nor do those the address range forces.\<close>

definition lpa2_bits :: "idreg_params \<Rightarrow> u64" where
  "lpa2_bits K = push_bit (bitno K ''ID_AA64MMFR0_EL1_TGRAN_SHIFT'') 0xF OR push_bit (bitno K ''ID_AA64MMFR0_EL1_PARANGE_SHIFT'') 0xF
     OR push_bit (bitno K ''ID_AA64MMFR0_EL1_TGRAN_SHIFT'') (cst K ''ID_AA64MMFR0_EL1_TGRAN_LPA2'' - 1)
     OR push_bit (bitno K ''ID_AA64MMFR0_EL1_PARANGE_SHIFT'') (cst K ''ID_AA64MMFR0_EL1_PARANGE_48'')"

definition fields_apart :: "idreg_params \<Rightarrow> bool" where
  "fields_apart K \<longleftrightarrow>
     list_all (\<lambda>d. list_all (\<lambda>f. list_all (\<lambda>g. fname f = fname g \<or> field_mask f AND field_mask g = 0) (rfields d)) (rfields d)) (regs K)
     \<and> lpa2_bits K AND field_mask (hd (rfields (mmfr0 K))) = 0"

lemmas table_defs = options_def regs_def mmfr0_def mmfr1_def mmfr2_def pfr0_def pfr1_def isar1_def isar2_def smfr0_def sw_features_def FIELD_def

lemma and_zero_bits: "a AND b = (0 :: u64) \<longleftrightarrow> (\<forall>n. \<not> (bit a n \<and> bit b n))"
proof -
  have "bit a n \<Longrightarrow> n < 64" for n using bit_imp_le_length [of a n] by simp
  then show ?thesis unfolding bit_eq_iff by (auto simp: bit_and_iff)
qed

lemma holds_same:
  assumes "\<And>n. bit (field_mask f) n \<Longrightarrow> bit (ovr_val ov') n = bit (ovr_val ov) n \<and> bit (ovr_mask ov') n = bit (ovr_mask ov) n"
  shows "holds f ov' st = holds f ov st"
proof -
  have "ovr_val ov' AND field_mask f = ovr_val ov AND field_mask f" "ovr_mask ov' AND field_mask f = ovr_mask ov AND field_mask f"
    by (rule bit_word_eqI, use assms in \<open>auto simp: bit_simps\<close>)+
  then show ?thesis by (cases st) (simp_all add: holds_def)
qed

lemma set_holds:
  "holds f (override_of (set_field r f v s) r) (FieldSet v)"
  "field_mask f AND field_mask g = 0 \<Longrightarrow> holds g (override_of (set_field r f v s) r) st = holds g (override_of s r) st"
  "r' \<noteq> r \<Longrightarrow> override_of (set_field r f v s) r' = override_of s r'"
proof -
  show "holds f (override_of (set_field r f v s) r) (FieldSet v)"
    by (auto simp: holds_def set_field_def upd_override_def intro!: bit_word_eqI) (auto simp: bit_simps)
  show "field_mask f AND field_mask g = 0 \<Longrightarrow> holds g (override_of (set_field r f v s) r) st = holds g (override_of s r) st"
    unfolding and_zero_bits by (rule holds_same) (auto simp: set_field_def upd_override_def bit_simps dest: bit_imp_le_length)
qed (simp add: set_field_def upd_override_def)

lemma refuse_holds:
  "holds f (override_of (refuse_field r f s) r) Refused"
  "field_mask f AND field_mask g = 0 \<Longrightarrow> holds g (override_of (refuse_field r f s) r) st = holds g (override_of s r) st"
  "r' \<noteq> r \<Longrightarrow> override_of (refuse_field r f s) r' = override_of s r'"
proof -
  show "holds f (override_of (refuse_field r f s) r) Refused"
    by (auto simp: holds_def refuse_field_def upd_override_def intro!: bit_word_eqI) (auto simp: bit_simps)
  show "field_mask f AND field_mask g = 0 \<Longrightarrow> holds g (override_of (refuse_field r f s) r) st = holds g (override_of s r) st"
    unfolding and_zero_bits by (rule holds_same) (auto simp: refuse_field_def upd_override_def bit_simps dest: bit_imp_le_length)
qed (simp add: refuse_field_def upd_override_def)

text \<open>What a filter does before the field itself is written.\<close>

definition side_table :: "ovr \<Rightarrow> string \<Rightarrow> u64 \<Rightarrow> ftable \<Rightarrow> ftable" where
  "side_table r n v t = (if r = Pfr1 \<and> n = ''sme'' \<and> v = 0 then t(Smfr0 := (\<lambda>_. FieldSet 0)) else t)"

lemma options_cases:
  assumes "x \<in> set (options K)"
  shows "(rover (fst x) = Mmfr1 \<and> fname (snd x) = ''vh'' \<and> ffilter (snd x) = Some (mmfr1_vh_filter K))
    \<or> (rover (fst x) = Mmfr2 \<and> fname (snd x) = ''varange'' \<and> ffilter (snd x) = Some (mmfr2_varange_filter K))
    \<or> (rover (fst x) = Pfr0 \<and> fname (snd x) = ''sve'' \<and> ffilter (snd x) = Some pfr0_sve_filter)
    \<or> (rover (fst x) = Pfr1 \<and> fname (snd x) = ''sme'' \<and> ffilter (snd x) = Some pfr1_sme_filter)
    \<or> (rover (fst x) = Sw \<and> fname (snd x) = ''hvhe'' \<and> ffilter (snd x) = Some (hvhe_filter K))
    \<or> (ffilter (snd x) = None \<and> \<not> (rover (fst x) = Mmfr1 \<and> fname (snd x) = ''vh'') \<and> \<not> (rover (fst x) = Mmfr2 \<and> fname (snd x) = ''varange'')
        \<and> \<not> (rover (fst x) = Pfr1 \<and> fname (snd x) = ''sme'') \<and> \<not> (rover (fst x) = Sw \<and> fname (snd x) = ''hvhe''))"
proof -
  have "list_all (\<lambda>x. (rover (fst x) = Mmfr1 \<and> fname (snd x) = ''vh'' \<and> ffilter (snd x) = Some (mmfr1_vh_filter K))
    \<or> (rover (fst x) = Mmfr2 \<and> fname (snd x) = ''varange'' \<and> ffilter (snd x) = Some (mmfr2_varange_filter K))
    \<or> (rover (fst x) = Pfr0 \<and> fname (snd x) = ''sve'' \<and> ffilter (snd x) = Some pfr0_sve_filter)
    \<or> (rover (fst x) = Pfr1 \<and> fname (snd x) = ''sme'' \<and> ffilter (snd x) = Some pfr1_sme_filter)
    \<or> (rover (fst x) = Sw \<and> fname (snd x) = ''hvhe'' \<and> ffilter (snd x) = Some (hvhe_filter K))
    \<or> (ffilter (snd x) = None \<and> \<not> (rover (fst x) = Mmfr1 \<and> fname (snd x) = ''vh'') \<and> \<not> (rover (fst x) = Mmfr2 \<and> fname (snd x) = ''varange'')
        \<and> \<not> (rover (fst x) = Pfr1 \<and> fname (snd x) = ''sme'') \<and> \<not> (rover (fst x) = Sw \<and> fname (snd x) = ''hvhe''))) (options K)"
    by (simp add: table_defs)
  then show ?thesis using assms unfolding list_all_iff by blast
qed


text \<open>Writing another register, or a field besides.\<close>

lemma options_apart:
  assumes "fields_apart K" and "x \<in> set (options K)" and "y \<in> set (options K)" and "rover (fst x) = rover (fst y)" and "fname (snd x) \<noteq> fname (snd y)"
  shows "field_mask (snd x) AND field_mask (snd y) = 0"
proof -
  have d: "fst x \<in> set (regs K)" "fst y \<in> set (regs K)" "snd x \<in> set (rfields (fst x))" "snd y \<in> set (rfields (fst y))"
    using assms(2,3) by (auto simp: options_def)
  have "distinct (map rover (regs K))" by (simp add: table_defs)
  then have i: "inj_on rover (set (regs K))" by (simp add: distinct_map)
  have "fst x = fst y" by (rule inj_onD [OF i assms(4) d(1,2)])
  then show ?thesis using assms(1,5) d unfolding fields_apart_def list_all_iff by metis
qed

lemma options_same:
  assumes "x \<in> set (options K)" and "y \<in> set (options K)" and "rover (fst x) = rover (fst y)" and "fname (snd x) = fname (snd y)"
  shows "x = y"
proof -
  have "distinct (map (\<lambda>x. (rover (fst x), fname (snd x))) (options K))" by (simp add: table_defs)
  then have i: "inj_on (\<lambda>x. (rover (fst x), fname (snd x))) (set (options K))" by (simp add: distinct_map)
  show ?thesis by (rule inj_onD [OF i _ assms(1,2)]) (simp add: assms(3,4))
qed

lemma implements_write:
  assumes "fields_apart K" and "x \<in> set (options K)" and "implements K s t"
    and "holds (snd x) (override_of s' (rover (fst x))) st"
    and "\<And>g st. field_mask (snd x) AND field_mask g = 0 \<Longrightarrow> holds g (override_of s' (rover (fst x))) st = holds g (override_of s (rover (fst x))) st"
    and "\<And>r. r \<noteq> rover (fst x) \<Longrightarrow> override_of s' r = override_of s r"
  shows "implements K s' (t(rover (fst x) := (t (rover (fst x)))(fname (snd x) := st)))"
  unfolding implements_def
proof
  fix y
  assume y: "y \<in> set (options K)"
  have o: "holds (snd y) (override_of s (rover (fst y))) (t (rover (fst y)) (fname (snd y)))" using assms(3) y by (simp add: implements_def)
  consider "rover (fst y) \<noteq> rover (fst x)" | "rover (fst y) = rover (fst x)" "fname (snd y) = fname (snd x)"
    | "rover (fst x) = rover (fst y)" "fname (snd x) \<noteq> fname (snd y)" by fastforce
  then show "holds (snd y) (override_of s' (rover (fst y))) ((t(rover (fst x) := (t (rover (fst x)))(fname (snd x) := st))) (rover (fst y)) (fname (snd y)))"
  proof cases
    case 1
    then show ?thesis using o assms(6) by simp
  next
    case 2
    then show ?thesis using options_same [OF y assms(2) 2] assms(4) by simp
  next
    case 3
    then show ?thesis using o assms(5) [OF options_apart [OF assms(1,2) y 3]] by simp
  qed
qed

lemma upd_override_simps [simp]:
  "boot_status (upd_override r g s) = boot_status s" "override_of (upd_override r g s) r' = (if r' = r then g (override_of s r) else override_of s r')"
  by (simp_all add: upd_override_def)

text \<open>What the filters do.\<close>

lemma side_sme: "implements K s t \<Longrightarrow> implements K (upd_override Smfr0 (\<lambda>ov. ov\<lparr>ovr_val := 0, ovr_mask := GENMASK (63, 0)\<rparr>) s) (t(Smfr0 := (\<lambda>_. FieldSet 0)))"
proof -
  have "(GENMASK (63, 0) :: u64) AND m = m" for m by (rule bit_word_eqI) (auto simp: bit_simps field_simps_bits)
  then show "implements K s t \<Longrightarrow> ?thesis" by (auto simp: implements_def holds_def)
qed

lemma side_other: "implements K s t \<Longrightarrow> r \<notin> rover ` set (regs K) \<Longrightarrow> implements K (upd_override r g s) t"
  by (auto simp: implements_def options_def)

lemma side_varange:
  assumes "implements K s t" and "fields_apart K"
  shows "implements K (snd (mmfr2_varange_filter K v s)) t"
proof -
  let ?f = "hd (rfields (mmfr0 K))"
  have o: "snd x = ?f" if "x \<in> set (options K)" "rover (fst x) = Mmfr0" for x using that by (auto simp: table_defs)
  have b: "\<not> bit (lpa2_bits K) n" if "bit (field_mask ?f) n" for n
    using assms(2) that unfolding fields_apart_def and_zero_bits by blast
  show ?thesis
    unfolding implements_def
  proof
    fix x
    assume x: "x \<in> set (options K)"
    have "holds (snd x) (override_of (snd (mmfr2_varange_filter K v s)) (rover (fst x))) st = holds (snd x) (override_of s (rover (fst x))) st" for st
    proof (cases "rover (fst x) = Mmfr0")
      case True
      show ?thesis unfolding o [OF x True] True
        by (rule holds_same) (use b in \<open>auto simp: mmfr2_varange_filter_def Let_def lpa2_bits_def bit_or_iff\<close>)
    qed (simp add: mmfr2_varange_filter_def Let_def)
    then show "holds (snd x) (override_of (snd (mmfr2_varange_filter K v s)) (rover (fst x))) (t (rover (fst x)) (fname (snd x)))"
      using assms(1) x by (simp add: implements_def)
  qed
qed

lemma filter_effect:
  assumes "x \<in> set (options K)" and "implements K s t" and "fields_apart K"
  shows "\<exists>s1. apply_option x v s = (if accepted K (boot_status s) (rover (fst x)) (fname (snd x)) v
        then set_field (rover (fst x)) (snd x) v s1 else refuse_field (rover (fst x)) (snd x) s1)
    \<and> implements K s1 (side_table (rover (fst x)) (fname (snd x)) v t) \<and> boot_status s1 = boot_status s"
proof -
  have z: "Zfr0 \<notin> rover ` set (regs K)" by (simp add: table_defs)
  obtain s2 where e: "mmfr2_varange_filter K v s = (v = 0, s2)" "boot_status s2 = boot_status s"
  proof
    show "mmfr2_varange_filter K v s = (v = 0, snd (mmfr2_varange_filter K v s))" by (simp add: mmfr2_varange_filter_def Let_def)
    show "boot_status (snd (mmfr2_varange_filter K v s)) = boot_status s" by (simp add: mmfr2_varange_filter_def Let_def)
  qed
  have va: "implements K s2 t" using side_varange [OF assms(2,3), of v] e(1) by simp
  from options_cases [OF assms(1)] show ?thesis
  proof (elim disjE conjE)
    assume f: "rover (fst x) = Mmfr1" "fname (snd x) = ''vh''" "ffilter (snd x) = Some (mmfr1_vh_filter K)"
    show ?thesis by (rule exI [of _ s]) (simp add: f apply_option_def mmfr1_vh_filter_def accepted_def side_table_def assms(2))
  next
    assume f: "rover (fst x) = Mmfr2" "fname (snd x) = ''varange''" "ffilter (snd x) = Some (mmfr2_varange_filter K)"
    show ?thesis by (rule exI [of _ s2]) (simp add: f apply_option_def e va accepted_def side_table_def)
  next
    assume f: "rover (fst x) = Pfr0" "fname (snd x) = ''sve''" "ffilter (snd x) = Some pfr0_sve_filter"
    show ?thesis
      by (rule exI [of _ "snd (pfr0_sve_filter v s)"])
        (simp add: f apply_option_def pfr0_sve_filter_def accepted_def side_table_def assms(2) side_other [OF assms(2) z])
  next
    assume f: "rover (fst x) = Pfr1" "fname (snd x) = ''sme''" "ffilter (snd x) = Some pfr1_sme_filter"
    show ?thesis
      by (rule exI [of _ "snd (pfr1_sme_filter v s)"])
        (simp add: f apply_option_def pfr1_sme_filter_def accepted_def side_table_def assms(2) side_sme [OF assms(2)])
  next
    assume f: "rover (fst x) = Sw" "fname (snd x) = ''hvhe''" "ffilter (snd x) = Some (hvhe_filter K)"
    show ?thesis by (rule exI [of _ s]) (simp add: f apply_option_def hvhe_filter_def accepted_def side_table_def assms(2))
  next
    assume f: "ffilter (snd x) = None" "\<not> (rover (fst x) = Mmfr1 \<and> fname (snd x) = ''vh'')" "\<not> (rover (fst x) = Mmfr2 \<and> fname (snd x) = ''varange'')"
      "\<not> (rover (fst x) = Pfr1 \<and> fname (snd x) = ''sme'')" "\<not> (rover (fst x) = Sw \<and> fname (snd x) = ''hvhe'')"
    have "accepted K (boot_status s) (rover (fst x)) (fname (snd x)) v" "side_table (rover (fst x)) (fname (snd x)) v t = t"
      using f(2-5) by (auto simp: accepted_def side_table_def)
    then show ?thesis by (intro exI [of _ s]) (simp add: f(1) apply_option_def assms(2))
  qed
qed

lemma apply_implements:
  assumes "x \<in> set (options K)" and "implements K s t" and "fields_apart K"
  shows "implements K (apply_option x v s) (table_option K (boot_status s) (rover (fst x)) (fname (snd x)) v t)
    \<and> boot_status (apply_option x v s) = boot_status s"
proof -
  let ?r = "rover (fst x)" and ?n = "fname (snd x)"
  from filter_effect [OF assms] obtain s1 where s1: "apply_option x v s = (if accepted K (boot_status s) ?r ?n v then set_field ?r (snd x) v s1 else refuse_field ?r (snd x) s1)"
    "implements K s1 (side_table ?r ?n v t)" "boot_status s1 = boot_status s" by blast
  have t: "table_option K (boot_status s) ?r ?n v t = (side_table ?r ?n v t)(?r := (side_table ?r ?n v t ?r)(?n := if accepted K (boot_status s) ?r ?n v then FieldSet v else Refused))"
    by (simp add: table_option_def side_table_def Let_def)
  have "implements K (set_field ?r (snd x) v s1) ((side_table ?r ?n v t)(?r := (side_table ?r ?n v t ?r)(?n := FieldSet v)))"
    by (rule implements_write [OF assms(3,1) s1(2) set_holds])
  moreover have "implements K (refuse_field ?r (snd x) s1) ((side_table ?r ?n v t)(?r := (side_table ?r ?n v t ?r)(?n := Refused)))"
    by (rule implements_write [OF assms(3,1) s1(2) refuse_holds])
  ultimately show ?thesis unfolding s1(1) t using s1(3) by (simp add: set_field_def refuse_field_def)
qed

lemma match_options_fold: "match_options K buf s = fold (try_option buf) (options K) s"
  unfolding match_options_def options_def by (rule match_regs_fold) (simp add: options_exclusive [unfolded options_def])

lemma word_implements:
  assumes "implements K s t" and "fields_apart K"
  shows "implements K (match_options K buf s) (table_word K (boot_status s) buf t) \<and> boot_status (match_options K buf s) = boot_status s"
proof (cases "find (\<lambda>x. option_value buf x \<noteq> None) (options K)")
  case None
  then have "\<forall>x \<in> set (options K). option_value buf x = None" by (auto simp: find_None_iff)
  then show ?thesis using assms(1) None by (simp add: match_options_fold fold_no_option table_word_def)
next
  case (Some x)
  then have x: "x \<in> set (options K)" "option_value buf x \<noteq> None" by (auto simp: find_Some_iff)
  then obtain v where v: "option_value buf x = Some v" by blast
  show ?thesis
    unfolding match_options_fold fold_one_option [OF options_exclusive x(1) v]
    using apply_implements [OF x(1) assms] Some v by (simp add: table_word_def)
qed

lemma words_implement:
  "implements K s t \<Longrightarrow> fields_apart K \<Longrightarrow> implements K (fold (match_options K) ws s) (fold (table_word K (boot_status s)) ws t)
    \<and> boot_status (fold (match_options K) ws s) = boot_status s"
proof (induction ws arbitrary: s t)
  case (Cons w ws)
  from word_implements [OF Cons.prems, of w] have w: "implements K (match_options K w s) (table_word K (boot_status s) w t)" "boot_status (match_options K w s) = boot_status s"
    by simp_all
  from Cons.IH [OF w(1) Cons.prems(2)] w(2) show ?case by simp
qed simp

section \<open>A whole command line\<close>

text \<open>The options of a command line, with aliases followed by what they stand for.\<close>

definition alias_words :: "string \<Rightarrow> string list" where
  "alias_words buf = concat (map (\<lambda>(alias, feature). if buf = alias then words feature else []) aliases)"

definition option_words :: "string \<Rightarrow> string list" where
  "option_words c = concat (map (\<lambda>w. dash w # alias_words (dash w)) (takeWhile (\<lambda>w. w \<noteq> ''--'') (words c)))"

lemma features_plain:
  assumes "x \<in> set aliases" and "w \<in> set (words (snd x))"
  shows "length w \<le> 255 \<and> dash w = w \<and> w \<noteq> ''--''"
proof -
  have "list_all (\<lambda>x. list_all (\<lambda>w. length w \<le> 255 \<and> dash w = w \<and> w \<noteq> ''--'') (words (snd x))) aliases" by code_simp
  then show ?thesis using assms by (auto simp: list_all_iff)
qed

lemma separator_no_option: "match_options K ''__'' s = s" "parse_aliases K ''__'' s = s"
proof -
  have "list_all (\<lambda>n. 2 < length n) (map opt_name (options K))" unfolding option_names by simp
  then have "2 < length (opt_name x)" if "x \<in> set (options K)" for x using that by (auto simp: list_all_iff)
  note long = this
  have "option_value ''__'' x = None" if x: "x \<in> set (options K)" for x
  proof (rule ccontr)
    assume "option_value ''__'' x \<noteq> None"
    then obtain r where "''__'' = opt_name x @ r" using value_name by blast
    then have "length (opt_name x) + length r = 2" by (metis length_append length_Cons list.size(3) numeral_2_eq_2)
    with long [OF x] show False by simp
  qed
  then show "match_options K ''__'' s = s" by (simp add: match_options_fold fold_no_option)
  show "parse_aliases K ''__'' s = s" by (simp add: parse_aliases_def aliases_def)
qed

lemma feature_fold: "x \<in> set aliases \<Longrightarrow> parse_loop (match_options K) (snd x) s = fold (match_options K) (words (snd x)) s"
proof -
  assume x: "x \<in> set aliases"
  have "takeWhile (\<lambda>w. w \<noteq> ''--'') (words (snd x)) = words (snd x)" using features_plain [OF x] by (simp add: takeWhile_eq_all_conv)
  moreover have "fold (\<lambda>w. match_options K (dash w)) (words (snd x)) s = fold (match_options K) (words (snd x)) s"
    using features_plain [OF x] by (intro fold_cong) simp_all
  moreover have "\<forall>w \<in> set (words (snd x)). length w \<le> 255" using features_plain [OF x] by blast
  ultimately show ?thesis using parse_loop_words [of "match_options K", OF separator_no_option(1), of "snd x" s] by metis
qed

lemma parse_aliases_fold: "parse_aliases K buf s = fold (match_options K) (alias_words buf) s"
proof -
  have "set xs \<subseteq> set aliases \<Longrightarrow> fold (\<lambda>(alias, feature) s. if buf = alias then parse_loop (match_options K) feature s else s) xs s
      = fold (match_options K) (concat (map (\<lambda>(alias, feature). if buf = alias then words feature else []) xs)) s" for xs
  proof (induction xs arbitrary: s)
    case (Cons x xs)
    then show ?case using feature_fold [of x K s] by (cases x) simp
  qed simp
  then show ?thesis by (simp add: parse_aliases_def alias_words_def)
qed

text \<open>The parser looks at the words of the command line. When no word is longer than its buffer, parsing is trying each word in turn
  up to a separate \<open>--\<close>, with dashes read as underscores and each alias followed by the options it stands for; nothing behind the separator is
  looked at.\<close>

theorem cmdline_words:
  assumes "\<forall>w \<in> set (words c). length w \<le> 255"
  shows "parse_cmdline_words K c True s = fold (match_options K) (option_words c) s"
proof -
  let ?act = "\<lambda>buf s. parse_aliases K buf (match_options K buf s)"
  have "parse_cmdline_words K c True s = parse_loop ?act c s" by (simp add: parse_cmdline_words_def)
  also have "\<dots> = fold (\<lambda>w. ?act (dash w)) (takeWhile (\<lambda>w. w \<noteq> ''--'') (words c)) s"
    by (rule parse_loop_words [OF _ assms]) (simp add: separator_no_option)
  also have "\<dots> = fold (match_options K) (option_words c) s"
  proof -
    have "fold (\<lambda>w. ?act (dash w)) ws s = fold (match_options K) (concat (map (\<lambda>w. dash w # alias_words (dash w)) ws)) s" for ws
      by (induction ws arbitrary: s) (simp_all add: parse_aliases_fold)
    then show ?thesis by (simp add: option_words_def)
  qed
  finally show ?thesis .
qed

text \<open>The command line that is used, from the boot arguments and the configuration.\<close>

definition boot_cmdline :: "idreg_env \<Rightarrow> idreg_params \<Rightarrow> (idreg_req \<times> idreg_resp) list \<Rightarrow> int \<Rightarrow> string" where
  "boot_cmdline E K h chosen =
     (if CONFIG_CMDLINE_FORCE K \<or> chosen < 0 then CONFIG_CMDLINE K
      else case E h (FdtGetprop chosen ''bootargs'') of Prop p \<Rightarrow> if p = [] then CONFIG_CMDLINE K else p | _ \<Rightarrow> CONFIG_CMDLINE K)"

lemma wp_for_each_modd: "wp (for_each ds (\<lambda>d. modd (g d))) Q w = Q () (w\<lparr>drv := fold g ds (drv w)\<rparr>)"
  by (induction ds arbitrary: w) (simp_all add: wp_simps)

lemma wp_for_each_exec:
  fixes w :: "('q, 'r, 'd) world"
  assumes "\<And>rs. length rs = length ds \<Longrightarrow> Q () (w\<lparr>hist := hist w @ zip (map q ds) rs\<rparr>)"
  shows "wp (for_each ds (\<lambda>d. exec E (q d))) Q w"
  using assms
proof (induction ds arbitrary: w)
  case (Cons d ds)
  let ?r = "E (hist w) (q d)"
  have "wp (for_each ds (\<lambda>d. exec E (q d))) Q (w\<lparr>hist := hist w @ [(q d, ?r)]\<rparr>)"
  proof (rule Cons.IH)
    fix rs :: "'r list"
    assume "length rs = length ds"
    with Cons.prems [of "?r # rs"] show "Q () (w\<lparr>hist := hist w @ [(q d, ?r)], hist := hist (w\<lparr>hist := hist w @ [(q d, ?r)]\<rparr>) @ zip (map q ds) rs\<rparr>)" by simp
  qed
  then show ?case by (simp add: wp_simps)
qed (simp add: wp_simps)

lemma cleared_implements: "implements K (fold (\<lambda>d. upd_override (rover d) (\<lambda>ov. ov\<lparr>ovr_val := 0, ovr_mask := 0\<rparr>)) (regs K) s) (\<lambda>_ _. Unset)"
  by (simp add: implements_def holds_def table_defs)

text \<open>The boot arguments are asked for at most once, and the command line is parsed.\<close>

lemma parse_cmdline_effect:
  fixes w :: idreg_world
  shows "wp (parse_cmdline E K chosen) (\<lambda>_ w'. drv w' = parse_cmdline_words K (boot_cmdline E K (hist w) chosen) True (drv w)
    \<and> (\<exists>pre. reqs (hist w') = reqs (hist w) @ pre \<and> set pre \<subseteq> {FdtGetprop chosen ''bootargs''})) w"
  by (auto simp: parse_cmdline_def get_bootargs_cmdline_def boot_cmdline_def wp_simps split: idreg_resp.splits option.splits)


text \<open>The tables and the buffers fit. Every name an option is put together from fits the buffer it is built in, the names and aliases of the tables fit their arrays with their final zero,
  a word never takes more than the buffer less its zero, and the value of an option is less than 16, so it fits a field of four bits.\<close>

theorem parser_in_bounds:
  "list_all (\<lambda>x. length (rname (fst x)) < 20 \<and> length (fname (snd x)) < 10 \<and> length (opt_name x) \<le> 32) (options K)
    \<and> list_all (\<lambda>(alias, feature). length alias < 30 \<and> length feature < 116) aliases
    \<and> length (dash (take (word_len c) c)) < 256
    \<and> (\<forall>v. parse_hexdigit p = Some v \<longrightarrow> unat v < 16)"
proof (intro conjI allI impI)
  show "list_all (\<lambda>x. length (rname (fst x)) < 20 \<and> length (fname (snd x)) < 10 \<and> length (opt_name x) \<le> 32) (options K)"
    by (simp add: table_defs opt_name_def)
  show "list_all (\<lambda>(alias, feature). length alias < 30 \<and> length feature < 116) aliases" by (simp add: aliases_def)
  show "length (dash (take (word_len c) c)) < 256" by (simp add: dash_def word_len_def)
  fix v
  assume v: "parse_hexdigit p = Some v"
  have d: "tolower c - (if isdigit c then of_char CHR ''0'' else of_char CHR ''a'' - 10) < 16" if "isxdigit c" for c
    using that by (auto simp: isxdigit_def isdigit_def tolower_def Let_def)
  obtain c where "isxdigit c" "v = of_nat (tolower c - (if isdigit c then of_char CHR ''0'' else of_char CHR ''a'' - 10))"
    using v by (auto simp: parse_hexdigit_def Let_def split: option.splits if_splits)
  then show "unat v < 16" using d [of c] by (simp add: unat_of_nat take_bit_nat_eq_self)
qed

text \<open>A word that is longer than the buffer is cut, and its remainder is taken for a word of its own.\<close>

lemma long_word_split:
  assumes "length x = 255" and "\<forall>c \<in> set x. \<not> isspace c" and "y \<noteq> []" and "\<not> isspace (hd y)"
  shows "parse_loop act (x @ y) s = parse_loop act y (act (dash x) s)"
proof -
  have w: "word_len (x @ y) = 255" using assms(1,2) by (simp add: word_len_def takeWhile_append2)
  have sk: "skip_spaces (x @ y) = x @ y" using assms(1,2) by (cases x) simp_all
  have "takeWhile (\<lambda>c. \<not> isspace c) (x @ y) = x @ takeWhile (\<lambda>c. \<not> isspace c) y" using assms(2) by (simp add: takeWhile_append2)
  then have "\<not> at_separator (x @ y)" using assms(1) by (auto simp: separator_word dest: arg_cong [of _ _ length])
  with w sk assms(1) show ?thesis by (simp add: parse_loop_step [of act "x @ y"])
qed

section \<open>A concrete run\<close>

definition test_consts :: "(string \<times> u64) list" where
  "test_consts = [(''ID_AA64MMFR0_EL1_ECV_SHIFT'', 60), (''ID_AA64MMFR0_EL1_TGRAN_SHIFT'', 28), (''ID_AA64MMFR0_EL1_PARANGE_SHIFT'', 0),
     (''ID_AA64MMFR0_EL1_TGRAN_LPA2'', 1), (''ID_AA64MMFR0_EL1_PARANGE_48'', 5),
     (''ID_AA64MMFR1_EL1_VH_SHIFT'', 8), (''ID_AA64MMFR2_EL1_VARange_SHIFT'', 16), (''ID_AA64PFR0_EL1_SVE_SHIFT'', 32),
     (''ID_AA64PFR0_EL1_EL0_SHIFT'', 0), (''ID_AA64PFR0_EL1_MPAM_SHIFT'', 40), (''ID_AA64PFR1_EL1_BT_SHIFT'', 0), (''ID_AA64PFR1_EL1_GCS_SHIFT'', 44),
     (''ID_AA64PFR1_EL1_MTE_SHIFT'', 8), (''ID_AA64PFR1_EL1_SME_SHIFT'', 24), (''ID_AA64PFR1_EL1_MPAM_frac_SHIFT'', 16),
     (''ID_AA64ISAR1_EL1_GPI_SHIFT'', 28), (''ID_AA64ISAR1_EL1_GPA_SHIFT'', 24), (''ID_AA64ISAR1_EL1_API_SHIFT'', 8), (''ID_AA64ISAR1_EL1_APA_SHIFT'', 4),
     (''ID_AA64ISAR2_EL1_WFxT_SHIFT'', 0), (''ID_AA64ISAR2_EL1_GPA3_SHIFT'', 8), (''ID_AA64ISAR2_EL1_APA3_SHIFT'', 12), (''ID_AA64ISAR2_EL1_MOPS_SHIFT'', 16),
     (''ID_AA64SMFR0_EL1_SMEver_SHIFT'', 56), (''ID_AA64SMFR0_EL1_FA64_SHIFT'', 63), (''ARM64_SW_FEATURE_OVERRIDE_NOKASLR'', 0),
     (''ARM64_SW_FEATURE_OVERRIDE_HVHE'', 4), (''ARM64_SW_FEATURE_OVERRIDE_RODATA_OFF'', 8), (''BOOT_CPU_FLAG_E2H'', 0x100000000), (''BOOT_CPU_MODE_EL2'', 0xE12)]"

definition test_params :: idreg_params where
  "test_params = \<lparr>cst = (\<lambda>n. case map_of test_consts n of Some v \<Rightarrow> v | None \<Rightarrow> 0), read_sysreg = (\<lambda>n. 0),
     cpuid_feature_extract_signed_field = (\<lambda>r n. 0), reaches_lpa2 = (\<lambda>f. 1 \<le> f), cpuid_feature_extract_unsigned_field = (\<lambda>r n. 0),
     CONFIG_ARM64_LPA2 = True, CONFIG_CMDLINE_FORCE = False, CONFIG_CMDLINE = ''''\<rparr>"

definition test_args :: string where
  "test_args = ''quiet arm64.nosve  id-aa64pfr0.el0=0x2 -- id_aa64pfr0.mpam=1''"

definition test_fdt :: idreg_env where
  "test_fdt h q = (case q of FdtGetprop node n \<Rightarrow> Prop test_args | CleanInval r \<Rightarrow> CacheDone)"

definition test_world :: idreg_world where
  "test_world = \<lparr>hist = [], drv = \<lparr>boot_status = 0, override_of = (\<lambda>r. \<lparr>ovr_val = 1, ovr_mask = 1\<rparr>)\<rparr>\<rparr>"

lemma test_fields_apart: "fields_apart test_params"
  by code_simp

lemma test_words:
  "option_words test_args = [''quiet'', ''arm64.nosve'', ''id_aa64pfr0.sve=0'', ''id_aa64pfr0.el0=0x2'']"
  "list_all (\<lambda>w. length w \<le> 255) (words test_args)"
  by code_simp+

theorem match_options_exact_witness:
  "match_options test_params ''id_aa64pfr0.el0=2'' (drv test_world) = set_field Pfr0 (FIELD ''el0'' 0 None) 2 (drv test_world)
    \<and> match_options test_params ''quiet'' (drv test_world) = drv test_world"
proof -
  let ?x = "(pfr0 test_params, FIELD ''el0'' 0 None)"
  have x: "?x \<in> set (options test_params)"
  proof -
    have "bitno test_params ''ID_AA64PFR0_EL1_EL0_SHIFT'' = 0" by (simp add: bitno_def test_params_def test_consts_def)
    then show ?thesis by (auto simp: options_def regs_def pfr0_def)
  qed
  have n: "opt_name ?x = ''id_aa64pfr0.el0=''" by (simp add: opt_name_def pfr0_def FIELD_def)
  have p: "parse_hexdigit ''2'' = Some 2" by (simp add: parse_hexdigit_def char_at_def isxdigit_def isdigit_def tolower_def Let_def)
  have q: "\<nexists>y digits v. y \<in> set (options test_params) \<and> parse_hexdigit digits = Some v \<and> ''quiet'' = opt_name y @ digits"
  proof (intro notI, elim exE conjE)
    fix y digits v
    assume y: "y \<in> set (options test_params)" "''quiet'' = opt_name y @ digits"
    from names_end [OF y(1), of digits] have "''quiet'' @ ''='' = opt_name y" unfolding y(2) [symmetric] by simp
    then have "length ''quiet'' = length (''quiet'' @ ''='' @ digits)" using y(2) by (metis append_assoc)
    then show False by simp
  qed
  from match_options_exact [of ?x test_params "''2''" 2 "drv test_world" "''quiet''"] x p q show ?thesis
    by (simp add: n) (simp add: apply_option_def FIELD_def pfr0_def)
qed

theorem parser_in_bounds_witness: "parse_hexdigit ''0xb'' = Some 11 \<and> unat (11 :: u64) < 16"
proof -
  have p: "parse_hexdigit ''0xb'' = Some 11" by (simp add: parse_hexdigit_def char_at_def isxdigit_def isdigit_def tolower_def Let_def)
  with parser_in_bounds [of test_params test_args "''0xb''"] show ?thesis by blast
qed

theorem cmdline_words_witness:
  "parse_cmdline_words test_params test_args True (drv test_world)
    = fold (match_options test_params) [''quiet'', ''arm64.nosve'', ''id_aa64pfr0.sve=0'', ''id_aa64pfr0.el0=0x2''] (drv test_world)"
  using cmdline_words [of test_args test_params "drv test_world"] test_words by (simp add: list_all_iff)


end
