(* ===== verification/Cpufreq.thy ===== *)
theory Cpufreq
  imports Wallace_Prelude
begin

text \<open>
  The processor frequency driver, \<open>sources/asahi--drivers__cpufreq__apple-soc-cpufreq.c\<close>: reading and setting a cluster's performance state, and the initialisation and
  exit of a policy.

  The frequency table is the list of its entries, without the mark at its end; entries with the frequency \<open>entry_invalid\<close> are skipped, as the macro of the kernel's header
  does, and an empty table begins with \<open>table_end\<close>; both numbers are parameters. The operating points, the device tree, the register bus and memory are requests. \<open>PollCmd\<close> is the read of the command register until it is not busy, which returns
  the last value read. Log output is left out. A policy without
  private data, for which the core calls none of these functions, is left alone.

  Proved: setting a state writes the command register once, with the state in its field and nothing else changed but the request bit; a frequency that was set is the one
  that is read back; initialisation gives back what it took when it fails, and exit gives back all of it.
\<close>

section \<open>Registers and clusters\<close>

definition APPLE_DVFS_CMD :: u32 where "APPLE_DVFS_CMD = 0x20"
definition APPLE_DVFS_CMD_BUSY :: u64 where "APPLE_DVFS_CMD_BUSY = BIT 31"
definition APPLE_DVFS_CMD_SET :: u64 where "APPLE_DVFS_CMD_SET = BIT 25"
definition APPLE_DVFS_CMD_PS1_S5L8960X :: u64 where "APPLE_DVFS_CMD_PS1_S5L8960X = GENMASK (24, 22)"
definition APPLE_DVFS_CMD_PS1_S5L8960X_SHIFT :: nat where "APPLE_DVFS_CMD_PS1_S5L8960X_SHIFT = 22"
definition APPLE_DVFS_CMD_PS2 :: u64 where "APPLE_DVFS_CMD_PS2 = GENMASK (15, 12)"
definition APPLE_DVFS_CMD_PS1 :: u64 where "APPLE_DVFS_CMD_PS1 = GENMASK (4, 0)"
definition APPLE_DVFS_CMD_PS1_SHIFT :: nat where "APPLE_DVFS_CMD_PS1_SHIFT = 0"
definition APPLE_DVFS_STATUS :: u32 where "APPLE_DVFS_STATUS = 0x50"
definition APPLE_DVFS_STATUS_CUR_PS_S5L8960X :: u64 where "APPLE_DVFS_STATUS_CUR_PS_S5L8960X = GENMASK (5, 3)"
definition APPLE_DVFS_STATUS_CUR_PS_SHIFT_S5L8960X :: nat where "APPLE_DVFS_STATUS_CUR_PS_SHIFT_S5L8960X = 3"
definition APPLE_DVFS_STATUS_CUR_PS_T8103 :: u64 where "APPLE_DVFS_STATUS_CUR_PS_T8103 = GENMASK (7, 4)"
definition APPLE_DVFS_STATUS_CUR_PS_SHIFT_T8103 :: nat where "APPLE_DVFS_STATUS_CUR_PS_SHIFT_T8103 = 4"
definition APPLE_DVFS_STATUS_CUR_PS_T8112 :: u64 where "APPLE_DVFS_STATUS_CUR_PS_T8112 = GENMASK (9, 5)"
definition APPLE_DVFS_STATUS_CUR_PS_SHIFT_T8112 :: nat where "APPLE_DVFS_STATUS_CUR_PS_SHIFT_T8112 = 5"
definition APPLE_DVFS_TRANSITION_TIMEOUT :: u32 where "APPLE_DVFS_TRANSITION_TIMEOUT = 400"
definition NSEC_PER_USEC :: u32 where "NSEC_PER_USEC = 1000"

record apple_soc_cpufreq_info =
  has_ps2 :: bool
  max_pstate :: u64
  cur_pstate_mask :: u64
  cur_pstate_shift :: nat
  ps1_mask :: u64
  ps1_shift :: nat

definition soc_s5l8960x_info :: apple_soc_cpufreq_info where
  "soc_s5l8960x_info = \<lparr>has_ps2 = False, max_pstate = 7, cur_pstate_mask = APPLE_DVFS_STATUS_CUR_PS_S5L8960X,
     cur_pstate_shift = APPLE_DVFS_STATUS_CUR_PS_SHIFT_S5L8960X, ps1_mask = APPLE_DVFS_CMD_PS1_S5L8960X, ps1_shift = APPLE_DVFS_CMD_PS1_S5L8960X_SHIFT\<rparr>"

definition soc_t8103_info :: apple_soc_cpufreq_info where
  "soc_t8103_info = \<lparr>has_ps2 = True, max_pstate = 15, cur_pstate_mask = APPLE_DVFS_STATUS_CUR_PS_T8103,
     cur_pstate_shift = APPLE_DVFS_STATUS_CUR_PS_SHIFT_T8103, ps1_mask = APPLE_DVFS_CMD_PS1, ps1_shift = APPLE_DVFS_CMD_PS1_SHIFT\<rparr>"

definition soc_t8112_info :: apple_soc_cpufreq_info where
  "soc_t8112_info = \<lparr>has_ps2 = False, max_pstate = 31, cur_pstate_mask = APPLE_DVFS_STATUS_CUR_PS_T8112,
     cur_pstate_shift = APPLE_DVFS_STATUS_CUR_PS_SHIFT_T8112, ps1_mask = APPLE_DVFS_CMD_PS1, ps1_shift = APPLE_DVFS_CMD_PS1_SHIFT\<rparr>"

definition soc_default_info :: apple_soc_cpufreq_info where
  "soc_default_info = \<lparr>has_ps2 = False, max_pstate = 15, cur_pstate_mask = 0, cur_pstate_shift = 0,
     ps1_mask = APPLE_DVFS_CMD_PS1, ps1_shift = APPLE_DVFS_CMD_PS1_SHIFT\<rparr>"

definition apple_soc_cpufreq_of_match :: "(string \<times> apple_soc_cpufreq_info) list" where
  "apple_soc_cpufreq_of_match = [
     (''apple,s5l8960x-cluster-cpufreq'', soc_s5l8960x_info),
     (''apple,t8103-cluster-cpufreq'', soc_t8103_info),
     (''apple,t8112-cluster-cpufreq'', soc_t8112_info),
     (''apple,cluster-cpufreq'', soc_default_info)]"

section \<open>Policies and requests\<close>

record freq_entry =
  frequency :: u32
  entry_pstate :: u32

text \<open>The private data of a policy: the base of the registers is the cluster's mapping.\<close>

record apple_cpu_priv =
  reg_base :: nat
  info :: apple_soc_cpufreq_info

record cpufreq_policy =
  policy_data :: "apple_cpu_priv option"
  freq_table :: "freq_entry list"
  cached_resolved_idx :: nat
  transition_latency :: u32
  dvfs_possible_from_any_cpu :: bool
  fast_switch_possible :: bool
  suspend_freq :: u32

datatype cf_req =
    CpuGetRaw u32 | Readl nat u32 | Readq nat u32 | Writeq nat u32 u64 | PollCmd nat
  | GetCpuDevice | KzallocPriv | KfreePriv | PerfDomain | MatchNode | NodePut | Iomap | Iounmap nat
  | AddTable | RemoveTable | OppCount | InitTable | FreeTable | FindFloor u64 | OppLevel | OppPut | MaxLatency
  | MachineCompatible string | RegisterDriver | UnregisterDriver

datatype cf_resp = CNull | CPtr nat | CRet int | CWord u64 | CBusy | CMatch string | CTable "u32 list"

type_synonym cf_env = "(cf_req, cf_resp) env"
type_synonym cf_world = "(cf_req, cf_resp, cpufreq_policy) world"
type_synonym 'a cf_prog = "(cf_req, cf_resp, cpufreq_policy, 'a) prog"

fun cf_ret :: "cf_resp \<Rightarrow> int" where
  "cf_ret (CRet n) = n"
| "cf_ret r = 0"

fun cf_word :: "cf_resp \<Rightarrow> u64" where
  "cf_word (CWord v) = v"
| "cf_word r = 0"

section \<open>Reading and setting\<close>

definition apple_soc_cpufreq_get_rate :: "cf_env \<Rightarrow> u32 \<Rightarrow> u32 \<Rightarrow> u32 cf_prog" where
  "apple_soc_cpufreq_get_rate E entry_invalid cpu = do {
     policy \<leftarrow> call E (CpuGetRaw cpu);
     if policy = CNull then return 0
     else do {
       p \<leftarrow> getd;
       case policy_data p of
         None \<Rightarrow> return 0
       | Some priv \<Rightarrow> do {
           pstate \<leftarrow> (if cur_pstate_mask (info priv) \<noteq> 0 then do {
               r \<leftarrow> call E (Readl (reg_base priv) APPLE_DVFS_STATUS);
               return (ucast (drop_bit (cur_pstate_shift (info priv)) (take_bit 32 (cf_word r) AND cur_pstate_mask (info priv))) :: u32)
             }
             else do {
               r \<leftarrow> call E (Readq (reg_base priv) APPLE_DVFS_CMD);
               return (ucast (FIELD_GET (4, 0) (cf_word r)))
             });
           return (case find (\<lambda>e. frequency e \<noteq> entry_invalid \<and> entry_pstate e = pstate) (freq_table p) of
               Some e \<Rightarrow> frequency e
             | None \<Rightarrow> 0)
         }
     }
   }"

text \<open>The limit applies to the index, which is not used after it.\<close>

definition apple_soc_cpufreq_set_target :: "cf_env \<Rightarrow> nat \<Rightarrow> int cf_prog" where
  "apple_soc_cpufreq_set_target E index = do {
     p \<leftarrow> getd;
     case policy_data p of
       None \<Rightarrow> return 0
     | Some priv \<Rightarrow> do {
         let pstate = entry_pstate (freq_table p ! index);
         let index = (if max_pstate (info priv) < of_nat index then unat (max_pstate (info priv)) else index);
         r \<leftarrow> call E (PollCmd (reg_base priv));
         if r = CBusy then return (- EIO)
         else do {
           let reg = cf_word r;
           let reg = reg AND NOT (ps1_mask (info priv));
           let reg = reg OR ucast (push_bit (ps1_shift (info priv)) pstate);
           let reg = (if has_ps2 (info priv) then (reg AND NOT APPLE_DVFS_CMD_PS2) OR FIELD_PREP (15, 12) (ucast pstate) else reg);
           let reg = reg OR APPLE_DVFS_CMD_SET;
           exec E (Writeq (reg_base priv) APPLE_DVFS_CMD reg);
           return 0
         }
       }
   }"

definition apple_soc_cpufreq_fast_switch :: "cf_env \<Rightarrow> u32 \<Rightarrow> u32 cf_prog" where
  "apple_soc_cpufreq_fast_switch E target_freq = do {
     p \<leftarrow> getd;
     ret \<leftarrow> apple_soc_cpufreq_set_target E (cached_resolved_idx p);
     if ret < 0 then return 0
     else do {
       p \<leftarrow> getd;
       return (frequency (freq_table p ! cached_resolved_idx p))
     }
   }"

section \<open>Initialisation and exit\<close>

text \<open>The error, or the mapping and the cluster.\<close>

definition apple_soc_cpufreq_find_cluster :: "cf_env \<Rightarrow> (int + nat \<times> apple_soc_cpufreq_info) cf_prog" where
  "apple_soc_cpufreq_find_cluster E = do {
     r \<leftarrow> call E PerfDomain;
     if cf_ret r < 0 then return (Inl (cf_ret r))
     else do {
       mtch \<leftarrow> call E MatchNode;
       exec E NodePut;
       case (case mtch of CMatch c \<Rightarrow> map_of apple_soc_cpufreq_of_match c | _ \<Rightarrow> None) of
         None \<Rightarrow> return (Inl (- ENODEV))
       | Some i \<Rightarrow> do {
           r \<leftarrow> call E Iomap;
           case r of
             CPtr b \<Rightarrow> return (Inr (b, i))
           | _ \<Rightarrow> return (Inl (- ENOMEM))
         }
     }
   }"

text \<open>The performance states of the frequencies: the table so far, or the error.\<close>

fun fill_levels :: "cf_env \<Rightarrow> freq_entry list \<Rightarrow> u32 list \<Rightarrow> (int + freq_entry list) cf_prog" where
  "fill_levels E acc [] = return (Inr acc)"
| "fill_levels E acc (f # fs) = do {
     let rate = (ucast f * 1000 + 999 :: u64);
     opp \<leftarrow> call E (FindFloor rate);
     if cf_ret opp < 0 then return (Inl (cf_ret opp))
     else do {
       l \<leftarrow> call E OppLevel;
       exec E OppPut;
       fill_levels E (acc @ [\<lparr>frequency = f, entry_pstate = ucast (cf_word l)\<rparr>]) fs
     }
   }"

definition out_free_priv :: "cf_env \<Rightarrow> int \<Rightarrow> int cf_prog" where
  "out_free_priv E ret = do { exec E KfreePriv; return ret }"

definition out_iounmap :: "cf_env \<Rightarrow> nat \<Rightarrow> int \<Rightarrow> int cf_prog" where
  "out_iounmap E b ret = do { exec E (Iounmap b); out_free_priv E ret }"

definition out_free_table :: "cf_env \<Rightarrow> nat \<Rightarrow> int \<Rightarrow> int cf_prog" where
  "out_free_table E b ret = do { exec E RemoveTable; out_iounmap E b ret }"

definition out_free_cpufreq_table :: "cf_env \<Rightarrow> nat \<Rightarrow> int \<Rightarrow> int cf_prog" where
  "out_free_cpufreq_table E b ret = do { exec E FreeTable; out_free_table E b ret }"

text \<open>The rest of the initialisation, from the frequency table on.\<close>

definition init_table :: "cf_env \<Rightarrow> u32 \<Rightarrow> nat \<Rightarrow> apple_soc_cpufreq_info \<Rightarrow> int cf_prog" where
  "init_table E table_end b i = do {
     r \<leftarrow> call E InitTable;
     case r of
       CTable fs \<Rightarrow> do {
         t \<leftarrow> fill_levels E [] fs;
         case t of
           Inl e \<Rightarrow> out_free_cpufreq_table E b e
         | Inr tab \<Rightarrow> do {
             modd (\<lambda>p. p\<lparr>policy_data := Some \<lparr>reg_base = b, info = i\<rparr>, freq_table := tab\<rparr>);
             lat \<leftarrow> call E MaxLatency;
             let lat = (ucast (cf_word lat) :: u32);
             modd (\<lambda>p. p\<lparr>transition_latency := (if lat = 0 then APPLE_DVFS_TRANSITION_TIMEOUT * NSEC_PER_USEC else lat)\<rparr>);
             modd (\<lambda>p. p\<lparr>dvfs_possible_from_any_cpu := True, fast_switch_possible := True\<rparr>);
             modd (\<lambda>p. p\<lparr>suspend_freq := (case tab of e # _ \<Rightarrow> frequency e | [] \<Rightarrow> table_end)\<rparr>);
             return 0
           }
       }
     | _ \<Rightarrow> out_free_table E b (cf_ret r)
   }"

definition apple_soc_cpufreq_init :: "cf_env \<Rightarrow> u32 \<Rightarrow> int cf_prog" where
  "apple_soc_cpufreq_init E table_end = do {
     d \<leftarrow> call E GetCpuDevice;
     if d = CNull then return (- ENODEV)
     else do {
       p \<leftarrow> call E KzallocPriv;
       if p = CNull then return (- ENOMEM)
       else do {
         c \<leftarrow> apple_soc_cpufreq_find_cluster E;
         case c of
           Inl e \<Rightarrow> out_free_priv E e
         | Inr (b, i) \<Rightarrow> do {
             r \<leftarrow> call E AddTable;
             if cf_ret r < 0 then out_iounmap E b (cf_ret r)
             else do {
               n \<leftarrow> call E OppCount;
               if cf_ret n \<le> 0 then out_free_table E b (- EPROBE_DEFER)
               else init_table E table_end b i
             }
           }
       }
     }
   }"

definition apple_soc_cpufreq_exit :: "cf_env \<Rightarrow> unit cf_prog" where
  "apple_soc_cpufreq_exit E = do {
     p \<leftarrow> getd;
     case policy_data p of
       None \<Rightarrow> return ()
     | Some priv \<Rightarrow> do {
         exec E FreeTable;
         exec E RemoveTable;
         exec E (Iounmap (reg_base priv));
         exec E KfreePriv
       }
   }"

definition apple_soc_cpufreq_module_init :: "cf_env \<Rightarrow> int cf_prog" where
  "apple_soc_cpufreq_module_init E = do {
     r \<leftarrow> call E (MachineCompatible ''apple,arm-platform'');
     if cf_ret r = 0 then return (- ENODEV)
     else do { r \<leftarrow> call E RegisterDriver; return (cf_ret r) }
   }"

definition apple_soc_cpufreq_module_exit :: "cf_env \<Rightarrow> unit cf_prog" where
  "apple_soc_cpufreq_module_exit E = exec E UnregisterDriver"

section \<open>Setting a state\<close>

text \<open>What the layouts of all clusters have in common.\<close>

definition layout_ok :: "apple_soc_cpufreq_info \<Rightarrow> bool" where
  "layout_ok i \<longleftrightarrow> (\<exists>h. ps1_mask i = GENMASK (h, ps1_shift i) \<and> ps1_shift i \<le> h \<and> h < 25 \<and> unat (max_pstate i) < 2 ^ (Suc h - ps1_shift i)
     \<and> (has_ps2 i \<longrightarrow> h < 12))"

lemma clusters_ok: "list_all (\<lambda>(c, i). layout_ok i) apple_soc_cpufreq_of_match"
  by (auto simp: apple_soc_cpufreq_of_match_def layout_ok_def soc_s5l8960x_info_def soc_t8103_info_def soc_t8112_info_def soc_default_info_def
    APPLE_DVFS_CMD_PS1_def APPLE_DVFS_CMD_PS1_SHIFT_def APPLE_DVFS_CMD_PS1_S5L8960X_def APPLE_DVFS_CMD_PS1_S5L8960X_SHIFT_def intro: exI [of _ 4] exI [of _ 24])

lemma bit_small: "unat (v :: 'a::len word) < 2 ^ n \<Longrightarrow> bit v k \<Longrightarrow> k < n"
  by (metis bit_take_bit_iff unat_take_bit_id)

text \<open>The value that is written.\<close>

definition set_value :: "apple_soc_cpufreq_info \<Rightarrow> u32 \<Rightarrow> u64 \<Rightarrow> u64" where
  "set_value i pstate reg = (let reg = reg AND NOT (ps1_mask i) OR ucast (push_bit (ps1_shift i) pstate)
     in (if has_ps2 i then (reg AND NOT APPLE_DVFS_CMD_PS2) OR FIELD_PREP (15, 12) (ucast pstate) else reg) OR APPLE_DVFS_CMD_SET)"

lemma set_target_run:
  assumes "policy_data (drv w) = Some priv"
  shows "run_state (apple_soc_cpufreq_set_target E index) w =
    (let r = E (hist w) (PollCmd (reg_base priv)); h = hist w @ [(PollCmd (reg_base priv), r)];
         q = Writeq (reg_base priv) APPLE_DVFS_CMD (set_value (info priv) (entry_pstate (freq_table (drv w) ! index)) (cf_word r))
     in if r = CBusy then (- EIO, w\<lparr>hist := h\<rparr>) else (0, w\<lparr>hist := h @ [(q, E h q)]\<rparr>))"
  using assms by (simp add: apple_soc_cpufreq_set_target_def set_value_def Let_def)

lemma set_value_bits:
  assumes "ps1_mask i = GENMASK (h, ps1_shift i)" and "ps1_shift i \<le> h" and "h < 25" and "has_ps2 i \<longrightarrow> h < 12" and "unat pstate < 2 ^ (Suc h - ps1_shift i)"
  shows "bit (set_value i pstate reg) n \<longleftrightarrow> n < 64 \<and>
    (if ps1_shift i \<le> n \<and> n \<le> h then bit pstate (n - ps1_shift i)
     else if has_ps2 i \<and> 12 \<le> n \<and> n \<le> 15 then bit pstate (n - 12)
     else n = 25 \<or> bit reg n)"
proof -
  have p: "bit pstate k \<Longrightarrow> k < Suc h - ps1_shift i" for k using bit_small [OF assms(5)] by blast
  have l: "bit reg k \<Longrightarrow> k < 64" for k using bit_imp_le_length [of reg k] by simp
  define u where "u = (ucast (push_bit (ps1_shift i) pstate) :: u64)"
  have q: "bit u n \<longleftrightarrow> ps1_shift i \<le> n \<and> n \<le> h \<and> bit pstate (n - ps1_shift i)"
    using p [of "n - ps1_shift i"] assms(2,3) by (auto simp: u_def bit_simps)
  show ?thesis
    unfolding set_value_def Let_def APPLE_DVFS_CMD_PS2_def APPLE_DVFS_CMD_SET_def assms(1) u_def [symmetric]
    using p [of "n - 12"] l [of n] assms(2-4)
    by (auto simp: bit_or_iff bit_and_iff bit_not_iff field_simps_bits q bit_ucast_iff)
qed

text \<open>Setting a state writes one command. While the command register stays busy nothing is written and the error is returned; otherwise exactly one
  write follows, in which the state field holds the state, the second field of clusters that have one holds it too, the request bit is set, and all other
  bits are as they were read.\<close>

theorem set_target_command:
  assumes "policy_data (drv w) = Some priv" and "layout_ok (info priv)"
    and "unat (entry_pstate (freq_table (drv w) ! index)) \<le> unat (max_pstate (info priv))"
    and "run_state (apple_soc_cpufreq_set_target E index) w = (ret, w')"
  shows "drv w' = drv w \<and> (case E (hist w) (PollCmd (reg_base priv)) of
      CBusy \<Rightarrow> ret = - EIO \<and> reqs (hist w') = reqs (hist w) @ [PollCmd (reg_base priv)]
    | r \<Rightarrow> ret = 0 \<and> (\<exists>v. reqs (hist w') = reqs (hist w) @ [PollCmd (reg_base priv), Writeq (reg_base priv) APPLE_DVFS_CMD v]
        \<and> drop_bit (ps1_shift (info priv)) (v AND ps1_mask (info priv)) = ucast (entry_pstate (freq_table (drv w) ! index))
        \<and> (has_ps2 (info priv) \<longrightarrow> FIELD_GET (15, 12) v = take_bit 4 (ucast (entry_pstate (freq_table (drv w) ! index))))
        \<and> bit v 25
        \<and> (\<forall>n. n \<noteq> 25 \<and> \<not> bit (ps1_mask (info priv)) n \<and> \<not> (has_ps2 (info priv) \<and> 12 \<le> n \<and> n \<le> 15) \<longrightarrow> bit v n = bit (cf_word r) n)))"
proof -
  let ?i = "info priv"
  let ?s = "entry_pstate (freq_table (drv w) ! index)"
  let ?r = "E (hist w) (PollCmd (reg_base priv))"
  let ?v = "set_value ?i ?s (cf_word ?r)"
  from assms(2) obtain h where h: "ps1_mask ?i = GENMASK (h, ps1_shift ?i)" "ps1_shift ?i \<le> h" "h < 25" "has_ps2 ?i \<longrightarrow> h < 12"
    and "unat (max_pstate ?i) < 2 ^ (Suc h - ps1_shift ?i)" unfolding layout_ok_def by blast
  then have s: "unat ?s < 2 ^ (Suc h - ps1_shift ?i)" using assms(3) by simp
  note b = set_value_bits [OF h s, of "cf_word ?r"]
  have p: "bit ?s k \<Longrightarrow> k < Suc h - ps1_shift ?i \<and> k < 32" for k using bit_small [OF s] bit_imp_le_length [of ?s k] by simp
  have v: "drop_bit (ps1_shift ?i) (?v AND ps1_mask ?i) = ucast ?s"
    by (rule bit_word_eqI) (use h(2,3) in \<open>auto simp: h(1) bit_simps field_simps_bits b dest: p\<close>)
  have ps2: "has_ps2 ?i \<longrightarrow> FIELD_GET (15, 12) ?v = take_bit 4 (ucast ?s)"
    by (intro impI bit_word_eqI) (use h(4) in \<open>auto simp: bit_simps field_simps_bits b dest: p\<close>)
  have set: "bit ?v 25" using h(3) by (simp add: b)
  have rest: "\<forall>n. n \<noteq> 25 \<and> \<not> bit (ps1_mask ?i) n \<and> \<not> (has_ps2 ?i \<and> 12 \<le> n \<and> n \<le> 15) \<longrightarrow> bit ?v n = bit (cf_word ?r) n"
    using h(3) bit_imp_le_length [of "cf_word ?r"] by (auto simp: h(1) b field_simps_bits)
  note run = assms(4) [unfolded set_target_run [OF assms(1)], symmetric]
  show ?thesis
  proof (cases "?r = CBusy")
    case True
    then show ?thesis using run by (simp add: Let_def)
  next
    case False
    then have "ret = 0" "drv w' = drv w" "reqs (hist w') = reqs (hist w) @ [PollCmd (reg_base priv), Writeq (reg_base priv) APPLE_DVFS_CMD ?v]"
      using run by (simp_all add: Let_def)
    with v ps2 set rest False show ?thesis by (cases ?r) auto
  qed
qed

section \<open>Reading back\<close>

text \<open>The command that was written last, and hardware that has carried it out.\<close>

fun last_cmd :: "nat \<Rightarrow> (cf_req \<times> cf_resp) list \<Rightarrow> u64 option" where
  "last_cmd b [] = None"
| "last_cmd b (x # h) = (case last_cmd b h of Some v \<Rightarrow> Some v | None \<Rightarrow>
     (case x of (Writeq b' off v, _) \<Rightarrow> if b' = b \<and> off = APPLE_DVFS_CMD then Some v else None | _ \<Rightarrow> None))"

definition reached :: "cf_env \<Rightarrow> apple_cpu_priv \<Rightarrow> bool" where
  "reached E priv \<longleftrightarrow> (\<forall>h v. last_cmd (reg_base priv) h = Some v \<longrightarrow>
     E h (Readq (reg_base priv) APPLE_DVFS_CMD) = CWord v
     \<and> drop_bit (cur_pstate_shift (info priv)) (take_bit 32 (cf_word (E h (Readl (reg_base priv) APPLE_DVFS_STATUS))) AND cur_pstate_mask (info priv))
         = drop_bit (ps1_shift (info priv)) (v AND ps1_mask (info priv)))"

lemma last_cmd_snoc: "last_cmd b (h @ [x]) = (case x of (Writeq b' off v, _) \<Rightarrow> if b' = b \<and> off = APPLE_DVFS_CMD then Some v else last_cmd b h | _ \<Rightarrow> last_cmd b h)"
  by (induction h) (auto split: prod.splits cf_req.splits option.splits)

lemma set_value_state:
  assumes "layout_ok i" and "unat pstate \<le> unat (max_pstate i)"
  shows "drop_bit (ps1_shift i) (set_value i pstate reg AND ps1_mask i) = ucast pstate"
proof -
  from assms obtain h where h: "ps1_mask i = GENMASK (h, ps1_shift i)" "ps1_shift i \<le> h" "h < 25" "has_ps2 i \<longrightarrow> h < 12"
    and s: "unat pstate < 2 ^ (Suc h - ps1_shift i)" unfolding layout_ok_def by (meson le_less_trans)
  have p: "bit pstate k \<Longrightarrow> k < Suc h - ps1_shift i \<and> k < 32" for k using bit_small [OF s] bit_imp_le_length [of pstate k] by simp
  show ?thesis
    by (rule bit_word_eqI) (use h(2,3) in \<open>auto simp: h(1) bit_simps field_simps_bits set_value_bits [OF h s] dest: p\<close>)
qed

lemma fallback_layout:
  assumes "i \<in> snd ` set apple_soc_cpufreq_of_match"
  shows "layout_ok i" "cur_pstate_mask i = 0 \<Longrightarrow> ps1_shift i = 0 \<and> ps1_mask i = GENMASK (4, 0)"
proof -
  show "layout_ok i" using assms clusters_ok by (auto simp: list_all_iff)
  have ne: "(GENMASK (h, l) :: u64) \<noteq> 0" if "l \<le> h" "h < 64" for h l
  proof
    assume "(GENMASK (h, l) :: u64) = 0"
    moreover have "bit (GENMASK (h, l) :: u64) l" using that by (simp add: bit_GENMASK)
    ultimately show False by simp
  qed
  show "cur_pstate_mask i = 0 \<Longrightarrow> ps1_shift i = 0 \<and> ps1_mask i = GENMASK (4, 0)"
    using assms by (auto simp: apple_soc_cpufreq_of_match_def soc_s5l8960x_info_def soc_t8103_info_def soc_t8112_info_def soc_default_info_def ne
      APPLE_DVFS_STATUS_CUR_PS_S5L8960X_def APPLE_DVFS_STATUS_CUR_PS_T8103_def APPLE_DVFS_STATUS_CUR_PS_T8112_def APPLE_DVFS_CMD_PS1_def APPLE_DVFS_CMD_PS1_SHIFT_def)
qed


section \<open>What initialisation owns\<close>

datatype cf_res = PrivMem | Mapping | OppTable | FreqTable | OppRef

definition delta :: "cf_res \<Rightarrow> cf_req \<times> cf_resp \<Rightarrow> int" where
  "delta x y =
     (case fst y of
        KzallocPriv \<Rightarrow> if x = PrivMem \<and> snd y \<noteq> CNull then 1 else 0
      | KfreePriv \<Rightarrow> if x = PrivMem then - 1 else 0
      | Iomap \<Rightarrow> if x = Mapping \<and> (\<exists>b. snd y = CPtr b) then 1 else 0
      | Iounmap b \<Rightarrow> if x = Mapping then - 1 else 0
      | AddTable \<Rightarrow> if x = OppTable \<and> \<not> cf_ret (snd y) < 0 then 1 else 0
      | RemoveTable \<Rightarrow> if x = OppTable then - 1 else 0
      | InitTable \<Rightarrow> if x = FreqTable \<and> (\<exists>fs. snd y = CTable fs) then 1 else 0
      | FreeTable \<Rightarrow> if x = FreqTable then - 1 else 0
      | FindFloor f \<Rightarrow> if x = OppRef \<and> \<not> cf_ret (snd y) < 0 then 1 else 0
      | OppPut \<Rightarrow> if x = OppRef then - 1 else 0
      | _ \<Rightarrow> 0)"

definition res_held :: "(cf_req \<times> cf_resp) list \<Rightarrow> cf_res \<Rightarrow> int" where
  "res_held h x = sum_list (map (delta x) h)"

lemma res_held_append [simp]: "res_held (h @ k) x = res_held h x + res_held k x" "res_held (y # k) x = delta x y + res_held k x" "res_held [] x = 0"
  by (simp_all add: res_held_def)

text \<open>With the named resources taken.\<close>

definition holding :: "cf_res set \<Rightarrow> (cf_req \<times> cf_resp) list \<Rightarrow> (cf_req \<times> cf_resp) list \<Rightarrow> bool" where
  "holding R h h' \<longleftrightarrow> (\<forall>x. res_held h' x = res_held h x + (if x \<in> R then 1 else 0))"

lemma all_res: "(\<forall>x. P x) \<longleftrightarrow> P PrivMem \<and> P Mapping \<and> P OppTable \<and> P FreqTable \<and> P OppRef"
  by (metis cf_res.exhaust)

lemma exits_release:
  fixes w :: cf_world
  shows "holding {PrivMem} h (hist w) \<Longrightarrow> wp (out_free_priv E ret) (\<lambda>r w'. r = ret \<and> holding {} h (hist w')) w"
    and "holding {PrivMem, Mapping} h (hist w) \<Longrightarrow> wp (out_iounmap E b ret) (\<lambda>r w'. r = ret \<and> holding {} h (hist w')) w"
    and "holding {PrivMem, Mapping, OppTable} h (hist w) \<Longrightarrow> wp (out_free_table E b ret) (\<lambda>r w'. r = ret \<and> holding {} h (hist w')) w"
    and "holding {PrivMem, Mapping, OppTable, FreqTable} h (hist w) \<Longrightarrow> wp (out_free_cpufreq_table E b ret) (\<lambda>r w'. r = ret \<and> holding {} h (hist w')) w"
  by (simp_all add: out_free_priv_def out_iounmap_def out_free_table_def out_free_cpufreq_table_def wp_simps holding_def all_res delta_def)

lemma fill_levels_held:
  fixes w :: cf_world
  shows "holding R h (hist w) \<Longrightarrow> wp (fill_levels E acc fs) (\<lambda>t w'. (\<forall>e. t = Inl e \<longrightarrow> e < 0) \<and> holding R h (hist w')) w"
proof (induction fs arbitrary: acc w)
  case (Cons f fs)
  have "wp (fill_levels E acc (f # fs)) (\<lambda>t w'. (\<forall>e. t = Inl e \<longrightarrow> e < 0) \<and> holding R h (hist w')) w"
    unfolding fill_levels.simps
    apply (rule wp_letI, rule wp_bindI, rule wp_call_step, rule wp_ifI, rule wp_returnI)
    using Cons.prems apply (simp add: holding_def all_res delta_def)
    apply (rule wp_bindI, rule wp_call_step, rule wp_bindI, rule wp_exec_step, rule Cons.IH)
    using Cons.prems by (simp add: holding_def all_res delta_def)
  then show ?case .
qed (simp add: wp_simps)

lemma find_cluster_held:
  fixes w :: cf_world
  assumes "holding {PrivMem} h (hist w)"
  shows "wp (apple_soc_cpufreq_find_cluster E) (\<lambda>c w'. case c of
      Inl e \<Rightarrow> e < 0 \<and> holding {PrivMem} h (hist w')
    | Inr _ \<Rightarrow> holding {PrivMem, Mapping} h (hist w')) w"
  unfolding apple_soc_cpufreq_find_cluster_def
  apply (rule wp_bindI, rule wp_call_step, rule wp_ifI, rule wp_returnI)
  using assms apply (simp add: holding_def all_res delta_def)
  apply (rule wp_bindI, rule wp_call_step, rule wp_bindI, rule wp_exec_step, rule wp_case_optionI, rule wp_returnI)
  using assms apply (simp add: holding_def all_res delta_def)
  apply (rule wp_bindI, rule wp_call_step)
  subgoal for r w1 r1 w2 r2 w3 y ra w' using assms by (cases ra) (simp_all add: wp_simps holding_def all_res delta_def)
  done

lemma init_table_held:
  fixes w :: cf_world
  assumes "holding {PrivMem, Mapping, OppTable} h (hist w)" and "\<And>h. (\<exists>fs. E h InitTable = CTable fs) \<or> cf_ret (E h InitTable) \<noteq> 0"
  shows "wp (init_table E te b i) (\<lambda>ret w'. if ret = 0 then policy_data (drv w') \<noteq> None \<and> holding {PrivMem, Mapping, OppTable, FreqTable} h (hist w')
    else holding {} h (hist w')) w"
proof (cases "\<exists>fs. E (hist w) InitTable = CTable fs")
  case True
  then obtain fs where fs: "E (hist w) InitTable = CTable fs" by blast
  let ?w = "w\<lparr>hist := hist w @ [(InitTable, CTable fs)]\<rparr>"
  have hw: "holding {PrivMem, Mapping, OppTable, FreqTable} h (hist ?w)" using assms(1) by (simp add: holding_def all_res delta_def)
  let ?Q = "\<lambda>ret w'. if ret = 0 then policy_data (drv w') \<noteq> None \<and> holding {PrivMem, Mapping, OppTable, FreqTable} h (hist w') else holding {} h (hist w')"
  have err: "wp (out_free_cpufreq_table E b e) ?Q v" if "e < 0" "holding {PrivMem, Mapping, OppTable, FreqTable} h (hist v)" for e and v :: cf_world
    by (rule wp_mono [OF exits_release(4) [OF that(2)]]) (use that(1) in auto)
  show ?thesis
    unfolding init_table_def wp_bind wp_call fs cf_resp.case
    apply (rule wp_mono [OF fill_levels_held [OF hw]], rule wp_case_sumI)
     apply (rule err, blast, blast)
    by (simp add: wp_simps) (simp add: holding_def all_res delta_def)
next
  case False
  then have r: "cf_ret (E (hist w) InitTable) \<noteq> 0" using assms(2) by blast
  let ?w = "w\<lparr>hist := hist w @ [(InitTable, E (hist w) InitTable)]\<rparr>"
  have "holding {PrivMem, Mapping, OppTable} h (hist ?w)" using assms(1) False by (simp add: holding_def all_res delta_def)
  from wp_mono [OF exits_release(3) [OF this, of E b "cf_ret (E (hist w) InitTable)"]] r False show ?thesis
    unfolding init_table_def wp_bind wp_call by (cases "E (hist w) InitTable") auto
qed

text \<open>Initialisation gives back what it took. At whichever step it fails, the private data, the mapping, the operating points, the frequency table and the
  references to operating points are as before; after it succeeds the policy has its data, and the exit gives back all of it.\<close>

theorem init_exit_release:
  assumes "run_state (apple_soc_cpufreq_init E te) w = (ret, w')" and "\<And>h. (\<exists>fs. E h InitTable = CTable fs) \<or> cf_ret (E h InitTable) \<noteq> 0"
  shows "(ret \<noteq> 0 \<longrightarrow> res_held (hist w') = res_held (hist w))
    \<and> (ret = 0 \<longrightarrow> policy_data (drv w') \<noteq> None \<and> res_held (hist (snd (run_state (apple_soc_cpufreq_exit E) w'))) = res_held (hist w))"
proof -
  let ?h = "hist w"
  let ?Q = "\<lambda>ret w'. if ret = 0 then policy_data (drv w') \<noteq> None \<and> holding {PrivMem, Mapping, OppTable, FreqTable} ?h (hist w') else holding {} ?h (hist w')"
  have err: "wp (out_free_priv E e) ?Q v" if "e < 0" "holding {PrivMem} ?h (hist v)" for e and v :: cf_world
    by (rule wp_mono [OF exits_release(1) [OF that(2)]]) (use that(1) in auto)
  have err2: "wp (out_iounmap E b e) ?Q v" if "e < 0" "holding {PrivMem, Mapping} ?h (hist v)" for b e and v :: cf_world
    by (rule wp_mono [OF exits_release(2) [OF that(2)]]) (use that(1) in auto)
  have err3: "wp (out_free_table E b (- EPROBE_DEFER)) ?Q v" if "holding {PrivMem, Mapping, OppTable} ?h (hist v)" for b and v :: cf_world
    by (rule wp_mono [OF exits_release(3) [OF that]]) auto
  have "wp (apple_soc_cpufreq_init E te) ?Q w"
    unfolding apple_soc_cpufreq_init_def
    apply (rule wp_bindI, rule wp_call_step, rule wp_ifI, rule wp_returnI, simp add: holding_def all_res delta_def)
    apply (rule wp_bindI, rule wp_call_step, rule wp_ifI, rule wp_returnI, simp add: holding_def all_res delta_def)
    apply (rule wp_bindI, rule wp_mono [OF find_cluster_held [where h = ?h]], simp add: holding_def all_res delta_def)
    apply (rule wp_case_sumI, rule err, simp, simp)
    apply (rule wp_case_prodI, rule wp_bindI, rule wp_call_step, rule wp_ifI, rule err2, simp, simp add: holding_def all_res delta_def)
    apply (rule wp_bindI, rule wp_call_step, rule wp_ifI, rule err3, simp add: holding_def all_res delta_def)
    apply (rule init_table_held, simp add: holding_def all_res delta_def, rule assms(2))
    done
  from wpD [OF this assms(1)] have q: "?Q ret w'" .
  have "res_held (hist (snd (run_state (apple_soc_cpufreq_exit E) w'))) = res_held ?h" if "ret = 0"
    using q that by (auto simp: apple_soc_cpufreq_exit_def fun_eq_iff holding_def all_res delta_def)
  then show ?thesis using q by (auto simp: holding_def fun_eq_iff)
qed

section \<open>Concrete runs\<close>

definition cf_test_policy :: cpufreq_policy where
  "cf_test_policy = \<lparr>policy_data = Some \<lparr>reg_base = 0, info = soc_t8103_info\<rparr>, freq_table = [\<lparr>frequency = 600000, entry_pstate = 1\<rparr>, \<lparr>frequency = 972000, entry_pstate = 2\<rparr>],
     cached_resolved_idx = 0, transition_latency = 0, dvfs_possible_from_any_cpu = True, fast_switch_possible = True, suspend_freq = 600000\<rparr>"

definition cf_test_world :: cf_world where
  "cf_test_world = \<lparr>hist = [], drv = cf_test_policy\<rparr>"

text \<open>A device tree with one cluster.\<close>

definition cf_test_env :: cf_env where
  "cf_test_env h q = (case q of
       PollCmd b \<Rightarrow> CWord 0x1F003
     | MatchNode \<Rightarrow> CMatch ''apple,t8103-cluster-cpufreq''
     | Iomap \<Rightarrow> CPtr 0
     | OppCount \<Rightarrow> CRet 2
     | InitTable \<Rightarrow> CTable [600000, 972000]
     | OppLevel \<Rightarrow> CWord 1
     | _ \<Rightarrow> CRet 0)"

theorem set_target_command_witness:
  "\<exists>v. reqs (hist (snd (run_state (apple_soc_cpufreq_set_target cf_test_env 1) cf_test_world))) = [PollCmd 0, Writeq 0 APPLE_DVFS_CMD v] \<and> bit v 25"
proof -
  have l: "layout_ok soc_t8103_info" using clusters_ok by (simp add: apple_soc_cpufreq_of_match_def)
  have e: "cf_test_env [] (PollCmd 0) = CWord 0x1F003" by (simp add: cf_test_env_def)
  have a: "policy_data (drv cf_test_world) = Some \<lparr>reg_base = 0, info = soc_t8103_info\<rparr>" "hist cf_test_world = []"
    "unat (entry_pstate (freq_table (drv cf_test_world) ! 1)) \<le> unat (max_pstate soc_t8103_info)"
    by (simp_all add: cf_test_world_def cf_test_policy_def soc_t8103_info_def)
  from set_target_command [OF a(1), of 1 cf_test_env, OF _ _ surjective_pairing] l a e show ?thesis by auto
qed

text \<open>On hardware of the T8112, the status holds the state that the command asked for.\<close>

definition cf_test_t8112 :: cf_world where
  "cf_test_t8112 = \<lparr>hist = [], drv = cf_test_policy\<lparr>policy_data := Some \<lparr>reg_base = 0, info = soc_t8112_info\<rparr>\<rparr>\<rparr>"

definition cf_t8112_env :: cf_env where
  "cf_t8112_env h q = (case q of
       Readq b off \<Rightarrow> (case last_cmd b h of Some v \<Rightarrow> CWord v | None \<Rightarrow> CWord 0)
     | Readl b off \<Rightarrow> (case last_cmd b h of Some v \<Rightarrow> CWord (push_bit 5 (FIELD_GET (4, 0) v)) | None \<Rightarrow> CWord 0)
     | _ \<Rightarrow> CPtr 0)"

lemma cf_t8112_reached: "reached cf_t8112_env \<lparr>reg_base = 0, info = soc_t8112_info\<rparr>"
proof -
  have "drop_bit 5 (take_bit 32 (push_bit 5 (FIELD_GET (4, 0) v)) AND GENMASK (9, 5)) = (v AND GENMASK (4, 0) :: u64)" for v
    by (rule bit_word_eqI) (auto simp: bit_simps field_simps_bits)
  then show ?thesis
    by (simp add: reached_def cf_t8112_env_def soc_t8112_info_def APPLE_DVFS_STATUS_CUR_PS_T8112_def APPLE_DVFS_STATUS_CUR_PS_SHIFT_T8112_def
      APPLE_DVFS_CMD_PS1_def APPLE_DVFS_CMD_PS1_SHIFT_def)
qed


lemma cf_init_run: "fst (run_state (apple_soc_cpufreq_init cf_test_env 0) cf_test_world) = 0"
  by (simp add: apple_soc_cpufreq_init_def apple_soc_cpufreq_find_cluster_def init_table_def cf_test_env_def apple_soc_cpufreq_of_match_def Let_def)

theorem init_exit_release_witness:
  "res_held (hist (snd (run_state (apple_soc_cpufreq_exit cf_test_env) (snd (run_state (apple_soc_cpufreq_init cf_test_env 0) cf_test_world)))))
    = res_held (hist cf_test_world)"
proof -
  have t: "(\<exists>fs. cf_test_env h InitTable = CTable fs) \<or> cf_ret (cf_test_env h InitTable) \<noteq> 0" for h by (simp add: cf_test_env_def)
  have run: "run_state (apple_soc_cpufreq_init cf_test_env 0) cf_test_world = (0, snd (run_state (apple_soc_cpufreq_init cf_test_env 0) cf_test_world))"
    using cf_init_run by (simp add: prod_eq_iff)
  show ?thesis using init_exit_release [of cf_test_env 0 cf_test_world, OF run] t by simp
qed

end
