(* ===== verification/Nvme_Readonly.thy ===== *)
theory Nvme_Readonly
  imports Wallace_Prelude
begin

text \<open>
  The read-only test of the storage, \<open>src/scripts/t6040-nvme-readonly-test.c\<close>: it reads the first 64 megabytes of the namespace four times and passes if every
  pass returned the same bytes and the kernel log shows none of the phrases of a fault.

  System calls and the lines on standard output are requests. \<open>RoStop\<close> is an exit with status 1. \<open>pread\<close> and \<open>read\<close> return at most what was asked for. The loop
  over the kernel log ends when there is nothing more to read: its fuel counts lines, and \<open>RoUnfinished\<close> is a log that still has more. The reference
  buffer is a map from the offsets of its chunks.

  Proved: when the test passes, every chunk was read four times with the same bytes, from a device that was set and verified read-only before, and no line of the log was
  suspicious; on a device that always returns the same bytes and with a quiet log it passes.
\<close>

section \<open>Requests\<close>

definition CHUNK :: nat where "CHUNK = 16384"
definition BYTES :: nat where "BYTES = 64 * 1024 * 1024"
definition PASSES :: nat where "PASSES = 4"

datatype ro_req =
    Alarm nat | OpenKmsg | ReadKmsg nat | OpenNamespace | FstatBlk | BlkRoSet | BlkRoGet | BlkGetSize64 | PosixMemalign nat nat
  | PreadChunk nat nat | CloseNs | FreeBuffer
  | PrintStart u64 | PrintProgress nat nat | PrintPassDone nat | PrintPass nat

datatype ro_resp = RoOkay | RoErr int | RoNum int | RoSize u64 | RoBlock bool | RoLine string | RoData "u8 list"

datatype 'a ro_result = RoOk 'a | RoStop string | RoUnfinished

record ro_state =
  reference :: "nat \<rightharpoonup> u8 list"
  completed :: nat

type_synonym ro_env = "(ro_req, ro_resp) env"
type_synonym ro_world = "(ro_req, ro_resp, ro_state) world"
type_synonym 'a ro_prog = "(ro_req, ro_resp, ro_state, 'a ro_result) prog"

definition ro_then :: "'a ro_prog \<Rightarrow> ('a \<Rightarrow> 'b ro_prog) \<Rightarrow> 'b ro_prog" where
  "ro_then m k = do { r \<leftarrow> m; case r of RoOk x \<Rightarrow> k x | RoStop why \<Rightarrow> return (RoStop why) | RoUnfinished \<Rightarrow> return RoUnfinished }"

definition fail :: "string \<Rightarrow> 'a ro_prog" where
  "fail why = return (RoStop why)"

section \<open>The kernel log\<close>

definition lower :: "char \<Rightarrow> nat" where
  "lower c = (let n = of_char c in if 65 \<le> n \<and> n \<le> 90 then n + 32 else n)"

definition strstr :: "string \<Rightarrow> string \<Rightarrow> bool" where
  "strstr line needle = list_ex (\<lambda>i. take (length needle) (drop i line) = needle) [0..<Suc (length line)]"

definition strcasestr :: "string \<Rightarrow> string \<Rightarrow> bool" where
  "strcasestr line needle = list_ex (\<lambda>i. map lower (take (length needle) (drop i line)) = map lower needle) [0..<Suc (length line)]"

definition bad :: "string list" where
  "bad = [''assert'', ''I/O error'', ''timed out'', ''timeout:'', ''timeout while'', ''controller is down'', ''crashed'', ''translation fault'']"

definition exact :: "string list" where
  "exact = [''SError'', ''panic'', ''BUG:'', ''Oops:'', ''RTKit: Exception'']"

text \<open>The text ends at the first zero.\<close>

definition suspicious :: "string \<Rightarrow> bool" where
  "suspicious buf = (let line = takeWhile (\<lambda>c. c \<noteq> CHR 0x00) buf in list_ex (strcasestr line) bad \<or> list_ex (strstr line) exact)"

fun check_log :: "nat \<Rightarrow> ro_env \<Rightarrow> unit ro_prog" where
  "check_log 0 E = return RoUnfinished"
| "check_log (Suc fuel) E = do {
     r \<leftarrow> call E (ReadKmsg 8191);
     case r of
       RoLine l \<Rightarrow>
         if l = [] then return (RoOk ())
         else if suspicious (take 8191 l) then return (RoStop ''kernel stop'')
         else check_log fuel E
     | RoErr e \<Rightarrow> if e \<noteq> EAGAIN then fail ''kernel log read/overrun'' else return (RoOk ())
     | _ \<Rightarrow> fail ''kernel log read/overrun''
   }"

section \<open>The test\<close>

definition count_chunk :: "ro_env \<Rightarrow> nat \<Rightarrow> unit ro_prog" where
  "count_chunk E pass = do {
     modd (\<lambda>s. s\<lparr>completed := completed s + 1\<rparr>);
     s \<leftarrow> getd;
     whenM (completed s mod 256 = 0) (exec E (PrintProgress (pass + 1) (completed s)));
     return (RoOk ())
   }"

text \<open>What is done with a chunk that was read: it is the reference, or is compared with it.\<close>

definition take_chunk :: "ro_env \<Rightarrow> nat \<Rightarrow> nat \<Rightarrow> u8 list \<Rightarrow> unit ro_prog" where
  "take_chunk E pass off dst = do {
     s \<leftarrow> getd;
     (if pass = 0 then modd (\<lambda>s. s\<lparr>reference := (reference s)(off \<mapsto> dst)\<rparr>) else return ());
     if pass \<noteq> 0 \<and> reference s off \<noteq> Some dst then fail ''data differs from first pass''
     else count_chunk E pass
   }"

definition pread_chunk :: "ro_env \<Rightarrow> nat \<Rightarrow> nat \<Rightarrow> unit ro_prog" where
  "pread_chunk E pass off = do {
     r \<leftarrow> call E (PreadChunk CHUNK off);
     case r of
       RoData bs \<Rightarrow>
         if length (take CHUNK bs) \<noteq> CHUNK then fail ''short/failed direct read''
         else take_chunk E pass off (take CHUNK bs)
     | _ \<Rightarrow> fail ''short/failed direct read''
   }"

definition read_chunk :: "nat \<Rightarrow> ro_env \<Rightarrow> nat \<Rightarrow> nat \<Rightarrow> unit ro_prog" where
  "read_chunk fuel E pass off = ro_then (check_log fuel E) (\<lambda>_. pread_chunk E pass off)"

fun read_chunks :: "nat \<Rightarrow> ro_env \<Rightarrow> nat \<Rightarrow> nat list \<Rightarrow> unit ro_prog" where
  "read_chunks fuel E pass [] = return (RoOk ())"
| "read_chunks fuel E pass (off # offs) = ro_then (read_chunk fuel E pass off) (\<lambda>_. read_chunks fuel E pass offs)"

definition offsets :: "nat list" where
  "offsets = map (\<lambda>k. k * CHUNK) [0..<BYTES div CHUNK]"

fun passes :: "nat \<Rightarrow> ro_env \<Rightarrow> nat list \<Rightarrow> unit ro_prog" where
  "passes fuel E [] = return (RoOk ())"
| "passes fuel E (p # ps) =
     ro_then (read_chunks fuel E p offsets) (\<lambda>_.
     ro_then (check_log fuel E) (\<lambda>_. do {
       exec E (PrintPassDone (p + 1));
       passes fuel E ps
     }))"

definition ro_prepare :: "nat \<Rightarrow> ro_env \<Rightarrow> u64 ro_prog" where
  "ro_prepare fuel E = do {
     exec E (Alarm 240);
     k \<leftarrow> call E OpenKmsg;
     if k \<noteq> RoOkay then fail ''open kernel log''
     else ro_then (check_log fuel E) (\<lambda>_. do {
       f \<leftarrow> call E OpenNamespace;
       if f \<noteq> RoOkay then fail ''open namespace read-only/direct''
       else do {
         st \<leftarrow> call E FstatBlk;
         if st \<noteq> RoBlock True then fail ''not a block device''
         else do {
           r \<leftarrow> call E BlkRoSet;
           if r \<noteq> RoOkay then fail ''set/verify block read-only''
           else do {
             r \<leftarrow> call E BlkRoGet;
             if r \<noteq> RoNum 1 then fail ''set/verify block read-only''
             else do {
               r \<leftarrow> call E BlkGetSize64;
               case r of
                 RoSize n \<Rightarrow>
                   if n < of_nat BYTES then fail ''namespace size''
                   else do {
                     a \<leftarrow> call E (PosixMemalign CHUNK BYTES);
                     if a \<noteq> RoOkay then fail ''allocate aligned RAM buffers''
                     else do {
                       b \<leftarrow> call E (PosixMemalign CHUNK CHUNK);
                       if b \<noteq> RoOkay then fail ''allocate aligned RAM buffers''
                       else return (RoOk n)
                     }
                   }
               | _ \<Rightarrow> fail ''namespace size''
             }
           }
         }
       }
     })
   }"

definition ro_main :: "nat \<Rightarrow> ro_env \<Rightarrow> unit ro_prog" where
  "ro_main fuel E =
     ro_then (ro_prepare fuel E) (\<lambda>n. do {
       exec E (PrintStart n);
       modd (\<lambda>s. s\<lparr>completed := 0\<rparr>);
       ro_then (passes fuel E [0..<PASSES]) (\<lambda>_.
       ro_then (check_log fuel E) (\<lambda>_. do {
         exec E CloseNs;
         exec E FreeBuffer;
         exec E FreeBuffer;
         s \<leftarrow> getd;
         exec E (PrintPass (completed s));
         return (RoOk ())
       }))
     })"

section \<open>What a run that passes has seen\<close>

text \<open>Partial correctness of the steps: what holds when a step goes on.\<close>

definition ok_wp :: "'a ro_prog \<Rightarrow> ('a \<Rightarrow> ro_world \<Rightarrow> bool) \<Rightarrow> ro_world \<Rightarrow> bool" where
  "ok_wp m P w = wp m (\<lambda>r w'. case r of RoOk x \<Rightarrow> P x w' | _ \<Rightarrow> True) w"

lemma ok_wp_wp: "ok_wp m P = wp m (\<lambda>r w'. case r of RoOk x \<Rightarrow> P x w' | _ \<Rightarrow> True)"
  by (simp add: fun_eq_iff ok_wp_def)

lemma ok_wp_then: "ok_wp (ro_then m k) P w = ok_wp m (\<lambda>x. ok_wp (k x) P) w"
  unfolding ok_wp_def ro_then_def wp_bind by (rule arg_cong [of _ _ "\<lambda>Q. wp m Q w"]) (auto simp: fun_eq_iff wp_simps split: ro_result.splits)

lemma ok_wp_mono: "ok_wp m P w \<Longrightarrow> (\<And>x w'. P x w' \<Longrightarrow> Q x w') \<Longrightarrow> ok_wp m Q w"
  unfolding ok_wp_def by (erule wp_mono) (auto split: ro_result.splits)

lemma ok_wp_simps:
  "ok_wp (return (RoOk x)) P w = P x w" "ok_wp (fail why) P w" "ok_wp (return (RoStop why)) P w" "ok_wp (return RoUnfinished) P w"
  "ok_wp (State_Monad.bind m f) P w = wp m (\<lambda>x. ok_wp (f x) P) w"
  "ok_wp (if b then m1 else m2) P w = (if b then ok_wp m1 P w else ok_wp m2 P w)"
  by (simp_all add: ok_wp_wp fail_def wp_simps)

lemma ok_thenI: "ok_wp m (\<lambda>x. ok_wp (k x) P) w \<Longrightarrow> ok_wp (ro_then m k) P w"
  by (simp add: ok_wp_then)

lemma ok_bindI: "wp m (\<lambda>x. ok_wp (f x) P) w \<Longrightarrow> ok_wp (State_Monad.bind m f) P w"
  by (simp add: ok_wp_simps)

lemma ok_guardI: "(\<not> b \<Longrightarrow> ok_wp m P w) \<Longrightarrow> ok_wp (if b then fail why else m) P w"
  by (simp add: ok_wp_simps)

text \<open>The bytes that were read at an offset, how many reads there were, and whether the log is quiet.\<close>

fun read_of :: "nat \<Rightarrow> ro_req \<times> ro_resp \<Rightarrow> u8 list list" where
  "read_of off (PreadChunk n o', RoData bs) = (if o' = off then [take CHUNK bs] else [])"
| "read_of off x = []"

definition reads :: "(ro_req \<times> ro_resp) list \<Rightarrow> nat \<Rightarrow> u8 list list" where
  "reads h off = concat (map (read_of off) h)"

fun is_pread :: "ro_req \<Rightarrow> bool" where
  "is_pread (PreadChunk n o') = True"
| "is_pread q = False"

definition preads :: "(ro_req \<times> ro_resp) list \<Rightarrow> nat" where
  "preads h = length (filter is_pread (map fst h))"

fun quiet_line :: "ro_req \<times> ro_resp \<Rightarrow> bool" where
  "quiet_line (ReadKmsg n, RoLine l) = (\<not> suspicious (take 8191 l))"
| "quiet_line x = True"

definition quiet :: "(ro_req \<times> ro_resp) list \<Rightarrow> bool" where
  "quiet h = list_all quiet_line h"

lemma trace_simps [simp]:
  "reads (h @ k) off = reads h off @ reads k off" "preads (h @ k) = preads h + preads k" "quiet (h @ k) \<longleftrightarrow> quiet h \<and> quiet k"
  "reads (x # k) off = read_of off x @ reads k off" "preads (x # k) = (if is_pread (fst x) then 1 else 0) + preads k" "quiet (x # k) \<longleftrightarrow> quiet_line x \<and> quiet k"
  "preads [] = 0" "quiet []" "reads [] off = []"
  by (simp_all add: reads_def preads_def quiet_def)

text \<open>The state of the test: offset \<open>o'\<close> has been read \<open>c o'\<close> times, always with the bytes of the reference.\<close>

definition chunk_seen :: "nat \<Rightarrow> u8 list option \<Rightarrow> u8 list list \<Rightarrow> bool" where
  "chunk_seen k ref rs \<longleftrightarrow> (if k = 0 then rs = [] else \<exists>d. ref = Some d \<and> length d = CHUNK \<and> rs = replicate k d)"

definition ro_inv :: "(ro_req \<times> ro_resp) list \<Rightarrow> (nat \<Rightarrow> nat) \<Rightarrow> nat \<Rightarrow> ro_world \<Rightarrow> bool" where
  "ro_inv h1 c n w \<longleftrightarrow> (\<forall>o'. chunk_seen (c o') (reference (drv w) o') (reads (hist w) o')) \<and> preads (hist w) = n \<and> completed (drv w) = n
     \<and> quiet (hist w) \<and> (\<exists>h2. hist w = h1 @ h2)"

lemma ro_inv_step:
  "ro_inv h1 c n w \<Longrightarrow> \<not> is_pread q \<Longrightarrow> quiet_line (q, r) \<Longrightarrow> hist w' = hist w @ [(q, r)] \<Longrightarrow> drv w' = drv w \<Longrightarrow> ro_inv h1 c n w'"
  by (cases q) (auto simp: ro_inv_def)

text \<open>Reading the log adds quiet lines to the history and nothing else.\<close>

definition log_only :: "(ro_req \<times> ro_resp) list \<Rightarrow> bool" where
  "log_only k \<longleftrightarrow> preads k = 0 \<and> (\<forall>o'. reads k o' = []) \<and> quiet k"

lemma check_log_effect:
  "ok_wp (check_log fuel E) (\<lambda>_ w'. drv w' = drv w \<and> (\<exists>k. hist w' = hist w @ k \<and> log_only k)) w"
proof (induction fuel arbitrary: w)
  case (Suc fuel)
  let ?Q = "\<lambda>_ w'. drv w' = drv w \<and> (\<exists>k. hist w' = hist w @ k \<and> log_only k)"
  let ?r = "E (hist w) (ReadKmsg 8191)"
  let ?w = "w\<lparr>hist := hist w @ [(ReadKmsg 8191, ?r)]\<rparr>"
  have e: "\<not> suspicious []" by code_simp
  have one: "?Q () ?w" if "quiet_line (ReadKmsg 8191, ?r)"
    using that by (auto simp: log_only_def intro!: exI [of _ "[(ReadKmsg 8191, ?r)]"])
  have rest: "ok_wp (check_log fuel E) ?Q ?w" if "quiet_line (ReadKmsg 8191, ?r)"
    by (rule ok_wp_mono [OF Suc.IH]) (use that in \<open>auto simp: log_only_def\<close>)
  show ?case
    using one rest e by (auto simp: ok_wp_simps wp_call split: ro_resp.splits)
qed (simp add: ok_wp_simps)

lemma check_log_inv: "ro_inv h1 c n w \<Longrightarrow> ok_wp (check_log fuel E) (\<lambda>_. ro_inv h1 c n) w"
  by (rule ok_wp_mono [OF check_log_effect]) (auto simp: ro_inv_def log_only_def)

lemma chunk_seen_step:
  "chunk_seen k ref rs \<Longrightarrow> k \<noteq> 0 \<longrightarrow> ref = Some d \<Longrightarrow> length d = CHUNK \<Longrightarrow> chunk_seen (Suc k) (Some d) (rs @ [d])"
  by (auto simp: chunk_seen_def replicate_append_same split: if_splits)

lemma ro_inv_chunk:
  assumes "ro_inv h1 c n v" and "length d = CHUNK" and "c off \<noteq> 0 \<longrightarrow> reference (drv v) off = Some d" and "hist u = hist v @ [(PreadChunk CHUNK off, RoData bs)]"
    and "d = take CHUNK bs" and "reference (drv u) = (reference (drv v))(off \<mapsto> d)" and "completed (drv u) = Suc n"
  shows "ro_inv h1 (c(off := Suc (c off))) (Suc n) u"
proof -
  have s: "chunk_seen (c off) (reference (drv v) off) (reads (hist v) off)" using assms(1) by (simp add: ro_inv_def)
  have "chunk_seen ((c(off := Suc (c off))) o') (reference (drv u) o') (reads (hist u) o')" for o'
    using chunk_seen_step [OF s assms(3,2)] assms(1,4-6) by (cases "o' = off") (simp_all add: ro_inv_def)
  with assms(1,4,7) show ?thesis by (auto simp: ro_inv_def)
qed

lemma take_chunk_inv:
  assumes "ro_inv h1 c n v" and "length d = CHUNK" and "hist u = hist v @ [(PreadChunk CHUNK off, RoData bs)]" and "drv u = drv v" and "d = take CHUNK bs"
  shows "ok_wp (take_chunk E (c off) off d) (\<lambda>_. ro_inv h1 (c(off := Suc (c off))) (Suc n)) u"
proof -
  let ?I = "ro_inv h1 (c(off := Suc (c off))) (Suc n)"
  have go: "ok_wp (count_chunk E p) (\<lambda>_. ?I) u'" if "c off \<noteq> 0 \<longrightarrow> reference (drv v) off = Some d" "hist u' = hist u"
    "reference (drv u') = (if c off = 0 then (reference (drv v))(off \<mapsto> d) else reference (drv v))" "completed (drv u') = n" for u' :: ro_world and p
  proof -
    note t = that
    have i: "?I x" if x: "hist x = hist u'" "drv x = (drv u')\<lparr>completed := completed (drv u') + 1\<rparr>" for x :: ro_world
      by (rule ro_inv_chunk [OF assms(1,2) _ _ assms(5)]) (use x t assms(3) in auto)
    have pr: "?I y" if "hist x = hist u'" "drv x = (drv u')\<lparr>completed := completed (drv u') + 1\<rparr>" "hist y = hist x @ [(PrintProgress a b, z)]" "drv y = drv x"
      for x y :: ro_world and a b z by (rule ro_inv_step [OF i [OF that(1,2)] _ _ that(3,4)]) simp_all
    show ?thesis
      unfolding count_chunk_def ok_wp_wp
      by (rule wp_bindI, rule wp_modd_step, rule wp_bindI, rule wp_getdI, rule wp_bindI, rule wp_whenI, rule wp_exec_step, rule wp_returnI)
        (unfold ro_result.case, rule pr, assumption+, rule wp_returnI, unfold ro_result.case, rule i, assumption+)
  qed
  have n: "completed (drv v) = n" using assms(1) by (simp add: ro_inv_def)
  define I where "I = ?I"
  show ?thesis
    unfolding take_chunk_def I_def [symmetric]
    by (cases "c off = 0") (auto simp: ok_wp_simps wp_simps assms(4) n intro!: go [folded I_def])
qed

lemma read_chunk_inv:
  assumes "ro_inv h1 c n w" and "c off = pass"
  shows "ok_wp (read_chunk fuel E pass off) (\<lambda>_. ro_inv h1 (c(off := Suc pass)) (Suc n)) w"
  unfolding read_chunk_def ok_wp_then
proof (rule ok_wp_mono [OF check_log_inv [OF assms(1)]])
  fix v :: ro_world
  assume v: "ro_inv h1 c n v"
  show "ok_wp (pread_chunk E pass off) (\<lambda>_. ro_inv h1 (c(off := Suc pass)) (Suc n)) v"
    using take_chunk_inv [OF v, of _ "v\<lparr>hist := hist v @ [(PreadChunk CHUNK off, E (hist v) (PreadChunk CHUNK off))]\<rparr>" off _ E] assms(2)
    by (auto simp: pread_chunk_def ok_wp_simps wp_call split: ro_resp.splits)
qed

lemma read_chunks_inv:
  "ro_inv h1 c n w \<Longrightarrow> distinct offs \<Longrightarrow> \<forall>o' \<in> set offs. c o' = pass \<Longrightarrow>
    ok_wp (read_chunks fuel E pass offs) (\<lambda>_. ro_inv h1 (\<lambda>o'. if o' \<in> set offs then Suc pass else c o') (n + length offs)) w"
proof (induction offs arbitrary: c n w)
  case Nil
  then show ?case by (simp add: ok_wp_simps)
next
  case (Cons off offs)
  have f: "(\<lambda>o'. if o' \<in> set (off # offs) then Suc pass else c o') = (\<lambda>o'. if o' \<in> set offs then Suc pass else (c(off := Suc pass)) o')" by auto
  have c: "c off = pass" using Cons.prems(3) by simp
  show ?case
    unfolding read_chunks.simps ok_wp_then f
    by (rule ok_wp_mono [OF read_chunk_inv [OF Cons.prems(1) c]], rule ok_wp_mono [OF Cons.IH]) (use Cons.prems in auto)
qed

lemma offsets_distinct: "distinct offsets"
  by (simp add: offsets_def distinct_map inj_on_def CHUNK_def)

text \<open>After each pass, every chunk has been read once more.\<close>

lemma passes_inv:
  "p + k = PASSES \<Longrightarrow> ro_inv h1 (\<lambda>o'. if o' \<in> set offsets then p else 0) n w \<Longrightarrow>
    ok_wp (passes fuel E [p..<PASSES]) (\<lambda>_. ro_inv h1 (\<lambda>o'. if o' \<in> set offsets then PASSES else 0) (n + k * length offsets)) w"
proof (induction k arbitrary: p n w)
  case 0
  then have p: "p = PASSES" by simp
  from 0(2) [unfolded p] show ?case by (simp add: ok_wp_simps p)
next
  case (Suc k)
  let ?c = "\<lambda>p o'. if o' \<in> set offsets then p else 0"
  have c: "(\<lambda>o'. if o' \<in> set offsets then Suc p else ?c p o') = ?c (Suc p)" by auto
  have n: "n + Suc k * length offsets = (n + length offsets) + k * length offsets" by simp
  have p: "[p..<PASSES] = p # [Suc p..<PASSES]" "Suc p + k = PASSES" using Suc.prems(1) by (simp_all add: upt_conv_Cons)
  have r: "ok_wp (read_chunks fuel E p offsets) (\<lambda>_. ro_inv h1 (?c (Suc p)) (n + length offsets)) w"
    using read_chunks_inv [OF Suc.prems(2) offsets_distinct, of p fuel E] unfolding c by simp
  have fin: "ok_wp (State_Monad.bind (exec E (PrintPassDone (p + 1))) (\<lambda>_. passes fuel E [Suc p..<PASSES]))
      (\<lambda>_. ro_inv h1 (?c PASSES) (n + Suc k * length offsets)) v" if v: "ro_inv h1 (?c (Suc p)) (n + length offsets) v" for v
    unfolding ok_wp_simps n
    by (rule wp_exec_step, rule Suc.IH [OF p(2)], rule ro_inv_step [OF v]) simp_all
  show ?case
    unfolding p(1) passes.simps ok_wp_then
    by (rule ok_wp_mono [OF r], rule ok_wp_mono [OF check_log_inv], assumption, rule fin)
qed

text \<open>Before the reads the device was set read-only, and that was verified.\<close>

definition prepared :: "ro_world \<Rightarrow> bool" where
  "prepared w \<longleftrightarrow> preads (hist w) = 0 \<and> quiet (hist w) \<and> (\<forall>o'. reads (hist w) o' = []) \<and> (BlkRoSet, RoOkay) \<in> set (hist w) \<and> (BlkRoGet, RoNum 1) \<in> set (hist w)"

lemma prepare_inv:
  assumes "hist w = []"
  shows "ok_wp (ro_prepare fuel E) (\<lambda>_. prepared) w"
proof -
  have log: "ok_wp (check_log fuel E) (\<lambda>_ w'. log_only (hist w')) v" if "log_only (hist v)" for v
    by (rule ok_wp_mono [OF check_log_effect]) (use that in \<open>auto simp: log_only_def\<close>)
  have i: "log_only (hist v')" if "log_only (hist v)" "hist v' = hist v @ [(q, r)]" "q \<notin> {ReadKmsg n |n. True}" "\<not> is_pread q" for v v' :: ro_world and q r
    using that by (cases q) (auto simp: log_only_def)
  have start: "log_only (hist w)" using assms by (simp add: log_only_def)
  show ?thesis
    unfolding ro_prepare_def
    apply (rule ok_bindI, rule wp_exec_step, rule ok_bindI, rule wp_call_step, rule ok_guardI, rule ok_thenI, rule ok_wp_mono [OF log])
    using start apply (simp add: log_only_def)
    apply (rule ok_bindI, rule wp_call_step, rule ok_guardI, rule ok_bindI, rule wp_call_step, rule ok_guardI,
      rule ok_bindI, rule wp_call_step, rule ok_guardI, rule ok_bindI, rule wp_call_step, rule ok_guardI, rule ok_bindI, rule wp_call_step)
    apply (simp only: split: ro_resp.split, intro conjI allI impI)
          apply (simp_all only: ok_wp_simps(2))
    apply (rule ok_guardI, rule ok_bindI, rule wp_call_step, rule ok_guardI, rule ok_bindI, rule wp_call_step, rule ok_guardI)
    apply (simp add: ok_wp_simps prepared_def log_only_def)
    done
qed


section \<open>Healthy devices pass\<close>

text \<open>The lines a log has given so far, and a device that works: every call succeeds, the bytes are always those of \<open>M\<close>, and the log has at most \<open>L\<close> lines, none of them suspicious.\<close>

definition log_lines :: "(ro_req \<times> ro_resp) list \<Rightarrow> nat" where
  "log_lines h = length (filter (\<lambda>x. case x of (ReadKmsg n, RoLine l) \<Rightarrow> True | _ \<Rightarrow> False) h)"

definition healthy :: "nat \<Rightarrow> ro_env \<Rightarrow> (nat \<Rightarrow> u8 list) \<Rightarrow> u64 \<Rightarrow> bool" where
  "healthy L E M n \<longleftrightarrow> (\<forall>h. E h OpenKmsg = RoOkay \<and> E h OpenNamespace = RoOkay \<and> E h FstatBlk = RoBlock True \<and> E h BlkRoSet = RoOkay \<and> E h BlkRoGet = RoNum 1
     \<and> E h BlkGetSize64 = RoSize n \<and> (\<forall>a b. E h (PosixMemalign a b) = RoOkay) \<and> (\<forall>off. E h (PreadChunk CHUNK off) = RoData (M off))
     \<and> (E h (ReadKmsg 8191) = RoErr EAGAIN \<or> log_lines h < L \<and> (\<exists>l. E h (ReadKmsg 8191) = RoLine l \<and> \<not> suspicious (take 8191 l))))
     \<and> of_nat BYTES \<le> n \<and> (\<forall>off. length (M off) = CHUNK)"

lemma healthy_log:
  "healthy L E M n \<Longrightarrow> E h (ReadKmsg 8191) = RoErr EAGAIN \<or> log_lines h < L \<and> (\<exists>l. E h (ReadKmsg 8191) = RoLine l \<and> \<not> suspicious (take 8191 l))"
  by (simp add: healthy_def)

lemma check_log_ends:
  assumes "healthy L E M n"
  shows "L \<le> fuel + log_lines (hist w) \<Longrightarrow> wp (check_log (Suc fuel) E) (\<lambda>r w'. r = RoOk () \<and> drv w' = drv w) w"
proof (induction fuel arbitrary: w)
  case 0
  then have "E (hist w) (ReadKmsg 8191) = RoErr EAGAIN" using healthy_log [OF assms, of "hist w"] by auto
  then show ?case by (simp add: wp_simps)
next
  case (Suc fuel)
  let ?r = "E (hist w) (ReadKmsg 8191)"
  let ?w = "w\<lparr>hist := hist w @ [(ReadKmsg 8191, ?r)]\<rparr>"
  consider "?r = RoErr EAGAIN" | l where "?r = RoLine l" "\<not> suspicious (take 8191 l)" using healthy_log [OF assms, of "hist w"] by blast
  then show ?case
  proof cases
    case 1
    then show ?thesis by (simp add: wp_simps)
  next
    case (2 l)
    have "L \<le> fuel + log_lines (hist ?w)" using Suc.prems 2(1) by (simp add: log_lines_def)
    from Suc.IH [OF this] have "wp (check_log (Suc fuel) E) (\<lambda>r w'. r = RoOk () \<and> drv w' = drv w) ?w" by simp
    with 2 show ?thesis unfolding check_log.simps(2) [of "Suc fuel"] by (simp add: wp_simps del: check_log.simps)
  qed
qed

lemma log_ok:
  assumes "healthy L E M n" and "L < fuel"
  shows "wp (check_log fuel E) (\<lambda>r w'. r = RoOk () \<and> drv w' = drv w) w"
  using check_log_ends [OF assms(1), of "fuel - 1" w] assms(2) by simp

text \<open>A chunk that is read is in the reference, and the others stay.\<close>

definition kept :: "(nat \<Rightarrow> u8 list) \<Rightarrow> nat set \<Rightarrow> ro_world \<Rightarrow> ro_world \<Rightarrow> bool" where
  "kept M A w w' \<longleftrightarrow> (\<forall>off. off \<in> A \<or> reference (drv w) off = Some (M off) \<longrightarrow> reference (drv w') off = Some (M off))"

lemma then_ok: "wp m (\<lambda>r w'. r = RoOk x \<and> P w') w \<Longrightarrow> (\<And>w'. P w' \<Longrightarrow> wp (k x) Q w') \<Longrightarrow> wp (ro_then m k) Q w"
  unfolding ro_then_def wp_bind by (erule wp_mono) auto

lemma read_chunk_ok:
  assumes "healthy L E M n" and "L < fuel" and "pass \<noteq> 0 \<longrightarrow> reference (drv w) off = Some (M off)"
  shows "wp (read_chunk fuel E pass off) (\<lambda>r w'. r = RoOk () \<and> kept M {off} w w') w"
proof -
  have d: "E h (PreadChunk CHUNK off) = RoData (M off)" "take CHUNK (M off) = M off" "length (M off) = CHUNK" for h
    using assms(1) by (simp_all add: healthy_def)
  show ?thesis
    unfolding read_chunk_def
    by (rule then_ok [OF log_ok [OF assms(1,2)]])
      (use assms(3) in \<open>cases "pass = 0"; auto simp: pread_chunk_def take_chunk_def count_chunk_def wp_simps d kept_def\<close>)
qed

lemma read_chunks_ok:
  assumes "healthy L E M n" and "L < fuel"
  shows "\<forall>off \<in> set offs. pass \<noteq> 0 \<longrightarrow> reference (drv w) off = Some (M off) \<Longrightarrow> wp (read_chunks fuel E pass offs) (\<lambda>r w'. r = RoOk () \<and> kept M (set offs) w w') w"
proof (induction offs arbitrary: w)
  case Nil
  then show ?case by (simp add: wp_simps kept_def)
next
  case (Cons off offs)
  have p: "pass \<noteq> 0 \<longrightarrow> reference (drv w) off = Some (M off)" using Cons.prems by simp
  show ?case
    unfolding read_chunks.simps
    by (rule then_ok [OF read_chunk_ok [OF assms p]], rule wp_mono [OF Cons.IH]) (use Cons.prems in \<open>auto simp: kept_def\<close>)
qed

lemma passes_ok:
  assumes "healthy L E M n" and "L < fuel"
  shows "(\<forall>p \<in> set (tl ps). p \<noteq> 0) \<Longrightarrow> ps = [] \<or> hd ps = 0 \<or> (\<forall>off \<in> set offsets. reference (drv w) off = Some (M off)) \<Longrightarrow>
    wp (passes fuel E ps) (\<lambda>r w'. r = RoOk ()) w"
proof (induction ps arbitrary: w)
  case Nil
  then show ?case by (simp add: wp_simps)
next
  case (Cons p ps)
  have "\<forall>off \<in> set offsets. p \<noteq> 0 \<longrightarrow> reference (drv w) off = Some (M off)" using Cons.prems(2) by auto
  note r = read_chunks_ok [OF assms this]
  have t: "\<forall>q \<in> set (tl ps). q \<noteq> 0" using Cons.prems(1) by (cases ps) auto
  show ?case
    unfolding passes.simps
    by (rule then_ok [OF r], rule then_ok [OF log_ok [OF assms]], rule wp_bindI, rule wp_exec_step, rule Cons.IH [OF t])
      (auto simp: kept_def)
qed

lemma ro_main_ok:
  assumes "healthy L E M n" and "L < fuel"
  shows "fst (run_state (ro_main fuel E) w) = RoOk ()"
proof -
  have e: "E h OpenKmsg = RoOkay" "E h OpenNamespace = RoOkay" "E h FstatBlk = RoBlock True" "E h BlkRoSet = RoOkay" "E h BlkRoGet = RoNum 1"
    "E h BlkGetSize64 = RoSize n" "E h (PosixMemalign a b) = RoOkay" "\<not> n < of_nat BYTES" for h a b
    using assms(1) by (simp_all add: healthy_def not_less)
  have prep: "wp (ro_prepare fuel E) (\<lambda>r w'. r = RoOk n \<and> True) w"
    unfolding ro_prepare_def
    apply (rule wp_bindI, rule wp_exec_step, simp only: wp_bind wp_call e, simp only: simp_thms if_False)
    apply (rule then_ok [OF log_ok [OF assms]])
    by (simp add: wp_simps e)
  have "wp (ro_main fuel E) (\<lambda>r w'. r = RoOk ()) w"
    unfolding ro_main_def
    by (rule then_ok [OF prep], rule wp_bindI, rule wp_exec_step, rule wp_bindI, rule wp_modd_step, rule then_ok [where P = "\<lambda>_. True"], simp,
        rule passes_ok [OF assms], simp add: PASSES_def upt_rec, simp add: PASSES_def upt_rec, rule then_ok [OF log_ok [OF assms]])
      (simp add: wp_simps)
  then show ?thesis by (simp add: wp_def case_prod_beta)
qed

text \<open>A healthy device passes. When all calls succeed, the device returns the same bytes for every read of a chunk and the log has at most as many lines as the
  fuel allows for, none of them suspicious, the test ends with success.\<close>

theorem readonly_passes:
  assumes "healthy L E M n" and "L < fuel"
  shows "fst (run_state (ro_main fuel E) w) = RoOk ()"
  using ro_main_ok [OF assms] .

section \<open>A concrete device\<close>

definition ro_test_env :: ro_env where
  "ro_test_env h q = (case q of
       ReadKmsg n \<Rightarrow> if log_lines h < 2 then RoLine ''nvme nvme0: 8/0/0 default/read/poll queues'' else RoErr EAGAIN
     | FstatBlk \<Rightarrow> RoBlock True
     | BlkRoGet \<Rightarrow> RoNum 1
     | BlkGetSize64 \<Rightarrow> RoSize 500277790720
     | PreadChunk n off \<Rightarrow> RoData (replicate n (of_nat off))
     | _ \<Rightarrow> RoOkay)"

definition ro_test_world :: ro_world where
  "ro_test_world = \<lparr>hist = [], drv = \<lparr>reference = Map.empty, completed = 0\<rparr>\<rparr>"

lemma ro_test_healthy: "healthy 2 ro_test_env (\<lambda>off. replicate CHUNK (of_nat off)) 500277790720"
proof -
  have "\<not> suspicious (take 8191 ''nvme nvme0: 8/0/0 default/read/poll queues'')" by code_simp
  then show ?thesis by (simp add: healthy_def ro_test_env_def BYTES_def)
qed

theorem readonly_passes_witness: "fst (run_state (ro_main 3 ro_test_env) ro_test_world) = RoOk ()"
  by (rule readonly_passes [OF ro_test_healthy]) simp


end
