(* ===== verification/Usb_Pty.thy ===== *)
theory Usb_Pty
  imports Wallace_Prelude
begin

text \<open>
  The bridge from the diagnostic gadget to a pseudo terminal, \<open>src/scripts/t6040-usb-bulk-pty.c\<close>: it looks for the one USB device with the expected product string, claims the two interfaces of an
  ACM function, and copies bytes in both directions.

  libusb, the terminal and the thread library are requests, and the constants of libusb's header are parameters. The arguments are given as \<open>getopt_long\<close> and \<open>strtoul\<close> deliver them:
  for each option its letter, the number, and whether the text was a number. The flags \<open>stop\<close> and \<open>failed\<close> are shared with a signal handler and the reader thread,
  which only set them: every time the code looks at a flag, \<open>LoadFlags\<close> tells what the others have done since. The loops have fuel for their turns, and \<open>None\<close> is a loop that
  still runs. Messages are left out.

  Proved: only a device with the expected identity and product string is ever kept open, and it is the first; the data interface is the wanted one among those of the right kind; what is read on one
  side is what is written on the other, in order; and every way out of the program releases what was taken.
\<close>

section \<open>Requests\<close>

definition EXPECTED_PRODUCT :: string where
  "EXPECTED_PRODUCT = ''m1n1-shaped Linux ACM diagnostic''"

definition BUFFER_SIZE :: nat where "BUFFER_SIZE = 16384"
definition DEFAULT_VID :: u16 where "DEFAULT_VID = 0x1209"
definition DEFAULT_PID :: u16 where "DEFAULT_PID = 0x316d"

record libusb =
  LIBUSB_SUCCESS :: int
  LIBUSB_ERROR_TIMEOUT :: int
  LIBUSB_ERROR_NOT_FOUND :: int
  LIBUSB_ERROR_IO :: int
  LIBUSB_CLASS_DATA :: u8
  LIBUSB_TRANSFER_TYPE_MASK :: u8
  LIBUSB_TRANSFER_TYPE_BULK :: u8
  LIBUSB_ENDPOINT_IN :: u8
  LIBUSB_REQUEST_CLASS_INTERFACE :: u8

record device_desc =
  idVendor :: u16
  idProduct :: u16
  iProduct :: u8

record endpoint_desc =
  bmAttributes :: u8
  bEndpointAddress :: u8

record alt_desc =
  bAlternateSetting :: u8
  bInterfaceClass :: u8
  bInterfaceNumber :: u8
  endpoints :: "endpoint_desc list"

record bridge =
  stop :: bool
  failed :: bool

datatype up_req =
    LibusbInit | LibusbExit | GetDeviceList | FreeDeviceList | GetDescriptor nat | OpenDevice nat | CloseDevice nat | GetProduct nat u8
  | GetActiveConfig nat | FreeConfig | SetAutoDetach nat | ClaimInterface int | ReleaseInterface int | ControlTransfer u8 u8 u16 u16 "u8 list"
  | OpenPty | Tcgetattr | Tcsetattr | SignalHandlers | PthreadCreate | PthreadJoin | ClosePty | PrintName
  | LoadFlags | Poll | PtyRead nat | PtyWrite "u8 list" | BulkIn u8 nat | BulkOut u8 "u8 list"

datatype up_resp =
    UDone | URet int | UCount int | UDesc int device_desc | UString int string | UConfig int "alt_desc list list" | UFlags bool bool | UPoll int bool bool
  | UBytes "u8 list" | UErr int | UIn int "u8 list" | UOut int nat

type_synonym up_env = "(up_req, up_resp) env"
type_synonym up_world = "(up_req, up_resp, bridge) world"
type_synonym 'a up_prog = "(up_req, up_resp, bridge, 'a) prog"

fun uret :: "up_resp \<Rightarrow> int" where
  "uret (URet n) = n"
| "uret r = 0"

section \<open>The terminal side\<close>

text \<open>\<open>write\<close> returns how many bytes it took, at most what it was given.\<close>

fun write_all :: "nat \<Rightarrow> up_env \<Rightarrow> u8 list \<Rightarrow> (int option) up_prog" where
  "write_all fuel E [] = return (Some 0)"
| "write_all 0 E (b # bs) = return None"
| "write_all (Suc fuel) E (b # bs) = do {
     r \<leftarrow> call E (PtyWrite (b # bs));
     case r of
       URet n \<Rightarrow>
         if 0 < n then write_all fuel E (drop (min (nat n) (length (b # bs))) (b # bs))
         else return (Some (- 1))
     | UErr e \<Rightarrow> if e = EINTR then write_all fuel E (b # bs) else return (Some (- 1))
     | _ \<Rightarrow> return (Some (- 1))
   }"

definition load_flags :: "up_env \<Rightarrow> unit up_prog" where
  "load_flags E = do {
     r \<leftarrow> call E LoadFlags;
     case r of
       UFlags s f \<Rightarrow> modd (\<lambda>b. b\<lparr>stop := stop b \<or> s, failed := failed b \<or> f\<rparr>)
     | _ \<Rightarrow> return ()
   }"

definition give_up :: "unit up_prog" where
  "give_up = modd (\<lambda>b. b\<lparr>failed := True, stop := True\<rparr>)"

text \<open>The reader thread.\<close>

fun usb_to_pty :: "nat \<Rightarrow> up_env \<Rightarrow> libusb \<Rightarrow> u8 \<Rightarrow> (unit option) up_prog" where
  "usb_to_pty 0 E K ep_in = return None"
| "usb_to_pty (Suc fuel) E K ep_in = do {
     load_flags E;
     b \<leftarrow> getd;
     if stop b then return (Some ())
     else do {
       r \<leftarrow> call E (BulkIn ep_in BUFFER_SIZE);
       case r of
         UIn ret bs \<Rightarrow>
           if ret = LIBUSB_ERROR_TIMEOUT K then usb_to_pty fuel E K ep_in
           else if ret \<noteq> LIBUSB_SUCCESS K then do { give_up; return (Some ()) }
           else do {
             w \<leftarrow> write_all fuel E (take BUFFER_SIZE bs);
             case w of
               None \<Rightarrow> return None
             | Some n \<Rightarrow> if n \<noteq> 0 then do { give_up; return (Some ()) } else usb_to_pty fuel E K ep_in
           }
       | _ \<Rightarrow> do { give_up; return (Some ()) }
     }
   }"

section \<open>Finding the device\<close>

text \<open>The loop over the devices from number \<open>i\<close> on: the handle of the first that is the expected one. \<open>strcmp\<close> sees the string up to its zero.\<close>

definition is_expected :: "string \<Rightarrow> bool" where
  "is_expected product = (takeWhile (\<lambda>c. c \<noteq> CHR 0x00) product = EXPECTED_PRODUCT)"

fun find_device :: "up_env \<Rightarrow> libusb \<Rightarrow> u16 \<Rightarrow> u16 \<Rightarrow> nat list \<Rightarrow> (nat option) up_prog" where
  "find_device E K vid pid [] = return None"
| "find_device E K vid pid (i # is) = do {
     r \<leftarrow> call E (GetDescriptor i);
     case r of
       UDesc ret desc \<Rightarrow>
         if ret \<noteq> 0 \<or> idVendor desc \<noteq> vid \<or> idProduct desc \<noteq> pid then find_device E K vid pid is
         else do {
           opn \<leftarrow> call E (OpenDevice i);
           if uret opn \<noteq> LIBUSB_SUCCESS K then find_device E K vid pid is
           else do {
             ok \<leftarrow> (if iProduct desc = 0 then return False
                   else do {
                     s \<leftarrow> call E (GetProduct i (iProduct desc));
                     return (case s of UString n product \<Rightarrow> 0 \<le> n \<and> is_expected product | _ \<Rightarrow> False)
                   });
             if \<not> ok then do { exec E (CloseDevice i); find_device E K vid pid is }
             else return (Some i)
           }
         }
     | _ \<Rightarrow> find_device E K vid pid is
   }"

definition open_diagnostic :: "up_env \<Rightarrow> libusb \<Rightarrow> u16 \<Rightarrow> u16 \<Rightarrow> (nat option) up_prog" where
  "open_diagnostic E K vid pid = do {
     c \<leftarrow> call E GetDeviceList;
     case c of
       UCount n \<Rightarrow>
         if n < 0 then return None
         else do {
           m \<leftarrow> find_device E K vid pid [0..<nat n];
           exec E FreeDeviceList;
           return m
         }
     | _ \<Rightarrow> return None
   }"

section \<open>Finding the interfaces\<close>

text \<open>The last bulk endpoints of each direction, 0 when there is none.\<close>

fun bulk_endpoints :: "libusb \<Rightarrow> endpoint_desc list \<Rightarrow> u8 \<times> u8 \<Rightarrow> u8 \<times> u8" where
  "bulk_endpoints K [] x = x"
| "bulk_endpoints K (ep # eps) (i, out) =
     (if bmAttributes ep AND LIBUSB_TRANSFER_TYPE_MASK K \<noteq> LIBUSB_TRANSFER_TYPE_BULK K then bulk_endpoints K eps (i, out)
      else if bEndpointAddress ep AND LIBUSB_ENDPOINT_IN K \<noteq> 0 then bulk_endpoints K eps (bEndpointAddress ep, out)
      else bulk_endpoints K eps (i, bEndpointAddress ep))"

record acm =
  control_interface :: int
  data_interface :: int
  ep_in :: u8
  ep_out :: u8

definition is_data :: "libusb \<Rightarrow> alt_desc \<Rightarrow> bool" where
  "is_data K alt \<longleftrightarrow> bAlternateSetting alt = 0 \<and> bInterfaceClass alt = LIBUSB_CLASS_DATA K"

text \<open>The settings of one interface: the function, if it was found here, and the count so far.\<close>

fun scan_settings :: "libusb \<Rightarrow> u32 \<Rightarrow> alt_desc list \<Rightarrow> u32 \<Rightarrow> acm option \<times> u32" where
  "scan_settings K function_index [] found = (None, found)"
| "scan_settings K function_index (alt # alts) found =
     (if \<not> is_data K alt then scan_settings K function_index alts found
      else if found \<noteq> function_index then scan_settings K function_index alts (found + 1)
      else
        case bulk_endpoints K (endpoints alt) (0, 0) of (i, out) \<Rightarrow>
          if i = 0 \<or> out = 0 then (None, found + 1)
          else (Some \<lparr>control_interface = uint (bInterfaceNumber alt) - 1, data_interface = uint (bInterfaceNumber alt), ep_in = i, ep_out = out\<rparr>, found + 1))"

fun scan_interfaces :: "libusb \<Rightarrow> u32 \<Rightarrow> alt_desc list list \<Rightarrow> u32 \<Rightarrow> acm option" where
  "scan_interfaces K function_index [] found = None"
| "scan_interfaces K function_index (intf # intfs) found =
     (case scan_settings K function_index intf found of
        (Some a, _) \<Rightarrow> Some a
      | (None, found') \<Rightarrow> scan_interfaces K function_index intfs found')"

text \<open>The error, or the function.\<close>

definition find_acm_data_interface :: "up_env \<Rightarrow> libusb \<Rightarrow> nat \<Rightarrow> u32 \<Rightarrow> (int + acm) up_prog" where
  "find_acm_data_interface E K handle function_index = do {
     c \<leftarrow> call E (GetActiveConfig handle);
     case c of
       UConfig ret intfs \<Rightarrow>
         if ret \<noteq> LIBUSB_SUCCESS K then return (Inl ret)
         else do {
           exec E FreeConfig;
           return (case scan_interfaces K function_index intfs 0 of Some a \<Rightarrow> Inr a | None \<Rightarrow> Inl (LIBUSB_ERROR_NOT_FOUND K))
         }
     | _ \<Rightarrow> return (Inl (LIBUSB_ERROR_NOT_FOUND K))
   }"

definition control :: "up_env \<Rightarrow> libusb \<Rightarrow> u8 \<Rightarrow> u16 \<Rightarrow> int \<Rightarrow> u8 list \<Rightarrow> int up_prog" where
  "control E K request value intf bs = do {
     r \<leftarrow> call E (ControlTransfer (LIBUSB_REQUEST_CLASS_INTERFACE K) request value (word_of_int intf) bs);
     return (uret r)
   }"

definition configure_acm :: "up_env \<Rightarrow> libusb \<Rightarrow> int \<Rightarrow> int up_prog" where
  "configure_acm E K intf = do {
     let line_coding = [0x00, 0xc2, 0x01, 0x00, 0x00, 0x00, 0x08];
     ret \<leftarrow> control E K 0x20 0 intf line_coding;
     if ret \<noteq> int (length line_coding) then return (if ret < 0 then ret else LIBUSB_ERROR_IO K)
     else do {
       ret \<leftarrow> control E K 0x22 3 intf [];
       return (if ret < 0 then ret else LIBUSB_SUCCESS K)
     }
   }"

section \<open>The program\<close>

record pty_args =
  arg_vid :: u16
  arg_pid :: u16
  arg_function :: u32

text \<open>The exit status, or the arguments.\<close>

fun parse_opts :: "(char \<times> u64 \<times> bool) list \<Rightarrow> pty_args \<Rightarrow> int + pty_args" where
  "parse_opts [] a = Inr a"
| "parse_opts ((opt, val, clean) # os) a =
     (if opt = CHR ''h'' then Inl 0
      else if opt \<noteq> CHR ''f'' \<and> opt \<noteq> CHR ''v'' \<and> opt \<noteq> CHR ''p'' then Inl 1
      else if \<not> clean \<or> (opt = CHR ''f'' \<and> 255 < val) \<or> (opt \<noteq> CHR ''f'' \<and> 0xFFFF < val) then Inl 1
      else if opt = CHR ''f'' then parse_opts os (a\<lparr>arg_function := ucast val\<rparr>)
      else if opt = CHR ''v'' then parse_opts os (a\<lparr>arg_vid := ucast val\<rparr>)
      else parse_opts os (a\<lparr>arg_pid := ucast val\<rparr>))"

definition mark_failed :: "unit up_prog" where
  "mark_failed = modd (\<lambda>b. b\<lparr>failed := True\<rparr>)"

fun pty_to_usb :: "nat \<Rightarrow> up_env \<Rightarrow> libusb \<Rightarrow> u8 \<Rightarrow> (unit option) up_prog" where
  "pty_to_usb 0 E K ep = return None"
| "pty_to_usb (Suc fuel) E K ep = do {
     load_flags E;
     b \<leftarrow> getd;
     if stop b then return (Some ())
     else do {
       p \<leftarrow> call E Poll;
       case p of
         UPoll ret eintr pollin \<Rightarrow>
           if ret < 0 then (if eintr then pty_to_usb fuel E K ep else do { mark_failed; return (Some ()) })
           else if ret = 0 \<or> \<not> pollin then pty_to_usb fuel E K ep
           else do {
             r \<leftarrow> call E (PtyRead BUFFER_SIZE);
             case r of
               UBytes bs \<Rightarrow>
                 (let bs = take BUFFER_SIZE bs
                  in if bs = [] then pty_to_usb fuel E K ep
                     else do {
                       t \<leftarrow> call E (BulkOut ep bs);
                       case t of
                         UOut ret n \<Rightarrow>
                           if ret \<noteq> LIBUSB_SUCCESS K \<or> n \<noteq> length bs then do { mark_failed; return (Some ()) }
                           else pty_to_usb fuel E K ep
                       | _ \<Rightarrow> do { mark_failed; return (Some ()) }
                     })
             | UErr e \<Rightarrow> if e = EINTR \<or> e = EIO then pty_to_usb fuel E K ep else do { mark_failed; return (Some ()) }
             | _ \<Rightarrow> do { mark_failed; return (Some ()) }
           }
       | _ \<Rightarrow> do { mark_failed; return (Some ()) }
     }
   }"

definition out_usb :: "up_env \<Rightarrow> int \<Rightarrow> (int option) up_prog" where
  "out_usb E status = do { exec E LibusbExit; return (Some status) }"

definition out_handle :: "up_env \<Rightarrow> nat \<Rightarrow> int \<Rightarrow> (int option) up_prog" where
  "out_handle E handle status = do { exec E (CloseDevice handle); out_usb E status }"

definition out_control :: "up_env \<Rightarrow> nat \<Rightarrow> acm \<Rightarrow> int \<Rightarrow> (int option) up_prog" where
  "out_control E handle a status = do { exec E (ReleaseInterface (control_interface a)); out_handle E handle status }"

definition out_data :: "up_env \<Rightarrow> nat \<Rightarrow> acm \<Rightarrow> int \<Rightarrow> (int option) up_prog" where
  "out_data E handle a status = do { exec E (ReleaseInterface (data_interface a)); out_control E handle a status }"

definition out_dtr :: "up_env \<Rightarrow> libusb \<Rightarrow> nat \<Rightarrow> acm \<Rightarrow> int \<Rightarrow> (int option) up_prog" where
  "out_dtr E K handle a status = do { control E K 0x22 0 (control_interface a) []; out_data E handle a status }"

definition out_pty :: "up_env \<Rightarrow> libusb \<Rightarrow> nat \<Rightarrow> acm \<Rightarrow> int \<Rightarrow> (int option) up_prog" where
  "out_pty E K handle a status = do { exec E ClosePty; exec E ClosePty; out_dtr E K handle a status }"

text \<open>The copying, once the terminal is open.\<close>

definition run_bridge :: "nat \<Rightarrow> up_env \<Rightarrow> libusb \<Rightarrow> nat \<Rightarrow> acm \<Rightarrow> (int option) up_prog" where
  "run_bridge fuel E K handle a = do {
     r \<leftarrow> call E Tcgetattr;
     if uret r \<noteq> 0 then out_pty E K handle a 1
     else do {
       r \<leftarrow> call E Tcsetattr;
       if uret r \<noteq> 0 then out_pty E K handle a 1
       else do {
         exec E SignalHandlers;
         r \<leftarrow> call E PthreadCreate;
         if uret r \<noteq> 0 then out_pty E K handle a 1
         else do {
           exec E PrintName;
           l \<leftarrow> pty_to_usb fuel E K (ep_out a);
           case l of
             None \<Rightarrow> return None
           | Some _ \<Rightarrow> do {
               load_flags E;
               b \<leftarrow> getd;
               let status = (if failed b then 1 else 0);
               modd (\<lambda>b. b\<lparr>stop := True\<rparr>);
               exec E PthreadJoin;
               out_pty E K handle a status
             }
         }
       }
     }
   }"

definition run_handle :: "nat \<Rightarrow> up_env \<Rightarrow> libusb \<Rightarrow> nat \<Rightarrow> u32 \<Rightarrow> (int option) up_prog" where
  "run_handle fuel E K handle function_index = do {
     f \<leftarrow> find_acm_data_interface E K handle function_index;
     case f of
       Inl e \<Rightarrow> out_handle E handle 1
     | Inr a \<Rightarrow> do {
         exec E (SetAutoDetach handle);
         r \<leftarrow> call E (ClaimInterface (control_interface a));
         if uret r \<noteq> LIBUSB_SUCCESS K then out_handle E handle 1
         else do {
           r \<leftarrow> call E (ClaimInterface (data_interface a));
           if uret r \<noteq> LIBUSB_SUCCESS K then out_control E handle a 1
           else do {
             ret \<leftarrow> configure_acm E K (control_interface a);
             if ret \<noteq> LIBUSB_SUCCESS K then out_data E handle a 1
             else do {
               r \<leftarrow> call E OpenPty;
               if uret r \<noteq> 0 then out_dtr E K handle a 1
               else run_bridge fuel E K handle a
             }
           }
         }
       }
   }"

definition pty_main :: "nat \<Rightarrow> up_env \<Rightarrow> libusb \<Rightarrow> (char \<times> u64 \<times> bool) list \<Rightarrow> bool \<Rightarrow> (int option) up_prog" where
  "pty_main fuel E K opts more_args =
     (case parse_opts opts \<lparr>arg_vid = DEFAULT_VID, arg_pid = DEFAULT_PID, arg_function = 0\<rparr> of
        Inl status \<Rightarrow> return (Some status)
      | Inr a \<Rightarrow>
          if more_args then return (Some 1)
          else do {
            r \<leftarrow> call E LibusbInit;
            if uret r \<noteq> LIBUSB_SUCCESS K then return (Some 1)
            else do {
              h \<leftarrow> open_diagnostic E K (arg_vid a) (arg_pid a);
              case h of
                None \<Rightarrow> out_usb E 1
              | Some handle \<Rightarrow> run_handle fuel E K handle (arg_function a)
            }
          })"

section \<open>The interface that is chosen\<close>

definition acm_of :: "libusb \<Rightarrow> alt_desc \<Rightarrow> acm option" where
  "acm_of K alt = (case bulk_endpoints K (endpoints alt) (0, 0) of (i, out) \<Rightarrow>
     if i = 0 \<or> out = 0 then None
     else Some \<lparr>control_interface = uint (bInterfaceNumber alt) - 1, data_interface = uint (bInterfaceNumber alt), ep_in = i, ep_out = out\<rparr>)"

text \<open>Once the count has passed the index, nothing is found any rest.\<close>

lemma scan_settings_past:
  "unat idx < unat found \<Longrightarrow> unat found + length alts < 2 ^ 32 \<Longrightarrow>
    \<exists>f'. scan_settings K idx alts found = (None, f') \<and> unat idx < unat f' \<and> unat f' \<le> unat found + length alts"
proof (induction alts arbitrary: found)
  case (Cons alt alts)
  have s: "unat (found + 1) = unat found + 1" using Cons.prems(2) by (simp add: unat_word_ariths)
  have ne: "found \<noteq> idx" using Cons.prems(1) by auto
  show ?case
  proof (cases "is_data K alt")
    case True
    with Cons.IH [of "found + 1"] Cons.prems s ne show ?thesis by auto
  next
    case False
    with Cons.IH [of found] Cons.prems show ?thesis by auto
  qed
qed auto

lemma scan_interfaces_past:
  "unat idx < unat found \<Longrightarrow> unat found + length (concat intfs) < 2 ^ 32 \<Longrightarrow> scan_interfaces K idx intfs found = None"
proof (induction intfs arbitrary: found)
  case (Cons intf intfs)
  from scan_settings_past [OF Cons.prems(1), of intf K] Cons.prems(2) obtain f' where
    f: "scan_settings K idx intf found = (None, f')" "unat idx < unat f'" "unat f' \<le> unat found + length intf" by auto
  then show ?case using Cons.IH [of f'] Cons.prems(2) by simp
qed simp

text \<open>One interface: the wanted setting is in it, or the count goes on.\<close>

lemma scan_settings_nth:
  "unat found \<le> unat idx \<Longrightarrow> unat found + length alts < 2 ^ 32 \<Longrightarrow>
    (let ds = filter (is_data K) alts; k = unat idx - unat found
     in if k < length ds then \<exists>f'. scan_settings K idx alts found = (acm_of K (ds ! k), f') \<and> unat idx < unat f' \<and> unat f' \<le> unat found + length alts
        else \<exists>f'. scan_settings K idx alts found = (None, f') \<and> unat f' = unat found + length ds \<and> unat f' \<le> unat idx)"
proof (induction alts arbitrary: found)
  case (Cons alt alts)
  have s: "unat (found + 1) = unat found + 1" using Cons.prems(2) by (simp add: unat_word_ariths)
  consider (other) "\<not> is_data K alt" | (before) "is_data K alt" "found \<noteq> idx" | (here) "is_data K alt" "found = idx" by blast
  then show ?case
  proof cases
    case other
    with Cons.IH [of found] Cons.prems show ?thesis by (auto simp: Let_def)
  next
    case before
    then have l: "unat found < unat idx" using Cons.prems(1) by (metis le_neq_implies_less word_unat_eq_iff)
    then have k: "unat idx - unat found = Suc (unat idx - unat (found + 1))" using s by simp
    show ?thesis
      using Cons.IH [of "found + 1"] Cons.prems l before s k by (auto simp: Let_def)
  next
    case here
    then show ?thesis using s by (auto simp: Let_def acm_of_def split: prod.splits)
  qed
qed (simp add: Let_def)

lemma scan_interfaces_nth:
  "unat found \<le> unat idx \<Longrightarrow> unat found + length (concat intfs) < 2 ^ 32 \<Longrightarrow>
    scan_interfaces K idx intfs found =
      (let ds = filter (is_data K) (concat intfs); k = unat idx - unat found in if k < length ds then acm_of K (ds ! k) else None)"
proof (induction intfs arbitrary: found)
  case (Cons intf intfs)
  let ?ds = "filter (is_data K) intf"
  let ?k = "unat idx - unat found"
  have b: "unat found + length intf < 2 ^ 32" using Cons.prems(2) by simp
  note n = scan_settings_nth [OF Cons.prems(1) b, of K, unfolded Let_def]
  show ?case
  proof (cases "?k < length ?ds")
    case True
    with n obtain f' where f: "scan_settings K idx intf found = (acm_of K (?ds ! ?k), f')" "unat idx < unat f'" "unat f' \<le> unat found + length intf" by auto
    have "scan_interfaces K idx intfs f' = None" by (rule scan_interfaces_past [OF f(2)]) (use f(3) Cons.prems(2) in simp)
    with f(1) True show ?thesis by (cases "acm_of K (?ds ! ?k)") (simp_all add: Let_def nth_append)
  next
    case False
    with n obtain f' where f: "scan_settings K idx intf found = (None, f')" "unat f' = unat found + length ?ds" "unat f' \<le> unat idx" by auto
    have "unat found + (length intf + length (concat intfs)) < 2 ^ 32" using Cons.prems(2) by simp
    then have "unat f' + length (concat intfs) < 2 ^ 32" using f(2) length_filter_le [of "is_data K" intf] by linarith
    from Cons.IH [OF f(3) this] f False show ?thesis by (auto simp: Let_def nth_append)
  qed
qed (simp add: Let_def)

text \<open>The wanted function is the one that is claimed. With function number n, the result is made of the n-th setting, over all interfaces in order, that is a data interface in its default setting,
  if there is one and it has bulk endpoints in both directions; otherwise nothing is found.\<close>

theorem interface_is_nth:
  assumes "length (concat intfs) < 2 ^ 32"
  shows "scan_interfaces K idx intfs 0 =
    (let ds = filter (is_data K) (concat intfs) in if unat idx < length ds then acm_of K (ds ! unat idx) else None)"
  using scan_interfaces_nth [of 0 idx intfs K] assms by (simp add: Let_def)

section \<open>What is copied\<close>

text \<open>Bytes that came in over USB and were taken by the terminal, and the other way round.\<close>

fun usb_in :: "libusb \<Rightarrow> up_req \<times> up_resp \<Rightarrow> u8 list" where
  "usb_in K (BulkIn ep n, UIn ret bs) = (if ret = LIBUSB_SUCCESS K then take n bs else [])"
| "usb_in K x = []"

fun pty_out :: "up_req \<times> up_resp \<Rightarrow> u8 list" where
  "pty_out (PtyWrite bs, URet n) = take (nat n) bs"
| "pty_out x = []"

fun pty_in :: "up_req \<times> up_resp \<Rightarrow> u8 list" where
  "pty_in (PtyRead n, UBytes bs) = take n bs"
| "pty_in x = []"

fun usb_out :: "libusb \<Rightarrow> up_req \<times> up_resp \<Rightarrow> u8 list" where
  "usb_out K (BulkOut ep bs, UOut ret n) = (if ret = LIBUSB_SUCCESS K then take n bs else [])"
| "usb_out K x = []"

definition stream :: "(up_req \<times> up_resp \<Rightarrow> u8 list) \<Rightarrow> (up_req \<times> up_resp) list \<Rightarrow> u8 list" where
  "stream f h = concat (map f h)"

lemma stream_simps [simp]: "stream f [] = []" "stream f (x # h) = f x @ stream f h" "stream f (h @ k) = stream f h @ stream f k"
  by (simp_all add: stream_def)

text \<open>What a write takes is the buffer, or a part of it when it fails.\<close>

definition wrote :: "libusb \<Rightarrow> u8 list \<Rightarrow> up_world \<Rightarrow> int option \<Rightarrow> up_world \<Rightarrow> bool" where
  "wrote K bs w r w' \<longleftrightarrow> drv w' = drv w \<and> (\<exists>k rest. hist w' = hist w @ k \<and> stream (usb_in K) k = [] \<and> stream pty_out k @ rest = bs \<and> (r = Some 0 \<longrightarrow> rest = []))"

lemma wrote_step:
  assumes "wrote K (drop (length d) bs) v r w'" and "drv v = drv w" and "hist v = hist w @ [x]" and "usb_in K x = []" and "pty_out x = d" and "take (length d) bs = d"
  shows "wrote K bs w r w'"
proof -
  from assms(1) obtain k rest where k: "drv w' = drv v" "hist w' = hist v @ k" "stream (usb_in K) k = []" "stream pty_out k @ rest = drop (length d) bs" "r = Some 0 \<longrightarrow> rest = []"
    unfolding wrote_def by blast
  have "stream pty_out (x # k) @ rest = bs" using k(4) assms(5,6) by simp (metis append_take_drop_id)
  then show ?thesis
    unfolding wrote_def using k assms(2-4) by (intro conjI exI [of _ "x # k"] exI [of _ rest]) simp_all
qed

lemma wrote_stop: "n \<noteq> Some 0 \<Longrightarrow> drv w' = drv w \<Longrightarrow> hist w' = hist w @ [x] \<Longrightarrow> usb_in K x = [] \<Longrightarrow> pty_out x = [] \<Longrightarrow> wrote K bs w n w'"
  unfolding wrote_def by (intro conjI exI [of _ "[x]"] exI [of _ bs]) simp_all

lemma write_all_copies: "wp (write_all fuel E bs) (wrote K bs w) w"
proof (induction fuel arbitrary: bs w)
  case 0
  show ?case by (cases bs) (auto simp: wp_simps wrote_def)
next
  case (Suc fuel)
  show ?case
  proof (cases bs)
    case Nil
    then show ?thesis by (auto simp: wp_simps wrote_def)
  next
    case (Cons b cs)
    let ?q = "PtyWrite (b # cs)"
    have stop: "wp (return (Some (- 1))) (wrote K (b # cs) w) v" if "hist v = hist w @ [(?q, r)]" "drv v = drv w" "pty_out (?q, r) = []" for v :: up_world and r
      by (rule wp_returnI, rule wrote_stop [OF _ that(2,1)]) (use that(3) in simp_all)
    show ?thesis
      unfolding Cons write_all.simps
    proof (rule wp_bindI, rule wp_call_step)
      fix r and v :: up_world
      assume v: "hist v = hist w @ [(?q, r)]" "drv v = drv w"
      have again: "wp (write_all fuel E (drop (length d) (b # cs))) (wrote K (b # cs) w) v" if "pty_out (?q, r) = d" "take (length d) (b # cs) = d" for d
        by (rule wp_mono [OF Suc.IH]) (erule wrote_step [OF _ v(2,1) _ that], simp)
      show "wp (case r of URet n \<Rightarrow> if 0 < n then write_all fuel E (drop (min (nat n) (length (b # cs))) (b # cs)) else return (Some (- 1))
          | UErr e \<Rightarrow> if e = EINTR then write_all fuel E (b # cs) else return (Some (- 1)) | _ \<Rightarrow> return (Some (- 1))) (wrote K (b # cs) w) v"
      proof (cases r)
        case (URet n)
        have l: "length (take (nat n) (b # cs)) = min (nat n) (length (b # cs))" by simp
        have tk: "take (length (take m xs)) xs = take m xs" for m and xs :: "u8 list" by (simp add: min_def)
        have "wp (write_all fuel E (drop (min (nat n) (length (b # cs))) (b # cs))) (wrote K (b # cs) w) v"
          unfolding l [symmetric] by (rule again [OF _ tk]) (simp add: URet)
        then show ?thesis using URet stop [OF v] by simp
      next
        case (UErr e)
        then show ?thesis using again [of "[]"] stop [OF v] by simp
      qed (use stop [OF v] in simp_all)
    qed
  qed
qed

text \<open>After the reader stopped: all bytes were written, or it failed.\<close>

definition copied :: "(up_req \<times> up_resp \<Rightarrow> u8 list) \<Rightarrow> (up_req \<times> up_resp \<Rightarrow> u8 list) \<Rightarrow> up_world \<Rightarrow> up_world \<Rightarrow> bool" where
  "copied src dst w w' \<longleftrightarrow> (\<exists>k rest. hist w' = hist w @ k \<and> stream src k = stream dst k @ rest \<and> (\<not> failed (drv w') \<longrightarrow> rest = []))"

lemma copied_step:
  assumes "copied src dst v w'" and "hist v = hist w @ k" and "stream src k = stream dst k"
  shows "copied src dst w w'"
proof -
  from assms(1) obtain k' rest where "hist w' = hist v @ k'" "stream src k' = stream dst k' @ rest" "\<not> failed (drv w') \<longrightarrow> rest = []" unfolding copied_def by blast
  then show ?thesis unfolding copied_def using assms(2,3) by (intro exI [of _ "k @ k'"] exI [of _ rest]) simp
qed

lemma copied_stop: "hist w' = hist w @ k \<Longrightarrow> stream src k = stream dst k @ rest \<Longrightarrow> \<not> failed (drv w') \<longrightarrow> rest = [] \<Longrightarrow> copied src dst w w'"
  unfolding copied_def by blast

lemma load_flags_step:
  fixes w :: up_world
  assumes "\<And>r v. hist v = hist w @ [(LoadFlags, r)] \<Longrightarrow> Q () v"
  shows "wp (load_flags E) Q w"
  unfolding load_flags_def by (rule wp_bindI, rule wp_call_step) (auto simp: wp_simps intro!: assms split: up_resp.splits)

lemma reader_copies:
  assumes to: "LIBUSB_ERROR_TIMEOUT K \<noteq> LIBUSB_SUCCESS K"
  shows "wp (usb_to_pty fuel E K ep) (\<lambda>r w'. r \<noteq> None \<longrightarrow> copied (usb_in K) pty_out w w') w"
proof (induction fuel arbitrary: w)
  case 0
  show ?case by (simp add: wp_simps)
next
  case (Suc fuel)
  let ?Q = "\<lambda>r w'. r \<noteq> None \<longrightarrow> copied (usb_in K) pty_out w w'"
  have again: "wp (usb_to_pty fuel E K ep) ?Q v" if "hist v = hist w @ k" "stream (usb_in K) k = stream pty_out k" for v k
    by (rule wp_mono [OF Suc.IH]) (use copied_step [OF _ that] in blast)
  have quit: "wp (State_Monad.bind give_up (\<lambda>_. return (Some ()))) ?Q v" if "hist v = hist w @ k" "stream (usb_in K) k = stream pty_out k @ xs" for v k xs
    unfolding give_up_def by (rule wp_bindI, rule wp_modd_step, rule wp_returnI) (auto intro!: copied_stop [OF _ that(2)] simp: that(1))
  have wr: "wp (State_Monad.bind (write_all fuel E bs) (\<lambda>x. case x of None \<Rightarrow> return None | Some n \<Rightarrow> if n \<noteq> 0 then State_Monad.bind give_up (\<lambda>_. return (Some ())) else usb_to_pty fuel E K ep)) ?Q v"
    if v: "hist v = hist w @ k" "stream pty_out k = []" "stream (usb_in K) k = bs" for v k bs
  proof (rule wp_bindI, rule wp_mono [OF write_all_copies [where K = K]])
    fix r and v' :: up_world
    assume "wrote K bs v r v'"
    then obtain l rest where l: "hist v' = hist v @ l" "stream (usb_in K) l = []" "stream pty_out l @ rest = bs" "r = Some 0 \<longrightarrow> rest = []" unfolding wrote_def by blast
    have h: "hist v' = hist w @ (k @ l)" "stream (usb_in K) (k @ l) = stream pty_out (k @ l) @ rest" using v l by simp_all
    show "wp (case r of None \<Rightarrow> return None | Some n \<Rightarrow> if n \<noteq> 0 then State_Monad.bind give_up (\<lambda>_. return (Some ())) else usb_to_pty fuel E K ep) ?Q v'"
    proof (cases r)
      case None
      then show ?thesis by (simp add: wp_simps)
    next
      case (Some n)
      then show ?thesis using quit [OF h] again [OF h(1)] h(2) l(4) by simp
    qed
  qed
  show ?case
    unfolding usb_to_pty.simps
  proof (rule wp_bindI, rule load_flags_step, rule wp_bindI, rule wp_getdI, rule wp_ifI)
    fix r and v :: up_world
    assume v: "hist v = hist w @ [(LoadFlags, r)]"
    show "wp (return (Some ())) ?Q v"
      by (rule wp_returnI) (auto intro!: copied_stop [OF v, where rest = "[]"])
    show "wp (State_Monad.bind (call E (BulkIn ep BUFFER_SIZE)) (\<lambda>r. case r of
         UIn ret bs \<Rightarrow>
           if ret = LIBUSB_ERROR_TIMEOUT K then usb_to_pty fuel E K ep
           else if ret \<noteq> LIBUSB_SUCCESS K then State_Monad.bind give_up (\<lambda>_. return (Some ()))
           else State_Monad.bind (write_all fuel E (take BUFFER_SIZE bs)) (\<lambda>x. case x of None \<Rightarrow> return None | Some n \<Rightarrow> if n \<noteq> 0 then State_Monad.bind give_up (\<lambda>_. return (Some ())) else usb_to_pty fuel E K ep)
       | _ \<Rightarrow> State_Monad.bind give_up (\<lambda>_. return (Some ())))) ?Q v"
    proof (rule wp_bindI, rule wp_call_step)
      fix r' and v' :: up_world
      assume v': "hist v' = hist v @ [(BulkIn ep BUFFER_SIZE, r')]"
      then have h: "hist v' = hist w @ [(LoadFlags, r), (BulkIn ep BUFFER_SIZE, r')]" using v by simp
      show "wp (case r' of
         UIn ret bs \<Rightarrow>
           if ret = LIBUSB_ERROR_TIMEOUT K then usb_to_pty fuel E K ep
           else if ret \<noteq> LIBUSB_SUCCESS K then State_Monad.bind give_up (\<lambda>_. return (Some ()))
           else State_Monad.bind (write_all fuel E (take BUFFER_SIZE bs)) (\<lambda>x. case x of None \<Rightarrow> return None | Some n \<Rightarrow> if n \<noteq> 0 then State_Monad.bind give_up (\<lambda>_. return (Some ())) else usb_to_pty fuel E K ep)
       | _ \<Rightarrow> State_Monad.bind give_up (\<lambda>_. return (Some ()))) ?Q v'"
      proof (cases r')
        case (UIn ret bs)
        show ?thesis
          unfolding UIn up_resp.case
          by (intro wp_ifI) (use again [OF h] quit [OF h] wr [OF h] UIn to in \<open>auto split: if_splits\<close>)
      qed (use quit [OF h, of "[]"] in simp_all)
    qed
  qed
qed

text \<open>The answer to a write over USB: all of it, or a part and a failure.\<close>

definition after_out :: "nat \<Rightarrow> up_env \<Rightarrow> libusb \<Rightarrow> u8 \<Rightarrow> u8 list \<Rightarrow> up_resp \<Rightarrow> (unit option) up_prog" where
  "after_out fuel E K ep bs t = (case t of
       UOut ret n \<Rightarrow>
         if ret \<noteq> LIBUSB_SUCCESS K \<or> n \<noteq> length bs then do { mark_failed; return (Some ()) }
         else pty_to_usb fuel E K ep
     | _ \<Rightarrow> do { mark_failed; return (Some ()) })"

definition after_read :: "nat \<Rightarrow> up_env \<Rightarrow> libusb \<Rightarrow> u8 \<Rightarrow> up_resp \<Rightarrow> (unit option) up_prog" where
  "after_read fuel E K ep r = (case r of
       UBytes bs \<Rightarrow>
         (let bs = take BUFFER_SIZE bs
          in if bs = [] then pty_to_usb fuel E K ep
             else do { t \<leftarrow> call E (BulkOut ep bs); after_out fuel E K ep bs t })
     | UErr e \<Rightarrow> if e = EINTR \<or> e = EIO then pty_to_usb fuel E K ep else do { mark_failed; return (Some ()) }
     | _ \<Rightarrow> do { mark_failed; return (Some ()) })"

definition after_poll :: "nat \<Rightarrow> up_env \<Rightarrow> libusb \<Rightarrow> u8 \<Rightarrow> up_resp \<Rightarrow> (unit option) up_prog" where
  "after_poll fuel E K ep p = (case p of
       UPoll ret eintr pollin \<Rightarrow>
         if ret < 0 then (if eintr then pty_to_usb fuel E K ep else do { mark_failed; return (Some ()) })
         else if ret = 0 \<or> \<not> pollin then pty_to_usb fuel E K ep
         else do { r \<leftarrow> call E (PtyRead BUFFER_SIZE); after_read fuel E K ep r }
     | _ \<Rightarrow> do { mark_failed; return (Some ()) })"

lemma pty_to_usb_steps:
  "pty_to_usb (Suc fuel) E K ep = do { load_flags E; b \<leftarrow> getd; if stop b then return (Some ()) else do { p \<leftarrow> call E Poll; after_poll fuel E K ep p } }"
  unfolding pty_to_usb.simps after_poll_def after_read_def after_out_def ..

lemma writer_copies: "wp (pty_to_usb fuel E K ep) (\<lambda>r w'. r \<noteq> None \<longrightarrow> copied pty_in (usb_out K) w w') w"
proof (induction fuel arbitrary: w)
  case 0
  show ?case by (simp add: wp_simps)
next
  case (Suc fuel)
  let ?Q = "\<lambda>r w'. r \<noteq> None \<longrightarrow> copied pty_in (usb_out K) w w'"
  have again: "wp (pty_to_usb fuel E K ep) ?Q v" if "hist v = hist w @ k" "stream pty_in k = stream (usb_out K) k" for v k
    by (rule wp_mono [OF Suc.IH]) (use copied_step [OF _ that] in blast)
  have quit: "wp (State_Monad.bind mark_failed (\<lambda>_. return (Some ()))) ?Q v" if "hist v = hist w @ k" "stream pty_in k = stream (usb_out K) k @ xs" for v k xs
    unfolding mark_failed_def by (rule wp_bindI, rule wp_modd_step, rule wp_returnI) (auto intro!: copied_stop [OF _ that(2)] simp: that(1))
  have out: "wp (after_out fuel E K ep bs t) ?Q v"
    if v: "hist v = hist w @ (k @ [(BulkOut ep bs, t)])" "stream pty_in k = bs" "stream (usb_out K) k = []" for v k bs t
  proof (cases t)
    case (UOut ret n)
    have "stream pty_in (k @ [(BulkOut ep bs, t)]) = stream (usb_out K) (k @ [(BulkOut ep bs, t)]) @ (if ret = LIBUSB_SUCCESS K then drop n bs else bs)"
      using v(2,3) UOut by simp
    from quit [OF v(1) this] again [OF v(1)] v(2,3) UOut show ?thesis by (simp add: after_out_def)
  qed (use quit [OF v(1), of bs] v(2,3) in \<open>simp_all add: after_out_def\<close>)
  have rd: "wp (after_read fuel E K ep r) ?Q v" if v: "hist v = hist w @ (k @ [(PtyRead BUFFER_SIZE, r)])" "stream pty_in k = []" "stream (usb_out K) k = []" for v k r
  proof (cases r)
    case (UBytes bs)
    have "wp (State_Monad.bind (call E (BulkOut ep (take BUFFER_SIZE bs))) (after_out fuel E K ep (take BUFFER_SIZE bs))) ?Q v"
      by (rule wp_bindI, rule wp_call_step, rule out [of _ "k @ [(PtyRead BUFFER_SIZE, r)]"]) (use v UBytes in simp_all)
    then show ?thesis using again [OF v(1)] v(2,3) UBytes by (simp add: after_read_def Let_def)
  qed (use quit [OF v(1), of "[]"] again [OF v(1)] v(2,3) in \<open>simp_all add: after_read_def\<close>)
  have po: "wp (after_poll fuel E K ep p) ?Q v" if v: "hist v = hist w @ [(LoadFlags, r), (Poll, p)]" for v p r
  proof (cases p)
    case (UPoll ret eintr pollin)
    have "wp (State_Monad.bind (call E (PtyRead BUFFER_SIZE)) (after_read fuel E K ep)) ?Q v"
      by (rule wp_bindI, rule wp_call_step, rule rd [of _ "[(LoadFlags, r), (Poll, p)]"]) (use v in simp_all)
    then show ?thesis using again [OF v] quit [OF v, of "[]"] UPoll by (simp add: after_poll_def)
  qed (use quit [OF v, of "[]"] in \<open>simp_all add: after_poll_def\<close>)
  show ?case
    unfolding pty_to_usb_steps
    by (rule wp_bindI, rule load_flags_step, rule wp_bindI, rule wp_getdI, rule wp_ifI, rule wp_returnI, rule impI, erule copied_stop [where rest = "[]"], simp, simp,
        rule wp_bindI, rule wp_call_step, rule po) simp
qed

text \<open>C37. What goes in comes out. When the reader thread returns, the bytes the terminal took are those that the successful USB transfers delivered, in order and without loss, or the failure flag is set
  and the terminal took a first part of them; partial and interrupted writes change nothing. When the main loop returns, the same holds of the bytes read
  from the terminal and those sent over USB.\<close>

theorem bridge_copies:
  assumes "LIBUSB_ERROR_TIMEOUT K \<noteq> LIBUSB_SUCCESS K"
  shows "(run_state (usb_to_pty fuel E K ep) w = (Some (), w1) \<longrightarrow>
      (\<exists>k rest. hist w1 = hist w @ k \<and> stream (usb_in K) k = stream pty_out k @ rest \<and> (\<not> failed (drv w1) \<longrightarrow> rest = [])))
    \<and> (run_state (pty_to_usb fuel E K ep) w = (Some (), w2) \<longrightarrow>
      (\<exists>k rest. hist w2 = hist w @ k \<and> stream pty_in k = stream (usb_out K) k @ rest \<and> (\<not> failed (drv w2) \<longrightarrow> rest = [])))"
  using wpD [OF reader_copies [OF assms, of fuel E ep w]] wpD [OF writer_copies [of fuel E K ep w]] unfolding copied_def by blast

section \<open>What the program releases\<close>

datatype up_res = UsbContext | DeviceList | Device nat | Config | Interface int | PtyFd | Thread

definition udelta :: "libusb \<Rightarrow> up_res \<Rightarrow> up_req \<times> up_resp \<Rightarrow> int" where
  "udelta K x y =
     (case fst y of
        LibusbInit \<Rightarrow> if x = UsbContext \<and> uret (snd y) = LIBUSB_SUCCESS K then 1 else 0
      | LibusbExit \<Rightarrow> if x = UsbContext then - 1 else 0
      | GetDeviceList \<Rightarrow> if x = DeviceList \<and> (\<exists>n. snd y = UCount n \<and> 0 \<le> n) then 1 else 0
      | FreeDeviceList \<Rightarrow> if x = DeviceList then - 1 else 0
      | OpenDevice i \<Rightarrow> if x = Device i \<and> uret (snd y) = LIBUSB_SUCCESS K then 1 else 0
      | CloseDevice i \<Rightarrow> if x = Device i then - 1 else 0
      | GetActiveConfig i \<Rightarrow> if x = Config \<and> (\<exists>c. snd y = UConfig (LIBUSB_SUCCESS K) c) then 1 else 0
      | FreeConfig \<Rightarrow> if x = Config then - 1 else 0
      | ClaimInterface n \<Rightarrow> if x = Interface n \<and> uret (snd y) = LIBUSB_SUCCESS K then 1 else 0
      | ReleaseInterface n \<Rightarrow> if x = Interface n then - 1 else 0
      | OpenPty \<Rightarrow> if x = PtyFd \<and> uret (snd y) = 0 then 2 else 0
      | ClosePty \<Rightarrow> if x = PtyFd then - 1 else 0
      | PthreadCreate \<Rightarrow> if x = Thread \<and> uret (snd y) = 0 then 1 else 0
      | PthreadJoin \<Rightarrow> if x = Thread then - 1 else 0
      | _ \<Rightarrow> 0)"

definition uheld :: "libusb \<Rightarrow> (up_req \<times> up_resp) list \<Rightarrow> up_res \<Rightarrow> int" where
  "uheld K h x = sum_list (map (udelta K x) h)"

text \<open>Beside what \<open>B\<close> says, the resources of the list are held.\<close>

definition owes :: "libusb \<Rightarrow> (up_res \<Rightarrow> int) \<Rightarrow> up_res list \<Rightarrow> (up_req \<times> up_resp) list \<Rightarrow> bool" where
  "owes K B T h \<longleftrightarrow> (\<forall>x. uheld K h x = B x + (\<Sum>t \<leftarrow> T. if t = x then 1 else 0))"

lemma owes_none: "owes K B T h \<Longrightarrow> (\<And>x. udelta K x y = 0) \<Longrightarrow> owes K B T (h @ [y])"
  by (simp add: owes_def uheld_def)

lemma owes_take: "owes K B T h \<Longrightarrow> (\<And>x. udelta K x y = (if t = x then 1 else 0)) \<Longrightarrow> owes K B (t # T) (h @ [y])"
  by (simp add: owes_def uheld_def)

lemma owes_drop: "owes K B (t # T) h \<Longrightarrow> (\<And>x. udelta K x y = (if t = x then - 1 else 0)) \<Longrightarrow> owes K B T (h @ [y])"
  by (simp add: owes_def uheld_def)

text \<open>The ways out.\<close>

definition freed :: "libusb \<Rightarrow> (up_res \<Rightarrow> int) \<Rightarrow> int option \<Rightarrow> up_world \<Rightarrow> bool" where
  "freed K B r w \<longleftrightarrow> (r \<noteq> None \<longrightarrow> owes K B [] (hist w))"

lemma out_usb_frees: "owes K B [UsbContext] (hist w) \<Longrightarrow> wp (out_usb E s) (freed K B) w"
  unfolding out_usb_def by (rule wp_bindI, rule wp_exec_step, rule wp_returnI) (auto simp: freed_def udelta_def intro: owes_drop)

lemma out_handle_frees: "owes K B [Device h, UsbContext] (hist w) \<Longrightarrow> wp (out_handle E h s) (freed K B) w"
  unfolding out_handle_def by (rule wp_bindI, rule wp_exec_step, rule out_usb_frees) (auto simp: udelta_def intro: owes_drop)

lemma out_control_frees: "owes K B [Interface (control_interface a), Device h, UsbContext] (hist w) \<Longrightarrow> wp (out_control E h a s) (freed K B) w"
  unfolding out_control_def by (rule wp_bindI, rule wp_exec_step, rule out_handle_frees) (auto simp: udelta_def intro: owes_drop)

lemma out_data_frees:
  "owes K B [Interface (data_interface a), Interface (control_interface a), Device h, UsbContext] (hist w) \<Longrightarrow> wp (out_data E h a s) (freed K B) w"
  unfolding out_data_def by (rule wp_bindI, rule wp_exec_step, rule out_control_frees) (auto simp: udelta_def intro: owes_drop)

lemma out_dtr_frees:
  "owes K B [Interface (data_interface a), Interface (control_interface a), Device h, UsbContext] (hist w) \<Longrightarrow> wp (out_dtr E K h a s) (freed K B) w"
  unfolding out_dtr_def control_def
  by (rule wp_bindI, rule wp_bindI, rule wp_call_step, rule wp_returnI, rule out_data_frees) (auto simp: udelta_def intro: owes_none)

lemma out_pty_frees:
  "owes K B [PtyFd, PtyFd, Interface (data_interface a), Interface (control_interface a), Device h, UsbContext] (hist w) \<Longrightarrow> wp (out_pty E K h a s) (freed K B) w"
  unfolding out_pty_def
  by (rule wp_bindI, rule wp_exec_step, rule wp_bindI, rule wp_exec_step, rule out_dtr_frees) (simp add: owes_def uheld_def udelta_def)

text \<open>Requests that take and release nothing.\<close>

definition neutral :: "up_req \<Rightarrow> bool" where
  "neutral q \<longleftrightarrow> q \<in> {LoadFlags, Poll, SignalHandlers, Tcgetattr, Tcsetattr, PrintName} \<or> (\<exists>n. q = PtyRead n) \<or> (\<exists>ep bs. q = BulkOut ep bs)
     \<or> (\<exists>a b c d e. q = ControlTransfer a b c d e)"

lemma neutral_delta: "neutral q \<Longrightarrow> udelta K x (q, r) = 0"
  by (cases q) (simp_all add: udelta_def neutral_def)

lemma neutral_held: "list_all neutral (reqs new) \<Longrightarrow> uheld K new x = 0"
proof (induction new)
  case Nil
  show ?case by (simp add: uheld_def)
next
  case (Cons y new)
  obtain q r where y: "y = (q, r)" by (cases y)
  have "udelta K x y = 0" using Cons.prems unfolding y by (intro neutral_delta) simp
  then show ?case using Cons by (simp add: uheld_def)
qed

lemma neutral_owes:
  assumes "emits neutral m" and "owes K B T (hist w)"
  shows "wp m (\<lambda>_ w'. owes K B T (hist w')) w"
proof (rule wp_mono [OF emits_wp [OF assms(1)]])
  fix w'
  assume "\<exists>new. hist w' = hist w @ new \<and> list_all neutral (reqs new)"
  then obtain new where n: "hist w' = hist w @ new" "list_all neutral (reqs new)" by blast
  have "uheld K (hist w') x = uheld K (hist w) x" for x using neutral_held [OF n(2), of K x] n(1) by (simp add: uheld_def)
  then show "owes K B T (hist w')" using assms(2) by (simp add: owes_def)
qed

lemma emits_neutral [emits_intros]:
  "emits neutral (load_flags E)" "emits neutral (control E K q v i bs)" "emits neutral (State_Monad.bind mark_failed (\<lambda>_. return x))"
  unfolding load_flags_def control_def mark_failed_def
  by (intro emits_intros, simp add: neutral_def, simp split: up_resp.splits add: emits_modd emits_return) (intro emits_intros | simp add: neutral_def)+

lemma emits_pty_to_usb: "emits neutral (pty_to_usb fuel E K ep)"
proof (induction fuel)
  case 0
  show ?case by (simp add: emits_return)
next
  case (Suc fuel)
  have n: "neutral Poll" "neutral (PtyRead n)" "neutral (BulkOut e bs)" for n e bs by (simp_all add: neutral_def)
  have o: "emits neutral (after_out fuel E K ep bs t)" for bs t
    unfolding after_out_def by (auto intro!: emits_intros Suc.IH split: up_resp.splits)
  have r: "emits neutral (after_read fuel E K ep r)" for r
    unfolding after_read_def Let_def by (auto intro!: emits_intros Suc.IH o n split: up_resp.splits)
  have p: "emits neutral (after_poll fuel E K ep p)" for p
    unfolding after_poll_def by (auto intro!: emits_intros Suc.IH r n split: up_resp.splits)
  show ?case unfolding pty_to_usb_steps by (intro emits_intros p n)
qed

text \<open>One request at a time: it takes a resource when its answer says so, gives one back, or does neither.\<close>

lemma owes_neutral_step:
  fixes w :: up_world
  assumes "owes K B T (hist w)" and "neutral q" and "\<And>r v. owes K B T (hist v) \<Longrightarrow> wp (f r) Q v"
  shows "wp (State_Monad.bind (call E q) f) Q w"
proof (rule wp_bindI, rule wp_call_step, rule assms(3))
  fix r and v :: up_world
  assume "hist v = hist w @ [(q, r)]"
  then show "owes K B T (hist v)" by (simp add: owes_none [OF assms(1)] neutral_delta [OF assms(2)])
qed

lemma owes_exec_step:
  fixes w :: up_world
  assumes "\<And>r. owes K B U (hist w @ [(q, r)])" and "\<And>v. owes K B U (hist v) \<Longrightarrow> wp (f ()) Q v"
  shows "wp (State_Monad.bind (exec E q) f) Q w"
proof (rule wp_bindI, rule wp_exec_step, rule assms(2))
  fix r and v :: up_world
  assume "hist v = hist w @ [(q, r)]"
  then show "owes K B U (hist v)" by (simp add: assms(1))
qed

lemma owes_take_step:
  fixes w :: up_world
  assumes "owes K B T (hist w)" and take: "\<And>x r. udelta K x (q, r) = (if P r \<and> t = x then 1 else 0)"
    and "\<And>r v. P r \<Longrightarrow> owes K B (t # T) (hist v) \<Longrightarrow> wp (f r) Q v" and "\<And>r v. \<not> P r \<Longrightarrow> owes K B T (hist v) \<Longrightarrow> wp (f r) Q v"
  shows "wp (State_Monad.bind (call E q) f) Q w"
proof (rule wp_bindI, rule wp_call_step)
  fix r and v :: up_world
  assume h: "hist v = hist w @ [(q, r)]"
  show "wp (f r) Q v"
  proof (cases "P r")
    case True
    have "owes K B (t # T) (hist v)" unfolding h by (rule owes_take [OF assms(1)]) (simp add: take True)
    then show ?thesis by (rule assms(3) [OF True])
  next
    case False
    have "owes K B T (hist v)" unfolding h by (rule owes_none [OF assms(1)]) (simp add: take False)
    then show ?thesis by (rule assms(4) [OF False])
  qed
qed

lemma run_bridge_frees:
  assumes "owes K B [PtyFd, PtyFd, Interface (data_interface a), Interface (control_interface a), Device h, UsbContext] (hist w)"
  shows "wp (run_bridge fuel E K h a) (freed K B) w"
proof -
  let ?T = "[PtyFd, PtyFd, Interface (data_interface a), Interface (control_interface a), Device h, UsbContext]"
  have n: "neutral Tcgetattr" "neutral Tcsetattr" "neutral SignalHandlers" "neutral PrintName" by (simp_all add: neutral_def)
  let ?join = "do { load_flags E; b \<leftarrow> getd; let s = (if failed b then 1 else 0); modd (\<lambda>b. b\<lparr>stop := True\<rparr>); exec E PthreadJoin; out_pty E K h a s }"
  let ?copy = "do { exec E PrintName; l \<leftarrow> pty_to_usb fuel E K (ep_out a); case l of None \<Rightarrow> return None | Some _ \<Rightarrow> ?join }"
  have joined: "wp ?join (freed K B) v" if "owes K B (Thread # ?T) (hist v)" for v
    by (rule wp_bindI, rule wp_mono [OF neutral_owes [OF emits_neutral(1) that]], rule wp_bindI, rule wp_getdI, rule wp_letI, rule wp_bindI, rule wp_modd_step, rule wp_bindI,
      rule wp_exec_step, rule out_pty_frees) (auto simp: udelta_def intro: owes_drop)
  have copying: "wp ?copy (freed K B) v" if "owes K B (Thread # ?T) (hist v)" for v
    by (rule owes_exec_step [OF owes_none [OF that neutral_delta [OF n(4)]]], rule wp_bindI, rule wp_mono [OF neutral_owes [OF emits_pty_to_usb]], assumption,
      rule wp_case_optionI, rule wp_returnI, simp add: freed_def) (rule joined)
  have started: "wp (do { r \<leftarrow> call E PthreadCreate; if uret r \<noteq> 0 then out_pty E K h a 1 else ?copy }) (freed K B) v" if "owes K B ?T (hist v)" for v
  proof (rule owes_take_step [OF that, where P = "\<lambda>r. uret r = 0" and t = Thread])
    show "udelta K x (PthreadCreate, r) = (if uret r = 0 \<and> Thread = x then 1 else 0)" for x r by (auto simp: udelta_def)
  qed (rule wp_ifI, simp, erule copying, rule wp_ifI, erule out_pty_frees, simp)
  show ?thesis
    unfolding run_bridge_def
    by (rule owes_neutral_step [OF assms n(1)], rule wp_ifI, erule out_pty_frees, rule owes_neutral_step [OF _ n(2)], assumption, rule wp_ifI, erule out_pty_frees,
      rule owes_exec_step, rule owes_none, assumption, rule neutral_delta [OF n(3)], rule started)
qed

text \<open>The interface search takes and frees a configuration; the claims, the line coding and the terminal follow.\<close>

lemma find_acm_owes:
  assumes "owes K B T (hist w)"
  shows "wp (find_acm_data_interface E K h i) (\<lambda>_ w'. owes K B T (hist w')) w"
  unfolding find_acm_data_interface_def
proof (rule owes_take_step [OF assms, where P = "\<lambda>r. \<exists>c. r = UConfig (LIBUSB_SUCCESS K) c" and t = Config])
  show "udelta K x (GetActiveConfig h, r) = (if (\<exists>c. r = UConfig (LIBUSB_SUCCESS K) c) \<and> Config = x then 1 else 0)" for x r by (auto simp: udelta_def)
next
  fix r and v :: up_world
  assume p: "\<exists>c. r = UConfig (LIBUSB_SUCCESS K) c" and o: "owes K B (Config # T) (hist v)"
  have d: "owes K B T (hist v @ [(FreeConfig, s)])" for s by (rule owes_drop [OF o]) (simp add: udelta_def)
  from p obtain c where r: "r = UConfig (LIBUSB_SUCCESS K) c" by blast
  show "wp (case r of UConfig ret intfs \<Rightarrow> if ret \<noteq> LIBUSB_SUCCESS K then return (Inl ret) else do { exec E FreeConfig;
           return (case scan_interfaces K i intfs 0 of Some a \<Rightarrow> Inr a | None \<Rightarrow> Inl (LIBUSB_ERROR_NOT_FOUND K)) } | _ \<Rightarrow> return (Inl (LIBUSB_ERROR_NOT_FOUND K)))
        (\<lambda>_ w'. owes K B T (hist w')) v"
    unfolding r up_resp.case using d by (simp add: wp_simps)
next
  fix r and v :: up_world
  assume "\<not> (\<exists>c. r = UConfig (LIBUSB_SUCCESS K) c)" and "owes K B T (hist v)"
  then show "wp (case r of UConfig ret intfs \<Rightarrow> if ret \<noteq> LIBUSB_SUCCESS K then return (Inl ret) else do { exec E FreeConfig;
           return (case scan_interfaces K i intfs 0 of Some a \<Rightarrow> Inr a | None \<Rightarrow> Inl (LIBUSB_ERROR_NOT_FOUND K)) } | _ \<Rightarrow> return (Inl (LIBUSB_ERROR_NOT_FOUND K)))
        (\<lambda>_ w'. owes K B T (hist w')) v"
    by (cases r) (auto simp: wp_simps)
qed

lemma emits_configure_acm: "emits neutral (configure_acm E K i)"
  unfolding configure_acm_def by (intro emits_intros emits_neutral)

lemma owes_opened:
  assumes "owes K B T h" and "uret r = 0"
  shows "owes K B (PtyFd # PtyFd # T) (h @ [(OpenPty, r)])"
  using assms by (simp add: owes_def uheld_def udelta_def)

lemma claim_delta: "udelta K x (ClaimInterface n, r) = (if uret r = LIBUSB_SUCCESS K \<and> Interface n = x then 1 else 0)"
  by (auto simp: udelta_def)

lemma run_handle_frees:
  assumes "owes K B [Device h, UsbContext] (hist w)"
  shows "wp (run_handle fuel E K h i) (freed K B) w"
proof -
  let ?open = "\<lambda>a. do { r \<leftarrow> call E OpenPty; if uret r \<noteq> 0 then out_dtr E K h a 1 else run_bridge fuel E K h a }"
  let ?line = "\<lambda>a. do { ret \<leftarrow> configure_acm E K (control_interface a); if ret \<noteq> LIBUSB_SUCCESS K then out_data E h a 1 else ?open a }"
  let ?data = "\<lambda>a. do { r \<leftarrow> call E (ClaimInterface (data_interface a)); if uret r \<noteq> LIBUSB_SUCCESS K then out_control E h a 1 else ?line a }"
  have opened: "wp (?open a) (freed K B) v" if "owes K B [Interface (data_interface a), Interface (control_interface a), Device h, UsbContext] (hist v)" for a v
  proof (rule wp_bindI, rule wp_call_step, rule wp_ifI)
    fix r and v' :: up_world
    assume e: "hist v' = hist v @ [(OpenPty, r)]"
    show "wp (out_dtr E K h a 1) (freed K B) v'" if "uret r \<noteq> 0"
      by (rule out_dtr_frees, unfold e, rule owes_none [OF \<open>owes K B _ (hist v)\<close>]) (simp add: udelta_def that)
    show "wp (run_bridge fuel E K h a) (freed K B) v'" if "\<not> uret r \<noteq> 0"
      by (rule run_bridge_frees, unfold e, rule owes_opened [OF \<open>owes K B _ (hist v)\<close>]) (use that in simp)
  qed
  have lined: "wp (?line a) (freed K B) v" if "owes K B [Interface (data_interface a), Interface (control_interface a), Device h, UsbContext] (hist v)" for a v
    by (rule wp_bindI, rule wp_mono [OF neutral_owes [OF emits_configure_acm that]], rule wp_ifI, erule out_data_frees, erule opened)
  have claimed: "wp (?data a) (freed K B) v" if "owes K B [Interface (control_interface a), Device h, UsbContext] (hist v)" for a v
    by (rule owes_take_step [OF that, OF claim_delta], rule wp_ifI, simp, erule lined, rule wp_ifI, erule out_control_frees, simp)
  have d: "udelta K x (SetAutoDetach h, r) = 0" for x r by (simp add: udelta_def)
  show ?thesis
    unfolding run_handle_def
    by (rule wp_bindI, rule wp_mono [OF find_acm_owes [OF assms]], rule wp_case_sumI, erule out_handle_frees, rule owes_exec_step, rule owes_none, assumption, rule d,
      erule owes_take_step [OF _ claim_delta], rule wp_ifI, simp, erule claimed, rule wp_ifI, erule out_handle_frees, simp)
qed

text \<open>The device search closes what it does not keep.\<close>

definition kept_device :: "nat option \<Rightarrow> up_res list" where
  "kept_device m = (case m of None \<Rightarrow> [] | Some i \<Rightarrow> [Device i])"

lemma find_device_owes:
  assumes "owes K B T (hist w)"
  shows "wp (find_device E K vid pid is) (\<lambda>m w'. owes K B (kept_device m @ T) (hist w')) w"
  using assms
proof (induction "is" arbitrary: w)
  case Nil
  then show ?case by (simp add: wp_simps kept_device_def)
next
  case (Cons i "is")
  let ?Q = "\<lambda>m w'. owes K B (kept_device m @ T) (hist w')"
  let ?shut = "\<lambda>ok. if \<not> ok then do { exec E (CloseDevice i); find_device E K vid pid is } else return (Some i)"
  have n: "udelta K x (GetDescriptor i, r) = 0" "udelta K x (GetProduct i p, r) = 0" for x r p by (simp_all add: udelta_def)
  have o: "udelta K x (OpenDevice i, r) = (if uret r = LIBUSB_SUCCESS K \<and> Device i = x then 1 else 0)" for x r by (auto simp: udelta_def)
  have shut: "wp (?shut ok) ?Q v" if "owes K B (Device i # T) (hist v)" for ok v
  proof (rule wp_ifI, rule owes_exec_step, rule owes_drop [OF that])
    show "udelta K x (CloseDevice i, r) = (if Device i = x then - 1 else 0)" for x r by (auto simp: udelta_def)
  qed (erule Cons.IH, use that in \<open>simp add: wp_simps kept_device_def\<close>)
  have opened: "wp (do { ok \<leftarrow> (if p = 0 then return False else do { s \<leftarrow> call E (GetProduct i p); return (f s) }); ?shut ok }) ?Q v"
    if "owes K B (Device i # T) (hist v)" for p f v
    by (rule wp_bindI, rule wp_ifI, rule wp_returnI, rule shut [OF that], rule wp_bindI, rule wp_call_step, rule wp_returnI, rule shut) (simp add: owes_none [OF that] n)
  have tried: "wp (do { opn \<leftarrow> call E (OpenDevice i); if uret opn \<noteq> LIBUSB_SUCCESS K then find_device E K vid pid is
      else do { ok \<leftarrow> (if p = 0 then return False else do { s \<leftarrow> call E (GetProduct i p); return (f s) }); ?shut ok } }) ?Q v"
    if "owes K B T (hist v)" for p f v
    by (rule owes_take_step [OF that, OF o], rule wp_ifI, simp, erule opened, rule wp_ifI, erule Cons.IH, simp)
  show ?case
    unfolding find_device.simps
  proof (rule wp_bindI, rule wp_call_step)
    fix r and v :: up_world
    assume e: "hist v = hist w @ [(GetDescriptor i, r)]"
    have v: "owes K B T (hist v)" unfolding e by (rule owes_none [OF Cons.prems n(1)])
    note rest = Cons.IH [OF v]
    show "wp (case r of UDesc ret desc \<Rightarrow>
         if ret \<noteq> 0 \<or> idVendor desc \<noteq> vid \<or> idProduct desc \<noteq> pid then find_device E K vid pid is
         else do {
           opn \<leftarrow> call E (OpenDevice i);
           if uret opn \<noteq> LIBUSB_SUCCESS K then find_device E K vid pid is
           else do {
             ok \<leftarrow> (if iProduct desc = 0 then return False
                   else do {
                     s \<leftarrow> call E (GetProduct i (iProduct desc));
                     return (case s of UString n product \<Rightarrow> 0 \<le> n \<and> is_expected product | _ \<Rightarrow> False)
                   });
             ?shut ok
           }
         } | _ \<Rightarrow> find_device E K vid pid is) ?Q v"
    proof (cases r)
      case (UDesc ret desc)
      show ?thesis unfolding UDesc up_resp.case by (rule wp_ifI [OF rest tried [OF v]])
    qed (simp_all add: rest)
  qed
qed

lemma open_diagnostic_owes:
  assumes "owes K B T (hist w)"
  shows "wp (open_diagnostic E K vid pid) (\<lambda>m w'. owes K B (kept_device m @ T) (hist w')) w"
proof -
  have t: "udelta K x (GetDeviceList, r) = (if (\<exists>n. r = UCount n \<and> 0 \<le> n) \<and> DeviceList = x then 1 else 0)" for x r by (auto simp: udelta_def)
  have f: "owes K B (kept_device m @ T) (h @ [(FreeDeviceList, r)])" if "owes K B (kept_device m @ DeviceList # T) h" for m h r
    using that by (cases m) (simp_all add: owes_def uheld_def udelta_def kept_device_def)
  let ?Q = "\<lambda>m w'. owes K B (kept_device m @ T) (hist w')"
  have listed: "wp (do { m \<leftarrow> find_device E K vid pid xs; exec E FreeDeviceList; return m }) ?Q v" if "owes K B (DeviceList # T) (hist v)" for xs v
    by (rule wp_bindI, rule wp_mono [OF find_device_owes [OF that]], rule wp_bindI, rule wp_exec_step, rule wp_returnI) (simp add: f)
  show ?thesis
    unfolding open_diagnostic_def
  proof (rule owes_take_step [OF assms, OF t])
    show "wp (case r of UCount n \<Rightarrow> if n < 0 then return None else do { m \<leftarrow> find_device E K vid pid [0..<nat n]; exec E FreeDeviceList; return m }
        | _ \<Rightarrow> return None) ?Q v" if "\<exists>n. r = UCount n \<and> 0 \<le> n" "owes K B (DeviceList # T) (hist v)" for r v
      using that(1) listed [OF that(2)] by auto
    show "wp (case r of UCount n \<Rightarrow> if n < 0 then return None else do { m \<leftarrow> find_device E K vid pid [0..<nat n]; exec E FreeDeviceList; return m }
        | _ \<Rightarrow> return None) ?Q v" if "\<not> (\<exists>n. r = UCount n \<and> 0 \<le> n)" "owes K B T (hist v)" for r v
      using that by (cases r) (auto simp: wp_simps kept_device_def)
  qed
qed

lemma owes_start: "owes K (uheld K h) [] h"
  by (simp add: owes_def)

lemma pty_main_frees: "wp (pty_main fuel E K opts rest) (freed K (uheld K (hist w))) w"
proof (cases "parse_opts opts \<lparr>arg_vid = DEFAULT_VID, arg_pid = DEFAULT_PID, arg_function = 0\<rparr>")
  case (Inl s)
  then show ?thesis by (simp add: pty_main_def wp_simps freed_def owes_start)
next
  case (Inr a)
  let ?B = "uheld K (hist w)"
  have i: "udelta K x (LibusbInit, r) = (if uret r = LIBUSB_SUCCESS K \<and> UsbContext = x then 1 else 0)" for x r by (auto simp: udelta_def)
  have opened: "wp (do { h \<leftarrow> open_diagnostic E K v p; case h of None \<Rightarrow> out_usb E 1 | Some handle \<Rightarrow> run_handle fuel E K handle f }) (freed K ?B) u"
    if "owes K ?B [UsbContext] (hist u)" for v p f u
    by (rule wp_bindI, rule wp_mono [OF open_diagnostic_owes [OF that]], rule wp_case_optionI, rule out_usb_frees, simp add: kept_device_def, rule run_handle_frees) (simp add: kept_device_def)
  have none: "wp (return (Some 1)) (freed K ?B) u" if "owes K ?B [] (hist u)" for u :: up_world using that by (simp add: wp_simps freed_def)
  show ?thesis
    unfolding pty_main_def Inr sum.case
    by (rule wp_ifI, rule none [OF owes_start], rule owes_take_step [OF owes_start, OF i], rule wp_ifI, simp, erule opened, rule wp_ifI, erule none, simp)
qed

text \<open>C38. Nothing is left behind. However the program ends, with whatever status and at whatever step the environment makes it fail, the library context, the device list, the device, the configuration, the
  two interfaces, both ends of the terminal and the reader thread are held as often as before: whatever was taken has been given back.\<close>

theorem pty_releases:
  assumes "run_state (pty_main fuel E K opts rest) w = (Some status, w')"
  shows "uheld K (hist w') x = uheld K (hist w) x"
  using wpD [OF pty_main_frees assms] by (simp add: freed_def owes_def)

section \<open>The device that is opened\<close>

text \<open>A bus whose devices answer the same every time: descriptors, whether a device opens, product strings. The device wanted is the first with the right identity, that opens, and whose
  product string is readable and expected.\<close>

definition wanted :: "libusb \<Rightarrow> u16 \<Rightarrow> u16 \<Rightarrow> (nat \<Rightarrow> int \<times> device_desc) \<Rightarrow> (nat \<Rightarrow> int) \<Rightarrow> (nat \<Rightarrow> u8 \<Rightarrow> int \<times> string) \<Rightarrow> nat \<Rightarrow> bool" where
  "wanted K vid pid D P S i \<longleftrightarrow>
     fst (D i) = 0 \<and> idVendor (snd (D i)) = vid \<and> idProduct (snd (D i)) = pid \<and> P i = LIBUSB_SUCCESS K \<and> iProduct (snd (D i)) \<noteq> 0
     \<and> 0 \<le> fst (S i (iProduct (snd (D i)))) \<and> is_expected (snd (S i (iProduct (snd (D i)))))"

definition bus :: "up_env \<Rightarrow> (nat \<Rightarrow> int \<times> device_desc) \<Rightarrow> (nat \<Rightarrow> int) \<Rightarrow> (nat \<Rightarrow> u8 \<Rightarrow> int \<times> string) \<Rightarrow> bool" where
  "bus E D P S \<longleftrightarrow> (\<forall>h i n. E h (GetDescriptor i) = UDesc (fst (D i)) (snd (D i)) \<and> E h (OpenDevice i) = URet (P i) \<and> E h (GetProduct i n) = UString (fst (S i n)) (snd (S i n)))"

lemma find_device_first:
  assumes "bus E D P S"
  shows "wp (find_device E K vid pid is) (\<lambda>m _. m = find (wanted K vid pid D P S) is) w"
proof (induction "is" arbitrary: w)
  case Nil
  show ?case by (simp add: wp_simps)
next
  case (Cons i "is")
  have e: "E h (GetDescriptor i) = UDesc (fst (D i)) (snd (D i))" "E h (OpenDevice i) = URet (P i)" "E h (GetProduct i n) = UString (fst (S i n)) (snd (S i n))" for h n
    using assms by (auto simp: bus_def)
  show ?case
  proof (cases "fst (D i) \<noteq> 0 \<or> idVendor (snd (D i)) \<noteq> vid \<or> idProduct (snd (D i)) \<noteq> pid")
    case True
    then have "\<not> wanted K vid pid D P S i" by (auto simp: wanted_def)
    with True show ?thesis by (simp add: wp_simps e Cons.IH)
  next
    case False
    then have "wanted K vid pid D P S i \<longleftrightarrow> P i = LIBUSB_SUCCESS K \<and> iProduct (snd (D i)) \<noteq> 0
      \<and> 0 \<le> fst (S i (iProduct (snd (D i)))) \<and> is_expected (snd (S i (iProduct (snd (D i)))))" by (auto simp: wanted_def)
    with False show ?thesis by (simp add: wp_simps e Cons.IH)
  qed
qed

text \<open>C39. Only the diagnostic gadget is opened. On such a bus the search returns the first device of the list with the wanted vendor and product numbers, that opens, and whose product string is the
  expected one, and none when there is no such device; and beside that device it leaves nothing open and no list allocated.\<close>

theorem open_diagnostic_first:
  assumes "bus E D P S" and "\<And>h. E h GetDeviceList = UCount n" and "run_state (open_diagnostic E K vid pid) w = (m, w')"
  shows "m = find (wanted K vid pid D P S) [0..<nat n] \<and> uheld K (hist w') x = uheld K (hist w) x + (if \<exists>i. m = Some i \<and> x = Device i then 1 else 0)"
proof
  have "wp (open_diagnostic E K vid pid) (\<lambda>m _. m = find (wanted K vid pid D P S) [0..<nat n]) w"
    unfolding open_diagnostic_def
    by (simp add: wp_simps assms(2), intro impI, rule wp_mono [OF find_device_first [OF assms(1)]]) (simp add: wp_simps)
  from wpD [OF this assms(3)] show "m = find (wanted K vid pid D P S) [0..<nat n]" .
  show "uheld K (hist w') x = uheld K (hist w) x + (if \<exists>i. m = Some i \<and> x = Device i then 1 else 0)"
    using wpD [OF open_diagnostic_owes [OF owes_start] assms(3)] by (cases m) (auto simp: owes_def kept_device_def)
qed

section \<open>A gadget to try it on\<close>

definition pty_K :: libusb where
  "pty_K = \<lparr>LIBUSB_SUCCESS = 0, LIBUSB_ERROR_TIMEOUT = - 7, LIBUSB_ERROR_NOT_FOUND = - 5, LIBUSB_ERROR_IO = - 1, LIBUSB_CLASS_DATA = 10, LIBUSB_TRANSFER_TYPE_MASK = 3,
     LIBUSB_TRANSFER_TYPE_BULK = 2, LIBUSB_ENDPOINT_IN = 0x80, LIBUSB_REQUEST_CLASS_INTERFACE = 0x21\<rparr>"

text \<open>One function with a control and a data interface.\<close>

definition pty_intfs :: "alt_desc list list" where
  "pty_intfs = [[\<lparr>bAlternateSetting = 0, bInterfaceClass = 2, bInterfaceNumber = 0, endpoints = []\<rparr>],
     [\<lparr>bAlternateSetting = 0, bInterfaceClass = 10, bInterfaceNumber = 1, endpoints = [\<lparr>bmAttributes = 2, bEndpointAddress = 0x81\<rparr>, \<lparr>bmAttributes = 2, bEndpointAddress = 0x02\<rparr>]\<rparr>]]"

definition pty_D :: "nat \<Rightarrow> int \<times> device_desc" where
  "pty_D i = (0, \<lparr>idVendor = DEFAULT_VID, idProduct = (if i = 0 then 0 else DEFAULT_PID), iProduct = 2\<rparr>)"

definition pty_S :: "nat \<Rightarrow> u8 \<Rightarrow> int \<times> string" where
  "pty_S i n = (32, if i = 1 then ''m1n1 uartproxy'' else EXPECTED_PRODUCT)"

text \<open>Whether bytes have gone through; the environment then asks for the end.\<close>

fun moved :: "up_req \<times> up_resp \<Rightarrow> bool" where
  "moved (PtyWrite bs, r) = True"
| "moved (BulkOut ep bs, r) = True"
| "moved x = False"

fun pty_env :: up_env where
  "pty_env h GetDeviceList = UCount 3"
| "pty_env h (GetDescriptor i) = UDesc (fst (pty_D i)) (snd (pty_D i))"
| "pty_env h (GetProduct i n) = UString (fst (pty_S i n)) (snd (pty_S i n))"
| "pty_env h (GetActiveConfig i) = UConfig 0 pty_intfs"
| "pty_env h (ControlTransfer t q v i bs) = URet (int (length bs))"
| "pty_env h (BulkIn ep n) = UIn 0 [1, 2]"
| "pty_env h (PtyWrite bs) = URet 1"
| "pty_env h Poll = UPoll 1 False True"
| "pty_env h (PtyRead n) = UBytes [3, 4]"
| "pty_env h (BulkOut ep bs) = UOut 0 (length bs)"
| "pty_env h LoadFlags = UFlags (list_ex moved h) False"
| "pty_env h q = URet 0"

definition pty_world :: up_world where
  "pty_world = \<lparr>hist = [], drv = \<lparr>stop = False, failed = False\<rparr>\<rparr>"

theorem interface_is_nth_witness:
  "scan_interfaces pty_K 0 pty_intfs 0 = Some \<lparr>control_interface = 0, data_interface = 1, ep_in = 0x81, ep_out = 0x02\<rparr> \<and> scan_interfaces pty_K 1 pty_intfs 0 = None"
  by (subst (1 2) interface_is_nth; simp add: pty_intfs_def pty_K_def is_data_def acm_of_def Let_def)

lemmas pty_run = pty_world_def pty_K_def load_flags_def exec_def getd_def modd_def call_def BUFFER_SIZE_def

lemma pty_reader_runs:
  "run_state (usb_to_pty (Suc (Suc (Suc 0))) pty_env pty_K 0x81) pty_world =
     (Some (), \<lparr>hist = [(LoadFlags, UFlags False False), (BulkIn 0x81 16384, UIn 0 [1, 2]), (PtyWrite [1, 2], URet 1), (PtyWrite [2], URet 1), (LoadFlags, UFlags True False)],
        drv = \<lparr>stop = True, failed = False\<rparr>\<rparr>)"
  by (simp add: pty_run)

lemma pty_writer_runs:
  "run_state (pty_to_usb (Suc (Suc (Suc 0))) pty_env pty_K 0x02) pty_world =
     (Some (), \<lparr>hist = [(LoadFlags, UFlags False False), (Poll, UPoll 1 False True), (PtyRead 16384, UBytes [3, 4]), (BulkOut 0x02 [3, 4], UOut 0 2), (LoadFlags, UFlags True False)],
        drv = \<lparr>stop = True, failed = False\<rparr>\<rparr>)"
  by (simp add: pty_run)

theorem bridge_copies_witness:
  "(\<exists>k rest. hist (snd (run_state (usb_to_pty (Suc (Suc (Suc 0))) pty_env pty_K 0x81) pty_world)) = k \<and> stream (usb_in pty_K) k = stream pty_out k @ rest \<and> rest = [])
   \<and> (\<exists>k rest. hist (snd (run_state (pty_to_usb (Suc (Suc (Suc 0))) pty_env pty_K 0x02) pty_world)) = k \<and> stream pty_in k = stream (usb_out pty_K) k @ rest \<and> rest = [])"
proof -
  have K: "LIBUSB_ERROR_TIMEOUT pty_K \<noteq> LIBUSB_SUCCESS pty_K" by (simp add: pty_K_def)
  have h: "hist pty_world = []" by (simp add: pty_world_def)
  note b = bridge_copies [OF K, where fuel = "Suc (Suc (Suc 0))" and E = pty_env and w = pty_world, unfolded h append_Nil]
  show ?thesis
    using b [where ep = "0x81", THEN conjunct1, rule_format, OF pty_reader_runs] b [where ep = "0x02", THEN conjunct2, rule_format, OF pty_writer_runs]
    unfolding pty_reader_runs pty_writer_runs snd_conv world.simps bridge.simps by simp
qed

lemma pty_scan: "scan_interfaces pty_K 0 pty_intfs 0 = Some \<lparr>control_interface = 0, data_interface = 1, ep_in = 0x81, ep_out = 0x02\<rparr>"
  by code_simp

lemma pty_names: "is_expected EXPECTED_PRODUCT" "\<not> is_expected ''m1n1 uartproxy''" "DEFAULT_PID \<noteq> 0"
  by code_simp+

lemma pty_main_ends: "fst (run_state (pty_main (Suc (Suc 0)) pty_env pty_K [(CHR ''f'', 0, True)] False) pty_world) = Some 0"
proof -
  have "wp (pty_main (Suc (Suc 0)) pty_env pty_K [(CHR ''f'', 0, True)] False) (\<lambda>r _. r = Some 0) pty_world"
    unfolding pty_main_def
    by (simp add: wp_simps open_diagnostic_def upt_rec pty_D_def pty_S_def run_handle_def find_acm_data_interface_def pty_scan pty_names)
       (simp add: wp_simps pty_K_def pty_world_def configure_acm_def control_def run_bridge_def load_flags_def BUFFER_SIZE_def out_pty_def out_dtr_def out_data_def out_control_def
          out_handle_def out_usb_def)
  then show ?thesis by (simp add: wp_def split: prod.splits)
qed

theorem pty_releases_witness:
  "\<forall>x. uheld pty_K (hist (snd (run_state (pty_main (Suc (Suc 0)) pty_env pty_K [(CHR ''f'', 0, True)] False) pty_world))) x = 0"
proof
  fix x
  have r: "run_state (pty_main (Suc (Suc 0)) pty_env pty_K [(CHR ''f'', 0, True)] False) pty_world =
      (Some 0, snd (run_state (pty_main (Suc (Suc 0)) pty_env pty_K [(CHR ''f'', 0, True)] False) pty_world))"
    using pty_main_ends by (simp add: prod_eq_iff)
  show "uheld pty_K (hist (snd (run_state (pty_main (Suc (Suc 0)) pty_env pty_K [(CHR ''f'', 0, True)] False) pty_world))) x = 0"
    using pty_releases [OF r, of x] by (simp add: pty_world_def uheld_def)
qed

theorem open_diagnostic_first_witness:
  "fst (run_state (open_diagnostic pty_env pty_K DEFAULT_VID DEFAULT_PID) pty_world) = Some 2"
proof -
  have b: "bus pty_env pty_D (\<lambda>_. 0) pty_S" by (simp add: bus_def)
  have n: "pty_env h GetDeviceList = UCount 3" for h by simp
  have "find (wanted pty_K DEFAULT_VID DEFAULT_PID pty_D (\<lambda>_. 0) pty_S) [0..<nat 3] = Some 2" by code_simp
  then show ?thesis
    using open_diagnostic_first [OF b n, where K = pty_K and w = pty_world and vid = DEFAULT_VID and pid = DEFAULT_PID and x = Config,
      OF prod.collapse [symmetric]] by simp
qed

end
