(* ===== verification/Spec2Isabelle.thy ===== *)
theory Spec2Isabelle
  imports Pmgr Sart Aic Nvme_Prp Nvme_Core Nvme_Cmd Nvme_Config Nvme_Queue Nvme_Driver Nvme_Probe Nvme_Sart Usb_Verdict
    Dchid_Events Regcache Idreg Cpufreq Nvme_Readonly Usb_Pty
begin

text \<open>
  Wallace brings Linux up on a T6040 machine. The C code it works on are Linux drivers for Apple
  hardware, kept under \<open>src/evidence/2026-10-24-upstream-convergence\<close>, and a few tools of its own under \<open>src/scripts\<close>; this development
  models the drivers on the path from the interrupt controller to storage, the keyboard's transport, the register cache, frequency and feature-override code
  beside them, and the tools for storage and the USB console, and proves what makes them correct.

  \<^bold>\<open>The parts and how they interact.\<close> The power manager (PMGR) switches a device's domain and
  drives its reset line. The SART is an address filter: a coprocessor reaches memory only through regions the
  SART driver granted. The AIC delivers interrupts. The ANS is the storage coprocessor: its driver boots
  it over RTKit, gives it memory through the SART, speaks NVMe to it on top of the NVMe core, maps the data
  of requests into PRP lists, and completes requests from the AIC's interrupt. DockChannel is a byte FIFO to a second
  coprocessor; the HID transport frames commands, acknowledgements, events and reports on it. The USB root tool reads a
  disk's partition tables and superblock before the system is started from it, and stops unless everything is as expected; the read-only test then reads the storage repeatedly
  while it watches the kernel log, and the USB bridge carries a console. The register cache serves drivers whose device sleeps or is slow to read; the frequency driver sets the performance state
  of a cluster of cores; the override parser lets the command line change what features the kernel sees.

  \<^bold>\<open>The theories.\<close>
  \<^item> \<open>Wallace_Prelude\<close>: driver programs. A driver is a state monad over its record and a history of requests with
    their responses; everything outside the repository (registers, the kernel's services, other drivers that are
    not modelled) is an environment, a function of the history, about which nothing is assumed unless a property names
    it. Programs have weakest preconditions (\<open>wp_simps\<close>, \<open>wp_intros\<close>, and \<open>wp_steps\<close> for long runs), \<open>emits\<close> says what
    they may ask for, \<open>keeps\<close> which view of the state they leave alone, and \<open>maintains\<close> which invariants they keep. Bit fields and error numbers are here too.
  \<^item> \<open>Pmgr\<close>: \<open>local-source/drivers/pmdomain/apple/pmgr-pwrstate.c\<close>, whole: power-state changes, resets, the probe.
  \<^item> \<open>Sart\<close>: \<open>sources/asahi--drivers__soc__apple__sart.c\<close>, whole, over a store of 32-bit registers. The three hardware
    versions interpret the locale \<open>sart_layout\<close>; the driver refines a map from entries to regions.
  \<^item> \<open>Aic\<close>: \<open>local-source/drivers/irqchip/irq-apple-aic.c\<close>: the IRQ, FIQ and IPI chips, the domain, initialisation.
  \<^item> \<open>Nvme_Prp\<close>, \<open>Nvme_Queue\<close>, \<open>Nvme_Driver\<close>, \<open>Nvme_Probe\<close>, \<open>Nvme_Sart\<close>: \<open>local-source/drivers/nvme/host/apple.c\<close>, whole but
    for log output: the data mapping; the I/O path; disabling, timeouts and the reset work; allocation, probe, removal
    and power management; the shared memory of the coprocessor.
  \<^item> \<open>Nvme_Core\<close>, \<open>Nvme_Cmd\<close>, \<open>Nvme_Config\<close>: of \<open>sources/asahi--drivers__nvme__host__core.c\<close>, the controller's state and registers that the ANS driver runs on; the
    building and completing of commands; features, identifiers, power states, keep-alive and passed-through commands.
  \<^item> \<open>Dockchannel\<close>: \<open>sources/asahi--drivers__soc__apple__dockchannel.c\<close>, whole: the FIFO and the interrupt controller.
  \<^item> \<open>Dchid\<close>, \<open>Dchid_Events\<close>: \<open>sources/asahi--drivers__hid__dockchannel-hid__dockchannel-hid.c\<close>, whole but for log output and a
    sysfs attribute: frames and commands; interfaces, firmware, events, packets and the probe.
  \<^item> \<open>Usb_Root\<close>, \<open>Usb_Verdict\<close>: \<open>src/scripts/t6040-usb-root-metadata.c\<close>, whole in its Linux build: the program, and what its
    verdict means.
  \<^item> \<open>Regcache\<close>: \<open>sources/asahi--drivers__base__regmap__regcache.c\<close>: the cache over the operations of a cache type, defaults,
    read, write, drop, and the synchronisation by registers and by blocks.
  \<^item> \<open>Idreg\<close>: \<open>idreg-override.c\<close> of arm64: words, aliases, fields, filters and where the command line comes from.
  \<^item> \<open>Cpufreq\<close>: \<open>sources/asahi--drivers__cpufreq__apple-soc-cpufreq.c\<close>, whole.
  \<^item> \<open>Nvme_Readonly\<close>: \<open>src/scripts/t6040-nvme-readonly-test.c\<close>, whole.
  \<^item> \<open>Usb_Pty\<close>: \<open>src/scripts/t6040-usb-bulk-pty.c\<close>, whole but for messages.

  \<^bold>\<open>Interfaces.\<close> \<open>nvme_reg_ops\<close> and \<open>nvme_ctrl_reg_ops\<close> (Nvme_Core) are what the core relies on of a controller's register
    functions; \<open>Nvme_Driver\<close> interprets them on its own as \<open>apple_ops\<close> and so has the core's results about enabling,
    disabling and waiting. \<open>fifo\<close> (Nvme_Queue) is a bounded queue between a producer and a consumer; the completion ring
    with its phase bit interprets it as \<open>cq_ring\<close>. \<open>region_filter\<close> (Nvme_Sart) is what the shared memory relies on of the SART; it is
    a sublocale of \<open>sart_layout\<close>, so every hardware version provides it. \<open>byte_channel\<close> (Dockchannel) is what the HID transport relies on of
    the FIFO, interpreted as \<open>dock\<close>; \<open>byte_register\<close> (Usb_Root) is a checksum register stepped byte by byte, interpreted on the CRC as \<open>crc\<close>. The controller state machine is the step relation
    \<open>ctrl_step\<close> with its invariants by rule induction.

  \<^bold>\<open>What is shown.\<close> Power manager: the register traffic of a power-state change, what it never touches, that success
    means the state was reached, reset round trips, the probe's clean-up. SART: the driver agrees with its registers
    under every sequence of calls, grants exactly what was asked for and never touches the boot loader's entries. AIC:
    initialisation masks every line, masking acts like a map of lines, the handlers drain what is pending, a
    failing initialisation gives back what it took. NVMe: the PRP lists describe exactly the pages of the request and
    are given back; completions are taken in order, none lost or twice; a request is submitted once with its command in
    place; tags index the memory allocated for them; disabling, resets and timeouts end, in states that are
    listed; a probe that fails gives back its resources; removal and suspend stop the coprocessor. In the core, a completion is settled once
    and retries end; reads and writes name their blocks; the memory of a discard is released; power states are entered only if allowed; the search for identifiers looks at most 19 bytes behind its buffer. DockChannel: transfers move exactly the
    buffer's bytes, in order and within what the hardware offered. HID: a frame sent is a frame the receiver accepts; commands end
    with their acknowledgement or a timeout; the packet handler implements its specification; the shape of the state is kept;
    accepted firmware lies inside its file. USB root: the tool says yes exactly when a specification on the bytes of the
    medium holds, reads inside the medium only, and the checksum of its tables detects every single changed byte. Register cache: the block path writes what the single path
    writes; a synchronisation writes out exactly the registers that differ from their defaults and leaves the flags as they were; initialisation and exit balance. Overrides: the parser computes a
    specification on the words of the command line. Frequency: what is set is what is read back, on every layout of the hardware; initialisation and exit release what they took. Read-only test: it passes
    only if every pass returned the same bytes, from a device verified read-only, under a quiet log, and it does pass then. USB bridge: it opens the expected device only, claims the
    interface asked for, copies both streams without loss or reordering, and releases everything on every way out.

  \<^bold>\<open>Fuel.\<close> Some loops depend on their environment. \<open>wait_ready_loop\<close> ends when the clock passes a deadline: the fuel
    counts its sleeps, \<open>waits_end\<close> and \<open>clock_outlasts\<close> say that so many sleeps outlast the timeouts, and the properties then show a
    result. \<open>poll_cq_loop\<close> is given the depth of the ring, beyond which nothing can be pending (\<open>poll_cq_drains\<close>). The AIC's event loop
    ends when the event register reads 0 (\<open>aic_handle_irq_drains\<close>). A transfer over DockChannel goes on while waits succeed: when a completed wait means progress
    (\<open>waits_pay\<close>), twice as many rounds as bytes are enough (\<open>transfers_return\<close>, \<open>hid_entries_return\<close>). The tool's \<open>read_loop\<close> repeats interrupted reads; its
    fuel bounds the interruptions and the bytes together. \<open>default_sync_loop\<close> counts the registers up to the last one. \<open>check_log\<close> counts the lines that wait in the kernel
    log. The loops of the USB bridge run until they are told to stop: their fuel counts turns, and what is shown holds whenever they return. All other loops are structural.

  \<^bold>\<open>Concurrency.\<close> A driver function runs alone between its requests; locks are requests, so their order is in the
    history. The controller's side of the completion ring is interleaved with the driver's steps explicitly (\<open>run_events\<close>), as
    are the operations on the controller's state (\<open>ctrl_step\<close>). While a HID command waits, the receive thread runs: the answer to the wait
    is the list of packets it hands over, and each is handled as the thread would. The two loops of the USB bridge and its signal handler share two flags that they
    only set: each look at a flag asks the environment what the others have set since (\<open>LoadFlags\<close>).

  \<^bold>\<open>Not modelled.\<close> Log output; the remainder of the NVMe core (identifying and scanning namespaces, subsystems, ioctls, multipath), which the
    driver reaches through core functions that are requests; CPU feature detection, which is mostly tables built by macros of kernel headers; the wireless driver's PCIe
    bus; the idle and delay loops; the other snapshots of the modelled files; the stubs of the archived XNU shim; device trees,
    patches and scripts. Kernel headers are not in the repository: their constants are records of parameters.

  \<^bold>\<open>What could follow.\<close> Of the NVMe core, scanning for namespaces and their limits; of the wireless driver, the rings it shares with its firmware.
\<close>

end
